(* ===== verification/Prelude.thy ===== *)
theory Prelude
  imports Complex_Main "HOL-Library.Word" "HOL-Library.Signed_Division"
    "HOL-Library.Char_ord" "HOL-Library.List_Lexorder" "HOL-Library.Sublist"
    "HOL-Library.Log_Nat"
begin

text \<open>
  What every component of the development shares: the machine types of the Go sources (bytes,
  byte slices, 64-bit integers, 32-bit identifiers), the standard library's three-way byte
  comparison, big-endian integers as \<open>encoding/binary\<close> writes them, Go's slicing and the
  lexicographic facts about concatenated byte strings on which the key encoding rests.

  A Go \<open>string\<close> is a sequence of bytes; it is modelled by HOL's \<open>string\<close>, whose
  characters are exactly the 256 bytes.  A \<open>[]byte\<close> is a list of 8-bit words.
\<close>

named_theorems codec_simps \<open>unfolding of the value and key encodings\<close>

section \<open>Machine types\<close>

type_synonym byte = "8 word"
type_synonym bytes = "byte list"
type_synonym int64 = "64 word"
type_synonym uint32 = "32 word"

definition byte_of_char :: "char \<Rightarrow> byte" where
  "byte_of_char c = of_nat (of_char c)"

definition char_of_byte :: "byte \<Rightarrow> char" where
  "char_of_byte w = char_of (unat w)"

definition bytes_of_string :: "string \<Rightarrow> bytes" where
  "bytes_of_string s = map byte_of_char s"

definition string_of_bytes :: "bytes \<Rightarrow> string" where
  "string_of_bytes b = map char_of_byte b"

section \<open>Three-way comparison\<close>

text \<open>\<open>bytes.Compare\<close>, \<open>strings.Compare\<close> and the shape of \<open>cmpInt\<close>.\<close>

definition cmp3 :: "'a::linorder \<Rightarrow> 'a \<Rightarrow> int" where
  "cmp3 a b = (if a < b then -1 else if b < a then 1 else 0)"

section \<open>Big-endian integers\<close>

text \<open>\<open>binary.BigEndian.AppendUint64\<close> and \<open>AppendUint32\<close> write \<open>be_bytes 8\<close> and
  \<open>be_bytes 4\<close> of the unsigned value; \<open>be_nat\<close> reads such bytes back.\<close>

fun be_bytes :: "nat \<Rightarrow> nat \<Rightarrow> bytes" where
  "be_bytes 0 x = []"
| "be_bytes (Suc k) x = of_nat (x div 256 ^ k) # be_bytes k (x mod 256 ^ k)"

fun be_nat :: "bytes \<Rightarrow> nat" where
  "be_nat [] = 0"
| "be_nat (b # bs) = unat b * 256 ^ length bs + be_nat bs"

definition append_uint64 :: "bytes \<Rightarrow> 64 word \<Rightarrow> bytes" where
  "append_uint64 dst u = dst @ be_bytes 8 (unat u)"

definition append_uint32 :: "bytes \<Rightarrow> uint32 \<Rightarrow> bytes" where
  "append_uint32 dst u = dst @ be_bytes 4 (unat u)"

definition get_uint64 :: "bytes \<Rightarrow> 64 word" where
  "get_uint64 b = of_nat (be_nat (take 8 b))"

definition get_uint32 :: "bytes \<Rightarrow> uint32" where
  "get_uint32 b = of_nat (be_nat (take 4 b))"

section \<open>Strings as bytes\<close>

lemma unat_less: "unat (w :: 'a::len word) < 2 ^ LENGTH('a)"
  by (rule unsigned_less)

lemma unat_of_nat_less: "n < 2 ^ LENGTH('a) \<Longrightarrow> unat (of_nat n :: 'a::len word) = n"
  by (simp add: unat_of_nat)

lemma unat_byte_of_char [simp]: "unat (byte_of_char c) = of_char c"
  using nat_of_char_less_256 [of c] by (simp add: byte_of_char_def unat_of_nat)

lemma char_of_byte_of_char [simp]: "char_of_byte (byte_of_char c) = c"
  by (simp add: char_of_byte_def)

lemma byte_less_256: "unat (w :: byte) < 256"
  using unat_less [of w] by simp

lemma byte_of_char_of_byte [simp]: "byte_of_char (char_of_byte w) = w"
  using byte_less_256 [of w] by (simp add: byte_of_char_def char_of_byte_def)

lemma byte_of_char_less [simp]: "byte_of_char c < byte_of_char d \<longleftrightarrow> c < d"
  by (simp add: word_less_nat_alt less_char_def)

lemma byte_of_char_inj [simp]: "byte_of_char c = byte_of_char d \<longleftrightarrow> c = d"
  by (metis char_of_byte_of_char)

lemma string_of_bytes_of_string [simp]: "string_of_bytes (bytes_of_string s) = s"
  by (simp add: bytes_of_string_def string_of_bytes_def map_idI)

lemma bytes_of_string_of_bytes [simp]: "bytes_of_string (string_of_bytes b) = b"
  by (simp add: bytes_of_string_def string_of_bytes_def map_idI)

lemma bytes_of_string_inj [simp]: "bytes_of_string s = bytes_of_string t \<longleftrightarrow> s = t"
  by (metis string_of_bytes_of_string)

lemma length_bytes_of_string [simp]: "length (bytes_of_string s) = length s"
  by (simp add: bytes_of_string_def)

lemma bytes_of_string_Nil [simp]: "bytes_of_string [] = []"
  by (simp add: bytes_of_string_def)

lemma bytes_of_string_Cons [simp]: "bytes_of_string (c # s) = byte_of_char c # bytes_of_string s"
  by (simp add: bytes_of_string_def)

lemma string_of_bytes_Nil [simp]: "string_of_bytes [] = []"
  by (simp add: string_of_bytes_def)

lemma bytes_of_string_less [simp]: "bytes_of_string s < bytes_of_string t \<longleftrightarrow> s < t"
proof (induction s arbitrary: t)
  case Nil
  then show ?case by (cases t) simp_all
next
  case (Cons c s)
  then show ?case by (cases t) simp_all
qed

section \<open>Comparison\<close>

lemma cmp3_cases: "cmp3 a b = -1 \<or> cmp3 a b = 0 \<or> cmp3 a b = 1"
  by (simp add: cmp3_def)

lemma cmp3_eq_0 [simp]: "cmp3 a b = 0 \<longleftrightarrow> a = b"
  by (auto simp: cmp3_def)

lemma cmp3_neg [simp]: "cmp3 a b < 0 \<longleftrightarrow> a < b"
  by (auto simp: cmp3_def)

lemma cmp3_pos [simp]: "0 < cmp3 a b \<longleftrightarrow> b < a"
  by (auto simp: cmp3_def)

lemma cmp3_le [simp]: "cmp3 a b \<le> 0 \<longleftrightarrow> a \<le> b"
  by (auto simp: cmp3_def)

lemma cmp3_ge [simp]: "0 \<le> cmp3 a b \<longleftrightarrow> b \<le> a"
  by (auto simp: cmp3_def)

lemma cmp3_swap: "cmp3 b a = - cmp3 a b"
  by (auto simp: cmp3_def)

lemma cmp3_bytes_of_string [simp]: "cmp3 (bytes_of_string s) (bytes_of_string t) = cmp3 s t"
  by (simp add: cmp3_def)

lemma cmp3_mono:
  assumes "a < b \<longleftrightarrow> c < d" and "b < a \<longleftrightarrow> d < c"
  shows "cmp3 a b = cmp3 c d"
  using assms by (simp add: cmp3_def)

section \<open>Big-endian facts\<close>

lemma length_be_bytes [simp]: "length (be_bytes k x) = k"
  by (induction k arbitrary: x) auto

lemma unat_of_nat_byte: "x < 256 \<Longrightarrow> unat (of_nat x :: byte) = x"
  by (simp add: unat_of_nat)

lemma be_digit_less: "x < 256 ^ Suc k \<Longrightarrow> x div 256 ^ k < (256 :: nat)"
  by (simp add: less_mult_imp_div_less)

lemma be_nat_be_bytes [simp]: "x < 256 ^ k \<Longrightarrow> be_nat (be_bytes k x) = x"
proof (induction k arbitrary: x)
  case (Suc k)
  have "be_nat (be_bytes k (x mod 256 ^ k)) = x mod 256 ^ k" by (rule Suc.IH) simp
  then show ?case
    using unat_of_nat_byte [OF be_digit_less [OF Suc.prems]] by (simp add: div_mult_mod_eq)
qed simp

lemma be_nat_less: "be_nat bs < 256 ^ length bs"
proof (induction bs)
  case (Cons b bs)
  have "unat b * 256 ^ length bs + be_nat bs < Suc (unat b) * 256 ^ length bs"
    using Cons by simp
  also have "\<dots> \<le> 256 * 256 ^ length bs"
    using byte_less_256 [of b] by (intro mult_le_mono1) simp
  finally show ?case by simp
qed simp

lemma be_bytes_be_nat [simp]: "be_bytes (length bs) (be_nat bs) = bs"
proof (induction bs)
  case (Cons b bs)
  then show ?case using be_nat_less [of bs] by simp
qed simp

lemma less_div_mod_iff:
  "x < y \<longleftrightarrow> x div p < y div p \<or> x div p = y div p \<and> x mod p < y mod (p :: nat)"
proof -
  have "x div p * p + x mod p = x" "y div p * p + y mod p = y" by simp_all
  moreover have "x div p < y div p \<Longrightarrow> x < y" by (metis div_le_mono not_le)
  moreover have "y div p < x div p \<Longrightarrow> \<not> x < y" by (metis div_le_mono less_imp_le_nat not_le)
  ultimately show ?thesis by (metis linorder_neqE_nat nat_add_left_cancel_less nat_neq_iff)
qed

lemma be_bytes_less:
  assumes "x < 256 ^ k" and "y < 256 ^ k"
  shows "be_bytes k x < be_bytes k y \<longleftrightarrow> x < y"
  using assms
proof (induction k arbitrary: x y)
  case (Suc k)
  let ?p = "256 ^ k :: nat"
  have digits: "x div ?p < 256" "y div ?p < 256"
    using Suc.prems by (auto intro: be_digit_less)
  have head: "(of_nat (x div ?p) :: byte) < of_nat (y div ?p) \<longleftrightarrow> x div ?p < y div ?p"
    "(of_nat (x div ?p) :: byte) = of_nat (y div ?p) \<longleftrightarrow> x div ?p = y div ?p"
    using digits by (auto simp: word_less_nat_alt unat_of_nat_byte dest: arg_cong [where f = unat])
  have tail: "be_bytes k (x mod ?p) < be_bytes k (y mod ?p) \<longleftrightarrow> x mod ?p < y mod ?p"
    by (rule Suc.IH) auto
  have "x < y \<longleftrightarrow> x div ?p < y div ?p \<or> x div ?p = y div ?p \<and> x mod ?p < y mod ?p"
    by (rule less_div_mod_iff)
  then show ?case using head tail by simp
qed simp

lemma be_bytes_inj:
  assumes "x < 256 ^ k" and "y < 256 ^ k"
  shows "be_bytes k x = be_bytes k y \<longleftrightarrow> x = y"
  using assms by (metis be_nat_be_bytes)

lemma unat64_bound: "unat (u :: 64 word) < 256 ^ 8"
  using unat_less [of u] by simp

lemma unat32_bound: "unat (u :: 32 word) < 256 ^ 4"
  using unat_less [of u] by simp

lemma length_append_uint64 [simp]: "length (append_uint64 dst u) = length dst + 8"
  by (simp add: append_uint64_def)

lemma length_append_uint32 [simp]: "length (append_uint32 dst u) = length dst + 4"
  by (simp add: append_uint32_def)

lemma get_append_uint64 [simp]: "get_uint64 (be_bytes 8 (unat u) @ rest) = u"
  using unat64_bound [of u] by (simp add: get_uint64_def)

lemma get_append_uint32 [simp]: "get_uint32 (be_bytes 4 (unat u) @ rest) = u"
  using unat32_bound [of u] by (simp add: get_uint32_def)

lemma cmp3_be_bytes64 [simp]:
  fixes u v :: "64 word"
  shows "cmp3 (be_bytes 8 (unat u)) (be_bytes 8 (unat v)) = cmp3 u v"
  using be_bytes_less [OF unat64_bound unat64_bound, of u v]
    be_bytes_less [OF unat64_bound unat64_bound, of v u]
  by (simp only: cmp3_def word_less_nat_alt)

section \<open>Lexicographic order and concatenation\<close>

lemma less_append_same [simp]: "(p @ x < p @ y) = (x < (y :: 'a::linorder list))"
  by (induction p) auto

lemma cmp3_append_same [simp]: "cmp3 (p @ x) (p @ y) = cmp3 x (y :: 'a::linorder list)"
  by (simp add: cmp3_def)

lemma cmp3_Cons_same [simp]: "cmp3 (a # x) (a # y) = cmp3 x (y :: 'a::linorder list)"
  by (simp add: cmp3_def)

lemma less_append_decided:
  fixes a b :: "'a::linorder list"
  assumes "\<not> prefix a b" and "\<not> prefix b a"
  shows "a @ x < b @ y \<longleftrightarrow> a < b"
  using assms
proof (induction a arbitrary: b)
  case (Cons u a)
  then show ?case by (cases b) auto
qed simp

lemma prefix_le: "prefix a b \<Longrightarrow> a \<le> (b :: 'a::linorder list)"
proof (induction a arbitrary: b)
  case (Cons u a)
  then show ?case by (cases b) auto
qed simp

lemma same_length_less_append:
  fixes a b :: "'a::linorder list"
  assumes "length a = length b"
  shows "a @ x < b @ y \<longleftrightarrow> a < b \<or> a = b \<and> x < y"
  using assms by (induction a b rule: list_induct2) auto

end
