(* ===== verification/Float64.thy ===== *)
theory Float64
  imports Prelude
begin

unbundle bit_operations_syntax

text \<open>
  Go's \<open>float64\<close> as the sources use it: the IEEE-754 bit pattern (\<open>math.Float64bits\<close>,
  \<open>math.Float64frombits\<close>), \<open>math.IsNaN\<close> and \<open>math.IsInf\<close>, the comparisons, the
  conversion from \<open>int64\<close> and the four arithmetic operations with rounding to nearest, ties
  to even.

  Every finite double is an integer multiple of \<open>2 ^ -1074\<close>, so a value is read as that
  integer (\<open>f_int\<close>) and all arithmetic is exact integer arithmetic followed by one rounding
  (\<open>f_round\<close>).  An infinity is read as the next multiple above the largest finite double,
  which makes the comparisons on \<open>f_int\<close> right for it too.  Go leaves the payload of a NaN
  result open; the model returns what x86-64 returns (a quieted operand, else the default NaN).
\<close>

section \<open>The bit pattern\<close>

datatype float64 = Float64frombits (Float64bits: "64 word")

definition f_sign :: "float64 \<Rightarrow> bool" where
  "f_sign x \<longleftrightarrow> 2 ^ 63 \<le> unat (Float64bits x)"

definition f_mag :: "float64 \<Rightarrow> nat" where
  "f_mag x = unat (Float64bits x) mod 2 ^ 63"

definition f_exp :: "float64 \<Rightarrow> nat" where
  "f_exp x = f_mag x div 2 ^ 52"

definition f_frac :: "float64 \<Rightarrow> nat" where
  "f_frac x = f_mag x mod 2 ^ 52"

definition IsNaN :: "float64 \<Rightarrow> bool" where
  "IsNaN x \<longleftrightarrow> f_exp x = 2047 \<and> f_frac x \<noteq> 0"

definition IsInf :: "float64 \<Rightarrow> bool" where
  "IsInf x \<longleftrightarrow> f_exp x = 2047 \<and> f_frac x = 0"

definition f_make :: "bool \<Rightarrow> nat \<Rightarrow> float64" where
  "f_make s mag = Float64frombits (of_nat ((if s then 2 ^ 63 else 0) + mag))"

definition f_pos_zero :: float64 where "f_pos_zero = Float64frombits 0"
definition f_neg_zero :: float64 where "f_neg_zero = Float64frombits 0x8000000000000000"
definition f_pos_inf :: float64 where "f_pos_inf = Float64frombits 0x7FF0000000000000"
definition f_neg_inf :: float64 where "f_neg_inf = Float64frombits 0xFFF0000000000000"

text \<open>\<open>math.NaN()\<close>, and the NaN an invalid operation returns on x86-64.\<close>

definition f_nan :: float64 where "f_nan = Float64frombits 0x7FF8000000000001"
definition f_default_nan :: float64 where "f_default_nan = Float64frombits 0xFFF8000000000000"

section \<open>The value and the comparisons\<close>

definition f_units :: "float64 \<Rightarrow> nat" where
  "f_units x = (if f_exp x = 0 then f_frac x else (2 ^ 52 + f_frac x) * 2 ^ (f_exp x - 1))"

definition f_int :: "float64 \<Rightarrow> int" where
  "f_int x = (if f_sign x then - int (f_units x) else int (f_units x))"

definition f_less :: "float64 \<Rightarrow> float64 \<Rightarrow> bool" where
  "f_less a b \<longleftrightarrow> \<not> IsNaN a \<and> \<not> IsNaN b \<and> f_int a < f_int b"

definition f_eq :: "float64 \<Rightarrow> float64 \<Rightarrow> bool" where
  "f_eq a b \<longleftrightarrow> \<not> IsNaN a \<and> \<not> IsNaN b \<and> f_int a = f_int b"

section \<open>Rounding and arithmetic\<close>

text \<open>The double nearest to \<open>num / den\<close> units of \<open>2 ^ -1074\<close>, ties to even; a magnitude
  past the largest finite double becomes an infinity.\<close>

definition f_round :: "bool \<Rightarrow> nat \<Rightarrow> nat \<Rightarrow> float64" where
  "f_round s num den =
     (let q = num div den;
          shift = floorlog 2 q - 53;
          unit = 2 ^ shift * den;
          m = num div unit;
          r = num mod unit;
          m' = (if 2 * r > unit \<or> (2 * r = unit \<and> odd m) then m + 1 else m)
      in f_make s (min (shift * 2 ^ 52 + m') (2047 * 2 ^ 52)))"

definition f_of_int64 :: "int64 \<Rightarrow> float64" where
  "f_of_int64 i = f_round (sint i < 0) (nat \<bar>sint i\<bar> * 2 ^ 1074) 1"

definition f_neg :: "float64 \<Rightarrow> float64" where
  "f_neg x = Float64frombits (Float64bits x XOR 0x8000000000000000)"

definition f_quiet :: "float64 \<Rightarrow> float64" where
  "f_quiet x = Float64frombits (Float64bits x OR 0x0008000000000000)"

definition f_add :: "float64 \<Rightarrow> float64 \<Rightarrow> float64" where
  "f_add a b =
     (if IsNaN a then f_quiet a else if IsNaN b then f_quiet b
      else if IsInf a then (if IsInf b \<and> f_sign a \<noteq> f_sign b then f_default_nan else a)
      else if IsInf b then b
      else let s = f_int a + f_int b in
        if s = 0 then f_make (f_sign a \<and> f_sign b) 0
        else f_round (s < 0) (nat \<bar>s\<bar>) 1)"

definition f_sub :: "float64 \<Rightarrow> float64 \<Rightarrow> float64" where
  "f_sub a b =
     (if IsNaN a then f_quiet a else if IsNaN b then f_quiet b else f_add a (f_neg b))"

definition f_mul :: "float64 \<Rightarrow> float64 \<Rightarrow> float64" where
  "f_mul a b =
     (let s = (f_sign a \<noteq> f_sign b) in
      if IsNaN a then f_quiet a else if IsNaN b then f_quiet b
      else if IsInf a \<or> IsInf b then
        (if f_units a = 0 \<or> f_units b = 0 then f_default_nan else f_make s (2047 * 2 ^ 52))
      else f_round s (f_units a * f_units b) (2 ^ 1074))"

definition f_div :: "float64 \<Rightarrow> float64 \<Rightarrow> float64" where
  "f_div a b =
     (let s = (f_sign a \<noteq> f_sign b) in
      if IsNaN a then f_quiet a else if IsNaN b then f_quiet b
      else if IsInf a then (if IsInf b then f_default_nan else f_make s (2047 * 2 ^ 52))
      else if IsInf b then f_make s 0
      else if f_units b = 0 then
        (if f_units a = 0 then f_default_nan else f_make s (2047 * 2 ^ 52))
      else f_round s (f_units a * 2 ^ 1074) (f_units b))"

section \<open>The order of the bit patterns is the order of the values\<close>

definition mag_units :: "nat \<Rightarrow> nat" where
  "mag_units m = (if m div 2 ^ 52 = 0 then m mod 2 ^ 52
     else (2 ^ 52 + m mod 2 ^ 52) * 2 ^ (m div 2 ^ 52 - 1))"

lemma f_units_mag: "f_units x = mag_units (f_mag x)"
  by (simp add: f_units_def mag_units_def f_exp_def f_frac_def)

lemma mag_units_Suc: "mag_units m < mag_units (Suc m)"
proof -
  define e f where "e = m div 2 ^ 52" and "f = m mod (2 ^ 52 :: nat)"
  have m: "m = e * 2 ^ 52 + f" and f: "f < 2 ^ 52"
    by (simp_all add: e_def f_def)
  show ?thesis
  proof (cases "Suc f = 2 ^ 52")
    case True
    then have S: "Suc m = Suc e * 2 ^ 52" using m by simp
    have d: "Suc m div 2 ^ 52 = Suc e" "Suc m mod 2 ^ 52 = 0"
      unfolding S by (simp_all only: nonzero_mult_div_cancel_right mod_mult_self2_is_0) simp_all
    show ?thesis
    proof (cases e)
      case 0
      then have "mag_units m = f" and "mag_units (Suc m) = 2 ^ 52"
        using d by (simp_all only: mag_units_def e_def [symmetric] f_def [symmetric]) simp_all
      then show ?thesis using f by simp
    next
      case (Suc k)
      have "(2 ^ 52 + f) * 2 ^ k < 2 ^ 53 * (2 ^ k :: nat)" using f by simp
      moreover have "mag_units m = (2 ^ 52 + f) * 2 ^ k"
        using Suc by (simp only: mag_units_def e_def [symmetric] f_def [symmetric]) simp
      moreover have "mag_units (Suc m) = 2 ^ 52 * 2 ^ Suc k"
        using d Suc by (simp only: mag_units_def) simp
      ultimately show ?thesis by simp
    qed
  next
    case False
    then have "Suc f < 2 ^ 52" using f by simp
    then have d: "Suc m div 2 ^ 52 = e" "Suc m mod 2 ^ 52 = Suc f"
      using m by (simp_all add: div_nat_eqI mod_nat_eqI)
    then have "mag_units (Suc m) = (if e = 0 then Suc f else (2 ^ 52 + Suc f) * 2 ^ (e - 1))"
      by (simp only: mag_units_def)
    moreover have "mag_units m = (if e = 0 then f else (2 ^ 52 + f) * 2 ^ (e - 1))"
      by (simp only: mag_units_def e_def [symmetric] f_def [symmetric])
    ultimately show ?thesis by simp
  qed
qed

lemma mag_units_less [simp]: "mag_units m < mag_units n \<longleftrightarrow> m < n"
  by (simp add: lift_Suc_mono_less_iff mag_units_Suc)

lemma f_units_less [simp]: "f_units a < f_units b \<longleftrightarrow> f_mag a < f_mag b"
  by (simp add: f_units_mag)

lemma f_units_eq [simp]: "f_units a = f_units b \<longleftrightarrow> f_mag a = f_mag b"
  by (metis f_units_less nat_neq_iff)

lemma mag_units_0 [simp]: "mag_units 0 = 0"
  by (simp add: mag_units_def)

lemma f_units_eq_0 [simp]: "f_units a = 0 \<longleftrightarrow> f_mag a = 0"
  by (metis f_units_mag mag_units_0 mag_units_less neq0_conv)

lemma f_mag_bound: "f_mag x < 2 ^ 63"
  by (simp add: f_mag_def)

lemma Float64bits_split:
  "unat (Float64bits x) = (if f_sign x then 2 ^ 63 else 0) + f_mag x"
proof -
  have "unat (Float64bits x) < 2 * 2 ^ 63" using unat_less [of "Float64bits x"] by simp
  then show ?thesis by (auto simp: f_sign_def f_mag_def le_mod_geq)
qed

lemma float64_eqI: "f_sign a = f_sign b \<Longrightarrow> f_mag a = f_mag b \<Longrightarrow> a = b"
  by (metis Float64bits_split float64.expand word_unat_eq_iff)

lemma f_mag_make [simp]: "mag < 2 ^ 63 \<Longrightarrow> f_mag (f_make s mag) = mag"
  and f_sign_make [simp]: "mag < 2 ^ 63 \<Longrightarrow> f_sign (f_make s mag) = s"
proof -
  assume m: "mag < 2 ^ 63"
  let ?x = "f_make s mag"
  have "unat (Float64bits ?x) = (if s then 2 ^ 63 else 0) + mag"
    unfolding f_make_def float64.sel by (rule unat_of_nat_less) (use m in simp)
  then have "(if f_sign ?x then 2 ^ 63 else 0) + f_mag ?x = (if s then 2 ^ 63 else 0) + mag"
    by (simp add: Float64bits_split)
  then show "f_mag ?x = mag" and "f_sign ?x = s"
    using m f_mag_bound [of ?x] by (simp_all split: if_splits)
qed

lemma f_int_less_cases:
  "f_int a < f_int b \<longleftrightarrow>
     (if f_sign a then (if f_sign b then f_mag b < f_mag a else 0 < f_mag a \<or> 0 < f_mag b)
      else (if f_sign b then False else f_mag a < f_mag b))"
  using f_units_eq_0 [of a] f_units_eq_0 [of b]
  by (auto simp: f_int_def simp del: f_units_eq_0)

lemma f_int_eq_cases:
  "f_int a = f_int b \<longleftrightarrow>
     f_mag a = f_mag b \<and> (f_sign a = f_sign b \<or> f_mag a = 0)"
  using f_units_eq_0 [of a] f_units_eq_0 [of b]
  by (auto simp: f_int_def simp del: f_units_eq_0)

lemma f_exp_bound: "f_exp x \<le> 2047"
  using f_mag_bound [of x] less_mult_imp_div_less [of "f_mag x" 2048 "2 ^ 52"]
  by (simp add: f_exp_def)

lemma f_frac_bound: "f_frac x < 2 ^ 52"
  unfolding f_frac_def by (rule mod_less_divisor) simp

lemma f_mag_split: "f_mag x = f_exp x * 2 ^ 52 + f_frac x"
  by (simp only: f_exp_def f_frac_def div_mult_mod_eq)

lemma IsNaN_mag: "IsNaN x \<longleftrightarrow> 2047 * 2 ^ 52 < f_mag x"
  using f_exp_bound [of x] f_frac_bound [of x] unfolding IsNaN_def f_mag_split by auto

end
