(* ===== verification/Values.thy ===== *)
theory Values
  imports Float64 "HOL-Library.Product_Lexorder"
begin

text \<open>
  The value model of \<open>src/types/value.go\<close>: the five kinds, the tagged value, the numeric
  comparison \<open>Compare\<close> that SQL's operators use, the total order \<open>Order\<close> that sorting,
  grouping and the key encoding use, and the coercion applied before a value is stored.
  \<open>Value\<close> is the Go struct read as the tagged union its constructors make it: the payload
  field that belongs to the kind is the constructor's argument, and every other field is zero.
\<close>

section \<open>Kinds and values\<close>

datatype Kind = KindNull | KindBool | KindInt | KindFloat | KindText

text \<open>The numeric value of a \<open>Kind\<close> constant (\<open>iota\<close>), which orders the kinds.\<close>

fun kind_num :: "Kind \<Rightarrow> nat" where
  "kind_num KindNull = 0"
| "kind_num KindBool = 1"
| "kind_num KindInt = 2"
| "kind_num KindFloat = 3"
| "kind_num KindText = 4"

lemma kind_num_inj [simp]: "kind_num a = kind_num b \<longleftrightarrow> a = b"
  by (cases a; cases b) simp_all

instantiation Kind :: linorder
begin

definition less_eq_Kind :: "Kind \<Rightarrow> Kind \<Rightarrow> bool" where
  "less_eq_Kind a b \<longleftrightarrow> kind_num a \<le> kind_num b"

definition less_Kind :: "Kind \<Rightarrow> Kind \<Rightarrow> bool" where
  "less_Kind a b \<longleftrightarrow> kind_num a < kind_num b"

instance
  by standard (auto simp: less_eq_Kind_def less_Kind_def)

end

fun Kind_String :: "Kind \<Rightarrow> string" where
  "Kind_String KindNull = ''NULL''"
| "Kind_String KindBool = ''BOOL''"
| "Kind_String KindInt = ''INT''"
| "Kind_String KindFloat = ''FLOAT''"
| "Kind_String KindText = ''TEXT''"

datatype Value = VNull | VBool bool | VInt int64 | VFloat float64 | VText string

fun Value_Kind :: "Value \<Rightarrow> Kind" where
  "Value_Kind VNull = KindNull"
| "Value_Kind (VBool _) = KindBool"
| "Value_Kind (VInt _) = KindInt"
| "Value_Kind (VFloat _) = KindFloat"
| "Value_Kind (VText _) = KindText"

definition IsNull :: "Value \<Rightarrow> bool" where
  "IsNull v \<longleftrightarrow> Value_Kind v = KindNull"

fun AsInt :: "Value \<Rightarrow> int64" where
  "AsInt (VInt i) = i"
| "AsInt (VBool b) = (if b then 1 else 0)"
| "AsInt _ = 0"

fun AsFloat :: "Value \<Rightarrow> float64" where
  "AsFloat (VInt i) = f_of_int64 i"
| "AsFloat (VFloat f) = f"
| "AsFloat _ = f_pos_zero"

fun AsText :: "Value \<Rightarrow> string" where
  "AsText (VText s) = s"
| "AsText _ = []"

definition AsBool :: "Value \<Rightarrow> bool" where
  "AsBool v \<longleftrightarrow> AsInt v \<noteq> 0"

definition IsNumeric :: "Value \<Rightarrow> bool" where
  "IsNumeric v \<longleftrightarrow> Value_Kind v = KindInt \<or> Value_Kind v = KindFloat"

section \<open>Errors of the package\<close>

text \<open>One constructor per place that reports an error; \<open>is_type_error\<close> is
  \<open>errors.Is(err, ErrType)\<close>.  \<open>ErrDivideByZero\<close> and an unknown operator are the two
  that do not wrap \<open>ErrType\<close>.\<close>

datatype types_error =
    NullHasNoOrdering
  | CannotCompare Kind Kind
  | CannotStore Kind Kind
  | WantsNumbers string Kind Kind
  | WantsTwoInts Kind Kind
  | WantsANumber Kind
  | LikeWantsText Kind Kind
  | NotACondition Kind
  | AggregateWantsNumbers string Kind
  | ErrDivideByZero
  | UnknownComparison string

fun is_type_error :: "types_error \<Rightarrow> bool" where
  "is_type_error ErrDivideByZero = False"
| "is_type_error (UnknownComparison _) = False"
| "is_type_error _ = True"

section \<open>Comparison\<close>

definition cmpInt :: "int64 \<Rightarrow> int64 \<Rightarrow> int" where
  "cmpInt a b = (if a <s b then -1 else if b <s a then 1 else 0)"

definition cmpFloat :: "float64 \<Rightarrow> float64 \<Rightarrow> int" where
  "cmpFloat a b =
     (if f_less a b then -1
      else if f_less b a then 1
      else if f_eq a b then 0
      else if IsNaN a \<and> IsNaN b then 0
      else if IsNaN a then 1
      else -1)"

definition Compare :: "Value \<Rightarrow> Value \<Rightarrow> types_error + int" where
  "Compare a b =
     (if IsNull a \<or> IsNull b then Inl NullHasNoOrdering
      else if Value_Kind a = KindInt \<and> Value_Kind b = KindInt then
        Inr (cmpInt (AsInt a) (AsInt b))
      else if IsNumeric a \<and> IsNumeric b then Inr (cmpFloat (AsFloat a) (AsFloat b))
      else if Value_Kind a = KindText \<and> Value_Kind b = KindText then
        Inr (cmp3 (AsText a) (AsText b))
      else if Value_Kind a = KindBool \<and> Value_Kind b = KindBool then
        Inr (cmpInt (AsInt a) (AsInt b))
      else Inl (CannotCompare (Value_Kind a) (Value_Kind b)))"

definition Order :: "Value \<Rightarrow> Value \<Rightarrow> int" where
  "Order a b =
     (if Value_Kind a \<noteq> Value_Kind b then
        cmpInt (of_nat (kind_num (Value_Kind a))) (of_nat (kind_num (Value_Kind b)))
      else case Value_Kind a of
        KindNull \<Rightarrow> 0
      | KindBool \<Rightarrow> cmpInt (AsInt a) (AsInt b)
      | KindInt \<Rightarrow> cmpInt (AsInt a) (AsInt b)
      | KindFloat \<Rightarrow> cmpFloat (AsFloat a) (AsFloat b)
      | KindText \<Rightarrow> cmp3 (AsText a) (AsText b))"

definition Equal :: "Value \<Rightarrow> Value \<Rightarrow> bool" where
  "Equal a b \<longleftrightarrow> Order a b = 0"

definition Coerce :: "Value \<Rightarrow> Kind \<Rightarrow> types_error + Value" where
  "Coerce v want =
     (if IsNull v \<or> Value_Kind v = want then Inr v
      else if Value_Kind v = KindInt \<and> want = KindFloat then Inr (VFloat (f_of_int64 (AsInt v)))
      else Inl (CannotStore (Value_Kind v) want))"

section \<open>Rank of a value in the total order\<close>

text \<open>\<open>Order\<close> is the comparison of a key in a linear order: the kind, then the number,
  then the text.  Every law of the order follows from that.\<close>

definition f_rank :: "float64 \<Rightarrow> int" where
  "f_rank x = (if IsNaN x then int (mag_units (2 ^ 63)) else f_int x)"

fun v_rank :: "Value \<Rightarrow> nat \<times> int \<times> string" where
  "v_rank VNull = (0, 0, [])"
| "v_rank (VBool b) = (1, if b then 1 else 0, [])"
| "v_rank (VInt i) = (2, sint i, [])"
| "v_rank (VFloat f) = (3, f_rank f, [])"
| "v_rank (VText s) = (4, 0, s)"

lemma cmpInt_sint: "cmpInt a b = cmp3 (sint a) (sint b)"
  by (simp add: cmpInt_def cmp3_def word_sless_alt)

lemma f_int_below_nan: "f_int x < int (mag_units (2 ^ 63))"
proof -
  have "f_units x < mag_units (2 ^ 63)"
    unfolding f_units_mag by (simp only: mag_units_less f_mag_bound)
  then show ?thesis by (simp add: f_int_def)
qed

lemma cmpFloat_rank: "cmpFloat a b = cmp3 (f_rank a) (f_rank b)"
  using f_int_below_nan [of a] f_int_below_nan [of b]
  by (auto simp: cmpFloat_def cmp3_def f_rank_def f_less_def f_eq_def)

lemma cmpInt_kind [simp]:
  "cmpInt (of_nat (kind_num k)) (of_nat (kind_num l)) = cmp3 (kind_num k) (kind_num l)"
  by (cases k; cases l) (simp_all add: cmpInt_def cmp3_def word_sless_alt)

lemma Order_rank: "Order a b = cmp3 (v_rank a) (v_rank b)"
  by (cases a; cases b)
    (simp_all add: Order_def cmpInt_sint cmpFloat_rank, simp_all add: cmp3_def)

lemma Order_simps [simp]:
  "Order VNull VNull = 0"
  "Order (VBool p) (VBool q) = cmp3 p q"
  "Order (VInt i) (VInt j) = cmp3 (sint i) (sint j)"
  "Order (VFloat f) (VFloat g) = cmp3 (f_rank f) (f_rank g)"
  "Order (VText s) (VText t) = cmp3 s t"
  by (auto simp: Order_rank cmp3_def)

lemma Order_kinds: "Value_Kind a \<noteq> Value_Kind b \<Longrightarrow> Order a b = cmp3 (Value_Kind a) (Value_Kind b)"
  by (simp add: Order_def) (simp add: cmp3_def less_Kind_def)

lemma Order_refl [simp]: "Order a a = 0"
  by (simp add: Order_rank)

lemma Order_swap: "Order b a = - Order a b"
  by (simp add: Order_rank cmp3_swap [of "v_rank b"])

lemma Equal_rank: "Equal a b \<longleftrightarrow> v_rank a = v_rank b"
  by (simp add: Equal_def Order_rank)

lemma IsNull_iff [simp]: "IsNull v \<longleftrightarrow> v = VNull"
  by (cases v) (simp_all add: IsNull_def)

lemma IsNumeric_simps [simp]:
  "IsNumeric (VInt i)" "IsNumeric (VFloat f)"
  "\<not> IsNumeric VNull" "\<not> IsNumeric (VBool b)" "\<not> IsNumeric (VText s)"
  by (simp_all add: IsNumeric_def)

lemma AsBool_VBool [simp]: "AsBool (VBool b) = b"
  by (simp add: AsBool_def)

lemma Compare_simps [simp]:
  "Compare VNull b = Inl NullHasNoOrdering"
  "Compare a VNull = Inl NullHasNoOrdering"
  "Compare (VInt i) (VInt j) = Inr (cmp3 (sint i) (sint j))"
  "Compare (VFloat f) (VFloat g) = Inr (cmp3 (f_rank f) (f_rank g))"
  "Compare (VInt i) (VFloat g) = Inr (cmp3 (f_rank (f_of_int64 i)) (f_rank g))"
  "Compare (VFloat f) (VInt j) = Inr (cmp3 (f_rank f) (f_rank (f_of_int64 j)))"
  "Compare (VText s) (VText t) = Inr (cmp3 s t)"
  by (simp_all add: Compare_def cmpInt_sint cmpFloat_rank)

lemma Compare_VBool [simp]: "Compare (VBool p) (VBool q) = Inr (cmp3 p q)"
  by (simp add: Compare_def cmpInt_sint IsNumeric_def) (auto simp: cmp3_def)

lemma Coerce_kind: "Coerce v k = Inr w \<Longrightarrow> w = VNull \<or> Value_Kind w = k"
  by (auto simp: Coerce_def split: if_splits)

lemma Coerce_idem: "Coerce v k = Inr w \<Longrightarrow> Coerce w k = Inr w"
  by (auto simp: Coerce_def split: if_splits)

lemma Compare_Order:
  assumes "Value_Kind a = Value_Kind b" and "a \<noteq> VNull"
  shows "Compare a b = Inr (Order a b)"
  using assms by (cases a; cases b) simp_all

section \<open>Properties\<close>

text \<open>\<open>Order\<close> is a total order on values up to \<open>Equal\<close>: it answers -1, 0 or 1, swapping
  the operands negates the answer, it is transitive, and \<open>Equal\<close> is an equivalence whose
  classes it cannot tell apart.\<close>

theorem Order_total:
  "Order a b \<in> {-1, 0, 1} \<and> Order b a = - Order a b
   \<and> (Order a b \<le> 0 \<and> Order b c \<le> 0 \<longrightarrow> Order a c \<le> 0)
   \<and> (Equal a b \<longrightarrow> Order a c = Order b c)"
  using cmp3_cases [of "v_rank a" "v_rank b"] cmp3_swap [of "v_rank b" "v_rank a"]
  by (auto simp: Order_rank Equal_rank)

theorem Order_total_witness:
  "Order (VInt 1) (VInt 2) \<le> 0 \<and> Order (VInt 2) (VText ''a'') \<le> 0
   \<and> Order (VInt 1) (VText ''a'') \<le> 0"
proof -
  have h: "Order (VInt 1) (VInt 2) \<le> 0 \<and> Order (VInt 2) (VText ''a'') \<le> 0"
    by (simp add: Order_kinds less_Kind_def less_eq_Kind_def)
  then show ?thesis using Order_total [of "VInt 1" "VInt 2" "VText ''a''"] by simp
qed

end
