(* ===== verification/Decimal.thy ===== *)
theory Decimal
  imports Values
begin

text \<open>
  What the sources use of \<open>strconv\<close>: \<open>FormatInt\<close> in base 10, \<open>FormatFloat(f, 'g', -1, 64)\<close> (the
  shortest decimal that reads back as the same double) and the correctly rounded reading of a
  decimal; and on top of them the printing of values in \<open>src/types/value.go\<close>
  (\<open>String\<close>, \<open>SQL\<close>, \<open>formatFloat\<close>).
\<close>

section \<open>Integers in base 10\<close>

definition digit_char :: "nat \<Rightarrow> char" where
  "digit_char d = char_of (48 + d)"

fun nat_dec :: "nat \<Rightarrow> string" where
  "nat_dec n = (if n < 10 then [digit_char n] else nat_dec (n div 10) @ [digit_char (n mod 10)])"

declare nat_dec.simps [simp del]

definition int_dec :: "int \<Rightarrow> string" where
  "int_dec i = (if i < 0 then ''-'' @ nat_dec (nat (- i)) else nat_dec (nat i))"

definition FormatInt :: "int64 \<Rightarrow> string" where
  "FormatInt i = int_dec (sint i)"

fun dec_nat_acc :: "nat \<Rightarrow> string \<Rightarrow> nat" where
  "dec_nat_acc acc [] = acc"
| "dec_nat_acc acc (c # s) = dec_nat_acc (acc * 10 + (of_char c - 48)) s"

definition is_digit :: "char \<Rightarrow> bool" where
  "is_digit c \<longleftrightarrow> 48 \<le> (of_char c :: nat) \<and> (of_char c :: nat) \<le> 57"

section \<open>Shortest decimals\<close>

text \<open>The double nearest to \<open>m * 10 ^ e\<close>.\<close>

definition f_of_dec :: "bool \<Rightarrow> nat \<Rightarrow> int \<Rightarrow> float64" where
  "f_of_dec s m e =
     (if 0 \<le> e then f_round s (m * 10 ^ nat e * 2 ^ 1074) 1
      else f_round s (m * 2 ^ 1074) (10 ^ nat (- e)))"

text \<open>The position \<open>dp\<close> of the decimal point of \<open>num / den\<close>: \<open>10 ^ (dp - 1) \<le> num / den < 10 ^ dp\<close>.\<close>

definition dec_point :: "nat \<Rightarrow> nat \<Rightarrow> int" where
  "dec_point num den =
     (if den \<le> num then int (length (nat_dec (num div den)))
      else 1 - int (length (nat_dec ((den - 1) div num))))"

text \<open>With \<open>n\<close> digits: the two neighbours of \<open>num / den\<close> on that grid that read back as \<open>x\<close>, the
  nearer one first.\<close>

definition dec_try :: "float64 \<Rightarrow> nat \<Rightarrow> nat \<Rightarrow> int \<Rightarrow> nat \<Rightarrow> nat option" where
  "dec_try x num den dp n =
     (let e = int n - dp;
          a = (if 0 \<le> e then num * 10 ^ nat e else num);
          b = (if 0 \<le> e then den else den * 10 ^ nat (- e));
          lo = a div b; r = a mod b;
          hi = (if r = 0 then lo else lo + 1);
          ok = (\<lambda>m. f_of_dec (f_sign x) m (- e) = x);
          lo_first = (2 * r < b \<or> 2 * r = b \<and> even lo)
      in if lo_first
         then (if ok lo then Some lo else if ok hi then Some hi else None)
         else (if ok hi then Some hi else if ok lo then Some lo else None))"

fun dec_search :: "float64 \<Rightarrow> nat \<Rightarrow> nat \<Rightarrow> int \<Rightarrow> nat list \<Rightarrow> (nat \<times> int)" where
  "dec_search x num den dp [] = (0, 0)"
| "dec_search x num den dp (n # ns) =
     (case dec_try x num den dp n of
        Some m \<Rightarrow> (m, dp - int n)
      | None \<Rightarrow> dec_search x num den dp ns)"

text \<open>The digits (without trailing zeros) and the decimal point of the shortest decimal.\<close>

definition shortest_digits :: "float64 \<Rightarrow> string \<times> int" where
  "shortest_digits x =
     (if f_units x = 0 then ([], 0)
      else
        (let (m, e) = dec_search x (f_units x) (2 ^ 1074) (dec_point (f_units x) (2 ^ 1074)) [1..<18];
             s = nat_dec m
         in (rev (dropWhile (\<lambda>c. c = CHR ''0'') (rev s)), int (length s) + e)))"

definition fmt_exp :: "int \<Rightarrow> string" where
  "fmt_exp e =
     (let s = nat_dec (nat \<bar>e\<bar>) in
      (if e < 0 then ''-'' else ''+'') @ (if length s < 2 then ''0'' @ s else s))"

definition fmtE :: "bool \<Rightarrow> string \<Rightarrow> int \<Rightarrow> string" where
  "fmtE neg ds dp =
     (if neg then ''-'' else []) @ [hd ds] @ (if length ds > 1 then ''.'' @ tl ds else []) @
     ''e'' @ fmt_exp (dp - 1)"

definition fmtF :: "bool \<Rightarrow> string \<Rightarrow> int \<Rightarrow> string" where
  "fmtF neg ds dp =
     (if neg then ''-'' else []) @
     (if 0 < dp then take (nat dp) ds @ replicate (nat dp - length ds) CHR ''0'' else ''0'') @
     (if int (length ds) - dp > 0
      then ''.'' @ replicate (nat (- dp)) CHR ''0'' @ drop (nat dp) ds else [])"

definition FormatFloat_g :: "float64 \<Rightarrow> string" where
  "FormatFloat_g x =
     (let (ds, dp) = shortest_digits x; e = dp - 1 in
      if e < - 4 \<or> 6 \<le> e \<and> \<not> (ds = []) then fmtE (f_sign x) ds dp else fmtF (f_sign x) ds dp)"

section \<open>Printing values\<close>

definition formatFloat :: "float64 \<Rightarrow> string" where
  "formatFloat f =
     (if IsInf f \<and> \<not> f_sign f then ''+Inf''
      else if IsInf f \<and> f_sign f then ''-Inf''
      else if IsNaN f then ''NaN''
      else
        (let s = FormatFloat_g f in
         if \<not> (CHR ''.'' \<in> set s \<or> CHR ''e'' \<in> set s \<or> CHR ''E'' \<in> set s) then s @ ''.0'' else s))"

fun Value_String :: "Value \<Rightarrow> string" where
  "Value_String VNull = ''NULL''"
| "Value_String (VBool b) = (if b then ''true'' else ''false'')"
| "Value_String (VInt i) = FormatInt i"
| "Value_String (VFloat f) = formatFloat f"
| "Value_String (VText s) = s"

text \<open>\<open>strings.ReplaceAll(s, "q", "qq")\<close> for a one-byte \<open>q\<close>.\<close>

fun double_char :: "char \<Rightarrow> string \<Rightarrow> string" where
  "double_char q [] = []"
| "double_char q (c # s) = (if c = q then [q, q] else [c]) @ double_char q s"

definition Value_SQL :: "Value \<Rightarrow> string" where
  "Value_SQL v =
     (case v of
        VText s \<Rightarrow> [CHR 0x27] @ double_char (CHR 0x27) s @ [CHR 0x27]
      | _ \<Rightarrow> Value_String v)"

section \<open>Integers read back\<close>

lemma of_char_digit: "d < 10 \<Longrightarrow> of_char (digit_char d) = (48 + d :: nat)"
  by (simp add: digit_char_def of_char_of)

lemma dec_nat_acc_append: "dec_nat_acc acc (s @ t) = dec_nat_acc (dec_nat_acc acc s) t"
  by (induction acc s rule: dec_nat_acc.induct) simp_all

lemma dec_nat_acc_nat_dec: "dec_nat_acc 0 (nat_dec n) = n"
proof (induction n rule: nat_dec.induct)
  case (1 n)
  show ?case
  proof (cases "n < 10")
    case True
    then show ?thesis by (simp add: nat_dec.simps [of n] of_char_digit)
  next
    case False
    then show ?thesis using 1
      by (simp add: nat_dec.simps [of n] dec_nat_acc_append of_char_digit)
  qed
qed

lemma nat_dec_digits: "list_all is_digit (nat_dec n)"
proof (induction n rule: nat_dec.induct)
  case (1 n)
  have d: "is_digit (digit_char k)" if "k < 10" for k
    using that by (simp add: is_digit_def of_char_digit)
  show ?case
  proof (cases "n < 10")
    case True
    then show ?thesis by (simp add: nat_dec.simps [of n] d)
  next
    case False
    then show ?thesis using 1 d [of "n mod 10"] by (simp add: nat_dec.simps [of n])
  qed
qed

lemma nat_dec_not_Nil [simp]: "nat_dec n \<noteq> []"
  by (simp add: nat_dec.simps [of n])

end
