(* ===== verification/Words64.thy ===== *)
theory Words64
  imports Prelude
begin

unbundle bit_operations_syntax

text \<open>
  The sign bit of a 64-bit word: \<open>signFlip = uint64(1) << 63\<close> of \<open>src/keycodec/value.go\<close> and
  what flipping, setting, clearing and complementing it do to the unsigned value.
\<close>

definition signFlip :: "64 word" where
  "signFlip = push_bit 63 1"

lemma bit_signFlip [simp]: "bit signFlip n \<longleftrightarrow> n = 63"
  unfolding signFlip_def by (simp only: bit_push_bit_iff bit_1_iff) auto

lemma bit63_iff: "bit (w :: 64 word) 63 \<longleftrightarrow> 2 ^ 63 \<le> unat w"
proof -
  have lt: "unat w < 2 * 2 ^ 63" using unat_less [of w] by simp
  have "bit w 63 = bit (unat w) 63" by (simp add: bit_unsigned_iff)
  also have "\<dots> = odd (unat w div 2 ^ 63)" by (rule bit_iff_odd)
  also have "\<dots> \<longleftrightarrow> 2 ^ 63 \<le> unat w"
  proof (cases "2 ^ 63 \<le> unat w")
    case True
    then have "unat w div 2 ^ 63 = 1" using lt by (simp add: div_nat_eqI)
    then show ?thesis using True by (simp del: power_numeral numeral_power_eq_of_nat_cancel_iff)
  next
    case False
    then show ?thesis by (simp add: not_le)
  qed
  finally show ?thesis .
qed

lemma xor_signFlip_add: "w XOR signFlip = w + signFlip"
proof -
  have "signFlip = - signFlip" by (simp add: signFlip_def)
  show ?thesis
  proof (cases "bit w 63")
    case False
    then have d: "w AND signFlip = 0" by (auto intro!: bit_word_eqI simp: bit_and_iff)
    have "w XOR signFlip = w OR signFlip"
      using False by (auto intro!: bit_word_eqI simp: bit_xor_iff bit_or_iff)
    also have "\<dots> = w + signFlip" using d by (simp add: disjunctive_add_eq_or)
    finally show ?thesis .
  next
    case True
    let ?v = "w XOR signFlip"
    have "\<not> bit ?v 63" using True by (simp add: bit_xor_iff)
    then have d: "?v AND signFlip = 0" by (auto intro!: bit_word_eqI simp: bit_and_iff)
    have "w = ?v OR signFlip"
      using True by (auto intro!: bit_word_eqI simp: bit_xor_iff bit_or_iff)
    also have "\<dots> = ?v + signFlip" using d by (simp add: disjunctive_add_eq_or)
    finally have w: "w = ?v + signFlip" .
    have "signFlip + signFlip = 0" by (simp add: signFlip_def)
    then have "?v = (?v + signFlip) + signFlip" by (simp only: add.assoc add_0_right)
    then show ?thesis using w by simp
  qed
qed

lemma unat_signFlip: "unat signFlip = 2 ^ 63"
  by (simp add: signFlip_def)

lemma unat_xor_signFlip:
  "unat (w XOR signFlip) = (if 2 ^ 63 \<le> unat w then unat w - 2 ^ 63 else unat w + 2 ^ 63)"
  using unat_less [of w] by (auto simp: xor_signFlip_add unat_word_ariths unat_signFlip le_mod_geq)

lemma and_signFlip: "w AND signFlip \<noteq> 0 \<longleftrightarrow> 2 ^ 63 \<le> unat w"
proof -
  have "w AND signFlip = (if bit w 63 then signFlip else 0)"
    by (auto intro!: bit_word_eqI simp: bit_and_iff)
  moreover have "signFlip \<noteq> 0" by (simp add: signFlip_def)
  ultimately show ?thesis by (simp add: bit63_iff)
qed

lemma or_signFlip: "\<not> 2 ^ 63 \<le> unat w \<Longrightarrow> w OR signFlip = w XOR signFlip"
  unfolding bit63_iff [symmetric] by (auto intro!: bit_word_eqI simp: bit_or_iff bit_xor_iff)

lemma clear_signFlip: "2 ^ 63 \<le> unat w \<Longrightarrow> w AND NOT signFlip = w XOR signFlip"
  unfolding bit63_iff [symmetric]
  by (auto intro!: bit_word_eqI simp: bit_and_iff bit_not_iff bit_xor_iff)

lemma xor_signFlip_twice [simp]: "(w XOR signFlip) XOR signFlip = w"
  by (simp add: xor.assoc)

lemma unat_not64: "unat (NOT (w :: 64 word)) = 2 ^ 64 - 1 - unat w"
proof -
  have "NOT w = - 1 - w" by (simp add: not_eq_complement)
  then have "unat (NOT w) = unat (- 1 :: 64 word) - unat w" by (simp add: unat_sub)
  moreover have "unat (- 1 :: 64 word) = 2 ^ 64 - 1" by (simp add: unsigned_minus_1_eq_mask mask_eq_exp_minus_1)
  ultimately show ?thesis by simp
qed

lemma sint_unat64:
  "sint (w :: 64 word) = (if 2 ^ 63 \<le> unat w then int (unat w) - 2 ^ 64 else int (unat w))"
proof -
  have "sint w = signed_take_bit 63 (uint w)" by (simp add: sint_uint)
  also have "\<dots> = take_bit (Suc 63) (uint w) - 2 ^ Suc 63 * of_bool (bit (uint w) 63)"
    by (rule signed_take_bit_eq_take_bit_minus)
  also have "take_bit (Suc 63) (uint w) = uint w" by (rule bintr_uint) simp
  also have "bit (uint w) 63 = bit w 63" by (simp add: bit_uint_iff)
  finally have s: "sint w = uint w - 2 ^ 64 * of_bool (2 ^ 63 \<le> unat w)"
    unfolding bit63_iff by simp
  have "uint w = int (unat w)" by (rule uint_nat)
  with s show ?thesis by (simp only: of_bool_def if_distrib [of "\<lambda>x. int (unat w) - 2 ^ 64 * x"]
    mult_1_right mult_zero_right diff_0_right)
qed

lemma xor_signFlip_sint: "int (unat (w XOR signFlip)) = sint w + 2 ^ 63"
  by (simp add: unat_xor_signFlip sint_unat64)

lemma xor_signFlip_less: "v XOR signFlip < w XOR signFlip \<longleftrightarrow> sint v < sint w"
proof -
  have "v XOR signFlip < w XOR signFlip \<longleftrightarrow>
      int (unat (v XOR signFlip)) < int (unat (w XOR signFlip))"
    by (simp only: word_less_nat_alt of_nat_less_iff)
  then show ?thesis by (simp only: xor_signFlip_sint) simp
qed

end
