(* ===== verification/Keycodec.thy ===== *)
theory Keycodec
  imports Values Words64
begin

unbundle bit_operations_syntax

text \<open>
  The value encoding of \<open>src/keycodec/value.go\<close>: tags, the appending encoders \<open>Encode\<close> and
  \<open>EncodeAll\<close>, the decoders \<open>Decode\<close>, \<open>Skip\<close> and \<open>DecodeAll\<close>.  The two contracts the rest
  of the program relies on are the locales \<open>self_delimiting\<close> (a decoder recovers a value from
  the front of any byte string that starts with its encoding) and \<open>order_codec\<close> (byte order is
  value order, field by field); both are interpreted on the model.  The order contract holds on
  the values \<open>key_ok\<close> describes: every value but the float -0.0 and the NaNs other than
  \<open>math.NaN()\<close>.
\<close>

section \<open>Tags and errors\<close>

definition TagNull :: byte where "TagNull = 0x00"
definition TagBool :: byte where "TagBool = 0x10"
definition TagInt :: byte where "TagInt = 0x20"
definition TagFloat :: byte where "TagFloat = 0x30"
definition TagText :: byte where "TagText = 0x40"

definition escByte :: byte where "escByte = 0x00"
definition escLit :: byte where "escLit = 0xFF"
definition escTerm :: byte where "escTerm = 0x01"

text \<open>One constructor per error message of the package.  All but \<open>NeedsAMask\<close> wrap
  \<open>ErrCorrupt\<close>, also through the \<open>field %d\<close> wrapper.\<close>

datatype codec_error =
    EmptyInput
  | TruncatedBool
  | TruncatedInt
  | TruncatedFloat
  | Truncated8Byte
  | TextEndsInsideEscape
  | BadTextEscape byte
  | UnterminatedText
  | UnknownTag byte
  | FieldError nat codec_error
  | TrailingBytes nat nat
  | NotATableKey
  | NotARowKey
  | TrailingBytesInRowKey nat
  | NotAnIndexKey
  | TrailingBytesInIndexKey nat
  | NeedsAMask
  | EmptyRow
  | WrongRowFormat byte

fun is_corrupt :: "codec_error \<Rightarrow> bool" where
  "is_corrupt NeedsAMask = False"
| "is_corrupt (FieldError _ e) = is_corrupt e"
| "is_corrupt _ = True"

section \<open>Encoding\<close>

fun encode_text :: "bytes \<Rightarrow> string \<Rightarrow> bytes" where
  "encode_text dst [] = dst"
| "encode_text dst (c # s) =
     (if byte_of_char c = escByte then encode_text (dst @ [escByte, escLit]) s
      else encode_text (dst @ [byte_of_char c]) s)"

definition float_key :: "64 word \<Rightarrow> 64 word" where
  "float_key bits = (if bits AND signFlip \<noteq> 0 then NOT bits else bits OR signFlip)"

definition Encode :: "bytes \<Rightarrow> Value \<Rightarrow> bytes" where
  "Encode dst v =
     (case Value_Kind v of
        KindNull \<Rightarrow> dst @ [TagNull]
      | KindBool \<Rightarrow> dst @ [TagBool, if AsBool v then 1 else 0]
      | KindInt \<Rightarrow> append_uint64 (dst @ [TagInt]) (AsInt v XOR signFlip)
      | KindFloat \<Rightarrow> append_uint64 (dst @ [TagFloat]) (float_key (Float64bits (AsFloat v)))
      | KindText \<Rightarrow> encode_text (dst @ [TagText]) (AsText v) @ [escByte, escTerm])"

fun EncodeAll :: "bytes \<Rightarrow> Value list \<Rightarrow> bytes" where
  "EncodeAll dst [] = dst"
| "EncodeAll dst (v # vs) = EncodeAll (Encode dst v) vs"

definition Key :: "Value list \<Rightarrow> bytes" where
  "Key vals = EncodeAll [] vals"

section \<open>Decoding\<close>

text \<open>The loop over a TEXT body; \<open>out\<close> is the text built so far.\<close>

fun decode_text :: "bytes \<Rightarrow> bytes \<Rightarrow> codec_error + (Value \<times> bytes)" where
  "decode_text out [] = Inl UnterminatedText"
| "decode_text out (b # rest) =
     (if b \<noteq> escByte then decode_text (out @ [b]) rest
      else case rest of
        [] \<Rightarrow> Inl TextEndsInsideEscape
      | e # rest' \<Rightarrow>
          if e = escTerm then Inr (VText (string_of_bytes out), rest')
          else if e = escLit then decode_text (out @ [0]) rest'
          else Inl (BadTextEscape e))"

definition float_bits :: "64 word \<Rightarrow> 64 word" where
  "float_bits bits = (if bits AND signFlip \<noteq> 0 then bits AND NOT signFlip else NOT bits)"

definition Decode :: "bytes \<Rightarrow> codec_error + (Value \<times> bytes)" where
  "Decode src =
     (case src of
        [] \<Rightarrow> Inl EmptyInput
      | tag # body \<Rightarrow>
          if tag = TagNull then Inr (VNull, body)
          else if tag = TagBool then
            (case body of [] \<Rightarrow> Inl TruncatedBool | b # rest \<Rightarrow> Inr (VBool (b \<noteq> 0), rest))
          else if tag = TagInt then
            (if length body < 8 then Inl TruncatedInt
             else Inr (VInt (get_uint64 body XOR signFlip), drop 8 body))
          else if tag = TagFloat then
            (if length body < 8 then Inl TruncatedFloat
             else Inr (VFloat (Float64frombits (float_bits (get_uint64 body))), drop 8 body))
          else if tag = TagText then decode_text [] body
          else Inl (UnknownTag tag))"

fun skip_text :: "bytes \<Rightarrow> codec_error + bytes" where
  "skip_text (b # e # rest) =
     (if b \<noteq> escByte then skip_text (e # rest)
      else if e = escTerm then Inr rest
      else if e = escLit then skip_text rest
      else Inl (BadTextEscape e))"
| "skip_text _ = Inl UnterminatedText"

definition Skip :: "bytes \<Rightarrow> codec_error + bytes" where
  "Skip src =
     (case src of
        [] \<Rightarrow> Inl EmptyInput
      | tag # body \<Rightarrow>
          if tag = TagNull then Inr body
          else if tag = TagBool then
            (case body of [] \<Rightarrow> Inl TruncatedBool | _ # rest \<Rightarrow> Inr rest)
          else if tag = TagInt \<or> tag = TagFloat then
            (if length body < 8 then Inl Truncated8Byte else Inr (drop 8 body))
          else if tag = TagText then skip_text body
          else Inl (UnknownTag tag))"

text \<open>The loop of \<open>DecodeAll\<close> from field \<open>i\<close>, with \<open>n\<close> fields left and the values read so far.\<close>

fun decode_fields :: "nat \<Rightarrow> nat \<Rightarrow> Value list \<Rightarrow> bytes \<Rightarrow> codec_error + (Value list \<times> bytes)" where
  "decode_fields i 0 out rest = Inr (out, rest)"
| "decode_fields i (Suc n) out rest =
     (case Decode rest of
        Inl e \<Rightarrow> Inl (FieldError i e)
      | Inr (v, tail) \<Rightarrow> decode_fields (Suc i) n (out @ [v]) tail)"

definition DecodeAll :: "bytes \<Rightarrow> nat \<Rightarrow> codec_error + Value list" where
  "DecodeAll src n =
     (case decode_fields 0 n [] src of
        Inl e \<Rightarrow> Inl e
      | Inr (out, rest) \<Rightarrow>
          if rest \<noteq> [] then Inl (TrailingBytes (length rest) n) else Inr out)"

section \<open>The contracts\<close>

text \<open>A self-delimiting code: decoding stops exactly where the encoding ends.\<close>

locale self_delimiting =
  fixes enc :: "'v \<Rightarrow> 'b list"
    and dec :: "'b list \<Rightarrow> 'e + ('v \<times> 'b list)"
  assumes dec_enc: "dec (enc v @ rest) = Inr (v, rest)"
begin

lemma enc_append_inj: "enc v @ x = enc w @ y \<longleftrightarrow> v = w \<and> x = y"
  by (metis dec_enc prod.inject sum.inject(2))

lemma enc_inj: "enc v = enc w \<longleftrightarrow> v = w"
  using enc_append_inj [of v "[]" w "[]"] by simp

lemma enc_prefix_free: "prefix (enc v) (enc w) \<longleftrightarrow> v = w"
proof
  assume "prefix (enc v) (enc w)"
  then obtain r where "enc w @ [] = enc v @ r" by (auto simp: prefix_def)
  then show "v = w" using enc_append_inj by metis
qed simp

lemma enc_concat_inj:
  "length vs = length ws \<Longrightarrow>
     concat (map enc vs) @ x = concat (map enc ws) @ y \<longleftrightarrow> vs = ws \<and> x = y"
  by (induction vs ws rule: list_induct2) (auto simp: enc_append_inj)

lemma enc_not_Nil: "v \<noteq> w \<Longrightarrow> enc v \<noteq> []"
  using enc_prefix_free [of v w] by auto

end

text \<open>An order-preserving code, with the order as a three-way comparison on the values \<open>ok\<close>
  holds of.\<close>

fun lex_cmp :: "('v \<Rightarrow> 'v \<Rightarrow> int) \<Rightarrow> 'v list \<Rightarrow> 'v list \<Rightarrow> int" where
  "lex_cmp cmp [] [] = 0"
| "lex_cmp cmp [] (_ # _) = -1"
| "lex_cmp cmp (_ # _) [] = 1"
| "lex_cmp cmp (v # vs) (w # ws) = (if cmp v w = 0 then lex_cmp cmp vs ws else cmp v w)"

locale order_codec = self_delimiting enc dec
  for enc :: "'v \<Rightarrow> 'b::linorder list" and dec :: "'b list \<Rightarrow> 'e + ('v \<times> 'b list)" +
  fixes ok :: "'v \<Rightarrow> bool"
    and cmp :: "'v \<Rightarrow> 'v \<Rightarrow> int"
  assumes cmp_enc: "ok v \<Longrightarrow> ok w \<Longrightarrow> cmp3 (enc v) (enc w) = cmp v w"
    and enc_nonempty: "enc v \<noteq> []"
begin

lemma cmp_eq_0: "ok v \<Longrightarrow> ok w \<Longrightarrow> cmp v w = 0 \<longleftrightarrow> v = w"
  using cmp_enc [of v w] by (metis cmp3_eq_0 enc_inj)

lemma cmp_enc_append:
  assumes "ok v" and "ok w"
  shows "cmp3 (enc v @ x) (enc w @ y) = (if v = w then cmp3 x y else cmp v w)"
proof (cases "v = w")
  case False
  then have "enc v @ x < enc w @ y \<longleftrightarrow> enc v < enc w" "enc w @ y < enc v @ x \<longleftrightarrow> enc w < enc v"
    by (auto intro!: less_append_decided simp: enc_prefix_free)
  then show ?thesis using False cmp_enc [OF assms] by (metis cmp3_mono)
qed simp

lemma enc_less_append:
  "ok v \<Longrightarrow> ok w \<Longrightarrow> enc v @ x < enc w @ y \<longleftrightarrow> cmp v w < 0 \<or> v = w \<and> x < y"
  using cmp_enc_append [of v w x y] cmp3_neg [of "enc v @ x" "enc w @ y"] cmp_eq_0 [of v w]
  by (cases "v = w") auto

lemma enc_pos [simp]: "[] < enc v @ x" "cmp3 [] (enc v @ x) = -1" "cmp3 (enc v @ x) [] = 1"
  using enc_nonempty [of v] by (cases "enc v"; simp add: cmp3_def)+

lemma cmp_concat:
  "list_all ok vs \<Longrightarrow> list_all ok ws \<Longrightarrow>
     cmp3 (concat (map enc vs)) (concat (map enc ws)) = lex_cmp cmp vs ws"
proof (induction vs arbitrary: ws)
  case Nil
  then show ?case by (cases ws) simp_all
next
  case (Cons v vs)
  show ?case
  proof (cases ws)
    case Nil
    then show ?thesis by simp
  next
    case ws: (Cons w ws')
    then show ?thesis using Cons.prems Cons.IH [of ws'] by (auto simp: cmp_enc_append cmp_eq_0)
  qed
qed

end

section \<open>The code's encoders append\<close>

fun esc :: "bytes \<Rightarrow> bytes" where
  "esc [] = []"
| "esc (b # bs) = (if b = escByte then [escByte, escLit] else [b]) @ esc bs"

lemma encode_text_append: "encode_text dst s = dst @ esc (bytes_of_string s)"
  by (induction dst s rule: encode_text.induct) simp_all

text \<open>The encoding of a value on a fresh slice, constructor by constructor.\<close>

abbreviation enc_value :: "Value \<Rightarrow> bytes" where
  "enc_value v \<equiv> Encode [] v"

lemma Encode_append: "Encode dst v = dst @ enc_value v"
  by (cases v) (simp_all add: Encode_def append_uint64_def encode_text_append)

lemma enc_value_simps [codec_simps]:
  "enc_value VNull = [TagNull]"
  "enc_value (VBool b) = [TagBool, if b then 1 else 0]"
  "enc_value (VInt i) = TagInt # be_bytes 8 (unat (i XOR signFlip))"
  "enc_value (VFloat f) = TagFloat # be_bytes 8 (unat (float_key (Float64bits f)))"
  "enc_value (VText s) = TagText # esc (bytes_of_string s) @ [escByte, escTerm]"
  by (simp_all add: Encode_def append_uint64_def encode_text_append)

lemma EncodeAll_append: "EncodeAll dst vs = dst @ concat (map enc_value vs)"
proof (induction vs arbitrary: dst)
  case (Cons v vs)
  then show ?case using Encode_append [of dst v] by simp
qed simp

lemma tag_simps [simp]:
  "TagNull < TagBool" "TagNull < TagInt" "TagNull < TagFloat" "TagNull < TagText"
  "TagBool < TagInt" "TagBool < TagFloat" "TagBool < TagText"
  "TagInt < TagFloat" "TagInt < TagText" "TagFloat < TagText"
  "TagNull \<noteq> TagBool" "TagNull \<noteq> TagInt" "TagNull \<noteq> TagFloat" "TagNull \<noteq> TagText"
  "TagBool \<noteq> TagInt" "TagBool \<noteq> TagFloat" "TagBool \<noteq> TagText"
  "TagInt \<noteq> TagFloat" "TagInt \<noteq> TagText" "TagFloat \<noteq> TagText"
  by (simp_all add: TagNull_def TagBool_def TagInt_def TagFloat_def TagText_def)

lemmas tag_neq [simp] = tag_simps(11-20) [symmetric]

lemma esc_simps [simp]: "escTerm < escLit" "escTerm \<noteq> escLit" "escLit \<noteq> escTerm"
  "escByte \<noteq> escTerm" "escByte \<noteq> escLit" "escTerm \<noteq> escByte" "escLit \<noteq> escByte"
  by (simp_all add: escTerm_def escLit_def escByte_def)

section \<open>Round trip\<close>

lemma float_bits_key [simp]: "float_bits (float_key w) = w"
proof (cases "2 ^ 63 \<le> unat w")
  case True
  then have "\<not> 2 ^ 63 \<le> unat (NOT w)" using unat_less [of w] by (simp add: unat_not64)
  then show ?thesis using True by (simp only: float_bits_def float_key_def and_signFlip) simp
next
  case False
  then have k: "float_key w = w XOR signFlip"
    by (simp only: float_key_def and_signFlip or_signFlip [OF False] if_False)
  have "2 ^ 63 \<le> unat (w XOR signFlip)" using False by (simp add: unat_xor_signFlip)
  then show ?thesis
    by (simp only: k float_bits_def and_signFlip clear_signFlip [OF \<open>2 ^ 63 \<le> unat (w XOR signFlip)\<close>]
      if_True xor_signFlip_twice)
qed

lemma decode_text_esc:
  "decode_text out (esc bs @ escByte # escTerm # rest) = Inr (VText (string_of_bytes (out @ bs)), rest)"
proof (induction bs arbitrary: out)
  case (Cons b bs)
  then show ?case by (simp add: escByte_def [symmetric])
qed simp

lemma Decode_Encode: "Decode (enc_value v @ rest) = Inr (v, rest)"
  by (cases v) (simp_all add: Decode_def codec_simps decode_text_esc)

interpretation value_code: self_delimiting enc_value Decode
  by unfold_locales (rule Decode_Encode)

section \<open>Skipping and sequences\<close>

lemma skip_text_decode:
  "skip_text bs = Inr r \<longleftrightarrow> (\<exists>v. decode_text out bs = Inr (v, r))"
proof (induction bs arbitrary: out rule: skip_text.induct)
  case (1 b e rest)
  show ?case using "1.IH"(1) [of "out @ [b]"] "1.IH"(2) [of "out @ [0]"] by auto
qed simp_all

lemma decode_fields_append:
  "decode_fields i n out src = map_sum id (map_prod ((@) out) id) (decode_fields i n [] src)"
proof (induction n arbitrary: i out src)
  case (Suc n)
  show ?case
  proof (cases "Decode src")
    case (Inr p)
    obtain v tail where p: "p = (v, tail)" by (cases p)
    show ?thesis using Suc [of "Suc i" "out @ [v]" tail] Suc [of "Suc i" "[v]" tail] Inr p
      by (cases "decode_fields (Suc i) n [] tail") auto
  qed simp
qed simp

lemma decode_fields_concat:
  "decode_fields i (length vs) out (concat (map enc_value vs) @ rest) = Inr (out @ vs, rest)"
  by (induction vs arbitrary: i out) (simp_all add: Decode_Encode)

lemma DecodeAll_concat:
  "DecodeAll (concat (map enc_value vs) @ rest) (length vs) =
     (if rest = [] then Inr vs else Inl (TrailingBytes (length rest) (length vs)))"
  by (simp add: DecodeAll_def decode_fields_concat)

section \<open>Order preservation\<close>

definition key_ok :: "Value \<Rightarrow> bool" where
  "key_ok v = (case v of
     VFloat f \<Rightarrow> if IsNaN f then f = f_nan else f \<noteq> f_neg_zero
   | _ \<Rightarrow> True)"

lemma unat_float_key:
  "unat (float_key (Float64bits f)) =
     (if f_sign f then 2 ^ 63 - 1 - f_mag f else 2 ^ 63 + f_mag f)"
proof (cases "f_sign f")
  case True
  then have "2 ^ 63 \<le> unat (Float64bits f)" by (simp add: f_sign_def)
  then have "float_key (Float64bits f) = NOT (Float64bits f)"
    by (simp only: float_key_def and_signFlip if_True)
  then show ?thesis using True Float64bits_split [of f] by (simp add: unat_not64)
next
  case False
  then have m: "\<not> 2 ^ 63 \<le> unat (Float64bits f)" by (simp add: f_sign_def)
  then have "float_key (Float64bits f) = Float64bits f XOR signFlip"
    by (simp only: float_key_def and_signFlip or_signFlip [OF m] if_False)
  then show ?thesis using False m Float64bits_split [of f] by (simp add: unat_xor_signFlip)
qed

lemma neg_zero_eqI: "f_sign f \<Longrightarrow> f_mag f = 0 \<Longrightarrow> f = f_neg_zero"
  by (rule float64_eqI) (simp_all add: f_neg_zero_def f_sign_def f_mag_def)

lemma f_nan_facts: "IsNaN f_nan" "\<not> f_sign f_nan" "f_mag f_nan = 0x7FF8000000000001"
  by (simp_all add: f_nan_def IsNaN_mag f_sign_def f_mag_def)

lemma float_key_less:
  assumes "key_ok (VFloat f)" and "key_ok (VFloat g)"
  shows "float_key (Float64bits f) < float_key (Float64bits g) \<longleftrightarrow> f_rank f < f_rank g"
proof -
  have nz: "\<not> (f_sign x \<and> f_mag x = 0)" if "key_ok (VFloat x)" for x
    using that neg_zero_eqI [of x] f_nan_facts by (auto simp: key_ok_def split: if_splits)
  have nan: "x = f_nan" if "key_ok (VFloat x)" "IsNaN x" for x
    using that by (simp add: key_ok_def)
  have unat: "float_key (Float64bits f) < float_key (Float64bits g) \<longleftrightarrow>
      (if f_sign f then 2 ^ 63 - 1 - f_mag f else 2 ^ 63 + f_mag f) <
      (if f_sign g then 2 ^ 63 - 1 - f_mag g else 2 ^ 63 + f_mag g)"
    by (simp only: word_less_nat_alt unat_float_key)
  consider "IsNaN f" "IsNaN g" | "IsNaN f" "\<not> IsNaN g" | "\<not> IsNaN f" "IsNaN g"
    | "\<not> IsNaN f" "\<not> IsNaN g" by blast
  then show ?thesis
  proof cases
    case 1
    then show ?thesis using nan [OF assms(1)] nan [OF assms(2)] by simp
  next
    case 2
    then have "f = f_nan" using nan [OF assms(1)] by simp
    then show ?thesis
      using 2 f_nan_facts f_int_below_nan [of g] unfolding unat
      by (auto simp: f_rank_def IsNaN_mag)
  next
    case 3
    then have "g = f_nan" using nan [OF assms(2)] by simp
    then show ?thesis
      using 3 f_nan_facts f_int_below_nan [of f] unfolding unat
      by (auto simp: f_rank_def IsNaN_mag)
  next
    case 4
    then have r: "f_rank f < f_rank g \<longleftrightarrow> f_int f < f_int g" by (simp add: f_rank_def)
    show ?thesis
      using nz [OF assms(1)] nz [OF assms(2)] f_mag_bound [of f] f_mag_bound [of g]
      unfolding unat r f_int_less_cases by auto
  qed
qed

lemma esc_terminated_less:
  "esc bs @ escByte # escTerm # x < esc cs @ escByte # escTerm # y \<longleftrightarrow>
     bs < cs \<or> bs = cs \<and> x < y"
proof (induction bs arbitrary: cs)
  case Nil
  then show ?case by (cases cs) (auto simp: escByte_def word_neq_0_conv)
next
  case (Cons b bs)
  then show ?case
    by (cases cs) (auto simp: escByte_def word_neq_0_conv escTerm_def escLit_def)
qed

lemma cmp3_esc:
  "cmp3 (esc bs @ [escByte, escTerm]) (esc cs @ [escByte, escTerm]) = cmp3 bs cs"
  using esc_terminated_less [of bs "[]" cs "[]"] esc_terminated_less [of cs "[]" bs "[]"]
  by (intro cmp3_mono) simp_all

lemma cmp3_float_key:
  assumes "key_ok (VFloat f)" and "key_ok (VFloat g)"
  shows "cmp3 (float_key (Float64bits f)) (float_key (Float64bits g)) = cmp3 (f_rank f) (f_rank g)"
  using float_key_less assms by (intro cmp3_mono) simp_all

fun kind_tag :: "Kind \<Rightarrow> byte" where
  "kind_tag KindNull = TagNull"
| "kind_tag KindBool = TagBool"
| "kind_tag KindInt = TagInt"
| "kind_tag KindFloat = TagFloat"
| "kind_tag KindText = TagText"

lemma kind_tag_less: "kind_tag k < kind_tag l \<longleftrightarrow> k < l"
  by (cases k; cases l)
    (simp_all add: less_Kind_def TagNull_def TagBool_def TagInt_def TagFloat_def TagText_def)

lemma enc_value_tag: "\<exists>r. enc_value v = kind_tag (Value_Kind v) # r"
  by (cases v) (simp_all add: codec_simps)

lemma enc_value_kinds:
  assumes "Value_Kind v \<noteq> Value_Kind w"
  shows "cmp3 (enc_value v @ x) (enc_value w @ y) = cmp3 (Value_Kind v) (Value_Kind w)"
proof -
  obtain r q where "enc_value v = kind_tag (Value_Kind v) # r"
    and "enc_value w = kind_tag (Value_Kind w) # q"
    using enc_value_tag by blast
  moreover have "kind_tag (Value_Kind v) \<noteq> kind_tag (Value_Kind w)"
    using assms kind_tag_less by (metis antisym_conv3 less_irrefl)
  ultimately show ?thesis by (simp add: cmp3_def kind_tag_less)
qed

lemma cmp3_xor_signFlip: "cmp3 (i XOR signFlip) (j XOR signFlip) = cmp3 (sint i) (sint j)"
  by (intro cmp3_mono) (simp_all only: xor_signFlip_less)

lemma enc_value_cmp:
  assumes "key_ok v" and "key_ok w"
  shows "cmp3 (enc_value v) (enc_value w) = Order v w"
proof (cases "Value_Kind v = Value_Kind w")
  case False
  then show ?thesis using enc_value_kinds [of v w "[]" "[]"] by (simp add: Order_kinds)
next
  case True
  then show ?thesis
    using assms
    by (cases v; cases w)
      (simp_all add: codec_simps cmp3_xor_signFlip cmp3_float_key cmp3_esc,
        simp add: cmp3_def)
qed

lemma enc_value_nonempty: "enc_value v \<noteq> []"
  using enc_value_tag [of v] by auto

interpretation key_code: order_codec enc_value Decode key_ok Order
  by unfold_locales (auto simp: enc_value_cmp enc_value_nonempty)

section \<open>Properties\<close>

text \<open>C28: Decoding what \<open>Encode\<close> appended to a prefix gives the value back and leaves exactly
  the bytes that follow it, for every value (also every NaN, -0.0 and a text with zero bytes),
  and \<open>DecodeAll\<close> gives back what \<open>EncodeAll\<close> wrote.\<close>

theorem codec_roundtrip:
  "Decode (drop (length dst) (Encode dst v @ rest)) = Inr (v, rest)
   \<and> DecodeAll (Key vs) (length vs) = Inr vs"
  using Encode_append [of dst v] DecodeAll_concat [of vs "[]"]
  by (simp add: Decode_Encode Key_def EncodeAll_append)

text \<open>C18: Byte order of composite keys is the order of the values, field by field: the key of
  one row of values compares with the key of another as the first pair of unequal values does,
  whatever bytes follow.\<close>

theorem Key_order:
  assumes "list_all key_ok vs" and "list_all key_ok ws" and "length vs = length ws"
  shows "cmp3 (Key vs @ x) (Key ws @ y) =
    (if vs = ws then cmp3 x y else lex_cmp Order vs ws)"
  using assms(3,1,2)
proof (induction vs ws rule: list_induct2)
  case (Cons v vs w ws)
  then show ?case
    by (simp add: Key_def EncodeAll_append key_code.cmp_enc_append key_code.cmp_eq_0
        del: EncodeAll.simps)
qed (simp add: Key_def)

theorem Key_order_witness:
  "cmp3 (Key [VText ''a'', VInt (-1)] @ []) (Key [VText ''ab'', VInt 5] @ []) = -1"
  using Key_order [of "[VText ''a'', VInt (-1)]" "[VText ''ab'', VInt 5]" "[]" "[]"]
  by (simp add: key_ok_def cmp3_def)

text \<open>The order contract fails outside \<open>key_ok\<close>: 0.0 and -0.0 are \<open>Equal\<close> but have
  different encodings (so an index lookup or a primary-key check for one misses the other), and
  a NaN whose sign bit is set, which \<open>Order\<close> puts above +Inf, encodes below -Inf.\<close>

theorem Encode_order_gap:
  "Equal (VFloat f_pos_zero) (VFloat f_neg_zero)
   \<and> Encode [] (VFloat f_neg_zero) < Encode [] (VFloat f_pos_zero)
   \<and> IsNaN f_default_nan \<and> Order (VFloat f_pos_inf) (VFloat f_default_nan) = -1
   \<and> Encode [] (VFloat f_default_nan) < Encode [] (VFloat f_neg_inf)"
proof -
  have less: "Encode [] (VFloat f) < Encode [] (VFloat g) \<longleftrightarrow>
      unat (float_key (Float64bits f)) < unat (float_key (Float64bits g))" for f g
    by (simp add: codec_simps be_bytes_less [OF unat64_bound unat64_bound])
  have zero: "f_mag f_pos_zero = 0" "f_mag f_neg_zero = 0" "\<not> f_sign f_pos_zero" "f_sign f_neg_zero"
    by (simp_all add: f_pos_zero_def f_neg_zero_def f_mag_def f_sign_def)
  have inf: "f_mag f_neg_inf = 0x7FF0000000000000" "f_sign f_neg_inf"
    "f_mag f_pos_inf = 0x7FF0000000000000" "\<not> f_sign f_pos_inf"
    by (simp_all add: f_pos_inf_def f_neg_inf_def f_mag_def f_sign_def)
  have nan: "f_mag f_default_nan = 0x7FF8000000000000" "f_sign f_default_nan"
    by (simp_all add: f_default_nan_def f_mag_def f_sign_def)
  have eq: "Equal (VFloat f_pos_zero) (VFloat f_neg_zero)"
    using f_int_eq_cases [of f_pos_zero f_neg_zero] zero
    by (simp add: Equal_def f_rank_def IsNaN_mag)
  have "f_rank f_pos_inf < f_rank f_default_nan"
    using inf nan f_int_below_nan [of f_pos_inf] by (simp add: f_rank_def IsNaN_mag)
  then show ?thesis using eq zero inf nan by (simp add: less unat_float_key IsNaN_mag cmp3_def)
qed

text \<open>\<open>Skip\<close> passes over exactly the bytes \<open>Decode\<close> reads, and refuses exactly the inputs
  \<open>Decode\<close> refuses; every refusal of either is \<open>ErrCorrupt\<close>.\<close>

theorem Skip_Decode:
  "(case Decode src of
      Inr (v, rest) \<Rightarrow> Skip src = Inr rest
    | Inl e \<Rightarrow> is_corrupt e \<and> (\<exists>e'. Skip src = Inl e' \<and> is_corrupt e'))"
proof -
  have corrupt: "decode_text out bs = Inl e \<Longrightarrow> is_corrupt e" for out bs e
    by (induction out bs rule: decode_text.induct) (auto split: if_splits list.splits)
  have corrupt': "skip_text bs = Inl e \<Longrightarrow> is_corrupt e" for bs e
    by (induction bs rule: skip_text.induct) (auto split: if_splits)
  have tbody: "(case decode_text [] bs of Inr (v, rest) \<Rightarrow> skip_text bs = Inr rest
    | Inl e \<Rightarrow> is_corrupt e \<and> (\<exists>e'. skip_text bs = Inl e' \<and> is_corrupt e'))" for bs
    using skip_text_decode [of bs _ "[]"] corrupt [of "[]" bs] corrupt' [of bs]
    by (cases "decode_text [] bs"; cases "skip_text bs") auto
  show ?thesis
  proof (cases src)
    case (Cons tag body)
    show ?thesis
    proof (cases "tag = TagText")
      case True
      then show ?thesis using tbody [of body] Cons
        by (simp only: Decode_def Skip_def list.case if_True if_False tag_simps tag_neq simp_thms)
    next
      case False
      then show ?thesis using Cons by (simp add: Decode_def Skip_def split: list.split)
    qed
  qed (simp add: Decode_def Skip_def)
qed

end
