(* ===== verification/Keys.thy ===== *)
theory Keys
  imports Keycodec
begin

unbundle bit_operations_syntax

text \<open>
  The key space of \<open>src/keycodec/keys.go\<close> (catalog, row and index keys, \<open>PrefixEnd\<close>) and the
  row encoding of \<open>src/keycodec/row.go\<close>.  A Go byte slice that may be nil is an option here:
  \<open>None\<close> is nil, which as a bound of a scan means unbounded.
\<close>

section \<open>Keys\<close>

definition PrefixMeta :: byte where "PrefixMeta = 0x01"
definition PrefixData :: byte where "PrefixData = 0x02"
definition PrefixIndex :: byte where "PrefixIndex = 0x03"
definition metaTable :: byte where "metaTable = 0x74"
definition metaSeq :: byte where "metaSeq = 0x73"

definition MetaTableKey :: "string \<Rightarrow> bytes" where
  "MetaTableKey name = [PrefixMeta, metaTable] @ bytes_of_string name"

definition MetaTablePrefix :: bytes where
  "MetaTablePrefix = [PrefixMeta, metaTable]"

definition MetaTableName :: "bytes \<Rightarrow> codec_error + string" where
  "MetaTableName key =
     (if length key < 2 \<or> key ! 0 \<noteq> PrefixMeta \<or> key ! 1 \<noteq> metaTable then Inl NotATableKey
      else Inr (string_of_bytes (drop 2 key)))"

definition MetaSeqKey :: bytes where
  "MetaSeqKey = [PrefixMeta, metaSeq]"

definition DataPrefix :: "uint32 \<Rightarrow> bytes" where
  "DataPrefix table = append_uint32 [PrefixData] table"

definition RowKey :: "uint32 \<Rightarrow> Value \<Rightarrow> bytes" where
  "RowKey table pk = Encode (DataPrefix table) pk"

definition RowKeyPK :: "bytes \<Rightarrow> codec_error + Value" where
  "RowKeyPK key =
     (if length key < 5 \<or> key ! 0 \<noteq> PrefixData then Inl NotARowKey
      else case Decode (drop 5 key) of
        Inl e \<Rightarrow> Inl e
      | Inr (v, rest) \<Rightarrow>
          if length rest \<noteq> 0 then Inl (TrailingBytesInRowKey (length rest)) else Inr v)"

definition IndexPrefix :: "uint32 \<Rightarrow> uint32 \<Rightarrow> bytes" where
  "IndexPrefix table index = append_uint32 (append_uint32 [PrefixIndex] table) index"

definition IndexKey :: "uint32 \<Rightarrow> uint32 \<Rightarrow> Value \<Rightarrow> Value \<Rightarrow> bytes" where
  "IndexKey table index val pk = EncodeAll (IndexPrefix table index) [val, pk]"

definition IndexEntry :: "bytes \<Rightarrow> codec_error + (Value \<times> Value)" where
  "IndexEntry key =
     (if length key < 9 \<or> key ! 0 \<noteq> PrefixIndex then Inl NotAnIndexKey
      else case Decode (drop 9 key) of
        Inl e \<Rightarrow> Inl e
      | Inr (val, rest) \<Rightarrow>
          (case Decode rest of
             Inl e \<Rightarrow> Inl e
           | Inr (pk, rest') \<Rightarrow>
               if length rest' \<noteq> 0 then Inl (TrailingBytesInIndexKey (length rest'))
               else Inr (val, pk)))"

text \<open>The loop of \<open>PrefixEnd\<close> runs from the last byte down, so it is a recursion on the
  reversed prefix.\<close>

fun prefix_end_loop :: "bytes \<Rightarrow> bytes option" where
  "prefix_end_loop [] = None"
| "prefix_end_loop (b # before) =
     (if b \<noteq> 0xFF then Some (rev before @ [b + 1]) else prefix_end_loop before)"

definition PrefixEnd :: "bytes \<Rightarrow> bytes option" where
  "PrefixEnd p = prefix_end_loop (rev p)"

section \<open>Rows\<close>

definition RowFormat :: byte where "RowFormat = 0x01"

definition EncodeRow :: "bytes \<Rightarrow> Value list \<Rightarrow> bytes" where
  "EncodeRow dst row = EncodeAll (dst @ [RowFormat]) row"

definition rowBody :: "bytes \<Rightarrow> codec_error + bytes" where
  "rowBody src =
     (case src of
        [] \<Rightarrow> Inl EmptyRow
      | b # body \<Rightarrow> if b \<noteq> RowFormat then Inl (WrongRowFormat b) else Inr body)"

definition DecodeRow :: "bytes \<Rightarrow> nat \<Rightarrow> codec_error + Value list" where
  "DecodeRow src n =
     (case rowBody src of Inl e \<Rightarrow> Inl e | Inr body \<Rightarrow> DecodeAll body n)"

fun decode_masked :: "nat \<Rightarrow> bool list \<Rightarrow> bytes \<Rightarrow> codec_error + Value list" where
  "decode_masked i [] rest = Inr []"
| "decode_masked i (w # want) rest =
     (if w then
        (case Decode rest of
           Inl e \<Rightarrow> Inl (FieldError i e)
         | Inr (v, tail) \<Rightarrow>
             (case decode_masked (Suc i) want tail of Inl e \<Rightarrow> Inl e | Inr vs \<Rightarrow> Inr (v # vs)))
      else
        (case Skip rest of
           Inl e \<Rightarrow> Inl (FieldError i e)
         | Inr tail \<Rightarrow>
             (case decode_masked (Suc i) want tail of Inl e \<Rightarrow> Inl e | Inr vs \<Rightarrow> Inr (VNull # vs))))"

definition DecodeRowMasked :: "bytes \<Rightarrow> bool list option \<Rightarrow> codec_error + Value list" where
  "DecodeRowMasked src want =
     (case want of
        None \<Rightarrow> Inl NeedsAMask
      | Some want \<Rightarrow>
          (case rowBody src of Inl e \<Rightarrow> Inl e | Inr body \<Rightarrow> decode_masked 0 want body))"

section \<open>Half-open ranges of keys\<close>

definition in_range :: "bytes option \<Rightarrow> bytes option \<Rightarrow> bytes \<Rightarrow> bool" where
  "in_range lo hi k \<longleftrightarrow>
     (case lo of None \<Rightarrow> True | Some s \<Rightarrow> s \<le> k) \<and>
     (case hi of None \<Rightarrow> True | Some e \<Rightarrow> k < e)"

text \<open>\<open>PrefixEnd\<close> by recursion from the front.\<close>

fun prefix_end_rec :: "bytes \<Rightarrow> bytes option" where
  "prefix_end_rec [] = None"
| "prefix_end_rec (b # bs) =
     (case prefix_end_rec bs of
        Some e \<Rightarrow> Some (b # e)
      | None \<Rightarrow> if b \<noteq> 0xFF then Some [b + 1] else None)"

lemma prefix_end_loop_append:
  "prefix_end_loop (xs @ [b]) =
     (case prefix_end_loop xs of
        Some e \<Rightarrow> Some (b # e)
      | None \<Rightarrow> if b \<noteq> 0xFF then Some [b + 1] else None)"
  by (induction xs) simp_all

lemma PrefixEnd_rec: "PrefixEnd p = prefix_end_rec p"
  by (induction p) (simp_all add: PrefixEnd_def prefix_end_loop_append)

lemma byte_less_Suc: "b \<noteq> 0xFF \<Longrightarrow> c < b + 1 \<longleftrightarrow> c \<le> (b :: byte)"
proof -
  assume b: "b \<noteq> 0xFF"
  have "1 + b \<noteq> 0"
  proof
    assume "1 + b = 0"
    then have "b = - 1" by (metis add_eq_0_iff)
    then show False using b by simp
  qed
  then have "unat (b + 1) = Suc (unat b)" using unatSuc [of b] by (simp only: add.commute [of b] simp_thms)
  then show ?thesis by (simp add: word_less_nat_alt word_le_nat_alt less_Suc_eq_le)
qed

lemma prefix_end_rec_iff:
  "prefix p k \<longleftrightarrow> p \<le> k \<and> (case prefix_end_rec p of None \<Rightarrow> True | Some e \<Rightarrow> k < e)"
proof (induction p arbitrary: k)
  case (Cons b bs)
  show ?case
  proof (cases k)
    case k: (Cons c ks)
    show ?thesis
    proof (cases "prefix_end_rec bs")
      case None
      have "b = 0xFF \<Longrightarrow> c \<le> b" using byte_less_256 [of c] by (simp add: word_le_nat_alt)
      then show ?thesis using Cons [of ks] None k byte_less_Suc [of b c] by auto
    next
      case (Some e)
      then show ?thesis using Cons [of ks] k by auto
    qed
  qed simp
qed simp

lemma in_range_PrefixEnd: "in_range (Some p) (PrefixEnd p) k \<longleftrightarrow> prefix p k"
  using prefix_end_rec_iff [of p k] by (simp add: in_range_def PrefixEnd_rec)

section \<open>Shapes of keys\<close>

lemma prefix_bytes [simp]:
  "PrefixMeta \<noteq> PrefixData" "PrefixMeta \<noteq> PrefixIndex" "PrefixData \<noteq> PrefixIndex"
  "PrefixData \<noteq> PrefixMeta" "PrefixIndex \<noteq> PrefixMeta" "PrefixIndex \<noteq> PrefixData"
  "metaTable \<noteq> metaSeq" "metaSeq \<noteq> metaTable"
  by (simp_all add: PrefixMeta_def PrefixData_def PrefixIndex_def metaTable_def metaSeq_def)

lemma DataPrefix_bytes: "DataPrefix t = PrefixData # be_bytes 4 (unat t)"
  by (simp add: DataPrefix_def append_uint32_def)

lemma IndexPrefix_bytes: "IndexPrefix t i = PrefixIndex # be_bytes 4 (unat t) @ be_bytes 4 (unat i)"
  by (simp add: IndexPrefix_def append_uint32_def)

lemma length_DataPrefix [simp]: "length (DataPrefix t) = 5"
  by (simp add: DataPrefix_bytes)

lemma length_IndexPrefix [simp]: "length (IndexPrefix t i) = 9"
  by (simp add: IndexPrefix_bytes)

lemma be_bytes4_inj [simp]: "be_bytes 4 (unat t) = be_bytes 4 (unat u) \<longleftrightarrow> t = (u :: uint32)"
  by (metis be_bytes_inj unat32_bound word_unat_eq_iff)

lemma DataPrefix_inj [simp]: "DataPrefix t = DataPrefix u \<longleftrightarrow> t = u"
  by (simp add: DataPrefix_bytes)

lemma IndexPrefix_inj [simp]: "IndexPrefix t i = IndexPrefix u j \<longleftrightarrow> t = u \<and> i = j"
  by (auto simp: IndexPrefix_bytes dest: arg_cong [where f = "take 4"])

lemma RowKey_append: "RowKey t pk = DataPrefix t @ enc_value pk"
  by (simp add: RowKey_def Encode_append [of "DataPrefix t"])

lemma IndexKey_append: "IndexKey t i v pk = IndexPrefix t i @ enc_value v @ enc_value pk"
  by (simp add: IndexKey_def EncodeAll_append del: EncodeAll.simps)

lemma RowKey_inj [simp]: "RowKey t a = RowKey u b \<longleftrightarrow> t = u \<and> a = b"
  by (auto simp: RowKey_append append_eq_append_conv value_code.enc_inj)

lemma IndexKey_inj [simp]: "IndexKey t i v a = IndexKey u j w b \<longleftrightarrow> t = u \<and> i = j \<and> v = w \<and> a = b"
  by (auto simp: IndexKey_append append_eq_append_conv value_code.enc_append_inj value_code.enc_inj)

lemma prefix_same_length: "length p = length q \<Longrightarrow> prefix p (q @ x) \<longleftrightarrow> p = q"
  by (auto simp: prefix_def append_eq_append_conv)

lemma prefix_DataPrefix [simp]: "prefix (DataPrefix t) (RowKey u pk) \<longleftrightarrow> t = u"
  by (simp add: RowKey_append prefix_same_length)

lemma prefix_IndexPrefix [simp]: "prefix (IndexPrefix t i) (IndexKey u j v pk) \<longleftrightarrow> t = u \<and> i = j"
  by (simp add: IndexKey_append prefix_same_length)

lemma hd_keys [simp]:
  "hd (MetaTableKey n) = PrefixMeta" "hd MetaSeqKey = PrefixMeta"
  "hd (RowKey t pk) = PrefixData" "hd (IndexKey t i v pk) = PrefixIndex"
  by (simp_all add: MetaTableKey_def MetaSeqKey_def RowKey_append DataPrefix_bytes
      IndexKey_append IndexPrefix_bytes)

lemma key_kinds_differ [simp]:
  "MetaTableKey n \<noteq> RowKey t pk" "MetaTableKey n \<noteq> IndexKey t i v pk"
  "MetaSeqKey \<noteq> RowKey t pk" "MetaSeqKey \<noteq> IndexKey t i v pk" "RowKey t pk \<noteq> IndexKey u i v q"
  "RowKey t pk \<noteq> MetaTableKey n" "IndexKey t i v pk \<noteq> MetaTableKey n"
  "RowKey t pk \<noteq> MetaSeqKey" "IndexKey t i v pk \<noteq> MetaSeqKey" "IndexKey u i v q \<noteq> RowKey t pk"
  by (metis hd_keys prefix_bytes)+

lemma MetaTableKey_inj [simp]: "MetaTableKey a = MetaTableKey b \<longleftrightarrow> a = b"
  by (simp add: MetaTableKey_def)

lemma MetaTableKey_MetaSeqKey [simp]: "MetaTableKey n \<noteq> MetaSeqKey" "MetaSeqKey \<noteq> MetaTableKey n"
  by (simp_all add: MetaTableKey_def MetaSeqKey_def)

lemma prefix_other_kinds [simp]:
  "\<not> prefix (DataPrefix t) (IndexKey u j v pk)" "\<not> prefix (DataPrefix t) (MetaTableKey n)"
  "\<not> prefix (DataPrefix t) MetaSeqKey"
  "\<not> prefix (IndexPrefix t i) (RowKey u pk)" "\<not> prefix (IndexPrefix t i) (MetaTableKey n)"
  "\<not> prefix (IndexPrefix t i) MetaSeqKey"
  "\<not> prefix MetaTablePrefix (RowKey u pk)" "\<not> prefix MetaTablePrefix (IndexKey u j v pk)"
  "\<not> prefix MetaTablePrefix MetaSeqKey"
  by (simp_all add: DataPrefix_bytes IndexPrefix_bytes IndexKey_append RowKey_append
      MetaTableKey_def MetaSeqKey_def MetaTablePrefix_def)

lemma prefix_MetaTablePrefix [simp]: "prefix MetaTablePrefix (MetaTableKey n)"
  by (simp add: MetaTablePrefix_def MetaTableKey_def)

section \<open>Decoding keys and rows\<close>

lemma RowKeyPK_RowKey: "RowKeyPK (RowKey t pk) = Inr pk"
  using Decode_Encode [of pk "[]"]
  by (simp add: RowKeyPK_def RowKey_append) (simp add: DataPrefix_bytes)

lemma IndexEntry_IndexKey: "IndexEntry (IndexKey t i v pk) = Inr (v, pk)"
  using Decode_Encode [of v "enc_value pk"] Decode_Encode [of pk "[]"]
  by (simp add: IndexEntry_def IndexKey_append) (simp add: IndexPrefix_bytes)

lemma MetaTableName_MetaTableKey: "MetaTableName (MetaTableKey n) = Inr n"
  by (simp add: MetaTableName_def MetaTableKey_def)

lemma EncodeRow_concat: "EncodeRow [] row = RowFormat # concat (map enc_value row)"
  by (simp add: EncodeRow_def EncodeAll_append)

lemma DecodeRow_EncodeRow: "DecodeRow (EncodeRow [] row) (length row) = Inr row"
  using DecodeAll_concat [of row "[]"] by (simp add: EncodeRow_concat DecodeRow_def rowBody_def)

lemma Skip_Encode: "Skip (enc_value v @ rest) = Inr rest"
proof (cases v)
  case (VText s)
  have "\<exists>w. decode_text [] (esc (bytes_of_string s) @ escByte # escTerm # rest) = Inr (w, rest)"
    by (simp add: decode_text_esc)
  then have "skip_text (esc (bytes_of_string s) @ escByte # escTerm # rest) = Inr rest"
    by (simp only: skip_text_decode [where out = "[]"])
  then show ?thesis using VText by (simp add: Skip_def codec_simps)
qed (simp_all add: Skip_def codec_simps)

lemma decode_masked_concat:
  "decode_masked i want (concat (map enc_value row)) =
     (if length want \<le> length row
      then Inr (map (\<lambda>(w, v). if w then v else VNull) (zip want row))
      else Inl (FieldError (i + length row) EmptyInput))"
proof (induction want arbitrary: i row)
  case (Cons w want)
  show ?case
  proof (cases row)
    case Nil
    then show ?thesis by (simp add: Decode_def Skip_def)
  next
    case (Cons v row')
    then show ?thesis using Cons.IH [of "Suc i" row'] by (simp add: Decode_Encode Skip_Encode)
  qed
qed simp

section \<open>Properties\<close>

text \<open>C30: Every key decodes to the parts it was built from, keys of different kinds never
  coincide, and no table's row prefix or index prefix covers a key of another table, another
  index or another kind.\<close>

theorem key_space:
  "MetaTableName (MetaTableKey n) = Inr n \<and> RowKeyPK (RowKey t pk) = Inr pk
   \<and> IndexEntry (IndexKey t i v pk) = Inr (v, pk)
   \<and> distinct [MetaTableKey n, MetaSeqKey, RowKey t pk, IndexKey t i v pk]
   \<and> (prefix (DataPrefix u) k \<and> k \<in> {MetaTableKey n, MetaSeqKey, RowKey t pk, IndexKey t i v pk}
        \<longrightarrow> k = RowKey u pk)
   \<and> (prefix (IndexPrefix u j) k \<and> k \<in> {MetaTableKey n, MetaSeqKey, RowKey t pk, IndexKey t i v pk}
        \<longrightarrow> k = IndexKey u j v pk)
   \<and> (prefix MetaTablePrefix k \<and> k \<in> {MetaTableKey n, MetaSeqKey, RowKey t pk, IndexKey t i v pk}
        \<longrightarrow> k = MetaTableKey n)"
  by (auto simp: MetaTableName_MetaTableKey RowKeyPK_RowKey IndexEntry_IndexKey)

theorem key_space_witness: "RowKey 7 (VInt 1) = RowKey 7 (VInt 1) \<and> prefix (DataPrefix 7) (RowKey 7 (VInt 1))"
  using key_space [of "''t''" 7 "VInt 1" 1 VNull 7 "RowKey 7 (VInt 1)"] by simp

text \<open>The range from a prefix to its \<open>PrefixEnd\<close> holds exactly the keys that begin with
  the prefix; \<open>nil\<close> is returned exactly for a prefix of 0xFF bytes only.\<close>

theorem PrefixEnd_range:
  "(in_range (Some p) (PrefixEnd p) k \<longleftrightarrow> prefix p k)
   \<and> (PrefixEnd p = None \<longleftrightarrow> p = replicate (length p) 0xFF)"
proof -
  have "prefix_end_rec p = None \<longleftrightarrow> p = replicate (length p) 0xFF"
    by (induction p) (auto split: option.splits)
  then show ?thesis using in_range_PrefixEnd [of p k] by (simp add: PrefixEnd_rec)
qed

text \<open>The entries of one index are stored in the order of the indexed value and, within
  one value, of the primary key; the rows of a table in the order of the primary key.\<close>

theorem scan_order:
  assumes "key_ok v" and "key_ok w" and "key_ok a" and "key_ok b"
  shows "cmp3 (IndexKey t i v a) (IndexKey t i w b) = (if v = w then Order a b else Order v w)
    \<and> cmp3 (RowKey t a) (RowKey t b) = Order a b"
  using assms
  by (simp add: IndexKey_append RowKey_append key_code.cmp_enc_append key_code.cmp_enc)

theorem scan_order_witness:
  "cmp3 (IndexKey 3 1 (VInt (-1)) (VInt 9)) (IndexKey 3 1 (VInt 0) (VInt 2)) = -1"
  using scan_order [of "VInt (-1)" "VInt 0" "VInt 9" "VInt 2" 3 1]
  by (simp add: key_ok_def cmp3_def)

text \<open>C29: A stored row reads back as it was written; reading it through a column mask gives
  the masked columns and NULL for the others, as \<open>DecodeRow\<close> followed by masking would; a mask
  longer than the row is refused at the first missing field.\<close>

theorem row_roundtrip:
  "DecodeRow (EncodeRow [] row) (length row) = Inr row
   \<and> DecodeRowMasked (EncodeRow [] row) (Some want) =
       (if length want \<le> length row
        then Inr (map (\<lambda>(w, v). if w then v else VNull) (zip want row))
        else Inl (FieldError (length row) EmptyInput))"
  by (simp add: DecodeRow_EncodeRow)
    (simp add: DecodeRowMasked_def EncodeRow_concat rowBody_def decode_masked_concat)

end
