(* ===== verification/Sorting.thy ===== *)
theory Sorting
  imports Prelude "HOL-Library.Multiset"
begin

text \<open>
  The standard library's sorts, as the sources call them: \<open>sort.SliceStable\<close> keeps the order
  of elements neither of which is less than the other; \<open>sort.Slice\<close> and \<open>sort.Strings\<close> leave
  that order open, and are called on elements that are pairwise different in the order, where
  every sort gives the same list.  The comparison is the \<open>less\<close> function the caller passes.
  The locale \<open>strict_weak\<close> states what \<open>less\<close> must satisfy; its lemmas are the contract of
  the sort.
\<close>

fun insert_sorted :: "('a \<Rightarrow> 'a \<Rightarrow> bool) \<Rightarrow> 'a \<Rightarrow> 'a list \<Rightarrow> 'a list" where
  "insert_sorted lt x [] = [x]"
| "insert_sorted lt x (y # ys) =
     (if lt y x then y # insert_sorted lt x ys else x # y # ys)"

fun sort_slice :: "('a \<Rightarrow> 'a \<Rightarrow> bool) \<Rightarrow> 'a list \<Rightarrow> 'a list" where
  "sort_slice lt [] = []"
| "sort_slice lt (x # xs) = insert_sorted lt x (sort_slice lt xs)"

fun sorted_by :: "('a \<Rightarrow> 'a \<Rightarrow> bool) \<Rightarrow> 'a list \<Rightarrow> bool" where
  "sorted_by lt [] = True"
| "sorted_by lt (x # xs) = ((\<forall>y \<in> set xs. \<not> lt y x) \<and> sorted_by lt xs)"

lemma mset_insert_sorted [simp]: "mset (insert_sorted lt x xs) = add_mset x (mset xs)"
  by (induction xs) auto

lemma set_insert_sorted [simp]: "set (insert_sorted lt x xs) = insert x (set xs)"
  by (metis mset_insert_sorted set_mset_add_mset_insert set_mset_mset)

lemma mset_sort_slice [simp]: "mset (sort_slice lt xs) = mset xs"
  by (induction xs) auto

lemma set_sort_slice [simp]: "set (sort_slice lt xs) = set xs"
  by (metis mset_sort_slice set_mset_mset)

lemma length_sort_slice [simp]: "length (sort_slice lt xs) = length xs"
  by (metis mset_sort_slice size_mset)

lemma sorted_by_append:
  "sorted_by lt (xs @ ys) \<longleftrightarrow>
     sorted_by lt xs \<and> sorted_by lt ys \<and> (\<forall>x \<in> set xs. \<forall>y \<in> set ys. \<not> lt y x)"
  by (induction xs) auto

locale strict_weak =
  fixes lt :: "'a \<Rightarrow> 'a \<Rightarrow> bool"
  assumes irrefl: "\<not> lt x x"
    and less_trans: "lt x y \<Longrightarrow> lt y z \<Longrightarrow> lt x z"
    and incomp_trans: "\<not> lt x y \<Longrightarrow> \<not> lt y z \<Longrightarrow> \<not> lt x z"
begin

lemma asym: "lt x y \<Longrightarrow> \<not> lt y x"
  using irrefl less_trans by blast

lemma sorted_insert: "sorted_by lt xs \<Longrightarrow> sorted_by lt (insert_sorted lt x xs)"
proof (induction xs)
  case (Cons y ys)
  show ?case
  proof (cases "lt y x")
    case True
    then show ?thesis using Cons asym [OF True] by simp
  next
    case False
    then have "\<forall>z \<in> set ys. \<not> lt z x" using Cons.prems incomp_trans [of _ y x] by simp
    then show ?thesis using Cons.prems False by simp
  qed
qed simp

lemma sorted_sort: "sorted_by lt (sort_slice lt xs)"
  by (induction xs) (auto intro: sorted_insert)

text \<open>Stability: the elements equal to any given one keep their order.\<close>

lemma filter_insert_equal:
  assumes "\<not> lt x z" and "\<not> lt z x"
  shows "filter (\<lambda>y. \<not> lt y z \<and> \<not> lt z y) (insert_sorted lt x xs)
    = x # filter (\<lambda>y. \<not> lt y z \<and> \<not> lt z y) xs"
proof (induction xs)
  case (Cons y ys)
  have "lt y x \<Longrightarrow> lt y z" using assms incomp_trans by blast
  then show ?case using Cons assms by auto
qed (use assms in simp)

lemma filter_insert_other:
  assumes "lt x z \<or> lt z x"
  shows "filter (\<lambda>y. \<not> lt y z \<and> \<not> lt z y) (insert_sorted lt x xs)
    = filter (\<lambda>y. \<not> lt y z \<and> \<not> lt z y) xs"
  using assms by (induction xs) auto

lemma sort_stable:
  "filter (\<lambda>y. \<not> lt y z \<and> \<not> lt z y) (sort_slice lt xs)
    = filter (\<lambda>y. \<not> lt y z \<and> \<not> lt z y) xs"
proof (induction xs)
  case (Cons x xs)
  then show ?case
    by (cases "lt x z \<or> lt z x") (auto simp: filter_insert_equal filter_insert_other)
qed simp

text \<open>A sorted list with these elements and this order of equal elements is unique.\<close>

lemma sorted_stable_unique:
  assumes "sorted_by lt xs" and "sorted_by lt ys" and "mset xs = mset ys"
    and "\<And>z. filter (\<lambda>y. \<not> lt y z \<and> \<not> lt z y) xs = filter (\<lambda>y. \<not> lt y z \<and> \<not> lt z y) ys"
  shows "xs = ys"
  using assms
proof (induction xs arbitrary: ys)
  case (Cons x xs)
  obtain y ys' where ys: "ys = y # ys'"
    using Cons.prems(3) by (cases ys) auto
  have "y \<in> set (x # xs)" "x \<in> set ys"
    using Cons.prems(3) ys by (metis list.set_intros(1) set_mset_mset)+
  then have "\<not> lt y x" "\<not> lt x y"
    using Cons.prems(1,2) ys irrefl by auto
  then have "x = y"
    using Cons.prems(4) [of x] ys irrefl by (simp add: split: if_splits)
  moreover have "xs = ys'"
  proof (rule Cons.IH)
    show "sorted_by lt xs" "sorted_by lt ys'" "mset xs = mset ys'"
      using Cons.prems ys \<open>x = y\<close> by auto
    show "filter (\<lambda>y. \<not> lt y z \<and> \<not> lt z y) xs = filter (\<lambda>y. \<not> lt y z \<and> \<not> lt z y) ys'" for z
      using Cons.prems(4) [of z] ys \<open>x = y\<close> by (simp split: if_splits)
  qed
  ultimately show ?case using ys by simp
qed simp

lemma sort_id: "sorted_by lt xs \<Longrightarrow> sort_slice lt xs = xs"
  by (rule sorted_stable_unique) (simp_all only: sorted_sort mset_sort_slice sort_stable)

end

text \<open>An order by the key of an element is one.\<close>

lemma strict_weak_key: "strict_weak (\<lambda>a b. (f a :: 'k::linorder) < f b)"
  by unfold_locales auto

interpretation key_sort: strict_weak "\<lambda>a b. (f a :: 'k::linorder) < f b" for f
  by (rule strict_weak_key)

lemma sorted_by_key: "sorted_by (\<lambda>a b. f a < f b) xs \<longleftrightarrow> sorted (map f xs)"
  for f :: "'a \<Rightarrow> 'k::linorder"
  by (induction xs) auto

text \<open>When no two elements have the same key, the sorted list does not depend on the order of
  the input: the order in which Go ranges over a map does not matter.\<close>

lemma sort_key_unique:
  fixes f :: "'a \<Rightarrow> 'k::linorder"
  assumes "mset xs = mset ys" and "distinct (map f xs)"
  shows "sort_slice (\<lambda>a b. f a < f b) xs = sort_slice (\<lambda>a b. f a < f b) ys"
proof -
  let ?s = "sort_slice (\<lambda>a b. f a < f b)"
  have sets: "set (?s xs) = set xs" "set (?s ys) = set xs"
    using assms(1) by (metis set_sort_slice mset_eq_setD)+
  have "sorted (map f (?s xs))" "sorted (map f (?s ys))"
    using key_sort.sorted_sort [of f] by (simp_all only: sorted_by_key)
  moreover have "mset (map f (?s xs)) = mset (map f (?s ys))" using assms(1) by simp
  ultimately have "map f (?s xs) = map f (?s ys)"
    by (metis properties_for_sort sort_key_id_if_sorted)
  moreover have "inj_on f (set (?s xs) \<union> set (?s ys))"
    using assms(2) by (simp add: sets distinct_map del: set_sort_slice)
  ultimately show ?thesis by (rule map_inj_on)
qed

end
