(* ===== verification/Storage.thy ===== *)
theory Storage
  imports Keys Sorting "HOL-Library.AList"
begin

text \<open>
  The storage seam of \<open>src/storage\<close>: the \<open>Reader\<close>/\<open>ReadWriter\<close> interfaces, the keelstore
  adapters (\<open>Store\<close>, \<open>Snapshot\<close>), the in-memory store, the write buffer and the overlay of a
  buffer on a base reader with its merging iterator.

  A reader is a record of its two methods at one moment; a scan is the list of pairs the
  iterator hands out until \<open>Next\<close> answers false, with the error \<open>Err\<close> reports then.  A Go map
  is an association list with distinct keys whose order stands for the unspecified iteration
  order.  keelstore itself is not part of the sources: it is the parameter \<open>'db keelstore\<close>.
\<close>

section \<open>Interfaces\<close>

text \<open>\<open>ErrNotFound\<close> is \<open>storage.ErrNotFound\<close>; every other error is opaque to the sources.\<close>

datatype store_error = ErrNotFound | StoreFailure string

type_synonym pairs = "(bytes \<times> bytes) list"
type_synonym scan = "pairs \<times> store_error option"

record Reader =
  Get :: "bytes \<Rightarrow> store_error + bytes"
  Scan :: "bytes option \<Rightarrow> bytes option \<Rightarrow> scan"

record 'st ReadWriter =
  rw_reader :: "'st \<Rightarrow> Reader"
  rw_Put :: "'st \<Rightarrow> bytes \<Rightarrow> bytes \<Rightarrow> store_error option \<times> 'st"
  rw_Delete :: "'st \<Rightarrow> bytes \<Rightarrow> store_error option \<times> 'st"

section \<open>keelstore adapters\<close>

datatype keel_error = KeelNotFound | KeelFailure string

record 'db keelstore =
  ks_Get :: "'db \<Rightarrow> bytes \<Rightarrow> keel_error + bytes"
  ks_Iterate :: "'db \<Rightarrow> bytes option \<Rightarrow> bytes option \<Rightarrow> pairs \<times> keel_error option"
  ks_Put :: "'db \<Rightarrow> bytes \<Rightarrow> bytes \<Rightarrow> keel_error option \<times> 'db"
  ks_Delete :: "'db \<Rightarrow> bytes \<Rightarrow> keel_error option \<times> 'db"

fun translate_error :: "keel_error \<Rightarrow> store_error" where
  "translate_error KeelNotFound = ErrNotFound"
| "translate_error (KeelFailure msg) = StoreFailure msg"

definition translate :: "keel_error + bytes \<Rightarrow> store_error + bytes" where
  "translate r = (case r of Inl e \<Rightarrow> Inl (translate_error e) | Inr v \<Rightarrow> Inr v)"

text \<open>\<open>Store\<close> and \<open>Snapshot\<close>: the same methods on the live database and on a snapshot, which
  is the database as it was when the snapshot was taken.  \<open>storeIter\<close> copies each pair.\<close>

definition Store_reader :: "'db keelstore \<Rightarrow> 'db \<Rightarrow> Reader" where
  "Store_reader ks db =
     \<lparr>Get = (\<lambda>key. translate (ks_Get ks db key)),
      Scan = (\<lambda>start end.
        case ks_Iterate ks db start end of (ps, err) \<Rightarrow> (ps, map_option translate_error err))\<rparr>"

definition Store_rw :: "'db keelstore \<Rightarrow> 'db ReadWriter" where
  "Store_rw ks =
     \<lparr>rw_reader = Store_reader ks,
      rw_Put = (\<lambda>db key value.
        case ks_Put ks db key value of (err, db') \<Rightarrow> (map_option translate_error err, db')),
      rw_Delete = (\<lambda>db key.
        case ks_Delete ks db key of (err, db') \<Rightarrow> (map_option translate_error err, db'))\<rparr>"

section \<open>The write buffer\<close>

record Entry =
  e_Key :: bytes
  e_Value :: bytes
  e_Deleted :: bool

record Buffer =
  b_m :: "(bytes \<times> Entry) list"
  b_sorted :: "Entry list"
  b_dirty :: bool

definition NewBuffer :: Buffer where
  "NewBuffer = \<lparr>b_m = [], b_sorted = [], b_dirty = False\<rparr>"

definition Buffer_Len :: "Buffer \<Rightarrow> nat" where
  "Buffer_Len b = length (b_m b)"

definition Buffer_Put :: "Buffer \<Rightarrow> bytes \<Rightarrow> bytes \<Rightarrow> store_error option \<times> Buffer" where
  "Buffer_Put b key value =
     (None, b\<lparr>b_m := AList.update key \<lparr>e_Key = key, e_Value = value, e_Deleted = False\<rparr> (b_m b),
              b_dirty := True\<rparr>)"

definition Buffer_Delete :: "Buffer \<Rightarrow> bytes \<Rightarrow> store_error option \<times> Buffer" where
  "Buffer_Delete b key =
     (None, b\<lparr>b_m := AList.update key \<lparr>e_Key = key, e_Value = [], e_Deleted = True\<rparr> (b_m b),
              b_dirty := True\<rparr>)"

definition Lookup :: "Buffer \<Rightarrow> bytes \<Rightarrow> Entry option" where
  "Lookup b key = map_of (b_m b) key"

abbreviation entry_less :: "Entry \<Rightarrow> Entry \<Rightarrow> bool" where
  "entry_less a b \<equiv> e_Key a < e_Key b"

definition Entries :: "Buffer \<Rightarrow> Entry list \<times> Buffer" where
  "Entries b =
     (let b' = (if b_dirty b
                then b\<lparr>b_sorted := sort_slice entry_less (map snd (b_m b)), b_dirty := False\<rparr>
                else b)
      in (b_sorted b', b'))"

definition Buffer_Reset :: "Buffer \<Rightarrow> Buffer" where
  "Buffer_Reset b = b\<lparr>b_m := [], b_sorted := [], b_dirty := False\<rparr>"

text \<open>\<open>sort.Search\<close>: binary search for the least index below \<open>n\<close> at which \<open>f\<close> holds.\<close>

function search_loop :: "(nat \<Rightarrow> bool) \<Rightarrow> nat \<Rightarrow> nat \<Rightarrow> nat" where
  "search_loop f i j =
     (if i < j then
        (let h = (i + j) div 2 in if \<not> f h then search_loop f (h + 1) j else search_loop f i h)
      else i)"
  by auto
termination by (relation "measure (\<lambda>(f, i, j). j - i)") auto

definition sort_Search :: "nat \<Rightarrow> (nat \<Rightarrow> bool) \<Rightarrow> nat" where
  "sort_Search n f = search_loop f 0 n"

definition rangeEntries :: "Buffer \<Rightarrow> bytes option \<Rightarrow> bytes option \<Rightarrow> Entry list \<times> Buffer" where
  "rangeEntries b start end =
     (let (all, b') = Entries b;
          lo = sort_Search (length all)
                 (\<lambda>i. case start of None \<Rightarrow> True | Some s \<Rightarrow> s \<le> e_Key (all ! i));
          hi = (case end of None \<Rightarrow> length all
                | Some e \<Rightarrow> sort_Search (length all) (\<lambda>i. e \<le> e_Key (all ! i)))
      in (if lo > hi then [] else take (hi - lo) (drop lo all), b'))"

section \<open>The overlay\<close>

record Overlay =
  Base :: Reader
  Buf :: Buffer

definition NewOverlay :: "Reader \<Rightarrow> Buffer \<Rightarrow> Overlay" where
  "NewOverlay base buf = \<lparr>Base = base, Buf = buf\<rparr>"

definition Overlay_Put :: "Overlay \<Rightarrow> bytes \<Rightarrow> bytes \<Rightarrow> store_error option \<times> Overlay" where
  "Overlay_Put ov key value =
     (case Buffer_Put (Buf ov) key value of (err, b) \<Rightarrow> (err, ov\<lparr>Buf := b\<rparr>))"

definition Overlay_Delete :: "Overlay \<Rightarrow> bytes \<Rightarrow> store_error option \<times> Overlay" where
  "Overlay_Delete ov key = (case Buffer_Delete (Buf ov) key of (err, b) \<Rightarrow> (err, ov\<lparr>Buf := b\<rparr>))"

definition Overlay_Get :: "Overlay \<Rightarrow> bytes \<Rightarrow> store_error + bytes" where
  "Overlay_Get ov key =
     (case Lookup (Buf ov) key of
        Some e \<Rightarrow> if e_Deleted e then Inl ErrNotFound else Inr (e_Value e)
      | None \<Rightarrow> Get (Base ov) key)"

text \<open>The merging iterator.  \<open>oi_base\<close> is what the base iterator has still to hand out and
  \<open>oi_cur\<close> the pair it stands on.\<close>

record overlayIter =
  oi_base :: pairs
  oi_cur :: "bytes \<times> bytes"
  oi_buf :: "Entry list"
  oi_bi :: nat
  oi_needBase :: bool
  oi_baseValid :: bool
  oi_key :: bytes
  oi_value :: bytes

definition base_Next :: "overlayIter \<Rightarrow> overlayIter" where
  "base_Next m =
     (case oi_base m of
        [] \<Rightarrow> m\<lparr>oi_baseValid := False\<rparr>
      | p # ps \<Rightarrow> m\<lparr>oi_baseValid := True, oi_cur := p, oi_base := ps\<rparr>)"

definition fill_base :: "overlayIter \<Rightarrow> overlayIter" where
  "fill_base m = (if oi_needBase m then (base_Next m)\<lparr>oi_needBase := False\<rparr> else m)"

lemma fill_base_buf [simp]: "oi_buf (fill_base m) = oi_buf m" "oi_bi (fill_base m) = oi_bi m"
  by (simp_all add: fill_base_def base_Next_def split: list.split)

text \<open>One turn of the loop in \<open>Next\<close>: \<open>None\<close> is \<open>continue\<close>, \<open>Some b\<close> is \<open>return b\<close>.\<close>

definition overlay_turn :: "overlayIter \<Rightarrow> bool option \<times> overlayIter" where
  "overlay_turn m0 =
     (let m = fill_base m0; bufValid = (oi_bi m < length (oi_buf m)) in
      if \<not> oi_baseValid m \<and> \<not> bufValid then (Some False, m)
      else if bufValid \<and> (\<not> oi_baseValid m \<or> e_Key (oi_buf m ! oi_bi m) \<le> fst (oi_cur m)) then
        (let e = oi_buf m ! oi_bi m;
             m1 = m\<lparr>oi_bi := oi_bi m + 1\<rparr>;
             m2 = (if oi_baseValid m1 \<and> e_Key e = fst (oi_cur m1)
                   then m1\<lparr>oi_needBase := True\<rparr> else m1)
         in if e_Deleted e then (None, m2)
            else (Some True, m2\<lparr>oi_key := e_Key e, oi_value := e_Value e\<rparr>))
      else
        (Some True,
         m\<lparr>oi_key := fst (oi_cur m), oi_value := snd (oi_cur m), oi_needBase := True\<rparr>))"

text \<open>The pairs an iterator has still to hand out, at most.\<close>

definition iter_size :: "overlayIter \<Rightarrow> nat" where
  "iter_size m = length (oi_base m) + (if oi_baseValid m \<and> \<not> oi_needBase m then 1 else 0)
     + (length (oi_buf m) - oi_bi m)"

lemma fill_base_size: "iter_size (fill_base m) = iter_size m"
  by (simp add: iter_size_def fill_base_def base_Next_def split: list.split)

lemma fill_base_need [simp]: "\<not> oi_needBase (fill_base m)"
  by (simp add: fill_base_def)

lemma overlay_turn_decreases:
  "overlay_turn m = (r, m') \<Longrightarrow> r \<noteq> Some False \<Longrightarrow> iter_size m' < iter_size m"
  unfolding fill_base_size [of m, symmetric]
  by (auto simp: overlay_turn_def iter_size_def Let_def split: if_splits)

function overlay_Next :: "overlayIter \<Rightarrow> bool \<times> overlayIter" where
  "overlay_Next m =
     (case overlay_turn m of
        (None, m') \<Rightarrow> overlay_Next m'
      | (Some b, m') \<Rightarrow> (b, m'))"
  by auto
termination
  by (relation "measure iter_size") (auto dest: overlay_turn_decreases [OF sym])

declare overlay_Next.simps [simp del] search_loop.simps [simp del]

lemma overlay_Next_decreases: "overlay_Next m = (True, m') \<Longrightarrow> iter_size m' < iter_size m"
proof (induction m rule: overlay_Next.induct)
  case (1 m)
  obtain r m1 where t: "overlay_turn m = (r, m1)" by (cases "overlay_turn m")
  show ?case
  proof (cases r)
    case None
    then have "iter_size m1 < iter_size m" using overlay_turn_decreases [OF t] by simp
    moreover have "iter_size m' < iter_size m1"
      using 1 t None by (simp add: overlay_Next.simps [of m])
    ultimately show ?thesis by simp
  next
    case (Some b)
    then have "b" "m' = m1" using 1(2) t by (simp_all add: overlay_Next.simps [of m])
    then show ?thesis using overlay_turn_decreases [OF t] Some by simp
  qed
qed

text \<open>The pairs a caller reads by calling \<open>Next\<close> until it answers false.\<close>

function drain :: "overlayIter \<Rightarrow> pairs" where
  "drain m =
     (case overlay_Next m of
        (False, _) \<Rightarrow> []
      | (True, m') \<Rightarrow> (oi_key m', oi_value m') # drain m')"
  by auto
termination
  by (relation "measure iter_size") (auto dest: overlay_Next_decreases [OF sym])

declare drain.simps [simp del]

definition Overlay_Scan :: "Overlay \<Rightarrow> bytes option \<Rightarrow> bytes option \<Rightarrow> scan \<times> Overlay" where
  "Overlay_Scan ov start end =
     (let (base, err) = Scan (Base ov) start end;
          (buf, b') = rangeEntries (Buf ov) start end;
          it = \<lparr>oi_base = base, oi_cur = ([], []), oi_buf = buf, oi_bi = 0, oi_needBase = True,
                oi_baseValid = False, oi_key = [], oi_value = []\<rparr>
      in ((drain it, err), ov\<lparr>Buf := b'\<rparr>))"

text \<open>The overlay as a \<open>ReadWriter\<close>.  A scan also refreshes the buffer's sorted cache, which
  no operation lets a caller see (\<open>Overlay_Scan_view\<close> below).\<close>

definition Overlay_reader :: "Overlay \<Rightarrow> Reader" where
  "Overlay_reader ov =
     \<lparr>Get = Overlay_Get ov, Scan = (\<lambda>start end. fst (Overlay_Scan ov start end))\<rparr>"

definition Overlay_rw :: "Overlay ReadWriter" where
  "Overlay_rw = \<lparr>rw_reader = Overlay_reader, rw_Put = Overlay_Put, rw_Delete = Overlay_Delete\<rparr>"

section \<open>The in-memory store\<close>

record Memory =
  mem_m :: pairs

definition NewMemory :: Memory where
  "NewMemory = \<lparr>mem_m = []\<rparr>"

definition Memory_Get :: "Memory \<Rightarrow> bytes \<Rightarrow> store_error + bytes" where
  "Memory_Get s key = (case map_of (mem_m s) key of None \<Rightarrow> Inl ErrNotFound | Some v \<Rightarrow> Inr v)"

definition Memory_Put :: "Memory \<Rightarrow> bytes \<Rightarrow> bytes \<Rightarrow> store_error option \<times> Memory" where
  "Memory_Put s key value = (None, s\<lparr>mem_m := AList.update key value (mem_m s)\<rparr>)"

definition Memory_Delete :: "Memory \<Rightarrow> bytes \<Rightarrow> store_error option \<times> Memory" where
  "Memory_Delete s key = (None, s\<lparr>mem_m := AList.delete key (mem_m s)\<rparr>)"

definition Memory_Len :: "Memory \<Rightarrow> nat" where
  "Memory_Len s = length (mem_m s)"

text \<open>\<open>sliceIter\<close> hands out the entries that were copied when the scan began.\<close>

definition Memory_Scan :: "Memory \<Rightarrow> bytes option \<Rightarrow> bytes option \<Rightarrow> scan" where
  "Memory_Scan s start end =
     (let entries = filter (\<lambda>(key, v).
            \<not> (case start of None \<Rightarrow> False | Some lo \<Rightarrow> key < lo) \<and>
            \<not> (case end of None \<Rightarrow> False | Some hi \<Rightarrow> hi \<le> key)) (mem_m s)
      in (sort_slice (\<lambda>a b. fst a < fst b) entries, None))"

definition Memory_reader :: "Memory \<Rightarrow> Reader" where
  "Memory_reader s = \<lparr>Get = Memory_Get s, Scan = Memory_Scan s\<rparr>"

definition Memory_rw :: "Memory ReadWriter" where
  "Memory_rw = \<lparr>rw_reader = Memory_reader, rw_Put = Memory_Put, rw_Delete = Memory_Delete\<rparr>"

section \<open>The contract: an ordered map\<close>

text \<open>\<open>is_scan m lo hi ps\<close>: \<open>ps\<close> lists the pairs of \<open>m\<close> in the range, in ascending key order,
  each once.  It determines \<open>ps\<close>.\<close>

definition is_scan :: "(bytes \<rightharpoonup> bytes) \<Rightarrow> bytes option \<Rightarrow> bytes option \<Rightarrow> pairs \<Rightarrow> bool" where
  "is_scan m lo hi ps \<longleftrightarrow>
     sorted_wrt (<) (map fst ps) \<and>
     (\<forall>k v. (k, v) \<in> set ps \<longleftrightarrow> m k = Some v \<and> in_range lo hi k)"

definition reads :: "Reader \<Rightarrow> (bytes \<rightharpoonup> bytes) \<Rightarrow> bool" where
  "reads rd m \<longleftrightarrow>
     (\<forall>k. Get rd k = (case m k of None \<Rightarrow> Inl ErrNotFound | Some v \<Rightarrow> Inr v)) \<and>
     (\<forall>lo hi. snd (Scan rd lo hi) = None \<and> is_scan m lo hi (fst (Scan rd lo hi)))"

definition reader_view :: "Reader \<Rightarrow> (bytes \<rightharpoonup> bytes)" where
  "reader_view rd k = (case Get rd k of Inl _ \<Rightarrow> None | Inr v \<Rightarrow> Some v)"

lemma is_scan_pairs: "is_scan m lo hi ps \<Longrightarrow> ps = map (\<lambda>k. (k, the (m k))) (map fst ps)"
  by (auto simp: is_scan_def intro!: map_idI [symmetric])

lemma is_scan_unique:
  assumes "is_scan m lo hi ps" and "is_scan m lo hi qs"
  shows "ps = qs"
proof -
  have "set ps = set qs" using assms by (auto simp: is_scan_def)
  then have "set (map fst ps) = set (map fst qs)" by simp
  then have "map fst ps = map fst qs"
    using assms by (intro strict_sorted_equal) (simp_all add: is_scan_def)
  then show ?thesis
    using is_scan_pairs [OF assms(1)] is_scan_pairs [OF assms(2)] by (simp only:)
qed

lemma is_scan_distinct: "is_scan m lo hi ps \<Longrightarrow> distinct (map fst ps)"
  by (simp add: is_scan_def strict_sorted_iff)

lemma reads_view: "reads rd m \<Longrightarrow> reader_view rd = m"
  by (rule ext) (auto simp: reads_def reader_view_def split: option.splits)

lemma reads_Get: "reads rd m \<Longrightarrow> Get rd k = (case m k of None \<Rightarrow> Inl ErrNotFound | Some v \<Rightarrow> Inr v)"
  by (simp add: reads_def)

lemma reads_Scan: "reads rd m \<Longrightarrow> is_scan m lo hi ps \<Longrightarrow> Scan rd lo hi = (ps, None)"
  by (metis reads_def is_scan_unique prod.collapse)

lemma reads_ScanE:
  assumes "reads rd m"
  obtains ps where "Scan rd lo hi = (ps, None)" and "is_scan m lo hi ps"
  using assms by (metis reads_def prod.collapse)

text \<open>Two readers of one map answer every call alike.\<close>

lemma reads_unique:
  assumes "reads rd m" and "reads rd' m"
  shows "Get rd = Get rd' \<and> Scan rd = Scan rd'"
proof (intro conjI ext)
  show "Get rd k = Get rd' k" for k using assms by (simp add: reads_Get)
  show "Scan rd lo hi = Scan rd' lo hi" for lo hi
  proof -
    obtain ps where "Scan rd lo hi = (ps, None)" and "is_scan m lo hi ps"
      by (rule reads_ScanE [OF assms(1)])
    then show ?thesis by (simp only: reads_Scan [OF assms(2)])
  qed
qed

text \<open>What every store the statements write to promises: it reads as a map, and a write that
  reports success changes that map at one key.  The stores of the sources that the statements
  run on (\<open>Overlay\<close>, \<open>Memory\<close>) always report success.\<close>

locale read_writer =
  fixes rw :: "'st ReadWriter"
    and view :: "'st \<Rightarrow> bytes \<rightharpoonup> bytes"
    and inv :: "'st \<Rightarrow> bool"
  assumes reader: "inv st \<Longrightarrow> reads (rw_reader rw st) (view st)"
    and put: "inv st \<Longrightarrow> rw_Put rw st k v = (err, st') \<Longrightarrow>
      err = None \<and> inv st' \<and> view st' = (view st)(k \<mapsto> v)"
    and delete: "inv st \<Longrightarrow> rw_Delete rw st k = (err, st') \<Longrightarrow>
      err = None \<and> inv st' \<and> view st' = (view st)(k := None)"
begin

lemma get: "inv st \<Longrightarrow> Get (rw_reader rw st) k = (case view st k of None \<Rightarrow> Inl ErrNotFound | Some v \<Rightarrow> Inr v)"
  using reader reads_Get by blast

lemma scan: "inv st \<Longrightarrow> is_scan (view st) lo hi ps \<Longrightarrow> Scan (rw_reader rw st) lo hi = (ps, None)"
  using reader reads_Scan by blast

lemma put_snd: "inv st \<Longrightarrow> inv (snd (rw_Put rw st k v))"
  and delete_snd: "inv st \<Longrightarrow> inv (snd (rw_Delete rw st k))"
  using put [OF _ surjective_pairing] delete [OF _ surjective_pairing] by blast+

lemma putE:
  assumes "inv st"
  obtains st' where "rw_Put rw st k v = (None, st')" and "inv st'"
    and "view st' = (view st)(k \<mapsto> v)"
  using put [OF assms] by (metis surj_pair)

lemma deleteE:
  assumes "inv st"
  obtains st' where "rw_Delete rw st k = (None, st')" and "inv st'"
    and "view st' = (view st)(k := None)"
  using delete [OF assms] by (metis surj_pair)

end

section \<open>Memory implements the contract\<close>

definition memory_view :: "Memory \<Rightarrow> bytes \<rightharpoonup> bytes" where
  "memory_view s = map_of (mem_m s)"

definition memory_inv :: "Memory \<Rightarrow> bool" where
  "memory_inv s \<longleftrightarrow> distinct (map fst (mem_m s))"

lemma sorted_distinct_strict:
  "sorted (map f xs) \<Longrightarrow> distinct (map f xs) \<Longrightarrow> sorted_wrt (<) (map f xs)"
  by (simp add: strict_sorted_iff)

lemma sort_slice_strict:
  fixes f :: "'a \<Rightarrow> 'k::linorder"
  assumes "distinct (map f xs)"
  shows "sorted_wrt (<) (map f (sort_slice (\<lambda>a b. f a < f b) xs))"
proof (rule sorted_distinct_strict)
  show "sorted (map f (sort_slice (\<lambda>a b. f a < f b) xs))"
    using key_sort.sorted_sort [of f xs] by (simp only: sorted_by_key)
  show "distinct (map f (sort_slice (\<lambda>a b. f a < f b) xs))"
    using assms by (metis mset_sort_slice mset_map mset_eq_imp_distinct_iff)
qed

lemma distinct_map_filter': "distinct (map f xs) \<Longrightarrow> distinct (map f (filter P xs))"
  by (induction xs) auto

lemma memory_reads: "memory_inv s \<Longrightarrow> reads (Memory_reader s) (memory_view s)"
proof -
  assume d: "memory_inv s"
  have "is_scan (memory_view s) lo hi (fst (Memory_Scan s lo hi))" for lo hi
    unfolding is_scan_def Memory_Scan_def Let_def fst_conv
  proof (intro conjI allI)
    show "sorted_wrt (<) (map fst (sort_slice (\<lambda>a b. fst a < fst b)
      (filter (\<lambda>(key, v). \<not> (case lo of None \<Rightarrow> False | Some lo \<Rightarrow> key < lo) \<and>
            \<not> (case hi of None \<Rightarrow> False | Some hi \<Rightarrow> hi \<le> key)) (mem_m s))))"
      using d by (intro sort_slice_strict distinct_map_filter') (simp add: memory_inv_def)
  qed (use d in \<open>auto simp: memory_view_def memory_inv_def in_range_def not_less not_le
      split: option.splits\<close>)
  then show ?thesis
    by (simp add: reads_def Memory_reader_def Memory_Get_def memory_view_def)
      (simp add: Memory_Scan_def)
qed

interpretation memory: read_writer Memory_rw memory_view memory_inv
proof
  show "reads (rw_reader Memory_rw st) (memory_view st)" if "memory_inv st" for st
    using memory_reads [OF that] by (simp add: Memory_rw_def)
qed (auto simp: Memory_rw_def Memory_Put_def Memory_Delete_def memory_inv_def memory_view_def
    update_conv' delete_conv' distinct_update distinct_delete)

section \<open>Binary search and the range of a buffer\<close>

lemma search_loop_spec:
  assumes "i \<le> j" and "\<And>x y. x \<le> y \<Longrightarrow> y < n \<Longrightarrow> f x \<Longrightarrow> f y"
    and "\<forall>x < i. \<not> f x" and "\<forall>x \<ge> j. x < n \<longrightarrow> f x" and "j \<le> n"
  shows "search_loop f i j \<le> n \<and> (\<forall>x < search_loop f i j. \<not> f x)
    \<and> (\<forall>x \<ge> search_loop f i j. x < n \<longrightarrow> f x)"
  using assms
proof (induction f i j rule: search_loop.induct)
  case (1 f i j)
  show ?case
  proof (cases "i < j")
    case True
    let ?h = "(i + j) div 2"
    have h: "i \<le> ?h" "?h < j" using True by auto
    show ?thesis
    proof (cases "f ?h")
      case True
      have "\<forall>x \<ge> ?h. x < n \<longrightarrow> f x" using True 1(4) by blast
      then have "search_loop f i ?h \<le> n \<and> (\<forall>x < search_loop f i ?h. \<not> f x)
          \<and> (\<forall>x \<ge> search_loop f i ?h. x < n \<longrightarrow> f x)"
        using True h 1(4-7) \<open>i < j\<close> by (intro 1(2)) auto
      then show ?thesis using True \<open>i < j\<close> by (simp add: search_loop.simps [of f i j])
    next
      case False
      have "\<forall>x < ?h + 1. \<not> f x" using False 1(4) [of _ ?h] h(2) 1(7)
        by (auto simp: less_Suc_eq_le)
      then have "search_loop f (?h + 1) j \<le> n \<and> (\<forall>x < search_loop f (?h + 1) j. \<not> f x)
          \<and> (\<forall>x \<ge> search_loop f (?h + 1) j. x < n \<longrightarrow> f x)"
        using False h 1(4-7) \<open>i < j\<close> by (intro 1(1)) auto
      then show ?thesis using False \<open>i < j\<close> by (simp add: search_loop.simps [of f i j])
    qed
  next
    case False
    then have "search_loop f i j = i" by (subst search_loop.simps) simp
    then show ?thesis using False 1(3-7) by simp
  qed
qed

lemma slice_filter:
  assumes P: "\<And>i. i < length xs \<Longrightarrow> P (xs ! i) \<longleftrightarrow> lo \<le> i"
    and Q: "\<And>i. i < length xs \<Longrightarrow> Q (xs ! i) \<longleftrightarrow> i < hi"
  shows "filter (\<lambda>x. P x \<and> Q x) xs = (if lo > hi then [] else take (hi - lo) (drop lo xs))"
proof (cases "lo \<le> hi")
  case True
  have "xs = take lo xs @ take (hi - lo) (drop lo xs) @ drop hi xs"
    using True by (metis append_take_drop_id drop_drop le_add_diff_inverse2)
  moreover have "filter (\<lambda>x. P x \<and> Q x) (take lo xs) = []"
    using P by (fastforce simp: filter_empty_conv in_set_conv_nth)
  moreover have "filter (\<lambda>x. P x \<and> Q x) (drop hi xs) = []"
    using Q by (fastforce simp: filter_empty_conv in_set_conv_nth)
  moreover have "filter (\<lambda>x. P x \<and> Q x) (take (hi - lo) (drop lo xs)) = take (hi - lo) (drop lo xs)"
    using P Q by (intro filter_True) (auto simp: in_set_conv_nth)
  ultimately show ?thesis using True by (metis append_Nil append_Nil2 filter_append leD)
next
  case False
  then show ?thesis using P Q by (fastforce simp: filter_empty_conv in_set_conv_nth)
qed

lemma sort_Search_key:
  fixes f :: "'a \<Rightarrow> 'k::linorder"
  assumes "sorted (map f xs)" and "i < length xs"
  shows "s \<le> f (xs ! i) \<longleftrightarrow> sort_Search (length xs) (\<lambda>i. s \<le> f (xs ! i)) \<le> i"
proof -
  let ?n = "sort_Search (length xs) (\<lambda>i. s \<le> f (xs ! i))"
  have mono: "s \<le> f (xs ! y)" if "x \<le> y" "y < length xs" "s \<le> f (xs ! x)" for x y
    using sorted_nth_mono [OF assms(1) that(1)] that by simp
  have "?n \<le> length xs \<and> (\<forall>x < ?n. \<not> s \<le> f (xs ! x)) \<and> (\<forall>x \<ge> ?n. x < length xs \<longrightarrow> s \<le> f (xs ! x))"
    unfolding sort_Search_def by (rule search_loop_spec) (auto intro: mono)
  then show ?thesis using assms(2) by (metis not_le)
qed

lemma sort_Search_True: "sort_Search n (\<lambda>i. True) = 0"
proof -
  have "search_loop (\<lambda>i. True) 0 n = 0"
    using search_loop_spec [where i = 0 and j = n and n = n and f = "\<lambda>i. True"] by auto
  then show ?thesis by (simp add: sort_Search_def)
qed

section \<open>The buffer as a map of mutations\<close>

definition buffer_inv :: "Buffer \<Rightarrow> bool" where
  "buffer_inv b \<longleftrightarrow> distinct (map fst (b_m b)) \<and> (\<forall>(k, e) \<in> set (b_m b). e_Key e = k) \<and>
     (\<not> b_dirty b \<longrightarrow> b_sorted b = sort_slice entry_less (map snd (b_m b)))"

lemma buffer_keys: "\<forall>(k, e) \<in> set ps. e_Key e = k \<Longrightarrow> map e_Key (map snd ps) = map fst ps"
  by (induction ps) auto

lemma Entries_inv:
  assumes "buffer_inv b" and "Entries b = (es, b')"
  shows "es = sort_slice entry_less (map snd (b_m b))" and "buffer_inv b'" and "b_m b' = b_m b"
  using assms by (auto simp: Entries_def buffer_inv_def Let_def split: if_splits)

lemma Entries_sorted:
  assumes "buffer_inv b" and "Entries b = (es, b')"
  shows "sorted_wrt (<) (map e_Key es)"
    and "e \<in> set es \<longleftrightarrow> Lookup b (e_Key e) = Some e"
proof -
  have d: "distinct (map fst (b_m b))" and k: "\<forall>(k, e) \<in> set (b_m b). e_Key e = k"
    using assms(1) by (simp_all add: buffer_inv_def)
  show "sorted_wrt (<) (map e_Key es)"
    unfolding Entries_inv(1) [OF assms] using d
    by (intro sort_slice_strict) (simp only: buffer_keys [OF k])
  have "e \<in> set es \<longleftrightarrow> (e_Key e, e) \<in> set (b_m b)"
    unfolding Entries_inv(1) [OF assms] using k by force
  then show "e \<in> set es \<longleftrightarrow> Lookup b (e_Key e) = Some e"
    using d by (simp add: Lookup_def)
qed

lemma set_AList_update: "set (AList.update k x ps) \<subseteq> insert (k, x) (set ps)"
  by (induction ps) auto

lemma buffer_inv_update:
  assumes "buffer_inv b" and "e_Key x = k"
  shows "buffer_inv (b\<lparr>b_m := AList.update k x (b_m b), b_dirty := True\<rparr>)"
  using assms set_AList_update [of k x "b_m b"]
  by (auto simp: buffer_inv_def distinct_update)

lemma buffer_Put_inv:
  assumes "buffer_inv b" and "Buffer_Put b k v = (err, b')"
  shows "err = None \<and> buffer_inv b' \<and>
    map_of (b_m b') = (map_of (b_m b))(k \<mapsto> \<lparr>e_Key = k, e_Value = v, e_Deleted = False\<rparr>)"
  using assms(2) buffer_inv_update [OF assms(1), of "\<lparr>e_Key = k, e_Value = v, e_Deleted = False\<rparr>" k]
  by (auto simp: Buffer_Put_def update_conv')

lemma buffer_Delete_inv:
  assumes "buffer_inv b" and "Buffer_Delete b k = (err, b')"
  shows "err = None \<and> buffer_inv b' \<and>
    map_of (b_m b') = (map_of (b_m b))(k \<mapsto> \<lparr>e_Key = k, e_Value = [], e_Deleted = True\<rparr>)"
  using assms(2) buffer_inv_update [OF assms(1), of "\<lparr>e_Key = k, e_Value = [], e_Deleted = True\<rparr>" k]
  by (auto simp: Buffer_Delete_def update_conv')

lemma rangeEntries_filter:
  assumes "buffer_inv b" and "rangeEntries b lo hi = (es, b')"
  shows "es = filter (\<lambda>e. in_range lo hi (e_Key e)) (fst (Entries b))"
    and "buffer_inv b'" and "b_m b' = b_m b"
proof -
  obtain all b1 where E: "Entries b = (all, b1)" by (cases "Entries b")
  have sorted: "sorted (map e_Key all)"
    using Entries_sorted(1) [OF assms(1) E] by (simp add: strict_sorted_iff)
  have b': "b' = b1" using assms(2) E by (auto simp: rangeEntries_def Let_def)
  show "buffer_inv b'" "b_m b' = b_m b"
    using Entries_inv [OF assms(1) E] b' by simp_all
  define i where "i = sort_Search (length all)
    (\<lambda>i. case lo of None \<Rightarrow> True | Some s \<Rightarrow> s \<le> e_Key (all ! i))"
  define j where "j = (case hi of None \<Rightarrow> length all
    | Some e \<Rightarrow> sort_Search (length all) (\<lambda>i. e \<le> e_Key (all ! i)))"
  have P: "(case lo of None \<Rightarrow> True | Some s \<Rightarrow> s \<le> e_Key (all ! x)) \<longleftrightarrow> i \<le> x"
    if "x < length all" for x
    using sort_Search_key [OF sorted that] sort_Search_True
    by (cases lo) (simp_all add: i_def)
  have Q: "(case hi of None \<Rightarrow> True | Some e \<Rightarrow> e_Key (all ! x) < e) \<longleftrightarrow> x < j"
    if "x < length all" for x
    using sort_Search_key [OF sorted that] that
    by (cases hi) (simp_all add: j_def not_le [symmetric])
  have "es = (if i > j then [] else take (j - i) (drop i all))"
    using assms(2) E by (auto simp: rangeEntries_def Let_def i_def j_def)
  also have "\<dots> = filter (\<lambda>e. (case lo of None \<Rightarrow> True | Some s \<Rightarrow> s \<le> e_Key e) \<and>
      (case hi of None \<Rightarrow> True | Some k \<Rightarrow> e_Key e < k)) all"
    by (rule slice_filter [symmetric]) (use P Q in auto)
  finally show "es = filter (\<lambda>e. in_range lo hi (e_Key e)) (fst (Entries b))"
    by (simp add: in_range_def E)
qed

section \<open>What the merging iterator hands out\<close>

definition live :: "Entry \<Rightarrow> pairs" where
  "live e = (if e_Deleted e then [] else [(e_Key e, e_Value e)])"

fun merge :: "pairs \<Rightarrow> Entry list \<Rightarrow> pairs" where
  "merge ps [] = ps"
| "merge [] (e # es) = live e @ merge [] es"
| "merge (p # ps) (e # es) =
     (if e_Key e \<le> fst p then live e @ merge (if e_Key e = fst p then ps else p # ps) es
      else p # merge ps (e # es))"

definition pending :: "overlayIter \<Rightarrow> pairs" where
  "pending m = (if oi_needBase m then oi_base m else if oi_baseValid m then oi_cur m # oi_base m else [])"

lemma pending_fill_base [simp]: "pending (fill_base m) = pending m"
  by (simp add: pending_def fill_base_def base_Next_def split: list.split)

lemma pending_simps [simp]:
  "pending (m\<lparr>oi_bi := i\<rparr>) = pending m" "pending (m\<lparr>oi_key := k\<rparr>) = pending m"
  "pending (m\<lparr>oi_value := v\<rparr>) = pending m" "pending (m\<lparr>oi_needBase := True\<rparr>) = oi_base m"
  by (simp_all add: pending_def)

abbreviation merged :: "overlayIter \<Rightarrow> pairs" where
  "merged m \<equiv> merge (pending m) (drop (oi_bi m) (oi_buf m))"

lemma overlay_turn_merge:
  assumes "overlay_turn m = (r, m')"
  shows "merged m = (case r of None \<Rightarrow> merged m' | Some False \<Rightarrow> []
    | Some True \<Rightarrow> (oi_key m', oi_value m') # merged m')"
proof -
  let ?f = "fill_base m"
  have need: "pending m = (if oi_baseValid ?f then oi_cur ?f # oi_base ?f else [])"
    using pending_fill_base [of m] fill_base_need [of m] by (simp only: pending_def) simp
  show ?thesis
  proof (cases "oi_bi m < length (oi_buf m)")
    case True
    then have buf: "drop (oi_bi m) (oi_buf m) = oi_buf m ! oi_bi m # drop (Suc (oi_bi m)) (oi_buf m)"
      by (simp add: Cons_nth_drop_Suc)
    show ?thesis
      using assms True
      by (auto simp: overlay_turn_def Let_def need buf live_def split: if_splits)
  next
    case False
    then show ?thesis
      using assms by (auto simp: overlay_turn_def Let_def need split: if_splits)
  qed
qed

lemma overlay_Next_merge:
  "overlay_Next m = (b, m') \<Longrightarrow>
     merged m = (if b then (oi_key m', oi_value m') # merged m' else [])"
proof (induction m rule: overlay_Next.induct)
  case (1 m)
  obtain r m1 where t: "overlay_turn m = (r, m1)" by (cases "overlay_turn m")
  then show ?case
    using 1 overlay_turn_merge [OF t] by (cases r) (simp_all add: overlay_Next.simps [of m] split: bool.splits)
qed

lemma drain_merge: "drain m = merged m"
proof (induction m rule: drain.induct)
  case (1 m)
  obtain b m1 where t: "overlay_Next m = (b, m1)" by (cases "overlay_Next m")
  then show ?case
    using 1 overlay_Next_merge [OF t] by (cases b) (simp_all add: drain.simps [of m])
qed

lemma merge_set:
  assumes "sorted_wrt (<) (map fst ps)" and "sorted_wrt (<) (map e_Key es)"
  shows "(k, v) \<in> set (merge ps es) \<longleftrightarrow>
    (\<exists>e \<in> set es. e_Key e = k \<and> \<not> e_Deleted e \<and> e_Value e = v) \<or>
    ((k, v) \<in> set ps \<and> (\<forall>e \<in> set es. e_Key e \<noteq> k))"
  using assms
proof (induction ps es rule: merge.induct)
  case (3 p ps e es)
  show ?case
  proof (cases "e_Key e < fst p")
    case True
    then have "\<forall>q \<in> set (p # ps). fst q \<noteq> e_Key e" using 3(3) by auto
    then show ?thesis using 3(1,3,4) True by (auto simp: live_def)
  next
    case False
    show ?thesis
    proof (cases "e_Key e = fst p")
      case True
      then have "\<forall>q \<in> set ps. fst q \<noteq> e_Key e" using 3(3) by auto
      then show ?thesis using 3(1,3,4) True by (auto simp: live_def)
    next
      case False
      then have "fst p < e_Key e" using \<open>\<not> e_Key e < fst p\<close> by simp
      then have "\<forall>x \<in> set (e # es). e_Key x \<noteq> fst p" using 3(4) by auto
      then show ?thesis using 3(2-4) \<open>fst p < e_Key e\<close> by (cases p) auto
    qed
  qed
qed (auto simp: live_def)

lemma merge_key: "x \<in> set (merge ps es) \<Longrightarrow> fst x \<in> fst ` set ps \<or> fst x \<in> e_Key ` set es"
  by (induction ps es rule: merge.induct) (auto simp: live_def split: if_splits)

lemma merge_keys: "fst ` set (merge ps es) \<subseteq> fst ` set ps \<union> e_Key ` set es"
  using merge_key by blast

lemma merge_sorted:
  assumes "sorted_wrt (<) (map fst ps)" and "sorted_wrt (<) (map e_Key es)"
  shows "sorted_wrt (<) (map fst (merge ps es))"
  using assms
proof (induction ps es rule: merge.induct)
  case (2 e es)
  then show ?case using merge_keys [of "[]" es] by (auto simp: live_def)
next
  case (3 p ps e es)
  show ?case
  proof (cases "e_Key e \<le> fst p")
    case True
    let ?ps = "if e_Key e = fst p then ps else p # ps"
    have "sorted_wrt (<) (map fst (merge ?ps es))"
      using 3(1,3,4) True by (auto split: if_splits)
    moreover have "\<forall>k \<in> fst ` set (merge ?ps es). e_Key e < k"
    proof
      fix k assume "k \<in> fst ` set (merge ?ps es)"
      then have "k \<in> fst ` set ?ps \<union> e_Key ` set es" using merge_keys by blast
      then show "e_Key e < k" using 3(3,4) True by (auto split: if_splits)
    qed
    ultimately show ?thesis using True by (auto simp: live_def)
  next
    case False
    have "\<forall>k \<in> fst ` set (merge ps (e # es)). fst p < k"
    proof
      fix k assume "k \<in> fst ` set (merge ps (e # es))"
      then have "k \<in> fst ` set ps \<union> e_Key ` set (e # es)" using merge_keys by blast
      then show "fst p < k" using 3(3,4) False by (auto simp: not_le)
    qed
    then show ?thesis using False 3(2-4) by auto
  qed
qed simp

section \<open>The overlay implements the contract\<close>

definition overlay_map :: "(bytes \<rightharpoonup> bytes) \<Rightarrow> (bytes \<rightharpoonup> Entry) \<Rightarrow> (bytes \<rightharpoonup> bytes)" where
  "overlay_map m em k =
     (case em k of None \<Rightarrow> m k | Some e \<Rightarrow> if e_Deleted e then None else Some (e_Value e))"

definition overlay_view :: "Overlay \<Rightarrow> bytes \<rightharpoonup> bytes" where
  "overlay_view ov = overlay_map (reader_view (Base ov)) (Lookup (Buf ov))"

definition overlay_inv :: "Overlay \<Rightarrow> bool" where
  "overlay_inv ov \<longleftrightarrow> buffer_inv (Buf ov) \<and> reads (Base ov) (reader_view (Base ov))"

lemma overlay_map_put:
  "overlay_map m (em(k \<mapsto> e)) = (overlay_map m em)(k := if e_Deleted e then None else Some (e_Value e))"
  by (rule ext) (simp add: overlay_map_def)

lemma merge_is_scan:
  assumes "is_scan m lo hi ps" and "sorted_wrt (<) (map e_Key all)"
    and "\<And>e. e \<in> set all \<longleftrightarrow> em (e_Key e) = Some e"
    and "\<And>k e. em k = Some e \<Longrightarrow> e_Key e = k"
  shows "is_scan (overlay_map m em) lo hi (merge ps (filter (\<lambda>e. in_range lo hi (e_Key e)) all))"
proof -
  let ?es = "filter (\<lambda>e. in_range lo hi (e_Key e)) all"
  have s: "sorted_wrt (<) (map fst ps)" "sorted_wrt (<) (map e_Key ?es)"
    using assms(1,2) by (simp_all add: is_scan_def sorted_wrt_map sorted_wrt_filter)
  have es: "e \<in> set ?es \<and> e_Key e = k \<longleftrightarrow> em k = Some e \<and> in_range lo hi k" for e k
    using assms(3) [of e] assms(4) [of k e] by auto
  have ps: "(k, v) \<in> set ps \<longleftrightarrow> m k = Some v \<and> in_range lo hi k" for k v
    using assms(1) by (simp add: is_scan_def)
  have "(k, v) \<in> set (merge ps ?es) \<longleftrightarrow> overlay_map m em k = Some v \<and> in_range lo hi k" for k v
  proof -
    have 1: "(\<exists>e \<in> set ?es. e_Key e = k \<and> \<not> e_Deleted e \<and> e_Value e = v) \<longleftrightarrow>
        (\<exists>e. em k = Some e \<and> in_range lo hi k \<and> \<not> e_Deleted e \<and> e_Value e = v)"
      using es [of _ k] by blast
    have 2: "(\<forall>e \<in> set ?es. e_Key e \<noteq> k) \<longleftrightarrow> em k = None \<or> \<not> in_range lo hi k"
      using es [of _ k] by (metis not_None_eq option.distinct(1))
    show ?thesis unfolding merge_set [OF s] 1 2 ps
      by (cases "em k") (auto simp: overlay_map_def)
  qed
  then show ?thesis using merge_sorted [OF s] by (simp add: is_scan_def)
qed

lemma Lookup_key: "buffer_inv b \<Longrightarrow> Lookup b k = Some e \<Longrightarrow> e_Key e = k"
  by (auto simp: buffer_inv_def Lookup_def dest: map_of_SomeD)

lemma Overlay_Scan_view:
  assumes "overlay_inv ov" and "Overlay_Scan ov lo hi = (r, ov')"
  shows "snd r = None" and "is_scan (overlay_view ov) lo hi (fst r)"
    and "overlay_inv ov'" and "overlay_view ov' = overlay_view ov" and "Base ov' = Base ov"
proof -
  obtain ps where S: "Scan (Base ov) lo hi = (ps, None)" and ps: "is_scan (reader_view (Base ov)) lo hi ps"
    using assms(1) unfolding overlay_inv_def by (metis reads_ScanE)
  obtain es b' where R: "rangeEntries (Buf ov) lo hi = (es, b')" by (cases "rangeEntries (Buf ov) lo hi")
  obtain all b1 where E: "Entries (Buf ov) = (all, b1)" by (cases "Entries (Buf ov)")
  have inv: "buffer_inv (Buf ov)" using assms(1) by (simp add: overlay_inv_def)
  have r: "r = (merge ps es, None)" "ov' = ov\<lparr>Buf := b'\<rparr>"
    using assms(2) S R by (auto simp: Overlay_Scan_def drain_merge pending_def)
  show "snd r = None" "Base ov' = Base ov" by (simp_all add: r)
  have "es = filter (\<lambda>e. in_range lo hi (e_Key e)) all"
    using rangeEntries_filter(1) [OF inv R] E by simp
  then show "is_scan (overlay_view ov) lo hi (fst r)"
    unfolding r overlay_view_def fst_conv
    by (simp only:) (rule merge_is_scan [OF ps Entries_sorted [OF inv E] Lookup_key [OF inv]])
  have "Lookup b' = Lookup (Buf ov)"
    by (rule ext) (simp add: Lookup_def rangeEntries_filter(3) [OF inv R])
  then show "overlay_inv ov'" "overlay_view ov' = overlay_view ov"
    using rangeEntries_filter(2) [OF inv R] assms(1)
    by (simp_all add: r overlay_inv_def overlay_view_def)
qed

lemma overlay_reads: "overlay_inv ov \<Longrightarrow> reads (Overlay_reader ov) (overlay_view ov)"
proof -
  assume inv: "overlay_inv ov"
  have "Overlay_Get ov k = (case overlay_view ov k of None \<Rightarrow> Inl ErrNotFound | Some v \<Rightarrow> Inr v)" for k
    using inv reads_Get [of "Base ov" "reader_view (Base ov)" k]
    by (auto simp: Overlay_Get_def overlay_view_def overlay_map_def overlay_inv_def split: option.split)
  moreover have "snd (fst (Overlay_Scan ov lo hi)) = None \<and>
      is_scan (overlay_view ov) lo hi (fst (fst (Overlay_Scan ov lo hi)))" for lo hi
    using Overlay_Scan_view(1,2) [OF inv] by (metis prod.collapse)
  ultimately show ?thesis by (simp add: reads_def Overlay_reader_def)
qed

lemma overlay_write:
  assumes "overlay_inv ov" and "buffer_inv b" and "map_of (b_m b) = (map_of (b_m (Buf ov)))(k \<mapsto> e)"
  shows "overlay_inv (ov\<lparr>Buf := b\<rparr>) \<and> overlay_view (ov\<lparr>Buf := b\<rparr>) =
    (overlay_view ov)(k := if e_Deleted e then None else Some (e_Value e))"
proof -
  have "Lookup b = (Lookup (Buf ov))(k \<mapsto> e)"
    by (rule ext) (simp add: Lookup_def assms(3))
  then have "overlay_view (ov\<lparr>Buf := b\<rparr>) =
      overlay_map (reader_view (Base ov)) ((Lookup (Buf ov))(k \<mapsto> e))"
    by (simp add: overlay_view_def)
  then show ?thesis
    using assms(1,2) by (simp only: overlay_map_put) (simp add: overlay_inv_def overlay_view_def)
qed

interpretation overlay: read_writer Overlay_rw overlay_view overlay_inv
proof
  show "reads (rw_reader Overlay_rw st) (overlay_view st)" if "overlay_inv st" for st
    using overlay_reads [OF that] by (simp add: Overlay_rw_def)
  show "err = None \<and> overlay_inv st' \<and> overlay_view st' = (overlay_view st)(k \<mapsto> v)"
    if "overlay_inv st" "rw_Put Overlay_rw st k v = (err, st')" for st k v err st'
    using that buffer_Put_inv [of "Buf st" k v] overlay_write [of st _ k]
    by (auto simp: Overlay_rw_def Overlay_Put_def overlay_inv_def split: prod.splits)
  show "err = None \<and> overlay_inv st' \<and> overlay_view st' = (overlay_view st)(k := None)"
    if "overlay_inv st" "rw_Delete Overlay_rw st k = (err, st')" for st k err st'
    using that buffer_Delete_inv [of "Buf st" k] overlay_write [of st _ k]
    by (auto simp: Overlay_rw_def Overlay_Delete_def overlay_inv_def split: prod.splits)
qed

lemma NewBuffer_inv: "buffer_inv NewBuffer"
  by (simp add: buffer_inv_def NewBuffer_def)

lemma NewOverlay_inv: "reads rd m \<Longrightarrow> overlay_inv (NewOverlay rd NewBuffer)"
  using reads_view by (simp add: overlay_inv_def NewOverlay_def NewBuffer_inv)

lemma NewOverlay_view: "reads rd m \<Longrightarrow> overlay_view (NewOverlay rd NewBuffer) = m"
  by (rule ext)
    (simp add: overlay_view_def NewOverlay_def overlay_map_def Lookup_def NewBuffer_def reads_view)

section \<open>Properties\<close>

text \<open>C17: A transaction reads its own writes over its snapshot: \<open>Get\<close> and \<open>Scan\<close> of an
  overlay answer as a store would whose content is the base with the buffered writes applied and
  the buffered deletions removed; a scan is in ascending key order, without duplicates, within
  the bounds, and complete; it leaves the overlay answering as before.\<close>

theorem overlay_read_your_writes:
  assumes "overlay_inv ov" and "Overlay_Scan ov lo hi = ((ps, err), ov')"
  shows "err = None \<and> sorted_wrt (<) (map fst ps)
    \<and> ((k, v) \<in> set ps \<longleftrightarrow> Overlay_Get ov k = Inr v \<and> in_range lo hi k)
    \<and> Overlay_Get ov k = (case Lookup (Buf ov) k of
          None \<Rightarrow> Get (Base ov) k
        | Some e \<Rightarrow> if e_Deleted e then Inl ErrNotFound else Inr (e_Value e))
    \<and> Overlay_Get ov' k = Overlay_Get ov k \<and> Scan (Overlay_reader ov') = Scan (Overlay_reader ov)"
proof -
  note S = Overlay_Scan_view [OF assms]
  have r: "reads (Overlay_reader ov) (overlay_view ov)" "reads (Overlay_reader ov') (overlay_view ov)"
    using overlay_reads [OF assms(1)] overlay_reads [OF S(3)] S(4) by simp_all
  then have same: "Get (Overlay_reader ov') = Get (Overlay_reader ov)"
    "Scan (Overlay_reader ov') = Scan (Overlay_reader ov)"
    using reads_unique by blast+
  have get: "Overlay_Get ov k = Inr v \<longleftrightarrow> overlay_view ov k = Some v"
    using reads_Get [OF r(1), of k] by (auto simp: Overlay_reader_def split: option.splits)
  show ?thesis using S(1,2) get same
    by (simp add: is_scan_def Overlay_Get_def Overlay_reader_def fun_eq_iff)
qed

text \<open>Both writable stores implement one contract, an ordered map: a write reports success
  and changes the content at its key only.\<close>

theorem stores_are_maps:
  assumes "overlay_inv ov" and "memory_inv s"
  shows "(\<exists>ov'. Overlay_Put ov k v = (None, ov') \<and> overlay_view ov' = (overlay_view ov)(k \<mapsto> v))
    \<and> (\<exists>ov'. Overlay_Delete ov k = (None, ov') \<and> overlay_view ov' = (overlay_view ov)(k := None))
    \<and> (\<exists>s'. Memory_Put s k v = (None, s') \<and> memory_view s' = (memory_view s)(k \<mapsto> v))
    \<and> (\<exists>s'. Memory_Delete s k = (None, s') \<and> memory_view s' = (memory_view s)(k := None))"
proof (intro conjI)
  show "\<exists>ov'. Overlay_Put ov k v = (None, ov') \<and> overlay_view ov' = (overlay_view ov)(k \<mapsto> v)"
    by (rule overlay.putE [OF assms(1), of k v]) (auto simp: Overlay_rw_def)
  show "\<exists>ov'. Overlay_Delete ov k = (None, ov') \<and> overlay_view ov' = (overlay_view ov)(k := None)"
    by (rule overlay.deleteE [OF assms(1), of k]) (auto simp: Overlay_rw_def)
  show "\<exists>s'. Memory_Put s k v = (None, s') \<and> memory_view s' = (memory_view s)(k \<mapsto> v)"
    by (rule memory.putE [OF assms(2), of k v]) (auto simp: Memory_rw_def)
  show "\<exists>s'. Memory_Delete s k = (None, s') \<and> memory_view s' = (memory_view s)(k := None)"
    by (rule memory.deleteE [OF assms(2), of k]) (auto simp: Memory_rw_def)
qed

text \<open>A snapshot with two rows, and an overlay that deletes one and adds another, for the
  witnesses.\<close>

definition sample_memory :: Memory where
  "sample_memory = snd (Memory_Put (snd (Memory_Put NewMemory [2] [20])) [1] [10])"

definition sample_overlay :: Overlay where
  "sample_overlay =
     snd (Overlay_Put (snd (Overlay_Delete (NewOverlay (Memory_reader sample_memory) NewBuffer) [1])) [3] [30])"

lemma sample_memory_inv: "memory_inv sample_memory"
  by (simp add: sample_memory_def memory_inv_def Memory_Put_def NewMemory_def)

lemma sample_overlay_inv: "overlay_inv sample_overlay"
proof -
  have "overlay_inv (NewOverlay (Memory_reader sample_memory) NewBuffer)"
    using NewOverlay_inv memory_reads sample_memory_inv by blast
  then show ?thesis
    unfolding sample_overlay_def
    using overlay.put_snd overlay.delete_snd by (simp add: Overlay_rw_def)
qed

theorem overlay_read_your_writes_witness:
  "\<exists>ps ov'. Overlay_Scan sample_overlay None None = ((ps, None), ov') \<and>
     ((([3], [30]) \<in> set ps) \<longleftrightarrow> Overlay_Get sample_overlay [3] = Inr [30])"
proof -
  obtain ps err ov' where S: "Overlay_Scan sample_overlay None None = ((ps, err), ov')"
    by (metis prod.collapse)
  show ?thesis
    using overlay_read_your_writes [OF sample_overlay_inv S, of "[3]" "[30]"] S
    by (simp add: in_range_def)
qed

theorem stores_are_maps_witness:
  "\<exists>ov'. Overlay_Put sample_overlay [1] [11] = (None, ov')
     \<and> overlay_view ov' = (overlay_view sample_overlay)([1] \<mapsto> [11])"
  using stores_are_maps [OF sample_overlay_inv sample_memory_inv, of "[1]" "[11]"] by blast

end
