(* ===== verification/Catalog.thy ===== *)
theory Catalog
  imports Storage
begin

text \<open>
  The schema catalog of \<open>src/catalog/catalog.go\<close>: table definitions and their lookups,
  validation of a definition, the in-memory catalog with the operations that change it together
  with the store (\<open>Create\<close>, \<open>Drop\<close>, \<open>AddIndex\<close>, \<open>RemoveIndex\<close>), and \<open>Load\<close>.

  The operations take the store they write through as a \<open>ReadWriter\<close> and its state, and return
  both states.  \<open>encoding/json\<close> appears as the pair \<open>json\<close> of its two functions on a \<open>Table\<close>;
  what is used of it is that \<open>Unmarshal\<close> reads back what \<open>Marshal\<close> wrote.
\<close>

section \<open>Schemas\<close>

record Column =
  c_Name :: string
  c_Type :: Kind
  c_NotNull :: bool
  c_PrimaryKey :: bool

record Index =
  i_Name :: string
  i_ID :: uint32
  i_Column :: string
  i_Pos :: int

record Table =
  t_Name :: string
  t_ID :: uint32
  t_Columns :: "Column list"
  t_PK :: int
  t_Indexes :: "Index list"
  t_NextIndexID :: uint32

datatype catalog_error =
    ErrTableNotFound string
  | ErrTableExists string
  | ErrIndexNotFound string
  | ErrIndexExists string
  | ErrColumnNotFound string string
  | TwoPrimaryKeys string string string
  | NoPrimaryKeyDeclared string
  | TableHasNoColumns string
  | DuplicateColumn string string
  | CorruptTable string string
  | CorruptPKPosition string int
  | CorruptCounter nat
  | MarshalFailed string
  | CatStore store_error
  | CatCodec codec_error

record json =
  json_Marshal :: "Table \<Rightarrow> string + bytes"
  json_Unmarshal :: "bytes \<Rightarrow> string + Table"

definition PKColumn :: "Table \<Rightarrow> Column" where
  "PKColumn t = t_Columns t ! nat (t_PK t)"

fun column_index_from :: "int \<Rightarrow> Column list \<Rightarrow> string \<Rightarrow> int option" where
  "column_index_from i [] name = None"
| "column_index_from i (c # cs) name =
     (if c_Name c = name then Some i else column_index_from (i + 1) cs name)"

definition ColumnIndex :: "Table \<Rightarrow> string \<Rightarrow> int option" where
  "ColumnIndex t name = column_index_from 0 (t_Columns t) name"

definition ColumnNames :: "Table \<Rightarrow> string list" where
  "ColumnNames t = map c_Name (t_Columns t)"

definition Table_FindIndex :: "Table \<Rightarrow> string \<Rightarrow> Index option" where
  "Table_FindIndex t name = find (\<lambda>ix. i_Name ix = name) (t_Indexes t)"

definition IndexOn :: "Table \<Rightarrow> string \<Rightarrow> Index option" where
  "IndexOn t column = find (\<lambda>ix. i_Column ix = column) (t_Indexes t)"

definition Clone :: "Table \<Rightarrow> Table" where
  "Clone t = t\<lparr>t_Columns := t_Columns t, t_Indexes := t_Indexes t\<rparr>"

text \<open>\<open>strings.Join\<close>.\<close>

fun Join :: "string \<Rightarrow> string list \<Rightarrow> string" where
  "Join sep [] = []"
| "Join sep [s] = s"
| "Join sep (s # t # ss) = s @ sep @ Join sep (t # ss)"

definition newline :: string where
  "newline = [CHR 0x0A]"

definition Table_SQL :: "Table \<Rightarrow> string" where
  "Table_SQL t =
     (let parts = map (\<lambda>c. ''  '' @ c_Name c @ '' '' @ Kind_String (c_Type c) @
            (if c_PrimaryKey c then '' PRIMARY KEY'' else if c_NotNull c then '' NOT NULL'' else []))
          (t_Columns t)
      in ''CREATE TABLE '' @ t_Name t @ '' ('' @ newline @ Join ('','' @ newline) parts @ newline @ '');'' @
         concat (map (\<lambda>ix. newline @ ''CREATE INDEX '' @ i_Name ix @ '' ON '' @ t_Name t @ '' ('' @
           i_Column ix @ '');'') (t_Indexes t)))"

text \<open>The loop of \<open>Define\<close>: the columns seen, the position found so far (-1 for none), the
  position of the next column.\<close>

fun define_loop :: "string \<Rightarrow> Column list \<Rightarrow> string list \<Rightarrow> int \<Rightarrow> int \<Rightarrow> Column list \<Rightarrow> catalog_error + int" where
  "define_loop name cols seen pk i [] = Inr pk"
| "define_loop name cols seen pk i (c # cs) =
     (if c_Name c \<in> set seen then Inl (DuplicateColumn (c_Name c) name)
      else if \<not> c_PrimaryKey c then define_loop name cols (c_Name c # seen) pk (i + 1) cs
      else if pk \<ge> 0 then Inl (TwoPrimaryKeys name (c_Name (cols ! nat pk)) (c_Name c))
      else define_loop name cols (c_Name c # seen) i (i + 1) cs)"

definition Define :: "string \<Rightarrow> Column list \<Rightarrow> catalog_error + Table" where
  "Define name cols =
     (if cols = [] then Inl (TableHasNoColumns name)
      else case define_loop name cols [] (-1) 0 cols of
        Inl e \<Rightarrow> Inl e
      | Inr pk \<Rightarrow>
          if pk < 0 then Inl (NoPrimaryKeyDeclared name)
          else Inr \<lparr>t_Name = name, t_ID = 0,
                    t_Columns = cols[nat pk := (cols ! nat pk)\<lparr>c_NotNull := True\<rparr>],
                    t_PK = pk, t_Indexes = [], t_NextIndexID = 0\<rparr>)"

section \<open>The catalog\<close>

record Catalog =
  cat_tables :: "(string \<times> Table) list"
  cat_nextID :: uint32

fun load_tables :: "json \<Rightarrow> pairs \<Rightarrow> (string \<times> Table) list \<Rightarrow> catalog_error + (string \<times> Table) list" where
  "load_tables js [] ts = Inr ts"
| "load_tables js ((k, v) # ps) ts =
     (case MetaTableName k of
        Inl e \<Rightarrow> Inl (CatCodec e)
      | Inr name \<Rightarrow>
          (case json_Unmarshal js v of
             Inl msg \<Rightarrow> Inl (CorruptTable name msg)
           | Inr t \<Rightarrow>
               if t_PK t < 0 \<or> t_PK t \<ge> int (length (t_Columns t)) then
                 Inl (CorruptPKPosition name (t_PK t))
               else load_tables js ps (AList.update (t_Name t) t ts)))"

definition Load :: "json \<Rightarrow> Reader \<Rightarrow> catalog_error + Catalog" where
  "Load js r =
     (let prefix = MetaTablePrefix; (ps, err) = Scan r (Some prefix) (PrefixEnd prefix) in
      case load_tables js ps [] of
        Inl e \<Rightarrow> Inl e
      | Inr ts \<Rightarrow>
          (case err of
             Some e \<Rightarrow> Inl (CatStore e)
           | None \<Rightarrow>
               (case Get r MetaSeqKey of
                  Inl ErrNotFound \<Rightarrow> Inr \<lparr>cat_tables = ts, cat_nextID = 1\<rparr>
                | Inl e \<Rightarrow> Inl (CatStore e)
                | Inr seq \<Rightarrow>
                    if length seq \<noteq> 4 then Inl (CorruptCounter (length seq))
                    else Inr \<lparr>cat_tables = ts, cat_nextID = get_uint32 seq\<rparr>)))"

definition Catalog_Get :: "Catalog \<Rightarrow> string \<Rightarrow> catalog_error + Table" where
  "Catalog_Get c name =
     (case map_of (cat_tables c) name of None \<Rightarrow> Inl (ErrTableNotFound name) | Some t \<Rightarrow> Inr t)"

definition Has :: "Catalog \<Rightarrow> string \<Rightarrow> bool" where
  "Has c name \<longleftrightarrow> map_of (cat_tables c) name \<noteq> None"

definition Catalog_All :: "Catalog \<Rightarrow> Table list" where
  "Catalog_All c = sort_slice (\<lambda>a b. t_Name a < t_Name b) (map snd (cat_tables c))"

definition Names :: "Catalog \<Rightarrow> string list" where
  "Names c = map t_Name (Catalog_All c)"

fun find_index_in :: "(string \<times> Table) list \<Rightarrow> string \<Rightarrow> (Table \<times> Index) option" where
  "find_index_in [] name = None"
| "find_index_in ((_, t) # ts) name =
     (case Table_FindIndex t name of Some ix \<Rightarrow> Some (t, ix) | None \<Rightarrow> find_index_in ts name)"

definition Catalog_FindIndex :: "Catalog \<Rightarrow> string \<Rightarrow> catalog_error + (Table \<times> Index)" where
  "Catalog_FindIndex c name =
     (case find_index_in (cat_tables c) name of
        None \<Rightarrow> Inl (ErrIndexNotFound name)
      | Some p \<Rightarrow> Inr p)"

section \<open>Operations that also write\<close>

definition bumpID :: "'st ReadWriter \<Rightarrow> 'st \<Rightarrow> Catalog \<Rightarrow> catalog_error option \<times> 'st \<times> Catalog" where
  "bumpID rw st c =
     (case rw_Put rw st MetaSeqKey (be_bytes 4 (unat (cat_nextID c + 1))) of
        (Some e, st') \<Rightarrow> (Some (CatStore e), st', c)
      | (None, st') \<Rightarrow> (None, st', c\<lparr>cat_nextID := cat_nextID c + 1\<rparr>))"

definition persist :: "json \<Rightarrow> 'st ReadWriter \<Rightarrow> 'st \<Rightarrow> Table \<Rightarrow> catalog_error option \<times> 'st" where
  "persist js rw st t =
     (case json_Marshal js t of
        Inl msg \<Rightarrow> (Some (MarshalFailed msg), st)
      | Inr blob \<Rightarrow>
          (case rw_Put rw st (MetaTableKey (t_Name t)) blob of
             (err, st') \<Rightarrow> (map_option CatStore err, st')))"

definition Create :: "json \<Rightarrow> 'st ReadWriter \<Rightarrow> 'st \<Rightarrow> Catalog \<Rightarrow> Table
    \<Rightarrow> (catalog_error + Table) \<times> 'st \<times> Catalog" where
  "Create js rw st c def =
     (if map_of (cat_tables c) (t_Name def) \<noteq> None then (Inl (ErrTableExists (t_Name def)), st, c)
      else
        (let t = (Clone def)\<lparr>t_ID := cat_nextID c, t_NextIndexID := 1\<rparr> in
         case bumpID rw st c of
           (Some e, st', c') \<Rightarrow> (Inl e, st', c')
         | (None, st', c') \<Rightarrow>
             (case persist js rw st' t of
                (Some e, st'') \<Rightarrow> (Inl e, st'', c')
              | (None, st'') \<Rightarrow>
                  (Inr t, st'', c'\<lparr>cat_tables := AList.update (t_Name t) t (cat_tables c')\<rparr>))))"

definition Drop :: "'st ReadWriter \<Rightarrow> 'st \<Rightarrow> Catalog \<Rightarrow> string
    \<Rightarrow> catalog_error option \<times> 'st \<times> Catalog" where
  "Drop rw st c name =
     (if map_of (cat_tables c) name = None then (Some (ErrTableNotFound name), st, c)
      else case rw_Delete rw st (MetaTableKey name) of
        (Some e, st') \<Rightarrow> (Some (CatStore e), st', c)
      | (None, st') \<Rightarrow> (None, st', c\<lparr>cat_tables := AList.delete name (cat_tables c)\<rparr>))"

definition AddIndex :: "json \<Rightarrow> 'st ReadWriter \<Rightarrow> 'st \<Rightarrow> Catalog \<Rightarrow> string \<Rightarrow> string \<Rightarrow> string
    \<Rightarrow> (catalog_error + (Table \<times> Index)) \<times> 'st \<times> Catalog" where
  "AddIndex js rw st c table name column =
     (case map_of (cat_tables c) table of
        None \<Rightarrow> (Inl (ErrTableNotFound table), st, c)
      | Some t \<Rightarrow>
          if find_index_in (cat_tables c) name \<noteq> None then (Inl (ErrIndexExists name), st, c)
          else
            (case ColumnIndex t column of
               None \<Rightarrow> (Inl (ErrColumnNotFound table column), st, c)
             | Some pos \<Rightarrow>
                 (let up0 = Clone t;
                      ix = \<lparr>i_Name = name, i_ID = t_NextIndexID up0, i_Column = column, i_Pos = pos\<rparr>;
                      up = up0\<lparr>t_NextIndexID := t_NextIndexID up0 + 1,
                                  t_Indexes := t_Indexes up0 @ [ix]\<rparr>
                  in case persist js rw st up of
                       (Some e, st') \<Rightarrow> (Inl e, st', c)
                     | (None, st') \<Rightarrow>
                         (Inr (up, the (Table_FindIndex up name)), st',
                          c\<lparr>cat_tables := AList.update table up (cat_tables c)\<rparr>))))"

definition RemoveIndex :: "json \<Rightarrow> 'st ReadWriter \<Rightarrow> 'st \<Rightarrow> Catalog \<Rightarrow> string
    \<Rightarrow> (catalog_error + (Table \<times> Index)) \<times> 'st \<times> Catalog" where
  "RemoveIndex js rw st c name =
     (case find_index_in (cat_tables c) name of
        None \<Rightarrow> (Inl (ErrIndexNotFound name), st, c)
      | Some (t, dropped) \<Rightarrow>
          (let up = (Clone t)\<lparr>t_Indexes := filter (\<lambda>keep. i_Name keep \<noteq> name) (t_Indexes t)\<rparr>
           in case persist js rw st up of
                (Some e, st') \<Rightarrow> (Inl e, st', c)
              | (None, st') \<Rightarrow>
                  (Inr (up, dropped), st',
                   c\<lparr>cat_tables := AList.update (t_Name up) up (cat_tables c)\<rparr>)))"

section \<open>Invariants\<close>

definition table_ok :: "Table \<Rightarrow> bool" where
  "table_ok t \<longleftrightarrow>
     0 \<le> t_PK t \<and> nat (t_PK t) < length (t_Columns t) \<and> distinct (map c_Name (t_Columns t)) \<and>
     (\<forall>i < length (t_Columns t). c_PrimaryKey (t_Columns t ! i) \<longleftrightarrow> i = nat (t_PK t)) \<and>
     c_NotNull (PKColumn t) \<and>
     distinct (map i_Name (t_Indexes t)) \<and> distinct (map i_ID (t_Indexes t)) \<and>
     (\<forall>ix \<in> set (t_Indexes t). i_ID ix < t_NextIndexID t \<and>
        ColumnIndex t (i_Column ix) = Some (i_Pos ix))"

definition tables_ok :: "(string \<rightharpoonup> Table) \<Rightarrow> uint32 \<Rightarrow> bool" where
  "tables_ok T N \<longleftrightarrow>
     (\<forall>n t. T n = Some t \<longrightarrow> t_Name t = n \<and> table_ok t \<and> t_ID t < N) \<and>
     (\<forall>n t n' t'. T n = Some t \<and> T n' = Some t' \<and> t_ID t = t_ID t' \<longrightarrow> n = n') \<and>
     (\<forall>n t n' t'. T n = Some t \<and> T n' = Some t' \<and>
        i_Name ` set (t_Indexes t) \<inter> i_Name ` set (t_Indexes t') \<noteq> {} \<longrightarrow> n = n')"

definition catalog_ok :: "Catalog \<Rightarrow> bool" where
  "catalog_ok c \<longleftrightarrow> distinct (map fst (cat_tables c)) \<and> tables_ok (map_of (cat_tables c)) (cat_nextID c)"

text \<open>The store holds the catalog: one entry per table, and the counter.\<close>

definition table_entry :: "json \<Rightarrow> (bytes \<rightharpoonup> bytes) \<Rightarrow> string \<Rightarrow> Table option \<Rightarrow> bool" where
  "table_entry js m n r = (case r of
     None \<Rightarrow> m (MetaTableKey n) = None
   | Some t \<Rightarrow> (\<exists>b. m (MetaTableKey n) = Some b \<and> json_Unmarshal js b = Inr t))"

definition synced :: "json \<Rightarrow> (bytes \<rightharpoonup> bytes) \<Rightarrow> Catalog \<Rightarrow> bool" where
  "synced js m c \<longleftrightarrow>
     (\<forall>n. table_entry js m n (map_of (cat_tables c) n)) \<and>
     (m MetaSeqKey = Some (be_bytes 4 (unat (cat_nextID c))) \<or> m MetaSeqKey = None \<and> cat_nextID c = 1)"

text \<open>\<open>json.Unmarshal\<close> reads back what \<open>json.Marshal\<close> wrote for this table.\<close>

definition json_roundtrip :: "json \<Rightarrow> Table \<Rightarrow> bool" where
  "json_roundtrip js t = (case json_Marshal js t of Inl _ \<Rightarrow> False | Inr b \<Rightarrow> json_Unmarshal js b = Inr t)"

text \<open>No key but the catalog's own changed.\<close>

definition same_data :: "(bytes \<rightharpoonup> bytes) \<Rightarrow> (bytes \<rightharpoonup> bytes) \<Rightarrow> bool" where
  "same_data m m' \<longleftrightarrow> (\<forall>k. hd k \<noteq> PrefixMeta \<or> k = [] \<longrightarrow> m' k = m k)"

lemma update_pairE:
  assumes "(T(n \<mapsto> t)) a = Some x" and "(T(n \<mapsto> t)) b = Some y"
  obtains "a = b" | "a \<noteq> n" "b \<noteq> n" "T a = Some x" "T b = Some y"
    | "a \<noteq> n" "T a = Some x" "y = t" | "b \<noteq> n" "T b = Some y" "x = t"
  using assms by (cases "a = n"; cases "b = n") simp_all

lemma tables_ok_update:
  assumes "tables_ok T N" and "N \<le> N'" and "t_Name t = n" and "table_ok t" and "t_ID t < N'"
    and "\<And>n' t'. n' \<noteq> n \<Longrightarrow> T n' = Some t' \<Longrightarrow> t_ID t' \<noteq> t_ID t"
    and "\<And>n' t'. n' \<noteq> n \<Longrightarrow> T n' = Some t' \<Longrightarrow>
      i_Name ` set (t_Indexes t) \<inter> i_Name ` set (t_Indexes t') = {}"
  shows "tables_ok (T(n \<mapsto> t)) N'"
  unfolding tables_ok_def
proof (intro conjI allI impI)
  fix a x assume a: "(T(n \<mapsto> t)) a = Some x"
  have old: "t_Name x = a \<and> table_ok x \<and> t_ID x < N" if "T a = Some x"
    using assms(1) that unfolding tables_ok_def by blast
  have "t_Name x = a \<and> table_ok x \<and> t_ID x < N'"
  proof (cases "a = n")
    case True
    then have "x = t" using a by simp
    then show ?thesis using assms(3-5) True by simp
  next
    case False
    then have "t_Name x = a \<and> table_ok x \<and> t_ID x < N" using a old by simp
    then show ?thesis using less_le_trans [OF _ assms(2)] by blast
  qed
  then show "t_Name x = a" "table_ok x" "t_ID x < N'" by blast+
next
  fix a x b y
  assume h: "(T(n \<mapsto> t)) a = Some x \<and> (T(n \<mapsto> t)) b = Some y \<and> t_ID x = t_ID y"
  have old: "T a = Some x \<Longrightarrow> T b = Some y \<Longrightarrow> t_ID x = t_ID y \<Longrightarrow> a = b"
    using assms(1) unfolding tables_ok_def by blast
  show "a = b"
  proof (rule update_pairE [OF conjunct1 [OF h] conjunct1 [OF conjunct2 [OF h]]])
    assume "a \<noteq> n" "T a = Some x" "y = t"
    then show ?thesis using assms(6) [of a x] h by blast
  next
    assume "b \<noteq> n" "T b = Some y" "x = t"
    then show ?thesis using assms(6) [of b y] h by metis
  qed (use old h in blast)+
next
  fix a x b y
  let ?I = "\<lambda>t. i_Name ` set (t_Indexes t)"
  assume h: "(T(n \<mapsto> t)) a = Some x \<and> (T(n \<mapsto> t)) b = Some y \<and> ?I x \<inter> ?I y \<noteq> {}"
  have old: "T a = Some x \<Longrightarrow> T b = Some y \<Longrightarrow> ?I x \<inter> ?I y \<noteq> {} \<Longrightarrow> a = b"
    using assms(1) unfolding tables_ok_def by blast
  show "a = b"
  proof (rule update_pairE [OF conjunct1 [OF h] conjunct1 [OF conjunct2 [OF h]]])
    assume "a \<noteq> n" "T a = Some x" "y = t"
    then show ?thesis using assms(7) [of a x] h by blast
  next
    assume "b \<noteq> n" "T b = Some y" "x = t"
    then show ?thesis using assms(7) [of b y] h by blast
  qed (use old h in blast)+
qed

lemma tables_ok_delete: "tables_ok T N \<Longrightarrow> tables_ok (T(n := None)) N"
  unfolding tables_ok_def by (simp add: fun_upd_apply) blast

lemma tables_okD:
  assumes "tables_ok T N" and "T n = Some t"
  shows "t_Name t = n" and "table_ok t" and "t_ID t < N"
    and "T n' = Some t' \<Longrightarrow> n' \<noteq> n \<Longrightarrow> t_ID t' \<noteq> t_ID t"
    and "T n' = Some t' \<Longrightarrow> n' \<noteq> n \<Longrightarrow>
      i_Name ` set (t_Indexes t) \<inter> i_Name ` set (t_Indexes t') = {}"
  using assms unfolding tables_ok_def by blast+

lemma Table_FindIndex_None: "Table_FindIndex t name = None \<longleftrightarrow> name \<notin> i_Name ` set (t_Indexes t)"
  by (auto simp: Table_FindIndex_def find_None_iff)

lemma Table_FindIndex_Some:
  "Table_FindIndex t name = Some ix \<Longrightarrow> ix \<in> set (t_Indexes t) \<and> i_Name ix = name"
  by (auto simp: Table_FindIndex_def find_Some_iff)

lemma find_index_in_None:
  "find_index_in ts name = None \<longleftrightarrow> (\<forall>(n, t) \<in> set ts. name \<notin> i_Name ` set (t_Indexes t))"
proof (induction ts)
  case (Cons p ts)
  obtain n t where p: "p = (n, t)" by (cases p)
  show ?case
    using Cons Table_FindIndex_None [of t name]
    by (cases "Table_FindIndex t name") (simp_all add: p)
qed simp

lemma find_index_in_Some:
  "find_index_in ts name = Some (t, ix) \<Longrightarrow>
     (\<exists>n. (n, t) \<in> set ts) \<and> ix \<in> set (t_Indexes t) \<and> i_Name ix = name \<and> Table_FindIndex t name = Some ix"
  by (induction ts name rule: find_index_in.induct)
    (auto dest: Table_FindIndex_Some split: option.splits)

lemma word_less_Suc: "w + 1 \<noteq> 0 \<Longrightarrow> w < w + (1 :: 'a::len word)"
proof -
  assume "w + 1 \<noteq> 0"
  then have "unat (w + 1) = Suc (unat w)" using unatSuc [of w] by (simp only: add.commute [of w] simp_thms)
  then show ?thesis by (simp only: word_less_nat_alt)
qed

text \<open>The schemas the operations make are well formed.\<close>

lemma table_ok_new:
  "table_ok def \<Longrightarrow> t_Indexes def = [] \<Longrightarrow> table_ok (def\<lparr>t_ID := i, t_NextIndexID := j\<rparr>)"
  by (simp add: table_ok_def PKColumn_def)

lemma table_ok_add_index:
  assumes t: "table_ok t" and "name \<notin> i_Name ` set (t_Indexes t)" and "ColumnIndex t column = Some pos"
    and "t_NextIndexID t + 1 \<noteq> 0"
    and up: "up = t\<lparr>t_NextIndexID := t_NextIndexID t + 1, t_Indexes := t_Indexes t @
      [\<lparr>i_Name = name, i_ID = t_NextIndexID t, i_Column = column, i_Pos = pos\<rparr>]\<rparr>"
  shows "table_ok up"
proof -
  have less: "t_NextIndexID t < t_NextIndexID t + 1" by (rule word_less_Suc [OF assms(4)])
  have ids: "i_ID x < t_NextIndexID t" if "x \<in> set (t_Indexes t)" for x
    using t that by (simp add: table_ok_def)
  then have "t_NextIndexID t \<notin> i_ID ` set (t_Indexes t)" by force
  moreover have "i_ID x < t_NextIndexID t + 1" if "x \<in> set (t_Indexes t)" for x
    using ids [OF that] less by (rule less_trans)
  ultimately show ?thesis
    using t assms(2,3) less by (simp add: up table_ok_def PKColumn_def ColumnIndex_def)
qed

lemma table_ok_filter_index: "table_ok t \<Longrightarrow> table_ok (t\<lparr>t_Indexes := filter P (t_Indexes t)\<rparr>)"
  by (auto simp: table_ok_def PKColumn_def ColumnIndex_def distinct_map_filter')

lemma find_snoc: "find P (xs @ [x]) = (case find P xs of None \<Rightarrow> if P x then Some x else None | Some y \<Rightarrow> Some y)"
  by (induction xs) simp_all

lemma MetaTableKey_not_Nil [simp]: "MetaTableKey n \<noteq> []" "MetaSeqKey \<noteq> []"
  by (simp_all add: MetaTableKey_def MetaSeqKey_def)

lemma table_entry_cong:
  "m' (MetaTableKey n) = m (MetaTableKey n) \<Longrightarrow> table_entry js m' n r = table_entry js m n r"
  by (cases r) (simp_all add: table_entry_def)

lemma table_entry_put: "json_Unmarshal js b = Inr t \<Longrightarrow>
    table_entry js (m(MetaTableKey n \<mapsto> b)) n' (if n' = n then Some t else r) =
    (n' = n \<or> table_entry js m n' r)"
  by (cases r) (simp_all add: table_entry_def)

lemma catalog_ok_tables: "catalog_ok c \<Longrightarrow> tables_ok (map_of (cat_tables c)) (cat_nextID c)"
  by (simp add: catalog_ok_def)

lemma find_index_in_iff:
  assumes "catalog_ok c"
  shows "find_index_in (cat_tables c) name = Some (t, ix) \<longleftrightarrow>
    map_of (cat_tables c) (t_Name t) = Some t \<and> ix \<in> set (t_Indexes t) \<and> i_Name ix = name"
proof -
  note T = catalog_ok_tables [OF assms]
  have found: "map_of (cat_tables c) (t_Name u) = Some u \<and> i \<in> set (t_Indexes u) \<and> i_Name i = name"
    if F: "find_index_in (cat_tables c) name = Some (u, i)" for u i
  proof -
    obtain n where "(n, u) \<in> set (cat_tables c)" "i \<in> set (t_Indexes u)" "i_Name i = name"
      using find_index_in_Some [OF F] by blast
    then show ?thesis using assms tables_okD(1) [OF T, of n u] by (auto simp: catalog_ok_def)
  qed
  show ?thesis
  proof
    assume r: "map_of (cat_tables c) (t_Name t) = Some t \<and> ix \<in> set (t_Indexes t) \<and> i_Name ix = name"
    then have "find_index_in (cat_tables c) name \<noteq> None"
      unfolding find_index_in_None using map_of_SomeD [of "cat_tables c" "t_Name t" t] by force
    then obtain u i where F: "find_index_in (cat_tables c) name = Some (u, i)" by auto
    note u = found [OF F]
    have "t_Name u = t_Name t"
      using tables_okD(5) [OF T, of "t_Name t" t "t_Name u" u] r u by blast
    then have "u = t" using r u by simp
    moreover have "distinct (map i_Name (t_Indexes t))" using tables_okD(2) [OF T] r by (auto simp: table_ok_def)
    ultimately show "find_index_in (cat_tables c) name = Some (t, ix)"
      using F r u by (auto simp: distinct_map dest: inj_onD)
  qed (use found in blast)
qed

lemma catalog_okI:
  "distinct (map fst ts) \<Longrightarrow> tables_ok (map_of ts) N \<Longrightarrow> catalog_ok \<lparr>cat_tables = ts, cat_nextID = N\<rparr>"
  by (simp add: catalog_ok_def)

lemma MetaTableKey_of_prefix: "prefix MetaTablePrefix k \<Longrightarrow> \<exists>n. k = MetaTableKey n"
  by (auto simp: prefix_def MetaTablePrefix_def MetaTableKey_def intro: bytes_of_string_of_bytes [symmetric])

lemma load_tables_map:
  assumes "\<forall>(k, v) \<in> set ps. \<exists>n t. k = MetaTableKey n \<and> T n = Some t \<and> json_Unmarshal js v = Inr t \<and>
      t_Name t = n \<and> 0 \<le> t_PK t \<and> t_PK t < int (length (t_Columns t))"
    and "distinct (map fst ts)"
  shows "\<exists>ts'. load_tables js ps ts = Inr ts' \<and> distinct (map fst ts') \<and>
    (\<forall>n. map_of ts' n = (if MetaTableKey n \<in> fst ` set ps then T n else map_of ts n))"
  using assms
proof (induction ps arbitrary: ts)
  case (Cons p ps)
  obtain k v where p: "p = (k, v)" by (cases p)
  obtain n t where e: "k = MetaTableKey n" "T n = Some t" "json_Unmarshal js v = Inr t" "t_Name t = n"
    "0 \<le> t_PK t" "t_PK t < int (length (t_Columns t))"
    using Cons.prems(1) by (auto simp: p)
  have "\<exists>ts'. load_tables js ps (AList.update n t ts) = Inr ts' \<and> distinct (map fst ts') \<and>
    (\<forall>a. map_of ts' a = (if MetaTableKey a \<in> fst ` set ps then T a else map_of (AList.update n t ts) a))"
    using Cons.prems by (intro Cons.IH distinct_update) auto
  then show ?case using e by (auto simp: p MetaTableName_MetaTableKey update_conv')
qed auto

lemma Load_synced:
  assumes "reads r m" and "synced js m c" and "catalog_ok c"
  shows "\<exists>c'. Load js r = Inr c' \<and> map_of (cat_tables c') = map_of (cat_tables c) \<and>
    cat_nextID c' = cat_nextID c \<and> catalog_ok c'"
proof -
  let ?T = "map_of (cat_tables c)"
  obtain ps where S: "Scan r (Some MetaTablePrefix) (PrefixEnd MetaTablePrefix) = (ps, None)"
    and ps: "is_scan m (Some MetaTablePrefix) (PrefixEnd MetaTablePrefix) ps"
    by (rule reads_ScanE [OF assms(1)])
  have entry: "table_entry js m n (?T n)" for n using assms(2) by (simp add: synced_def)
  have mem: "(k, v) \<in> set ps \<longleftrightarrow> m k = Some v \<and> prefix MetaTablePrefix k" for k v
    using ps by (simp add: is_scan_def in_range_PrefixEnd)
  have T: "\<forall>(k, v) \<in> set ps. \<exists>n t. k = MetaTableKey n \<and> ?T n = Some t \<and> json_Unmarshal js v = Inr t \<and>
      t_Name t = n \<and> 0 \<le> t_PK t \<and> t_PK t < int (length (t_Columns t))"
  proof clarify
    fix k v assume "(k, v) \<in> set ps"
    then obtain n where k: "k = MetaTableKey n" and v: "m k = Some v"
      using mem MetaTableKey_of_prefix by blast
    then obtain t where t: "?T n = Some t" "json_Unmarshal js v = Inr t"
      using entry [of n] by (auto simp: table_entry_def split: option.splits)
    have "t_Name t = n" "table_ok t"
      using tables_okD(1,2) [OF catalog_ok_tables [OF assms(3)] t(1)] by simp_all
    then show "\<exists>n t. k = MetaTableKey n \<and> ?T n = Some t \<and> json_Unmarshal js v = Inr t \<and>
      t_Name t = n \<and> 0 \<le> t_PK t \<and> t_PK t < int (length (t_Columns t))"
      using k t by (auto simp: table_ok_def)
  qed
  obtain ts where L: "load_tables js ps [] = Inr ts" and d: "distinct (map fst ts)"
    and ts: "\<And>n. map_of ts n = (if MetaTableKey n \<in> fst ` set ps then ?T n else None)"
    using load_tables_map [OF T, of "[]"] by auto
  have "map_of ts n = ?T n" for n
  proof -
    have "MetaTableKey n \<in> fst ` set ps" if "?T n = Some t" for t
      using entry [of n] that mem by (force simp: table_entry_def)
    then show ?thesis using ts by (cases "?T n") auto
  qed
  then have eq: "map_of ts = ?T" by blast
  have "be_nat (be_bytes 4 (unat (cat_nextID c))) = unat (cat_nextID c)"
    by (rule be_nat_be_bytes [OF unat32_bound])
  then have "get_uint32 (be_bytes 4 (unat (cat_nextID c))) = cat_nextID c"
    by (simp add: get_uint32_def)
  then have "Load js r = Inr \<lparr>cat_tables = ts, cat_nextID = cat_nextID c\<rparr>"
    using assms(2) reads_Get [OF assms(1), of MetaSeqKey] by (auto simp: Load_def S L synced_def)
  moreover have "catalog_ok \<lparr>cat_tables = ts, cat_nextID = cat_nextID c\<rparr>"
    using assms(3) by (intro catalog_okI d) (simp add: eq catalog_ok_def)
  ultimately show ?thesis using eq by auto
qed

section \<open>The operations keep the catalog valid and the store in step\<close>

locale catalog_store = read_writer rw view inv
  for rw :: "'st ReadWriter" and view :: "'st \<Rightarrow> bytes \<rightharpoonup> bytes" and inv :: "'st \<Rightarrow> bool" +
  fixes js :: json
begin

lemma persist_ok:
  assumes "inv st" and "json_roundtrip js t"
  obtains st' b where "persist js rw st t = (None, st')" and "inv st'"
    and "view st' = (view st)(MetaTableKey (t_Name t) \<mapsto> b)" and "json_Unmarshal js b = Inr t"
proof -
  obtain b where b: "json_Marshal js t = Inr b" "json_Unmarshal js b = Inr t"
    using assms(2) by (auto simp: json_roundtrip_def split: sum.splits)
  obtain st' where "rw_Put rw st (MetaTableKey (t_Name t)) b = (None, st')" "inv st'"
    "view st' = (view st)(MetaTableKey (t_Name t) \<mapsto> b)"
    by (rule putE [OF assms(1)])
  then show ?thesis using b that by (simp add: persist_def)
qed

lemma bumpID_ok:
  assumes "inv st"
  obtains st' where "bumpID rw st c = (None, st', c\<lparr>cat_nextID := cat_nextID c + 1\<rparr>)" and "inv st'"
    and "view st' = (view st)(MetaSeqKey \<mapsto> be_bytes 4 (unat (cat_nextID c + 1)))"
  by (rule putE [OF assms, of MetaSeqKey "be_bytes 4 (unat (cat_nextID c + 1))"])
    (simp add: bumpID_def that)

lemma synced_put:
  assumes "synced js m c" and "json_Unmarshal js b = Inr t" and "t_Name t = n"
  shows "synced js (m(MetaTableKey n \<mapsto> b)) (c\<lparr>cat_tables := AList.update n t (cat_tables c)\<rparr>)"
  using assms table_entry_put [OF assms(2), of m n]
  by (simp add: synced_def update_conv' fun_upd_apply)

lemma Create_ok:
  assumes "inv st" and "synced js (view st) c" and "catalog_ok c"
    and "Catalog_Get c (t_Name def) = Inl (ErrTableNotFound (t_Name def))"
    and "table_ok def" and "t_Indexes def = []" and "cat_nextID c + 1 \<noteq> 0"
    and "json_roundtrip js (def\<lparr>t_ID := cat_nextID c, t_NextIndexID := 1\<rparr>)"
  obtains t st' c' where "Create js rw st c def = (Inr t, st', c')"
    and "t = def\<lparr>t_ID := cat_nextID c, t_NextIndexID := 1\<rparr>"
    and "inv st'" and "synced js (view st') c'" and "catalog_ok c'" and "same_data (view st) (view st')"
    and "map_of (cat_tables c') = (map_of (cat_tables c))(t_Name def \<mapsto> t)" and "cat_nextID c' = cat_nextID c + 1"
proof -
  let ?t = "def\<lparr>t_ID := cat_nextID c, t_NextIndexID := 1\<rparr>"
  let ?c1 = "c\<lparr>cat_nextID := cat_nextID c + 1\<rparr>"
  let ?c2 = "?c1\<lparr>cat_tables := AList.update (t_Name def) ?t (cat_tables c)\<rparr>"
  have new: "map_of (cat_tables c) (t_Name def) = None"
    using assms(4) by (simp add: Catalog_Get_def split: option.splits)
  obtain st1 where s1: "bumpID rw st c = (None, st1, ?c1)" "inv st1"
    "view st1 = (view st)(MetaSeqKey \<mapsto> be_bytes 4 (unat (cat_nextID c + 1)))"
    by (rule bumpID_ok [OF assms(1)])
  obtain st2 b where s2: "persist js rw st1 ?t = (None, st2)" "inv st2"
    "view st2 = (view st1)(MetaTableKey (t_Name ?t) \<mapsto> b)" "json_Unmarshal js b = Inr ?t"
    by (rule persist_ok [OF s1(2) assms(8)])
  have C: "Create js rw st c def = (Inr ?t, st2, ?c2)"
    using new s1(1) s2(1) by (simp add: Create_def Clone_def Let_def)
  have "synced js (view st1) ?c1"
    using assms(2) table_entry_cong [of "view st1" _ "view st" js] by (simp add: synced_def s1(3))
  then have sync: "synced js (view st2) ?c2"
    using synced_put [of "view st1" ?c1 b ?t] s2(3,4) by simp
  have less: "cat_nextID c < cat_nextID c + 1"
    by (rule word_less_Suc [OF assms(7)])
  have "tables_ok ((map_of (cat_tables c))(t_Name def \<mapsto> ?t)) (cat_nextID c + 1)"
  proof (rule tables_ok_update)
    show T: "tables_ok (map_of (cat_tables c)) (cat_nextID c)" by (rule catalog_ok_tables [OF assms(3)])
    show "table_ok ?t" by (rule table_ok_new [OF assms(5,6)])
    show "t_ID t' \<noteq> t_ID ?t" if "map_of (cat_tables c) n' = Some t'" for n' t'
      using tables_okD(3) [OF T that] by auto
  qed (use less assms(6) in auto)
  then have ok: "catalog_ok ?c2"
    using assms(3) by (simp add: catalog_ok_def update_conv' distinct_update)
  show thesis
    by (rule that [OF C refl s2(2) sync ok])
      (auto simp: same_data_def s1(3) s2(3) update_conv')
qed

lemma store_update_ok:
  assumes "synced js m c" and "catalog_ok c" and "map_of (cat_tables c) n = Some t"
    and "t_Name up = n" and "table_ok up" and "t_ID up = t_ID t"
    and "json_Unmarshal js b = Inr up"
    and "\<And>n' t'. n' \<noteq> n \<Longrightarrow> map_of (cat_tables c) n' = Some t' \<Longrightarrow>
      i_Name ` set (t_Indexes up) \<inter> i_Name ` set (t_Indexes t') = {}"
  shows "synced js (m(MetaTableKey n \<mapsto> b)) (c\<lparr>cat_tables := AList.update n up (cat_tables c)\<rparr>)"
    and "catalog_ok (c\<lparr>cat_tables := AList.update n up (cat_tables c)\<rparr>)"
proof -
  show "synced js (m(MetaTableKey n \<mapsto> b)) (c\<lparr>cat_tables := AList.update n up (cat_tables c)\<rparr>)"
    by (rule synced_put [OF assms(1,7,4)])
  note T = catalog_ok_tables [OF assms(2)]
  have "tables_ok ((map_of (cat_tables c))(n \<mapsto> up)) (cat_nextID c)"
    by (rule tables_ok_update [OF T order_refl assms(4,5) _ _ assms(8)])
      (use assms(6) tables_okD(3,4) [OF T assms(3)] in simp_all)
  then show "catalog_ok (c\<lparr>cat_tables := AList.update n up (cat_tables c)\<rparr>)"
    using assms(2) by (simp add: catalog_ok_def update_conv' distinct_update)
qed

lemma AddIndex_ok:
  assumes "inv st" and "synced js (view st) c" and "catalog_ok c"
    and "map_of (cat_tables c) table = Some t" and "find_index_in (cat_tables c) name = None"
    and "ColumnIndex t column = Some pos" and "t_NextIndexID t + 1 \<noteq> 0"
    and "ix = \<lparr>i_Name = name, i_ID = t_NextIndexID t, i_Column = column, i_Pos = pos\<rparr>"
    and "up = t\<lparr>t_NextIndexID := t_NextIndexID t + 1, t_Indexes := t_Indexes t @ [ix]\<rparr>"
    and "json_roundtrip js up"
  obtains st' c' where "AddIndex js rw st c table name column = (Inr (up, ix), st', c')"
    and "inv st'" and "synced js (view st') c'" and "catalog_ok c'" and "same_data (view st) (view st')"
    and "map_of (cat_tables c') = (map_of (cat_tables c))(table \<mapsto> up)" and "cat_nextID c' = cat_nextID c"
proof -
  note T = catalog_ok_tables [OF assms(3)]
  have name: "t_Name up = table" using tables_okD(1) [OF T assms(4)] assms(9) by simp
  have fresh: "name \<notin> i_Name ` set (t_Indexes t')" if "map_of (cat_tables c) n' = Some t'" for n' t'
    using assms(5) map_of_SomeD [OF that] by (auto simp: find_index_in_None)
  obtain st' b where p: "persist js rw st up = (None, st')" "inv st'"
    "view st' = (view st)(MetaTableKey (t_Name up) \<mapsto> b)" "json_Unmarshal js b = Inr up"
    by (rule persist_ok [OF assms(1,10)])
  have fresh_t: "name \<notin> i_Name ` set (t_Indexes t)" by (rule fresh [OF assms(4)])
  have upok: "table_ok up"
    using table_ok_add_index [OF tables_okD(2) [OF T assms(4)] fresh_t assms(6,7)] by (simp add: assms(8,9))
  have "find (\<lambda>ix. i_Name ix = name) (t_Indexes t) = None"
    using fresh_t by (auto simp: find_None_iff)
  then have idx: "Table_FindIndex up name = Some ix"
    using assms(8) by (simp add: assms(9) Table_FindIndex_def find_snoc)
  have A: "AddIndex js rw st c table name column =
      (Inr (up, ix), st', c\<lparr>cat_tables := AList.update table up (cat_tables c)\<rparr>)"
    using assms(4-6) p(1) idx
    by (simp add: AddIndex_def Clone_def Let_def assms(8) [symmetric] assms(9) [symmetric])
  have disj: "i_Name ` set (t_Indexes up) \<inter> i_Name ` set (t_Indexes t') = {}"
    if "n' \<noteq> table" "map_of (cat_tables c) n' = Some t'" for n' t'
    using tables_okD(5) [OF T assms(4) that(2,1)] fresh [OF that(2)] assms(8,9) by auto
  have id: "t_ID up = t_ID t" by (simp add: assms(9))
  note upd = store_update_ok [OF assms(2,3,4) name upok id p(4) disj]
  show thesis
    by (rule that [OF A p(2) _ upd(2)]) (use upd(1) in \<open>auto simp: p(3) name same_data_def update_conv'\<close>)
qed

lemma RemoveIndex_ok:
  assumes "inv st" and "synced js (view st) c" and "catalog_ok c"
    and "find_index_in (cat_tables c) name = Some (t, ix)"
    and "up = t\<lparr>t_Indexes := filter (\<lambda>keep. i_Name keep \<noteq> name) (t_Indexes t)\<rparr>"
    and "json_roundtrip js up"
  obtains st' c' where "RemoveIndex js rw st c name = (Inr (up, ix), st', c')"
    and "inv st'" and "synced js (view st') c'" and "catalog_ok c'" and "same_data (view st) (view st')"
    and "map_of (cat_tables c') = (map_of (cat_tables c))(t_Name t \<mapsto> up)"
    and "find_index_in (cat_tables c') name = None" and "cat_nextID c' = cat_nextID c"
proof -
  note T = catalog_ok_tables [OF assms(3)]
  have t: "map_of (cat_tables c) (t_Name t) = Some t" and x: "ix \<in> set (t_Indexes t)" "i_Name ix = name"
    using assms(4) by (simp_all add: find_index_in_iff [OF assms(3)])
  obtain st' b where p: "persist js rw st up = (None, st')" "inv st'"
    "view st' = (view st)(MetaTableKey (t_Name up) \<mapsto> b)" "json_Unmarshal js b = Inr up"
    by (rule persist_ok [OF assms(1,6)])
  have name: "t_Name up = t_Name t" "t_ID up = t_ID t" by (simp_all add: assms(5))
  have upok: "table_ok up"
    unfolding assms(5) by (rule table_ok_filter_index [OF tables_okD(2) [OF T t]])
  have disj: "i_Name ` set (t_Indexes up) \<inter> i_Name ` set (t_Indexes t') = {}"
    if "n' \<noteq> t_Name t" "map_of (cat_tables c) n' = Some t'" for n' t'
    using tables_okD(5) [OF T t that(2,1)] assms(5) by auto
  let ?c = "c\<lparr>cat_tables := AList.update (t_Name t) up (cat_tables c)\<rparr>"
  note upd = store_update_ok [OF assms(2,3) t name(1) upok name(2) p(4) disj]
  have R: "RemoveIndex js rw st c name = (Inr (up, ix), st', ?c)"
    using assms(4) p(1) by (simp add: RemoveIndex_def Clone_def Let_def assms(5) [symmetric] name)
  have gone: "name \<notin> i_Name ` set (t_Indexes y)" if "(m, y) \<in> set (cat_tables ?c)" for m y
  proof -
    have "map_of (cat_tables ?c) m = Some y" using that upd(2) by (simp add: catalog_ok_def)
    then have y: "(if m = t_Name t then Some up else map_of (cat_tables c) m) = Some y"
      by (simp add: update_conv' fun_upd_apply)
    show ?thesis
    proof (cases "m = t_Name t")
      case True
      then show ?thesis using y by (auto simp: assms(5))
    next
      case False
      then show ?thesis using y tables_okD(5) [OF T t, of m y] x by auto
    qed
  qed
  show thesis
    by (rule that [OF R p(2) _ upd(2)])
      (use upd(1) gone in \<open>auto simp: p(3) name same_data_def update_conv' find_index_in_None\<close>)
qed

lemma Drop_ok:
  assumes "inv st" and "synced js (view st) c" and "catalog_ok c"
    and "map_of (cat_tables c) name = Some t"
  obtains st' c' where "Drop rw st c name = (None, st', c')"
    and "inv st'" and "synced js (view st') c'" and "catalog_ok c'" and "same_data (view st) (view st')"
    and "map_of (cat_tables c') = (map_of (cat_tables c))(name := None)" and "cat_nextID c' = cat_nextID c"
proof -
  obtain st' where d: "rw_Delete rw st (MetaTableKey name) = (None, st')" "inv st'"
    "view st' = (view st)(MetaTableKey name := None)"
    by (rule deleteE [OF assms(1)])
  let ?c = "c\<lparr>cat_tables := AList.delete name (cat_tables c)\<rparr>"
  have D: "Drop rw st c name = (None, st', ?c)" using assms(4) d(1) by (simp add: Drop_def)
  have "table_entry js (view st') n (map_of (cat_tables ?c) n)" for n
  proof (cases "n = name")
    case True
    then show ?thesis by (simp add: table_entry_def d(3) delete_conv')
  next
    case False
    then have "table_entry js (view st') n r = table_entry js (view st) n r" for r
      by (intro table_entry_cong) (simp add: d(3))
    then show ?thesis using assms(2) False by (simp add: synced_def delete_conv')
  qed
  then have "synced js (view st') ?c" using assms(2) by (simp add: synced_def d(3))
  moreover have "catalog_ok ?c"
    using assms(3) tables_ok_delete [OF catalog_ok_tables [OF assms(3)]]
    by (simp add: catalog_ok_def delete_conv' distinct_delete)
  ultimately show thesis
    by (intro that [OF D d(2)]) (auto simp: same_data_def d(3) delete_conv')
qed

end

interpretation overlay_catalog: catalog_store Overlay_rw overlay_view overlay_inv js for js
  by unfold_locales

section \<open>Validation of a definition\<close>

lemma define_loop_Inr:
  assumes "define_loop name cols seen pk i cs = Inr r" and "0 \<le> i"
  shows "distinct (map c_Name cs) \<and> c_Name ` set cs \<inter> set seen = {} \<and>
    (if \<exists>c \<in> set cs. c_PrimaryKey c
     then pk < 0 \<and> (\<exists>j < length cs. r = i + int j \<and> (\<forall>k < length cs. c_PrimaryKey (cs ! k) \<longleftrightarrow> k = j))
     else r = pk)"
  using assms
proof (induction name cols seen pk i cs rule: define_loop.induct)
  case (2 name cols seen pk i c cs)
  have nseen: "c_Name c \<notin> set seen" using 2(3) by (auto split: if_splits)
  show ?case
  proof (cases "c_PrimaryKey c")
    case False
    let ?P = "\<exists>x \<in> set cs. c_PrimaryKey x"
    have IH: "distinct (map c_Name cs) \<and> c_Name ` set cs \<inter> set (c_Name c # seen) = {} \<and>
      (if ?P then pk < 0 \<and> (\<exists>j < length cs. r = i + 1 + int j \<and> (\<forall>k < length cs. c_PrimaryKey (cs ! k) \<longleftrightarrow> k = j))
       else r = pk)"
      using 2(1) [OF nseen False] 2(3,4) nseen False by simp
    show ?thesis
    proof (cases ?P)
      case True
      then obtain j where "j < length cs" "r = i + 1 + int j" "\<forall>k < length cs. c_PrimaryKey (cs ! k) \<longleftrightarrow> k = j"
        and pk: "pk < 0"
        using IH by auto
      then have "\<exists>j' < length (c # cs). r = i + int j' \<and>
          (\<forall>k < length (c # cs). c_PrimaryKey ((c # cs) ! k) \<longleftrightarrow> k = j')"
        using False by (intro exI [of _ "Suc j"]) (auto simp: nth_Cons split: nat.split)
      moreover have "\<exists>x \<in> set (c # cs). c_PrimaryKey x" using True by simp
      ultimately show ?thesis using IH pk nseen by (simp only: if_True) simp
    next
      case noP: False
      then show ?thesis using IH False nseen by auto
    qed
  next
    case True
    have pk: "pk < 0" using 2(3) nseen True by (auto split: if_splits)
    have IH: "distinct (map c_Name cs) \<and> c_Name ` set cs \<inter> set (c_Name c # seen) = {} \<and>
      (if \<exists>x \<in> set cs. c_PrimaryKey x then i < 0 \<and> (\<exists>j < length cs. r = i + 1 + int j \<and>
        (\<forall>k < length cs. c_PrimaryKey (cs ! k) \<longleftrightarrow> k = j)) else r = i)"
      using 2(2) [OF nseen] 2(3,4) nseen True pk by simp
    then have no: "\<forall>x \<in> set cs. \<not> c_PrimaryKey x" and r: "r = i"
      using 2(4) by (auto split: if_splits)
    have "\<forall>k < length (c # cs). c_PrimaryKey ((c # cs) ! k) \<longleftrightarrow> k = 0"
      using True no by (auto simp: nth_Cons split: nat.split)
    then have "\<exists>j < length (c # cs). r = i + int j \<and> (\<forall>k < length (c # cs). c_PrimaryKey ((c # cs) ! k) \<longleftrightarrow> k = j)"
      using r by (intro exI [of _ 0]) simp
    then show ?thesis using IH True pk nseen by auto
  qed
qed simp

lemma define_loop_ok:
  assumes "distinct (map c_Name cs)" and "c_Name ` set cs \<inter> set seen = {}"
    and "length (filter c_PrimaryKey cs) + (if pk \<ge> 0 then 1 else 0) \<le> 1" and "0 \<le> i"
  shows "\<exists>r. define_loop name cols seen pk i cs = Inr r"
  using assms
  by (induction name cols seen pk i cs rule: define_loop.induct) (auto split: if_splits)

lemma Define_Inr:
  assumes "Define name cols = Inr t"
  shows "table_ok t \<and> t_Name t = name \<and> t_Indexes t = [] \<and>
    map c_Name (t_Columns t) = map c_Name cols \<and> map c_Type (t_Columns t) = map c_Type cols"
proof -
  obtain pk where L: "define_loop name cols [] (-1) 0 cols = Inr pk" and pk: "\<not> pk < 0" and ne: "cols \<noteq> []"
    and t: "t = \<lparr>t_Name = name, t_ID = 0, t_Columns = cols[nat pk := (cols ! nat pk)\<lparr>c_NotNull := True\<rparr>],
                    t_PK = pk, t_Indexes = [], t_NextIndexID = 0\<rparr>"
    using assms by (auto simp: Define_def split: if_splits sum.splits)
  note F = define_loop_Inr [OF L]
  obtain j where j: "j < length cols" "pk = int j" "\<forall>k < length cols. c_PrimaryKey (cols ! k) \<longleftrightarrow> k = j"
    using F pk by (auto split: if_splits)
  have names: "map c_Name (cols[j := (cols ! j)\<lparr>c_NotNull := True\<rparr>]) = map c_Name cols"
    "map c_Type (cols[j := (cols ! j)\<lparr>c_NotNull := True\<rparr>]) = map c_Type cols"
    using j(1) by (simp_all add: map_update list_update_same_conv)
  have "c_PrimaryKey (cols[j := (cols ! j)\<lparr>c_NotNull := True\<rparr>] ! i) \<longleftrightarrow> i = j" if "i < length cols" for i
    using j that by (auto simp: nth_list_update)
  then show ?thesis
    using F j(1) names by (simp add: t j(2) table_ok_def PKColumn_def)
qed

lemma table_ok_PK: "table_ok t \<Longrightarrow> c_NotNull (PKColumn t)"
  by (simp add: table_ok_def)

section \<open>Properties\<close>

text \<open>\<open>Define\<close> accepts exactly the column lists that are non-empty, without duplicate names
  and with exactly one primary key, and the schema it returns is well formed, with the primary
  key column NOT NULL and names and types as declared.\<close>

theorem Define_correct:
  "((\<exists>t. Define name cols = Inr t) \<longleftrightarrow>
      cols \<noteq> [] \<and> distinct (map c_Name cols) \<and> length (filter c_PrimaryKey cols) = 1)
   \<and> (case Define name cols of
        Inl e \<Rightarrow> True
      | Inr t \<Rightarrow> table_ok t \<and> t_Name t = name \<and> t_Indexes t = [] \<and> c_NotNull (PKColumn t)
          \<and> map c_Name (t_Columns t) = map c_Name cols \<and> map c_Type (t_Columns t) = map c_Type cols)"
proof (intro conjI)
  show "case Define name cols of Inl e \<Rightarrow> True
      | Inr t \<Rightarrow> table_ok t \<and> t_Name t = name \<and> t_Indexes t = [] \<and> c_NotNull (PKColumn t)
          \<and> map c_Name (t_Columns t) = map c_Name cols \<and> map c_Type (t_Columns t) = map c_Type cols"
    using Define_Inr [of name cols] table_ok_PK by (cases "Define name cols") simp_all
  show "(\<exists>t. Define name cols = Inr t) \<longleftrightarrow>
      cols \<noteq> [] \<and> distinct (map c_Name cols) \<and> length (filter c_PrimaryKey cols) = 1" (is "_ = ?R")
  proof
    assume "\<exists>t. Define name cols = Inr t"
    then obtain pk where L: "define_loop name cols [] (-1) 0 cols = Inr pk" and pk: "\<not> pk < 0" and ne: "cols \<noteq> []"
      by (auto simp: Define_def split: if_splits sum.splits)
    note F = define_loop_Inr [OF L]
    obtain j where j: "j < length cols" "\<forall>k < length cols. c_PrimaryKey (cols ! k) \<longleftrightarrow> k = j"
      using F pk by (auto split: if_splits)
    have "{i. i < length cols \<and> c_PrimaryKey (cols ! i)} = {j}" using j by auto
    then have "length (filter c_PrimaryKey cols) = 1" by (simp add: length_filter_conv_card)
    then show ?R using F ne by simp
  next
    assume R: ?R
    then obtain r where L: "define_loop name cols [] (-1) 0 cols = Inr r"
      using define_loop_ok [of cols "[]" "-1" 0 name cols] by auto
    have "\<exists>c \<in> set cols. c_PrimaryKey c"
      using R by (metis filter_False length_0_conv zero_neq_one list.size(3))
    then have "0 \<le> r" using define_loop_Inr [OF L] by auto
    then show "\<exists>t. Define name cols = Inr t" using R L by (simp add: Define_def)
  qed
qed

text \<open>C19: \<open>CREATE TABLE\<close> in a transaction: when the name is free, \<open>Create\<close> gives the table the
  next identifier, which no table has or will get again, keeps the catalog valid, changes nothing
  outside the catalog's own keys, and a database opened on what was written finds exactly the
  catalog held in memory.\<close>

theorem Create_then_Load:
  assumes "overlay_inv ov" and "synced js (overlay_view ov) c" and "catalog_ok c"
    and "Catalog_Get c (t_Name def) = Inl (ErrTableNotFound (t_Name def))"
    and "Define (t_Name def) cols = Inr def" and "cat_nextID c + 1 \<noteq> 0"
    and "json_roundtrip js (def\<lparr>t_ID := cat_nextID c, t_NextIndexID := 1\<rparr>)"
  shows "\<exists>t ov' c' c''. Create js Overlay_rw ov c def = (Inr t, ov', c')
    \<and> t = def\<lparr>t_ID := cat_nextID c, t_NextIndexID := 1\<rparr> \<and> t_ID t < cat_nextID c'
    \<and> catalog_ok c' \<and> synced js (overlay_view ov') c' \<and> same_data (overlay_view ov) (overlay_view ov')
    \<and> Load js (Overlay_reader ov') = Inr c'' \<and> Catalog_Get c'' = (Catalog_Get c)(t_Name def := Inr t)
    \<and> cat_nextID c'' = cat_nextID c'"
proof -
  have d: "table_ok def" "t_Indexes def = []" using Define_Inr [OF assms(5)] by simp_all
  obtain t ov' c' where C: "Create js Overlay_rw ov c def = (Inr t, ov', c')"
    and t: "t = def\<lparr>t_ID := cat_nextID c, t_NextIndexID := 1\<rparr>"
    and post: "overlay_inv ov'" "synced js (overlay_view ov') c'" "catalog_ok c'"
      "same_data (overlay_view ov) (overlay_view ov')"
    and m: "map_of (cat_tables c') = (map_of (cat_tables c))(t_Name def \<mapsto> t)" and "cat_nextID c' = cat_nextID c + 1"
    by (rule overlay_catalog.Create_ok [OF assms(1-4) d assms(6,7)])
  obtain c'' where L: "Load js (Overlay_reader ov') = Inr c''"
    "map_of (cat_tables c'') = map_of (cat_tables c')" "cat_nextID c'' = cat_nextID c'"
    using Load_synced [OF overlay_reads [OF post(1)] post(2,3)] by blast
  have "map_of (cat_tables c') (t_Name def) = Some t" by (simp add: m)
  then have "t_ID t < cat_nextID c'" by (rule tables_okD(3) [OF catalog_ok_tables [OF post(3)]])
  moreover have "Catalog_Get c'' = (Catalog_Get c)(t_Name def := Inr t)"
    by (rule ext) (simp add: Catalog_Get_def L(2) m)
  ultimately show ?thesis using C t post L by blast
qed

text \<open>\<open>DROP INDEX\<close> undoes \<open>CREATE INDEX\<close> in the catalog and in the store, except that the
  identifier of the dropped index is not handed out again; in between, the index is found by its
  name in the whole database and by its column on its table.\<close>

theorem AddIndex_RemoveIndex:
  assumes "overlay_inv ov" and "synced js (overlay_view ov) c" and "catalog_ok c"
    and "map_of (cat_tables c) table = Some t" and "find_index_in (cat_tables c) name = None"
    and "ColumnIndex t column = Some pos" and "t_NextIndexID t + 1 \<noteq> 0"
    and "json_roundtrip js (t\<lparr>t_NextIndexID := t_NextIndexID t + 1,
      t_Indexes := t_Indexes t @ [\<lparr>i_Name = name, i_ID = t_NextIndexID t, i_Column = column, i_Pos = pos\<rparr>]\<rparr>)"
    and "json_roundtrip js (t\<lparr>t_NextIndexID := t_NextIndexID t + 1\<rparr>)"
  shows "\<exists>up ix ov1 c1 ov2 c2 up2 c3. AddIndex js Overlay_rw ov c table name column = (Inr (up, ix), ov1, c1)
    \<and> catalog_ok c1 \<and> i_Pos ix = pos \<and> i_ID ix = t_NextIndexID t
    \<and> Catalog_FindIndex c1 name = Inr (up, ix) \<and> IndexOn up column \<noteq> None
    \<and> RemoveIndex js Overlay_rw ov1 c1 name = (Inr (up2, ix), ov2, c2)
    \<and> up2 = t\<lparr>t_NextIndexID := t_NextIndexID t + 1\<rparr>
    \<and> Catalog_Get c1 = (Catalog_Get c)(table := Inr up) \<and> Catalog_Get c2 = (Catalog_Get c)(table := Inr up2)
    \<and> catalog_ok c2 \<and> Catalog_FindIndex c2 name = Inl (ErrIndexNotFound name) \<and> synced js (overlay_view ov2) c2
    \<and> same_data (overlay_view ov) (overlay_view ov2)
    \<and> Load js (Overlay_reader ov2) = Inr c3
    \<and> Catalog_Get c3 = (Catalog_Get c)(table := Inr up2)"
proof -
  let ?ix = "\<lparr>i_Name = name, i_ID = t_NextIndexID t, i_Column = column, i_Pos = pos\<rparr>"
  let ?up = "t\<lparr>t_NextIndexID := t_NextIndexID t + 1, t_Indexes := t_Indexes t @ [?ix]\<rparr>"
  obtain ov1 c1 where A: "AddIndex js Overlay_rw ov c table name column = (Inr (?up, ?ix), ov1, c1)"
    and p1: "overlay_inv ov1" "synced js (overlay_view ov1) c1" "catalog_ok c1"
      "same_data (overlay_view ov) (overlay_view ov1)"
    and m1: "map_of (cat_tables c1) = (map_of (cat_tables c))(table \<mapsto> ?up)" and "cat_nextID c1 = cat_nextID c"
    by (rule overlay_catalog.AddIndex_ok [OF assms(1-7) refl refl assms(8)])
  have name: "t_Name ?up = table" using tables_okD(1) [OF catalog_ok_tables [OF assms(3)] assms(4)] by simp
  have F: "find_index_in (cat_tables c1) name = Some (?up, ?ix)"
    using name by (simp add: find_index_in_iff [OF p1(3)] m1)
  have nofind: "name \<notin> i_Name ` set (t_Indexes t)"
    using assms(5) map_of_SomeD [OF assms(4)] by (auto simp: find_index_in_None)
  have keep: "filter (\<lambda>keep. i_Name keep \<noteq> name) (t_Indexes t) = t_Indexes t"
    using nofind by (intro filter_True) auto
  let ?up2 = "t\<lparr>t_NextIndexID := t_NextIndexID t + 1\<rparr>"
  have up2: "?up2 = ?up\<lparr>t_Indexes := filter (\<lambda>keep. i_Name keep \<noteq> name) (t_Indexes ?up)\<rparr>"
    using keep by simp
  obtain ov2 c2 where R: "RemoveIndex js Overlay_rw ov1 c1 name = (Inr (?up2, ?ix), ov2, c2)"
    and p2: "overlay_inv ov2" "synced js (overlay_view ov2) c2" "catalog_ok c2"
      "same_data (overlay_view ov1) (overlay_view ov2)"
    and m2: "map_of (cat_tables c2) = (map_of (cat_tables c1))(t_Name ?up \<mapsto> ?up2)" and "cat_nextID c2 = cat_nextID c1"
    by (rule overlay_catalog.RemoveIndex_ok [OF p1(1-3) F up2 assms(9)])
  obtain c3 where L: "Load js (Overlay_reader ov2) = Inr c3" "map_of (cat_tables c3) = map_of (cat_tables c2)"
    using Load_synced [OF overlay_reads [OF p2(1)] p2(2,3)] by blast
  have G: "Catalog_Get c3 = (Catalog_Get c)(table := Inr ?up2)"
    by (rule ext) (simp add: Catalog_Get_def L(2) m2 m1 name del: Table.update_convs)
  have G12: "Catalog_Get c1 = (Catalog_Get c)(table := Inr ?up)" "Catalog_Get c2 = (Catalog_Get c)(table := Inr ?up2)"
    by (rule ext, simp add: Catalog_Get_def m2 m1 name del: Table.update_convs)+
  have N: "find_index_in (cat_tables c2) name = None"
  proof (rule ccontr)
    assume "find_index_in (cat_tables c2) name \<noteq> None"
    then obtain u ix where u: "map_of (cat_tables c2) (t_Name u) = Some u" "ix \<in> set (t_Indexes u)" "i_Name ix = name"
      by (auto simp: find_index_in_iff [OF p2(3)])
    show False
    proof (cases "t_Name u = table")
      case True
      then have "u = ?up2" using u(1) by (simp add: m2 name del: Table.update_convs)
      then show False using u(2,3) nofind by auto
    next
      case False
      then have "(t_Name u, u) \<in> set (cat_tables c)" using u(1) by (auto simp: m2 m1 name dest: map_of_SomeD)
      then show False using u(2,3) assms(5) by (auto simp: find_index_in_None)
    qed
  qed
  have on: "IndexOn ?up column \<noteq> None" by (auto simp: IndexOn_def find_None_iff)
  have sd: "same_data (overlay_view ov) (overlay_view ov2)"
    using p1(4) p2(4) by (simp add: same_data_def)
  show ?thesis
    by (rule exI [of _ ?up], rule exI [of _ ?ix], rule exI [of _ ov1], rule exI [of _ c1], rule exI [of _ ov2],
        rule exI [of _ c2], rule exI [of _ ?up2], rule exI [of _ c3])
      (use A R p1(3) p2(2,3) F on sd L(1) G G12 N in \<open>simp add: Catalog_FindIndex_def del: Table.update_convs\<close>)
qed

text \<open>A small table, an empty database and a JSON codec that distinguishes the tables that come
  up, for the witnesses.\<close>

definition sample_cols :: "Column list" where
  "sample_cols =
     [\<lparr>c_Name = ''id'', c_Type = KindInt, c_NotNull = True, c_PrimaryKey = True\<rparr>,
      \<lparr>c_Name = ''name'', c_Type = KindText, c_NotNull = False, c_PrimaryKey = False\<rparr>]"

definition sample_def :: Table where
  "sample_def = \<lparr>t_Name = ''users'', t_ID = 0, t_Columns = sample_cols, t_PK = 0, t_Indexes = [],
     t_NextIndexID = 0\<rparr>"

definition sample_table :: Table where
  "sample_table = sample_def\<lparr>t_ID := 1, t_NextIndexID := 1\<rparr>"

definition sample_index :: Index where
  "sample_index = \<lparr>i_Name = ''by_name'', i_ID = 1, i_Column = ''name'', i_Pos = 1\<rparr>"

definition sample_json :: json where
  "sample_json =
     \<lparr>json_Marshal = (\<lambda>t. Inr [of_nat (length (t_Indexes t)), of_nat (unat (t_NextIndexID t))]),
      json_Unmarshal = (\<lambda>b.
        if b = [0, 1] then Inr sample_table
        else if b = [0, 2] then Inr (sample_table\<lparr>t_NextIndexID := 2\<rparr>)
        else Inr (sample_table\<lparr>t_NextIndexID := 2, t_Indexes := [sample_index]\<rparr>))\<rparr>"

definition sample_empty :: Overlay where
  "sample_empty = NewOverlay (Memory_reader NewMemory) NewBuffer"

lemma sample_empty_view: "overlay_view sample_empty = Map.empty" "overlay_inv sample_empty"
proof -
  have r: "reads (Memory_reader NewMemory) Map.empty"
    using memory_reads [of NewMemory] by (simp add: memory_inv_def memory_view_def NewMemory_def)
  show "overlay_view sample_empty = Map.empty" "overlay_inv sample_empty"
    using NewOverlay_view [OF r] NewOverlay_inv [OF r] by (simp_all add: sample_empty_def)
qed

lemma sample_json_roundtrip:
  "json_roundtrip sample_json sample_table"
  "json_roundtrip sample_json (sample_table\<lparr>t_NextIndexID := 2\<rparr>)"
  "json_roundtrip sample_json (sample_table\<lparr>t_NextIndexID := 2, t_Indexes := [sample_index]\<rparr>)"
  by (simp_all add: json_roundtrip_def sample_json_def sample_table_def sample_def_def)

abbreviation empty_catalog :: Catalog where
  "empty_catalog \<equiv> \<lparr>cat_tables = [], cat_nextID = 1\<rparr>"

lemma sample_empty_synced: "synced js (overlay_view sample_empty) empty_catalog" "catalog_ok empty_catalog"
  by (simp_all add: synced_def table_entry_def sample_empty_view catalog_ok_def tables_ok_def)

lemma sample_Define: "Define (t_Name sample_def) sample_cols = Inr sample_def"
  by (simp add: Define_def sample_def_def sample_cols_def)

lemma sample_free: "Catalog_Get empty_catalog (t_Name sample_def) = Inl (ErrTableNotFound (t_Name sample_def))"
  by (simp add: Catalog_Get_def)

lemma sample_room: "cat_nextID empty_catalog + 1 \<noteq> 0"
  by simp

lemma sample_json_created:
  "json_roundtrip sample_json (sample_def\<lparr>t_ID := cat_nextID empty_catalog, t_NextIndexID := 1\<rparr>)"
  using sample_json_roundtrip(1) by (simp add: sample_table_def)

theorem Create_then_Load_witness:
  "\<exists>t ov' c'. Create sample_json Overlay_rw sample_empty empty_catalog sample_def = (Inr t, ov', c')
     \<and> catalog_ok c'"
  using Create_then_Load [OF sample_empty_view(2) sample_empty_synced sample_free sample_Define sample_room
      sample_json_created] by blast

lemma sample_created:
  obtains ov c where "overlay_inv ov" and "synced sample_json (overlay_view ov) c" and "catalog_ok c"
    and "map_of (cat_tables c) = [''users'' \<mapsto> sample_table]"
proof -
  have d: "table_ok sample_def" "t_Indexes sample_def = []"
    using Define_Inr [OF sample_Define] by simp_all
  obtain t ov c where "overlay_inv ov" "synced sample_json (overlay_view ov) c" "catalog_ok c"
    "map_of (cat_tables c) = (map_of (cat_tables empty_catalog))(t_Name sample_def \<mapsto> t)"
    "cat_nextID c = cat_nextID empty_catalog + 1"
    and t: "t = sample_def\<lparr>t_ID := cat_nextID empty_catalog, t_NextIndexID := 1\<rparr>"
    by (rule overlay_catalog.Create_ok [OF sample_empty_view(2) sample_empty_synced sample_free d
          sample_room sample_json_created])
  then show thesis by (intro that) (simp_all add: sample_table_def, simp add: sample_def_def)
qed

theorem AddIndex_RemoveIndex_witness:
  "\<exists>ov c up ix ov1 c1. AddIndex sample_json Overlay_rw ov c ''users'' ''by_name'' ''name'' = (Inr (up, ix), ov1, c1)
     \<and> Catalog_FindIndex c1 ''by_name'' = Inr (up, ix)"
proof -
  obtain ov c where c: "overlay_inv ov" "synced sample_json (overlay_view ov) c" "catalog_ok c"
    "map_of (cat_tables c) = [''users'' \<mapsto> sample_table]"
    by (rule sample_created)
  have "t_Indexes t = []" if "(n, t) \<in> set (cat_tables c)" for n t
  proof -
    have "map_of (cat_tables c) n = Some t" using that c(3) by (simp add: catalog_ok_def)
    then show ?thesis by (auto simp: c(4) sample_table_def sample_def_def split: if_splits)
  qed
  then have "find_index_in (cat_tables c) ''by_name'' = None" by (auto simp: find_index_in_None)
  moreover have "ColumnIndex sample_table ''name'' = Some 1"
    by (simp add: ColumnIndex_def sample_table_def sample_def_def sample_cols_def)
  moreover have "t_NextIndexID sample_table = 1" "t_Indexes sample_table = []"
    by (simp_all add: sample_table_def sample_def_def)
  ultimately show ?thesis
    using AddIndex_RemoveIndex [OF c(1-3), of "''users''" sample_table "''by_name''" "''name''" 1]
      sample_json_roundtrip(2,3) c(4)
    by (simp add: sample_index_def) blast
qed

end
