(* ===== verification/Ast.thy ===== *)
theory Ast
  imports Decimal Catalog
begin

text \<open>
  The syntax tree of \<open>src/ast/ast.go\<close> with its traversals, and the printer of
  \<open>src/ast/print.go\<close>, which renders any node as SQL with as few parentheses as the precedences
  allow.  A Go interface that may be nil is an option.
\<close>

section \<open>Expressions\<close>

datatype Expr =
    ELiteral Value
  | EColumn string string
  | EStar
  | EUnary string Expr
  | EBinary string Expr Expr
  | EIsNull Expr bool
  | EBetween Expr Expr Expr bool
  | EIn Expr "Expr list" bool
  | ELike Expr Expr bool
  | EFuncCall string "Expr option" bool

section \<open>Statements\<close>

record ColumnDef =
  cd_Name :: string
  cd_Type :: Kind
  cd_NotNull :: bool
  cd_PrimaryKey :: bool

record ResultColumn =
  rc_Star :: bool
  rc_Expr :: "Expr option"
  rc_Alias :: string

record OrderTerm =
  ot_Expr :: Expr
  ot_Desc :: bool

record Select =
  s_Columns :: "ResultColumn list"
  s_Table :: string
  s_Where :: "Expr option"
  s_GroupBy :: "Expr list"
  s_OrderBy :: "OrderTerm list"
  s_Limit :: "Expr option"
  s_Offset :: "Expr option"
  s_Distinct :: bool

datatype Stmt =
    CreateTableStmt string "ColumnDef list" bool
  | DropTableStmt string bool
  | CreateIndexStmt string string string bool
  | DropIndexStmt string bool
  | InsertStmt string "string list" "Expr list list"
  | SelectStmt Select
  | UpdateStmt string "(string \<times> Expr) list" "Expr option"
  | DeleteStmt string "Expr option"
  | ExplainStmt Stmt
  | BeginStmt
  | CommitStmt
  | RollbackStmt

section \<open>Traversal\<close>

text \<open>\<open>Inspect\<close>: the callback threads a state and says whether to visit the children.\<close>

fun Inspect :: "('s \<Rightarrow> Expr \<Rightarrow> bool \<times> 's) \<Rightarrow> Expr \<Rightarrow> 's \<Rightarrow> 's"
  and Inspect_list :: "('s \<Rightarrow> Expr \<Rightarrow> bool \<times> 's) \<Rightarrow> Expr list \<Rightarrow> 's \<Rightarrow> 's"
where
  "Inspect fn e s =
     (let (go, s') = fn s e in
      if \<not> go then s'
      else case e of
        EUnary op a \<Rightarrow> Inspect fn a s'
      | EBinary op l r \<Rightarrow> Inspect fn r (Inspect fn l s')
      | EIsNull a n \<Rightarrow> Inspect fn a s'
      | EBetween a lo hi n \<Rightarrow> Inspect fn hi (Inspect fn lo (Inspect fn a s'))
      | EIn a items n \<Rightarrow> Inspect_list fn items (Inspect fn a s')
      | ELike a p n \<Rightarrow> Inspect fn p (Inspect fn a s')
      | EFuncCall name arg star \<Rightarrow> (case arg of None \<Rightarrow> s' | Some a \<Rightarrow> Inspect fn a s')
      | _ \<Rightarrow> s')"
| "Inspect_list fn [] s = s"
| "Inspect_list fn (e # es) s = Inspect_list fn es (Inspect fn e s)"

declare Inspect.simps [simp del]

definition Columns :: "Expr \<Rightarrow> string list" where
  "Columns e =
     Inspect (\<lambda>out n. case n of
        EColumn t name \<Rightarrow> (True, if name \<in> set out then out else out @ [name])
      | _ \<Rightarrow> (True, out)) e []"

definition HasAggregate :: "Expr \<Rightarrow> bool" where
  "HasAggregate e =
     Inspect (\<lambda>found n. let found' = (case n of EFuncCall _ _ _ \<Rightarrow> True | _ \<Rightarrow> found) in
       (\<not> found', found')) e False"

definition IsConstant :: "Expr \<Rightarrow> bool" where
  "IsConstant e =
     Inspect (\<lambda>constant n.
       let constant' = (case n of EColumn _ _ \<Rightarrow> False | EStar \<Rightarrow> False | EFuncCall _ _ _ \<Rightarrow> False
                        | _ \<Rightarrow> constant)
       in (constant', constant')) e True"

section \<open>Printing\<close>

definition lower_ascii :: "char \<Rightarrow> bool" where
  "lower_ascii c \<longleftrightarrow> 97 \<le> (of_char c :: nat) \<and> (of_char c :: nat) \<le> 122"

fun plain_ident :: "nat \<Rightarrow> string \<Rightarrow> bool" where
  "plain_ident i [] = True"
| "plain_ident i (c # s) =
     ((c = CHR ''_'' \<or> lower_ascii c \<or> is_digit c \<and> 0 < i) \<and> plain_ident (i + 1) s)"

definition dquote :: string where
  "dquote = [CHR 0x22]"

definition quoteIdent :: "string \<Rightarrow> string" where
  "quoteIdent name =
     (if name = [] then dquote @ dquote
      else if plain_ident 0 name then name
      else dquote @ double_char (CHR 0x22) name @ dquote)"

definition PrecLowest :: int where "PrecLowest = 0"
definition PrecOr :: int where "PrecOr = 1"
definition PrecAnd :: int where "PrecAnd = 2"
definition PrecNot :: int where "PrecNot = 3"
definition PrecCompare :: int where "PrecCompare = 4"
definition PrecAdd :: int where "PrecAdd = 5"
definition PrecMul :: int where "PrecMul = 6"
definition PrecUnary :: int where "PrecUnary = 7"
definition PrecAtom :: int where "PrecAtom = 8"

definition BinaryPrecedence :: "string \<Rightarrow> int" where
  "BinaryPrecedence op =
     (if op = ''OR'' then PrecOr
      else if op = ''AND'' then PrecAnd
      else if op \<in> {''='', ''=='', ''!='', ''<>'', ''<'', ''<='', ''>'', ''>=''} then PrecCompare
      else if op \<in> {''+'', ''-''} then PrecAdd
      else if op \<in> {''*'', ''/'', ''%''} then PrecMul
      else PrecLowest)"

fun Precedence :: "Expr \<Rightarrow> int" where
  "Precedence (EBinary op _ _) = BinaryPrecedence op"
| "Precedence (EUnary op _) = (if op = ''NOT'' then PrecNot else PrecUnary)"
| "Precedence (EIsNull _ _) = PrecCompare"
| "Precedence (EBetween _ _ _ _) = PrecCompare"
| "Precedence (EIn _ _ _) = PrecCompare"
| "Precedence (ELike _ _ _) = PrecCompare"
| "Precedence _ = PrecAtom"

text \<open>\<open>sub\<close> given the child and its printed text.\<close>

definition sub_print :: "Expr \<Rightarrow> string \<Rightarrow> int \<Rightarrow> string" where
  "sub_print e s parent = (if Precedence e < parent then ''('' @ s @ '')'' else s)"

definition not_word :: "bool \<Rightarrow> string" where
  "not_word n = (if n then ''NOT '' else [])"

text \<open>The parser gives every call without a star an argument.\<close>

fun Expr_String :: "Expr \<Rightarrow> string" where
  "Expr_String (ELiteral v) = Value_SQL v"
| "Expr_String (EColumn t name) =
     (if t \<noteq> [] then quoteIdent t @ ''.'' @ quoteIdent name else quoteIdent name)"
| "Expr_String EStar = ''*''"
| "Expr_String (EUnary op a) =
     (if op = ''NOT'' then ''NOT '' @ sub_print a (Expr_String a) PrecNot
      else op @ sub_print a (Expr_String a) PrecUnary)"
| "Expr_String (EBinary op l r) =
     sub_print l (Expr_String l) (BinaryPrecedence op) @ '' '' @ op @ '' '' @
     sub_print r (Expr_String r) (BinaryPrecedence op + 1)"
| "Expr_String (EIsNull a n) =
     sub_print a (Expr_String a) PrecCompare @ (if n then '' IS NOT NULL'' else '' IS NULL'')"
| "Expr_String (EBetween a lo hi n) =
     sub_print a (Expr_String a) PrecCompare @ '' '' @ not_word n @ ''BETWEEN '' @
     sub_print lo (Expr_String lo) PrecAdd @ '' AND '' @ sub_print hi (Expr_String hi) PrecAdd"
| "Expr_String (EIn a items n) =
     sub_print a (Expr_String a) PrecCompare @ '' '' @ not_word n @ ''IN ('' @
     Join '', '' (map Expr_String items) @ '')''"
| "Expr_String (ELike a p n) =
     sub_print a (Expr_String a) PrecCompare @ '' '' @ not_word n @ ''LIKE '' @
     sub_print p (Expr_String p) PrecCompare"
| "Expr_String (EFuncCall name arg star) =
     (if star then name @ ''(*)''
      else name @ ''('' @ (case arg of None \<Rightarrow> [] | Some a \<Rightarrow> Expr_String a) @ '')'')"

definition ResultColumn_String :: "ResultColumn \<Rightarrow> string" where
  "ResultColumn_String c =
     (let s = (if \<not> rc_Star c then Expr_String (the (rc_Expr c)) else ''*'')
      in if rc_Alias c \<noteq> [] then s @ '' AS '' @ quoteIdent (rc_Alias c) else s)"

definition OrderTerm_String :: "OrderTerm \<Rightarrow> string" where
  "OrderTerm_String t = Expr_String (ot_Expr t) @ (if ot_Desc t then '' DESC'' else '' ASC'')"

definition ColumnDef_String :: "ColumnDef \<Rightarrow> string" where
  "ColumnDef_String d =
     quoteIdent (cd_Name d) @ '' '' @ Kind_String (cd_Type d) @
     (if cd_PrimaryKey d then '' PRIMARY KEY'' else []) @
     (if cd_NotNull d \<and> \<not> cd_PrimaryKey d then '' NOT NULL'' else [])"

definition where_print :: "Expr option \<Rightarrow> string" where
  "where_print w = (case w of None \<Rightarrow> [] | Some e \<Rightarrow> '' WHERE '' @ Expr_String e)"

definition Insert_String :: "string \<Rightarrow> string list \<Rightarrow> Expr list list \<Rightarrow> string" where
  "Insert_String t cols rows =
     ''INSERT INTO '' @ quoteIdent t @
     (if cols \<noteq> [] then '' ('' @ Join '', '' (map quoteIdent cols) @ '')'' else []) @ '' VALUES '' @
     Join '', '' (map (\<lambda>row. ''('' @ Join '', '' (map Expr_String row) @ '')'') rows)"

definition Select_String :: "Select \<Rightarrow> string" where
  "Select_String s =
     ''SELECT '' @ (if s_Distinct s then ''DISTINCT '' else []) @
     Join '', '' (map ResultColumn_String (s_Columns s)) @ '' FROM '' @ quoteIdent (s_Table s) @
     where_print (s_Where s) @
     (if s_GroupBy s \<noteq> [] then '' GROUP BY '' @ Join '', '' (map Expr_String (s_GroupBy s)) else []) @
     (if s_OrderBy s \<noteq> [] then '' ORDER BY '' @ Join '', '' (map OrderTerm_String (s_OrderBy s)) else []) @
     (case s_Limit s of None \<Rightarrow> [] | Some e \<Rightarrow> '' LIMIT '' @ Expr_String e) @
     (case s_Offset s of None \<Rightarrow> [] | Some e \<Rightarrow> '' OFFSET '' @ Expr_String e)"

fun Stmt_String :: "Stmt \<Rightarrow> string" where
  "Stmt_String (CreateTableStmt t cols ine) =
     ''CREATE TABLE '' @ (if ine then ''IF NOT EXISTS '' else []) @ quoteIdent t @ '' ('' @
     Join '', '' (map ColumnDef_String cols) @ '')''"
| "Stmt_String (DropTableStmt t ie) = ''DROP TABLE '' @ (if ie then ''IF EXISTS '' else []) @ quoteIdent t"
| "Stmt_String (CreateIndexStmt name t col ine) =
     ''CREATE INDEX '' @ (if ine then ''IF NOT EXISTS '' else []) @ quoteIdent name @ '' ON '' @
     quoteIdent t @ '' ('' @ quoteIdent col @ '')''"
| "Stmt_String (DropIndexStmt name ie) =
     ''DROP INDEX '' @ (if ie then ''IF EXISTS '' else []) @ quoteIdent name"
| "Stmt_String (InsertStmt t cols rows) = Insert_String t cols rows"
| "Stmt_String (SelectStmt s) = Select_String s"
| "Stmt_String (UpdateStmt t sets w) =
     ''UPDATE '' @ quoteIdent t @ '' SET '' @
     Join '', '' (map (\<lambda>(c, e). quoteIdent c @ '' = '' @ Expr_String e) sets) @ where_print w"
| "Stmt_String (DeleteStmt t w) = ''DELETE FROM '' @ quoteIdent t @ where_print w"
| "Stmt_String (ExplainStmt s) = ''EXPLAIN '' @ Stmt_String s"
| "Stmt_String BeginStmt = ''BEGIN''"
| "Stmt_String CommitStmt = ''COMMIT''"
| "Stmt_String RollbackStmt = ''ROLLBACK''"

section \<open>Nodes of an expression\<close>

text \<open>Every node, parents before children, left to right: the order \<open>Inspect\<close> visits them in.\<close>

fun nodes :: "Expr \<Rightarrow> Expr list" where
  "nodes (EUnary op a) = EUnary op a # nodes a"
| "nodes (EBinary op l r) = EBinary op l r # nodes l @ nodes r"
| "nodes (EIsNull a n) = EIsNull a n # nodes a"
| "nodes (EBetween a lo hi n) = EBetween a lo hi n # nodes a @ nodes lo @ nodes hi"
| "nodes (EIn a items n) = EIn a items n # nodes a @ concat (map nodes items)"
| "nodes (ELike a p n) = ELike a p n # nodes a @ nodes p"
| "nodes (EFuncCall name arg star) =
     EFuncCall name arg star # (case arg of None \<Rightarrow> [] | Some a \<Rightarrow> nodes a)"
| "nodes e = [e]"

lemma nodes_self [simp]: "e \<in> set (nodes e)"
  by (cases e) auto

text \<open>One equation of \<open>Inspect\<close> per constructor.\<close>

abbreviation visit :: "('s \<Rightarrow> Expr \<Rightarrow> bool \<times> 's) \<Rightarrow> Expr \<Rightarrow> 's \<Rightarrow> ('s \<Rightarrow> 's) \<Rightarrow> 's" where
  "visit fn e s children \<equiv> (if fst (fn s e) then children (snd (fn s e)) else snd (fn s e))"

lemma Inspect_eqs [simp]:
  "Inspect fn (ELiteral v) s = visit fn (ELiteral v) s (\<lambda>s. s)"
  "Inspect fn (EColumn t n) s = visit fn (EColumn t n) s (\<lambda>s. s)"
  "Inspect fn EStar s = visit fn EStar s (\<lambda>s. s)"
  "Inspect fn (EUnary op a) s = visit fn (EUnary op a) s (Inspect fn a)"
  "Inspect fn (EBinary bop l r) s = visit fn (EBinary bop l r) s (\<lambda>s. Inspect fn r (Inspect fn l s))"
  "Inspect fn (EIsNull a neg) s = visit fn (EIsNull a neg) s (Inspect fn a)"
  "Inspect fn (EBetween a lo hi neg) s =
     visit fn (EBetween a lo hi neg) s (\<lambda>s. Inspect fn hi (Inspect fn lo (Inspect fn a s)))"
  "Inspect fn (EIn a items neg) s =
     visit fn (EIn a items neg) s (\<lambda>s. Inspect_list fn items (Inspect fn a s))"
  "Inspect fn (ELike a p neg) s = visit fn (ELike a p neg) s (\<lambda>s. Inspect fn p (Inspect fn a s))"
  "Inspect fn (EFuncCall name arg star) s =
     visit fn (EFuncCall name arg star) s (\<lambda>s. case arg of None \<Rightarrow> s | Some a \<Rightarrow> Inspect fn a s)"
  by (subst Inspect.simps, simp add: split_beta)+

lemma Inspect_list_foldl: "Inspect_list fn es s = foldl (\<lambda>s e. Inspect fn e s) s es"
  by (induction es arbitrary: s) simp_all

lemma foldl_concat_nodes:
  assumes "\<And>e s. e \<in> set es \<Longrightarrow> g s e = foldl f s (nodes e)"
  shows "foldl g s es = foldl f s (concat (map nodes es))"
  using assms by (induction es arbitrary: s) simp_all

lemma Inspect_foldl:
  assumes "\<And>s e. fst (fn s e)"
  shows "Inspect fn e s = foldl (\<lambda>s n. snd (fn s n)) s (nodes e)"
proof (induction e arbitrary: s)
  case (EIn a items n)
  have "Inspect fn (EIn a items n) s =
      foldl (\<lambda>s e. Inspect fn e s) (Inspect fn a (snd (fn s (EIn a items n)))) items"
    using assms by (simp add: Inspect_list_foldl)
  also have "\<dots> = foldl (\<lambda>s n. snd (fn s n)) (Inspect fn a (snd (fn s (EIn a items n)))) (concat (map nodes items))"
    by (rule foldl_concat_nodes) (rule EIn.IH(2))
  finally show ?case by (simp add: EIn.IH(1))
next
  case (EFuncCall name arg star)
  then show ?case using assms by (cases arg) simp_all
qed (simp_all add: assms)

text \<open>A callback that stops as soon as it has found a node with \<open>P\<close>.\<close>

definition flag_fn :: "(Expr \<Rightarrow> bool) \<Rightarrow> bool \<Rightarrow> Expr \<Rightarrow> bool \<times> bool" where
  "flag_fn P found n = (\<not> (P n \<or> found), P n \<or> found)"

lemma flag_fn_simps [simp]:
  "fst (flag_fn P found n) \<longleftrightarrow> \<not> (P n \<or> found)"
  "snd (flag_fn P found n) \<longleftrightarrow> P n \<or> found"
  by (simp_all add: flag_fn_def)

lemma foldl_found:
  assumes "\<And>e s. e \<in> set es \<Longrightarrow> g s e \<longleftrightarrow> s \<or> Q e"
  shows "foldl g s es \<longleftrightarrow> s \<or> (\<exists>e \<in> set es. Q e)"
  using assms by (induction es arbitrary: s) auto

lemma Inspect_flag: "Inspect (flag_fn P) e found \<longleftrightarrow> found \<or> (\<exists>n \<in> set (nodes e). P n)"
proof (induction e arbitrary: found)
  case (EIn a items n)
  have "foldl (\<lambda>s e. Inspect (flag_fn P) e s) s items \<longleftrightarrow> s \<or> (\<exists>e \<in> set items. \<exists>n \<in> set (nodes e). P n)" for s
    by (rule foldl_found) (rule EIn.IH(2))
  then show ?case using EIn.IH(1) by (auto simp: Inspect_list_foldl)
next
  case (EFuncCall name arg star)
  then show ?case by (cases arg) auto
qed auto

section \<open>What the traversals compute\<close>

fun is_column :: "string \<Rightarrow> Expr \<Rightarrow> bool" where
  "is_column name (EColumn _ n) \<longleftrightarrow> n = name"
| "is_column name _ \<longleftrightarrow> False"

fun is_call :: "Expr \<Rightarrow> bool" where
  "is_call (EFuncCall _ _ _) = True"
| "is_call _ = False"

fun needs_row :: "Expr \<Rightarrow> bool" where
  "needs_row (EColumn _ _) = True"
| "needs_row EStar = True"
| "needs_row (EFuncCall _ _ _) = True"
| "needs_row _ = False"

lemma Columns_iff: "name \<in> set (Columns e) \<longleftrightarrow> (\<exists>n \<in> set (nodes e). is_column name n)"
proof -
  let ?f = "\<lambda>out n. case n of EColumn t name \<Rightarrow> (True, if name \<in> set out then out else out @ [name]) | _ \<Rightarrow> (True, out)"
  have "name \<in> set (foldl (\<lambda>s n. snd (?f s n)) out ns) \<longleftrightarrow> name \<in> set out \<or> (\<exists>n \<in> set ns. is_column name n)"
    for ns out
  proof (induction ns arbitrary: out)
    case (Cons n ns)
    then show ?case by (cases n) auto
  qed simp
  moreover have "fst (?f s n)" for s n by (cases n) simp_all
  ultimately show ?thesis by (simp add: Columns_def Inspect_foldl [of ?f])
qed

lemma HasAggregate_iff: "HasAggregate e \<longleftrightarrow> (\<exists>n \<in> set (nodes e). is_call n)"
proof -
  have "(\<lambda>found n. let found' = (case n of EFuncCall _ _ _ \<Rightarrow> True | _ \<Rightarrow> found) in (\<not> found', found')) =
      flag_fn is_call"
    by (intro ext) (simp add: flag_fn_def split: Expr.split)
  then show ?thesis by (simp add: HasAggregate_def Inspect_flag)
qed

end
