(* ===== verification/Unicode.thy ===== *)
theory Unicode
  imports Prelude
begin

text \<open>
  What the sources use of Go's \<open>unicode/utf8\<close> and of the conversion \<open>[]rune(s)\<close>: decoding
  the first rune of a byte string with its width (an invalid byte decodes to the replacement
  character U+FFFD of width one), splitting a string into runes and counting them.
  The model follows the acceptance table of the package: two to four byte sequences in shortest
  form, no surrogates, nothing above U+10FFFF.
\<close>

definition rune_error :: nat where
  "rune_error = 0xFFFD"

definition cont_byte :: "nat \<Rightarrow> bool" where
  "cont_byte b \<longleftrightarrow> 0x80 \<le> b \<and> b \<le> 0xBF"

definition char_code :: "char \<Rightarrow> nat" where
  "char_code c = of_char c"

text \<open>\<open>utf8.DecodeRuneInString\<close> on a non-empty string: the rune and its width.\<close>

definition decode2 :: "nat \<Rightarrow> string \<Rightarrow> nat \<times> nat" where
  "decode2 b0 s = (case s of
     c1 # _ \<Rightarrow> if cont_byte (char_code c1) then ((b0 - 0xC0) * 64 + (char_code c1 - 0x80), 2)
               else (rune_error, 1)
   | _ \<Rightarrow> (rune_error, 1))"

definition decode3 :: "nat \<Rightarrow> string \<Rightarrow> nat \<times> nat" where
  "decode3 b0 s = (case s of
     c1 # c2 # _ \<Rightarrow>
       (let b1 = char_code c1; b2 = char_code c2;
            lo = (if b0 = 0xE0 then 0xA0 else 0x80); hi = (if b0 = 0xED then 0x9F else 0xBF)
        in if lo \<le> b1 \<and> b1 \<le> hi \<and> cont_byte b2
           then ((b0 - 0xE0) * 4096 + (b1 - 0x80) * 64 + (b2 - 0x80), 3) else (rune_error, 1))
   | _ \<Rightarrow> (rune_error, 1))"

definition decode4 :: "nat \<Rightarrow> string \<Rightarrow> nat \<times> nat" where
  "decode4 b0 s = (case s of
     c1 # c2 # c3 # _ \<Rightarrow>
       (let b1 = char_code c1; b2 = char_code c2; b3 = char_code c3;
            lo = (if b0 = 0xF0 then 0x90 else 0x80); hi = (if b0 = 0xF4 then 0x8F else 0xBF)
        in if lo \<le> b1 \<and> b1 \<le> hi \<and> cont_byte b2 \<and> cont_byte b3
           then ((b0 - 0xF0) * 262144 + (b1 - 0x80) * 4096 + (b2 - 0x80) * 64 + (b3 - 0x80), 4)
           else (rune_error, 1))
   | _ \<Rightarrow> (rune_error, 1))"

definition decode_rune :: "char \<Rightarrow> string \<Rightarrow> nat \<times> nat" where
  "decode_rune c s =
     (let b0 = char_code c in
      if b0 < 0x80 then (b0, 1)
      else if 0xC2 \<le> b0 \<and> b0 \<le> 0xDF then decode2 b0 s
      else if 0xE0 \<le> b0 \<and> b0 \<le> 0xEF then decode3 b0 s
      else if 0xF0 \<le> b0 \<and> b0 \<le> 0xF4 then decode4 b0 s
      else (rune_error, 1))"

text \<open>\<open>[]rune(s)\<close> and \<open>utf8.RuneCountInString\<close>.\<close>

fun runes :: "string \<Rightarrow> nat list" where
  "runes [] = []"
| "runes (c # s) = fst (decode_rune c s) # runes (drop (snd (decode_rune c s) - 1) s)"

declare runes.simps(2) [simp del]

definition RuneCount :: "string \<Rightarrow> nat" where
  "RuneCount s = length (runes s)"

definition is_ascii :: "string \<Rightarrow> bool" where
  "is_ascii s \<longleftrightarrow> (\<forall>c \<in> set s. char_code c < 128)"

lemma decode_rune_ascii [simp]: "char_code c < 128 \<Longrightarrow> decode_rune c s = (char_code c, 1)"
  by (simp add: decode_rune_def)

lemma runes_ascii: "is_ascii s \<Longrightarrow> runes s = map char_code s"
  by (induction s) (simp_all add: is_ascii_def runes.simps)

lemma RuneCount_ascii: "is_ascii s \<Longrightarrow> RuneCount s = length s"
  by (simp add: RuneCount_def runes_ascii)

lemma length_runes_le: "length (runes s) \<le> length s"
proof (induction s rule: runes.induct)
  case (2 c s)
  have "length (runes (drop (snd (decode_rune c s) - 1) s)) \<le> length s"
    using 2 by (rule le_trans) simp
  then show ?case by (simp add: runes.simps)
qed simp

end
