(* ===== verification/Lexer.thy ===== *)
theory Lexer
  imports Ast Unicode
begin

text \<open>
  The scanner of \<open>src/lexer/token.go\<close> and \<open>src/lexer/lexer.go\<close>: a byte cursor with line and column, one
  routine per token shape, positions on every token and on every error.  A byte is a \<open>char\<close>; the \<open>int\<close>
  counters of the source are natural numbers, since they never exceed the length of the text by more
  than one.  An error is returned beside the state it leaves behind, because the parser goes on
  calling a scanner that has failed.

  The letter case of runes outside ASCII comes from the tables of Go's \<open>unicode\<close> package; those two
  functions are the parameter \<open>casing\<close>.
\<close>

section \<open>Letter case\<close>

record casing =
  to_upper :: "nat \<Rightarrow> nat"
  to_lower :: "nat \<Rightarrow> nat"

definition upper_char :: "char \<Rightarrow> char" where
  "upper_char c = (if 97 \<le> char_code c \<and> char_code c \<le> 122 then char_of (char_code c - 32) else c)"

definition lower_char :: "char \<Rightarrow> char" where
  "lower_char c = (if 65 \<le> char_code c \<and> char_code c \<le> 90 then char_of (char_code c + 32) else c)"

text \<open>\<open>utf8.AppendRune\<close>: surrogates and values above U+10FFFF are written as U+FFFD.\<close>

definition append_rune :: "nat \<Rightarrow> string" where
  "append_rune r0 =
     (let r = (if 0x10FFFF < r0 \<or> 0xD800 \<le> r0 \<and> r0 \<le> 0xDFFF then rune_error else r0) in
      if r < 0x80 then [char_of r]
      else if r < 0x800 then [char_of (0xC0 + r div 64), char_of (0x80 + r mod 64)]
      else if r < 0x10000
        then [char_of (0xE0 + r div 4096), char_of (0x80 + r div 64 mod 64), char_of (0x80 + r mod 64)]
      else [char_of (0xF0 + r div 262144), char_of (0x80 + r div 4096 mod 64),
            char_of (0x80 + r div 64 mod 64), char_of (0x80 + r mod 64)])"

text \<open>\<open>strings.ToUpper\<close> and \<open>strings.ToLower\<close>: byte by byte on ASCII text, else rune by rune, where an
  invalid byte becomes U+FFFD.\<close>

definition map_runes :: "(nat \<Rightarrow> nat) \<Rightarrow> string \<Rightarrow> string" where
  "map_runes f s = concat (map (\<lambda>r. append_rune (f r)) (runes s))"

definition ToUpper :: "casing \<Rightarrow> string \<Rightarrow> string" where
  "ToUpper cs s =
     (if is_ascii s then map upper_char s
      else map_runes (\<lambda>r. if r < 128 then char_code (upper_char (char_of r)) else to_upper cs r) s)"

definition ToLower :: "casing \<Rightarrow> string \<Rightarrow> string" where
  "ToLower cs s =
     (if is_ascii s then map lower_char s
      else map_runes (\<lambda>r. if r < 128 then char_code (lower_char (char_of r)) else to_lower cs r) s)"

section \<open>Tokens\<close>

datatype TokenKind = TEOF | TIdent | TKeyword | TInt | TFloat | TString | TPunct

record Pos =
  p_Line :: nat
  p_Column :: nat
  p_Offset :: nat

record Token =
  tk_Kind :: TokenKind
  tk_Text :: string
  tk_Pos :: Pos

definition Token_Is :: "Token \<Rightarrow> string \<Rightarrow> bool" where
  "Token_Is t s \<longleftrightarrow> (tk_Kind t = TKeyword \<or> tk_Kind t = TPunct) \<and> tk_Text t = s"

text \<open>How tokens and positions read in messages; \<open>quoted\<close> is Go's \<open>%q\<close>.\<close>

definition TokenKind_String :: "TokenKind \<Rightarrow> string" where
  "TokenKind_String k =
     (case k of TEOF \<Rightarrow> ''end of input'' | TIdent \<Rightarrow> ''identifier'' | TKeyword \<Rightarrow> ''keyword'' | TInt \<Rightarrow> ''integer''
      | TFloat \<Rightarrow> ''float'' | TString \<Rightarrow> ''string'' | TPunct \<Rightarrow> ''operator'')"

definition Pos_String :: "Pos \<Rightarrow> string" where
  "Pos_String p = ''line '' @ nat_dec (p_Line p) @ '', column '' @ nat_dec (p_Column p)"

definition Describe :: "(string \<Rightarrow> string) \<Rightarrow> Token \<Rightarrow> string" where
  "Describe quoted t =
     (case tk_Kind t of
        TEOF \<Rightarrow> ''end of input''
      | TString \<Rightarrow> ''string '' @ quoted (tk_Text t)
      | TIdent \<Rightarrow> ''identifier '' @ quoted (tk_Text t)
      | TKeyword \<Rightarrow> ''keyword '' @ tk_Text t
      | _ \<Rightarrow> quoted (tk_Text t))"

definition Token_String :: "Token \<Rightarrow> string" where
  "Token_String t = TokenKind_String (tk_Kind t) @ ''('' @ tk_Text t @ '')''"

definition reserved :: "string list" where
  "reserved =
     [''AND'', ''AS'', ''ASC'', ''BEGIN'', ''BETWEEN'', ''BY'', ''COMMIT'', ''CREATE'', ''DELETE'',
      ''DESC'', ''DISTINCT'', ''DROP'', ''EXISTS'', ''EXPLAIN'', ''FALSE'', ''FROM'', ''GROUP'', ''IF'',
      ''IN'', ''INDEX'', ''INSERT'', ''INTO'', ''IS'', ''KEY'', ''LIKE'', ''LIMIT'', ''NOT'', ''NULL'',
      ''OFFSET'', ''ON'', ''OR'', ''ORDER'', ''PRIMARY'', ''ROLLBACK'', ''SELECT'', ''SET'', ''TABLE'',
      ''TRANSACTION'', ''TRUE'', ''UPDATE'', ''VALUES'', ''WHERE'']"

definition IsKeyword :: "casing \<Rightarrow> string \<Rightarrow> bool" where
  "IsKeyword cs word \<longleftrightarrow> ToUpper cs word \<in> set reserved"

text \<open>The messages of \<open>lexer.Error\<close>, with what they quote.\<close>

datatype lex_msg =
    UnterminatedComment
  | UnterminatedString
  | EmptyQuotedIdent
  | UnterminatedQuotedIdent
  | InvalidNumber string
  | UnexpectedCharacter nat
  | UnexpectedByte char

record lex_error =
  le_Msg :: lex_msg
  le_Pos :: Pos

section \<open>The cursor\<close>

record Lexer =
  lx_src :: string
  lx_pos :: nat
  lx_line :: nat
  lx_col :: nat

definition Lexer_New :: "string \<Rightarrow> Lexer" where
  "Lexer_New src = \<lparr>lx_src = src, lx_pos = 0, lx_line = 1, lx_col = 1\<rparr>"

definition mark :: "Lexer \<Rightarrow> Pos" where
  "mark l = \<lparr>p_Line = lx_line l, p_Column = lx_col l, p_Offset = lx_pos l\<rparr>"

definition newline :: char where
  "newline = CHR 0x0A"

definition advance :: "Lexer \<Rightarrow> char \<times> Lexer" where
  "advance l =
     (let c = lx_src l ! lx_pos l; l' = l\<lparr>lx_pos := lx_pos l + 1\<rparr> in
      (c, if c = newline then l'\<lparr>lx_line := lx_line l + 1, lx_col := 1\<rparr>
          else if char_code c < 0x80 \<or> 0xC0 \<le> char_code c then l'\<lparr>lx_col := lx_col l + 1\<rparr>
          else l'))"

definition at_end :: "Lexer \<Rightarrow> bool" where
  "at_end l \<longleftrightarrow> length (lx_src l) \<le> lx_pos l"

definition peekAt :: "Lexer \<Rightarrow> nat \<Rightarrow> char" where
  "peekAt l n = (if length (lx_src l) \<le> lx_pos l + n then CHR 0x00 else lx_src l ! (lx_pos l + n))"

definition peek :: "Lexer \<Rightarrow> char" where
  "peek l = (if at_end l then CHR 0x00 else lx_src l ! lx_pos l)"

definition lex_errorf :: "Pos \<Rightarrow> lex_msg \<Rightarrow> lex_error" where
  "lex_errorf pos msg = \<lparr>le_Msg = msg, le_Pos = pos\<rparr>"

definition is_alpha :: "char \<Rightarrow> bool" where
  "is_alpha c \<longleftrightarrow> 97 \<le> char_code c \<and> char_code c \<le> 122 \<or> 65 \<le> char_code c \<and> char_code c \<le> 90"

definition is_ident_start :: "char \<Rightarrow> bool" where
  "is_ident_start c \<longleftrightarrow> c = CHR ''_'' \<or> is_alpha c \<or> 0x80 \<le> char_code c"

definition is_ident_part :: "char \<Rightarrow> bool" where
  "is_ident_part c \<longleftrightarrow> is_ident_start c \<or> is_digit c"

definition is_space :: "char \<Rightarrow> bool" where
  "is_space c \<longleftrightarrow> char_code c \<in> {0x20, 0x09, 0x0A, 0x0D, 0x0C, 0x0B}"

lemma advance_simps [simp]:
  "lx_src (snd (advance l)) = lx_src l" "lx_pos (snd (advance l)) = Suc (lx_pos l)"
  "fst (advance l) = lx_src l ! lx_pos l"
  by (simp_all add: advance_def Let_def)

text \<open>The counters are right when the line is one more than the newlines read so far and the column one more
  than the runes begun since the last of them.\<close>

definition rune_start :: "char \<Rightarrow> bool" where
  "rune_start c \<longleftrightarrow> char_code c < 0x80 \<or> 0xC0 \<le> char_code c"

definition line_at :: "string \<Rightarrow> nat \<Rightarrow> nat" where
  "line_at s n = 1 + length (filter (\<lambda>c. c = newline) (take n s))"

definition column_at :: "string \<Rightarrow> nat \<Rightarrow> nat" where
  "column_at s n = 1 + length (filter rune_start (takeWhile (\<lambda>c. c \<noteq> newline) (rev (take n s))))"

definition lex_ok :: "Lexer \<Rightarrow> bool" where
  "lex_ok l \<longleftrightarrow> lx_pos l \<le> length (lx_src l) \<and> lx_line l = line_at (lx_src l) (lx_pos l) \<and>
     lx_col l = column_at (lx_src l) (lx_pos l)"

text \<open>What every routine does to the cursor: it stays on its text, never moves back, and keeps the
  counters right.\<close>

definition moved :: "Lexer \<Rightarrow> Lexer \<Rightarrow> bool" where
  "moved l l' \<longleftrightarrow> lx_src l' = lx_src l \<and> lx_pos l \<le> lx_pos l' \<and> (lex_ok l \<longrightarrow> lex_ok l')"

lemma moved_refl [simp, intro]: "moved l l"
  by (simp add: moved_def)

lemma moved_trans [trans]: "moved l m \<Longrightarrow> moved m n \<Longrightarrow> moved l n"
  by (simp add: moved_def)

lemma line_at_Suc: "n < length s \<Longrightarrow> line_at s (Suc n) = line_at s n + (if s ! n = newline then 1 else 0)"
  by (simp add: line_at_def take_Suc_conv_app_nth)

lemma column_at_Suc: "n < length s \<Longrightarrow> column_at s (Suc n) =
    (if s ! n = newline then 1 else column_at s n + (if rune_start (s ! n) then 1 else 0))"
  by (simp add: column_at_def take_Suc_conv_app_nth)

lemma moved_advance: "\<not> at_end l \<Longrightarrow> moved l (snd (advance l))"
  by (auto simp: moved_def lex_ok_def at_end_def advance_def Let_def line_at_Suc column_at_Suc rune_start_def)

lemma peekAt_inside: "peekAt l n \<noteq> CHR 0x00 \<Longrightarrow> lx_pos l + n < length (lx_src l)"
  by (simp add: peekAt_def split: if_splits)

lemma peekAt_0 [simp]: "peekAt l 0 = peek l"
  by (simp add: peekAt_def peek_def at_end_def)

lemma moved_twice: "peekAt l 1 \<noteq> CHR 0x00 \<Longrightarrow> moved l (snd (advance (snd (advance l))))"
  by (rule moved_trans [OF moved_advance moved_advance]) (auto simp: at_end_def dest: peekAt_inside)

lemma lex_ok_New [simp]: "lex_ok (Lexer_New src)"
  by (simp add: lex_ok_def Lexer_New_def line_at_def column_at_def)

text \<open>\<open>for p(l.peek()) { l.advance() }\<close>, for classes of bytes that exclude the zero byte which \<open>peek\<close>
  reports at the end, and the loop over a line comment, which tests for the end itself.\<close>

function advance_while :: "(char \<Rightarrow> bool) \<Rightarrow> Lexer \<Rightarrow> Lexer" where
  "advance_while p l =
     (if \<not> at_end l \<and> p (lx_src l ! lx_pos l) then advance_while p (snd (advance l)) else l)"
  by pat_completeness auto
termination
  by (relation "measure (\<lambda>(p, l). length (lx_src l) - lx_pos l)") (auto simp: at_end_def)

declare advance_while.simps [simp del]

lemma moved_advance_while: "moved l (advance_while p l)"
proof (induction p l rule: advance_while.induct)
  case (1 p l)
  show ?case
  proof (cases "\<not> at_end l \<and> p (lx_src l ! lx_pos l)")
    case True
    then show ?thesis
      using moved_trans [OF moved_advance 1] by (simp add: advance_while.simps [of p l])
  next
    case False
    then show ?thesis by (subst advance_while.simps) auto
  qed
qed

lemma advance_while_moves:
  assumes "\<not> at_end l" and "p (lx_src l ! lx_pos l)"
  shows "lx_pos l < lx_pos (advance_while p l)"
  using moved_advance_while [of "snd (advance l)" p] assms
  by (simp add: advance_while.simps [of p l] moved_def)

section \<open>Spaces and comments\<close>

text \<open>The rest of a block comment: was it closed?\<close>

function skip_block :: "Lexer \<Rightarrow> bool \<times> Lexer" where
  "skip_block l =
     (if at_end l then (False, l)
      else if lx_src l ! lx_pos l = CHR ''*'' \<and> peekAt l 1 = CHR ''/''
        then (True, snd (advance (snd (advance l))))
      else skip_block (snd (advance l)))"
  by pat_completeness auto
termination
  by (relation "measure (\<lambda>l. length (lx_src l) - lx_pos l)") (auto simp: at_end_def)

declare skip_block.simps [simp del]

lemma moved_skip_block: "moved l (snd (skip_block l))"
proof (induction l rule: skip_block.induct)
  case (1 l)
  show ?case
    using moved_trans [OF moved_advance 1] moved_twice [of l]
    by (auto simp: skip_block.simps [of l])
qed

lemma moved_skip_block': "(c, l') = skip_block l \<Longrightarrow> moved l l'"
  by (metis moved_skip_block snd_conv)

function skipSpaceAndComments :: "Lexer \<Rightarrow> lex_error option \<times> Lexer" where
  "skipSpaceAndComments l =
     (if at_end l then (None, l)
      else
        (let c = lx_src l ! lx_pos l in
         if is_space c then skipSpaceAndComments (snd (advance l))
         else if c = CHR ''-'' \<and> peekAt l 1 = CHR ''-''
           then skipSpaceAndComments (advance_while (\<lambda>c. c \<noteq> newline) l)
         else if c = CHR ''/'' \<and> peekAt l 1 = CHR ''*'' then
           (case skip_block (snd (advance (snd (advance l)))) of
              (is_closed, l') \<Rightarrow>
                if \<not> is_closed then (Some (lex_errorf (mark l) UnterminatedComment), l')
                else skipSpaceAndComments l')
         else (None, l)))"
  by pat_completeness auto

termination
proof (relation "measure (\<lambda>l. length (lx_src l) - lx_pos l)", goal_cases)
  case (3 l c)
  then have "lx_pos l < lx_pos (advance_while (\<lambda>c. c \<noteq> newline) l)"
    by (intro advance_while_moves) (auto simp: newline_def)
  then show ?case
    using 3 moved_advance_while [of l "\<lambda>c. c \<noteq> newline"] by (simp add: at_end_def moved_def)
next
  case 4
  then show ?case
    by (auto simp: at_end_def moved_def dest!: moved_skip_block')
qed (simp_all add: at_end_def)

declare skipSpaceAndComments.simps [simp del]

lemma moved_skip: "moved l (snd (skipSpaceAndComments l))"
proof (induction l rule: skipSpaceAndComments.induct)
  case (1 l)
  have block: "moved l (snd (skip_block (snd (advance (snd (advance l))))))" if "peekAt l 1 = CHR ''*''"
    using that moved_trans [OF moved_twice moved_skip_block] by simp
  show ?case
    using 1 block moved_advance [of l] moved_advance_while [of l "\<lambda>c. c \<noteq> newline"]
    by (auto simp: skipSpaceAndComments.simps [of l] Let_def split: prod.splits intro: moved_trans)
qed

section \<open>Token shapes\<close>

definition squote :: char where
  "squote = CHR 0x27"

lemma squote_not_zero [simp]: "CHR 0x00 \<noteq> squote" "squote \<noteq> CHR 0x00"
  by (simp_all add: squote_def)

definition token_at :: "TokenKind \<Rightarrow> string \<Rightarrow> Pos \<Rightarrow> Token" where
  "token_at k text pos = \<lparr>tk_Kind = k, tk_Text = text, tk_Pos = pos\<rparr>"

text \<open>What a backslash and the byte behind it stand for.\<close>

definition unescape :: "char \<Rightarrow> string" where
  "unescape e =
     (if e = CHR ''n'' then [newline] else if e = CHR ''t'' then [CHR 0x09]
      else if e = CHR ''r'' then [CHR 0x0D] else if e = CHR ''0'' then [CHR 0x00]
      else if e = CHR 0x5C \<or> e = squote \<or> e = CHR 0x22 then [e] else [CHR 0x5C, e])"

function string_loop :: "Pos \<Rightarrow> string \<Rightarrow> Lexer \<Rightarrow> (lex_error + Token) \<times> Lexer" where
  "string_loop start sb l =
     (if at_end l then (Inl (lex_errorf start UnterminatedString), l)
      else
        (let c = fst (advance l); l1 = snd (advance l) in
         if c = squote then
           (if peek l1 = squote then string_loop start (sb @ [squote]) (snd (advance l1))
            else (Inr (token_at TString sb start), l1))
         else if c = CHR 0x5C then
           (if at_end l1 then (Inl (lex_errorf start UnterminatedString), l1)
            else string_loop start (sb @ unescape (fst (advance l1))) (snd (advance l1)))
         else string_loop start (sb @ [c]) l1))"
  by pat_completeness auto
termination
  by (relation "measure (\<lambda>(start, sb, l). length (lx_src l) - lx_pos l)") (auto simp: at_end_def)

declare string_loop.simps [simp del]

definition lexString :: "Pos \<Rightarrow> Lexer \<Rightarrow> (lex_error + Token) \<times> Lexer" where
  "lexString start l = string_loop start [] (snd (advance l))"

function ident_loop :: "Pos \<Rightarrow> string \<Rightarrow> Lexer \<Rightarrow> (lex_error + Token) \<times> Lexer" where
  "ident_loop start sb l =
     (if at_end l then (Inl (lex_errorf start UnterminatedQuotedIdent), l)
      else
        (let c = fst (advance l); l1 = snd (advance l) in
         if c \<noteq> CHR 0x22 then ident_loop start (sb @ [c]) l1
         else if peek l1 = CHR 0x22 then ident_loop start (sb @ [CHR 0x22]) (snd (advance l1))
         else if sb = [] then (Inl (lex_errorf start EmptyQuotedIdent), l1)
         else (Inr (token_at TIdent sb start), l1)))"
  by pat_completeness auto
termination
  by (relation "measure (\<lambda>(start, sb, l). length (lx_src l) - lx_pos l)") (auto simp: at_end_def)

declare ident_loop.simps [simp del]

definition lexQuotedIdent :: "Pos \<Rightarrow> Lexer \<Rightarrow> (lex_error + Token) \<times> Lexer" where
  "lexQuotedIdent start l = ident_loop start [] (snd (advance l))"

text \<open>\<open>l.src[start.Offset:l.pos]\<close>\<close>

definition spelled :: "Pos \<Rightarrow> Lexer \<Rightarrow> string" where
  "spelled start l = drop (p_Offset start) (take (lx_pos l) (lx_src l))"

definition lex_fraction :: "Lexer \<Rightarrow> TokenKind \<times> Lexer" where
  "lex_fraction l =
     (if peek l = CHR ''.'' \<and> is_digit (peekAt l 1)
      then (TFloat, advance_while is_digit (snd (advance l))) else (TInt, l))"

definition lex_exponent :: "TokenKind \<Rightarrow> Lexer \<Rightarrow> TokenKind \<times> Lexer" where
  "lex_exponent kind l =
     (if (peek l = CHR ''e'' \<or> peek l = CHR ''E'') \<and>
         (is_digit (peekAt l 1) \<or>
          (peekAt l 1 = CHR ''+'' \<or> peekAt l 1 = CHR ''-'') \<and> is_digit (peekAt l 2))
      then (TFloat, advance_while is_digit (snd (advance (snd (advance l))))) else (kind, l))"

definition lexNumber :: "Pos \<Rightarrow> Lexer \<Rightarrow> (lex_error + Token) \<times> Lexer" where
  "lexNumber start l0 =
     (let (kind1, l1) = lex_fraction (advance_while is_digit l0);
          (kind, l) = lex_exponent kind1 l1;
          text = spelled start l
      in if is_ident_start (peek l)
         then (Inl (lex_errorf start (InvalidNumber (text @ append_rune (char_code (peek l))))), l)
         else (Inr (token_at kind text start), l))"

definition lexWord :: "casing \<Rightarrow> Pos \<Rightarrow> Lexer \<Rightarrow> (lex_error + Token) \<times> Lexer" where
  "lexWord cs start l0 =
     (let l = advance_while is_ident_part l0; word = spelled start l; upper = ToUpper cs word in
      if upper \<in> set reserved then (Inr (token_at TKeyword upper start), l)
      else (Inr (token_at TIdent (ToLower cs word) start), l))"

definition operators :: "string list" where
  "operators = [''<='', ''>='', ''<>'', ''!='', ''=='', ''||'']"

text \<open>A byte above ASCII starts a word, so \<open>unicode.IsPrint\<close> is asked about ASCII runes only.\<close>

definition is_print_ascii :: "nat \<Rightarrow> bool" where
  "is_print_ascii r \<longleftrightarrow> 0x20 \<le> r \<and> r \<le> 0x7E"

definition lexPunct :: "Pos \<Rightarrow> Lexer \<Rightarrow> (lex_error + Token) \<times> Lexer" where
  "lexPunct start l =
     (case find (\<lambda>op. prefix op (drop (lx_pos l) (lx_src l))) operators of
        Some op \<Rightarrow> (Inr (token_at TPunct op start), snd (advance (snd (advance l))))
      | None \<Rightarrow>
          (let c = fst (advance l); l1 = snd (advance l) in
           if c \<in> set ''=<>+-*/%(),;.'' then (Inr (token_at TPunct [c] start), l1)
           else
             (let r = fst (decode_rune c (drop (p_Offset start + 1) (lx_src l))) in
              if is_print_ascii r then (Inl (lex_errorf start (UnexpectedCharacter r)), l1)
              else (Inl (lex_errorf start (UnexpectedByte c)), l1))))"

section \<open>The token stream\<close>

definition lex_token :: "casing \<Rightarrow> Lexer \<Rightarrow> (lex_error + Token) \<times> Lexer" where
  "lex_token cs l =
     (let start = mark l in
      if at_end l then (Inr (token_at TEOF [] start), l)
      else
        (let c = lx_src l ! lx_pos l in
         if c = squote then lexString start l
         else if c = CHR 0x22 then lexQuotedIdent start l
         else if is_digit c then lexNumber start l
         else if is_ident_start c then lexWord cs start l
         else lexPunct start l))"

definition Lexer_Next :: "casing \<Rightarrow> Lexer \<Rightarrow> (lex_error + Token) \<times> Lexer" where
  "Lexer_Next cs l =
     (case skipSpaceAndComments l of
        (Some e, l') \<Rightarrow> (Inl e, l')
      | (None, l') \<Rightarrow> lex_token cs l')"

lemma moved_string_loop: "moved l (snd (string_loop start sb l))"
proof (induction start sb l rule: string_loop.induct)
  case (1 start sb l)
  have "moved l (snd (advance (snd (advance l))))" if "\<not> at_end l" "\<not> at_end (snd (advance l))"
    using moved_trans [OF moved_advance moved_advance] that .
  moreover have "\<not> at_end (snd (advance l))" if "peek (snd (advance l)) = squote"
    using that by (auto simp: peek_def squote_def split: if_splits)
  ultimately show ?case
    using 1 moved_advance [of l]
    by (auto simp: string_loop.simps [of start sb l] Let_def simp del: advance_simps(3) intro: moved_trans)
qed

lemma moved_ident_loop: "moved l (snd (ident_loop start sb l))"
proof (induction start sb l rule: ident_loop.induct)
  case (1 start sb l)
  have "moved l (snd (advance (snd (advance l))))"
    if "\<not> at_end l" "peek (snd (advance l)) = CHR 0x22"
    using that by (intro moved_trans [OF moved_advance moved_advance]) (auto simp: peek_def split: if_splits)
  then show ?case
    using 1 moved_advance [of l]
    by (auto simp: ident_loop.simps [of start sb l] Let_def simp del: advance_simps(3) intro: moved_trans)
qed

lemma moved_lexNumber: "moved l (snd (lexNumber start l))"
proof -
  have fraction: "moved m (snd (lex_fraction m))" for m
    using moved_trans [OF moved_advance moved_advance_while, of m is_digit]
    by (auto simp: lex_fraction_def peek_def split: if_splits)
  have exponent: "moved m (snd (lex_exponent k m))" for k m
  proof -
    have "peekAt m 1 \<noteq> CHR 0x00"
      if "is_digit (peekAt m 1) \<or> (peekAt m 1 = CHR ''+'' \<or> peekAt m 1 = CHR ''-'') \<and> is_digit (peekAt m 2)"
      using that by (auto simp: is_digit_def)
    then show ?thesis
      using moved_trans [OF moved_twice moved_advance_while, of m is_digit] by (auto simp: lex_exponent_def)
  qed
  have "moved l (snd (lex_exponent k (snd (lex_fraction (advance_while is_digit l)))))" for k
    by (rule moved_trans [OF moved_advance_while moved_trans [OF fraction exponent]])
  then show ?thesis by (simp add: lexNumber_def Let_def case_prod_beta)
qed

lemma operators_length: "find p operators = Some op \<Longrightarrow> length op = 2"
  by (auto simp: operators_def split: if_splits)

lemma moved_lexPunct: "\<not> at_end l \<Longrightarrow> moved l (snd (lexPunct start l))"
proof -
  assume l: "\<not> at_end l"
  have two: "\<not> at_end (snd (advance l))"
    if "find (\<lambda>op. prefix op (drop (lx_pos l) (lx_src l))) operators = Some op" for op
  proof -
    have "prefix op (drop (lx_pos l) (lx_src l))" using that by (auto simp: find_Some_iff)
    then have "2 \<le> length (drop (lx_pos l) (lx_src l))"
      using prefix_length_le operators_length [OF that] by metis
    then show ?thesis by (simp add: at_end_def)
  qed
  then show ?thesis
    using moved_advance [OF l] moved_trans [OF moved_advance [OF l] moved_advance]
    by (auto simp: lexPunct_def Let_def split: option.split)
qed

text \<open>A token stands where it was found, and every token but the end of the input takes at least one byte.\<close>

definition token_from :: "Lexer \<Rightarrow> lex_error + Token \<Rightarrow> Lexer \<Rightarrow> bool" where
  "token_from l r l' \<longleftrightarrow> moved l l' \<and>
     (case r of
        Inl e \<Rightarrow> le_Pos e = mark l
      | Inr tok \<Rightarrow> tk_Pos tok = mark l \<and> (tk_Kind tok = TEOF \<longleftrightarrow> at_end l) \<and>
          (tk_Kind tok \<noteq> TEOF \<longrightarrow> lx_pos l < lx_pos l'))"

lemma token_at_simps [simp]:
  "tk_Kind (token_at k s pos) = k" "tk_Text (token_at k s pos) = s" "tk_Pos (token_at k s pos) = pos"
  by (simp_all add: token_at_def)

lemma lex_errorf_simps [simp]: "le_Pos (lex_errorf pos msg) = pos" "le_Msg (lex_errorf pos msg) = msg"
  by (simp_all add: lex_errorf_def)

definition stands_at :: "Pos \<Rightarrow> lex_error + Token \<Rightarrow> bool" where
  "stands_at start r \<longleftrightarrow>
     (case r of Inl e \<Rightarrow> le_Pos e = start | Inr tok \<Rightarrow> tk_Pos tok = start \<and> tk_Kind tok \<noteq> TEOF)"

lemma token_fromI:
  "\<not> at_end l \<Longrightarrow> moved l l' \<Longrightarrow> stands_at (mark l) r \<Longrightarrow> lx_pos l < lx_pos l' \<Longrightarrow> token_from l r l'"
  by (auto simp: token_from_def stands_at_def split: sum.splits)

lemma stands_string: "stands_at start (fst (string_loop start sb l))"
  by (induction start sb l rule: string_loop.induct)
    (subst string_loop.simps, auto simp: Let_def stands_at_def simp del: advance_simps(3))

lemma stands_ident: "stands_at start (fst (ident_loop start sb l))"
  by (induction start sb l rule: ident_loop.induct)
    (subst ident_loop.simps, auto simp: Let_def stands_at_def simp del: advance_simps(3))

lemma stands_number: "stands_at start (fst (lexNumber start l))"
  by (auto simp: lexNumber_def lex_fraction_def lex_exponent_def stands_at_def Let_def)

lemma stands_word: "stands_at start (fst (lexWord cs start l))"
  by (auto simp: lexWord_def stands_at_def Let_def)

lemma stands_punct: "stands_at start (fst (lexPunct start l))"
  by (auto simp: lexPunct_def stands_at_def Let_def split: option.split)

lemma lexNumber_moves:
  assumes "\<not> at_end l" and "is_digit (lx_src l ! lx_pos l)"
  shows "lx_pos l < lx_pos (snd (lexNumber start l))"
proof -
  let ?m = "advance_while is_digit l"
  have "lx_pos ?m \<le> lx_pos (snd (lexNumber start l))"
  proof -
    have "lx_pos m \<le> lx_pos (snd (lex_fraction m))" "lx_pos m \<le> lx_pos (snd (lex_exponent k m))" for m k
      using moved_advance_while [of "snd (advance m)" is_digit]
        moved_advance_while [of "snd (advance (snd (advance m)))" is_digit]
      by (auto simp: lex_fraction_def lex_exponent_def moved_def)
    then show ?thesis by (auto simp: lexNumber_def Let_def case_prod_beta intro: le_trans)
  qed
  then show ?thesis using advance_while_moves [of l is_digit] assms by simp
qed

lemma moved_past: "moved (snd (advance l)) m \<Longrightarrow> \<not> at_end l \<Longrightarrow> moved l m \<and> lx_pos l < lx_pos m"
  using moved_trans [OF moved_advance] by (auto simp: moved_def)

lemma lex_token_from: "token_from l (fst (lex_token cs l)) (snd (lex_token cs l))"
proof (cases "at_end l")
  case True
  then show ?thesis by (simp add: lex_token_def token_from_def)
next
  case False
  note start = False
  let ?l = "snd (advance l)"
  have loops: "moved l (snd (string_loop (mark l) [] ?l))" "moved l (snd (ident_loop (mark l) [] ?l))"
    "lx_pos l < lx_pos (snd (string_loop (mark l) [] ?l))" "lx_pos l < lx_pos (snd (ident_loop (mark l) [] ?l))"
    using moved_past [OF moved_string_loop start] moved_past [OF moved_ident_loop start] by blast+
  have word: "lx_pos l < lx_pos (snd (lexWord cs (mark l) l))" "moved l (snd (lexWord cs (mark l) l))"
    if "is_ident_start (lx_src l ! lx_pos l)"
    using advance_while_moves [of l is_ident_part] moved_advance_while [of l is_ident_part] that start
    by (auto simp: lexWord_def Let_def is_ident_part_def)
  have punct: "lx_pos l < lx_pos (snd (lexPunct (mark l) l))"
    by (auto simp: lexPunct_def Let_def split: option.split)
  show ?thesis
    using start loops word punct
    by (auto simp: lex_token_def lexString_def lexQuotedIdent_def Let_def moved_lexNumber moved_lexPunct
        lexNumber_moves stands_string stands_ident stands_number stands_word stands_punct intro!: token_fromI)
qed

lemma Next_token:
  obtains m where "moved l m"
    and "(\<exists>e. skipSpaceAndComments l = (Some e, m) \<and> Lexer_Next cs l = (Inl e, m)) \<or>
      skipSpaceAndComments l = (None, m) \<and> token_from m (fst (Lexer_Next cs l)) (snd (Lexer_Next cs l))"
  using moved_skip [of l] lex_token_from [of _ cs] that
  by (cases "skipSpaceAndComments l"; cases "fst (skipSpaceAndComments l)") (auto simp: Lexer_Next_def)

lemma moved_Next: "moved l (snd (Lexer_Next cs l))"
  by (rule Next_token [of l cs]) (auto simp: token_from_def intro: moved_trans)

lemma Next_progress:
  assumes "Lexer_Next cs l = (Inr tok, l')" and "tk_Kind tok \<noteq> TEOF"
  shows "lx_pos l < lx_pos l' \<and> lx_pos l < length (lx_src l)"
  using assms by (rule_tac Next_token [of l cs]) (auto simp: token_from_def moved_def at_end_def)

function tokenize_loop :: "casing \<Rightarrow> Token list \<Rightarrow> Lexer \<Rightarrow> lex_error + Token list" where
  "tokenize_loop cs out l =
     (case Lexer_Next cs l of
        (Inl e, l') \<Rightarrow> Inl e
      | (Inr tok, l') \<Rightarrow>
          if tk_Kind tok = TEOF then Inr (out @ [tok]) else tokenize_loop cs (out @ [tok]) l')"
  by pat_completeness auto
termination
proof (relation "measure (\<lambda>(cs, out, l). length (lx_src l) - lx_pos l)", goal_cases)
  case (2 cs out l r l' tok)
  then have "Lexer_Next cs l = (Inr tok, l')" and "tk_Kind tok \<noteq> TEOF" by simp_all
  then show ?case
    using Next_progress [of cs l tok l'] moved_Next [of l cs] by (auto simp: moved_def)
qed simp

declare tokenize_loop.simps [simp del]

definition Tokenize :: "casing \<Rightarrow> string \<Rightarrow> lex_error + Token list" where
  "Tokenize cs src = tokenize_loop cs [] (Lexer_New src)"

section \<open>Positions\<close>

definition exact_pos :: "string \<Rightarrow> Pos \<Rightarrow> bool" where
  "exact_pos src p \<longleftrightarrow> p_Offset p \<le> length src \<and> p_Line p = line_at src (p_Offset p) \<and>
     p_Column p = column_at src (p_Offset p)"

definition token_offset :: "Token \<Rightarrow> nat" where
  "token_offset t = p_Offset (tk_Pos t)"

lemma exact_mark: "lex_ok l \<Longrightarrow> exact_pos (lx_src l) (mark l)"
  by (simp add: lex_ok_def exact_pos_def mark_def)

lemma skip_error_exact:
  assumes "skipSpaceAndComments l = (Some e, m)" and "lex_ok l"
  shows "exact_pos (lx_src l) (le_Pos e)"
  using assms
proof (induction l rule: skipSpaceAndComments.induct)
  case (1 l)
  have block: "moved l (snd (skip_block (snd (advance (snd (advance l))))))" if "peekAt l 1 = CHR ''*''"
    using that moved_trans [OF moved_twice moved_skip_block] by simp
  show ?case
    using 1 block moved_advance [of l] moved_advance_while [of l "\<lambda>c. c \<noteq> newline"] exact_mark [of l]
    by (auto simp: skipSpaceAndComments.simps [of l] Let_def moved_def split: prod.splits if_splits)
qed

lemma Next_exact:
  assumes "lex_ok l"
  shows "case Lexer_Next cs l of
      (Inl e, l') \<Rightarrow> exact_pos (lx_src l) (le_Pos e)
    | (Inr tok, l') \<Rightarrow> exact_pos (lx_src l) (tk_Pos tok) \<and> lx_pos l \<le> token_offset tok \<and> lex_ok l' \<and>
        (tk_Kind tok = TEOF \<longleftrightarrow> token_offset tok = length (lx_src l)) \<and>
        (tk_Kind tok \<noteq> TEOF \<longrightarrow> token_offset tok < lx_pos l') \<and> lx_src l' = lx_src l"
proof (rule Next_token [of l cs])
  fix m
  assume m: "moved l m" and nx: "(\<exists>e. skipSpaceAndComments l = (Some e, m) \<and> Lexer_Next cs l = (Inl e, m)) \<or>
      skipSpaceAndComments l = (None, m) \<and> token_from m (fst (Lexer_Next cs l)) (snd (Lexer_Next cs l))"
  have "lex_ok m" "lx_src m = lx_src l" using m assms by (simp_all add: moved_def)
  then show ?thesis
    using nx m skip_error_exact [OF _ assms] exact_mark [of m]
    by (auto simp: token_from_def moved_def token_offset_def mark_def at_end_def lex_ok_def
        split: prod.splits sum.splits)
qed

definition stream_ok :: "string \<Rightarrow> Token list \<Rightarrow> bool" where
  "stream_ok src toks \<longleftrightarrow> sorted_wrt (<) (map token_offset toks) \<and> list_all (\<lambda>t. exact_pos src (tk_Pos t)) toks"

lemma tokenize_loop_ok:
  assumes "lex_ok l" and "stream_ok (lx_src l) out" and "\<forall>t \<in> set out. token_offset t < lx_pos l \<and> tk_Kind t \<noteq> TEOF"
  shows "case tokenize_loop cs out l of
      Inl e \<Rightarrow> exact_pos (lx_src l) (le_Pos e)
    | Inr toks \<Rightarrow> stream_ok (lx_src l) toks \<and> toks \<noteq> [] \<and> token_offset (last toks) = length (lx_src l) \<and>
        list_all (\<lambda>t. tk_Kind t \<noteq> TEOF) (butlast toks) \<and> tk_Kind (last toks) = TEOF"
  using assms
proof (induction cs out l rule: tokenize_loop.induct)
  case (1 cs out l)
  note exact = Next_exact [OF 1(2), of cs]
  show ?case
  proof (cases "Lexer_Next cs l")
    case (Pair r l')
    show ?thesis
    proof (cases r)
      case (Inl e)
      then show ?thesis using exact Pair by (simp add: tokenize_loop.simps [of cs out l])
    next
      case (Inr tok)
      have out: "stream_ok (lx_src l) (out @ [tok])"
        using 1(3,4) exact Pair Inr by (auto simp: stream_ok_def sorted_wrt_append)
      show ?thesis
      proof (cases "tk_Kind tok = TEOF")
        case True
        then show ?thesis
          using out exact Pair Inr 1(4) by (simp add: tokenize_loop.simps [of cs out l] list_all_iff)
      next
        case False
        have "\<forall>t \<in> set (out @ [tok]). token_offset t < lx_pos l' \<and> tk_Kind t \<noteq> TEOF"
          using 1(4) exact Pair Inr False by (auto intro: less_le_trans)
        then show ?thesis
          using 1(1) [OF Pair [symmetric] Inr False] out exact Pair Inr False
          by (auto simp: tokenize_loop.simps [of cs out l] split: sum.splits)
      qed
    qed
  qed
qed

text \<open>C40: Scanning a text always ends: in an error at an exact position, or in a list of tokens closed by the
  only end-of-input token, which stands behind the last byte; the offsets increase strictly, and every
  line and column is the one counted from the text.\<close>

theorem Tokenize_positions:
  "case Tokenize cs src of
     Inl e \<Rightarrow> exact_pos src (le_Pos e)
   | Inr toks \<Rightarrow> toks \<noteq> [] \<and> tk_Kind (last toks) = TEOF \<and> token_offset (last toks) = length src \<and>
       list_all (\<lambda>t. tk_Kind t \<noteq> TEOF) (butlast toks) \<and> sorted_wrt (<) (map token_offset toks) \<and>
       list_all (\<lambda>t. exact_pos src (tk_Pos t)) toks"
proof -
  have "lx_src (Lexer_New src) = src" by (simp add: Lexer_New_def)
  then show ?thesis
    using tokenize_loop_ok [of "Lexer_New src" "[]" cs]
    by (auto simp: Tokenize_def stream_ok_def split: sum.splits)
qed

section \<open>Reading back what is left\<close>

definition rest_of :: "Lexer \<Rightarrow> string" where
  "rest_of l = drop (lx_pos l) (lx_src l)"

lemma at_end_rest: "at_end l \<longleftrightarrow> rest_of l = []"
  by (simp add: at_end_def rest_of_def)

lemma rest_advance [simp]: "rest_of (snd (advance l)) = tl (rest_of l)"
  by (simp add: rest_of_def drop_Suc tl_drop)

lemma cursor_rest: "rest_of l = c # s \<Longrightarrow> lx_src l ! lx_pos l = c"
  by (metis drop_eq_Nil hd_drop_conv_nth linorder_not_le list.discI list.sel(1) rest_of_def)

lemma peek_rest: "peek l = (case rest_of l of [] \<Rightarrow> CHR 0x00 | c # _ \<Rightarrow> c)"
  by (auto simp: peek_def at_end_rest cursor_rest split: list.split)

lemma string_loop_literal:
  assumes "rest_of l = double_char squote s @ squote # rest" and "CHR 0x5C \<notin> set s"
    and "\<forall>rest'. rest \<noteq> squote # rest'"
  shows "fst (string_loop start sb l) = Inr (token_at TString (sb @ s) start) \<and>
    rest_of (snd (string_loop start sb l)) = rest"
  using assms(1,2)
proof (induction s arbitrary: sb l)
  case Nil
  then show ?case
    using assms(3) cursor_rest [of l]
    by (subst (1 2) string_loop.simps) (auto simp: at_end_rest peek_rest Let_def split: list.split)
next
  case (Cons c s)
  have next_byte: "rest_of l = c # tl (rest_of l)" using Cons.prems by (simp split: if_splits)
  show ?case
  proof (cases "c = squote")
    case True
    then have "rest_of l = squote # squote # double_char squote s @ squote # rest" using Cons.prems by simp
    then show ?thesis
      using Cons.IH [of "snd (advance (snd (advance l)))" "sb @ [squote]"] Cons.prems(2) cursor_rest [of l] True
      by (subst (1 2) string_loop.simps) (auto simp: at_end_rest peek_rest Let_def)
  next
    case False
    then have "rest_of l = c # double_char squote s @ squote # rest" using Cons.prems by simp
    then show ?thesis
      using Cons.IH [of "snd (advance l)" "sb @ [c]"] Cons.prems(2) cursor_rest [of l] False
      by (subst (1 2) string_loop.simps) (auto simp: at_end_rest peek_rest Let_def)
  qed
qed

lemma skip_at_token:
  assumes "rest_of l = c # s" and "\<not> is_space c" and "c \<noteq> CHR ''-''" and "c \<noteq> CHR ''/''"
  shows "skipSpaceAndComments l = (None, l)"
  using assms cursor_rest [OF assms(1)] by (simp add: skipSpaceAndComments.simps [of l] at_end_rest)

lemma Next_at_end: "rest_of l = [] \<Longrightarrow> Lexer_Next cs l = (Inr (token_at TEOF [] (mark l)), l)"
  by (simp add: Lexer_Next_def skipSpaceAndComments.simps [of l] lex_token_def at_end_rest Let_def)

lemma Next_literal:
  assumes "rest_of l = Value_SQL (VText s) @ rest" and "CHR 0x5C \<notin> set s"
    and "\<forall>rest'. rest \<noteq> squote # rest'"
  shows "fst (Lexer_Next cs l) = Inr (token_at TString s (mark l)) \<and> rest_of (snd (Lexer_Next cs l)) = rest"
proof -
  have l: "rest_of l = squote # double_char squote s @ squote # rest"
    using assms(1) by (simp add: Value_SQL_def squote_def)
  have "skipSpaceAndComments l = (None, l)"
    by (rule skip_at_token [OF l]) (simp_all add: is_space_def squote_def char_code_def)
  then show ?thesis
    using string_loop_literal [of "snd (advance l)" s rest "mark l" "[]"] assms(2,3) l cursor_rest [OF l]
    by (simp add: Lexer_Next_def lex_token_def lexString_def at_end_rest Let_def)
qed

text \<open>A text value printed as a SQL literal scans back to exactly that value when it holds no backslash.\<close>

theorem literal_scans_back:
  assumes "CHR 0x5C \<notin> set s"
  shows "\<exists>end_pos. Tokenize cs (Value_SQL (VText s)) =
    Inr [token_at TString s (mark (Lexer_New [])), token_at TEOF [] end_pos]"
proof -
  let ?l = "Lexer_New (Value_SQL (VText s))"
  have "rest_of ?l = Value_SQL (VText s) @ []" by (simp add: Lexer_New_def rest_of_def)
  from Next_literal [OF this assms, of cs]
  obtain l' where "Lexer_Next cs ?l = (Inr (token_at TString s (mark ?l)), l')" "rest_of l' = []"
    by (cases "Lexer_Next cs ?l") auto
  moreover have "mark ?l = mark (Lexer_New [])" by (simp add: Lexer_New_def mark_def)
  ultimately show ?thesis
    by (simp add: Tokenize_def tokenize_loop.simps [of cs "[]"] tokenize_loop.simps [of cs "_ # _"] Next_at_end)
      blast
qed

theorem literal_scans_back_witness:
  "\<exists>end_pos. Tokenize \<lparr>to_upper = (\<lambda>r. r), to_lower = (\<lambda>r. r)\<rparr> (Value_SQL (VText [CHR ''i'', CHR ''t'', squote, CHR ''s''])) =
    Inr [token_at TString [CHR ''i'', CHR ''t'', squote, CHR ''s''] (mark (Lexer_New [])), token_at TEOF [] end_pos]"
  by (rule literal_scans_back) (simp add: squote_def)

text \<open>With a backslash it does not: the text of two bytes, a backslash and an \<open>n\<close>, scans back as a
  newline, and a backslash alone swallows the closing quote, so the literal never ends.\<close>

theorem backslash_literal_broken:
  "\<exists>end_pos. Tokenize cs (Value_SQL (VText [CHR 0x5C, CHR ''n''])) =
      Inr [token_at TString [newline] (mark (Lexer_New [])), token_at TEOF [] end_pos] \<and>
    Tokenize cs (Value_SQL (VText [CHR 0x5C])) = Inl (lex_errorf (mark (Lexer_New [])) UnterminatedString)"
proof -
  have sql: "Value_SQL (VText [CHR 0x5C, CHR ''n'']) = [squote, CHR 0x5C, CHR ''n'', squote]"
    "Value_SQL (VText [CHR 0x5C]) = [squote, CHR 0x5C, squote]"
    by (simp_all add: Value_SQL_def squote_def)
  show ?thesis
    unfolding sql
    by (simp add: Tokenize_def tokenize_loop.simps Lexer_Next_def skipSpaceAndComments.simps lex_token_def
        lexString_def string_loop.simps Lexer_New_def at_end_def advance_def Let_def is_space_def squote_def
        char_code_def peek_def unescape_def newline_def mark_def lex_errorf_def token_at_def)
qed

end
