(* ===== verification/Logic3.thy ===== *)
theory Logic3
  imports Values
begin

text \<open>
  Three-valued logic, \<open>src/types/logic.go\<close>.  \<open>Bool3\<close> is a Go \<open>uint8\<close> whose constants are
  0, 1 and 2; the operations are the code's comparisons and subtraction on that representation.
  The theorems relate them to their meaning: the result of a connective is TRUE (or FALSE)
  exactly when it is so however the UNKNOWN operands turn out.
\<close>

type_synonym Bool3 = "8 word"

definition B3False :: Bool3 where "B3False = 0"
definition B3Unknown :: Bool3 where "B3Unknown = 1"
definition B3True :: Bool3 where "B3True = 2"

definition B3 :: "bool \<Rightarrow> Bool3" where
  "B3 b = (if b then B3True else B3False)"

definition B3And :: "Bool3 \<Rightarrow> Bool3 \<Rightarrow> Bool3" where
  "B3And t u = (if u < t then u else t)"

definition B3Or :: "Bool3 \<Rightarrow> Bool3 \<Rightarrow> Bool3" where
  "B3Or t u = (if t < u then u else t)"

definition B3Not :: "Bool3 \<Rightarrow> Bool3" where
  "B3Not t = B3True - t"

definition B3IsTrue :: "Bool3 \<Rightarrow> bool" where
  "B3IsTrue t \<longleftrightarrow> t = B3True"

definition B3String :: "Bool3 \<Rightarrow> string" where
  "B3String t = (if t = B3False then ''FALSE'' else if t = B3True then ''TRUE'' else ''UNKNOWN'')"

definition B3Value :: "Bool3 \<Rightarrow> Value" where
  "B3Value t = (if t = B3Unknown then VNull else VBool (t = B3True))"

definition Truth :: "Value \<Rightarrow> types_error + Bool3" where
  "Truth v = (case Value_Kind v of
     KindNull \<Rightarrow> Inr B3Unknown
   | KindBool \<Rightarrow> Inr (B3 (AsBool v))
   | k \<Rightarrow> Inl (NotACondition k))"

section \<open>The three values\<close>

definition is_bool3 :: "Bool3 \<Rightarrow> bool" where
  "is_bool3 t \<longleftrightarrow> t = B3False \<or> t = B3Unknown \<or> t = B3True"

text \<open>The ways an operand can turn out: an UNKNOWN can be either truth value.\<close>

definition completions :: "Bool3 \<Rightarrow> bool set" where
  "completions t = (if t = B3Unknown then {True, False} else {t = B3True})"

lemmas bool3_defs = B3False_def B3Unknown_def B3True_def

lemma B3_distinct [simp]:
  "B3False \<noteq> B3Unknown" "B3False \<noteq> B3True" "B3Unknown \<noteq> B3True"
  "B3Unknown \<noteq> B3False" "B3True \<noteq> B3False" "B3True \<noteq> B3Unknown"
  by (simp_all add: bool3_defs)

lemma B3And_table [simp]:
  "B3And B3False u = B3False" "B3And B3True B3True = B3True" "B3And B3True B3False = B3False"
  "B3And B3Unknown B3False = B3False" "B3And B3Unknown B3Unknown = B3Unknown"
  "B3And B3Unknown B3True = B3Unknown" "B3And B3True B3Unknown = B3Unknown"
  by (simp_all add: B3And_def bool3_defs)

lemma B3Or_table [simp]:
  "B3Or B3False B3False = B3False" "B3Or B3False B3Unknown = B3Unknown"
  "B3Or B3False B3True = B3True" "B3Or B3Unknown B3False = B3Unknown"
  "B3Or B3Unknown B3Unknown = B3Unknown" "B3Or B3Unknown B3True = B3True"
  "B3Or B3True B3False = B3True" "B3Or B3True B3Unknown = B3True" "B3Or B3True B3True = B3True"
  by (simp_all add: B3Or_def bool3_defs)

lemma B3Not_table [simp]:
  "B3Not B3False = B3True" "B3Not B3Unknown = B3Unknown" "B3Not B3True = B3False"
  by (simp_all add: B3Not_def bool3_defs)

lemma is_bool3_simps [simp]: "is_bool3 B3False" "is_bool3 B3Unknown" "is_bool3 B3True"
  by (simp_all add: is_bool3_def)

lemma is_bool3_cases:
  assumes "is_bool3 t"
  obtains "t = B3False" | "t = B3Unknown" | "t = B3True"
  using assms by (auto simp: is_bool3_def)

lemma is_bool3_B3 [simp]: "is_bool3 (B3 b)"
  by (simp add: B3_def)

lemma is_bool3_ops [simp]:
  assumes "is_bool3 t"
  shows "is_bool3 (B3Not t)" and "is_bool3 u \<Longrightarrow> is_bool3 (B3And t u)"
    and "is_bool3 u \<Longrightarrow> is_bool3 (B3Or t u)"
  using assms by (auto simp: is_bool3_def)

lemma Truth_is_bool3: "Truth v = Inr t \<Longrightarrow> is_bool3 t"
  by (cases v) (auto simp: Truth_def B3_def)

lemma Truth_B3Value [simp]: "is_bool3 t \<Longrightarrow> Truth (B3Value t) = Inr t"
  by (elim is_bool3_cases) (simp_all add: B3Value_def Truth_def B3_def)

lemma B3_eq_True [simp]: "B3 b = B3True \<longleftrightarrow> b" "B3IsTrue (B3 b) \<longleftrightarrow> b"
  by (simp_all add: B3_def B3IsTrue_def)

lemma B3And_IsTrue [simp]:
  "is_bool3 t \<Longrightarrow> is_bool3 u \<Longrightarrow> B3IsTrue (B3And t u) \<longleftrightarrow> B3IsTrue t \<and> B3IsTrue u"
  by (elim is_bool3_cases) (simp_all add: B3IsTrue_def)

lemma B3And_assoc: "B3And (B3And t u) v = B3And t (B3And u v)"
  by (auto simp: B3And_def)

section \<open>Properties\<close>

text \<open>the minimum, maximum and reflection the code computes are Kleene's connectives: on
  the three values, each result stands for exactly the truth values that the operands'
  possible completions give.\<close>

theorem kleene_sound:
  assumes "is_bool3 t" and "is_bool3 u"
  shows "completions (B3And t u) = {a \<and> b | a b. a \<in> completions t \<and> b \<in> completions u}
    \<and> completions (B3Or t u) = {a \<or> b | a b. a \<in> completions t \<and> b \<in> completions u}
    \<and> completions (B3Not t) = Not ` completions t"
  using assms by (elim is_bool3_cases) (auto simp: completions_def)

theorem kleene_sound_witness:
  "completions (B3And B3Unknown B3False) = {a \<and> b | a b. a \<in> completions B3Unknown \<and> b \<in> completions B3False}
    \<and> B3And B3Unknown B3False = B3False"
  using kleene_sound [of B3Unknown B3False] by simp

end
