(* ===== verification/Ops.thy ===== *)
theory Ops
  imports Logic3 Unicode "HOL-Library.While_Combinator"
begin

text \<open>
  Arithmetic, comparison operators and LIKE, \<open>src/types/ops.go\<close>.  Integers are 64-bit words
  that wrap; division and remainder truncate towards zero as Go's do (the smallest integer
  divided by -1 wraps to itself).  \<open>like_cond\<close> and \<open>like_step\<close> are the guard and the body of
  the loop of \<open>Like\<close>, with its two cursors, its last \<open>%\<close> and its mark; the loop ends because
  a retry moves the mark forward and a new \<open>%\<close> moves the star forward.
\<close>

section \<open>Arithmetic\<close>

definition checkNumeric :: "Value \<Rightarrow> Value \<Rightarrow> string \<Rightarrow> types_error option" where
  "checkNumeric a b oper =
     (if \<not> IsNumeric a \<or> \<not> IsNumeric b
      then Some (WantsNumbers oper (Value_Kind a) (Value_Kind b)) else None)"

definition arith_op ::
  "Value \<Rightarrow> Value \<Rightarrow> string \<Rightarrow> (int64 \<Rightarrow> int64 \<Rightarrow> int64) \<Rightarrow> (float64 \<Rightarrow> float64 \<Rightarrow> float64)
   \<Rightarrow> types_error + Value" where
  "arith_op a b oper fi ff =
     (if IsNull a \<or> IsNull b then Inr VNull
      else case checkNumeric a b oper of
        Some e \<Rightarrow> Inl e
      | None \<Rightarrow>
          if Value_Kind a = KindInt \<and> Value_Kind b = KindInt
          then Inr (VInt (fi (AsInt a) (AsInt b)))
          else Inr (VFloat (ff (AsFloat a) (AsFloat b))))"

definition Add :: "Value \<Rightarrow> Value \<Rightarrow> types_error + Value" where
  "Add a b = arith_op a b ''+'' (\<lambda>x y. x + y) f_add"

definition Sub :: "Value \<Rightarrow> Value \<Rightarrow> types_error + Value" where
  "Sub a b = arith_op a b ''-'' (\<lambda>x y. x - y) f_sub"

definition Mul :: "Value \<Rightarrow> Value \<Rightarrow> types_error + Value" where
  "Mul a b = arith_op a b ''*'' (\<lambda>x y. x * y) f_mul"

text \<open>Go's \<open>int64\<close> quotient and remainder.\<close>

definition int64_div :: "int64 \<Rightarrow> int64 \<Rightarrow> int64" where
  "int64_div x y = word_of_int (sint x sdiv sint y)"

definition int64_mod :: "int64 \<Rightarrow> int64 \<Rightarrow> int64" where
  "int64_mod x y = word_of_int (sint x smod sint y)"

definition Div :: "Value \<Rightarrow> Value \<Rightarrow> types_error + Value" where
  "Div a b =
     (if IsNull a \<or> IsNull b then Inr VNull
      else case checkNumeric a b ''/'' of
        Some e \<Rightarrow> Inl e
      | None \<Rightarrow>
          if Value_Kind a = KindInt \<and> Value_Kind b = KindInt then
            if AsInt b = 0 then Inl ErrDivideByZero
            else Inr (VInt (int64_div (AsInt a) (AsInt b)))
          else if f_eq (AsFloat b) f_pos_zero then Inl ErrDivideByZero
          else Inr (VFloat (f_div (AsFloat a) (AsFloat b))))"

definition Mod :: "Value \<Rightarrow> Value \<Rightarrow> types_error + Value" where
  "Mod a b =
     (if IsNull a \<or> IsNull b then Inr VNull
      else if Value_Kind a \<noteq> KindInt \<or> Value_Kind b \<noteq> KindInt then
        Inl (WantsTwoInts (Value_Kind a) (Value_Kind b))
      else if AsInt b = 0 then Inl ErrDivideByZero
      else Inr (VInt (int64_mod (AsInt a) (AsInt b))))"

definition Neg :: "Value \<Rightarrow> types_error + Value" where
  "Neg a = (case Value_Kind a of
     KindNull \<Rightarrow> Inr VNull
   | KindInt \<Rightarrow> Inr (VInt (- AsInt a))
   | KindFloat \<Rightarrow> Inr (VFloat (f_neg (AsFloat a)))
   | k \<Rightarrow> Inl (WantsANumber k))"

section \<open>LIKE\<close>

definition rune_percent :: nat where "rune_percent = 37"
definition rune_underscore :: nat where "rune_underscore = 95"


text \<open>The state of the main loop of \<open>Like\<close>: the cursors \<open>ti\<close> and \<open>pj\<close>, the position \<open>star\<close>
  of the last \<open>%\<close> (the code's -1 is \<open>None\<close>), the text position \<open>mark\<close> it was last tried
  from, and whether the loop left the function with \<open>return false\<close>.\<close>

type_synonym like_state = "nat \<times> nat \<times> nat option \<times> nat \<times> bool"

definition like_cond :: "nat list \<Rightarrow> like_state \<Rightarrow> bool" where
  "like_cond text = (\<lambda>(ti, pj, star, mark, failed). \<not> failed \<and> ti < length text)"

definition like_step :: "nat list \<Rightarrow> nat list \<Rightarrow> like_state \<Rightarrow> like_state" where
  "like_step text pat = (\<lambda>(ti, pj, star, mark, failed).
     if pj < length pat \<and> (pat ! pj = rune_underscore \<or> pat ! pj = text ! ti)
     then (ti + 1, pj + 1, star, mark, failed)
     else if pj < length pat \<and> pat ! pj = rune_percent
     then (ti, pj + 1, Some pj, ti, failed)
     else case star of
       Some st \<Rightarrow> (mark + 1, st + 1, star, mark + 1, failed)
     | None \<Rightarrow> (ti, pj, star, mark, True))"

text \<open>The closing loop skips the remaining \<open>%\<close>.\<close>

fun like_tail :: "nat list \<Rightarrow> nat list" where
  "like_tail (p # ps) = (if p = rune_percent then like_tail ps else p # ps)"
| "like_tail [] = []"

definition Like_runes :: "nat list \<Rightarrow> nat list \<Rightarrow> bool" where
  "Like_runes text pat =
     (case while (like_cond text) (like_step text pat) (0, 0, None, 0, False) of
        (ti, pj, star, mark, failed) \<Rightarrow> \<not> failed \<and> like_tail (drop pj pat) = [])"

definition Like :: "string \<Rightarrow> string \<Rightarrow> bool" where
  "Like s pattern = Like_runes (runes s) (runes pattern)"

definition LikeValue :: "Value \<Rightarrow> Value \<Rightarrow> types_error + Bool3" where
  "LikeValue s pattern =
     (if IsNull s \<or> IsNull pattern then Inr B3Unknown
      else if Value_Kind s \<noteq> KindText \<or> Value_Kind pattern \<noteq> KindText then
        Inl (LikeWantsText (Value_Kind s) (Value_Kind pattern))
      else Inr (B3 (Like (AsText s) (AsText pattern))))"

section \<open>Comparison operators\<close>

definition CompareOp :: "string \<Rightarrow> Value \<Rightarrow> Value \<Rightarrow> types_error + Bool3" where
  "CompareOp oper a b =
     (if IsNull a \<or> IsNull b then Inr B3Unknown
      else case Compare a b of
        Inl e \<Rightarrow> Inl e
      | Inr c \<Rightarrow>
          if oper = ''='' \<or> oper = ''=='' then Inr (B3 (c = 0))
          else if oper = ''!='' \<or> oper = ''<>'' then Inr (B3 (c \<noteq> 0))
          else if oper = ''<'' then Inr (B3 (c < 0))
          else if oper = ''<='' then Inr (B3 (c \<le> 0))
          else if oper = ''>'' then Inr (B3 (0 < c))
          else if oper = ''>='' then Inr (B3 (0 \<le> c))
          else Inl (UnknownComparison oper))"

lemma CompareOp_null [simp]: "CompareOp oper VNull b = Inr B3Unknown" "CompareOp oper a VNull = Inr B3Unknown"
  by (simp_all add: CompareOp_def)

lemma CompareOp_is_bool3: "CompareOp oper a b = Inr t \<Longrightarrow> is_bool3 t"
  by (auto simp: CompareOp_def split: if_splits sum.splits)

lemma CompareOp_same_kind:
  assumes "Value_Kind a = Value_Kind b" and "a \<noteq> VNull"
  shows "CompareOp ''='' a b = Inr (B3 (Order a b = 0))"
    and "CompareOp ''<'' a b = Inr (B3 (Order a b < 0))"
    and "CompareOp ''<='' a b = Inr (B3 (Order a b \<le> 0))"
    and "CompareOp ''>'' a b = Inr (B3 (0 < Order a b))"
    and "CompareOp ''>='' a b = Inr (B3 (0 \<le> Order a b))"
proof -
  have "b \<noteq> VNull" using assms by (cases a; cases b) auto
  then show "CompareOp ''='' a b = Inr (B3 (Order a b = 0))"
    and "CompareOp ''<'' a b = Inr (B3 (Order a b < 0))"
    and "CompareOp ''<='' a b = Inr (B3 (Order a b \<le> 0))"
    and "CompareOp ''>'' a b = Inr (B3 (0 < Order a b))"
    and "CompareOp ''>='' a b = Inr (B3 (0 \<le> Order a b))"
    using assms(2) Compare_Order [OF assms] by (simp_all add: CompareOp_def)
qed

lemma LikeValue_is_bool3: "LikeValue s p = Inr t \<Longrightarrow> is_bool3 t"
  by (auto simp: LikeValue_def split: if_splits)

section \<open>The meaning of a LIKE pattern\<close>

text \<open>What a pattern matches: \<open>%\<close> any run of runes, \<open>_\<close> exactly one, any other rune itself.\<close>

definition rune_match :: "nat \<Rightarrow> nat \<Rightarrow> bool" where
  "rune_match p c \<longleftrightarrow> p = rune_underscore \<or> p = c"

fun wild :: "nat list \<Rightarrow> nat list \<Rightarrow> bool" where
  "wild t [] = (t = [])"
| "wild t (p # ps) =
     (if p = rune_percent then list_ex (\<lambda>k. wild (drop k t) ps) [0..<Suc (length t)]
      else case t of [] \<Rightarrow> False | c # cs \<Rightarrow> rune_match p c \<and> wild cs ps)"

lemma wild_percent:
  "wild t (rune_percent # ps) \<longleftrightarrow> (\<exists>k \<le> length t. wild (drop k t) ps)"
  by (auto simp: list_ex_iff less_Suc_eq_le simp del: upt_Suc)

lemma wild_segment:
  assumes "rune_percent \<notin> set seg"
  shows "wild t (seg @ ps) \<longleftrightarrow>
    length seg \<le> length t \<and> list_all2 rune_match seg (take (length seg) t) \<and> wild (drop (length seg) t) ps"
  using assms
proof (induction seg arbitrary: t)
  case (Cons p seg)
  then show ?case by (cases t) auto
qed simp

lemma wild_Nil: "wild [] ps \<longleftrightarrow> like_tail ps = []"
  by (induction ps) auto

text \<open>The invariant of the loop.  Since the last \<open>%\<close> the segment of the pattern that follows it
  has matched the text from the mark on; the whole pattern matches exactly when the rest after
  that \<open>%\<close> matches from the mark or later.\<close>

definition like_open ::
  "nat list \<Rightarrow> nat list \<Rightarrow> nat \<Rightarrow> nat \<Rightarrow> nat \<Rightarrow> nat \<Rightarrow> nat list \<Rightarrow> bool" where
  "like_open text pat ti pj st mark seg \<longleftrightarrow>
     st < pj \<and> mark \<le> ti \<and> drop (st + 1) pat = seg @ drop pj pat
     \<and> rune_percent \<notin> set seg \<and> length seg = ti - mark
     \<and> list_all2 rune_match seg (take (length seg) (drop mark text))
     \<and> wild text pat = (\<exists>k. mark \<le> k \<and> k \<le> length text \<and> wild (drop k text) (drop (st + 1) pat))"

definition like_inv :: "nat list \<Rightarrow> nat list \<Rightarrow> like_state \<Rightarrow> bool" where
  "like_inv text pat = (\<lambda>(ti, pj, star, mark, failed).
     ti \<le> length text \<and> pj \<le> length pat \<and>
     (if failed then \<not> wild text pat
      else case star of
        None \<Rightarrow> wild text pat = wild (drop ti text) (drop pj pat)
      | Some st \<Rightarrow> \<exists>seg. like_open text pat ti pj st mark seg))"

definition like_measure :: "nat list \<Rightarrow> nat list \<Rightarrow> (like_state \<times> like_state) set" where
  "like_measure text pat = measures [
     \<lambda>(ti, pj, star, mark, failed). length pat - (case star of None \<Rightarrow> 0 | Some st \<Rightarrow> st + 1),
     \<lambda>(ti, pj, star, mark, failed). length text - mark,
     \<lambda>(ti, pj, star, mark, failed). (length text - ti) + (if failed then 0 else 1)]"

lemma wild_match_step:
  assumes "ti < length text" "pj < length pat" "pat ! pj \<noteq> rune_percent"
  shows "wild (drop ti text) (drop pj pat) \<longleftrightarrow>
    rune_match (pat ! pj) (text ! ti) \<and> wild (drop (Suc ti) text) (drop (Suc pj) pat)"
  using assms by (simp flip: Cons_nth_drop_Suc)

lemma wild_past_end: "ti < length text \<Longrightarrow> \<not> wild (drop ti text) (drop (length pat) pat)"
  by simp

lemma rune_distinct [simp]: "rune_percent \<noteq> rune_underscore" "rune_underscore \<noteq> rune_percent"
  by (simp_all add: rune_percent_def rune_underscore_def)

lemma like_inv_NoneD:
  assumes "like_inv text pat (ti, pj, None, mark, False)"
  shows "wild text pat = wild (drop ti text) (drop pj pat)"
  using assms by (simp add: like_inv_def)

lemma like_inv_SomeE:
  assumes "like_inv text pat (ti, pj, Some st, mark, False)"
  obtains seg where "ti \<le> length text" "pj \<le> length pat" "st < pj" "mark \<le> ti"
    "drop (st + 1) pat = seg @ drop pj pat" "rune_percent \<notin> set seg" "length seg = ti - mark"
    "list_all2 rune_match seg (take (length seg) (drop mark text))"
    "wild text pat = (\<exists>k. mark \<le> k \<and> k \<le> length text \<and> wild (drop k text) (drop (st + 1) pat))"
proof -
  from assms have b: "ti \<le> length text" "pj \<le> length pat"
    and "\<exists>seg. like_open text pat ti pj st mark seg"
    by (simp_all add: like_inv_def)
  then obtain seg where "like_open text pat ti pj st mark seg" by blast
  with b show thesis unfolding like_open_def by (elim conjE) (rule that)
qed

lemma like_inv_SomeI:
  assumes "ti \<le> length text" "pj \<le> length pat" "st < pj" "mark \<le> ti"
    "drop (st + 1) pat = seg @ drop pj pat" "rune_percent \<notin> set seg" "length seg = ti - mark"
    "list_all2 rune_match seg (take (length seg) (drop mark text))"
    "wild text pat = (\<exists>k. mark \<le> k \<and> k \<le> length text \<and> wild (drop k text) (drop (st + 1) pat))"
  shows "like_inv text pat (ti, pj, Some st, mark, False)"
  by (simp only: like_inv_def like_open_def prod.case if_False option.case)
    (intro conjI exI [of _ seg] assms)

lemma like_inv_match:
  assumes plain: "rune_percent \<notin> set text"
    and inv: "like_inv text pat (ti, pj, star, mark, False)"
    and ti: "ti < length text" and pj: "pj < length pat"
    and m: "pat ! pj = rune_underscore \<or> pat ! pj = text ! ti"
  shows "like_inv text pat (ti + 1, pj + 1, star, mark, False)"
proof -
  have np: "pat ! pj \<noteq> rune_percent" using m plain nth_mem [OF ti] by auto
  have rm: "rune_match (pat ! pj) (text ! ti)" using m by (simp add: rune_match_def)
  note step = wild_match_step [OF ti pj np]
  show ?thesis
  proof (cases star)
    case None
    then show ?thesis using inv ti pj step rm by (simp add: like_inv_def)
  next
    case (Some st)
    from inv obtain seg where seg: "st < pj" "mark \<le> ti" "drop (st + 1) pat = seg @ drop pj pat"
      "rune_percent \<notin> set seg" "length seg = ti - mark"
      "list_all2 rune_match seg (take (length seg) (drop mark text))"
      "wild text pat = (\<exists>k. mark \<le> k \<and> k \<le> length text \<and> wild (drop k text) (drop (st + 1) pat))"
      unfolding Some by (elim like_inv_SomeE) blast
    let ?seg = "seg @ [pat ! pj]"
    have "drop (st + 1) pat = ?seg @ drop (pj + 1) pat"
      using seg(3) pj by (simp add: Cons_nth_drop_Suc)
    moreover have "take (length ?seg) (drop mark text) = take (length seg) (drop mark text) @ [text ! ti]"
      using seg(2,5) ti by (simp add: take_Suc_conv_app_nth)
    then have "list_all2 rune_match ?seg (take (length ?seg) (drop mark text))"
      using seg(6) rm by (simp add: list_all2_appendI)
    ultimately show ?thesis unfolding Some
      using seg np ti pj by (intro like_inv_SomeI [where seg = ?seg]) simp_all
  qed
qed

lemma wild_percent_from:
  assumes "ti \<le> length text"
  shows "wild (drop ti text) (rune_percent # ps) \<longleftrightarrow>
    (\<exists>k. ti \<le> k \<and> k \<le> length text \<and> wild (drop k text) ps)"
proof
  assume "wild (drop ti text) (rune_percent # ps)"
  then obtain k where "k \<le> length text - ti" "wild (drop (k + ti) text) ps"
    unfolding wild_percent by auto
  then show "\<exists>k. ti \<le> k \<and> k \<le> length text \<and> wild (drop k text) ps"
    using assms by (intro exI [of _ "k + ti"]) simp
next
  assume "\<exists>k. ti \<le> k \<and> k \<le> length text \<and> wild (drop k text) ps"
  then obtain k where "ti \<le> k" "k \<le> length text" "wild (drop k text) ps" by blast
  then show "wild (drop ti text) (rune_percent # ps)"
    unfolding wild_percent by (intro exI [of _ "k - ti"]) simp
qed

lemma like_inv_star_here:
  assumes inv: "like_inv text pat (ti, pj, star, mark, False)"
    and ti: "ti < length text" and dp: "drop pj pat = rune_percent # ps"
  shows "wild text pat \<longleftrightarrow> wild (drop ti text) (drop pj pat)"
proof (cases star)
  case None
  then show ?thesis using inv by (simp add: like_inv_NoneD)
next
  case (Some st)
  from inv obtain seg where seg: "mark \<le> ti" "drop (st + 1) pat = seg @ drop pj pat"
    "rune_percent \<notin> set seg" "length seg = ti - mark"
    "list_all2 rune_match seg (take (length seg) (drop mark text))"
    and W: "wild text pat = (\<exists>k. mark \<le> k \<and> k \<le> length text \<and> wild (drop k text) (seg @ drop pj pat))"
    unfolding Some by (elim like_inv_SomeE) simp
  note ws = wild_segment [OF seg(3)]
  show ?thesis
  proof
    assume "wild text pat"
    then obtain k where k: "mark \<le> k" "k \<le> length text" "wild (drop k text) (seg @ drop pj pat)"
      unfolding W by blast
    then have len: "length seg \<le> length text - k"
      and "wild (drop (length seg + k) text) (rune_percent # ps)"
      by (simp_all add: ws dp)
    moreover have "length seg + k \<le> length text" using len k(2) by simp
    ultimately obtain j where "length seg + k \<le> j" "j \<le> length text" "wild (drop j text) ps"
      using wild_percent_from [of "length seg + k" "text" ps] by blast
    then show "wild (drop ti text) (drop pj pat)"
      unfolding dp using k seg(1,4) ti wild_percent_from [of ti "text" ps] by auto
  next
    assume "wild (drop ti text) (drop pj pat)"
    then have "wild (drop mark text) (seg @ drop pj pat)"
      using seg(1,4,5) ti by (simp add: ws)
    then show "wild text pat" unfolding W using seg(1) ti by (intro exI [of _ mark]) simp
  qed
qed

lemma like_inv_star:
  assumes inv: "like_inv text pat (ti, pj, star, mark, False)"
    and ti: "ti < length text" and pj: "pj < length pat" and p: "pat ! pj = rune_percent"
  shows "like_inv text pat (ti, pj + 1, Some pj, ti, False)"
proof -
  have dp: "drop pj pat = rune_percent # drop (pj + 1) pat"
    using pj p Cons_nth_drop_Suc [OF pj] by simp
  show ?thesis
    using like_inv_star_here [OF inv ti dp] wild_percent_from [of ti "text" "drop (pj + 1) pat"] ti pj
    unfolding dp by (intro like_inv_SomeI [where seg = "[]"]) simp_all
qed

lemma like_inv_retry:
  assumes inv: "like_inv text pat (ti, pj, Some st, mark, False)"
    and ti: "ti < length text"
    and no: "\<not> wild (drop ti text) (drop pj pat)"
  shows "like_inv text pat (mark + 1, st + 1, Some st, mark + 1, False)"
proof -
  from inv obtain seg where seg: "st < pj" "mark \<le> ti" "drop (st + 1) pat = seg @ drop pj pat"
    "rune_percent \<notin> set seg" "length seg = ti - mark" "pj \<le> length pat"
    and W: "wild text pat = (\<exists>k. mark \<le> k \<and> k \<le> length text \<and> wild (drop k text) (drop (st + 1) pat))"
    by (elim like_inv_SomeE) blast
  have "\<not> wild (drop mark text) (drop (st + 1) pat)"
    using seg no by (simp add: wild_segment [OF seg(4)])
  then have "wild text pat = (\<exists>k. mark + 1 \<le> k \<and> k \<le> length text \<and> wild (drop k text) (drop (st + 1) pat))"
    unfolding W by (metis Suc_eq_plus1 Suc_leD le_antisym not_less_eq_eq)
  then show ?thesis using seg ti by (intro like_inv_SomeI [where seg = "[]"]) simp_all
qed

lemma like_inv_step:
  assumes plain: "rune_percent \<notin> set text"
    and inv: "like_inv text pat s" and c: "like_cond text s"
  shows "like_inv text pat (like_step text pat s) \<and> (like_step text pat s, s) \<in> like_measure text pat"
proof -
  obtain ti pj star mark where s: "s = (ti, pj, star, mark, False)" and ti: "ti < length text"
    using c by (cases s) (auto simp: like_cond_def)
  note inv = inv [unfolded s]
  show ?thesis
  proof (cases "pj < length pat \<and> (pat ! pj = rune_underscore \<or> pat ! pj = text ! ti)")
    case True
    then show ?thesis using like_inv_match [OF plain inv ti] ti
      by (simp add: s like_step_def like_measure_def)
  next
    case no1: False
    show ?thesis
    proof (cases "pj < length pat \<and> pat ! pj = rune_percent")
      case True
      moreover have "case star of None \<Rightarrow> True | Some st \<Rightarrow> st < pj"
        using inv by (auto elim: like_inv_SomeE split: option.split)
      ultimately show ?thesis using like_inv_star [OF inv ti] no1
        by (auto simp: s like_step_def like_measure_def split: option.splits)
    next
      case no2: False
      have no: "\<not> wild (drop ti text) (drop pj pat)"
      proof (cases "pj < length pat")
        case True
        then show ?thesis using no1 no2 ti wild_match_step [OF ti True]
          by (simp add: rune_match_def)
      next
        case False
        then show ?thesis using ti by simp
      qed
      show ?thesis
      proof (cases star)
        case None
        moreover have "\<not> wild text pat" using no inv None like_inv_NoneD by blast
        ultimately show ?thesis using inv no1 no2
          by (auto simp: s like_step_def like_measure_def like_inv_def)
      next
        case (Some st)
        then have "mark \<le> ti" using inv by (auto elim: like_inv_SomeE)
        then show ?thesis using like_inv_retry [OF inv [unfolded Some] ti no] no1 no2 ti Some
          by (auto simp: s like_step_def like_measure_def)
      qed
    qed
  qed
qed

lemma like_inv_exit:
  assumes inv: "like_inv text pat (ti, pj, star, mark, failed)"
    and c: "\<not> like_cond text (ti, pj, star, mark, failed)"
  shows "(\<not> failed \<and> like_tail (drop pj pat) = []) = wild text pat"
proof (cases failed)
  case True
  then show ?thesis using inv by (simp add: like_inv_def)
next
  case False
  then have ti: "ti = length text" using c inv by (simp add: like_cond_def like_inv_def)
  show ?thesis
  proof (cases star)
    case None
    then show ?thesis using inv ti False by (simp add: like_inv_def wild_Nil)
  next
    case (Some st)
    from inv False Some have "like_inv text pat (ti, pj, Some st, mark, False)" by simp
    then obtain seg where seg: "mark \<le> ti" "rune_percent \<notin> set seg" "length seg = ti - mark"
      "list_all2 rune_match seg (take (length seg) (drop mark text))"
      and W: "wild text pat = (\<exists>k. mark \<le> k \<and> k \<le> length text \<and> wild (drop k text) (seg @ drop pj pat))"
      by (elim like_inv_SomeE) simp
    have "wild (drop mark text) (seg @ drop pj pat) \<longleftrightarrow> wild [] (drop pj pat)"
      using seg ti by (simp add: wild_segment [OF seg(2)])
    moreover have "\<not> wild (drop k text) (seg @ drop pj pat)" if "mark < k" "k \<le> length text" for k
      using seg(1-3) ti that by (auto simp: wild_segment [OF seg(2)])
    ultimately have "wild text pat \<longleftrightarrow> wild [] (drop pj pat)"
      unfolding W using seg(1) ti by (metis le_neq_implies_less order_refl)
    then show ?thesis using False by (simp add: wild_Nil)
  qed
qed

lemma Like_runes_wild:
  assumes "rune_percent \<notin> set text"
  shows "Like_runes text pat = wild text pat"
  unfolding Like_runes_def
proof (rule while_rule [where P = "like_inv text pat" and r = "like_measure text pat"])
  show "like_inv text pat (0, 0, None, 0, False)" by (simp add: like_inv_def)
  show "wf (like_measure text pat)" by (simp add: like_measure_def)
  fix s assume inv: "like_inv text pat s"
  { assume "like_cond text s"
    then show "like_inv text pat (like_step text pat s)"
      and "(like_step text pat s, s) \<in> like_measure text pat"
      using like_inv_step [OF assms inv] by blast+ }
  { assume "\<not> like_cond text s"
    then show "(case s of (ti, pj, star, mark, failed) \<Rightarrow> \<not> failed \<and> like_tail (drop pj pat) = [])
        = wild text pat"
      using inv like_inv_exit by (cases s) auto }
qed

section \<open>Integer division\<close>

lemma sint_bounds64: "- (2 ^ 63) \<le> sint (x :: int64)" "sint (x :: int64) < 2 ^ 63"
  using sint_ge [of x] sint_lt [of x] by simp_all

lemma sint_word_of_int64:
  "- (2 ^ 63) \<le> i \<Longrightarrow> i < 2 ^ 63 \<Longrightarrow> sint (word_of_int i :: int64) = i"
  by (simp add: signed_of_int signed_take_bit_int_eq_self)

lemma sdiv_int64_range:
  assumes "- (2 ^ 63) \<le> a" "a < 2 ^ 63" "\<not> (a = - (2 ^ 63) \<and> b = -1)"
  shows "- (2 ^ 63) \<le> a sdiv b \<and> a sdiv b < (2 ^ 63 :: int)"
proof -
  have r: "- \<bar>a\<bar> \<le> a sdiv b" "a sdiv b \<le> \<bar>a\<bar>"
    using sdiv_int_range [of a b] by simp_all
  show ?thesis
  proof (cases "a < 0")
    case True
    have "a sdiv b \<noteq> 2 ^ 63"
    proof
      assume q: "a sdiv b = 2 ^ 63"
      then have "a = - (2 ^ 63)" using r(2) True assms(1) by simp
      then show False using q assms(3) int_sdiv_negated_is_minus1 [of a b] by simp
    qed
    then show ?thesis using r True assms(1) by simp
  qed (use r assms in simp)
qed

lemma smod_int_sgn: "a smod b = 0 \<or> sgn (a smod b) = sgn (a :: int)"
proof (cases "b = 0")
  case False
  have "sgn (a smod b) = sgn a \<or> a smod b = 0" if "0 \<le> a"
    using that False smod_int_compares(2,6) [of a b] by (cases "a = 0"; cases "b < 0") (auto simp: sgn_if)
  moreover have "sgn (a smod b) = sgn a \<or> a smod b = 0" if "a < 0"
    using that False smod_int_compares(4,7) [of a b] by (cases "b < 0") (auto simp: sgn_if)
  ultimately show ?thesis by force
qed simp

lemma int64_div_mod:
  assumes "y \<noteq> 0"
  shows "if sint x = - (2 ^ 63) \<and> sint y = -1 then int64_div x y = x \<and> int64_mod x y = 0
     else sint x = sint y * sint (int64_div x y) + sint (int64_mod x y)
       \<and> \<bar>sint (int64_mod x y)\<bar> < \<bar>sint y\<bar>
       \<and> (sint (int64_mod x y) = 0 \<or> sgn (sint (int64_mod x y)) = sgn (sint x))"
proof (cases "sint x = - (2 ^ 63) \<and> sint y = -1")
  case True
  have y: "sint y = -1" using True by simp
  then have "int64_div x y = - x" by (simp add: int64_div_def word_of_int_minus)
  moreover have "x = word_of_int (- (2 ^ 63))"
    using True by (metis of_int_sint scast_id)
  then have "- x = x" by simp
  moreover have "int64_mod x y = 0" using y by (simp add: int64_mod_def signed_modulo_int_def)
  ultimately show ?thesis using True by simp
next
  case False
  have y: "sint y \<noteq> 0" using assms by (simp add: signed_eq_0_iff)
  have q: "sint (int64_div x y) = sint x sdiv sint y"
    unfolding int64_div_def using sdiv_int64_range [OF sint_bounds64 False]
    by (intro sint_word_of_int64) auto
  have m: "- \<bar>sint y\<bar> + 1 \<le> sint x smod sint y" "sint x smod sint y \<le> \<bar>sint y\<bar> - 1"
    using smod_int_range [OF y, of "sint x"] by simp_all
  have r: "sint (int64_mod x y) = sint x smod sint y"
    unfolding int64_mod_def using m sint_bounds64 [of y]
    by (intro sint_word_of_int64) auto
  show ?thesis using False m smod_int_sgn [of "sint x" "sint y"]
    by (auto simp: q r mult_sdiv_smod_eq)
qed

section \<open>Properties\<close>

text \<open>C32: on a text without the rune \<open>%\<close>, the greedy scan with one backtracking point decides
  exactly the meaning of the pattern (the loop always ends: it is a \<open>while\<close> shown to
  terminate).\<close>

theorem Like_correct:
  assumes "rune_percent \<notin> set (runes s)"
  shows "Like s pattern = wild (runes s) (runes pattern)"
  unfolding Like_def using assms by (rule Like_runes_wild)

theorem Like_correct_witness:
  "Like ''anything'' ''a%t_i%'' = wild (runes ''anything'') (runes ''a%t_i%'')"
proof -
  have "rune_percent \<notin> set (runes ''anything'')"
    by (simp add: runes_ascii is_ascii_def char_code_def rune_percent_def)
  then show ?thesis by (rule Like_correct)
qed

text \<open>a text that holds a percent sign can be missed: \<open>'%a' LIKE '%'\<close> is FALSE, although
  \<open>%\<close> stands for any run of characters.  The scan compares the pattern's \<open>%\<close> with the text's
  literally before it looks at it as a wildcard.\<close>

theorem Like_percent_text_missed:
  "LikeValue (VText ''%a'') (VText ''%'') = Inr B3False
   \<and> wild (runes ''%a'') (runes ''%'')"
proof -
  have r: "runes ''%a'' = [37, 97]" "runes ''%'' = [37]"
    by (simp_all add: runes_ascii is_ascii_def char_code_def)
  have "Like ''%a'' ''%'' = False"
    unfolding Like_def r by (simp add: Like_runes_def while_unfold like_cond_def like_step_def
        rune_percent_def rune_underscore_def)
  moreover have "wild (runes ''%a'') (runes ''%'')"
    unfolding r by (simp add: rune_percent_def)
  ultimately show ?thesis by (simp add: LikeValue_def B3_def)
qed

text \<open>integer division truncates towards zero and the remainder has the dividend's sign:
  unless the divisor is zero (an error) or the quotient overflows, \<open>a = b * (a / b) + a % b\<close>
  holds over the integers and \<open>|a % b| < |b|\<close>; the one overflow, the least integer divided by
  -1, wraps to itself.\<close>

theorem Div_Mod_int:
  "Div (VInt x) (VInt 0) = Inl ErrDivideByZero \<and> Mod (VInt x) (VInt 0) = Inl ErrDivideByZero
   \<and> (y \<noteq> 0 \<longrightarrow> (\<exists>q r. Div (VInt x) (VInt y) = Inr (VInt q) \<and> Mod (VInt x) (VInt y) = Inr (VInt r)
        \<and> (if sint x = - (2 ^ 63) \<and> sint y = -1 then q = x \<and> r = 0
           else sint x = sint y * sint q + sint r \<and> \<bar>sint r\<bar> < \<bar>sint y\<bar>
             \<and> (sint r = 0 \<or> sgn (sint r) = sgn (sint x)))))"
proof -
  have zero: "Div (VInt x) (VInt 0) = Inl ErrDivideByZero \<and> Mod (VInt x) (VInt 0) = Inl ErrDivideByZero"
    by (simp add: Div_def Mod_def checkNumeric_def)
  moreover have "\<exists>q r. Div (VInt x) (VInt y) = Inr (VInt q) \<and> Mod (VInt x) (VInt y) = Inr (VInt r)
        \<and> (if sint x = - (2 ^ 63) \<and> sint y = -1 then q = x \<and> r = 0
           else sint x = sint y * sint q + sint r \<and> \<bar>sint r\<bar> < \<bar>sint y\<bar>
             \<and> (sint r = 0 \<or> sgn (sint r) = sgn (sint x)))" if "y \<noteq> 0"
  proof (intro exI conjI)
    show "Div (VInt x) (VInt y) = Inr (VInt (int64_div x y))"
      and "Mod (VInt x) (VInt y) = Inr (VInt (int64_mod x y))"
      using that by (simp_all add: Div_def Mod_def checkNumeric_def)
    show "if sint x = - (2 ^ 63) \<and> sint y = -1 then int64_div x y = x \<and> int64_mod x y = 0
       else sint x = sint y * sint (int64_div x y) + sint (int64_mod x y)
         \<and> \<bar>sint (int64_mod x y)\<bar> < \<bar>sint y\<bar>
         \<and> (sint (int64_mod x y) = 0 \<or> sgn (sint (int64_mod x y)) = sgn (sint x))"
      using that by (rule int64_div_mod)
  qed
  ultimately show ?thesis by blast
qed

theorem Div_Mod_int_witness:
  "\<exists>q r. Div (VInt (-7)) (VInt 2) = Inr (VInt q) \<and> Mod (VInt (-7)) (VInt 2) = Inr (VInt r)
     \<and> sint (-7 :: int64) = sint (2 :: int64) * sint q + sint r"
  using Div_Mod_int [of "-7" 2] by auto

end
