(* ===== verification/Parser.thy ===== *)
theory Parser
  imports Lexer Ops
begin

text \<open>
  The recursive-descent parser of \<open>src/parser/parser.go\<close>: one token of lookahead, precedence climbing
  for expressions.  The state is the scanner, the current and the next token and the first lexical
  error; a parser that has reported an error is discarded by its callers, so an error carries no
  state.  Every result is an option on top: \<open>None\<close> stands for fuel that ran out, and the theorems at
  the end show that the fuel the entry points give is always enough.
\<close>

section \<open>State and results\<close>

record Parser =
  ps_lex :: Lexer
  ps_tok :: Token
  ps_next :: Token
  ps_err :: "lex_error option"

datatype parse_msg =
    Expected string Token
  | ExpectedType string Token
  | ExpectedAfterNot Token
  | ExplainExplain
  | AggregateInWhere
  | AggregateInSet
  | NestedAggregate
  | NotConstant Expr
  | UnknownType string
  | OneColumnIndex
  | Subquery
  | IntegerRange string
  | FloatRange string
  | NegFailed types_error
  | UnknownFunction string
  | StarOnlyCount string
  | WantsInteger string Expr
  | MustNotBeNegative string

datatype parse_error =
    LexFailed lex_error
  | ParseFailed parse_msg Pos

type_synonym 'a parsed = "(parse_error + 'a \<times> Parser) option"

definition ret :: "'a \<Rightarrow> Parser \<Rightarrow> 'a parsed" where
  "ret a p = Some (Inr (a, p))"

definition fail_with :: "parse_error \<Rightarrow> 'a parsed" where
  "fail_with e = Some (Inl e)"

text \<open>\<open>x, err := f(); if err != nil { return nil, err }; ...\<close>\<close>

definition pbind :: "'a parsed \<Rightarrow> ('a \<Rightarrow> Parser \<Rightarrow> 'b parsed) \<Rightarrow> 'b parsed" where
  "pbind r f = (case r of None \<Rightarrow> None | Some (Inl e) \<Rightarrow> Some (Inl e) | Some (Inr (a, p)) \<Rightarrow> f a p)"

section \<open>Cursor\<close>

definition zero_pos :: Pos where
  "zero_pos = \<lparr>p_Line = 0, p_Column = 0, p_Offset = 0\<rparr>"

definition Parser_advance :: "casing \<Rightarrow> Parser \<Rightarrow> Parser" where
  "Parser_advance cs p =
     (case Lexer_Next cs (ps_lex p) of
        (Inl e, l) \<Rightarrow>
          \<lparr>ps_lex = l, ps_tok = ps_next p, ps_next = token_at TEOF [] zero_pos,
           ps_err = (if ps_err p = None then Some e else ps_err p)\<rparr>
      | (Inr tok, l) \<Rightarrow>
          \<lparr>ps_lex = l, ps_tok = ps_next p, ps_next = tok, ps_err = ps_err p\<rparr>)"

definition Parser_New :: "casing \<Rightarrow> string \<Rightarrow> Parser" where
  "Parser_New cs src =
     (let none = token_at TEOF [] zero_pos;
          p = \<lparr>ps_lex = Lexer_New src, ps_tok = none, ps_next = none, ps_err = None\<rparr>
      in Parser_advance cs (Parser_advance cs p))"

definition perrorf :: "Parser \<Rightarrow> parse_msg \<Rightarrow> parse_error" where
  "perrorf p msg =
     (case ps_err p of Some e \<Rightarrow> LexFailed e | None \<Rightarrow> ParseFailed msg (tk_Pos (ps_tok p)))"

definition sees :: "Parser \<Rightarrow> string \<Rightarrow> bool" where
  "sees p s = Token_Is (ps_tok p) s"

definition expect :: "casing \<Rightarrow> string \<Rightarrow> Parser \<Rightarrow> unit parsed" where
  "expect cs s p =
     (if \<not> sees p s then fail_with (perrorf p (Expected s (ps_tok p))) else ret () (Parser_advance cs p))"

definition accept :: "casing \<Rightarrow> string \<Rightarrow> Parser \<Rightarrow> bool \<times> Parser" where
  "accept cs s p = (if sees p s then (True, Parser_advance cs p) else (False, p))"

text \<open>The words are consumed only if all of them are there; what was scanned ahead is put back, apart from
  a lexical error met on the way.\<close>

fun accept_words :: "casing \<Rightarrow> Parser \<Rightarrow> string list \<Rightarrow> Parser \<Rightarrow> bool \<times> Parser" where
  "accept_words cs saved [] p = (True, p)"
| "accept_words cs saved (w # ws) p =
     (if \<not> sees p w
      then (False, p\<lparr>ps_tok := ps_tok saved, ps_next := ps_next saved, ps_lex := ps_lex saved\<rparr>)
      else accept_words cs saved ws (Parser_advance cs p))"

definition acceptSeq :: "casing \<Rightarrow> string list \<Rightarrow> Parser \<Rightarrow> bool \<times> Parser" where
  "acceptSeq cs ws p = accept_words cs p ws p"

definition ident :: "casing \<Rightarrow> string \<Rightarrow> Parser \<Rightarrow> string parsed" where
  "ident cs what p =
     (if tk_Kind (ps_tok p) \<noteq> TIdent then fail_with (perrorf p (Expected what (ps_tok p)))
      else ret (tk_Text (ps_tok p)) (Parser_advance cs p))"

text \<open>\<open>for { x := item(); xs = append(xs, x); if !p.accept(",") { break } }\<close>\<close>

fun comma_list :: "casing \<Rightarrow> nat \<Rightarrow> (Parser \<Rightarrow> 'a parsed) \<Rightarrow> Parser \<Rightarrow> 'a list parsed" where
  "comma_list cs 0 item p = None"
| "comma_list cs (Suc n) item p =
     pbind (item p) (\<lambda>x p1.
       case accept cs '','' p1 of
         (False, p2) \<Rightarrow> ret [x] p2
       | (True, p2) \<Rightarrow> pbind (comma_list cs n item p2) (\<lambda>xs. ret (x # xs)))"

section \<open>Literals\<close>

text \<open>\<open>strconv.ParseInt(s, 10, 64)\<close> on a run of digits.\<close>

definition ParseInt :: "string \<Rightarrow> int64 option" where
  "ParseInt s = (let n = dec_nat_acc 0 s in if n < 2 ^ 63 then Some (of_nat n) else None)"

text \<open>\<open>strconv.ParseFloat(s, 64)\<close> on \<open>digits [. digits] [e [sign] digits]\<close>: correctly rounded, an error
  when the value overflows.  The exponent stops growing once it has five digits.\<close>

fun capped_nat :: "nat \<Rightarrow> string \<Rightarrow> nat" where
  "capped_nat e [] = e"
| "capped_nat e (c # s) = capped_nat (if e < 10000 then e * 10 + (of_char c - 48) else e) s"

definition parse_exponent :: "string \<Rightarrow> int" where
  "parse_exponent s =
     (case s of
        CHR ''-'' # ds \<Rightarrow> - int (capped_nat 0 ds)
      | CHR ''+'' # ds \<Rightarrow> int (capped_nat 0 ds)
      | ds \<Rightarrow> int (capped_nat 0 ds))"

definition ParseFloat :: "string \<Rightarrow> float64 option" where
  "ParseFloat s =
     (let whole = takeWhile is_digit s; s1 = dropWhile is_digit s;
          frac = (case s1 of CHR ''.'' # ds \<Rightarrow> takeWhile is_digit ds | _ \<Rightarrow> []);
          s2 = (case s1 of CHR ''.'' # ds \<Rightarrow> dropWhile is_digit ds | _ \<Rightarrow> s1);
          ex = (case s2 of [] \<Rightarrow> 0 | _ # es \<Rightarrow> parse_exponent es);
          f = f_of_dec False (dec_nat_acc 0 (whole @ frac)) (ex - int (length frac))
      in if IsInf f then None else Some f)"

text \<open>\<open>types.ParseKind\<close>\<close>

definition ParseKind :: "casing \<Rightarrow> string \<Rightarrow> Kind option" where
  "ParseKind cs name =
     (let u = ToUpper cs name in
      if u \<in> {''INT'', ''INTEGER'', ''BIGINT''} then Some KindInt
      else if u \<in> {''FLOAT'', ''REAL'', ''DOUBLE''} then Some KindFloat
      else if u \<in> {''TEXT'', ''STRING'', ''VARCHAR''} then Some KindText
      else if u \<in> {''BOOL'', ''BOOLEAN''} then Some KindBool
      else None)"

definition aggregates :: "string list" where
  "aggregates = [''COUNT'', ''SUM'', ''AVG'', ''MIN'', ''MAX'']"

definition IsAggregate :: "casing \<Rightarrow> string \<Rightarrow> bool" where
  "IsAggregate cs name \<longleftrightarrow> ToUpper cs name \<in> set aggregates"

section \<open>Expressions\<close>

text \<open>One definition per production; \<open>ex\<close> stands for \<open>p.expr\<close> and \<open>n\<close> bounds the lists.\<close>

type_synonym expr_parser = "int \<Rightarrow> Parser \<Rightarrow> Expr parsed"

definition p_funcCall :: "casing \<Rightarrow> expr_parser \<Rightarrow> Parser \<Rightarrow> Expr parsed" where
  "p_funcCall cs ex p =
     (let tok = ps_tok p; name = ToUpper cs (tk_Text tok) in
      if name \<notin> set aggregates then fail_with (ParseFailed (UnknownFunction (tk_Text tok)) (tk_Pos tok))
      else
        pbind (expect cs ''('' (Parser_advance cs p)) (\<lambda>_ p1.
          pbind
            (if sees p1 ''*'' then
               (if name \<noteq> ''COUNT'' then fail_with (perrorf p1 (StarOnlyCount name))
                else ret (EFuncCall name None True) (Parser_advance cs p1))
             else
               pbind (ex PrecLowest p1) (\<lambda>arg p2.
                 if HasAggregate arg then fail_with (perrorf p2 NestedAggregate)
                 else ret (EFuncCall name (Some arg) False) p2))
            (\<lambda>call p3. pbind (expect cs '')'' p3) (\<lambda>_. ret call))))"

definition p_primary :: "casing \<Rightarrow> expr_parser \<Rightarrow> Parser \<Rightarrow> Expr parsed" where
  "p_primary cs ex p =
     (let tok = ps_tok p; q = Parser_advance cs p;
          nothing = fail_with (perrorf p (Expected ''an expression'' tok))
      in case tk_Kind tok of
        TInt \<Rightarrow>
          (case ParseInt (tk_Text tok) of
             None \<Rightarrow> fail_with (ParseFailed (IntegerRange (tk_Text tok)) (tk_Pos tok))
           | Some i \<Rightarrow> ret (ELiteral (VInt i)) q)
      | TFloat \<Rightarrow>
          (case ParseFloat (tk_Text tok) of
             None \<Rightarrow> fail_with (ParseFailed (FloatRange (tk_Text tok)) (tk_Pos tok))
           | Some f \<Rightarrow> ret (ELiteral (VFloat f)) q)
      | TString \<Rightarrow> ret (ELiteral (VText (tk_Text tok))) q
      | TKeyword \<Rightarrow>
          (if tk_Text tok = ''NULL'' then ret (ELiteral VNull) q
           else if tk_Text tok = ''TRUE'' then ret (ELiteral (VBool True)) q
           else if tk_Text tok = ''FALSE'' then ret (ELiteral (VBool False)) q
           else nothing)
      | TIdent \<Rightarrow>
          (if Token_Is (ps_next p) ''('' then p_funcCall cs ex p
           else if sees q ''.'' then
             pbind (ident cs ''a column name'' (Parser_advance cs q)) (\<lambda>name. ret (EColumn (tk_Text tok) name))
           else ret (EColumn [] (tk_Text tok)) q)
      | TPunct \<Rightarrow>
          (if tk_Text tok = ''('' then
             pbind (ex PrecLowest q) (\<lambda>e p1. pbind (expect cs '')'' p1) (\<lambda>_. ret e))
           else nothing)
      | TEOF \<Rightarrow> nothing)"

text \<open>\<open>postfix\<close> after its optional NOT: \<open>None\<close> when there was no postfix operator.\<close>

definition p_predicate :: "casing \<Rightarrow> nat \<Rightarrow> expr_parser \<Rightarrow> bool \<Rightarrow> Expr \<Rightarrow> Parser \<Rightarrow> Expr option parsed" where
  "p_predicate cs n ex negate left p =
     (if sees p ''IS'' then
        (case accept cs ''NOT'' (Parser_advance cs p) of
           (neg, p1) \<Rightarrow> pbind (expect cs ''NULL'' p1) (\<lambda>_. ret (Some (EIsNull left neg))))
      else if sees p ''BETWEEN'' then
        pbind (ex PrecAdd (Parser_advance cs p)) (\<lambda>lo p1.
          pbind (expect cs ''AND'' p1) (\<lambda>_ p2.
            pbind (ex PrecAdd p2) (\<lambda>hi. ret (Some (EBetween left lo hi negate)))))
      else if sees p ''IN'' then
        pbind (expect cs ''('' (Parser_advance cs p)) (\<lambda>_ p1.
          if sees p1 ''SELECT'' then fail_with (perrorf p1 Subquery)
          else
            pbind (comma_list cs n (ex PrecLowest) p1) (\<lambda>items p2.
              pbind (expect cs '')'' p2) (\<lambda>_. ret (Some (EIn left items negate)))))
      else if sees p ''LIKE'' then
        pbind (ex (PrecCompare + 1) (Parser_advance cs p)) (\<lambda>pattern. ret (Some (ELike left pattern negate)))
      else ret None p)"

definition p_postfix :: "casing \<Rightarrow> nat \<Rightarrow> expr_parser \<Rightarrow> Expr \<Rightarrow> Parser \<Rightarrow> Expr option parsed" where
  "p_postfix cs n ex left p =
     (if sees p ''NOT'' then
        (let q = Parser_advance cs p in
         if tk_Text (ps_next p) \<in> {''BETWEEN'', ''IN'', ''LIKE''} then p_predicate cs n ex True left q
         else fail_with (perrorf q (ExpectedAfterNot (ps_tok q))))
      else p_predicate cs n ex False left p)"

text \<open>The operators \<open>expr\<close> absorbs: what to do after \<open>postfix\<close> found nothing.\<close>

definition infix_prec :: "Parser \<Rightarrow> int" where
  "infix_prec p =
     (if tk_Kind (ps_tok p) \<noteq> TPunct \<and> tk_Kind (ps_tok p) \<noteq> TKeyword then PrecLowest
      else BinaryPrecedence (tk_Text (ps_tok p)))"

definition folded_sign :: "string \<Rightarrow> Expr \<Rightarrow> Parser \<Rightarrow> Expr parsed" where
  "folded_sign op operand p =
     (case operand of
        ELiteral v \<Rightarrow>
          if IsNumeric v then
            (if op = ''+'' then ret operand p
             else case Neg v of
               Inl e \<Rightarrow> fail_with (perrorf p (NegFailed e))
             | Inr neg \<Rightarrow> ret (ELiteral neg) p)
          else if op = ''+'' then ret operand p else ret (EUnary ''-'' operand) p
      | _ \<Rightarrow> if op = ''+'' then ret operand p else ret (EUnary ''-'' operand) p)"

fun p_expr :: "casing \<Rightarrow> nat \<Rightarrow> int \<Rightarrow> Parser \<Rightarrow> Expr parsed"
  and p_climb :: "casing \<Rightarrow> nat \<Rightarrow> int \<Rightarrow> Expr \<Rightarrow> Parser \<Rightarrow> Expr parsed"
  and p_unary :: "casing \<Rightarrow> nat \<Rightarrow> Parser \<Rightarrow> Expr parsed"
where
  "p_expr cs 0 mn p = None"
| "p_expr cs (Suc n) mn p = pbind (p_unary cs n p) (\<lambda>left p1. p_climb cs n mn left p1)"
| "p_climb cs 0 mn left p = None"
| "p_climb cs (Suc n) mn left p =
     pbind (if mn \<le> PrecCompare then p_postfix cs n (\<lambda>m q. p_expr cs n m q) left p else ret None p) (\<lambda>handled p1.
       case handled of
         Some e \<Rightarrow> p_climb cs n mn e p1
       | None \<Rightarrow>
           (let op = tk_Text (ps_tok p1); prec = infix_prec p1 in
            if prec = PrecLowest \<or> prec < mn then ret left p1
            else
              pbind (p_expr cs n (prec + 1) (Parser_advance cs p1)) (\<lambda>right p2.
                p_climb cs n mn (EBinary (if op = ''=='' then ''='' else op) left right) p2)))"
| "p_unary cs 0 p = None"
| "p_unary cs (Suc n) p =
     (if sees p ''NOT'' then
        pbind (p_expr cs n (PrecNot + 1) (Parser_advance cs p)) (\<lambda>operand. ret (EUnary ''NOT'' operand))
      else if sees p ''-'' \<or> sees p ''+'' then
        pbind (p_unary cs n (Parser_advance cs p)) (folded_sign (tk_Text (ps_tok p)))
      else p_primary cs (\<lambda>m q. p_expr cs n m q) p)"

text \<open>Four calls per token that is left, and a token is at least a byte: twice the lookahead more than that
  is enough fuel for any expression.\<close>

definition fuel_for :: "Parser \<Rightarrow> nat" where
  "fuel_for p = 4 * length (lx_src (ps_lex p)) + 12"

definition expression :: "casing \<Rightarrow> Parser \<Rightarrow> Expr parsed" where
  "expression cs p = p_expr cs (fuel_for p) PrecLowest p"

section \<open>Statements\<close>

definition optional_expr :: "casing \<Rightarrow> string \<Rightarrow> Parser \<Rightarrow> Expr option parsed" where
  "optional_expr cs word p =
     (case accept cs word p of
        (True, p1) \<Rightarrow> pbind (expression cs p1) (\<lambda>e. ret (Some e))
      | (False, p1) \<Rightarrow> ret None p1)"

definition resultColumn :: "casing \<Rightarrow> Parser \<Rightarrow> ResultColumn parsed" where
  "resultColumn cs p =
     (if sees p ''*'' then ret \<lparr>rc_Star = True, rc_Expr = None, rc_Alias = []\<rparr> (Parser_advance cs p)
      else
        pbind (expression cs p) (\<lambda>e p1.
          let col = (\<lambda>alias. \<lparr>rc_Star = False, rc_Expr = Some e, rc_Alias = alias\<rparr>) in
          case accept cs ''AS'' p1 of
            (True, p2) \<Rightarrow> pbind (ident cs ''a column alias'' p2) (\<lambda>alias. ret (col alias))
          | (False, p2) \<Rightarrow>
              if tk_Kind (ps_tok p2) = TIdent then ret (col (tk_Text (ps_tok p2))) (Parser_advance cs p2)
              else ret (col []) p2))"

definition countExpr :: "casing \<Rightarrow> string \<Rightarrow> Parser \<Rightarrow> Expr parsed" where
  "countExpr cs clause p =
     pbind (expression cs p) (\<lambda>e p1.
       case e of
         ELiteral (VInt i) \<Rightarrow>
           if i <s 0 then fail_with (ParseFailed (MustNotBeNegative clause) (tk_Pos (ps_tok p)))
           else ret e p1
       | _ \<Rightarrow> fail_with (ParseFailed (WantsInteger clause e) (tk_Pos (ps_tok p))))"

definition optional_count :: "casing \<Rightarrow> string \<Rightarrow> Parser \<Rightarrow> Expr option parsed" where
  "optional_count cs clause p =
     (case accept cs clause p of
        (True, p1) \<Rightarrow> pbind (countExpr cs clause p1) (\<lambda>e. ret (Some e))
      | (False, p1) \<Rightarrow> ret None p1)"

definition orderTerm :: "casing \<Rightarrow> Parser \<Rightarrow> OrderTerm parsed" where
  "orderTerm cs p =
     pbind (expression cs p) (\<lambda>e p1.
       case accept cs ''DESC'' p1 of
         (True, p2) \<Rightarrow> ret \<lparr>ot_Expr = e, ot_Desc = True\<rparr> p2
       | (False, p2) \<Rightarrow> ret \<lparr>ot_Expr = e, ot_Desc = False\<rparr> (snd (accept cs ''ASC'' p2)))"

text \<open>\<open>GROUP BY\<close> and \<open>ORDER BY\<close> with their lists.\<close>

definition by_clause :: "casing \<Rightarrow> string \<Rightarrow> (Parser \<Rightarrow> 'a parsed) \<Rightarrow> Parser \<Rightarrow> 'a list parsed" where
  "by_clause cs word item p =
     (case accept cs word p of
        (True, p1) \<Rightarrow> pbind (expect cs ''BY'' p1) (\<lambda>_ p2. comma_list cs (fuel_for p2) item p2)
      | (False, p1) \<Rightarrow> ret [] p1)"

definition where_clause :: "casing \<Rightarrow> Parser \<Rightarrow> Expr option parsed" where
  "where_clause cs p =
     pbind (optional_expr cs ''WHERE'' p) (\<lambda>w p1.
       if w \<noteq> None \<and> HasAggregate (the w) then fail_with (perrorf p1 AggregateInWhere) else ret w p1)"

definition p_selectStmt :: "casing \<Rightarrow> Parser \<Rightarrow> Stmt parsed" where
  "p_selectStmt cs p =
     pbind (expect cs ''SELECT'' p) (\<lambda>_ p0.
     case accept cs ''DISTINCT'' p0 of (distinct_rows, p1) \<Rightarrow>
     pbind (comma_list cs (fuel_for p1) (resultColumn cs) p1) (\<lambda>cols p2.
     pbind (expect cs ''FROM'' p2) (\<lambda>_ p3.
     pbind (ident cs ''a table name'' p3) (\<lambda>table p4.
     pbind (where_clause cs p4) (\<lambda>w p5.
     pbind (by_clause cs ''GROUP'' (expression cs) p5) (\<lambda>group p6.
     pbind (by_clause cs ''ORDER'' (orderTerm cs) p6) (\<lambda>order p7.
     pbind (optional_count cs ''LIMIT'' p7) (\<lambda>lim p8.
     pbind (optional_count cs ''OFFSET'' p8) (\<lambda>off.
       ret (SelectStmt \<lparr>s_Columns = cols, s_Table = table, s_Where = w, s_GroupBy = group,
         s_OrderBy = order, s_Limit = lim, s_Offset = off, s_Distinct = distinct_rows\<rparr>))))))))))"

definition value_item :: "casing \<Rightarrow> Parser \<Rightarrow> Expr parsed" where
  "value_item cs p =
     pbind (expression cs p) (\<lambda>e p1.
       if \<not> IsConstant e then fail_with (perrorf p1 (NotConstant e)) else ret e p1)"

definition value_row :: "casing \<Rightarrow> Parser \<Rightarrow> Expr list parsed" where
  "value_row cs p =
     pbind (expect cs ''('' p) (\<lambda>_ p1.
     pbind (comma_list cs (fuel_for p1) (value_item cs) p1) (\<lambda>row p2.
     pbind (expect cs '')'' p2) (\<lambda>_. ret row)))"

definition column_names :: "casing \<Rightarrow> Parser \<Rightarrow> string list parsed" where
  "column_names cs p =
     (case accept cs ''('' p of
        (True, p1) \<Rightarrow>
          pbind (comma_list cs (fuel_for p1) (ident cs ''a column name'') p1) (\<lambda>names p2.
          pbind (expect cs '')'' p2) (\<lambda>_. ret names))
      | (False, p1) \<Rightarrow> ret [] p1)"

definition p_insertStmt :: "casing \<Rightarrow> Parser \<Rightarrow> Stmt parsed" where
  "p_insertStmt cs p =
     pbind (expect cs ''INSERT'' p) (\<lambda>_ p0.
     pbind (expect cs ''INTO'' p0) (\<lambda>_ p1.
     pbind (ident cs ''a table name'' p1) (\<lambda>table p2.
     pbind (column_names cs p2) (\<lambda>names p3.
     pbind (expect cs ''VALUES'' p3) (\<lambda>_ p4.
     pbind (comma_list cs (fuel_for p4) (value_row cs) p4) (\<lambda>rows. ret (InsertStmt table names rows)))))))"

definition p_assignment :: "casing \<Rightarrow> Parser \<Rightarrow> (string \<times> Expr) parsed" where
  "p_assignment cs p =
     pbind (ident cs ''a column name'' p) (\<lambda>name p1.
     pbind (expect cs ''='' p1) (\<lambda>_ p2.
     pbind (expression cs p2) (\<lambda>e p3.
       if HasAggregate e then fail_with (perrorf p3 AggregateInSet) else ret (name, e) p3)))"

definition p_updateStmt :: "casing \<Rightarrow> Parser \<Rightarrow> Stmt parsed" where
  "p_updateStmt cs p =
     pbind (expect cs ''UPDATE'' p) (\<lambda>_ p0.
     pbind (ident cs ''a table name'' p0) (\<lambda>table p1.
     pbind (expect cs ''SET'' p1) (\<lambda>_ p2.
     pbind (comma_list cs (fuel_for p2) (p_assignment cs) p2) (\<lambda>sets p3.
     pbind (optional_expr cs ''WHERE'' p3) (\<lambda>w. ret (UpdateStmt table sets w))))))"

definition p_deleteStmt :: "casing \<Rightarrow> Parser \<Rightarrow> Stmt parsed" where
  "p_deleteStmt cs p =
     pbind (expect cs ''DELETE'' p) (\<lambda>_ p0.
     pbind (expect cs ''FROM'' p0) (\<lambda>_ p1.
     pbind (ident cs ''a table name'' p1) (\<lambda>table p2.
     pbind (optional_expr cs ''WHERE'' p2) (\<lambda>w. ret (DeleteStmt table w)))))"

text \<open>The constraints of a column, in any order and number.\<close>

fun constraints :: "casing \<Rightarrow> nat \<Rightarrow> ColumnDef \<Rightarrow> Parser \<Rightarrow> ColumnDef parsed" where
  "constraints cs 0 def p = None"
| "constraints cs (Suc n) def p =
     (case acceptSeq cs [''PRIMARY'', ''KEY''] p of
        (True, p1) \<Rightarrow> constraints cs n (def\<lparr>cd_PrimaryKey := True, cd_NotNull := True\<rparr>) p1
      | (False, p1) \<Rightarrow>
          (case acceptSeq cs [''NOT'', ''NULL''] p1 of
             (True, p2) \<Rightarrow> constraints cs n (def\<lparr>cd_NotNull := True\<rparr>) p2
           | (False, p2) \<Rightarrow>
               if sees p2 ''PRIMARY''
               then (let q = Parser_advance cs p2 in
                     fail_with (perrorf q (Expected ''KEY after PRIMARY'' (ps_tok q))))
               else ret def p2))"

definition columnDef :: "casing \<Rightarrow> Parser \<Rightarrow> ColumnDef parsed" where
  "columnDef cs p =
     pbind (ident cs ''a column name'' p) (\<lambda>name p1.
       if tk_Kind (ps_tok p1) \<noteq> TIdent then fail_with (perrorf p1 (ExpectedType name (ps_tok p1)))
       else
         (case ParseKind cs (tk_Text (ps_tok p1)) of
            None \<Rightarrow> fail_with (ParseFailed (UnknownType (tk_Text (ps_tok p1))) (tk_Pos (ps_tok p1)))
          | Some k \<Rightarrow>
              constraints cs (fuel_for p1)
                \<lparr>cd_Name = name, cd_Type = k, cd_NotNull = False, cd_PrimaryKey = False\<rparr>
                (Parser_advance cs p1)))"

definition createTableTail :: "casing \<Rightarrow> Parser \<Rightarrow> Stmt parsed" where
  "createTableTail cs p =
     (case acceptSeq cs [''IF'', ''NOT'', ''EXISTS''] p of (ine, p0) \<Rightarrow>
        pbind (ident cs ''a table name'' p0) (\<lambda>table p1.
        pbind (expect cs ''('' p1) (\<lambda>_ p2.
        pbind (comma_list cs (fuel_for p2) (columnDef cs) p2) (\<lambda>defs p3.
        pbind (expect cs '')'' p3) (\<lambda>_. ret (CreateTableStmt table defs ine))))))"

definition createIndexTail :: "casing \<Rightarrow> Parser \<Rightarrow> Stmt parsed" where
  "createIndexTail cs p =
     (case acceptSeq cs [''IF'', ''NOT'', ''EXISTS''] p of (ine, p0) \<Rightarrow>
        pbind (ident cs ''an index name'' p0) (\<lambda>name p1.
        pbind (expect cs ''ON'' p1) (\<lambda>_ p2.
        pbind (ident cs ''a table name'' p2) (\<lambda>table p3.
        pbind (expect cs ''('' p3) (\<lambda>_ p4.
        pbind (ident cs ''a column name'' p4) (\<lambda>column p5.
          if sees p5 '','' then fail_with (perrorf p5 OneColumnIndex)
          else pbind (expect cs '')'' p5) (\<lambda>_. ret (CreateIndexStmt name table column ine))))))))"

definition p_createStmt :: "casing \<Rightarrow> Parser \<Rightarrow> Stmt parsed" where
  "p_createStmt cs p =
     pbind (expect cs ''CREATE'' p) (\<lambda>_ p0.
       case accept cs ''TABLE'' p0 of
         (True, p1) \<Rightarrow> createTableTail cs p1
       | (False, p1) \<Rightarrow>
           (case accept cs ''INDEX'' p1 of
              (True, p2) \<Rightarrow> createIndexTail cs p2
            | (False, p2) \<Rightarrow>
                fail_with (perrorf p2 (Expected ''TABLE or INDEX after CREATE'' (ps_tok p2)))))"

text \<open>\<open>[IF EXISTS] name\<close> behind DROP TABLE and DROP INDEX.\<close>

definition drop_tail :: "casing \<Rightarrow> string \<Rightarrow> (string \<Rightarrow> bool \<Rightarrow> Stmt) \<Rightarrow> Parser \<Rightarrow> Stmt parsed" where
  "drop_tail cs what mk p =
     (case acceptSeq cs [''IF'', ''EXISTS''] p of
        (ie, p1) \<Rightarrow> pbind (ident cs what p1) (\<lambda>name. ret (mk name ie)))"

definition p_dropStmt :: "casing \<Rightarrow> Parser \<Rightarrow> Stmt parsed" where
  "p_dropStmt cs p =
     pbind (expect cs ''DROP'' p) (\<lambda>_ p0.
       case accept cs ''TABLE'' p0 of
         (True, p1) \<Rightarrow> drop_tail cs ''a table name'' DropTableStmt p1
       | (False, p1) \<Rightarrow>
           (case accept cs ''INDEX'' p1 of
              (True, p2) \<Rightarrow> drop_tail cs ''an index name'' DropIndexStmt p2
            | (False, p2) \<Rightarrow>
                fail_with (perrorf p2 (Expected ''TABLE or INDEX after DROP'' (ps_tok p2)))))"

definition transaction_word :: "casing \<Rightarrow> Stmt \<Rightarrow> Parser \<Rightarrow> Stmt parsed" where
  "transaction_word cs s p = ret s (snd (accept cs ''TRANSACTION'' (Parser_advance cs p)))"

text \<open>\<open>Statement\<close> and \<open>explainStmt\<close> call each other; EXPLAIN refuses to explain EXPLAIN, so two rounds do.\<close>

fun Statement_rounds :: "casing \<Rightarrow> nat \<Rightarrow> Parser \<Rightarrow> Stmt parsed" where
  "Statement_rounds cs 0 p = None"
| "Statement_rounds cs (Suc n) p =
     (let nothing = fail_with (perrorf p (Expected ''a statement'' (ps_tok p))); word = tk_Text (ps_tok p) in
      case ps_err p of
        Some e \<Rightarrow> fail_with (LexFailed e)
      | None \<Rightarrow>
          if tk_Kind (ps_tok p) \<noteq> TKeyword then nothing
          else if word = ''SELECT'' then p_selectStmt cs p
          else if word = ''INSERT'' then p_insertStmt cs p
          else if word = ''UPDATE'' then p_updateStmt cs p
          else if word = ''DELETE'' then p_deleteStmt cs p
          else if word = ''CREATE'' then p_createStmt cs p
          else if word = ''DROP'' then p_dropStmt cs p
          else if word = ''EXPLAIN'' then
            pbind (expect cs ''EXPLAIN'' p) (\<lambda>_ p1.
              if sees p1 ''EXPLAIN'' then fail_with (perrorf p1 ExplainExplain)
              else pbind (Statement_rounds cs n p1) (\<lambda>inner. ret (ExplainStmt inner)))
          else if word = ''BEGIN'' then transaction_word cs BeginStmt p
          else if word = ''COMMIT'' then transaction_word cs CommitStmt p
          else if word = ''ROLLBACK'' then transaction_word cs RollbackStmt p
          else nothing)"

definition Statement :: "casing \<Rightarrow> Parser \<Rightarrow> Stmt parsed" where
  "Statement cs p = Statement_rounds cs 2 p"

section \<open>Entry points\<close>

text \<open>\<open>return x, p.err\<close>\<close>

definition finish :: "'a \<Rightarrow> Parser \<Rightarrow> parse_error + 'a" where
  "finish a p = (case ps_err p of Some e \<Rightarrow> Inl (LexFailed e) | None \<Rightarrow> Inr a)"

definition Parse :: "casing \<Rightarrow> string \<Rightarrow> (parse_error + Stmt) option" where
  "Parse cs src =
     (case Statement cs (Parser_New cs src) of
        None \<Rightarrow> None
      | Some (Inl e) \<Rightarrow> Some (Inl e)
      | Some (Inr (stmt, p)) \<Rightarrow>
          (let q = snd (accept cs '';'' p) in
           if tk_Kind (ps_tok q) \<noteq> TEOF
           then Some (Inl (perrorf q (Expected ''end of statement'' (ps_tok q))))
           else Some (finish stmt q)))"

fun skip_semicolons :: "casing \<Rightarrow> nat \<Rightarrow> Parser \<Rightarrow> Parser option" where
  "skip_semicolons cs 0 p = None"
| "skip_semicolons cs (Suc n) p = (if sees p '';'' then skip_semicolons cs n (Parser_advance cs p) else Some p)"

fun script :: "casing \<Rightarrow> nat \<Rightarrow> Stmt list \<Rightarrow> Parser \<Rightarrow> (parse_error + Stmt list) option" where
  "script cs 0 out p = None"
| "script cs (Suc n) out p =
     (case skip_semicolons cs (fuel_for p) p of
        None \<Rightarrow> None
      | Some p0 \<Rightarrow>
          if tk_Kind (ps_tok p0) = TEOF then Some (finish out p0)
          else
            (case Statement cs p0 of
               None \<Rightarrow> None
             | Some (Inl e) \<Rightarrow> Some (Inl e)
             | Some (Inr (stmt, p1)) \<Rightarrow>
                 if \<not> sees p1 '';'' \<and> tk_Kind (ps_tok p1) \<noteq> TEOF
                 then Some (Inl (perrorf p1 (Expected '';'' (ps_tok p1))))
                 else script cs n (out @ [stmt]) p1))"

definition ParseMany :: "casing \<Rightarrow> string \<Rightarrow> (parse_error + Stmt list) option" where
  "ParseMany cs src = (let p = Parser_New cs src in script cs (fuel_for p) [] p)"

definition ParseExpr :: "casing \<Rightarrow> string \<Rightarrow> (parse_error + Expr) option" where
  "ParseExpr cs src =
     (case expression cs (Parser_New cs src) of
        None \<Rightarrow> None
      | Some (Inl e) \<Rightarrow> Some (Inl e)
      | Some (Inr (e, p)) \<Rightarrow>
          if tk_Kind (ps_tok p) \<noteq> TEOF
          then Some (Inl (perrorf p (Expected ''end of expression'' (ps_tok p))))
          else Some (finish e p))"

section \<open>The fuel is enough\<close>

text \<open>What is left to read: the bytes behind the cursor and the two tokens of lookahead.\<close>

definition left_over :: "Parser \<Rightarrow> nat" where
  "left_over p = length (lx_src (ps_lex p)) - lx_pos (ps_lex p) +
     (if tk_Kind (ps_tok p) = TEOF then 0 else 1) + (if tk_Kind (ps_next p) = TEOF then 0 else 1)"

definition same_text :: "Parser \<Rightarrow> Parser \<Rightarrow> bool" where
  "same_text p q \<longleftrightarrow> lx_src (ps_lex q) = lx_src (ps_lex p)"

text \<open>A parser ends: with an error, or with a result \<open>a\<close> and less than \<open>m a\<close> left to read of the same text.
  Most productions take at least one token.\<close>

definition ends :: "Parser \<Rightarrow> ('a \<Rightarrow> nat) \<Rightarrow> 'a parsed \<Rightarrow> bool" where
  "ends p m r \<longleftrightarrow>
     (case r of None \<Rightarrow> False | Some (Inl e) \<Rightarrow> True | Some (Inr (a, q)) \<Rightarrow> same_text p q \<and> left_over q < m a)"

abbreviation takes_some :: "Parser \<Rightarrow> 'a parsed \<Rightarrow> bool" where
  "takes_some p r \<equiv> ends p (\<lambda>_. left_over p) r"

abbreviation takes_any :: "Parser \<Rightarrow> 'a parsed \<Rightarrow> bool" where
  "takes_any p r \<equiv> ends p (\<lambda>_. Suc (left_over p)) r"

lemma parsed_cases:
  obtains (Fuel) "r = None" | (Fail) e where "r = Some (Inl e)" | (Done) a q where "r = Some (Inr (a, q))"
  by (metis obj_sumE option.exhaust surj_pair)

lemma same_text_refl [simp, intro]: "same_text p p"
  by (simp add: same_text_def)

lemma same_text_trans: "same_text p q \<Longrightarrow> same_text q r \<Longrightarrow> same_text p r"
  by (simp add: same_text_def)

lemma left_over_le: "left_over p \<le> length (lx_src (ps_lex p)) + 2"
  using diff_le_self [of "length (lx_src (ps_lex p))" "lx_pos (ps_lex p)"]
  by (auto simp: left_over_def simp del: diff_le_self)

lemma fuel_for_left: "same_text p q \<Longrightarrow> left_over q \<le> left_over p \<Longrightarrow> 4 * left_over q + 4 \<le> fuel_for p"
  using left_over_le [of q] by (simp add: fuel_for_def same_text_def)

lemma same_text_advance [simp, intro]: "same_text p (Parser_advance cs p)"
  using moved_Next [of "ps_lex p" cs]
  by (auto simp: same_text_def Parser_advance_def moved_def split: prod.split sum.split)

text \<open>Every call of \<open>Next\<close> that does not report the end takes a byte, an error included.\<close>

lemma left_over_advance:
  "left_over (Parser_advance cs p) \<le> left_over p - (if tk_Kind (ps_tok p) = TEOF then 0 else 1)"
proof (cases "Lexer_Next cs (ps_lex p)")
  case (Pair r l)
  show ?thesis
  proof (cases r)
    case (Inl e)
    then show ?thesis using Pair moved_Next [of "ps_lex p" cs]
      by (auto simp: left_over_def Parser_advance_def moved_def intro: diff_le_mono2)
  next
    case (Inr tok)
    then show ?thesis
      using Pair moved_Next [of "ps_lex p" cs] Next_progress [of cs "ps_lex p" tok l]
      by (auto simp: left_over_def Parser_advance_def moved_def)
  qed
qed

lemma advance_less: "tk_Kind (ps_tok p) \<noteq> TEOF \<Longrightarrow> left_over (Parser_advance cs p) < left_over p"
  using left_over_advance [of cs p] by (simp add: left_over_def split: if_splits)

lemma advance_le: "left_over (Parser_advance cs p) \<le> left_over p"
  using left_over_advance [of cs p] by simp

lemma sees_not_end: "sees p s \<Longrightarrow> tk_Kind (ps_tok p) \<noteq> TEOF"
  by (auto simp: sees_def Token_Is_def)

lemma ends_ret [simp]: "ends p m (ret a q) \<longleftrightarrow> same_text p q \<and> left_over q < m a"
  by (simp add: ends_def ret_def)

lemma ends_fail [simp, intro]: "ends p m (fail_with e)"
  by (simp add: ends_def fail_with_def)

lemma ends_bind:
  assumes "ends q k r" and "same_text p q"
    and "\<And>a q'. same_text p q' \<Longrightarrow> left_over q' < k a \<Longrightarrow> ends p m (f a q')"
  shows "ends p m (pbind r f)"
  using assms(1,3) same_text_trans [OF assms(2)]
  by (cases r rule: parsed_cases) (simp_all add: ends_def pbind_def)

lemma ends_mono: "ends q k r \<Longrightarrow> same_text p q \<Longrightarrow> (\<And>a. k a \<le> m a) \<Longrightarrow> ends p m r"
  by (cases r rule: parsed_cases) (auto simp: ends_def same_text_def intro: order_less_le_trans)

lemma takes_expect: "takes_some p (expect cs s p)"
  using advance_less [of p cs] sees_not_end [of p s] by (auto simp: expect_def)

lemma takes_ident: "takes_some p (ident cs what p)"
  using advance_less [of p cs] by (auto simp: ident_def)

lemma accept_ends:
  assumes "accept cs s p = (b, q)"
  shows "same_text p q" and "left_over q \<le> left_over p" and "b \<Longrightarrow> left_over q < left_over p"
  using assms advance_less [of p cs] sees_not_end [of p s] by (auto simp: accept_def split: if_splits)

lemma takes_comma_list:
  assumes "\<And>q. same_text p q \<Longrightarrow> left_over q \<le> left_over p \<Longrightarrow> takes_some q (item q)"
    and "left_over p < n"
  shows "takes_some p (comma_list cs n item p)"
  using assms
proof (induction n arbitrary: p)
  case (Suc n)
  have more: "ends p (\<lambda>_. left_over p) (pbind (comma_list cs n item q) (\<lambda>xs. ret (x # xs)))"
    if "same_text p q" "left_over q < left_over p" for q x
  proof (rule ends_bind [OF Suc.IH])
    show "takes_some q' (item q')" if "same_text q q'" "left_over q' \<le> left_over q" for q'
      using Suc.prems(1) [of q'] same_text_trans \<open>same_text p q\<close> that \<open>left_over q < left_over p\<close> by simp
  qed (use that Suc.prems(2) in auto)
  show ?case
  proof (simp only: comma_list.simps, rule ends_bind [OF Suc.prems(1)])
    fix x p1
    assume p1: "same_text p p1" "left_over p1 < left_over p"
    obtain b p2 where p2: "accept cs '','' p1 = (b, p2)" by (cases "accept cs '','' p1")
    then have "same_text p p2" "left_over p2 < left_over p"
      using accept_ends [OF p2] same_text_trans [OF p1(1)] p1(2) by auto
    then show "takes_some p
        (case accept cs '','' p1 of (True, p2) \<Rightarrow> pbind (comma_list cs n item p2) (\<lambda>xs. ret (x # xs))
         | (False, p2) \<Rightarrow> ret [x] p2)"
      using p2 more by (cases b) simp_all
  qed auto
qed simp

text \<open>What the recursive calls of a production may assume.\<close>

definition deeper :: "Parser \<Rightarrow> expr_parser \<Rightarrow> bool" where
  "deeper p ex \<longleftrightarrow> (\<forall>m q. same_text p q \<longrightarrow> left_over q < left_over p \<longrightarrow> takes_some q (ex m q))"

lemma deeperD: "deeper p ex \<Longrightarrow> same_text p q \<Longrightarrow> left_over q < left_over p \<Longrightarrow> takes_some q (ex m q)"
  by (simp add: deeper_def)

lemma step_in: "tk_Kind (ps_tok p) \<noteq> TEOF \<Longrightarrow>
    same_text p (Parser_advance cs p) \<and> left_over (Parser_advance cs p) < left_over p"
  using advance_less by simp

lemma takes_funcCall:
  assumes "deeper p ex" and "tk_Kind (ps_tok p) = TIdent"
  shows "takes_some p (p_funcCall cs ex p)"
proof -
  have q: "same_text p (Parser_advance cs p)" "left_over (Parser_advance cs p) < left_over p"
    using step_in [of p cs] assms(2) by simp_all
  have call: "takes_some p1 (if sees p1 ''*'' then
               (if name \<noteq> ''COUNT'' then fail_with (perrorf p1 (StarOnlyCount name))
                else ret (EFuncCall name None True) (Parser_advance cs p1))
             else
               pbind (ex PrecLowest p1) (\<lambda>arg p2.
                 if HasAggregate arg then fail_with (perrorf p2 NestedAggregate)
                 else ret (EFuncCall name (Some arg) False) p2))"
    if "same_text p p1" "left_over p1 < left_over p" for p1 name
    using step_in [of p1 cs] sees_not_end [of p1 "''*''"]
    by (auto intro!: ends_bind [OF deeperD [OF assms(1) that]])
  show ?thesis
    unfolding p_funcCall_def Let_def
    by (auto intro!: ends_bind [OF takes_expect q(1)] ends_bind [OF call] ends_bind [OF takes_expect] q)
      (use q(2) in auto)
qed

lemma takes_primary:
  assumes "deeper p ex"
  shows "takes_some p (p_primary cs ex p)"
proof (cases "tk_Kind (ps_tok p) = TEOF")
  case True
  then show ?thesis by (simp add: p_primary_def Let_def)
next
  case False
  let ?q = "Parser_advance cs p"
  have q: "same_text p ?q" "left_over ?q < left_over p" using step_in [OF False, of cs] by simp_all
  have dot: "takes_some p (pbind (ident cs ''a column name'' (Parser_advance cs ?q)) (\<lambda>name. ret (EColumn t name)))" for t
    using q advance_le [of cs ?q] same_text_trans [OF q(1) same_text_advance, of cs]
    by (auto intro!: ends_bind [OF takes_ident])
  have parens: "takes_some p (pbind (ex PrecLowest ?q) (\<lambda>e p1. pbind (expect cs '')'' p1) (\<lambda>_. ret e)))"
    using q by (auto intro!: ends_bind [OF deeperD [OF assms]] ends_bind [OF takes_expect])
  show ?thesis
    using q dot parens takes_funcCall [OF assms]
    by (auto simp: p_primary_def Let_def split: TokenKind.split option.split)
qed

abbreviation handled_left :: "Parser \<Rightarrow> Expr option \<Rightarrow> nat" where
  "handled_left p h \<equiv> (if h = None then Suc (left_over p) else left_over p)"

lemma handles_predicate:
  assumes "deeper p ex" and "left_over p < n"
  shows "ends p (handled_left p) (p_predicate cs n ex negate left p)"
proof -
  let ?q = "Parser_advance cs p"
  have q: "same_text p ?q" "left_over ?q < left_over p" if "sees p s" for s
    using step_in sees_not_end [OF that] by blast+
  have items: "takes_some p1 (comma_list cs n (ex PrecLowest) p1)"
    if p1: "same_text p p1" "left_over p1 < left_over p" for p1
    using takes_comma_list [of p1 "ex PrecLowest" n cs] deeperD [OF assms(1)] same_text_trans [OF p1(1)] p1(2) assms(2)
    by simp
  have null: "ends p (handled_left p) (case accept cs ''NOT'' ?q of
      (neg, p1) \<Rightarrow> pbind (expect cs ''NULL'' p1) (\<lambda>_. ret (Some (EIsNull left neg))))" if "sees p ''IS''"
  proof (cases "accept cs ''NOT'' ?q")
    case (Pair b p1)
    then show ?thesis
      using accept_ends [OF Pair] q [OF that] same_text_trans [OF q(1) [OF that]]
      by (auto intro!: ends_bind [OF takes_expect])
  qed
  show ?thesis
    unfolding p_predicate_def
    by (auto intro!: null ends_bind [OF deeperD [OF assms(1)]] ends_bind [OF takes_expect] ends_bind [OF items] q)
      (use q(2) in force)+
qed

lemma handles_postfix:
  assumes "deeper p ex" and "left_over p < n"
  shows "ends p (handled_left p) (p_postfix cs n ex left p)"
proof (cases "sees p ''NOT''")
  case True
  let ?q = "Parser_advance cs p"
  have q: "same_text p ?q" "left_over ?q < left_over p" using step_in sees_not_end [OF True] by blast+
  have "deeper ?q ex"
    using assms(1) q same_text_trans [OF q(1)] by (simp add: deeper_def)
  then have "ends ?q (handled_left ?q) (p_predicate cs n ex True left ?q)"
    using q(2) assms(2) by (intro handles_predicate) simp_all
  then have "ends p (handled_left p) (p_predicate cs n ex True left ?q)"
    by (rule ends_mono [OF _ q(1)]) (use q(2) in auto)
  then show ?thesis using True by (simp add: p_postfix_def Let_def)
qed (use assms handles_predicate in \<open>simp add: p_postfix_def\<close>)

lemma ends_folded_sign: "same_text p q \<Longrightarrow> left_over q < m \<Longrightarrow> ends p (\<lambda>_. m) (folded_sign op e q)"
  by (auto simp: folded_sign_def split: Expr.split sum.split)

text \<open>Four levels of calls per token: \<open>expr\<close>, \<open>unary\<close>, the loop, and the production below them.\<close>

definition fuelled :: "casing \<Rightarrow> nat \<Rightarrow> bool" where
  "fuelled cs n \<longleftrightarrow>
     (\<forall>p m. 4 * left_over p + 3 \<le> n \<longrightarrow> takes_some p (p_expr cs n m p)) \<and>
     (\<forall>p m e. 4 * left_over p + 2 \<le> n \<longrightarrow> takes_any p (p_climb cs n m e p)) \<and>
     (\<forall>p. 4 * left_over p + 2 \<le> n \<longrightarrow> takes_some p (p_unary cs n p))"

lemma fuelledD:
  assumes "fuelled cs n"
  shows "4 * left_over p + 3 \<le> n \<Longrightarrow> takes_some p (p_expr cs n m p)"
    and "4 * left_over p + 2 \<le> n \<Longrightarrow> takes_any p (p_climb cs n m e p)"
    and "4 * left_over p + 2 \<le> n \<Longrightarrow> takes_some p (p_unary cs n p)"
  using assms by (simp_all add: fuelled_def)

lemma fuelled_deeper:
  "fuelled cs n \<Longrightarrow> 4 * left_over p + 2 \<le> Suc n \<Longrightarrow> deeper p (\<lambda>m q. p_expr cs n m q)"
  by (auto simp: deeper_def intro!: fuelledD(1))

lemma next_in:
  assumes "same_text p q" and "left_over q \<le> left_over p" and "tk_Kind (ps_tok q) \<noteq> TEOF"
  shows "same_text p (Parser_advance cs q)" and "left_over (Parser_advance cs q) < left_over p"
  using step_in [OF assms(3), of cs] same_text_trans [OF assms(1)] assms(2) by auto

lemma takes_expr:
  assumes "fuelled cs n" and "4 * left_over p + 3 \<le> Suc n"
  shows "takes_some p (p_expr cs (Suc n) mn p)"
  unfolding p_expr.simps
proof (rule ends_bind [OF fuelledD(3) [OF assms(1)] same_text_refl])
  fix left p1
  assume "same_text p p1" "left_over p1 < left_over p"
  then show "takes_some p (p_climb cs n mn left p1)"
    by (intro ends_mono [OF fuelledD(2) [OF assms(1)]]) (use assms(2) in auto)
qed (use assms(2) in simp)

lemma takes_climb:
  assumes "fuelled cs n" and "4 * left_over p + 2 \<le> Suc n"
  shows "takes_any p (p_climb cs (Suc n) mn e p)"
  unfolding p_climb.simps
proof (rule ends_bind [OF _ same_text_refl])
  show "ends p (handled_left p) (if mn \<le> PrecCompare then p_postfix cs n (\<lambda>m q. p_expr cs n m q) e p else ret None p)"
    using handles_postfix [OF fuelled_deeper [OF assms], of n cs e] assms(2) by auto
next
  have climbs: "takes_any p (p_climb cs n mn e q)" if "same_text p q" "left_over q < left_over p" for q e
    by (rule ends_mono [OF fuelledD(2) [OF assms(1)] that(1)]) (use that(2) assms(2) in auto)
  fix handled p1
  assume p1: "same_text p p1" "left_over p1 < handled_left p handled"
  show "takes_any p (case handled of
      Some e \<Rightarrow> p_climb cs n mn e p1
    | None \<Rightarrow>
       (let op = tk_Text (ps_tok p1); prec = infix_prec p1 in
        if prec = PrecLowest \<or> prec < mn then ret e p1
        else
          pbind (p_expr cs n (prec + 1) (Parser_advance cs p1)) (\<lambda>right p2.
            p_climb cs n mn (EBinary (if op = ''=='' then ''='' else op) e right) p2)))"
  proof (cases handled)
    case None
    have q: "same_text p (Parser_advance cs p1)" "left_over (Parser_advance cs p1) < left_over p"
      if "infix_prec p1 \<noteq> PrecLowest"
      using next_in [of p p1] p1 None that by (auto simp: infix_prec_def split: if_splits)
    show ?thesis
      using None p1 q assms(2)
      by (auto simp: Let_def intro!: ends_bind [OF fuelledD(1) [OF assms(1)] q(1)] climbs)
  qed (use p1 climbs in simp)
qed

lemma takes_unary:
  assumes "fuelled cs n" and "4 * left_over p + 2 \<le> Suc n"
  shows "takes_some p (p_unary cs (Suc n) p)"
proof -
  have q: "same_text p (Parser_advance cs p)" "left_over (Parser_advance cs p) < left_over p" if "sees p s" for s
    using step_in sees_not_end [OF that] by blast+
  have sign: "takes_some p (pbind (p_unary cs n (Parser_advance cs p)) (folded_sign (tk_Text (ps_tok p))))"
    if "sees p s" for s
    using q [OF that] assms(2)
    by (auto intro!: ends_bind [OF fuelledD(3) [OF assms(1)]] ends_folded_sign)
  have neg: "takes_some p (pbind (p_expr cs n (PrecNot + 1) (Parser_advance cs p)) (\<lambda>operand. ret (EUnary ''NOT'' operand)))"
    if "sees p s" for s
    using q [OF that] assms(2) by (auto intro!: ends_bind [OF fuelledD(1) [OF assms(1)]])
  show ?thesis using sign neg takes_primary [OF fuelled_deeper [OF assms]] by auto
qed

lemma all_fuelled: "fuelled cs n"
proof (induction n)
  case (Suc n)
  then show ?case
    unfolding fuelled_def [of cs "Suc n"] by (intro conjI allI impI takes_expr takes_climb takes_unary)
qed (simp add: fuelled_def)

lemma takes_expression: "takes_some p (expression cs p)"
  using fuelledD(1) [OF all_fuelled, of p "fuel_for p" cs PrecLowest] fuel_for_left [of p p]
  by (simp add: expression_def)

section \<open>Statements end\<close>

text \<open>A list of items that each take something ends within the fuel of the parser it starts from.\<close>

lemma takes_list:
  assumes "\<And>q. takes_some q (item q)"
  shows "takes_some p (comma_list cs (fuel_for p) item p)"
  using takes_comma_list [of p item "fuel_for p"] assms fuel_for_left [of p p] by simp

text \<open>The next step of a production that started at \<open>p\<close> and has come to \<open>q\<close>.\<close>

lemma then_some:
  assumes "takes_some q r" and "same_text p q"
    and "\<And>a q'. same_text p q' \<Longrightarrow> left_over q' < left_over q \<Longrightarrow> ends p m (f a q')"
  shows "ends p m (pbind r f)"
  using assms by (rule ends_bind)

lemma then_any:
  assumes "takes_any q r" and "same_text p q"
    and "\<And>a q'. same_text p q' \<Longrightarrow> left_over q' \<le> left_over q \<Longrightarrow> ends p m (f a q')"
  shows "ends p m (pbind r f)"
  using assms(1,2) by (rule ends_bind) (use assms(3) in auto)

lemma then_accept:
  assumes "same_text p q" and "ends p m (g q)"
    and "\<And>q'. same_text p q' \<Longrightarrow> left_over q' < left_over q \<Longrightarrow> ends p m (f q')"
  shows "ends p m (case accept cs s q of (True, q') \<Rightarrow> f q' | (False, q') \<Rightarrow> g q')"
  using assms step_in [of q cs] sees_not_end [of q s] same_text_trans [OF assms(1)] by (auto simp: accept_def)

lemma then_maybe:
  assumes "same_text p q" and "\<And>b q'. same_text p q' \<Longrightarrow> left_over q' \<le> left_over q \<Longrightarrow> ends p m (f b q')"
  shows "ends p m (case accept cs s q of (b, q') \<Rightarrow> f b q')"
  using assms advance_le [of cs q] same_text_trans [OF assms(1) same_text_advance] by (auto simp: accept_def)

lemma restored [simp]:
  "same_text r (p\<lparr>ps_tok := ps_tok saved, ps_next := ps_next saved, ps_lex := ps_lex saved\<rparr>) \<longleftrightarrow> same_text r saved"
  "left_over (p\<lparr>ps_tok := ps_tok saved, ps_next := ps_next saved, ps_lex := ps_lex saved\<rparr>) = left_over saved"
  by (simp_all add: same_text_def left_over_def)

lemma accept_words_ends:
  assumes "same_text saved p" and "left_over p \<le> left_over saved"
  shows "same_text saved (snd (accept_words cs saved ws p)) \<and>
    left_over (snd (accept_words cs saved ws p)) \<le> left_over saved \<and>
    (fst (accept_words cs saved ws p) \<longrightarrow> ws \<noteq> [] \<longrightarrow> left_over (snd (accept_words cs saved ws p)) < left_over saved)"
  using assms
proof (induction ws arbitrary: p)
  case (Cons w ws)
  show ?case
  proof (cases "sees p w")
    case True
    note q = next_in [OF Cons.prems sees_not_end [OF True], of cs]
    have "left_over (snd (accept_words cs saved ws (Parser_advance cs p))) < left_over saved" if "ws = []"
      using that q(2) by simp
    then show ?thesis using True Cons.IH [OF q(1)] q(2) by (cases "ws = []") simp_all
  qed simp
qed simp

lemma then_seq:
  assumes "same_text p q" and "\<And>b q'. same_text p q' \<Longrightarrow> left_over q' \<le> left_over q \<Longrightarrow> ends p m (f b q')"
  shows "ends p m (case acceptSeq cs ws q of (b, q') \<Rightarrow> f b q')"
  using assms accept_words_ends [of q q cs ws] same_text_trans [OF assms(1)]
  by (cases "acceptSeq cs ws q") (auto simp: acceptSeq_def)

lemmas then_expect = then_some [OF takes_expect]
lemmas then_ident = then_some [OF takes_ident]
lemmas then_expression = then_some [OF takes_expression]
lemmas production = then_expect then_ident then_expression then_accept

lemma takes_optional_expr: "takes_any p (optional_expr cs word p)"
  unfolding optional_expr_def by (intro production) auto

lemma advance_within:
  "same_text p q \<Longrightarrow> left_over q < m \<Longrightarrow>
    same_text p (Parser_advance cs q) \<and> left_over (Parser_advance cs q) < m"
  using advance_le [of cs q] same_text_trans [OF _ same_text_advance] by auto

lemma takes_resultColumn: "takes_some p (resultColumn cs p)"
  unfolding resultColumn_def Let_def
  by (cases "sees p ''*''")
    (auto simp: advance_within step_in [OF sees_not_end] intro!: production)

lemma takes_countExpr: "takes_some p (countExpr cs clause p)"
  unfolding countExpr_def by (intro production) (auto split: Expr.split Value.split)

lemma takes_optional_count: "takes_any p (optional_count cs clause p)"
  unfolding optional_count_def by (intro production then_some [OF takes_countExpr]) auto

lemma takes_orderTerm: "takes_some p (orderTerm cs p)"
proof -
  have "same_text p (snd (accept cs s q)) \<and> left_over (snd (accept cs s q)) < left_over p"
    if "same_text p q" "left_over q < left_over p" for q s
    using that by (simp add: accept_def advance_within)
  then show ?thesis unfolding orderTerm_def by (intro production) auto
qed

lemma takes_by_clause:
  assumes "\<And>q. takes_some q (item q)"
  shows "takes_any p (by_clause cs word item p)"
  unfolding by_clause_def
  by (intro production) (auto intro: ends_mono [OF takes_list [OF assms]])

lemma takes_where_clause: "takes_any p (where_clause cs p)"
  unfolding where_clause_def by (intro then_any [OF takes_optional_expr]) auto

lemma takes_selectStmt: "takes_some p (p_selectStmt cs p)"
  unfolding p_selectStmt_def
  by (intro then_expect then_maybe then_some [OF takes_list [OF takes_resultColumn]] then_ident
      then_any [OF takes_where_clause] then_any [OF takes_by_clause [OF takes_expression]]
      then_any [OF takes_by_clause [OF takes_orderTerm]] then_any [OF takes_optional_count]) auto

lemma takes_value_item: "takes_some p (value_item cs p)"
  unfolding value_item_def by (intro production) auto

lemma takes_value_row: "takes_some p (value_row cs p)"
  unfolding value_row_def
  by (intro production then_some [OF takes_list [OF takes_value_item]]) auto

lemma takes_column_names: "takes_any p (column_names cs p)"
  unfolding column_names_def
  by (intro production then_some [OF takes_list [OF takes_ident]]) auto

lemma takes_insertStmt: "takes_some p (p_insertStmt cs p)"
  unfolding p_insertStmt_def
  by (intro production then_any [OF takes_column_names] then_some [OF takes_list [OF takes_value_row]]) auto

lemma takes_assignment: "takes_some p (p_assignment cs p)"
  unfolding p_assignment_def by (intro production) auto

lemma takes_updateStmt: "takes_some p (p_updateStmt cs p)"
  unfolding p_updateStmt_def
  by (intro production then_some [OF takes_list [OF takes_assignment]] then_any [OF takes_optional_expr]) auto

lemma takes_deleteStmt: "takes_some p (p_deleteStmt cs p)"
  unfolding p_deleteStmt_def by (intro production then_any [OF takes_optional_expr]) auto

lemma acceptSeq_ends:
  assumes "acceptSeq cs ws p = (b, q)"
  shows "same_text p q" and "left_over q \<le> left_over p" and "b \<Longrightarrow> ws \<noteq> [] \<Longrightarrow> left_over q < left_over p"
  using accept_words_ends [of p p cs ws] assms by (auto simp: acceptSeq_def)

lemma takes_constraints:
  assumes "left_over p < n"
  shows "takes_any p (constraints cs n def p)"
  using assms
proof (induction n arbitrary: def p)
  case (Suc n)
  have more: "takes_any p (constraints cs n def' q)" if "same_text p q" "left_over q < left_over p" for def' q
    by (rule ends_mono [OF Suc.IH that(1)]) (use that(2) Suc.prems in auto)
  obtain b1 p1 b2 p2 where p1: "acceptSeq cs [''PRIMARY'', ''KEY''] p = (b1, p1)"
    and p2: "acceptSeq cs [''NOT'', ''NULL''] p1 = (b2, p2)" by fastforce
  have "same_text p p2" using same_text_trans acceptSeq_ends(1) [OF p1] acceptSeq_ends(1) [OF p2] by blast
  then show ?case
    using p1 p2 more acceptSeq_ends [OF p1] acceptSeq_ends [OF p2] by (cases b1; cases b2) (simp_all add: Let_def)
qed simp

lemma takes_columnDef: "takes_some p (columnDef cs p)"
proof -
  have types: "takes_some p (constraints cs (fuel_for p1) def (Parser_advance cs p1))"
    if "same_text p p1" "left_over p1 < left_over p" "tk_Kind (ps_tok p1) \<noteq> TEOF" for p1 def
  proof (rule ends_mono [OF takes_constraints])
    show "left_over (Parser_advance cs p1) < fuel_for p1"
      using advance_le [of cs p1] fuel_for_left [of p1 p1] by simp
    show "same_text p (Parser_advance cs p1)" using advance_within that(1,2) by blast
    show "\<And>a. Suc (left_over (Parser_advance cs p1)) \<le> left_over p" using advance_less [OF that(3), of cs] that(2) by simp
  qed
  show ?thesis unfolding columnDef_def by (intro production) (auto intro!: types split: option.split)
qed

lemma takes_createTable: "takes_some p (createTableTail cs p)"
  unfolding createTableTail_def
  by (intro then_seq production then_some [OF takes_list [OF takes_columnDef]]) auto

lemma takes_createIndex: "takes_some p (createIndexTail cs p)"
  unfolding createIndexTail_def by (intro then_seq production) (auto intro!: production)

lemma takes_createStmt: "takes_some p (p_createStmt cs p)"
  unfolding p_createStmt_def
  by (intro production) (auto intro: ends_mono [OF takes_createTable] ends_mono [OF takes_createIndex])

lemma takes_drop_tail: "takes_some p (drop_tail cs what mk p)"
  unfolding drop_tail_def by (intro then_seq production) auto

lemma takes_dropStmt: "takes_some p (p_dropStmt cs p)"
  unfolding p_dropStmt_def by (intro production) (auto intro: ends_mono [OF takes_drop_tail])

lemma takes_transaction_word: "tk_Kind (ps_tok p) \<noteq> TEOF \<Longrightarrow> takes_some p (transaction_word cs s p)"
  using step_in [of p cs] advance_within [OF same_text_advance [of p cs], of "left_over p" cs]
  by (simp add: transaction_word_def accept_def)

lemmas takes_statement = takes_selectStmt takes_insertStmt takes_updateStmt takes_deleteStmt takes_createStmt
  takes_dropStmt takes_transaction_word

text \<open>The second round of EXPLAIN never comes to a third.\<close>

lemma takes_last_round: "\<not> sees p ''EXPLAIN'' \<Longrightarrow> takes_some p (Statement_rounds cs (Suc n) p)"
  by (auto simp: Let_def takes_statement sees_def Token_Is_def split: option.split)

lemma takes_Statement: "takes_some p (Statement cs p)"
proof (cases "sees p ''EXPLAIN''")
  case True
  have "takes_some p (pbind (expect cs ''EXPLAIN'' p) (\<lambda>_ p1.
      if sees p1 ''EXPLAIN'' then fail_with (perrorf p1 ExplainExplain)
      else pbind (Statement_rounds cs (Suc 0) p1) (\<lambda>inner. ret (ExplainStmt inner))))"
  proof (rule then_expect)
    fix p1
    assume p1: "same_text p p1" "left_over p1 < left_over p"
    show "takes_some p (if sees p1 ''EXPLAIN'' then fail_with (perrorf p1 ExplainExplain)
        else pbind (Statement_rounds cs (Suc 0) p1) (\<lambda>inner. ret (ExplainStmt inner)))"
    proof (cases "sees p1 ''EXPLAIN''")
      case False
      have "takes_some p (pbind (Statement_rounds cs (Suc 0) p1) (\<lambda>inner. ret (ExplainStmt inner)))"
        by (rule then_some [OF takes_last_round [OF False] p1(1)]) (use p1(2) in simp)
      then show ?thesis using False by (simp del: Statement_rounds.simps)
    qed simp
  qed simp
  then show ?thesis
    using True by (auto simp: Statement_def numeral_2_eq_2 Let_def sees_def Token_Is_def split: option.split)
qed (simp add: Statement_def numeral_2_eq_2 takes_last_round del: Statement_rounds.simps)

lemma skip_semicolons_ends:
  "left_over p < n \<Longrightarrow> \<exists>q. skip_semicolons cs n p = Some q \<and> same_text p q \<and> left_over q \<le> left_over p"
proof (induction n arbitrary: p)
  case (Suc n)
  show ?case
  proof (cases "sees p '';''")
    case True
    have "left_over (Parser_advance cs p) < n"
      using step_in [OF sees_not_end [OF True], of cs] Suc.prems by simp
    from Suc.IH [OF this] show ?thesis
      using True step_in [OF sees_not_end [OF True], of cs] same_text_trans [OF same_text_advance [of p cs]] by fastforce
  qed simp
qed simp

lemma script_ends: "left_over p < n \<Longrightarrow> \<exists>r. script cs n out p = Some r"
proof (induction n arbitrary: out p)
  case (Suc n)
  obtain p0 where p0: "skip_semicolons cs (fuel_for p) p = Some p0" "left_over p0 \<le> left_over p"
    using skip_semicolons_ends [of p "fuel_for p" cs] fuel_for_left [of p p] by auto
  show ?case
  proof (cases "Statement cs p0" rule: parsed_cases)
    case (Done stmt p1)
    then have "left_over p1 < n" using takes_Statement [of p0 cs] p0(2) Suc.prems by (simp add: ends_def)
    then show ?thesis using Suc.IH [of p1] Done p0(1) by simp
  qed (use takes_Statement [of p0 cs] p0(1) in \<open>simp_all add: ends_def\<close>)
qed simp

lemma Parse_many_returns: "\<exists>r. ParseMany cs src = Some r"
  using script_ends [of "Parser_New cs src" "fuel_for (Parser_New cs src)"]
    fuel_for_left [of "Parser_New cs src" "Parser_New cs src"]
  by (simp add: ParseMany_def Let_def)

text \<open>C38: The parser always returns.  On every input, however broken, \<open>Parse\<close>, \<open>ParseMany\<close> and \<open>ParseExpr\<close>
  come back with a tree or an error; no production and no loop, the one over semicolons included, runs out of the fuel of four
  calls per byte.\<close>

theorem Parse_returns:
  "(\<exists>r. Parse cs src = Some r) \<and> (\<exists>r. ParseMany cs src = Some r) \<and> (\<exists>r. ParseExpr cs src = Some r)"
proof (intro conjI)
  let ?p = "Parser_New cs src"
  show "\<exists>r. Parse cs src = Some r"
    using takes_Statement [of ?p cs]
    by (cases "Statement cs ?p" rule: parsed_cases) (simp_all add: ends_def Parse_def Let_def)
  show "\<exists>r. ParseMany cs src = Some r"
    by (rule Parse_many_returns)
  show "\<exists>r. ParseExpr cs src = Some r"
    using takes_expression [of ?p cs]
    by (cases "expression cs ?p" rule: parsed_cases) (simp_all add: ends_def ParseExpr_def)
qed

end
