(* ===== verification/ParseTree.thy ===== *)
theory ParseTree
  imports Parser
begin

text \<open>
  What the planner may rely on: the shape of every tree the parser returns.  Operators are spelled one
  way, minus signs are folded into numbers, calls are aggregates with the right argument and never
  nested, LIMIT and OFFSET are natural numbers, VALUES are constant, and EXPLAIN wraps anything but
  EXPLAIN.
\<close>

section \<open>The shape of a tree\<close>

text \<open>The most negative integer cannot be written: its digits are out of range before the sign is seen.\<close>

definition literal_ok :: "Value \<Rightarrow> bool" where
  "literal_ok v \<longleftrightarrow> (case v of VInt i \<Rightarrow> sint i \<noteq> - (2 ^ 63) | _ \<Rightarrow> True)"

fun numeric_literal :: "Expr \<Rightarrow> bool" where
  "numeric_literal (ELiteral v) = IsNumeric v"
| "numeric_literal _ = False"

fun expr_shape :: "Expr \<Rightarrow> bool" where
  "expr_shape (ELiteral v) = literal_ok v"
| "expr_shape (EColumn t name) = True"
| "expr_shape EStar = False"
| "expr_shape (EUnary op a) = ((op = ''NOT'' \<or> op = ''-'' \<and> \<not> numeric_literal a) \<and> expr_shape a)"
| "expr_shape (EBinary op l r) =
     (BinaryPrecedence op \<noteq> PrecLowest \<and> op \<noteq> ''=='' \<and> expr_shape l \<and> expr_shape r)"
| "expr_shape (EIsNull a n) = expr_shape a"
| "expr_shape (EBetween a lo hi n) = (expr_shape a \<and> expr_shape lo \<and> expr_shape hi)"
| "expr_shape (EIn a items n) = (expr_shape a \<and> items \<noteq> [] \<and> list_all expr_shape items)"
| "expr_shape (ELike a p n) = (expr_shape a \<and> expr_shape p)"
| "expr_shape (EFuncCall name arg star) =
     (name \<in> set aggregates \<and>
      (case arg of None \<Rightarrow> star \<and> name = ''COUNT'' | Some a \<Rightarrow> \<not> star \<and> \<not> HasAggregate a \<and> expr_shape a))"

definition opt_shape :: "(Expr \<Rightarrow> bool) \<Rightarrow> Expr option \<Rightarrow> bool" where
  "opt_shape P w \<longleftrightarrow> (case w of None \<Rightarrow> True | Some e \<Rightarrow> P e)"

definition plain_shape :: "Expr \<Rightarrow> bool" where
  "plain_shape e \<longleftrightarrow> expr_shape e \<and> \<not> HasAggregate e"

fun count_shape :: "Expr \<Rightarrow> bool" where
  "count_shape (ELiteral (VInt i)) = (0 \<le>s i)"
| "count_shape _ = False"

definition column_shape :: "ResultColumn \<Rightarrow> bool" where
  "column_shape c \<longleftrightarrow> (if rc_Star c then rc_Expr c = None \<and> rc_Alias c = [] else rc_Expr c \<noteq> None \<and> expr_shape (the (rc_Expr c)))"

definition select_shape :: "Select \<Rightarrow> bool" where
  "select_shape s \<longleftrightarrow> s_Columns s \<noteq> [] \<and> list_all column_shape (s_Columns s) \<and> opt_shape plain_shape (s_Where s) \<and>
     list_all expr_shape (s_GroupBy s) \<and> list_all (\<lambda>t. expr_shape (ot_Expr t)) (s_OrderBy s) \<and>
     opt_shape count_shape (s_Limit s) \<and> opt_shape count_shape (s_Offset s)"

definition def_shape :: "ColumnDef \<Rightarrow> bool" where
  "def_shape d \<longleftrightarrow> cd_Type d \<noteq> KindNull \<and> (cd_PrimaryKey d \<longrightarrow> cd_NotNull d)"

fun bare_shape :: "Stmt \<Rightarrow> bool" where
  "bare_shape (SelectStmt s) = select_shape s"
| "bare_shape (InsertStmt t names rows) =
     (rows \<noteq> [] \<and> list_all (\<lambda>row. row \<noteq> [] \<and> list_all (\<lambda>e. IsConstant e \<and> expr_shape e) row) rows)"
| "bare_shape (UpdateStmt t sets w) = (sets \<noteq> [] \<and> list_all (\<lambda>s. plain_shape (snd s)) sets \<and> opt_shape expr_shape w)"
| "bare_shape (DeleteStmt t w) = opt_shape expr_shape w"
| "bare_shape (CreateTableStmt t defs ine) = (defs \<noteq> [] \<and> list_all def_shape defs)"
| "bare_shape (ExplainStmt s) = False"
| "bare_shape _ = True"

fun stmt_shape :: "Stmt \<Rightarrow> bool" where
  "stmt_shape (ExplainStmt s) = bare_shape s"
| "stmt_shape s = bare_shape s"

section \<open>What a production yields\<close>

definition yields :: "('a \<Rightarrow> bool) \<Rightarrow> 'a parsed \<Rightarrow> bool" where
  "yields P r \<longleftrightarrow> (case r of Some (Inr (a, q)) \<Rightarrow> P a | _ \<Rightarrow> True)"

lemma yields_simps [simp]:
  "yields P None" "yields P (fail_with e)" "yields P (ret a q) \<longleftrightarrow> P a"
  by (simp_all add: yields_def fail_with_def ret_def)

lemma yields_true [simp, intro]: "yields (\<lambda>_. True) r"
  by (cases r rule: parsed_cases) (simp_all add: yields_def)

lemma yields_bind:
  assumes "yields P r" and "\<And>a q. P a \<Longrightarrow> yields Q (f a q)"
  shows "yields Q (pbind r f)"
  using assms by (cases r rule: parsed_cases) (simp_all add: yields_def pbind_def)

lemma yields_any: "(\<And>a q. yields Q (f a q)) \<Longrightarrow> yields Q (pbind r f)"
  by (rule yields_bind [OF yields_true])

lemma yields_mono: "yields P r \<Longrightarrow> (\<And>a. P a \<Longrightarrow> Q a) \<Longrightarrow> yields Q r"
  by (cases r rule: parsed_cases) (simp_all add: yields_def)

lemma yields_list:
  assumes "\<And>q. yields P (item q)"
  shows "yields (\<lambda>xs. xs \<noteq> [] \<and> list_all P xs) (comma_list cs n item p)"
proof (induction n arbitrary: p)
  case (Suc n)
  have "yields (\<lambda>xs. xs \<noteq> [] \<and> list_all P xs) (pbind (comma_list cs n item q) (\<lambda>xs. ret (x # xs)))" if "P x" for q x
    by (rule yields_bind [OF Suc.IH]) (simp add: that)
  then show ?case
    unfolding comma_list.simps by (intro yields_bind [OF assms]) (auto simp: accept_def)
qed simp

lemma ParseInt_ok: "ParseInt s = Some i \<Longrightarrow> 0 \<le> sint i"
proof -
  assume "ParseInt s = Some i"
  then have i: "i = of_nat (dec_nat_acc 0 s)" "dec_nat_acc 0 s < 2 ^ 63"
    by (simp_all add: ParseInt_def Let_def split: if_splits)
  then have "sint i = int (dec_nat_acc 0 s)"
    using unat_of_nat_less [of "dec_nat_acc 0 s", where 'a = 64] by (simp add: sint_unat64)
  then show ?thesis by simp
qed

lemma sint_uminus_min:
  fixes i :: int64
  assumes "sint (- i) = - (2 ^ 63)"
  shows "sint i = - (2 ^ 63)"
proof -
  have "sint (- i) = sint (- (2 ^ 63) :: int64)" using assms by simp
  then have "- i = - (2 ^ 63)" by (rule signed_word_eqI)
  then have "i = 2 ^ 63" by (simp only: neg_equal_iff_equal)
  then show ?thesis by simp
qed

lemma yields_funcCall:
  assumes "\<And>m q. yields expr_shape (ex m q)"
  shows "yields expr_shape (p_funcCall cs ex p)"
proof -
  have call: "yields expr_shape (if sees p1 ''*'' then
        (if name \<noteq> ''COUNT'' then fail_with (perrorf p1 (StarOnlyCount name))
         else ret (EFuncCall name None True) (Parser_advance cs p1))
      else pbind (ex PrecLowest p1) (\<lambda>arg p2. if HasAggregate arg then fail_with (perrorf p2 NestedAggregate)
         else ret (EFuncCall name (Some arg) False) p2))"
    if "name \<in> set aggregates" for name p1
    using that by (auto intro: yields_bind [OF assms])
  show ?thesis
  proof (cases "ToUpper cs (tk_Text (ps_tok p)) \<in> set aggregates")
    case True
    then show ?thesis
      unfolding p_funcCall_def Let_def
      by (simp, intro yields_any yields_bind [OF call]) (auto intro: yields_any)
  qed (simp add: p_funcCall_def Let_def)
qed

lemma yields_literal_int: "ParseInt s = Some i \<Longrightarrow> expr_shape (ELiteral (VInt i))"
  using ParseInt_ok by (fastforce simp: literal_ok_def)

lemma yields_primary:
  assumes "\<And>m q. yields expr_shape (ex m q)"
  shows "yields expr_shape (p_primary cs ex p)"
proof -
  have parens: "yields expr_shape (pbind (ex PrecLowest q) (\<lambda>e p1. pbind (expect cs '')'' p1) (\<lambda>_. ret e)))" for q
    by (rule yields_bind [OF assms]) (auto intro: yields_any)
  have dotted: "yields expr_shape (pbind (ident cs what q) (\<lambda>name. ret (EColumn t name)))" for what q t
    by (rule yields_any) simp
  show ?thesis
    using yields_funcCall [OF assms] parens dotted yields_literal_int
    by (cases "tk_Kind (ps_tok p)") (simp_all add: p_primary_def Let_def literal_ok_def split: option.split)
qed

lemma yields_predicate:
  assumes "\<And>m q. yields expr_shape (ex m q)" and "expr_shape left"
  shows "yields (opt_shape expr_shape) (p_predicate cs n ex negate left p)"
  unfolding p_predicate_def
  by (auto simp: opt_shape_def assms(2) split: prod.split
      intro!: yields_any yields_bind [OF assms(1)] yields_bind [OF yields_list [OF assms(1)]])

lemma yields_postfix:
  assumes "\<And>m q. yields expr_shape (ex m q)" and "expr_shape left"
  shows "yields (opt_shape expr_shape) (p_postfix cs n ex left p)"
  by (simp add: p_postfix_def Let_def yields_predicate [OF assms])

lemma Neg_ok: "Neg v = Inr w \<Longrightarrow> literal_ok v \<Longrightarrow> literal_ok w"
  using sint_uminus_min by (cases v) (auto simp: Neg_def literal_ok_def)

lemma yields_folded_sign: "expr_shape e \<Longrightarrow> op = ''-'' \<or> op = ''+'' \<Longrightarrow> yields expr_shape (folded_sign op e q)"
  by (auto simp: folded_sign_def Neg_ok split: Expr.split sum.split)

lemma infix_spelling:
  "infix_prec p \<noteq> PrecLowest \<Longrightarrow> BinaryPrecedence (if tk_Text (ps_tok p) = ''=='' then ''='' else tk_Text (ps_tok p)) \<noteq> PrecLowest"
proof -
  assume "infix_prec p \<noteq> PrecLowest"
  then have "BinaryPrecedence (tk_Text (ps_tok p)) \<noteq> PrecLowest" by (auto simp: infix_prec_def split: if_splits)
  moreover have "BinaryPrecedence ''='' \<noteq> PrecLowest" by (simp add: BinaryPrecedence_def PrecCompare_def PrecLowest_def)
  ultimately show ?thesis by simp
qed

lemma yields_exprs:
  "yields expr_shape (p_expr cs n mn p) \<and> (expr_shape e \<longrightarrow> yields expr_shape (p_climb cs n mn e p)) \<and>
   yields expr_shape (p_unary cs n p)"
proof (induction n arbitrary: mn p e)
  case (Suc n)
  have ex: "yields expr_shape (p_expr cs n m q)" for m q using Suc.IH by blast
  have climb: "expr_shape e \<Longrightarrow> yields expr_shape (p_climb cs n m e q)" for m q e using Suc.IH by blast
  have un: "yields expr_shape (p_unary cs n q)" for q using Suc.IH by blast
  have post: "yields (opt_shape expr_shape) (if mn \<le> PrecCompare then p_postfix cs n (\<lambda>m q. p_expr cs n m q) e p else ret None p)"
    if "expr_shape e" for mn e p
    using yields_postfix [OF ex that] by (simp add: opt_shape_def)
  have "yields expr_shape (p_climb cs (Suc n) mn e p)" if e: "expr_shape e"
    unfolding p_climb.simps
  proof (rule yields_bind [OF post [OF e]])
    fix handled q
    assume h: "opt_shape expr_shape handled"
    show "yields expr_shape (case handled of
        Some e \<Rightarrow> p_climb cs n mn e q
      | None \<Rightarrow>
         (let op = tk_Text (ps_tok q); prec = infix_prec q in
          if prec = PrecLowest \<or> prec < mn then ret e q
          else
            pbind (p_expr cs n (prec + 1) (Parser_advance cs q)) (\<lambda>right p2.
              p_climb cs n mn (EBinary (if op = ''=='' then ''='' else op) e right) p2)))"
      using h e infix_spelling [of q] climb
      by (cases handled) (auto simp: Let_def opt_shape_def intro!: yields_bind [OF ex])
  qed
  moreover have "yields expr_shape (p_unary cs (Suc n) p)"
    using yields_primary [OF ex] by (auto simp: sees_def Token_Is_def
      intro!: yields_bind [OF un] yields_bind [OF ex] yields_folded_sign)
  ultimately show ?case by (auto intro!: yields_bind [OF un] climb)
qed simp

lemma yields_expression: "yields expr_shape (expression cs p)"
  using yields_exprs by (simp add: expression_def)


section \<open>Statements\<close>

lemma yields_optional: "(\<And>q. yields P (f q)) \<Longrightarrow> yields (opt_shape P) (pbind (f q) (\<lambda>e. ret (Some e)))"
  by (rule yields_bind) (auto simp: opt_shape_def)

lemma yields_optional_expr: "yields (opt_shape expr_shape) (optional_expr cs word p)"
  using yields_optional [OF yields_expression]
  by (auto simp: optional_expr_def opt_shape_def accept_def)

lemma yields_where_clause: "yields (opt_shape plain_shape) (where_clause cs p)"
  unfolding where_clause_def
  by (rule yields_bind [OF yields_optional_expr]) (auto simp: opt_shape_def plain_shape_def split: option.splits)

lemma yields_resultColumn: "yields column_shape (resultColumn cs p)"
proof (cases "sees p ''*''")
  case False
  have "yields column_shape (case accept cs ''AS'' q of
        (True, p2) \<Rightarrow> pbind (ident cs what p2) (\<lambda>alias. ret \<lparr>rc_Star = False, rc_Expr = Some e, rc_Alias = alias\<rparr>)
      | (False, p2) \<Rightarrow>
          if tk_Kind (ps_tok p2) = TIdent
          then ret \<lparr>rc_Star = False, rc_Expr = Some e, rc_Alias = tk_Text (ps_tok p2)\<rparr> (Parser_advance cs p2)
          else ret \<lparr>rc_Star = False, rc_Expr = Some e, rc_Alias = []\<rparr> p2)" if "expr_shape e" for e q what
    using that by (auto simp: column_shape_def accept_def intro!: yields_any)
  then show ?thesis
    using False by (simp add: resultColumn_def Let_def yields_bind [OF yields_expression])
qed (simp add: resultColumn_def column_shape_def)

lemma yields_countExpr: "yields count_shape (countExpr cs clause p)"
  unfolding countExpr_def
  by (rule yields_bind [OF yields_expression]) (auto simp: word_sless_alt word_sle_eq split: Expr.split Value.split)

lemma yields_optional_count: "yields (opt_shape count_shape) (optional_count cs clause p)"
  using yields_optional [OF yields_countExpr]
  by (auto simp: optional_count_def opt_shape_def accept_def)

lemma yields_orderTerm: "yields (\<lambda>t. expr_shape (ot_Expr t)) (orderTerm cs p)"
  unfolding orderTerm_def by (rule yields_bind [OF yields_expression]) (auto simp: accept_def)

lemma yields_by_clause:
  assumes "\<And>q. yields P (item q)"
  shows "yields (list_all P) (by_clause cs word item p)"
  unfolding by_clause_def
  by (auto simp: accept_def intro!: yields_any yields_mono [OF yields_list [OF assms]])

lemma yields_selectStmt: "yields bare_shape (p_selectStmt cs p)"
proof -
  have "yields bare_shape
     (case accept cs ''DISTINCT'' p0 of (distinct_rows, p1) \<Rightarrow>
     pbind (comma_list cs (fuel_for p1) (resultColumn cs) p1) (\<lambda>cols p2.
     pbind (expect cs ''FROM'' p2) (\<lambda>_ p3.
     pbind (ident cs ''a table name'' p3) (\<lambda>table p4.
     pbind (where_clause cs p4) (\<lambda>w p5.
     pbind (by_clause cs ''GROUP'' (expression cs) p5) (\<lambda>group p6.
     pbind (by_clause cs ''ORDER'' (orderTerm cs) p6) (\<lambda>order p7.
     pbind (optional_count cs ''LIMIT'' p7) (\<lambda>lim p8.
     pbind (optional_count cs ''OFFSET'' p8) (\<lambda>off.
       ret (SelectStmt \<lparr>s_Columns = cols, s_Table = table, s_Where = w, s_GroupBy = group,
         s_OrderBy = order, s_Limit = lim, s_Offset = off, s_Distinct = distinct_rows\<rparr>))))))))))" for p0
    by (cases "accept cs ''DISTINCT'' p0", simp only: prod.case)
      (rule yields_bind [OF yields_list [OF yields_resultColumn]], rule yields_any, rule yields_any,
       rule yields_bind [OF yields_where_clause], rule yields_bind [OF yields_by_clause [OF yields_expression]],
       rule yields_bind [OF yields_by_clause [OF yields_orderTerm]], rule yields_bind [OF yields_optional_count],
       rule yields_bind [OF yields_optional_count], simp add: select_shape_def)
  then show ?thesis unfolding p_selectStmt_def by (rule yields_any)
qed

lemma yields_value_item: "yields (\<lambda>e. IsConstant e \<and> expr_shape e) (value_item cs p)"
  unfolding value_item_def by (rule yields_bind [OF yields_expression]) simp

lemma yields_value_row: "yields (\<lambda>row. row \<noteq> [] \<and> list_all (\<lambda>e. IsConstant e \<and> expr_shape e) row) (value_row cs p)"
  unfolding value_row_def
  by (rule yields_any, rule yields_bind [OF yields_list [OF yields_value_item]], rule yields_any) simp

lemma yields_insertStmt: "yields bare_shape (p_insertStmt cs p)"
  unfolding p_insertStmt_def
  by (rule yields_any, rule yields_any, rule yields_any, rule yields_any, rule yields_any,
      rule yields_bind [OF yields_list [OF yields_value_row]]) simp

lemma yields_assignment: "yields (\<lambda>s. plain_shape (snd s)) (p_assignment cs p)"
  unfolding p_assignment_def
  by (rule yields_any, rule yields_any, rule yields_bind [OF yields_expression]) (simp add: plain_shape_def)

lemma yields_updateStmt: "yields bare_shape (p_updateStmt cs p)"
  unfolding p_updateStmt_def
  by (rule yields_any, rule yields_any, rule yields_any, rule yields_bind [OF yields_list [OF yields_assignment]],
      rule yields_bind [OF yields_optional_expr]) simp

lemma yields_deleteStmt: "yields bare_shape (p_deleteStmt cs p)"
  unfolding p_deleteStmt_def
  by (rule yields_any, rule yields_any, rule yields_any, rule yields_bind [OF yields_optional_expr]) simp

lemma yields_constraints: "def_shape def \<Longrightarrow> yields def_shape (constraints cs n def p)"
  by (induction n arbitrary: def p) (auto simp: def_shape_def Let_def split: prod.split bool.split)

lemma ParseKind_not_null: "ParseKind cs s = Some k \<Longrightarrow> k \<noteq> KindNull"
  by (auto simp: ParseKind_def Let_def split: if_splits)

lemma yields_columnDef: "yields def_shape (columnDef cs p)"
  unfolding columnDef_def
  by (rule yields_any) (auto simp: def_shape_def dest: ParseKind_not_null split: option.split intro!: yields_constraints)

lemma yields_createTable: "yields bare_shape (createTableTail cs p)"
  unfolding createTableTail_def
  by (cases "acceptSeq cs [''IF'', ''NOT'', ''EXISTS''] p", simp only: prod.case)
    (rule yields_any, rule yields_any, rule yields_bind [OF yields_list [OF yields_columnDef]], rule yields_any, simp)

lemma yields_createIndex: "yields bare_shape (createIndexTail cs p)"
  unfolding createIndexTail_def by (auto intro!: yields_any split: prod.split)

lemma yields_createStmt: "yields bare_shape (p_createStmt cs p)"
  unfolding p_createStmt_def
  by (rule yields_any) (auto simp: yields_createTable yields_createIndex accept_def)

lemma yields_dropStmt: "yields bare_shape (p_dropStmt cs p)"
  unfolding p_dropStmt_def drop_tail_def
  by (rule yields_any) (auto simp: accept_def split: prod.split intro!: yields_any)

lemmas yields_statement = yields_selectStmt yields_insertStmt yields_updateStmt yields_deleteStmt yields_createStmt
  yields_dropStmt


lemma bare_stmt: "bare_shape s \<Longrightarrow> stmt_shape s"
  by (cases s) simp_all

lemma yields_rounds:
  "(\<not> sees p ''EXPLAIN'' \<longrightarrow> yields bare_shape (Statement_rounds cs n p)) \<and>
   yields stmt_shape (Statement_rounds cs n p)"
proof (induction n arbitrary: p)
  case (Suc n)
  have "yields stmt_shape (pbind (expect cs ''EXPLAIN'' p) (\<lambda>_ p1.
      if sees p1 ''EXPLAIN'' then fail_with (perrorf p1 ExplainExplain)
      else pbind (Statement_rounds cs n p1) (\<lambda>inner. ret (ExplainStmt inner))))"
    by (rule yields_any) (auto intro: yields_bind [OF Suc.IH [THEN conjunct1, rule_format]])
  moreover have bare: "yields bare_shape (transaction_word cs s p)" if "bare_shape s" for s
    using that by (simp add: transaction_word_def)
  moreover note stmt = yields_statement [THEN yields_mono, OF bare_stmt] bare [THEN yields_mono, OF _ bare_stmt]
  ultimately show ?case
    by (simp add: Let_def yields_statement sees_def Token_Is_def split: option.split)
qed simp

text \<open>C39: Every tree the parser returns has the shape the planner relies on: known operators, minus signs
  folded into numbers, unnested aggregate calls, no aggregate in WHERE or SET, constant VALUES, natural
  LIMIT and OFFSET, a NOT NULL primary key, and no integer literal that is the most negative one.\<close>

theorem Parse_shape:
  "(case Parse cs src of Some (Inr stmt) \<Rightarrow> stmt_shape stmt | _ \<Rightarrow> True) \<and>
   (case ParseMany cs src of Some (Inr stmts) \<Rightarrow> list_all stmt_shape stmts | _ \<Rightarrow> True) \<and>
   (case ParseExpr cs src of Some (Inr e) \<Rightarrow> expr_shape e | _ \<Rightarrow> True)"
proof (intro conjI)
  have stmts: "yields stmt_shape (Statement cs p)" for p by (simp only: Statement_def yields_rounds)
  show "case Parse cs src of Some (Inr stmt) \<Rightarrow> stmt_shape stmt | _ \<Rightarrow> True"
    using stmts [of "Parser_New cs src"]
    by (cases "Statement cs (Parser_New cs src)" rule: parsed_cases)
      (simp_all add: Parse_def Let_def finish_def yields_def split: option.split)
  have "list_all stmt_shape out \<Longrightarrow> case script cs n out p of Some (Inr r) \<Rightarrow> list_all stmt_shape r | _ \<Rightarrow> True"
    for n out p
  proof (induction n arbitrary: out p)
    case (Suc n)
    show ?case
    proof (cases "skip_semicolons cs (fuel_for p) p")
      case (Some p0)
      then show ?thesis
        using Suc stmts [of p0]
        by (cases "Statement cs p0" rule: parsed_cases) (simp_all add: finish_def yields_def split: option.split)
    qed simp
  qed simp
  then show "case ParseMany cs src of Some (Inr stmts) \<Rightarrow> list_all stmt_shape stmts | _ \<Rightarrow> True"
    by (simp add: ParseMany_def Let_def)
  show "case ParseExpr cs src of Some (Inr e) \<Rightarrow> expr_shape e | _ \<Rightarrow> True"
    using yields_expression [of cs "Parser_New cs src"]
    by (cases "expression cs (Parser_New cs src)" rule: parsed_cases)
      (simp_all add: ParseExpr_def finish_def yields_def split: option.split)
qed

text \<open>After an expression, NOT followed by an identifier spelled \<open>"IN"\<close> is dropped: \<open>postfix\<close> looks at the text
  of the next token and not at its kind, takes NOT for the start of NOT IN, finds no IN and goes on.
  The identifier is then read as an alias.\<close>

theorem NOT_dropped:
  "Parse cs (''SELECT a NOT '' @ dquote @ ''IN'' @ dquote @ '' FROM t'') =
    Some (Inr (SelectStmt
      \<lparr>s_Columns = [\<lparr>rc_Star = False, rc_Expr = Some (EColumn [] ''a''), rc_Alias = ''IN''\<rparr>], s_Table = ''t'',
       s_Where = None, s_GroupBy = [], s_OrderBy = [], s_Limit = None, s_Offset = None, s_Distinct = False\<rparr>))"
  by code_simp

text \<open>Printing loses parentheses that matter: the pattern of LIKE is printed as if LIKE associated to the
  right, and two minus signs in a row start a comment.\<close>

theorem printing_ambiguous:
  "ParseExpr cs (Expr_String (ELike (EColumn [] ''a'') (ELike (EColumn [] ''b'') (EColumn [] ''c'') False) False)) =
      Some (Inr (ELike (ELike (EColumn [] ''a'') (EColumn [] ''b'') False) (EColumn [] ''c'') False)) \<and>
    ParseExpr cs (Expr_String (EBinary ''='' (EColumn [] ''a'') (EUnary ''-'' (EUnary ''-'' (EColumn [] ''b''))))) =
      Some (Inl (ParseFailed (Expected ''an expression'' (token_at TEOF [] \<lparr>p_Line = 1, p_Column = 8, p_Offset = 7\<rparr>))
        \<lparr>p_Line = 1, p_Column = 8, p_Offset = 7\<rparr>))"
  by (intro conjI) code_simp+

end
