(* ===== verification/FloatText.thy ===== *)
theory FloatText
  imports Parser
begin

text \<open>
  Why a printed number reads back: \<open>FormatFloat(f, 'g', -1, 64)\<close> finds digits for every finite double,
  because 17 digits determine it, its two layouts are numbers the scanner accepts, and
  \<open>ParseFloat\<close> returns the double that was printed.
\<close>

section \<open>Rounding\<close>

text \<open>Rounding to the nearest multiple of \<open>unit\<close> finds the only one closer than half a unit.\<close>

lemma nearest_unit:
  fixes num unit k :: nat
  assumes near: "2 * \<bar>int num - int (k * unit)\<bar> < int unit"
  shows "(if 2 * (num mod unit) > unit \<or> (2 * (num mod unit) = unit \<and> odd (num div unit))
    then num div unit + 1 else num div unit) = k"
proof (cases "k * unit \<le> num")
  case True
  then obtain d where d: "num = k * unit + d" using le_Suc_ex by blast
  then have "d < unit" "2 * d < unit" using near by simp_all
  then have "num div unit = k" "num mod unit = d" using d by simp_all
  then show ?thesis using \<open>2 * d < unit\<close> by simp
next
  case False
  then obtain d where d: "k * unit = num + d" "0 < d" using less_imp_add_positive not_le by metis
  then have u: "2 * d < unit" using near by simp
  obtain j where j: "k = Suc j" using d by (cases k) auto
  have "num = j * unit + (unit - d)" using d(1) u j by simp
  moreover have "unit - d < unit" using d(2) u by simp
  ultimately have "num div unit = j" "num mod unit = unit - d" by simp_all
  then show ?thesis using u j by auto
qed

text \<open>A magnitude as a mantissa and a power of two.\<close>

lemma mag_split:
  obtains M k where "mag_units m = M * 2 ^ k" and "m = k * 2 ^ 52 + M" and "M < 2 ^ 53" and "k = 0 \<or> 2 ^ 52 \<le> M"
proof -
  define e f where "e = m div 2 ^ 52" and "f = m mod (2 ^ 52 :: nat)"
  have m: "m = e * 2 ^ 52 + f" and f: "f < 2 ^ 52" by (simp_all add: e_def f_def)
  have u: "mag_units m = (if e = 0 then f else (2 ^ 52 + f) * 2 ^ (e - 1))"
    by (simp only: mag_units_def e_def f_def)
  show thesis
  proof (cases e)
    case 0
    then show thesis using that [of f 0] m f u by simp
  next
    case (Suc k)
    then show thesis using that [of "2 ^ 52 + f" k] m f u by simp
  qed
qed

lemma floorlog_eqI: "2 ^ n \<le> q \<Longrightarrow> q < 2 ^ Suc n \<Longrightarrow> floorlog 2 q = Suc n"
  by (meson eq_iff floorlog_ge_SucI floorlog_leI le0 one_less_numeral_iff semiring_norm(76))

lemma pow53: "(2 :: nat) ^ 53 = 9007199254740992" "(2 :: int) ^ 53 = 9007199254740992"
  and pow52: "(2 :: nat) ^ 52 = 4503599627370496"
  by simp_all

lemma near_nat: "2 * \<bar>int a - int b\<bar> < int c \<Longrightarrow> 2 * a < 2 * b + c \<and> 2 * b < 2 * a + c"
  by presburger

lemma near_bounds:
  fixes num M X :: nat
  assumes near: "2 * \<bar>int num - int (M * X)\<bar> * 2 ^ 53 < int (M * X)" and M: "M \<le> 2 ^ 53"
  shows "2 * \<bar>int num - int (M * X)\<bar> < int X" and "2 * num < 2 * (M * X) + X" and "2 * (M * X) < 2 * num + X"
proof -
  have "int (M * X) \<le> int (2 ^ 53 * X)" by (simp only: of_nat_le_iff) (rule mult_right_mono [OF M], simp)
  then have "int (M * X) \<le> 2 ^ 53 * int X" by simp
  with near show *: "2 * \<bar>int num - int (M * X)\<bar> < int X" unfolding pow53 by linarith
  show "2 * num < 2 * (M * X) + X" "2 * (M * X) < 2 * num + X" using near_nat [OF *] by simp_all
qed

text \<open>The unit \<open>f_round\<close> chooses is the one of the double nearby, or half of it just below a power of two.\<close>

lemma round_shift:
  assumes d: "0 < den" and M: "M < 2 ^ 53" "k = 0 \<or> 2 ^ 52 \<le> M"
    and near: "2 * \<bar>int num - int (M * (2 ^ k * den))\<bar> * 2 ^ 53 < int (M * (2 ^ k * den))"
  obtains "floorlog 2 (num div den) - 53 = k" |
    j where "k = Suc j" "M = 2 ^ 52" "floorlog 2 (num div den) - 53 = j"
proof -
  let ?X = "2 ^ k * den" and ?q = "num div den"
  have X: "0 < ?X" using d by simp
  have b: "2 * num < 2 * (M * ?X) + ?X" "2 * (M * ?X) < 2 * num + ?X" by (rule near_bounds [OF near]; use M in simp)+
  have "M * ?X \<le> 9007199254740991 * ?X" using M(1) by (intro mult_right_mono) simp_all
  then have "num < 2 ^ 53 * ?X" using b(1) X unfolding pow53 by linarith
  then have "num < 2 ^ (53 + k) * den" by (simp only: power_add mult.assoc)
  then have q: "?q < 2 ^ (53 + k)" using d by (simp add: div_less_iff_less_mult)
  show thesis
  proof (cases "k = 0")
    case True
    then show thesis using that(1) floorlog_leI [of ?q 2 53] q by simp
  next
    case k: False
    show thesis
    proof (cases "2 ^ (52 + k) \<le> ?q")
      case True
      then have "floorlog 2 ?q = Suc (52 + k)" using q by (intro floorlog_eqI) simp_all
      then show thesis using that(1) by simp
    next
      case False
      then have "num < 2 ^ (52 + k) * den" using d by (simp add: div_less_iff_less_mult not_le)
      then have n: "num < 2 ^ 52 * ?X" by (simp only: power_add mult.assoc)
      have "M = 2 ^ 52"
      proof (rule ccontr)
        assume "M \<noteq> 2 ^ 52"
        then have "4503599627370497 * ?X \<le> M * ?X" using M(2) k by (intro mult_right_mono) simp_all
        then show False using b(2) n X unfolding pow52 by linarith
      qed
      moreover obtain j where j: "k = Suc j" using k by (cases k) auto
      moreover have "2251799813685248 * ?X \<le> num" using b(2) X unfolding calculation(1) pow52 by linarith
      then have "2 ^ (52 + j) * den \<le> num" by (simp add: j power_add)
      then have "2 ^ (52 + j) \<le> ?q" using d by (simp add: less_eq_div_iff_mult_less_eq)
      then have "floorlog 2 ?q = Suc (52 + j)" using False j by (intro floorlog_eqI) (simp_all add: not_le)
      ultimately show thesis using that(2) [of j] by simp
    qed
  qed
qed

lemma f_round_near:
  assumes d: "0 < den" and m: "m \<le> 2047 * 2 ^ 52"
    and near: "2 * \<bar>int num - int (mag_units m * den)\<bar> * 2 ^ 53 < int (mag_units m * den)"
  shows "f_round s num den = f_make s m"
proof -
  obtain M k where M: "mag_units m = M * 2 ^ k" "m = k * 2 ^ 52 + M" "M < 2 ^ 53" "k = 0 \<or> 2 ^ 52 \<le> M"
    by (rule mag_split)
  define shift where "shift = floorlog 2 (num div den) - 53"
  have n: "2 * \<bar>int num - int (M * (2 ^ k * den))\<bar> * 2 ^ 53 < int (M * (2 ^ k * den))"
    using near by (simp add: M(1) mult.assoc)
  obtain k' where k': "2 * \<bar>int num - int (k' * (2 ^ shift * den))\<bar> < int (2 ^ shift * den)" "shift * 2 ^ 52 + k' = m"
    using d M(3,4) n
  proof (cases rule: round_shift)
    case 1
    then show thesis using that [of M] near_bounds(1) [OF n] M(2,3) by (simp add: shift_def)
  next
    case (2 j)
    have e: "M * (2 ^ k * den) = 2 ^ 53 * (2 ^ j * den)" by (simp add: 2)
    show thesis using that [of "2 ^ 53"] near_bounds(1) [OF n [unfolded e]] M(2) 2 by (simp add: shift_def)
  qed
  show ?thesis
    using nearest_unit [OF k'(1)] k'(2) m
    unfolding f_round_def Let_def shift_def [symmetric] by simp
qed

text \<open>Only the ratio counts.\<close>

lemma f_round_scale: "0 < c \<Longrightarrow> f_round s (c * num) (c * den) = f_round s num den"
  unfolding f_round_def Let_def
  by (simp add: mult.left_commute [of _ c] flip: mult_mod_right)

lemma f_round_ratio:
  assumes "num * den' = num' * den" and "0 < den" and "0 < den'"
  shows "f_round s num den = f_round s num' den'"
proof -
  have "f_round s num den = f_round s (den' * num) (den' * den)" using f_round_scale assms(3) by simp
  also have "\<dots> = f_round s (den * num') (den * den')" using assms(1) by (simp add: mult.commute)
  finally show ?thesis using f_round_scale assms(2) by simp
qed

lemma f_of_dec_eq: "f_of_dec s m e = f_round s (m * 10 ^ nat e * 2 ^ 1074) (10 ^ nat (- e))"
  by (simp add: f_of_dec_def)

lemma f_of_dec_shift: "f_of_dec s (m * 10 ^ j) e = f_of_dec s m (e + int j)"
  unfolding f_of_dec_eq
proof (rule f_round_ratio)
  have "j + nat e + nat (- (e + int j)) = nat (e + int j) + nat (- e)" by linarith
  then have "(10 :: nat) ^ j * 10 ^ nat e * 10 ^ nat (- (e + int j)) = 10 ^ nat (e + int j) * 10 ^ nat (- e)"
    by (simp flip: power_add)
  then show "m * 10 ^ j * 10 ^ nat e * 2 ^ 1074 * 10 ^ nat (- (e + int j)) =
      m * 10 ^ nat (e + int j) * 2 ^ 1074 * 10 ^ nat (- e)"
    by (simp add: ac_simps)
qed simp_all

section \<open>Seventeen digits are enough\<close>

lemma nat_dec_bounds: "n < 10 ^ length (nat_dec n) \<and> (0 < n \<longrightarrow> 10 ^ (length (nat_dec n) - 1) \<le> n)"
proof (induction n rule: nat_dec.induct)
  case (1 n)
  show ?case
  proof (cases "n < 10")
    case True
    then show ?thesis by (simp add: nat_dec.simps [of n])
  next
    case False
    let ?L = "length (nat_dec (n div 10))"
    have L: "n div 10 < 10 ^ ?L" "10 ^ (?L - 1) \<le> n div 10" using 1 False by simp_all
    have "0 < ?L" by simp
    then have "(10 :: nat) ^ ?L = 10 * 10 ^ (?L - 1)" by (cases ?L) simp_all
    moreover have "10 * (n div 10) \<le> n" "n < 10 * Suc (n div 10)" by simp_all
    ultimately show ?thesis using L False by (simp add: nat_dec.simps [of n]) linarith
  qed
qed

text \<open>\<open>dec_point\<close> places \<open>num / den\<close> in its decade.\<close>

lemma dec_point_bounds:
  assumes "0 < num" and "0 < den"
  shows "den * 10 ^ nat (dec_point num den - 1) \<le> num * 10 ^ nat (1 - dec_point num den)"
    and "num * 10 ^ nat (- dec_point num den) < den * 10 ^ nat (dec_point num den)"
proof -
  let ?p = "dec_point num den"
  have "den * 10 ^ nat (?p - 1) \<le> num * 10 ^ nat (1 - ?p) \<and> num * 10 ^ nat (- ?p) < den * 10 ^ nat ?p"
  proof (cases "den \<le> num")
    case True
    let ?k = "num div den" and ?L = "length (nat_dec (num div den))"
    have k: "0 < ?k" using True assms by (simp add: div_greater_zero_iff)
    have "den * 10 ^ (?L - 1) \<le> den * ?k" using nat_dec_bounds [of ?k] k by (intro mult_left_mono) auto
    also have "\<dots> \<le> num" by simp
    finally have "den * 10 ^ (?L - 1) \<le> num" .
    moreover have "num < den * 10 ^ ?L"
      using nat_dec_bounds [of ?k] assms(2) by (simp add: div_less_iff_less_mult mult.commute)
    moreover have "?p = int ?L" "0 < ?L" using True by (simp_all add: dec_point_def)
    moreover have "nat (int ?L - 1) = ?L - 1" "nat (1 - int ?L) = 0" using \<open>0 < ?L\<close> by linarith+
    ultimately show ?thesis by simp
  next
    case False
    let ?k = "(den - 1) div num" and ?L = "length (nat_dec ((den - 1) div num))"
    have k: "0 < ?k" using False assms by (simp add: div_greater_zero_iff)
    have "num * 10 ^ (?L - 1) \<le> num * ?k" using nat_dec_bounds [of ?k] k by (intro mult_left_mono) auto
    also have "\<dots> \<le> den - 1" by simp
    finally have "num * 10 ^ (?L - 1) < den" using assms(2) by simp
    moreover have "den - 1 < num * 10 ^ ?L"
      using nat_dec_bounds [of ?k] assms(1) by (simp add: div_less_iff_less_mult mult.commute)
    ultimately have "den \<le> num * 10 ^ ?L \<and> num * 10 ^ (?L - 1) < den" using assms(2) by linarith
    moreover have "?p = 1 - int ?L" "0 < ?L" using False by (simp_all add: dec_point_def)
    moreover have "nat (int ?L - 1) = ?L - 1" "nat (1 - int ?L) = 0" using \<open>0 < ?L\<close> by linarith+
    ultimately show ?thesis by simp
  qed
  then show "den * 10 ^ nat (?p - 1) \<le> num * 10 ^ nat (1 - ?p)" "num * 10 ^ nat (- ?p) < den * 10 ^ nat ?p"
    by simp_all
qed

lemma move_powers:
  fixes a b :: nat
  assumes "p' + q = q' + p"
  shows "a * 10 ^ p \<le> b * 10 ^ q \<Longrightarrow> a * 10 ^ p' \<le> b * 10 ^ q'" and "a * 10 ^ p < b * 10 ^ q \<Longrightarrow> a * 10 ^ p' < b * 10 ^ q'"
proof -
  have eq: "a * 10 ^ p' * 10 ^ p = a * 10 ^ p * 10 ^ p'" "b * 10 ^ q' * 10 ^ p = b * 10 ^ q * (10 :: nat) ^ p'"
    using assms by (simp_all add: mult.assoc add.commute flip: power_add)
  show "a * 10 ^ p \<le> b * 10 ^ q \<Longrightarrow> a * 10 ^ p' \<le> b * 10 ^ q'"
    using mult_le_mono1 [of "a * 10 ^ p" "b * 10 ^ q" "10 ^ p'"] by (simp flip: eq)
  show "a * 10 ^ p < b * 10 ^ q \<Longrightarrow> a * 10 ^ p' < b * 10 ^ q'"
    using mult_less_mono1 [of "a * 10 ^ p" "b * 10 ^ q" "10 ^ p'"] by (simp flip: eq)
qed

text \<open>The grid with \<open>n\<close> digits, and what \<open>dec_try\<close> finds on it.\<close>

definition grid_num :: "nat \<Rightarrow> int \<Rightarrow> nat" where "grid_num num e = num * 10 ^ nat e"
definition grid_den :: "nat \<Rightarrow> int \<Rightarrow> nat" where "grid_den den e = den * 10 ^ nat (- e)"

lemma grid_cases: "(if 0 \<le> e then num * 10 ^ nat e else num) = grid_num num e"
  "(if 0 \<le> e then den else den * 10 ^ nat (- e)) = grid_den den e"
  by (simp_all add: grid_num_def grid_den_def)

lemma dec_try_Some:
  assumes "dec_try x num den dp n = Some m"
  shows "f_of_dec (f_sign x) m (dp - int n) = x"
    and "m \<le> grid_num num (int n - dp) div grid_den den (int n - dp) + 1"
  using assms unfolding dec_try_def Let_def grid_cases by (auto split: if_splits)

lemma dec_try_near:
  assumes "0 < grid_den den (int n - dp)"
    and "\<And>m. 2 * \<bar>int (grid_num num (int n - dp)) - int (m * grid_den den (int n - dp))\<bar> \<le> int (grid_den den (int n - dp)) \<Longrightarrow>
      f_of_dec (f_sign x) m (dp - int n) = x"
  shows "dec_try x num den dp n \<noteq> None"
proof -
  define a b lo r where "a = grid_num num (int n - dp)" and "b = grid_den den (int n - dp)"
    and "lo = a div b" and "r = a mod b"
  then have a: "a = lo * b + r" "r < b" using assms(1) by (simp_all only: div_mult_mod_eq) simp
  have e: "- (int n - dp) = dp - int n" by simp
  have near: "f_of_dec (f_sign x) m (dp - int n) = x" if "2 * \<bar>int a - int (m * b)\<bar> \<le> int b" for m
    using assms(2) that by (simp only: a_def b_def)
  have "f_of_dec (f_sign x) lo (dp - int n) = x" if "2 * r \<le> b"
    using that by (intro near) (simp add: a(1))
  moreover have "f_of_dec (f_sign x) (lo + 1) (dp - int n) = x" if "b \<le> 2 * r"
    using that a(2) by (intro near) (simp add: a(1) distrib_right)
  ultimately show ?thesis
    using a(2)
    unfolding dec_try_def Let_def grid_cases e a_def [symmetric] b_def [symmetric] lo_def [symmetric] r_def [symmetric]
    by (cases "r = 0") auto
qed

definition finite_float :: "float64 \<Rightarrow> bool" where
  "finite_float f \<longleftrightarrow> \<not> IsNaN f \<and> \<not> IsInf f"

lemma finite_float_mag: "finite_float f \<longleftrightarrow> f_mag f < 2047 * 2 ^ 52"
proof -
  have "IsInf f \<longleftrightarrow> f_mag f = 2047 * 2 ^ 52"
    using f_frac_bound [of f] f_exp_bound [of f] by (cases "f_exp f = 2047") (simp_all add: IsInf_def f_mag_split)
  then show ?thesis by (auto simp: finite_float_def IsNaN_mag)
qed

lemma f_make_self: "f_make (f_sign x) (f_mag x) = x"
  by (rule float64_eqI) (simp_all only: f_mag_make [OF f_mag_bound] f_sign_make [OF f_mag_bound])

lemma mag_units_bound: "m < 2047 * 2 ^ 52 \<Longrightarrow> mag_units m < 2 ^ 1074 * 2 ^ 1024"
proof -
  assume m: "m < 2047 * 2 ^ 52"
  obtain M k where M: "mag_units m = M * 2 ^ k" "m = k * 2 ^ 52 + M" "M < 2 ^ 53" "k = 0 \<or> 2 ^ 52 \<le> M"
    by (rule mag_split)
  have "53 + k \<le> 1074 + 1024" using m M(2,4) by auto
  then have "(2 :: nat) ^ (53 + k) \<le> 2 ^ (1074 + 1024)" by (rule power_increasing) simp
  moreover have "M * 2 ^ k < 2 ^ (53 + k)" unfolding power_add using M(3) by (intro mult_strict_right_mono) simp_all
  ultimately show ?thesis unfolding M(1) by (simp only: power_add)
qed

lemma seventeen:
  assumes x: "finite_float x" and pos: "0 < f_units x"
  shows "dec_try x (f_units x) (2 ^ 1074) (dec_point (f_units x) (2 ^ 1074)) 17 \<noteq> None"
proof (rule dec_try_near)
  let ?p = "dec_point (f_units x) (2 ^ 1074)"
  let ?a = "grid_num (f_units x) (int 17 - ?p)" and ?b = "grid_den (2 ^ 1074) (int 17 - ?p)"
  show b: "0 < ?b" by (simp add: grid_den_def)
  have "2 ^ 1074 * 10 ^ nat (?p - 1) \<le> f_units x * 10 ^ nat (1 - ?p)"
    by (rule dec_point_bounds(1)) (use pos in simp_all)
  then have "2 ^ 1074 * 10 ^ (nat (- (int 17 - ?p)) + 16) \<le> f_units x * 10 ^ nat (int 17 - ?p)"
    by (rule move_powers(1) [rotated]) linarith
  then have ba: "?b * 10 ^ 16 \<le> ?a" by (simp only: grid_num_def grid_den_def power_add mult.assoc)
  fix m assume m: "2 * \<bar>int ?a - int (m * ?b)\<bar> \<le> int ?b"
  let ?N = "m * 10 ^ nat (?p - int 17) * 2 ^ 1074" and ?D = "10 ^ nat (- (?p - int 17)) :: nat"
  have e: "- (int 17 - ?p) = ?p - int 17" "- (?p - int 17) = int 17 - ?p" by simp_all
  have N: "?N = m * ?b" by (simp only: grid_den_def e mult.assoc mult.commute [of "2 ^ 1074"])
  have D: "mag_units (f_mag x) * ?D = ?a" unfolding f_units_mag [symmetric] by (simp only: grid_num_def e)
  have near: "2 * \<bar>int ?N - int (mag_units (f_mag x) * ?D)\<bar> * 2 ^ 53 < int (mag_units (f_mag x) * ?D)"
  proof -
    have "2 * \<bar>int ?a - int (m * ?b)\<bar> * 2 ^ 53 \<le> int ?b * 2 ^ 53" using m by (rule mult_right_mono) simp
    also have "\<dots> < int ?b * 10 ^ 16" using b by simp
    also have "\<dots> = int (?b * 10 ^ 16)" by simp
    also have "\<dots> \<le> int ?a" using ba by (simp only: of_nat_le_iff)
    finally show ?thesis unfolding N D by (simp only: abs_minus_commute)
  qed
  have "f_round (f_sign x) ?N ?D = f_make (f_sign x) (f_mag x)"
    by (rule f_round_near [OF _ _ near]) (use x in \<open>simp_all add: finite_float_mag\<close>)
  then show "f_of_dec (f_sign x) m (?p - int 17) = x" by (simp only: f_of_dec_eq f_make_self)
qed

lemma dec_search_finds:
  "n \<in> set ns \<Longrightarrow> dec_try x num den dp n \<noteq> None \<Longrightarrow>
    \<exists>m k. dec_search x num den dp ns = (m, dp - int k) \<and> k \<in> set ns \<and> dec_try x num den dp k = Some m"
proof (induction ns)
  case (Cons j ns)
  then show ?case by (cases "dec_try x num den dp j") auto
qed simp

lemma ten_less: "(10 :: nat) ^ j < 2 ^ n \<Longrightarrow> j < n"
proof (rule ccontr)
  assume j: "(10 :: nat) ^ j < 2 ^ n" "\<not> j < n"
  have "(2 :: nat) ^ n \<le> 2 ^ j" using j(2) by (intro power_increasing) simp_all
  also have "\<dots> \<le> 10 ^ j" by (rule power_mono) simp_all
  finally show False using j(1) by simp
qed

lemma dec_point_range:
  assumes "finite_float x" and "0 < f_units x"
  shows "- 1074 < dec_point (f_units x) (2 ^ 1074)" and "dec_point (f_units x) (2 ^ 1074) \<le> 1024"
proof -
  let ?p = "dec_point (f_units x) (2 ^ 1074)"
  note b = dec_point_bounds [OF assms(2), of "2 ^ 1074"]
  show "- 1074 < ?p"
  proof (cases "?p < 0")
    case True
    have "10 ^ nat (- ?p) \<le> f_units x * 10 ^ nat (- ?p)" using assms(2) by simp
    also have "\<dots> < 2 ^ 1074" using b(2) True by simp
    finally have "(10 :: nat) ^ nat (- ?p) < 2 ^ 1074" .
    from ten_less [OF this] show ?thesis by linarith
  qed simp
  show "?p \<le> 1024"
  proof (cases "1 < ?p")
    case True
    have "2 ^ 1074 * 10 ^ nat (?p - 1) \<le> f_units x" using b(1) True by simp
    also have "\<dots> < 2 ^ 1074 * 2 ^ 1024"
      unfolding f_units_mag by (rule mag_units_bound) (use assms(1) in \<open>simp only: finite_float_mag\<close>)
    finally have "(10 :: nat) ^ nat (?p - 1) < 2 ^ 1024" by (simp only: mult_less_cancel1)
    from ten_less [OF this] show ?thesis by linarith
  qed simp
qed

lemma dec_nat_zeros: "dec_nat_acc acc (replicate z CHR ''0'') = acc * 10 ^ z"
  by (induction z arbitrary: acc) simp_all

lemma strip_zeros: "\<exists>z. s = rev (dropWhile (\<lambda>c. c = CHR ''0'') (rev s)) @ replicate z CHR ''0''"
proof -
  let ?P = "\<lambda>c. c = CHR ''0''"
  have "takeWhile ?P (rev s) = replicate (length (takeWhile ?P (rev s))) CHR ''0''"
    by (rule replicate_eqI [symmetric, THEN sym]) (auto dest: set_takeWhileD)
  then have "rev s = replicate (length (takeWhile ?P (rev s))) CHR ''0'' @ dropWhile ?P (rev s)"
    by (metis takeWhile_dropWhile_id)
  then have "s = rev (dropWhile ?P (rev s)) @ replicate (length (takeWhile ?P (rev s))) CHR ''0''"
    by (metis rev_append rev_replicate rev_rev_ident)
  then show ?thesis by blast
qed

lemma f_round_0: "f_round s 0 den = f_make s 0"
  by (simp add: f_round_def floorlog_def)

theorem shortest_digits_exact:
  assumes x: "finite_float x" and pos: "0 < f_units x"
  obtains ds dp where "shortest_digits x = (ds, dp)" and "ds \<noteq> []" and "list_all is_digit ds"
    and "f_of_dec (f_sign x) (dec_nat_acc 0 ds) (dp - int (length ds)) = x" and "\<bar>dp\<bar> < 1100"
proof -
  define p where "p = dec_point (f_units x) (2 ^ 1074)"
  obtain m k where mk: "dec_search x (f_units x) (2 ^ 1074) p [1..<18] = (m, p - int k)" "k \<in> set [1..<18]"
    "dec_try x (f_units x) (2 ^ 1074) p k = Some m"
    using dec_search_finds [of 17 "[1..<18]", OF _ seventeen [OF x pos]] by (auto simp: p_def)
  have exact: "f_of_dec (f_sign x) m (p - int k) = x" by (rule dec_try_Some(1) [OF mk(3)])
  have mag: "f_mag x \<noteq> 0" using pos f_units_eq_0 [of x] by (metis less_irrefl)
  have m: "0 < m"
  proof (rule ccontr)
    assume "\<not> 0 < m"
    then have "x = f_make (f_sign x) 0" using exact by (simp add: f_of_dec_eq f_round_0)
    then have "f_mag x = 0" using f_mag_make [of 0 "f_sign x"] by simp
    then show False using mag by simp
  qed
  define s ds where "s = nat_dec m" and "ds = rev (dropWhile (\<lambda>c. c = CHR ''0'') (rev s))"
  obtain z where z: "s = ds @ replicate z CHR ''0''" using strip_zeros [of s] by (auto simp: ds_def)
  have val: "dec_nat_acc 0 ds * 10 ^ z = m"
    using dec_nat_acc_nat_dec [of m] z by (simp add: s_def [symmetric] dec_nat_acc_append dec_nat_zeros)
  have "shortest_digits x = (ds, int (length s) + (p - int k))"
    using mag unfolding shortest_digits_def p_def [symmetric] mk(1) s_def ds_def Let_def by simp
  moreover have "ds \<noteq> []" using val m by auto
  moreover have "list_all is_digit ds" using nat_dec_digits [of m] z by (simp add: s_def [symmetric])
  moreover have "f_of_dec (f_sign x) (dec_nat_acc 0 ds) (int (length s) + (p - int k) - int (length ds)) = x"
    using exact f_of_dec_shift [of "f_sign x" "dec_nat_acc 0 ds" z "p - int k"] by (simp add: val z algebra_simps)
  moreover have "length s \<le> Suc k"
  proof -
    have "f_units x * 10 ^ nat (- p) < 2 ^ 1074 * 10 ^ nat p" unfolding p_def by (rule dec_point_bounds(2)) (use pos in simp_all)
    then have "f_units x * 10 ^ nat (int k - p) < 2 ^ 1074 * 10 ^ (nat (- (int k - p)) + k)"
      by (rule move_powers(2) [rotated]) linarith
    then have "grid_num (f_units x) (int k - p) div grid_den (2 ^ 1074) (int k - p) < 10 ^ k"
      by (simp add: grid_num_def grid_den_def div_less_iff_less_mult power_add ac_simps)
    then have "m \<le> 10 ^ k" using dec_try_Some(2) [OF mk(3)] by simp
    moreover have "10 ^ (length s - 1) \<le> m" using nat_dec_bounds [of m] m by (simp add: s_def)
    ultimately have "(10 :: nat) ^ (length s - 1) \<le> 10 ^ k" by (rule order_trans [rotated])
    then show ?thesis by (simp add: power_le_imp_le_exp)
  qed
  moreover have "0 < length s" by (simp add: s_def)
  then have "\<bar>int (length s) + (p - int k)\<bar> < 1100"
    using \<open>length s \<le> Suc k\<close> dec_point_range [OF x pos, folded p_def] mk(2) by (auto simp del: length_greater_0_conv)
  ultimately show thesis by (intro that)
qed

section \<open>Reading a number\<close>

text \<open>Digits may be followed by a fraction and an exponent.\<close>

definition fraction_text :: "string \<Rightarrow> bool" where
  "fraction_text f \<longleftrightarrow> f = [] \<or> (\<exists>ds. f = CHR ''.'' # ds \<and> ds \<noteq> [] \<and> list_all is_digit ds)"

definition exponent_text :: "string \<Rightarrow> bool" where
  "exponent_text e \<longleftrightarrow> e = [] \<or> (\<exists>c ds. e = CHR ''e'' # c # ds \<and> (c = CHR ''+'' \<or> c = CHR ''-'') \<and> ds \<noteq> [] \<and> list_all is_digit ds)"

lemma digit_span:
  assumes "list_all is_digit w" and "s = [] \<or> \<not> is_digit (hd s)"
  shows "takeWhile is_digit (w @ s) = w" and "dropWhile is_digit (w @ s) = s"
  using assms by (cases s; auto simp: list_all_iff)+

definition exponent_of :: "string \<Rightarrow> int" where
  "exponent_of ex = (case ex of [] \<Rightarrow> 0 | _ # es \<Rightarrow> parse_exponent es)"

lemma ParseFloat_number:
  assumes w: "list_all is_digit w" and fr: "fraction_text fr" and ex: "exponent_text ex"
    and x: "f_of_dec False (dec_nat_acc 0 (w @ drop 1 fr)) (exponent_of ex - int (length (drop 1 fr))) = x" "\<not> IsInf x"
  shows "ParseFloat (w @ fr @ ex) = Some x"
proof -
  have e: "ex = [] \<or> \<not> is_digit (hd ex) \<and> hd ex \<noteq> CHR ''.''" using ex by (auto simp: exponent_text_def is_digit_def)
  then have "fr @ ex = [] \<or> \<not> is_digit (hd (fr @ ex))" using fr by (auto simp: fraction_text_def is_digit_def)
  note w = digit_span [OF w this]
  show ?thesis
  proof (cases fr)
    case Nil
    have "(case ex of CHR ''.'' # ds \<Rightarrow> takeWhile is_digit ds | _ \<Rightarrow> []) = []"
      "(case ex of CHR ''.'' # ds \<Rightarrow> dropWhile is_digit ds | _ \<Rightarrow> ex) = ex"
      using e by (auto split: list.splits char.splits bool.splits)
    then show ?thesis using w x Nil by (simp add: ParseFloat_def exponent_of_def Let_def)
  next
    case (Cons c ds)
    then have ds: "c = CHR ''.''" "list_all is_digit ds" using fr by (auto simp: fraction_text_def)
    have "takeWhile is_digit (ds @ ex) = ds" "dropWhile is_digit (ds @ ex) = ex"
      using digit_span [OF ds(2), of ex] e by auto
    then show ?thesis using w x Cons ds(1) by (simp add: ParseFloat_def exponent_of_def Let_def)
  qed
qed

lemma dec_nat_acc_ge: "a \<le> dec_nat_acc a s"
proof (induction a s rule: dec_nat_acc.induct)
  case (2 acc c s)
  then show ?case by simp
qed simp

lemma capped_nat_small: "dec_nat_acc a s < 100000 \<Longrightarrow> capped_nat a s = dec_nat_acc a s"
proof (induction a s rule: capped_nat.induct)
  case (2 e c s)
  then show ?case using dec_nat_acc_ge [of "e * 10 + (of_char c - 48)" s] by (cases "e < 10000") auto
qed simp

lemma parse_fmt_exp:
  assumes "\<bar>e\<bar> < 10000"
  shows "parse_exponent (fmt_exp e) = e" and "exponent_text (CHR ''e'' # fmt_exp e)"
proof -
  define ds where "ds = (if length (nat_dec (nat \<bar>e\<bar>)) < 2 then ''0'' @ nat_dec (nat \<bar>e\<bar>) else nat_dec (nat \<bar>e\<bar>))"
  have f: "fmt_exp e = (if e < 0 then CHR ''-'' else CHR ''+'') # ds" by (simp add: fmt_exp_def Let_def ds_def)
  have "dec_nat_acc 0 ds = nat \<bar>e\<bar>" by (simp add: dec_nat_acc_nat_dec ds_def)
  moreover have "nat \<bar>e\<bar> < 100000" using assms by linarith
  ultimately have "capped_nat 0 ds = nat \<bar>e\<bar>" by (simp only: capped_nat_small)
  then show "parse_exponent (fmt_exp e) = e" unfolding f parse_exponent_def by simp
  have "list_all is_digit ds" "ds \<noteq> []" using nat_dec_digits [of "nat \<bar>e\<bar>"] by (simp_all add: is_digit_def ds_def)
  then show "exponent_text (CHR ''e'' # fmt_exp e)" unfolding f exponent_text_def by auto
qed

section \<open>Printed doubles\<close>

text \<open>A text the scanner takes for one FLOAT token, and which reads back as \<open>x\<close>.\<close>

definition float_text :: "float64 \<Rightarrow> string \<Rightarrow> bool" where
  "float_text x s \<longleftrightarrow> (\<exists>w fr ex. s = w @ fr @ ex \<and> w \<noteq> [] \<and> list_all is_digit w \<and> fraction_text fr \<and> exponent_text ex \<and>
     \<not> (fr = [] \<and> ex = []) \<and> ParseFloat s = Some x)"

lemma float_textI:
  assumes "w \<noteq> []" and "list_all is_digit w" and "fraction_text fr" and "exponent_text ex" and "\<not> (fr = [] \<and> ex = [])"
    and "f_of_dec False (dec_nat_acc 0 (w @ drop 1 fr)) (exponent_of ex - int (length (drop 1 fr))) = x" and "\<not> IsInf x"
  shows "float_text x (w @ fr @ ex)"
  unfolding float_text_def using assms ParseFloat_number [OF assms(2-4,6,7)] by blast

definition with_point :: "string \<Rightarrow> string" where
  "with_point s = (if \<not> (CHR ''.'' \<in> set s \<or> CHR ''e'' \<in> set s \<or> CHR ''E'' \<in> set s) then s @ ''.0'' else s)"

lemma with_point_digits: "list_all is_digit w \<Longrightarrow> with_point w = w @ ''.0''"
  by (auto simp: with_point_def list_all_iff is_digit_def)

lemma formatFloat_finite: "finite_float f \<Longrightarrow> formatFloat f = with_point (FormatFloat_g f)"
  by (simp add: finite_float_def formatFloat_def with_point_def Let_def)

lemma exponent_layout:
  assumes ds: "ds \<noteq> []" "list_all is_digit ds" and x: "f_of_dec False (dec_nat_acc 0 ds) (dp - int (length ds)) = x" "\<not> IsInf x"
    and dp: "\<bar>dp\<bar> < 1100"
  shows "float_text x (with_point (fmtE False ds dp))"
proof -
  let ?fr = "if length ds > 1 then ''.'' @ tl ds else []" and ?ex = "CHR ''e'' # fmt_exp (dp - 1)"
  have lay: "with_point (fmtE False ds dp) = [hd ds] @ ?fr @ ?ex" by (simp add: with_point_def fmtE_def)
  have e: "parse_exponent (fmt_exp (dp - 1)) = dp - 1" "exponent_text ?ex" by (rule parse_fmt_exp; use dp in linarith)+
  obtain d r where d: "ds = d # r" using ds(1) by (cases ds) auto
  show ?thesis
    unfolding lay
  proof (rule float_textI [OF _ _ _ e(2) _ _ x(2)])
    show "f_of_dec False (dec_nat_acc 0 ([hd ds] @ drop 1 ?fr)) (exponent_of ?ex - int (length (drop 1 ?fr))) = x"
      using x(1) by (cases r) (simp_all add: d exponent_of_def e(1) algebra_simps)
  qed (use ds(2) in \<open>auto simp: d fraction_text_def neq_Nil_conv\<close>)
qed

lemma plain_layout:
  assumes ds: "ds \<noteq> []" "list_all is_digit ds" and x: "f_of_dec False (dec_nat_acc 0 ds) (dp - int (length ds)) = x" "\<not> IsInf x"
  shows "float_text x (with_point (fmtF False ds dp))"
proof -
  consider (small) "dp \<le> 0" | (inside) "0 < dp" "dp < int (length ds)" | (whole) "int (length ds) \<le> dp" by linarith
  then show ?thesis
  proof cases
    case small
    let ?fr = "CHR ''.'' # replicate (nat (- dp)) CHR ''0'' @ ds"
    have "dp < int (length ds)" using small ds(1) by (cases ds) auto
    then have lay: "with_point (fmtF False ds dp) = ''0'' @ ?fr @ []" using small by (simp add: with_point_def fmtF_def)
    show ?thesis
      unfolding lay
      using ds x small
      by (intro float_textI)
        (auto simp: fraction_text_def exponent_text_def exponent_of_def is_digit_def list_all_iff dec_nat_acc_append dec_nat_zeros)
  next
    case inside
    let ?fr = "CHR ''.'' # drop (nat dp) ds"
    have lay: "with_point (fmtF False ds dp) = take (nat dp) ds @ ?fr @ []" using inside by (simp add: with_point_def fmtF_def)
    have "list_all is_digit (take (nat dp) ds)" "list_all is_digit (drop (nat dp) ds)"
      using ds(2) by (auto simp: list_all_iff dest: in_set_takeD in_set_dropD)
    then show ?thesis
      unfolding lay
      using x inside
      by (intro float_textI) (auto simp: fraction_text_def exponent_text_def exponent_of_def)
  next
    case whole
    let ?z = "nat dp - length ds"
    let ?w = "ds @ replicate ?z CHR ''0''"
    have w: "list_all is_digit ?w" using ds(2) by (auto simp: list_all_iff is_digit_def)
    have lay: "with_point (fmtF False ds dp) = ?w @ ''.0'' @ []"
      using whole ds(1) with_point_digits [OF w] by (cases ds) (simp_all add: fmtF_def)
    have "dec_nat_acc 0 (?w @ ''0'') = dec_nat_acc 0 ds * 10 ^ Suc ?z" by (simp add: dec_nat_acc_append dec_nat_zeros)
    moreover have "- 1 + int (Suc ?z) = dp - int (length ds)" using whole by simp
    ultimately have "f_of_dec False (dec_nat_acc 0 (?w @ ''0'')) (- 1) = x"
      using x(1) f_of_dec_shift [of False "dec_nat_acc 0 ds" "Suc ?z" "- 1"] by (simp only:)
    then show ?thesis
      unfolding lay
      using w ds(1) x(2)
      by (intro float_textI) (auto simp: fraction_text_def exponent_text_def exponent_of_def is_digit_def)
  qed
qed

theorem printed_float:
  assumes f: "finite_float f" and s: "\<not> f_sign f"
  shows "float_text f (formatFloat f)"
proof (cases "f_mag f = 0")
  case True
  then have z: "shortest_digits f = ([], 0)" by (simp add: shortest_digits_def)
  have "f_of_dec False 0 (- 1) = f_make (f_sign f) (f_mag f)" using s True by (simp add: f_of_dec_eq f_round_0)
  then have "f_of_dec False 0 (- 1) = f" by (simp only: f_make_self)
  then have "float_text f (''0'' @ ''.0'' @ [])"
    using f by (intro float_textI) (auto simp: fraction_text_def exponent_text_def exponent_of_def is_digit_def finite_float_def)
  then show ?thesis
    using s by (simp add: formatFloat_finite [OF f] FormatFloat_g_def z fmtF_def with_point_def)
next
  case False
  then have "0 < f_units f" using f_units_eq_0 [of f] by (metis neq0_conv)
  then obtain ds dp where d: "shortest_digits f = (ds, dp)" "ds \<noteq> []" "list_all is_digit ds"
    "f_of_dec (f_sign f) (dec_nat_acc 0 ds) (dp - int (length ds)) = f" "\<bar>dp\<bar> < 1100"
    using shortest_digits_exact [OF f] by blast
  then show ?thesis
    using f s exponent_layout [OF d(2,3) _ _ d(5), of f] plain_layout [OF d(2,3), of dp f]
    by (simp add: formatFloat_finite [OF f] FormatFloat_g_def finite_float_def)
qed

section \<open>The sign\<close>

definition f_abs :: "float64 \<Rightarrow> float64" where
  "f_abs f = f_make False (f_mag f)"

lemma f_abs_simps [simp]: "f_mag (f_abs f) = f_mag f" "\<not> f_sign (f_abs f)" "finite_float (f_abs f) = finite_float f"
  using f_mag_make [OF f_mag_bound, of False f] f_sign_make [OF f_mag_bound, of False f]
  by (simp_all add: f_abs_def finite_float_mag)

lemma f_units_abs [simp]: "f_units (f_abs f) = f_units f"
  by simp

lemma f_round_make: "\<exists>mag < 2 ^ 63. \<forall>s. f_round s num den = f_make s mag"
proof -
  have "min (a :: nat) (2047 * 2 ^ 52) < 2 ^ 63" for a by simp
  then show ?thesis unfolding f_round_def Let_def by blast
qed

lemma f_of_dec_abs: "f_of_dec False m e = f_abs x \<longleftrightarrow> f_of_dec (f_sign x) m e = x"
proof -
  obtain mag where m: "mag < 2 ^ 63" "\<And>s. f_of_dec s m e = f_make s mag"
    using f_round_make unfolding f_of_dec_eq by blast
  have "f_make (f_sign x) mag = x \<longleftrightarrow> mag = f_mag x"
    using f_mag_make [OF m(1)] f_make_self by metis
  moreover have "f_make False mag = f_abs x \<longleftrightarrow> mag = f_mag x"
    using f_mag_make [OF m(1)] f_abs_simps(1) unfolding f_abs_def by metis
  ultimately show ?thesis by (simp add: m(2))
qed

lemma shortest_digits_abs: "shortest_digits (f_abs x) = shortest_digits x"
proof -
  have t: "dec_try (f_abs x) num den dp n = dec_try x num den dp n" for num den dp n
    by (simp add: dec_try_def f_of_dec_abs)
  have "dec_search (f_abs x) num den dp ns = dec_search x num den dp ns" for num den dp ns
    by (induction ns) (simp_all add: t split: option.split)
  then show ?thesis unfolding shortest_digits_def f_units_abs by simp
qed

lemma formatFloat_sign:
  assumes "finite_float f"
  shows "formatFloat f = (if f_sign f then ''-'' else []) @ formatFloat (f_abs f)"
proof -
  obtain ds dp where d: "shortest_digits f = (ds, dp)" by (cases "shortest_digits f")
  have "with_point (''-'' @ s) = ''-'' @ with_point s" for s by (simp add: with_point_def)
  then show ?thesis
    using assms d shortest_digits_abs [of f]
    by (simp add: formatFloat_finite FormatFloat_g_def fmtE_def fmtF_def)
qed

lemma f_neg_abs:
  assumes "f_sign f"
  shows "f_neg (f_abs f) = f"
proof -
  have "f_neg (f_abs f) = Float64frombits (of_nat (f_mag f) + signFlip)"
    unfolding f_neg_def f_abs_def f_make_def using xor_signFlip_add [of "of_nat (f_mag f)"] by (simp add: signFlip_def)
  also have "\<dots> = f_make (f_sign f) (f_mag f)" using assms by (simp add: f_make_def signFlip_def)
  finally show ?thesis by (simp only: f_make_self)
qed

end
