(* ===== verification/Printing.thy ===== *)
theory Printing
  imports ParseTree FloatText
begin

text \<open>
  Scanning what the printer of \<open>src/ast/print.go\<close> writes: the tokens an expression prints as, and the
  proof that the scanner finds exactly these tokens in the printed text, whatever separator follows.
\<close>

section \<open>The tokens of an expression\<close>

type_synonym tok = "TokenKind \<times> string"

abbreviation kw :: "string \<Rightarrow> tok" where "kw w \<equiv> (TKeyword, w)"
abbreviation punct :: "string \<Rightarrow> tok" where "punct s \<equiv> (TPunct, s)"
abbreviation name_tok :: "string \<Rightarrow> tok" where "name_tok n \<equiv> (TIdent, n)"

definition signed_toks :: "bool \<Rightarrow> tok \<Rightarrow> tok list" where
  "signed_toks neg t = (if neg then [punct ''-'', t] else [t])"

fun value_toks :: "Value \<Rightarrow> tok list" where
  "value_toks VNull = [kw ''NULL'']"
| "value_toks (VBool b) = [kw (if b then ''TRUE'' else ''FALSE'')]"
| "value_toks (VInt i) = signed_toks (sint i < 0) (TInt, nat_dec (nat \<bar>sint i\<bar>))"
| "value_toks (VFloat f) = signed_toks (f_sign f) (TFloat, formatFloat (f_abs f))"
| "value_toks (VText s) = [(TString, s)]"

definition not_toks :: "bool \<Rightarrow> tok list" where
  "not_toks n = (if n then [kw ''NOT''] else [])"

definition op_tok :: "string \<Rightarrow> tok" where
  "op_tok op = (if op = ''AND'' \<or> op = ''OR'' then kw op else punct op)"

definition sub_toks :: "Expr \<Rightarrow> tok list \<Rightarrow> int \<Rightarrow> tok list" where
  "sub_toks e ts parent = (if Precedence e < parent then punct ''('' # ts @ [punct '')''] else ts)"

fun comma_toks :: "tok list list \<Rightarrow> tok list" where
  "comma_toks [] = []"
| "comma_toks [ts] = ts"
| "comma_toks (ts # us # rest) = ts @ punct '','' # comma_toks (us # rest)"

fun expr_toks :: "Expr \<Rightarrow> tok list" where
  "expr_toks (ELiteral v) = value_toks v"
| "expr_toks (EColumn t name) = (if t \<noteq> [] then [name_tok t, punct ''.'', name_tok name] else [name_tok name])"
| "expr_toks EStar = [punct ''*'']"
| "expr_toks (EUnary op a) =
     (if op = ''NOT'' then kw ''NOT'' # sub_toks a (expr_toks a) PrecNot
      else punct op # sub_toks a (expr_toks a) PrecUnary)"
| "expr_toks (EBinary op l r) =
     sub_toks l (expr_toks l) (BinaryPrecedence op) @ op_tok op # sub_toks r (expr_toks r) (BinaryPrecedence op + 1)"
| "expr_toks (EIsNull a n) = sub_toks a (expr_toks a) PrecCompare @ kw ''IS'' # not_toks n @ [kw ''NULL'']"
| "expr_toks (EBetween a lo hi n) =
     sub_toks a (expr_toks a) PrecCompare @ not_toks n @ kw ''BETWEEN'' #
     sub_toks lo (expr_toks lo) PrecAdd @ kw ''AND'' # sub_toks hi (expr_toks hi) PrecAdd"
| "expr_toks (EIn a items n) =
     sub_toks a (expr_toks a) PrecCompare @ not_toks n @ kw ''IN'' # punct ''('' #
     comma_toks (map expr_toks items) @ [punct '')'']"
| "expr_toks (ELike a p n) =
     sub_toks a (expr_toks a) PrecCompare @ not_toks n @ kw ''LIKE'' # sub_toks p (expr_toks p) PrecCompare"
| "expr_toks (EFuncCall name arg star) =
     name_tok (map lower_char name) # punct ''('' #
     (if star then [punct ''*''] else case arg of None \<Rightarrow> [] | Some a \<Rightarrow> expr_toks a) @ [punct '')'']"

section \<open>Scanning a printed text\<close>

fun scan_toks :: "casing \<Rightarrow> Lexer \<Rightarrow> tok list \<Rightarrow> Lexer \<Rightarrow> bool" where
  "scan_toks cs l [] l' \<longleftrightarrow> l' = l"
| "scan_toks cs l (t # ts) l' \<longleftrightarrow>
     (\<exists>tok m. Lexer_Next cs l = (Inr tok, m) \<and> tk_Kind tok = fst t \<and> tk_Text tok = snd t \<and> fst t \<noteq> TEOF \<and>
        scan_toks cs m ts l')"

text \<open>The text \<open>s\<close> begins with the tokens \<open>ts\<close>, and \<open>s'\<close> is what follows them.\<close>

definition spells :: "casing \<Rightarrow> string \<Rightarrow> tok list \<Rightarrow> string \<Rightarrow> bool" where
  "spells cs s ts s' \<longleftrightarrow> (\<forall>l. rest_of l = s \<longrightarrow> (\<exists>l'. scan_toks cs l ts l' \<and> rest_of l' = s'))"

lemma scan_toks_append: "scan_toks cs l (ts @ us) l' \<longleftrightarrow> (\<exists>m. scan_toks cs l ts m \<and> scan_toks cs m us l')"
  by (induction ts arbitrary: l) (simp, fastforce)

lemma spells_append [trans]: "spells cs s ts s' \<Longrightarrow> spells cs s' us s'' \<Longrightarrow> spells cs s (ts @ us) s''"
  unfolding spells_def scan_toks_append by blast

lemma spells_Cons: "spells cs s [t] s' \<Longrightarrow> spells cs s' us s'' \<Longrightarrow> spells cs s (t # us) s''"
  using spells_append [of cs s "[t]"] by simp

lemma spells_Nil [simp]: "spells cs s [] s"
  by (simp add: spells_def)

lemma spellsI:
  assumes "\<And>l. rest_of l = s \<Longrightarrow> \<exists>m. Lexer_Next cs l = (Inr (token_at k w (mark l)), m) \<and> rest_of m = s'" and "k \<noteq> TEOF"
  shows "spells cs s [(k, w)] s'"
  unfolding spells_def using assms by fastforce

lemma skip_space: "rest_of l = CHR '' '' # s \<Longrightarrow> Lexer_Next cs l = Lexer_Next cs (snd (advance l))"
  using cursor_rest [of l "CHR '' ''" s]
  by (simp add: Lexer_Next_def skipSpaceAndComments.simps [of l] at_end_rest is_space_def char_code_def)

lemma spells_space:
  assumes "spells cs s ts s'" and "ts \<noteq> []"
  shows "spells cs (CHR '' '' # s) ts s'"
  unfolding spells_def
proof (intro allI impI)
  fix l assume l: "rest_of l = CHR '' '' # s"
  then have "rest_of (snd (advance l)) = s" by simp
  then obtain l' where "scan_toks cs (snd (advance l)) ts l'" "rest_of l' = s'"
    using assms(1) unfolding spells_def by blast
  then show "\<exists>l'. scan_toks cs l ts l' \<and> rest_of l' = s'"
    using assms(2) skip_space [OF l] by (cases ts) auto
qed

section \<open>One token\<close>

definition sep :: "string \<Rightarrow> bool" where
  "sep s \<longleftrightarrow> s = [] \<or> hd s \<in> set '' ),;''"

lemma sep_simps [simp]: "sep []" "sep (CHR '' '' # s)" "sep (CHR '')'' # s)" "sep (CHR '','' # s)" "sep (CHR '';'' # s)"
  by (simp_all add: sep_def)

lemma peekAt_rest: "peekAt l n = (case drop n (rest_of l) of [] \<Rightarrow> CHR 0x00 | c # _ \<Rightarrow> c)"
proof (cases "length (lx_src l) \<le> lx_pos l + n")
  case False
  then have "drop n (rest_of l) = lx_src l ! (lx_pos l + n) # drop (Suc (lx_pos l + n)) (lx_src l)"
    by (simp add: rest_of_def Cons_nth_drop_Suc add.commute)
  then show ?thesis using False by (simp add: peekAt_def)
qed (simp add: peekAt_def rest_of_def)

lemma Next_at_token:
  assumes "rest_of l = c # s" and "\<not> is_space c"
    and "c = CHR ''-'' \<Longrightarrow> \<forall>s'. s \<noteq> CHR ''-'' # s'" and "c = CHR ''/'' \<Longrightarrow> \<forall>s'. s \<noteq> CHR ''*'' # s'"
  shows "Lexer_Next cs l = lex_token cs l"
proof -
  have "peekAt l 1 = (case s of [] \<Rightarrow> CHR 0x00 | d # _ \<Rightarrow> d)" using assms(1) by (simp add: peekAt_rest)
  then show ?thesis
    using assms cursor_rest [OF assms(1)]
    by (cases s) (auto simp: Lexer_Next_def skipSpaceAndComments.simps [of l] at_end_rest Let_def)
qed

lemma rest_advance_while: "rest_of (advance_while p l) = dropWhile p (rest_of l)"
proof (induction p l rule: advance_while.induct)
  case (1 p l)
  show ?case
  proof (cases "rest_of l")
    case Nil
    then show ?thesis by (simp add: advance_while.simps [of p l] at_end_rest)
  next
    case (Cons c s)
    then show ?thesis
      using 1 cursor_rest [OF Cons] by (simp add: advance_while.simps [of p l] at_end_rest)
  qed
qed

lemma rest_spelled: "moved l m \<Longrightarrow> rest_of l = spelled (mark l) m @ rest_of m"
  unfolding moved_def rest_of_def spelled_def mark_def
  by (simp add: drop_take) (metis append_take_drop_id drop_drop le_add_diff_inverse2)

lemma spelled_eq: "moved l m \<Longrightarrow> rest_of l = w @ rest_of m \<Longrightarrow> spelled (mark l) m = w"
  using rest_spelled [of l m] by simp

lemma dropWhile_word: "list_all p w \<Longrightarrow> s = [] \<or> \<not> p (hd s) \<Longrightarrow> dropWhile p (w @ s) = s"
  by (cases s) (auto simp: list_all_iff)

text \<open>Words: keywords in either case, and identifiers that need no quotes.\<close>

lemma Next_word:
  assumes l: "rest_of l = w @ s" and w: "w \<noteq> []" "is_ident_start (hd w)" "list_all is_ident_part w"
    and s: "s = [] \<or> \<not> is_ident_part (hd s)"
  shows "\<exists>m. Lexer_Next cs l = (Inr (if ToUpper cs w \<in> set reserved then token_at TKeyword (ToUpper cs w) (mark l)
      else token_at TIdent (ToLower cs w) (mark l)), m) \<and> rest_of m = s"
proof -
  let ?m = "advance_while is_ident_part l"
  obtain c w' where c: "w = c # w'" using w(1) by (cases w) auto
  have start: "is_ident_start c" using w(2) c by simp
  then have other: "\<not> is_space c" "c \<noteq> CHR ''-''" "c \<noteq> CHR ''/''" "c \<noteq> squote" "c \<noteq> CHR 0x22" "\<not> is_digit c"
    by (auto simp: is_ident_start_def is_alpha_def is_space_def squote_def is_digit_def char_code_def)
  have "Lexer_Next cs l = lex_token cs l"
    using l other by (intro Next_at_token [of l c]) (simp_all add: c)
  moreover have "lx_src l ! lx_pos l = c" "\<not> at_end l" using l c cursor_rest [of l c] by (simp_all add: at_end_rest)
  moreover have m: "rest_of ?m = s" using l dropWhile_word [OF w(3) s] by (simp add: rest_advance_while)
  moreover have "spelled (mark l) ?m = w" using l m by (intro spelled_eq moved_advance_while) simp
  ultimately show ?thesis using other start by (simp add: lex_token_def lexWord_def Let_def)
qed

lemma sep_not_part: "sep s \<Longrightarrow> s = [] \<or> \<not> is_ident_part (hd s)"
  by (auto simp: sep_def is_ident_part_def is_ident_start_def is_alpha_def is_digit_def char_code_def)

lemma upper_char_ident: "is_alpha c \<Longrightarrow> is_ident_start c \<and> is_ident_part c"
  by (simp add: is_ident_part_def is_ident_start_def)

lemma spells_keyword:
  assumes w: "w \<noteq> []" "list_all is_alpha w" "map upper_char w \<in> set reserved" and s: "s = [] \<or> \<not> is_ident_part (hd s)"
  shows "spells cs (w @ s) [kw (map upper_char w)] s"
proof (rule spellsI)
  fix l assume l: "rest_of l = w @ s"
  have "is_ascii w" using w(2) by (auto simp: is_ascii_def list_all_iff is_alpha_def)
  then have u: "ToUpper cs w = map upper_char w" by (simp add: ToUpper_def)
  have "is_ident_start (hd w)" "list_all is_ident_part w"
    using w(1,2) upper_char_ident by (auto simp: list_all_iff)
  from Next_word [OF l w(1) this s, of cs] show "\<exists>m. Lexer_Next cs l = (Inr (token_at TKeyword (map upper_char w) (mark l)), m) \<and> rest_of m = s"
    using w(3) by (auto simp: u)
qed simp

text \<open>A keyword as the printer writes it.\<close>

lemma spells_kw: "w \<in> set reserved \<Longrightarrow> s = [] \<or> \<not> is_ident_part (hd s) \<Longrightarrow> spells cs (w @ s) [kw w] s"
proof -
  assume w: "w \<in> set reserved" and s: "s = [] \<or> \<not> is_ident_part (hd s)"
  have "list_all (\<lambda>w. w \<noteq> [] \<and> list_all is_alpha w \<and> map upper_char w = w) reserved" by code_simp
  then have "w \<noteq> []" "list_all is_alpha w" "map upper_char w = w" using w by (auto simp: list_all_iff)
  then show ?thesis using spells_keyword [of w s cs] w s by simp
qed

definition name_ok :: "string \<Rightarrow> bool" where
  "name_ok name \<longleftrightarrow> name \<noteq> [] \<and> (plain_ident 0 name \<longrightarrow> map upper_char name \<notin> set reserved)"

lemma plain_ident_part: "plain_ident i s \<Longrightarrow> list_all (\<lambda>c. is_ident_part c \<and> lower_char c = c \<and> char_code c < 128) s"
  by (induction i s rule: plain_ident.induct)
    (auto simp: is_ident_part_def is_ident_start_def is_alpha_def lower_ascii_def lower_char_def char_code_def is_digit_def)

lemma plain_ident_start: "plain_ident 0 (c # s) \<Longrightarrow> is_ident_start c"
  by (auto simp: is_ident_start_def is_alpha_def lower_ascii_def char_code_def)

lemma spells_plain_word:
  assumes w: "w \<noteq> []" "is_ident_start (hd w)" "list_all is_ident_part w" "is_ascii w" "map upper_char w \<notin> set reserved"
    and s: "s = [] \<or> \<not> is_ident_part (hd s)"
  shows "spells cs (w @ s) [name_tok (map lower_char w)] s"
proof (rule spellsI)
  fix l assume l: "rest_of l = w @ s"
  from Next_word [OF l w(1-3) s, of cs] show "\<exists>m. Lexer_Next cs l = (Inr (token_at TIdent (map lower_char w) (mark l)), m) \<and> rest_of m = s"
    using w(4,5) by (auto simp: ToUpper_def ToLower_def)
qed simp

lemma ident_loop_quoted:
  assumes "rest_of l = double_char (CHR 0x22) n @ CHR 0x22 # s" and "s = [] \<or> hd s \<noteq> CHR 0x22" and "sb @ n \<noteq> []"
  shows "\<exists>m. ident_loop start sb l = (Inr (token_at TIdent (sb @ n) start), m) \<and> rest_of m = s"
  using assms(1,3)
proof (induction n arbitrary: sb l)
  case Nil
  then show ?case
    using assms(2) cursor_rest [of l]
    by (subst ident_loop.simps) (auto simp: at_end_rest peek_rest Let_def split: list.split)
next
  case (Cons c n)
  show ?case
  proof (cases "c = CHR 0x22")
    case True
    then have "rest_of l = CHR 0x22 # CHR 0x22 # double_char (CHR 0x22) n @ CHR 0x22 # s" using Cons.prems by simp
    then show ?thesis
      using Cons.IH [of "snd (advance (snd (advance l)))" "sb @ [CHR 0x22]"] cursor_rest [of l] True
      by (subst ident_loop.simps) (auto simp: at_end_rest peek_rest Let_def)
  next
    case False
    then have "rest_of l = c # double_char (CHR 0x22) n @ CHR 0x22 # s" using Cons.prems by simp
    then show ?thesis
      using Cons.IH [of "snd (advance l)" "sb @ [c]"] cursor_rest [of l] False
      by (subst ident_loop.simps) (auto simp: at_end_rest peek_rest Let_def)
  qed
qed

lemma spells_ident:
  assumes n: "name_ok n" and s: "s = [] \<or> \<not> is_ident_part (hd s) \<and> hd s \<noteq> CHR 0x22"
  shows "spells cs (quoteIdent n @ s) [name_tok n] s"
proof (cases "plain_ident 0 n")
  case True
  have w: "n \<noteq> []" "map upper_char n \<notin> set reserved" using n True by (simp_all add: name_ok_def)
  then have "is_ident_start (hd n)" using True plain_ident_start by (cases n) auto
  moreover have "list_all is_ident_part n" "is_ascii n" "map lower_char n = n"
    using plain_ident_part [OF True] by (auto simp: list_all_iff is_ascii_def intro: map_idI)
  ultimately show ?thesis
    using spells_plain_word [of n s cs] w s True by (auto simp: quoteIdent_def)
next
  case False
  show ?thesis
  proof (rule spellsI)
    fix l assume "rest_of l = quoteIdent n @ s"
    then have l: "rest_of l = CHR 0x22 # double_char (CHR 0x22) n @ CHR 0x22 # s"
      using n False by (simp add: name_ok_def quoteIdent_def dquote_def)
    have "Lexer_Next cs l = lex_token cs l"
      by (rule Next_at_token [OF l]) (simp_all add: is_space_def char_code_def)
    then have "Lexer_Next cs l = ident_loop (mark l) [] (snd (advance l))"
      using cursor_rest [OF l] l by (simp add: lex_token_def lexQuotedIdent_def at_end_rest squote_def Let_def)
    then show "\<exists>m. Lexer_Next cs l = (Inr (token_at TIdent n (mark l)), m) \<and> rest_of m = s"
      using ident_loop_quoted [of "snd (advance l)" n s "[]" "mark l"] l s n by (auto simp: name_ok_def)
  qed simp
qed

lemma spells_call:
  assumes "name \<in> set aggregates"
  shows "spells cs (name @ CHR ''('' # s) [name_tok (map lower_char name)] (CHR ''('' # s)"
proof -
  have "list_all (\<lambda>w. w \<noteq> [] \<and> is_ident_start (hd w) \<and> list_all is_ident_part w \<and> is_ascii w \<and> map upper_char w \<notin> set reserved) aggregates"
    by code_simp
  then show ?thesis
    using assms
    by (intro spells_plain_word)
      (auto simp: list_all_iff is_ident_part_def is_ident_start_def is_alpha_def is_digit_def char_code_def)
qed

lemma spells_text:
  assumes "CHR 0x5C \<notin> set t" and "s = [] \<or> hd s \<noteq> squote"
  shows "spells cs (Value_SQL (VText t) @ s) [(TString, t)] s"
proof (rule spellsI)
  fix l assume l: "rest_of l = Value_SQL (VText t) @ s"
  from Next_literal [OF l assms(1), of cs] show "\<exists>m. Lexer_Next cs l = (Inr (token_at TString t (mark l)), m) \<and> rest_of m = s"
    using assms(2) by (cases s; cases "Lexer_Next cs l") auto
qed simp

text \<open>Punctuation that the byte behind it does not extend.\<close>

lemma no_operator:
  assumes "c \<notin> set ''<>!=|'' \<or> s = [] \<or> hd s \<notin> set ''=>|''"
  shows "find (\<lambda>op. prefix op (c # s)) operators = None"
  using assms by (cases s) (auto simp: operators_def)

lemma spells_char:
  assumes c: "c \<in> set ''=<>+-*/%(),;.''" and s: "c \<notin> set ''<>!=|'' \<or> s = [] \<or> hd s \<notin> set ''=>|''"
    and comment: "c = CHR ''-'' \<Longrightarrow> s = [] \<or> hd s \<noteq> CHR ''-''" "c = CHR ''/'' \<Longrightarrow> s = [] \<or> hd s \<noteq> CHR ''*''"
  shows "spells cs (c # s) [punct [c]] s"
proof (rule spellsI)
  fix l assume l: "rest_of l = c # s"
  have other: "\<not> is_space c" "c \<noteq> squote" "c \<noteq> CHR 0x22" "\<not> is_digit c" "\<not> is_ident_start c"
    using c by (auto simp: is_space_def squote_def is_digit_def is_ident_start_def is_alpha_def char_code_def)
  have "Lexer_Next cs l = lex_token cs l"
    using comment by (intro Next_at_token [OF l other(1)]) auto
  moreover have "drop (lx_pos l) (lx_src l) = c # s" using l by (simp add: rest_of_def)
  ultimately show "\<exists>m. Lexer_Next cs l = (Inr (token_at TPunct [c] (mark l)), m) \<and> rest_of m = s"
    using cursor_rest [OF l] l other c no_operator [OF s] by (simp add: lex_token_def lexPunct_def at_end_rest Let_def)
qed simp

lemma spells_pair:
  assumes "[c, d] \<in> set operators"
  shows "spells cs (c # d # s) [punct [c, d]] s"
proof (rule spellsI)
  fix l assume l: "rest_of l = c # d # s"
  have other: "\<not> is_space c" "c \<noteq> squote" "c \<noteq> CHR 0x22" "\<not> is_digit c" "\<not> is_ident_start c" "c \<noteq> CHR ''-''" "c \<noteq> CHR ''/''"
    using assms
    by (auto simp: operators_def is_space_def squote_def is_digit_def is_ident_start_def is_alpha_def char_code_def)
  have "Lexer_Next cs l = lex_token cs l"
    using other by (intro Next_at_token [OF l other(1)]) auto
  moreover have "drop (lx_pos l) (lx_src l) = c # d # s" using l by (simp add: rest_of_def)
  moreover have "find (\<lambda>op. prefix op (c # d # s)) operators = Some [c, d]"
    using assms by (auto simp: operators_def)
  ultimately show "\<exists>m. Lexer_Next cs l = (Inr (token_at TPunct [c, d] (mark l)), m) \<and> rest_of m = s"
    using cursor_rest [OF l] l other by (simp add: lex_token_def lexPunct_def at_end_rest Let_def)
qed simp

text \<open>Numbers: digits, with a fraction, with an exponent.\<close>

lemma sep_head: "sep s \<Longrightarrow> s = [] \<or> \<not> is_digit (hd s) \<and> hd s \<noteq> CHR ''.'' \<and> hd s \<noteq> CHR ''e'' \<and> hd s \<noteq> CHR ''E''"
  by (auto simp: sep_def is_digit_def)

lemma fraction_rest:
  assumes l: "rest_of l = f @ s" and f: "fraction_text f" and s: "s = [] \<or> \<not> is_digit (hd s) \<and> hd s \<noteq> CHR ''.''"
  shows "fst (lex_fraction l) = (if f = [] then TInt else TFloat) \<and> rest_of (snd (lex_fraction l)) = s"
proof (cases "f = []")
  case True
  then show ?thesis using l s by (cases s) (auto simp: lex_fraction_def peek_rest)
next
  case False
  then obtain d ds where ds: "f = CHR ''.'' # d # ds" "list_all is_digit (d # ds)"
    using f by (auto simp: fraction_text_def neq_Nil_conv)
  have "dropWhile is_digit (ds @ s) = s" using dropWhile_word [of is_digit ds s] ds(2) s by auto
  then show ?thesis using l ds by (simp add: lex_fraction_def peek_rest peekAt_rest rest_advance_while)
qed

lemma exponent_rest:
  assumes l: "rest_of l = e @ s" and e: "exponent_text e" and s: "sep s"
  shows "fst (lex_exponent k l) = (if e = [] then k else TFloat) \<and> rest_of (snd (lex_exponent k l)) = s"
proof (cases "e = []")
  case True
  then show ?thesis using l sep_head [OF s] by (cases s) (auto simp: lex_exponent_def peek_rest)
next
  case False
  then obtain c d ds where ds: "e = CHR ''e'' # c # d # ds" "c = CHR ''+'' \<or> c = CHR ''-''" "list_all is_digit (d # ds)"
    using e by (auto simp: exponent_text_def neq_Nil_conv)
  have "dropWhile is_digit (ds @ s) = s" using dropWhile_word [of is_digit ds s] ds(3) sep_head [OF s] by auto
  then show ?thesis using l ds by (auto simp: lex_exponent_def peek_rest peekAt_rest rest_advance_while)
qed

lemma spells_number:
  assumes w: "w \<noteq> []" "list_all is_digit w" and f: "fraction_text f" and e: "exponent_text e" and s: "sep s"
  shows "spells cs (w @ f @ e @ s) [(if f = [] \<and> e = [] then TInt else TFloat, w @ f @ e)] s"
proof (rule spellsI)
  fix l assume l: "rest_of l = w @ f @ e @ s"
  obtain c w' where c: "w = c # w'" using w(1) by (cases w) auto
  then have d: "is_digit c" using w(2) by simp
  then have other: "\<not> is_space c" "c \<noteq> CHR ''-''" "c \<noteq> CHR ''/''" "c \<noteq> squote" "c \<noteq> CHR 0x22"
    by (auto simp: is_space_def squote_def is_digit_def char_code_def)
  have "Lexer_Next cs l = lex_token cs l"
    using l other by (intro Next_at_token [of l c]) (simp_all add: c)
  then have next': "Lexer_Next cs l = lexNumber (mark l) l"
    using cursor_rest [of l c] l c d other by (simp add: lex_token_def at_end_rest Let_def)
  let ?a = "advance_while is_digit l"
  have es: "e @ s = [] \<or> \<not> is_digit (hd (e @ s)) \<and> hd (e @ s) \<noteq> CHR ''.''"
    using e sep_head [OF s] by (cases e) (auto simp: exponent_text_def is_digit_def)
  have "f @ e @ s = [] \<or> \<not> is_digit (hd (f @ e @ s))" using f es by (auto simp: fraction_text_def is_digit_def)
  then have "rest_of ?a = f @ e @ s" using l dropWhile_word [OF w(2), of "f @ e @ s"] by (simp add: rest_advance_while)
  note b = fraction_rest [OF this f es]
  note x = exponent_rest [OF conjunct2 [OF b] e s, of "fst (lex_fraction ?a)"]
  let ?m = "snd (lexNumber (mark l) l)"
  have m: "?m = snd (lex_exponent (fst (lex_fraction ?a)) (snd (lex_fraction ?a)))"
    by (simp add: lexNumber_def Let_def split_beta)
  have "spelled (mark l) ?m = w @ f @ e"
    using x l by (intro spelled_eq moved_lexNumber) (simp add: m)
  moreover have "\<not> is_ident_start (peek ?m)"
    using x s by (auto simp: m peek_rest sep_def is_ident_start_def is_alpha_def char_code_def split: list.split)
  ultimately have "lexNumber (mark l) l = (Inr (token_at (fst (lex_exponent (fst (lex_fraction ?a)) (snd (lex_fraction ?a)))) (w @ f @ e) (mark l)), ?m)"
    unfolding m by (simp add: lexNumber_def Let_def split_beta)
  then show "\<exists>m. Lexer_Next cs l = (Inr (token_at (if f = [] \<and> e = [] then TInt else TFloat) (w @ f @ e) (mark l)), m) \<and> rest_of m = s"
    using next' x b m by (intro exI [of _ ?m]) simp
qed simp

lemma spells_digits: "sep s \<Longrightarrow> spells cs (nat_dec n @ s) [(TInt, nat_dec n)] s"
  using spells_number [of "nat_dec n" "[]" "[]" s cs] nat_dec_digits [of n]
  by (simp add: fraction_text_def exponent_text_def)

section \<open>Values and expressions\<close>

text \<open>What the printer writes so that it can be read back: finite floats, texts without backslash, and names that
  are not taken for keywords; two minus signs in a row, which start a comment, and patterns of LIKE that need
  parentheses are left out.\<close>

definition value_ok :: "Value \<Rightarrow> bool" where
  "value_ok v \<longleftrightarrow> (case v of VFloat f \<Rightarrow> finite_float f | VText s \<Rightarrow> CHR 0x5C \<notin> set s | _ \<Rightarrow> True)"

fun is_minus :: "Expr \<Rightarrow> bool" where
  "is_minus (EUnary op _) = (op = ''-'')"
| "is_minus _ = False"

fun printable :: "Expr \<Rightarrow> bool" where
  "printable (ELiteral v) = value_ok v"
| "printable (EColumn t name) = ((t = [] \<or> name_ok t) \<and> name_ok name)"
| "printable EStar = False"
| "printable (EUnary op a) = (printable a \<and> \<not> (op = ''-'' \<and> is_minus a))"
| "printable (EBinary op l r) = (printable l \<and> printable r)"
| "printable (EIsNull a n) = printable a"
| "printable (EBetween a lo hi n) = (printable a \<and> printable lo \<and> printable hi)"
| "printable (EIn a items n) = (printable a \<and> list_all printable items)"
| "printable (ELike a p n) = (printable a \<and> printable p \<and> PrecAdd \<le> Precedence p)"
| "printable (EFuncCall name arg star) = (case arg of None \<Rightarrow> True | Some a \<Rightarrow> printable a)"

lemma spells_minus: "s \<noteq> [] \<Longrightarrow> hd s \<noteq> CHR ''-'' \<Longrightarrow> spells cs (CHR ''-'' # s) [punct ''-''] s"
  by (rule spells_char) simp_all

lemma digits_head: "w \<noteq> [] \<Longrightarrow> list_all is_digit w \<Longrightarrow> hd (w @ s) \<noteq> CHR ''-''"
  by (cases w) (auto simp: is_digit_def)

lemma spells_signed:
  assumes "spells cs (w @ s) [t] s" and "w \<noteq> []" and "hd w \<noteq> CHR ''-''"
  shows "spells cs ((if neg then ''-'' else []) @ w @ s) (signed_toks neg t) s"
  using assms spells_Cons [OF spells_minus, of "w @ s" cs "[t]" s] by (simp add: signed_toks_def)

lemma spells_value:
  assumes v: "value_ok v" and s: "sep s"
  shows "spells cs (Value_SQL v @ s) (value_toks v) s"
proof (cases v)
  case VNull
  then show ?thesis using spells_kw [of "''NULL''" s cs] sep_not_part [OF s] by (simp add: Value_SQL_def reserved_def)
next
  case (VBool b)
  have "map upper_char ''true'' = ''TRUE''" "map upper_char ''false'' = ''FALSE''"
    "list_all is_alpha ''true''" "list_all is_alpha ''false''"
    by code_simp+
  then show ?thesis
    using VBool spells_keyword [of "''true''" s cs] spells_keyword [of "''false''" s cs] sep_not_part [OF s]
    by (simp add: Value_SQL_def reserved_def)
next
  case (VInt i)
  have "hd (nat_dec n) \<noteq> CHR ''-''" for n using digits_head [OF nat_dec_not_Nil nat_dec_digits, of n "[]"] by simp
  then show ?thesis
    using VInt spells_signed [of cs "nat_dec (nat \<bar>sint i\<bar>)" s "(TInt, nat_dec (nat \<bar>sint i\<bar>))" "sint i < 0"]
      spells_digits [OF s, of cs "nat \<bar>sint i\<bar>"]
    by (auto simp: Value_SQL_def FormatInt_def int_dec_def split: if_splits)
next
  case (VFloat f)
  then have f: "finite_float f" using v by (simp add: value_ok_def)
  obtain w fr ex where t: "formatFloat (f_abs f) = w @ fr @ ex" "w \<noteq> []" "list_all is_digit w" "fraction_text fr"
    "exponent_text ex" "\<not> (fr = [] \<and> ex = [])"
    using printed_float [of "f_abs f"] f unfolding float_text_def by auto
  have "hd (w @ fr @ ex) \<noteq> CHR ''-''" using digits_head [OF t(2,3)] by simp
  moreover have "spells cs ((w @ fr @ ex) @ s) [(TFloat, w @ fr @ ex)] s"
    using spells_number [OF t(2-5) s, of cs] t(6) by (simp split: if_splits)
  ultimately show ?thesis
    using VFloat spells_signed [of cs "w @ fr @ ex" s] t(1,2) formatFloat_sign [OF f] by (simp add: Value_SQL_def)
next
  case (VText t)
  then show ?thesis using v s spells_text [of t s cs] by (auto simp: value_ok_def sep_def squote_def)
qed

lemma spells_sub:
  assumes t: "\<And>s. sep s \<Longrightarrow> spells cs (t @ s) ts s" and s: "sep s"
  shows "spells cs (sub_print e t p @ s) (sub_toks e ts p) s"
proof -
  have "spells cs (CHR ''('' # t @ CHR '')'' # s) (punct ''('' # ts @ [punct '')'']) s"
    by (intro spells_Cons [OF spells_char] spells_append [OF t] spells_char) simp_all
  then show ?thesis using t [OF s] by (simp add: sub_print_def sub_toks_def)
qed

lemma spells_list:
  assumes "\<And>x s. x \<in> set xs \<Longrightarrow> sep s \<Longrightarrow> spells cs (f x @ s) (g x) s" and "\<And>x. x \<in> set xs \<Longrightarrow> g x \<noteq> []" and "sep s"
  shows "spells cs (Join '', '' (map f xs) @ s) (comma_toks (map g xs)) s"
  using assms
proof (induction xs rule: induct_list012)
  case (3 x y ys)
  have ne: "comma_toks (map g (y # ys)) \<noteq> []" using 3(4) [of y] by (cases ys) simp_all
  have "spells cs (Join '', '' (map f (y # ys)) @ s) (comma_toks (map g (y # ys))) s"
    using 3 by (intro 3(2)) auto
  then have "spells cs (f x @ CHR '','' # CHR '' '' # Join '', '' (map f (y # ys)) @ s)
      (g x @ punct '','' # comma_toks (map g (y # ys))) s"
    using 3(3) [of x] ne
    by (intro spells_append [where s' = "CHR '','' # CHR '' '' # Join '', '' (map f (y # ys)) @ s"]
        spells_Cons [OF spells_char] spells_space) simp_all
  then show ?case by simp
qed simp_all

lemma spells_word: "w \<in> set reserved \<Longrightarrow> sep s \<Longrightarrow> spells cs (CHR '' '' # w @ s) [kw w] s"
  by (intro spells_space spells_kw) (simp_all add: sep_not_part)

definition infix_ops :: "string list" where
  "infix_ops = [''AND'', ''OR'', ''='', ''!='', ''<>'', ''<'', ''<='', ''>'', ''>='', ''+'', ''-'', ''*'', ''/'', ''%'']"

lemma infix_op: "BinaryPrecedence op \<noteq> PrecLowest \<Longrightarrow> op \<noteq> ''=='' \<Longrightarrow> op \<in> set infix_ops"
  by (rule ccontr) (simp add: BinaryPrecedence_def infix_ops_def)

definition char_op :: "string \<Rightarrow> bool" where
  "char_op op \<longleftrightarrow> (case op of [c] \<Rightarrow> c \<in> set ''=<>+-*/%'' | _ \<Rightarrow> False)"

definition pair_op :: "string \<Rightarrow> bool" where
  "pair_op op \<longleftrightarrow> (case op of [c, d] \<Rightarrow> op \<in> set operators | _ \<Rightarrow> False)"

lemma operator_cases:
  assumes "op \<in> set infix_ops"
  shows "op = ''AND'' \<or> op = ''OR'' \<or> op_tok op = punct op \<and> (char_op op \<or> pair_op op)"
proof -
  have "list_all (\<lambda>op. op = ''AND'' \<or> op = ''OR'' \<or> op_tok op = punct op \<and> (char_op op \<or> pair_op op)) infix_ops" by code_simp
  then show ?thesis using assms by (simp only: list_all_iff)
qed

lemma spells_op:
  assumes "op \<in> set infix_ops"
  shows "spells cs (CHR '' '' # op @ CHR '' '' # s) [op_tok op] (CHR '' '' # s)"
  using operator_cases [OF assms]
proof (elim disjE conjE)
  assume "op = ''AND''"
  then show ?thesis using spells_word [of op "CHR '' '' # s" cs] by (simp add: op_tok_def reserved_def)
next
  assume "op = ''OR''"
  then show ?thesis using spells_word [of op "CHR '' '' # s" cs] by (simp add: op_tok_def reserved_def)
next
  assume t: "op_tok op = punct op" and "char_op op"
  then obtain c where c: "op = [c]" "c \<in> set ''=<>+-*/%''" by (auto simp: char_op_def split: list.splits)
  have "spells cs (c # CHR '' '' # s) [punct [c]] (CHR '' '' # s)" by (rule spells_char) (use c(2) in auto)
  then show ?thesis using t c(1) by (auto intro: spells_space)
next
  assume t: "op_tok op = punct op" and "pair_op op"
  then obtain c d where c: "op = [c, d]" "[c, d] \<in> set operators" by (auto simp: pair_op_def split: list.splits)
  then show ?thesis using t spells_pair [of c d cs "CHR '' '' # s"] by (auto intro: spells_space)
qed

lemma spells_not:
  assumes "spells cs (CHR '' '' # s) us s'" and "us \<noteq> []"
  shows "spells cs (CHR '' '' # not_word n @ s) (not_toks n @ us) s'"
proof (cases n)
  case True
  have "spells cs (CHR '' '' # ''NOT'' @ CHR '' '' # s) (kw ''NOT'' # us) s'"
    by (intro spells_Cons [OF spells_word] assms) (simp_all add: reserved_def)
  then show ?thesis using True by (simp add: not_word_def not_toks_def)
qed (use assms in \<open>simp add: not_word_def not_toks_def\<close>)

lemma value_toks_ne [simp]: "value_toks v \<noteq> []"
  by (cases v) (simp_all add: signed_toks_def)

lemma expr_toks_ne [simp]: "expr_toks e \<noteq> []"
  by (cases e) (simp_all add: sub_toks_def)

lemma sub_toks_ne [simp]: "ts \<noteq> [] \<Longrightarrow> sub_toks e ts p \<noteq> []"
  by (simp add: sub_toks_def)

text \<open>What follows a minus sign does not begin with another.\<close>

lemma hd_ident: "n \<noteq> [] \<Longrightarrow> quoteIdent n \<noteq> [] \<and> hd (quoteIdent n) \<noteq> CHR ''-''"
  by (cases n) (auto simp: quoteIdent_def dquote_def lower_ascii_def is_digit_def)

lemma name_ok_ne: "name_ok n \<Longrightarrow> n \<noteq> []"
  by (simp add: name_ok_def)

lemma no_double_minus:
  assumes "expr_shape a" and "printable a" and "\<not> is_minus a" and "\<not> numeric_literal a"
  shows "sub_print a (Expr_String a) PrecUnary \<noteq> [] \<and> hd (sub_print a (Expr_String a) PrecUnary) \<noteq> CHR ''-''"
proof (cases "Precedence a < PrecUnary")
  case False
  then show ?thesis
  proof (cases a)
    case (ELiteral v)
    then show ?thesis using False assms(4) by (cases v) (simp_all add: sub_print_def Value_SQL_def IsNumeric_def)
  next
    case (EColumn t n)
    then show ?thesis using False assms(2) hd_ident [of t] hd_ident [of n] by (auto simp: sub_print_def name_ok_ne)
  next
    case (EFuncCall name arg star)
    then show ?thesis using False assms(1) by (auto simp: sub_print_def aggregates_def)
  qed (use False assms(1,3) in \<open>auto simp: PrecUnary_def PrecNot_def PrecCompare_def BinaryPrecedence_def
      PrecOr_def PrecAnd_def PrecAdd_def PrecMul_def PrecLowest_def sub_print_def split: if_splits\<close>)
qed (simp add: sub_print_def)

lemma spells_after_word:
  assumes "w \<in> set reserved" and "sep s" and "spells cs s us s'"
  shows "spells cs (CHR '' '' # w @ s) (kw w # us) s'"
  by (rule spells_Cons [OF spells_word [OF assms(1,2)] assms(3)])

lemma spells_expr:
  assumes "expr_shape e" and "printable e" and "sep s"
  shows "spells cs (Expr_String e @ s) (expr_toks e) s"
  using assms
proof (induction e arbitrary: s)
  case (ELiteral v)
  then show ?case by (simp add: spells_value)
next
  case (EColumn t n)
  then have n: "name_ok n" "t \<noteq> [] \<Longrightarrow> name_ok t" by auto
  have s: "s = [] \<or> \<not> is_ident_part (hd s) \<and> hd s \<noteq> CHR 0x22"
    using sep_not_part [OF EColumn.prems(3)] EColumn.prems(3) by (auto simp: sep_def)
  have "spells cs (quoteIdent t @ CHR ''.'' # quoteIdent n @ s) [name_tok t, punct ''.'', name_tok n] s" if "t \<noteq> []"
    using n(2) [OF that] n(1) s
    by (intro spells_Cons [OF spells_ident] spells_Cons [OF spells_char] spells_ident)
      (simp_all add: is_ident_part_def is_ident_start_def is_alpha_def is_digit_def char_code_def)
  then show ?case using spells_ident [OF n(1) s] by simp
next
  case (EUnary op a)
  have a: "spells cs (sub_print a (Expr_String a) p @ s) (sub_toks a (expr_toks a) p) s" for p
    by (rule spells_sub) (use EUnary in auto)
  show ?case
  proof (cases "op = ''NOT''")
    case True
    have "spells cs (''NOT'' @ CHR '' '' # sub_print a (Expr_String a) PrecNot @ s) (kw ''NOT'' # sub_toks a (expr_toks a) PrecNot) s"
      by (intro spells_Cons [OF spells_kw] spells_space a) (simp_all add: reserved_def is_ident_part_def is_ident_start_def is_alpha_def is_digit_def char_code_def)
    then show ?thesis using True by simp
  next
    case False
    then have op: "op = ''-''" "\<not> is_minus a" "\<not> numeric_literal a" "expr_shape a" "printable a"
      using EUnary.prems by auto
    have "spells cs (CHR ''-'' # sub_print a (Expr_String a) PrecUnary @ s) [punct ''-''] (sub_print a (Expr_String a) PrecUnary @ s)"
      using no_double_minus [OF op(4,5,2,3)] by (intro spells_minus) auto
    from spells_Cons [OF this a] show ?thesis by (simp add: op(1))
  qed
next
  case (EBinary op l r)
  let ?l = "sub_print l (Expr_String l) (BinaryPrecedence op)" and ?r = "sub_print r (Expr_String r) (BinaryPrecedence op + 1)"
  have l: "spells cs (?l @ s') (sub_toks l (expr_toks l) (BinaryPrecedence op)) s'" if "sep s'" for s'
    by (rule spells_sub) (use EBinary that in auto)
  have r: "spells cs (?r @ s) (sub_toks r (expr_toks r) (BinaryPrecedence op + 1)) s"
    by (rule spells_sub) (use EBinary in auto)
  have "op \<in> set infix_ops" using EBinary.prems by (intro infix_op) simp_all
  then have "spells cs (?l @ CHR '' '' # op @ CHR '' '' # ?r @ s) (sub_toks l (expr_toks l) (BinaryPrecedence op) @
      op_tok op # sub_toks r (expr_toks r) (BinaryPrecedence op + 1)) s"
    by (intro spells_append [OF l] spells_Cons [OF spells_op] spells_space r) simp_all
  then show ?case by simp
next
  case (EIsNull a n)
  have a: "spells cs (sub_print a (Expr_String a) PrecCompare @ s') (sub_toks a (expr_toks a) PrecCompare) s'" if "sep s'" for s'
    by (rule spells_sub) (use EIsNull that in auto)
  have "spells cs (sub_print a (Expr_String a) PrecCompare @ CHR '' '' # ''IS'' @ CHR '' '' # not_word n @ ''NULL'' @ s)
      (sub_toks a (expr_toks a) PrecCompare @ kw ''IS'' # not_toks n @ [kw ''NULL'']) s"
    using EIsNull.prems(3)
    by (intro spells_append [OF a] spells_after_word spells_not spells_word) (simp_all add: reserved_def)
  then show ?case by (cases n) (simp_all add: not_word_def)
next
  case (EBetween a lo hi n)
  have a: "spells cs (sub_print x (Expr_String x) p @ s') (sub_toks x (expr_toks x) p) s'"
    if "sep s'" "x \<in> {a, lo, hi}" for s' x p
    by (rule spells_sub) (use EBetween that in auto)
  have "spells cs (sub_print a (Expr_String a) PrecCompare @ CHR '' '' # not_word n @ ''BETWEEN'' @ CHR '' '' #
        sub_print lo (Expr_String lo) PrecAdd @ CHR '' '' # ''AND'' @ CHR '' '' # sub_print hi (Expr_String hi) PrecAdd @ s)
      (sub_toks a (expr_toks a) PrecCompare @ not_toks n @ kw ''BETWEEN'' #
       sub_toks lo (expr_toks lo) PrecAdd @ kw ''AND'' # sub_toks hi (expr_toks hi) PrecAdd) s"
    using EBetween.prems(3)
    by (intro spells_append [OF a] spells_not spells_after_word spells_space a) (simp_all add: reserved_def)
  then show ?case by simp
next
  case (EIn a items n)
  have a: "spells cs (sub_print a (Expr_String a) PrecCompare @ s') (sub_toks a (expr_toks a) PrecCompare) s'" if "sep s'" for s'
    by (rule spells_sub) (use EIn that in auto)
  have items: "spells cs (Join '', '' (map Expr_String items) @ CHR '')'' # s) (comma_toks (map expr_toks items)) (CHR '')'' # s)"
    by (rule spells_list) (use EIn in \<open>auto simp: list_all_iff\<close>)
  have "spells cs (sub_print a (Expr_String a) PrecCompare @ CHR '' '' # not_word n @ ''IN'' @ CHR '' '' # CHR ''('' #
        Join '', '' (map Expr_String items) @ CHR '')'' # s)
      (sub_toks a (expr_toks a) PrecCompare @ not_toks n @ kw ''IN'' # punct ''('' # comma_toks (map expr_toks items) @ [punct '')'']) s"
    by (intro spells_append [OF a] spells_not spells_after_word spells_space spells_Cons [OF spells_char]
        spells_append [OF items] spells_char) (simp_all add: reserved_def)
  then show ?case by simp
next
  case (ELike a p n)
  have a: "spells cs (sub_print x (Expr_String x) q @ s') (sub_toks x (expr_toks x) q) s'"
    if "sep s'" "x \<in> {a, p}" for s' x q
    by (rule spells_sub) (use ELike that in auto)
  have "spells cs (sub_print a (Expr_String a) PrecCompare @ CHR '' '' # not_word n @ ''LIKE'' @ CHR '' '' #
        sub_print p (Expr_String p) PrecCompare @ s)
      (sub_toks a (expr_toks a) PrecCompare @ not_toks n @ kw ''LIKE'' # sub_toks p (expr_toks p) PrecCompare) s"
    using ELike.prems(3)
    by (intro spells_append [OF a] spells_not spells_after_word spells_space a) (simp_all add: reserved_def)
  then show ?case by simp
next
  case (EFuncCall name arg star)
  then have name: "name \<in> set aggregates" by simp
  show ?case
  proof (cases arg)
    case None
    have "spells cs (name @ CHR ''('' # CHR ''*'' # CHR '')'' # s)
        [name_tok (map lower_char name), punct ''('', punct ''*'', punct '')''] s"
      by (intro spells_Cons [OF spells_call [OF name]] spells_Cons [OF spells_char] spells_char) simp_all
    then show ?thesis using None EFuncCall.prems by simp
  next
    case (Some a)
    have a: "spells cs (Expr_String a @ CHR '')'' # s) (expr_toks a) (CHR '')'' # s)"
      by (rule EFuncCall.IH) (use Some EFuncCall.prems in auto)
    have "spells cs (name @ CHR ''('' # Expr_String a @ CHR '')'' # s)
        (name_tok (map lower_char name) # punct ''('' # expr_toks a @ [punct '')'']) s"
      by (intro spells_Cons [OF spells_call [OF name]] spells_Cons [OF spells_char] spells_append [OF a] spells_char) simp_all
    then show ?thesis using Some EFuncCall.prems by simp
  qed
qed simp

end
