(* ===== verification/Reparse.thy ===== *)
theory Reparse
  imports Printing
begin

text \<open>
  Parsing what the printer wrote.  A parser state is read as the list of tokens it has ahead; a
  production is described by the tokens it consumes and the tree it returns for them, whatever fuel it
  needs.  The rules below are one per case of \<open>src/parser/parser.go\<close>; they compose to the
  statement that a printed expression parses to the tree that was printed.
\<close>

section \<open>The tokens ahead\<close>

abbreviation eof_tok :: tok where "eof_tok \<equiv> (TEOF, [])"

definition hd_tok :: "tok list \<Rightarrow> tok" where
  "hd_tok ts = (case ts of [] \<Rightarrow> eof_tok | t # _ \<Rightarrow> t)"

lemma hd_tok_simps [simp]: "hd_tok [] = eof_tok" "hd_tok (t # ts) = t"
  by (simp_all add: hd_tok_def)

definition ahead :: "casing \<Rightarrow> Parser \<Rightarrow> tok list \<Rightarrow> bool" where
  "ahead cs p ts \<longleftrightarrow> ps_err p = None \<and>
     (tk_Kind (ps_tok p), tk_Text (ps_tok p)) = hd_tok ts \<and>
     (tk_Kind (ps_next p), tk_Text (ps_next p)) = hd_tok (tl ts) \<and>
     (\<exists>l. scan_toks cs (ps_lex p) (drop 2 ts) l \<and> rest_of l = [])"

lemma ahead_tok:
  assumes "ahead cs p ts"
  shows "tk_Kind (ps_tok p) = fst (hd_tok ts)" and "tk_Text (ps_tok p) = snd (hd_tok ts)"
    and "tk_Kind (ps_next p) = fst (hd_tok (tl ts))" and "tk_Text (ps_next p) = snd (hd_tok (tl ts))" and "ps_err p = None"
  using assms unfolding ahead_def by (metis fst_conv snd_conv)+

lemma ahead_advance:
  assumes "ahead cs p ts"
  shows "ahead cs (Parser_advance cs p) (tl ts)"
proof -
  obtain l where l: "scan_toks cs (ps_lex p) (drop 2 ts) l" "rest_of l = []" using assms by (auto simp: ahead_def)
  note p = ahead_tok [OF assms]
  show ?thesis
  proof (cases "drop 2 ts")
    case Nil
    then have "Lexer_Next cs (ps_lex p) = (Inr (token_at TEOF [] (mark (ps_lex p))), ps_lex p)" "rest_of (ps_lex p) = []"
      using l by (simp_all add: Next_at_end)
    moreover have "tl (tl ts) = []" using Nil by (simp add: numeral_2_eq_2 drop_Suc)
    moreover have "drop 2 (tl ts) = []" using Nil by (simp add: drop_tl)
    ultimately show ?thesis using p by (simp add: ahead_def Parser_advance_def)
  next
    case (Cons t us)
    then obtain tok m where m: "Lexer_Next cs (ps_lex p) = (Inr tok, m)" "tk_Kind tok = fst t" "tk_Text tok = snd t"
      "scan_toks cs m us l"
      using l by auto
    have "tl (tl ts) = t # us" using Cons by (simp add: numeral_2_eq_2 drop_Suc)
    moreover have "drop 2 (tl ts) = us" using calculation by (simp add: numeral_2_eq_2 drop_Suc)
    ultimately show ?thesis using p m l(2) by (auto simp: ahead_def Parser_advance_def)
  qed
qed

lemma ahead_New:
  assumes "spells cs src ts []"
  shows "ahead cs (Parser_New cs src) ts"
proof -
  let ?none = "token_at TEOF [] zero_pos"
  let ?p = "\<lparr>ps_lex = Lexer_New src, ps_tok = ?none, ps_next = ?none, ps_err = None\<rparr>"
  have "rest_of (Lexer_New src) = src" by (simp add: Lexer_New_def rest_of_def)
  then have "ahead cs ?p (eof_tok # eof_tok # ts)" using assms by (simp add: ahead_def spells_def)
  from ahead_advance [OF ahead_advance [OF this]] show ?thesis by (simp add: Parser_New_def Let_def)
qed

definition is_sym :: "tok \<Rightarrow> string \<Rightarrow> bool" where
  "is_sym t s \<longleftrightarrow> (fst t = TKeyword \<or> fst t = TPunct) \<and> snd t = s"

lemma is_sym_simps [simp]:
  "is_sym (kw w) s \<longleftrightarrow> w = s" "is_sym (punct w) s \<longleftrightarrow> w = s" "\<not> is_sym (name_tok n) s" "\<not> is_sym eof_tok s"
  "\<not> is_sym (TInt, w) s" "\<not> is_sym (TFloat, w) s" "\<not> is_sym (TString, w) s"
  by (auto simp: is_sym_def)

lemma sees_ahead: "ahead cs p ts \<Longrightarrow> sees p s \<longleftrightarrow> is_sym (hd_tok ts) s"
  by (simp add: sees_def Token_Is_def ahead_tok is_sym_def)

section \<open>What a production consumes\<close>

definition consumes :: "casing \<Rightarrow> (Parser \<Rightarrow> 'a parsed) \<Rightarrow> tok list \<Rightarrow> 'a \<Rightarrow> tok list \<Rightarrow> bool" where
  "consumes cs f ts a us \<longleftrightarrow> (\<forall>p. ahead cs p ts \<longrightarrow> (\<exists>q. f p = ret a q \<and> ahead cs q us))"

lemma consumesD: "consumes cs f ts a us \<Longrightarrow> ahead cs p ts \<Longrightarrow> \<exists>q. f p = ret a q \<and> ahead cs q us"
  by (simp add: consumes_def)

lemma bind_ret [simp]: "pbind (ret a q) g = g a q"
  by (simp add: pbind_def ret_def)

lemma consumes_ret: "consumes cs (ret a) ts a ts"
  by (auto simp: consumes_def)

lemma consumes_bind:
  assumes "consumes cs f ts a us" and "consumes cs (g a) us b vs"
  shows "consumes cs (\<lambda>p. pbind (f p) g) ts b vs"
  using assms unfolding consumes_def by (metis bind_ret)

lemma consumes_expect: "is_sym t s \<Longrightarrow> consumes cs (expect cs s) (t # ts) () ts"
  unfolding consumes_def using ahead_advance by (fastforce simp: expect_def sees_ahead)

lemma consumes_ident: "consumes cs (ident cs what) (name_tok n # ts) n ts"
  unfolding consumes_def using ahead_advance by (fastforce simp: ident_def ahead_tok)

lemma consumes_accept:
  assumes "if is_sym (hd_tok ts) s then consumes cs (f True) (tl ts) a us else consumes cs (f False) ts a us"
  shows "consumes cs (\<lambda>p. case accept cs s p of (b, q) \<Rightarrow> f b q) ts a us"
  using assms ahead_advance unfolding consumes_def
  by (auto simp: accept_def sees_ahead split: if_splits)

lemma consumes_accept':
  assumes "if is_sym (hd_tok ts) s then consumes cs f (tl ts) a us else consumes cs g ts a us"
  shows "consumes cs (\<lambda>p. case accept cs s p of (True, q) \<Rightarrow> f q | (False, q) \<Rightarrow> g q) ts a us"
  using assms ahead_advance unfolding consumes_def
  by (auto simp: accept_def sees_ahead split: if_splits)

section \<open>More fuel changes nothing\<close>

definition below :: "'a option \<Rightarrow> 'a option \<Rightarrow> bool" where
  "below r r' \<longleftrightarrow> r = None \<or> r = r'"

lemma below_refl [simp, intro]: "below r r" and below_None [simp, intro]: "below None r"
  by (simp_all add: below_def)

lemma below_bind:
  assumes "below r r'" and "\<And>a q. below (f a q) (f' a q)"
  shows "below (pbind r f) (pbind r' f')"
proof (cases r rule: parsed_cases)
  case (Done a q)
  then show ?thesis using assms(1) assms(2) [of a q] by (auto simp: below_def pbind_def)
qed (use assms(1) in \<open>auto simp: below_def pbind_def\<close>)

lemma below_list:
  assumes "\<And>q. below (item q) (item' q)" and "n \<le> m"
  shows "below (comma_list cs n item p) (comma_list cs m item' p)"
  using assms(2)
proof (induction n arbitrary: m p)
  case (Suc n)
  then obtain k where m: "m = Suc k" "n \<le> k" by (cases m) auto
  have "below (pbind (comma_list cs n item q) (\<lambda>xs. ret (x # xs))) (pbind (comma_list cs k item' q) (\<lambda>xs. ret (x # xs)))" for q x
    by (intro below_bind Suc.IH m(2) below_refl)
  then show ?case unfolding m(1) comma_list.simps by (intro below_bind assms(1)) (simp split: prod.split bool.split)
qed simp

lemma below_predicate:
  assumes "\<And>mn q. below (ex mn q) (ex' mn q)" and "n \<le> m"
  shows "below (p_predicate cs n ex neg l p) (p_predicate cs m ex' neg l p)"
  unfolding p_predicate_def
  by (auto split: prod.split intro!: below_bind assms below_list)

lemma below_postfix:
  assumes "\<And>mn q. below (ex mn q) (ex' mn q)" and "n \<le> m"
  shows "below (p_postfix cs n ex l p) (p_postfix cs m ex' l p)"
  unfolding p_postfix_def Let_def by (auto intro!: below_predicate assms)

lemma below_primary:
  assumes "\<And>mn q. below (ex mn q) (ex' mn q)"
  shows "below (p_primary cs ex p) (p_primary cs ex' p)"
  unfolding p_primary_def p_funcCall_def Let_def
  by (auto split: TokenKind.split option.split intro!: below_bind assms)

lemma below_all:
  "(\<forall>m \<ge> n. \<forall>mn p. below (p_expr cs n mn p) (p_expr cs m mn p)) \<and>
   (\<forall>m \<ge> n. \<forall>mn l p. below (p_climb cs n mn l p) (p_climb cs m mn l p)) \<and>
   (\<forall>m \<ge> n. \<forall>p. below (p_unary cs n p) (p_unary cs m p))"
proof (induction n)
  case (Suc n)
  have step: "below (p_expr cs (Suc n) mn p) (p_expr cs (Suc k) mn p) \<and> below (p_climb cs (Suc n) mn l p) (p_climb cs (Suc k) mn l p) \<and>
      below (p_unary cs (Suc n) p) (p_unary cs (Suc k) p)" if k: "n \<le> k" for k mn l p
  proof (intro conjI)
    have ih: "below (p_expr cs n mn p) (p_expr cs k mn p)" "below (p_climb cs n mn l p) (p_climb cs k mn l p)"
      "below (p_unary cs n p) (p_unary cs k p)" for mn l p
      using Suc k by blast+
    show "below (p_expr cs (Suc n) mn p) (p_expr cs (Suc k) mn p)"
      unfolding p_expr.simps(2) by (intro below_bind ih)
    show "below (p_climb cs (Suc n) mn l p) (p_climb cs (Suc k) mn l p)"
      unfolding p_climb.simps(2) Let_def
    proof (rule below_bind)
      show "below (if mn \<le> PrecCompare then p_postfix cs n (\<lambda>m q. p_expr cs n m q) l p else ret None p)
          (if mn \<le> PrecCompare then p_postfix cs k (\<lambda>m q. p_expr cs k m q) l p else ret None p)"
        using k by (auto intro!: below_postfix ih)
    qed (auto split: option.split intro!: below_bind ih)
    show "below (p_unary cs (Suc n) p) (p_unary cs (Suc k) p)"
      unfolding p_unary.simps(2) by (auto intro!: below_bind below_primary ih)
  qed
  show ?case using step by (intro conjI allI impI; metis Suc_le_D Suc_le_mono)
qed simp

lemma below_le:
  assumes "n \<le> m"
  shows "below (p_expr cs n mn p) (p_expr cs m mn p)" and "below (p_climb cs n mn l p) (p_climb cs m mn l p)"
    and "below (p_unary cs n p) (p_unary cs m p)"
  using below_all assms by blast+

lemma below_ret: "below (ret a q) r \<Longrightarrow> r = ret a q"
  by (simp add: below_def ret_def)

section \<open>Rules for expressions\<close>

text \<open>\<open>p_expr\<close> from the precedence \<open>mn\<close>, its loop with the left operand \<open>l\<close>, \<open>p_unary\<close>, the postfix
  operators and the lists of IN, with as much fuel as they need.\<close>

definition parses :: "casing \<Rightarrow> int \<Rightarrow> tok list \<Rightarrow> Expr \<Rightarrow> tok list \<Rightarrow> bool" where
  "parses cs mn ts e us \<longleftrightarrow> (\<forall>p. ahead cs p ts \<longrightarrow> (\<exists>n q. p_expr cs n mn p = ret e q \<and> ahead cs q us))"

definition climbs :: "casing \<Rightarrow> int \<Rightarrow> Expr \<Rightarrow> tok list \<Rightarrow> Expr \<Rightarrow> tok list \<Rightarrow> bool" where
  "climbs cs mn l ts e us \<longleftrightarrow> (\<forall>p. ahead cs p ts \<longrightarrow> (\<exists>n q. p_climb cs n mn l p = ret e q \<and> ahead cs q us))"

definition operand :: "casing \<Rightarrow> tok list \<Rightarrow> Expr \<Rightarrow> tok list \<Rightarrow> bool" where
  "operand cs ts e us \<longleftrightarrow> (\<forall>p. ahead cs p ts \<longrightarrow> (\<exists>n q. p_unary cs n p = ret e q \<and> ahead cs q us))"

definition postfixed :: "casing \<Rightarrow> Expr \<Rightarrow> tok list \<Rightarrow> Expr \<Rightarrow> tok list \<Rightarrow> bool" where
  "postfixed cs l ts e us \<longleftrightarrow>
     (\<forall>p. ahead cs p ts \<longrightarrow> (\<exists>n q. p_postfix cs n (\<lambda>m r. p_expr cs n m r) l p = ret (Some e) q \<and> ahead cs q us))"

definition listed :: "casing \<Rightarrow> tok list \<Rightarrow> Expr list \<Rightarrow> tok list \<Rightarrow> bool" where
  "listed cs ts es us \<longleftrightarrow>
     (\<forall>p. ahead cs p ts \<longrightarrow> (\<exists>n q. comma_list cs n (\<lambda>r. p_expr cs n PrecLowest r) p = ret es q \<and> ahead cs q us))"

lemma more_fuel:
  assumes "n \<le> m"
  shows "p_expr cs n mn p = ret e q \<Longrightarrow> p_expr cs m mn p = ret e q"
    and "p_climb cs n mn l p = ret e q \<Longrightarrow> p_climb cs m mn l p = ret e q"
    and "p_unary cs n p = ret e q \<Longrightarrow> p_unary cs m p = ret e q"
    and "p_postfix cs n (\<lambda>k r. p_expr cs n k r) l p = ret h q \<Longrightarrow> p_postfix cs m (\<lambda>k r. p_expr cs m k r) l p = ret h q"
    and "comma_list cs n (\<lambda>r. p_expr cs n k r) p = ret es q \<Longrightarrow> comma_list cs m (\<lambda>r. p_expr cs m k r) p = ret es q"
  using below_le [OF assms] below_postfix [of "\<lambda>k r. p_expr cs n k r" "\<lambda>k r. p_expr cs m k r", OF _ assms]
    below_list [of "\<lambda>r. p_expr cs n k r" "\<lambda>r. p_expr cs m k r", OF _ assms]
  by (metis below_ret)+

lemma parsesE:
  assumes "parses cs mn ts e us" and "ahead cs p ts"
  obtains n q where "\<And>m. n \<le> m \<Longrightarrow> p_expr cs m mn p = ret e q" and "ahead cs q us"
  using assms more_fuel(1) unfolding parses_def by metis

lemma climbsE:
  assumes "climbs cs mn l ts e us" and "ahead cs p ts"
  obtains n q where "\<And>m. n \<le> m \<Longrightarrow> p_climb cs m mn l p = ret e q" and "ahead cs q us"
  using assms more_fuel(2) unfolding climbs_def by metis

lemma operandE:
  assumes "operand cs ts e us" and "ahead cs p ts"
  obtains n q where "\<And>m. n \<le> m \<Longrightarrow> p_unary cs m p = ret e q" and "ahead cs q us"
  using assms more_fuel(3) unfolding operand_def by metis

lemma postfixedE:
  assumes "postfixed cs l ts e us" and "ahead cs p ts"
  obtains n q where "\<And>m. n \<le> m \<Longrightarrow> p_postfix cs m (\<lambda>k r. p_expr cs m k r) l p = ret (Some e) q" and "ahead cs q us"
  using assms more_fuel(4) unfolding postfixed_def by metis

lemma listedE:
  assumes "listed cs ts es us" and "ahead cs p ts"
  obtains n q where "\<And>m. n \<le> m \<Longrightarrow> comma_list cs m (\<lambda>r. p_expr cs m PrecLowest r) p = ret es q" and "ahead cs q us"
  using assms more_fuel(5) unfolding listed_def by metis

text \<open>An expression is an operand and what the loop makes of it.\<close>

lemma parses_operand:
  assumes "operand cs ts l us" and "climbs cs mn l us e vs"
  shows "parses cs mn ts e vs"
  unfolding parses_def
proof (intro allI impI)
  fix p assume "ahead cs p ts"
  then obtain n q where n: "\<And>m. n \<le> m \<Longrightarrow> p_unary cs m p = ret l q" "ahead cs q us" using operandE [OF assms(1)] by metis
  then obtain k r where k: "\<And>m. k \<le> m \<Longrightarrow> p_climb cs m mn l q = ret e r" "ahead cs r vs" using climbsE [OF assms(2)] by metis
  have "p_expr cs (Suc (max n k)) mn p = ret e r" using n(1) [of "max n k"] k(1) [of "max n k"] by (simp only: p_expr.simps max.cobounded1 max.cobounded2 bind_ret)
  then show "\<exists>n q. p_expr cs n mn p = ret e q \<and> ahead cs q vs" using k(2) by blast
qed

text \<open>The precedence of a token as an infix operator, and the tokens that end an expression parsed from \<open>mn\<close>.\<close>

definition tok_prec :: "tok \<Rightarrow> int" where
  "tok_prec t = (if fst t \<noteq> TPunct \<and> fst t \<noteq> TKeyword then PrecLowest else BinaryPrecedence (snd t))"

definition postfix_start :: "tok \<Rightarrow> bool" where
  "postfix_start t \<longleftrightarrow> (\<exists>w \<in> {''NOT'', ''IS'', ''BETWEEN'', ''IN'', ''LIKE''}. is_sym t w)"

definition follows :: "int \<Rightarrow> tok list \<Rightarrow> bool" where
  "follows mn ts \<longleftrightarrow> \<not> is_sym (hd_tok ts) ''('' \<and> \<not> is_sym (hd_tok ts) ''.'' \<and>
     (tok_prec (hd_tok ts) = PrecLowest \<or> tok_prec (hd_tok ts) < mn) \<and>
     (mn \<le> PrecCompare \<longrightarrow> \<not> postfix_start (hd_tok ts))"

lemma follows_mono: "follows mn ts \<Longrightarrow> mn \<le> mn' \<Longrightarrow> follows mn' ts"
  by (auto simp: follows_def)

lemma no_postfix:
  assumes "ahead cs p ts" and "mn \<le> PrecCompare \<Longrightarrow> \<not> postfix_start (hd_tok ts)"
  shows "(if mn \<le> PrecCompare then p_postfix cs n ex l p else ret None p) = ret None p"
  using assms by (auto simp: p_postfix_def p_predicate_def sees_ahead postfix_start_def)

lemma infix_prec_ahead: "ahead cs p ts \<Longrightarrow> infix_prec p = tok_prec (hd_tok ts)"
  by (simp add: infix_prec_def tok_prec_def ahead_tok)

lemma climbs_stop:
  assumes "follows mn ts"
  shows "climbs cs mn l ts l ts"
  unfolding climbs_def
proof (intro allI impI)
  fix p assume p: "ahead cs p ts"
  have "p_climb cs (Suc n) mn l p = ret l p" for n
    using assms no_postfix [OF p] infix_prec_ahead [OF p] by (auto simp: follows_def Let_def)
  then show "\<exists>n q. p_climb cs n mn l p = ret l q \<and> ahead cs q ts" using p by blast
qed

lemma tok_prec_op: "op \<in> set infix_ops \<Longrightarrow> tok_prec (op_tok op) = BinaryPrecedence op \<and> snd (op_tok op) = op"
  by (simp add: tok_prec_def op_tok_def)

lemma infix_ops_plain:
  assumes "op \<in> set infix_ops"
  shows "BinaryPrecedence op \<noteq> PrecLowest" and "op \<noteq> ''==''" and "\<not> postfix_start (op_tok op)"
    and "\<not> is_sym (op_tok op) ''(''" and "\<not> is_sym (op_tok op) ''.''"
proof -
  have "list_all (\<lambda>op. BinaryPrecedence op \<noteq> PrecLowest \<and> op \<noteq> ''=='' \<and> \<not> postfix_start (op_tok op) \<and>
      \<not> is_sym (op_tok op) ''('' \<and> \<not> is_sym (op_tok op) ''.'') infix_ops"
    by code_simp
  then show "BinaryPrecedence op \<noteq> PrecLowest" "op \<noteq> ''==''" "\<not> postfix_start (op_tok op)"
    "\<not> is_sym (op_tok op) ''(''" "\<not> is_sym (op_tok op) ''.''"
    using assms by (auto simp: list_all_iff)
qed

lemma climbs_op:
  assumes op: "op \<in> set infix_ops" "mn \<le> BinaryPrecedence op"
    and r: "parses cs (BinaryPrecedence op + 1) ts r us" and e: "climbs cs mn (EBinary op l r) us e vs"
  shows "climbs cs mn l (op_tok op # ts) e vs"
  unfolding climbs_def
proof (intro allI impI)
  fix p assume p: "ahead cs p (op_tok op # ts)"
  have p1: "ahead cs (Parser_advance cs p) ts" using ahead_advance [OF p] by simp
  obtain n q where n: "\<And>m. n \<le> m \<Longrightarrow> p_expr cs m (BinaryPrecedence op + 1) (Parser_advance cs p) = ret r q" "ahead cs q us"
    by (rule parsesE [OF r p1]) blast
  obtain k q' where k: "\<And>m. k \<le> m \<Longrightarrow> p_climb cs m mn (EBinary op l r) q = ret e q'" "ahead cs q' vs"
    by (rule climbsE [OF e n(2)]) blast
  have t: "infix_prec p = BinaryPrecedence op" "tk_Text (ps_tok p) = op"
    using infix_prec_ahead [OF p] tok_prec_op [OF op(1)] ahead_tok [OF p] by simp_all
  have "(if mn \<le> PrecCompare then p_postfix cs j ex l p else ret None p) = ret None p" for j ex
    by (rule no_postfix [OF p]) (simp add: infix_ops_plain [OF op(1)])
  then have "p_climb cs (Suc (max n k)) mn l p = ret e q'"
    unfolding p_climb.simps
    using n(1) [of "max n k"] k(1) [of "max n k"] op(2) infix_ops_plain(1,2) [OF op(1)] by (simp add: t Let_def)
  then show "\<exists>n q. p_climb cs n mn l p = ret e q \<and> ahead cs q vs" using k(2) by blast
qed

lemma climbs_postfix:
  assumes mn: "mn \<le> PrecCompare" and l: "postfixed cs l ts e us" and e: "climbs cs mn e us e' vs"
  shows "climbs cs mn l ts e' vs"
  unfolding climbs_def
proof (intro allI impI)
  fix p assume p: "ahead cs p ts"
  obtain n q where n: "\<And>m. n \<le> m \<Longrightarrow> p_postfix cs m (\<lambda>k r. p_expr cs m k r) l p = ret (Some e) q" "ahead cs q us"
    by (rule postfixedE [OF l p]) blast
  obtain k q' where k: "\<And>m. k \<le> m \<Longrightarrow> p_climb cs m mn e q = ret e' q'" "ahead cs q' vs"
    by (rule climbsE [OF e n(2)]) blast
  have "p_climb cs (Suc (max n k)) mn l p = ret e' q'"
    unfolding p_climb.simps using n(1) [of "max n k"] k(1) [of "max n k"] mn by simp
  then show "\<exists>n q. p_climb cs n mn l p = ret e' q \<and> ahead cs q vs" using k(2) by blast
qed

text \<open>The postfix operators, behind an optional NOT.\<close>

lemma postfixed_not:
  assumes "t = kw ''BETWEEN'' \<or> t = kw ''IN'' \<or> t = kw ''LIKE''"
    and "\<And>p. ahead cs p (t # ts) \<Longrightarrow> \<exists>n q. p_predicate cs n (\<lambda>m r. p_expr cs n m r) neg l p = ret (Some e) q \<and> ahead cs q us"
  shows "postfixed cs l (not_toks neg @ t # ts) e us"
  unfolding postfixed_def
proof (intro allI impI)
  fix p assume p: "ahead cs p (not_toks neg @ t # ts)"
  show "\<exists>n q. p_postfix cs n (\<lambda>m r. p_expr cs n m r) l p = ret (Some e) q \<and> ahead cs q us"
  proof (cases neg)
    case True
    then have p: "ahead cs p (kw ''NOT'' # t # ts)" using p by (simp add: not_toks_def)
    then have "ahead cs (Parser_advance cs p) (t # ts)" using ahead_advance by fastforce
    from assms(2) [OF this] show ?thesis
      using True assms(1) by (auto simp: p_postfix_def sees_ahead [OF p] ahead_tok [OF p] Let_def)
  next
    case False
    then have p: "ahead cs p (t # ts)" using p by (simp add: not_toks_def)
    from assms(2) [OF this] show ?thesis using False assms(1) by (auto simp: p_postfix_def sees_ahead [OF p])
  qed
qed

lemma postfixed_null: "postfixed cs l (kw ''IS'' # not_toks neg @ kw ''NULL'' # us) (EIsNull l neg) us"
  unfolding postfixed_def
proof (intro allI impI)
  fix p assume p: "ahead cs p (kw ''IS'' # not_toks neg @ kw ''NULL'' # us)"
  have "consumes cs (\<lambda>q. case accept cs ''NOT'' q of (n, p1) \<Rightarrow> pbind (expect cs ''NULL'' p1) (\<lambda>_. ret (Some (EIsNull l n))))
      (not_toks neg @ kw ''NULL'' # us) (Some (EIsNull l neg)) us"
    by (rule consumes_accept) (auto simp: not_toks_def intro!: consumes_bind [OF consumes_expect] consumes_ret)
  from consumesD [OF this] show "\<exists>n q. p_postfix cs n (\<lambda>m r. p_expr cs n m r) l p = ret (Some (EIsNull l neg)) q \<and> ahead cs q us"
    using ahead_advance [OF p] by (simp add: p_postfix_def p_predicate_def sees_ahead [OF p])
qed

lemma postfixed_between:
  assumes lo: "parses cs PrecAdd ts lo (kw ''AND'' # us)" and hi: "parses cs PrecAdd us hi vs"
  shows "postfixed cs l (not_toks neg @ kw ''BETWEEN'' # ts) (EBetween l lo hi neg) vs"
proof (rule postfixed_not)
  fix p assume p: "ahead cs p (kw ''BETWEEN'' # ts)"
  then have "ahead cs (Parser_advance cs p) ts" using ahead_advance by fastforce
  then obtain n q where n: "\<And>m. n \<le> m \<Longrightarrow> p_expr cs m PrecAdd (Parser_advance cs p) = ret lo q" "ahead cs q (kw ''AND'' # us)"
    by (rule parsesE [OF lo]) blast
  then have q: "expect cs ''AND'' q = ret () (Parser_advance cs q)" "ahead cs (Parser_advance cs q) us"
    using ahead_advance [OF n(2)] by (simp_all add: expect_def sees_ahead [OF n(2)])
  obtain k r where k: "\<And>m. k \<le> m \<Longrightarrow> p_expr cs m PrecAdd (Parser_advance cs q) = ret hi r" "ahead cs r vs"
    by (rule parsesE [OF hi q(2)]) blast
  have "p_predicate cs (max n k) (\<lambda>m r. p_expr cs (max n k) m r) neg l p = ret (Some (EBetween l lo hi neg)) r"
    using n(1) [of "max n k"] k(1) [of "max n k"] q(1) by (simp add: p_predicate_def sees_ahead [OF p])
  then show "\<exists>n q. p_predicate cs n (\<lambda>m r. p_expr cs n m r) neg l p = ret (Some (EBetween l lo hi neg)) q \<and> ahead cs q vs"
    using k(2) by blast
qed simp

lemma postfixed_in:
  assumes items: "listed cs ts items (punct '')'' # us)" and first: "\<not> is_sym (hd_tok ts) ''SELECT''"
  shows "postfixed cs l (not_toks neg @ kw ''IN'' # punct ''('' # ts) (EIn l items neg) us"
proof (rule postfixed_not)
  fix p assume p: "ahead cs p (kw ''IN'' # punct ''('' # ts)"
  then have p1: "ahead cs (Parser_advance cs p) (punct ''('' # ts)" using ahead_advance by fastforce
  have p2: "ahead cs (Parser_advance cs (Parser_advance cs p)) ts" using ahead_advance [OF p1] by simp
  obtain n q where n: "\<And>m. n \<le> m \<Longrightarrow> comma_list cs m (\<lambda>r. p_expr cs m PrecLowest r) (Parser_advance cs (Parser_advance cs p)) = ret items q"
    "ahead cs q (punct '')'' # us)"
    by (rule listedE [OF items p2]) blast
  have "p_predicate cs n (\<lambda>m r. p_expr cs n m r) neg l p = ret (Some (EIn l items neg)) (Parser_advance cs q)"
    using n(1) [of n] first
    by (simp add: p_predicate_def sees_ahead [OF p] sees_ahead [OF p1] sees_ahead [OF p2] sees_ahead [OF n(2)] expect_def)
  then show "\<exists>n q. p_predicate cs n (\<lambda>m r. p_expr cs n m r) neg l p = ret (Some (EIn l items neg)) q \<and> ahead cs q us"
    using ahead_advance [OF n(2)] by auto
qed simp

lemma postfixed_like:
  assumes pat: "parses cs (PrecCompare + 1) ts e us"
  shows "postfixed cs l (not_toks neg @ kw ''LIKE'' # ts) (ELike l e neg) us"
proof (rule postfixed_not)
  fix p assume p: "ahead cs p (kw ''LIKE'' # ts)"
  then have "ahead cs (Parser_advance cs p) ts" using ahead_advance by fastforce
  then obtain n q where n: "\<And>m. n \<le> m \<Longrightarrow> p_expr cs m (PrecCompare + 1) (Parser_advance cs p) = ret e q" "ahead cs q us"
    by (rule parsesE [OF pat]) blast
  have "p_predicate cs n (\<lambda>m r. p_expr cs n m r) neg l p = ret (Some (ELike l e neg)) q"
    using n(1) [of n] by (simp add: p_predicate_def sees_ahead [OF p])
  then show "\<exists>n q. p_predicate cs n (\<lambda>m r. p_expr cs n m r) neg l p = ret (Some (ELike l e neg)) q \<and> ahead cs q us"
    using n(2) by blast
qed simp

lemma listed_one:
  assumes "parses cs PrecLowest ts e us" and "\<not> is_sym (hd_tok us) '',''"
  shows "listed cs ts [e] us"
  unfolding listed_def
proof (intro allI impI)
  fix p assume p: "ahead cs p ts"
  obtain n q where n: "\<And>m. n \<le> m \<Longrightarrow> p_expr cs m PrecLowest p = ret e q" "ahead cs q us" by (rule parsesE [OF assms(1) p]) blast
  have "comma_list cs (Suc n) (\<lambda>r. p_expr cs (Suc n) PrecLowest r) p = ret [e] q"
    using n(1) [of "Suc n"] assms(2) by (simp del: p_expr.simps add: accept_def sees_ahead [OF n(2)])
  then show "\<exists>n q. comma_list cs n (\<lambda>r. p_expr cs n PrecLowest r) p = ret [e] q \<and> ahead cs q us" using n(2) by blast
qed

lemma listed_Cons:
  assumes e: "parses cs PrecLowest ts e (punct '','' # us)" and es: "listed cs us es vs"
  shows "listed cs ts (e # es) vs"
  unfolding listed_def
proof (intro allI impI)
  fix p assume p: "ahead cs p ts"
  obtain n q where n: "\<And>m. n \<le> m \<Longrightarrow> p_expr cs m PrecLowest p = ret e q" "ahead cs q (punct '','' # us)" by (rule parsesE [OF e p]) blast
  then have q: "ahead cs (Parser_advance cs q) us" using ahead_advance by fastforce
  obtain k r where k: "\<And>m. k \<le> m \<Longrightarrow> comma_list cs m (\<lambda>r. p_expr cs m PrecLowest r) (Parser_advance cs q) = ret es r" "ahead cs r vs"
    by (rule listedE [OF es q]) blast
  let ?m = "max n k"
  have "below (comma_list cs ?m (\<lambda>r. p_expr cs ?m PrecLowest r) (Parser_advance cs q))
      (comma_list cs ?m (\<lambda>r. p_expr cs (Suc ?m) PrecLowest r) (Parser_advance cs q))"
    by (intro below_list below_le le_SucI order_refl)
  then have "comma_list cs ?m (\<lambda>r. p_expr cs (Suc ?m) PrecLowest r) (Parser_advance cs q) = ret es r"
    using k(1) [of ?m] by (simp add: below_ret)
  then have "comma_list cs (Suc ?m) (\<lambda>r. p_expr cs (Suc ?m) PrecLowest r) p = ret (e # es) r"
    using n(1) [of "Suc ?m"] by (simp del: p_expr.simps add: accept_def sees_ahead [OF n(2)])
  then show "\<exists>n q. comma_list cs n (\<lambda>r. p_expr cs n PrecLowest r) p = ret (e # es) q \<and> ahead cs q vs" using k(2) by blast
qed

text \<open>Operands.\<close>

lemma operand_not:
  assumes "parses cs (PrecNot + 1) ts e us"
  shows "operand cs (kw ''NOT'' # ts) (EUnary ''NOT'' e) us"
  unfolding operand_def
proof (intro allI impI)
  fix p assume p: "ahead cs p (kw ''NOT'' # ts)"
  then have "ahead cs (Parser_advance cs p) ts" using ahead_advance by fastforce
  then obtain n q where n: "\<And>m. n \<le> m \<Longrightarrow> p_expr cs m (PrecNot + 1) (Parser_advance cs p) = ret e q" "ahead cs q us"
    by (rule parsesE [OF assms]) blast
  have "p_unary cs (Suc n) p = ret (EUnary ''NOT'' e) q" using n(1) [of n] by (simp add: sees_ahead [OF p])
  then show "\<exists>n q. p_unary cs n p = ret (EUnary ''NOT'' e) q \<and> ahead cs q us" using n(2) by blast
qed

lemma operand_sign:
  assumes e: "operand cs ts e us" and f: "\<And>q. folded_sign ''-'' e q = ret e' q"
  shows "operand cs (punct ''-'' # ts) e' us"
  unfolding operand_def
proof (intro allI impI)
  fix p assume p: "ahead cs p (punct ''-'' # ts)"
  then have "ahead cs (Parser_advance cs p) ts" using ahead_advance by fastforce
  then obtain n q where n: "\<And>m. n \<le> m \<Longrightarrow> p_unary cs m (Parser_advance cs p) = ret e q" "ahead cs q us"
    by (rule operandE [OF e]) blast
  have "p_unary cs (Suc n) p = ret e' q" using n(1) [of n] f by (simp add: sees_ahead [OF p] ahead_tok [OF p])
  then show "\<exists>n q. p_unary cs n p = ret e' q \<and> ahead cs q us" using n(2) by blast
qed

lemma operand_primary:
  assumes "\<not> is_sym (hd_tok ts) ''NOT''" "\<not> is_sym (hd_tok ts) ''-''" "\<not> is_sym (hd_tok ts) ''+''"
    and "\<And>p. ahead cs p ts \<Longrightarrow> \<exists>n q. p_primary cs (\<lambda>m r. p_expr cs n m r) p = ret e q \<and> ahead cs q us"
  shows "operand cs ts e us"
  unfolding operand_def
proof (intro allI impI)
  fix p assume p: "ahead cs p ts"
  from assms(4) [OF p] obtain n q where q: "p_primary cs (\<lambda>m r. p_expr cs n m r) p = ret e q" "ahead cs q us" by blast
  then have "p_unary cs (Suc n) p = ret e q" using assms(1-3) by (simp add: sees_ahead [OF p])
  then show "\<exists>n q. p_unary cs n p = ret e q \<and> ahead cs q us" using q(2) by blast
qed

lemma next_ahead: "ahead cs p ts \<Longrightarrow> Token_Is (ps_next p) s \<longleftrightarrow> is_sym (hd_tok (tl ts)) s"
  by (simp add: Token_Is_def ahead_tok is_sym_def)

text \<open>Literals: a minus sign is folded into the number behind it.\<close>

lemma operand_token:
  assumes "fst t = TKeyword \<and> snd t \<in> {''NULL'', ''TRUE'', ''FALSE''} \<or> fst t \<in> {TInt, TFloat, TString}"
    and "\<And>p ex. tk_Kind (ps_tok p) = fst t \<Longrightarrow> tk_Text (ps_tok p) = snd t \<Longrightarrow> p_primary cs ex p = ret (ELiteral v) (Parser_advance cs p)"
  shows "operand cs (t # us) (ELiteral v) us"
proof (rule operand_primary)
  fix p assume p: "ahead cs p (t # us)"
  show "\<exists>n q. p_primary cs (\<lambda>m r. p_expr cs n m r) p = ret (ELiteral v) q \<and> ahead cs q us"
    using assms(2) [of p] ahead_tok [OF p] ahead_advance [OF p] by auto
qed (use assms(1) in \<open>auto simp: is_sym_def\<close>)

lemma operand_int: "n < 2 ^ 63 \<Longrightarrow> operand cs ((TInt, nat_dec n) # us) (ELiteral (VInt (of_nat n))) us"
  by (rule operand_token) (simp_all add: p_primary_def ParseInt_def dec_nat_acc_nat_dec Let_def)

lemma operand_float:
  assumes "finite_float f" and "\<not> f_sign f"
  shows "operand cs ((TFloat, formatFloat f) # us) (ELiteral (VFloat f)) us"
proof -
  have "ParseFloat (formatFloat f) = Some f" using printed_float [OF assms] by (auto simp: float_text_def)
  then show ?thesis by (intro operand_token) (simp_all add: p_primary_def Let_def)
qed

lemma fold_int: "folded_sign ''-'' (ELiteral (VInt i)) q = ret (ELiteral (VInt (- i))) q"
  by (simp add: folded_sign_def IsNumeric_def Neg_def)

lemma fold_float: "folded_sign ''-'' (ELiteral (VFloat f)) q = ret (ELiteral (VFloat (f_neg f))) q"
  by (simp add: folded_sign_def IsNumeric_def Neg_def)

lemma fold_other: "\<not> numeric_literal e \<Longrightarrow> folded_sign ''-'' e q = ret (EUnary ''-'' e) q"
  by (cases e) (auto simp: folded_sign_def)

lemma of_nat_sint: "of_nat (nat \<bar>sint i\<bar>) = (if sint (i :: int64) < 0 then - i else i)"
proof (cases "sint i < 0")
  case True
  then have "of_nat (nat \<bar>sint i\<bar>) = (of_int (- sint i) :: int64)" by (simp only: of_nat_nat abs_of_neg)
  then show ?thesis using True by (simp only: of_int_minus of_int_sint scast_id if_True)
next
  case False
  then have "of_nat (nat \<bar>sint i\<bar>) = (of_int (sint i) :: int64)" by (simp only: of_nat_nat abs_of_nonneg not_less)
  then show ?thesis using False by (simp only: of_int_sint scast_id if_False)
qed

lemma operand_value:
  assumes v: "value_ok v" "literal_ok v"
  shows "operand cs (value_toks v @ us) (ELiteral v) us"
proof (cases v)
  case (VInt i)
  have "- (2 ^ 63) \<le> sint i" "sint i < 2 ^ 63" using sint_ge [of i] sint_lt [of i] by simp_all
  then have n: "nat \<bar>sint i\<bar> < 2 ^ 63" using v(2) VInt by (auto simp: literal_ok_def nat_less_iff)
  note lit = operand_int [OF n, of cs us, unfolded of_nat_sint]
  show ?thesis
    using VInt lit operand_sign [OF lit fold_int] by (cases "sint i < 0") (simp_all add: signed_toks_def)
next
  case (VFloat f)
  then have f: "finite_float (f_abs f)" "\<not> f_sign (f_abs f)" using v(1) by (simp_all add: value_ok_def)
  note lit = operand_float [OF f, of cs us]
  have "f_abs f = f" if "\<not> f_sign f" using that f_make_self [of f] by (simp add: f_abs_def)
  then show ?thesis
    using VFloat lit operand_sign [OF lit fold_float] f_neg_abs [of f] by (cases "f_sign f") (simp_all add: signed_toks_def)
qed (auto intro!: operand_token simp: p_primary_def Let_def)

lemma operand_column:
  assumes "follows mn us"
  shows "operand cs (expr_toks (EColumn t n) @ us) (EColumn t n) us"
proof (rule operand_primary)
  fix p assume p: "ahead cs p (expr_toks (EColumn t n) @ us)"
  show "\<exists>k q. p_primary cs (\<lambda>m r. p_expr cs k m r) p = ret (EColumn t n) q \<and> ahead cs q us"
  proof (cases "t = []")
    case True
    then have p: "ahead cs p (name_tok n # us)" using p by simp
    have q: "ahead cs (Parser_advance cs p) us" using ahead_advance [OF p] by simp
    then show ?thesis
      using assms True
      by (auto simp: p_primary_def ahead_tok [OF p] next_ahead [OF p] sees_ahead [OF q] follows_def Let_def)
  next
    case False
    then have p: "ahead cs p (name_tok t # punct ''.'' # name_tok n # us)" using p by simp
    have q: "ahead cs (Parser_advance cs p) (punct ''.'' # name_tok n # us)" using ahead_advance [OF p] by simp
    have q2: "ahead cs (Parser_advance cs (Parser_advance cs p)) (name_tok n # us)" using ahead_advance [OF q] by simp
    show ?thesis
      using ahead_advance [OF q2]
      by (auto simp: p_primary_def ident_def ahead_tok [OF p] ahead_tok [OF q2] next_ahead [OF p] sees_ahead [OF q] Let_def)
  qed
qed auto

lemma operand_parens:
  assumes "parses cs PrecLowest ts e (punct '')'' # us)"
  shows "operand cs (punct ''('' # ts) e us"
proof (rule operand_primary)
  fix p assume p: "ahead cs p (punct ''('' # ts)"
  then have "ahead cs (Parser_advance cs p) ts" using ahead_advance by fastforce
  then obtain n q where n: "\<And>m. n \<le> m \<Longrightarrow> p_expr cs m PrecLowest (Parser_advance cs p) = ret e q" "ahead cs q (punct '')'' # us)"
    by (rule parsesE [OF assms]) blast
  have "p_primary cs (\<lambda>m r. p_expr cs n m r) p = ret e (Parser_advance cs q)"
    using n(1) [of n] by (simp add: p_primary_def ahead_tok [OF p] expect_def sees_ahead [OF n(2)] Let_def)
  then show "\<exists>n q. p_primary cs (\<lambda>m r. p_expr cs n m r) p = ret e q \<and> ahead cs q us"
    using ahead_advance [OF n(2)] by auto
qed simp_all

lemma upper_lower_aggregate:
  assumes "name \<in> set aggregates"
  shows "ToUpper cs (map lower_char name) = name"
proof -
  have "list_all (\<lambda>name. is_ascii (map lower_char name) \<and> map upper_char (map lower_char name) = name) aggregates" by code_simp
  then have "is_ascii (map lower_char name)" "map upper_char (map lower_char name) = name"
    using assms by (simp_all only: list_all_iff)
  then show ?thesis by (simp only: ToUpper_def if_True)
qed

text \<open>What stands between the parentheses of a call.\<close>

definition call_argument :: "casing \<Rightarrow> string \<Rightarrow> tok list \<Rightarrow> Expr \<Rightarrow> tok list \<Rightarrow> bool" where
  "call_argument cs name ts e us \<longleftrightarrow>
     ts = punct ''*'' # us \<and> name = ''COUNT'' \<and> e = EFuncCall name None True \<or>
     (\<exists>a. parses cs PrecLowest ts a us \<and> \<not> HasAggregate a \<and> \<not> is_sym (hd_tok ts) ''*'' \<and> e = EFuncCall name (Some a) False)"

lemma operand_call:
  assumes name: "name \<in> set aggregates" and arg: "call_argument cs name ts e (punct '')'' # us)"
  shows "operand cs (name_tok (map lower_char name) # punct ''('' # ts) e us"
proof (rule operand_primary)
  fix p assume p: "ahead cs p (name_tok (map lower_char name) # punct ''('' # ts)"
  have p1: "ahead cs (Parser_advance cs p) (punct ''('' # ts)" using ahead_advance [OF p] by simp
  have p2: "ahead cs (Parser_advance cs (Parser_advance cs p)) ts" using ahead_advance [OF p1] by simp
  let ?p2 = "Parser_advance cs (Parser_advance cs p)"
  have call: "p_primary cs ex p = p_funcCall cs ex p" for ex
    by (simp add: p_primary_def ahead_tok [OF p] next_ahead [OF p] Let_def)
  from arg consider (star) "ts = punct ''*'' # punct '')'' # us" "name = ''COUNT''" "e = EFuncCall name None True"
    | (expr) a where "parses cs PrecLowest ts a (punct '')'' # us)" "\<not> HasAggregate a" "\<not> is_sym (hd_tok ts) ''*''" "e = EFuncCall name (Some a) False"
    by (auto simp: call_argument_def)
  then show "\<exists>n q. p_primary cs (\<lambda>m r. p_expr cs n m r) p = ret e q \<and> ahead cs q us"
  proof cases
    case star
    then have p2: "ahead cs ?p2 (punct ''*'' # punct '')'' # us)" using p2 by simp
    have p3: "ahead cs (Parser_advance cs ?p2) (punct '')'' # us)" using ahead_advance [OF p2] by simp
    have "p_primary cs ex p = ret e (Parser_advance cs (Parser_advance cs ?p2))" for ex
      using name upper_lower_aggregate [OF name] star(2,3)
      by (simp add: call p_funcCall_def ahead_tok [OF p] expect_def sees_ahead [OF p1] sees_ahead [OF p2] sees_ahead [OF p3] Let_def)
    then show ?thesis using ahead_advance [OF p3] by auto
  next
    case expr
    obtain n q where n: "\<And>m. n \<le> m \<Longrightarrow> p_expr cs m PrecLowest ?p2 = ret a q" "ahead cs q (punct '')'' # us)"
      by (rule parsesE [OF expr(1) p2]) blast
    have "p_primary cs (\<lambda>m r. p_expr cs n m r) p = ret e (Parser_advance cs q)"
      using name upper_lower_aggregate [OF name] expr(2-4) n(1) [of n]
      by (simp add: call p_funcCall_def ahead_tok [OF p] expect_def sees_ahead [OF p1] sees_ahead [OF p2] sees_ahead [OF n(2)] Let_def)
    then show ?thesis using ahead_advance [OF n(2)] by auto
  qed
qed simp_all

section \<open>Expressions parse back\<close>

lemmas prec_defs = PrecLowest_def PrecOr_def PrecAnd_def PrecNot_def PrecCompare_def PrecAdd_def PrecMul_def
  PrecUnary_def PrecAtom_def

fun is_operand :: "Expr \<Rightarrow> bool" where
  "is_operand (EBinary _ _ _) = False"
| "is_operand (EIsNull _ _) = False"
| "is_operand (EBetween _ _ _ _) = False"
| "is_operand (EIn _ _ _) = False"
| "is_operand (ELike _ _ _) = False"
| "is_operand _ = True"

lemma BinaryPrecedence_range:
  "PrecLowest \<le> BinaryPrecedence op \<and> BinaryPrecedence op \<noteq> PrecNot \<and> BinaryPrecedence op < PrecUnary"
  by (simp add: BinaryPrecedence_def prec_defs)

lemma Precedence_lowest: "PrecLowest \<le> Precedence e"
proof (cases e)
  case (EBinary op l r)
  then show ?thesis using BinaryPrecedence_range [of op] by simp
qed (simp_all add: prec_defs)

lemma precedence_operand: "Precedence e = PrecNot \<or> PrecUnary \<le> Precedence e \<Longrightarrow> is_operand e"
proof (cases e)
  case (EBinary op l r)
  then show "Precedence e = PrecNot \<or> PrecUnary \<le> Precedence e \<Longrightarrow> ?thesis" using BinaryPrecedence_range [of op] by simp
qed (simp_all add: prec_defs)

lemma follows_close: "follows mn (punct '')'' # us)" and follows_comma: "follows mn (punct '','' # us)" and follows_end: "follows mn []"
  by (simp_all add: follows_def tok_prec_def postfix_start_def BinaryPrecedence_def)

lemma follows_kw: "BinaryPrecedence w < mn \<Longrightarrow> PrecCompare < mn \<Longrightarrow> w \<noteq> ''('' \<Longrightarrow> w \<noteq> ''.'' \<Longrightarrow> follows mn (kw w # ts)"
  by (simp add: follows_def tok_prec_def)

lemma postfix_words:
  "BinaryPrecedence ''IS'' = PrecLowest" "BinaryPrecedence ''NOT'' = PrecLowest" "BinaryPrecedence ''BETWEEN'' = PrecLowest"
  "BinaryPrecedence ''IN'' = PrecLowest" "BinaryPrecedence ''LIKE'' = PrecLowest"
  by (simp_all add: BinaryPrecedence_def)

lemma follows_word:
  assumes "w \<in> {''IS'', ''NOT'', ''BETWEEN'', ''IN'', ''LIKE''}" and "PrecCompare < mn"
  shows "follows mn (kw w # ts)"
proof (rule follows_kw)
  have "BinaryPrecedence w = PrecLowest" using assms(1) postfix_words by blast
  then show "BinaryPrecedence w < mn" using assms(2) by (simp add: prec_defs)
qed (use assms in auto)

lemma follows_and: "PrecCompare < mn \<Longrightarrow> follows mn (kw ''AND'' # ts)"
  by (rule follows_kw) (simp_all add: BinaryPrecedence_def prec_defs)

lemma follows_op: "op \<in> set infix_ops \<Longrightarrow> BinaryPrecedence op < mn \<Longrightarrow> follows mn (op_tok op # ts)"
  using infix_ops_plain [of op] tok_prec_op [of op] by (simp add: follows_def)

definition reads_back :: "casing \<Rightarrow> Expr \<Rightarrow> bool" where
  "reads_back cs e \<longleftrightarrow>
     (is_operand e \<longrightarrow> (\<forall>us. follows (Precedence e + 1) us \<longrightarrow> operand cs (expr_toks e @ us) e us)) \<and>
     (\<forall>mn us e' vs. mn \<le> Precedence e \<longrightarrow> follows (Precedence e + 1) us \<longrightarrow> climbs cs mn e us e' vs \<longrightarrow>
        parses cs mn (expr_toks e @ us) e' vs)"

lemma reads_back_operand:
  assumes "\<And>us. follows (Precedence e + 1) us \<Longrightarrow> operand cs (expr_toks e @ us) e us"
  shows "reads_back cs e"
  unfolding reads_back_def by (intro conjI allI impI assms parses_operand [OF assms])

lemma reads_back_loop:
  assumes "\<not> is_operand e"
    and "\<And>mn us e' vs. mn \<le> Precedence e \<Longrightarrow> follows (Precedence e + 1) us \<Longrightarrow> climbs cs mn e us e' vs \<Longrightarrow>
      parses cs mn (expr_toks e @ us) e' vs"
  shows "reads_back cs e"
  using assms by (simp add: reads_back_def)

lemma parses_whole: "reads_back cs e \<Longrightarrow> mn \<le> Precedence e \<Longrightarrow> follows mn us \<Longrightarrow> parses cs mn (expr_toks e @ us) e us"
  using climbs_stop [of mn us cs e] follows_mono [of mn us "Precedence e + 1"] by (simp add: reads_back_def)

lemma operand_whole: "reads_back cs e \<Longrightarrow> operand cs (punct ''('' # expr_toks e @ punct '')'' # us) e us"
  by (intro operand_parens parses_whole Precedence_lowest follows_close)

lemma sub_operand:
  assumes e: "reads_back cs e" and us: "follows (p + 1) us" and p: "is_operand e \<or> Precedence e < p"
  shows "operand cs (sub_toks e (expr_toks e) p @ us) e us"
proof (cases "Precedence e < p")
  case True
  then show ?thesis using operand_whole [OF e] by (simp add: sub_toks_def)
next
  case False
  then show ?thesis using e p follows_mono [OF us, of "Precedence e + 1"] by (simp add: sub_toks_def reads_back_def)
qed

text \<open>A child printed for the context \<open>p\<close> is read where an operator of precedence \<open>mn\<close> may follow.\<close>

lemma sub_loop:
  assumes e: "reads_back cs e" and us: "follows (p + 1) us" and c: "climbs cs mn e us e' vs"
    and mn: "mn \<le> p \<or> is_operand e \<or> mn \<le> Precedence e"
  shows "parses cs mn (sub_toks e (expr_toks e) p @ us) e' vs"
proof (cases "is_operand e \<or> Precedence e < p")
  case True
  then show ?thesis using sub_operand [OF e us] c by (intro parses_operand)
next
  case False
  then show ?thesis using e c mn follows_mono [OF us, of "Precedence e + 1"] by (auto simp: sub_toks_def reads_back_def)
qed

lemma sub_whole:
  assumes "reads_back cs e" and "follows mn us" and "mn \<le> p + 1" and "mn \<le> p \<or> is_operand e \<or> mn \<le> Precedence e"
  shows "parses cs mn (sub_toks e (expr_toks e) p @ us) e us"
  using assms climbs_stop follows_mono by (intro sub_loop) blast+

lemma hd_tok_append: "ts \<noteq> [] \<Longrightarrow> hd_tok (ts @ us) = hd_tok ts"
  by (cases ts) simp_all

text \<open>No expression begins with a star, with SELECT or with DISTINCT.\<close>

lemma first_tok: "expr_shape e \<Longrightarrow> w = ''SELECT'' \<or> w = ''*'' \<or> w = ''DISTINCT'' \<Longrightarrow> \<not> is_sym (hd_tok (expr_toks e)) w"
proof (induction e)
  case (ELiteral v)
  then show ?case by (cases v) (auto simp: signed_toks_def)
qed (auto simp: sub_toks_def hd_tok_append)

lemma comma_list_read:
  assumes "es \<noteq> []" and "\<And>e. e \<in> set es \<Longrightarrow> reads_back cs e"
  shows "listed cs (comma_toks (map expr_toks es) @ punct '')'' # us) es (punct '')'' # us)"
  using assms
proof (induction es rule: induct_list012)
  case (2 e)
  then show ?case by (auto intro!: listed_one parses_whole follows_close Precedence_lowest)
next
  case (3 e e' es)
  have "parses cs PrecLowest (expr_toks e @ punct '','' # comma_toks (map expr_toks (e' # es)) @ punct '')'' # us) e
      (punct '','' # comma_toks (map expr_toks (e' # es)) @ punct '')'' # us)"
    using 3(4) by (intro parses_whole follows_comma Precedence_lowest) simp
  moreover have "listed cs (comma_toks (map expr_toks (e' # es)) @ punct '')'' # us) (e' # es) (punct '')'' # us)"
    using 3(4) by (intro 3(2)) auto
  ultimately show ?case using listed_Cons by fastforce
qed simp

theorem expression_reads_back:
  assumes "expr_shape e" and "printable e"
  shows "reads_back cs e"
  using assms
proof (induction e)
  case (ELiteral v)
  then show ?case by (intro reads_back_operand) (simp add: operand_value)
next
  case (EColumn t n)
  show ?case by (rule reads_back_operand) (rule operand_column)
next
  case (EUnary op a)
  then have a: "reads_back cs a" and op: "op = ''NOT'' \<or> op = ''-'' \<and> \<not> numeric_literal a" by auto
  show ?case
  proof (rule reads_back_operand)
    fix us assume us: "follows (Precedence (EUnary op a) + 1) us"
    show "operand cs (expr_toks (EUnary op a) @ us) (EUnary op a) us"
    proof (cases "op = ''NOT''")
      case True
      then have "follows (PrecNot + 1) us" using us by simp
      moreover have "is_operand a \<or> PrecNot + 1 \<le> Precedence a \<or> Precedence a < PrecNot"
        using precedence_operand [of a] by (cases "Precedence a = PrecNot") auto
      then have "parses cs (PrecNot + 1) (sub_toks a (expr_toks a) PrecNot @ us) a us"
        using sub_operand [OF a calculation] climbs_stop [OF calculation]
          sub_whole [OF a calculation, of PrecNot] by (auto intro: parses_operand)
      ultimately show ?thesis using operand_not True by simp
    next
      case False
      then have "follows (PrecUnary + 1) us" using us by simp
      then have "operand cs (sub_toks a (expr_toks a) PrecUnary @ us) a us"
        using precedence_operand [of a] by (intro sub_operand a) auto
      then show ?thesis using op False by (auto intro!: operand_sign fold_other)
    qed
  qed
next
  case (EBinary op l r)
  let ?p = "BinaryPrecedence op"
  have op: "op \<in> set infix_ops" using EBinary.prems(1) by (intro infix_op) simp_all
  have lr: "reads_back cs l" "reads_back cs r" using EBinary by simp_all
  show ?case
  proof (rule reads_back_loop)
    fix mn us e' vs
    assume a: "mn \<le> Precedence (EBinary op l r)" "follows (Precedence (EBinary op l r) + 1) us" "climbs cs mn (EBinary op l r) us e' vs"
    have "parses cs (?p + 1) (sub_toks r (expr_toks r) (?p + 1) @ us) r us"
      using a(2) by (intro sub_whole lr) simp_all
    then have "climbs cs mn l (op_tok op # sub_toks r (expr_toks r) (?p + 1) @ us) e' vs"
      using a(1,3) by (intro climbs_op [OF op]) simp_all
    then show "parses cs mn (expr_toks (EBinary op l r) @ us) e' vs"
      using a(1) sub_loop [OF lr(1) follows_op [OF op, of "?p + 1"]] by simp
  qed simp
next
  case (EIsNull a n)
  then have a: "reads_back cs a" by simp
  show ?case
  proof (rule reads_back_loop)
    fix mn us e' vs
    assume h: "mn \<le> Precedence (EIsNull a n)" "climbs cs mn (EIsNull a n) us e' vs"
    have "climbs cs mn a (kw ''IS'' # not_toks n @ kw ''NULL'' # us) e' vs"
      using h by (intro climbs_postfix [OF _ postfixed_null]) simp_all
    then show "parses cs mn (expr_toks (EIsNull a n) @ us) e' vs"
      using h(1) sub_loop [OF a follows_word [of "''IS''" "PrecCompare + 1"]] by simp
  qed simp
next
  case (EBetween a lo hi n)
  then have a: "reads_back cs a" and bs: "reads_back cs lo" "reads_back cs hi" by simp_all
  show ?case
  proof (rule reads_back_loop)
    fix mn us e' vs
    assume h: "mn \<le> Precedence (EBetween a lo hi n)" "follows (Precedence (EBetween a lo hi n) + 1) us"
      "climbs cs mn (EBetween a lo hi n) us e' vs"
    let ?rest = "sub_toks lo (expr_toks lo) PrecAdd @ kw ''AND'' # sub_toks hi (expr_toks hi) PrecAdd @ us"
    have five: "PrecCompare + 1 = PrecAdd" by (simp add: prec_defs)
    have hi: "parses cs PrecAdd (sub_toks hi (expr_toks hi) PrecAdd @ us) hi us"
      using h(2) by (intro sub_whole bs) (simp_all add: five)
    have lo: "parses cs PrecAdd ?rest lo (kw ''AND'' # sub_toks hi (expr_toks hi) PrecAdd @ us)"
      by (intro sub_whole bs follows_and) (simp_all add: prec_defs)
    have "climbs cs mn a (not_toks n @ kw ''BETWEEN'' # ?rest) e' vs"
      using h(1,3) by (intro climbs_postfix [OF _ postfixed_between [OF lo hi]]) simp_all
    moreover have "follows (PrecCompare + 1) (not_toks n @ kw ''BETWEEN'' # ?rest)"
      by (cases n) (simp_all add: not_toks_def follows_word)
    ultimately show "parses cs mn (expr_toks (EBetween a lo hi n) @ us) e' vs"
      using h(1) sub_loop [OF a] by simp
  qed simp
next
  case (EIn a items n)
  then have a: "reads_back cs a" and items: "items \<noteq> []" "\<And>e. e \<in> set items \<Longrightarrow> reads_back cs e \<and> expr_shape e"
    by (auto simp: list_all_iff)
  have first: "\<not> is_sym (hd_tok (comma_toks (map expr_toks items) @ punct '')'' # us)) ''SELECT''" for us
    using items first_tok by (cases items rule: remdups_adj.cases) (auto simp: hd_tok_append)
  show ?case
  proof (rule reads_back_loop)
    fix mn us e' vs
    assume h: "mn \<le> Precedence (EIn a items n)" "climbs cs mn (EIn a items n) us e' vs"
    let ?rest = "punct ''('' # comma_toks (map expr_toks items) @ punct '')'' # us"
    have "climbs cs mn a (not_toks n @ kw ''IN'' # ?rest) e' vs"
      using h items first by (intro climbs_postfix [OF _ postfixed_in [OF comma_list_read]]) auto
    moreover have "follows (PrecCompare + 1) (not_toks n @ kw ''IN'' # ?rest)"
      by (cases n) (simp_all add: not_toks_def follows_word)
    ultimately show "parses cs mn (expr_toks (EIn a items n) @ us) e' vs"
      using h(1) sub_loop [OF a] by simp
  qed simp
next
  case (ELike a p n)
  then have a: "reads_back cs a" and p: "reads_back cs p" "PrecAdd \<le> Precedence p" by simp_all
  show ?case
  proof (rule reads_back_loop)
    fix mn us e' vs
    assume h: "mn \<le> Precedence (ELike a p n)" "follows (Precedence (ELike a p n) + 1) us" "climbs cs mn (ELike a p n) us e' vs"
    let ?rest = "sub_toks p (expr_toks p) PrecCompare @ us"
    have "parses cs (PrecCompare + 1) ?rest p us"
      using h(2) p(2) by (intro sub_whole p(1)) (simp_all add: prec_defs)
    then have "climbs cs mn a (not_toks n @ kw ''LIKE'' # ?rest) e' vs"
      using h(1,3) by (intro climbs_postfix [OF _ postfixed_like]) simp_all
    moreover have "follows (PrecCompare + 1) (not_toks n @ kw ''LIKE'' # ?rest)"
      by (cases n) (simp_all add: not_toks_def follows_word)
    ultimately show "parses cs mn (expr_toks (ELike a p n) @ us) e' vs"
      using h(1) sub_loop [OF a] by simp
  qed simp
next
  case (EFuncCall name arg star)
  then have name: "name \<in> set aggregates" by simp
  show ?case
  proof (rule reads_back_operand)
    fix us
    show "operand cs (expr_toks (EFuncCall name arg star) @ us) (EFuncCall name arg star) us"
    proof (cases arg)
      case None
      then show ?thesis
        using EFuncCall.prems operand_call [OF name, of cs "punct ''*'' # punct '')'' # us" "EFuncCall name None True" us]
        by (simp add: call_argument_def)
    next
      case (Some a)
      then have a: "reads_back cs a" "expr_shape a" "\<not> HasAggregate a" "\<not> star" using EFuncCall by auto
      have "parses cs PrecLowest (expr_toks a @ punct '')'' # us) a (punct '')'' # us)"
        by (intro parses_whole a Precedence_lowest follows_close)
      then have "call_argument cs name (expr_toks a @ punct '')'' # us) (EFuncCall name (Some a) False) (punct '')'' # us)"
        using a first_tok [of a] by (auto simp: call_argument_def hd_tok_append)
      from operand_call [OF name this] show ?thesis using Some a(4) by simp
    qed
  qed
qed simp

lemma consumes_expression:
  assumes "expr_shape e" and "printable e" and "follows PrecLowest us"
  shows "consumes cs (expression cs) (expr_toks e @ us) e us"
  unfolding consumes_def
proof (intro allI impI)
  fix p assume p: "ahead cs p (expr_toks e @ us)"
  have "parses cs PrecLowest (expr_toks e @ us) e us"
    by (rule parses_whole [OF expression_reads_back [OF assms(1,2)] Precedence_lowest assms(3)])
  then obtain n q where n: "\<And>m. n \<le> m \<Longrightarrow> p_expr cs m PrecLowest p = ret e q" "ahead cs q us"
    by (rule parsesE [OF _ p]) blast
  have "expression cs p \<noteq> None" using takes_expression [of p cs] by (cases "expression cs p") (simp_all add: ends_def)
  then have "expression cs p = p_expr cs (max n (fuel_for p)) PrecLowest p"
    using below_le(1) [of "fuel_for p" "max n (fuel_for p)" cs PrecLowest p] by (auto simp: expression_def below_def)
  then show "\<exists>q. expression cs p = ret e q \<and> ahead cs q us" using n by auto
qed

theorem ParseExpr_String:
  assumes "expr_shape e" and "printable e"
  shows "ParseExpr cs (Expr_String e) = Some (Inr e)"
proof -
  have "spells cs (Expr_String e) (expr_toks e @ []) []" using spells_expr [OF assms, of "[]" cs] by simp
  from ahead_New [OF this] obtain q where "expression cs (Parser_New cs (Expr_String e)) = ret e q" "ahead cs q []"
    using consumesD [OF consumes_expression [OF assms follows_end]] by blast
  then show ?thesis by (simp add: ParseExpr_def ret_def finish_def ahead_tok)
qed

end
