(* ===== verification/PrintStmt.thy ===== *)
theory PrintStmt
  imports Printing
begin

text \<open>
  The tokens a statement prints as, and the proof that the scanner finds them in the printed text.  A
  phrase is a text that scans to its tokens before any separator; a clause is a phrase that begins with
  a space, so that it may follow another phrase.
\<close>

section \<open>The tokens of a statement\<close>

definition word_toks :: "bool \<Rightarrow> string list \<Rightarrow> tok list" where
  "word_toks b ws = (if b then map kw ws else [])"

definition opt_toks :: "string \<Rightarrow> Expr option \<Rightarrow> tok list" where
  "opt_toks w e = (case e of None \<Rightarrow> [] | Some e \<Rightarrow> kw w # expr_toks e)"

definition by_toks :: "string \<Rightarrow> tok list list \<Rightarrow> tok list" where
  "by_toks w tss = (if tss = [] then [] else kw w # kw ''BY'' # comma_toks tss)"

definition paren_toks :: "tok list \<Rightarrow> tok list" where
  "paren_toks ts = punct ''('' # ts @ [punct '')'']"

definition column_toks :: "ResultColumn \<Rightarrow> tok list" where
  "column_toks c = (if rc_Star c then [punct ''*''] else expr_toks (the (rc_Expr c))) @
     (if rc_Alias c = [] then [] else [kw ''AS'', name_tok (rc_Alias c)])"

definition order_toks :: "OrderTerm \<Rightarrow> tok list" where
  "order_toks t = expr_toks (ot_Expr t) @ [kw (if ot_Desc t then ''DESC'' else ''ASC'')]"

definition def_toks :: "ColumnDef \<Rightarrow> tok list" where
  "def_toks d = name_tok (cd_Name d) # name_tok (map lower_char (Kind_String (cd_Type d))) #
     word_toks (cd_PrimaryKey d) [''PRIMARY'', ''KEY''] @
     word_toks (cd_NotNull d \<and> \<not> cd_PrimaryKey d) [''NOT'', ''NULL'']"

definition select_toks :: "Select \<Rightarrow> tok list" where
  "select_toks s = kw ''SELECT'' # word_toks (s_Distinct s) [''DISTINCT''] @ comma_toks (map column_toks (s_Columns s)) @
     kw ''FROM'' # name_tok (s_Table s) # opt_toks ''WHERE'' (s_Where s) @ by_toks ''GROUP'' (map expr_toks (s_GroupBy s)) @
     by_toks ''ORDER'' (map order_toks (s_OrderBy s)) @ opt_toks ''LIMIT'' (s_Limit s) @ opt_toks ''OFFSET'' (s_Offset s)"

definition insert_toks :: "string \<Rightarrow> string list \<Rightarrow> Expr list list \<Rightarrow> tok list" where
  "insert_toks t cols rows = kw ''INSERT'' # kw ''INTO'' # name_tok t #
     (if cols = [] then [] else paren_toks (comma_toks (map (\<lambda>c. [name_tok c]) cols))) @ kw ''VALUES'' #
     comma_toks (map (\<lambda>row. paren_toks (comma_toks (map expr_toks row))) rows)"

definition set_toks :: "string \<times> Expr \<Rightarrow> tok list" where
  "set_toks = (\<lambda>(c, e). name_tok c # punct ''='' # expr_toks e)"

fun stmt_toks :: "Stmt \<Rightarrow> tok list" where
  "stmt_toks (CreateTableStmt t cols ine) = kw ''CREATE'' # kw ''TABLE'' # word_toks ine [''IF'', ''NOT'', ''EXISTS''] @
     name_tok t # paren_toks (comma_toks (map def_toks cols))"
| "stmt_toks (DropTableStmt t ie) = kw ''DROP'' # kw ''TABLE'' # word_toks ie [''IF'', ''EXISTS''] @ [name_tok t]"
| "stmt_toks (CreateIndexStmt name t col ine) = kw ''CREATE'' # kw ''INDEX'' # word_toks ine [''IF'', ''NOT'', ''EXISTS''] @
     name_tok name # kw ''ON'' # name_tok t # paren_toks [name_tok col]"
| "stmt_toks (DropIndexStmt name ie) = kw ''DROP'' # kw ''INDEX'' # word_toks ie [''IF'', ''EXISTS''] @ [name_tok name]"
| "stmt_toks (InsertStmt t cols rows) = insert_toks t cols rows"
| "stmt_toks (SelectStmt s) = select_toks s"
| "stmt_toks (UpdateStmt t sets w) = kw ''UPDATE'' # name_tok t # kw ''SET'' # comma_toks (map set_toks sets) @ opt_toks ''WHERE'' w"
| "stmt_toks (DeleteStmt t w) = kw ''DELETE'' # kw ''FROM'' # name_tok t # opt_toks ''WHERE'' w"
| "stmt_toks (ExplainStmt s) = kw ''EXPLAIN'' # stmt_toks s"
| "stmt_toks BeginStmt = [kw ''BEGIN'']"
| "stmt_toks CommitStmt = [kw ''COMMIT'']"
| "stmt_toks RollbackStmt = [kw ''ROLLBACK'']"

section \<open>Phrases and clauses\<close>

definition phrase :: "casing \<Rightarrow> string \<Rightarrow> tok list \<Rightarrow> bool" where
  "phrase cs t ts \<longleftrightarrow> (\<forall>s. sep s \<longrightarrow> spells cs (t @ s) ts s)"

definition clause :: "casing \<Rightarrow> string \<Rightarrow> tok list \<Rightarrow> bool" where
  "clause cs t ts \<longleftrightarrow> phrase cs t ts \<and> (t = [] \<or> hd t = CHR '' '')"

lemma phraseD: "phrase cs t ts \<Longrightarrow> sep s \<Longrightarrow> spells cs (t @ s) ts s"
  by (simp add: phrase_def)

lemma clause_sep: "clause cs t ts \<Longrightarrow> sep s \<Longrightarrow> sep (t @ s)"
  by (cases t) (auto simp: clause_def)

lemma phrase_append: "phrase cs t ts \<Longrightarrow> clause cs u us \<Longrightarrow> phrase cs (t @ u) (ts @ us)"
  unfolding phrase_def
proof (intro allI impI)
  fix s assume t: "\<forall>s. sep s \<longrightarrow> spells cs (t @ s) ts s" and u: "clause cs u us" and s: "sep s"
  have "spells cs (t @ u @ s) ts (u @ s)" using t clause_sep [OF u s] by simp
  moreover have "spells cs (u @ s) us s" using u s by (simp add: clause_def phrase_def)
  ultimately show "spells cs ((t @ u) @ s) (ts @ us) s" by (simp add: spells_append)
qed

lemma clause_append: "clause cs t ts \<Longrightarrow> clause cs u us \<Longrightarrow> clause cs (t @ u) (ts @ us)"
  using phrase_append [of cs t ts u us] by (cases t) (simp_all add: clause_def)

lemma clause_Nil: "clause cs [] []"
  by (simp add: clause_def phrase_def)

lemma clause_phrase: "phrase cs t ts \<Longrightarrow> ts \<noteq> [] \<Longrightarrow> clause cs (CHR '' '' # t) ts"
  by (simp add: clause_def phrase_def spells_space)

lemma phrase_word: "w \<in> set reserved \<Longrightarrow> phrase cs w [kw w]"
  by (simp add: phrase_def spells_kw sep_not_part)

lemma clause_word: "w \<in> set reserved \<Longrightarrow> clause cs (CHR '' '' # w) [kw w]"
  by (intro clause_phrase phrase_word) simp_all

text \<open>A clause in front of one or more tokens.\<close>

lemma clause_Cons: "clause cs t [a] \<Longrightarrow> clause cs u us \<Longrightarrow> clause cs (t @ u) (a # us)"
  using clause_append [of cs t "[a]" u us] by simp

lemma phrase_Cons: "phrase cs t [a] \<Longrightarrow> clause cs u us \<Longrightarrow> phrase cs (t @ u) (a # us)"
  using phrase_append [of cs t "[a]" u us] by simp

lemma sep_not_quote: "sep s \<Longrightarrow> s = [] \<or> \<not> is_ident_part (hd s) \<and> hd s \<noteq> CHR 0x22"
  using sep_not_part [of s] by (auto simp: sep_def)

lemma phrase_name: "name_ok n \<Longrightarrow> phrase cs (quoteIdent n) [name_tok n]"
  by (simp add: phrase_def spells_ident sep_not_quote)

lemma clause_name: "name_ok n \<Longrightarrow> clause cs (CHR '' '' # quoteIdent n) [name_tok n]"
  by (intro clause_phrase phrase_name) simp_all

lemma phrase_expr: "expr_shape e \<Longrightarrow> printable e \<Longrightarrow> phrase cs (Expr_String e) (expr_toks e)"
  by (simp add: phrase_def spells_expr)

lemma phrase_star: "phrase cs ''*'' [punct ''*'']"
  by (auto simp: phrase_def intro!: spells_char)

lemma clause_equals: "clause cs '' ='' [punct ''='']"
proof -
  have "phrase cs ''='' [punct ''='']"
    unfolding phrase_def by (auto simp: sep_def intro!: spells_char)
  then show ?thesis using clause_phrase by fastforce
qed

lemma phrase_parens: "phrase cs t ts \<Longrightarrow> phrase cs (''('' @ t @ '')'') (paren_toks ts)"
  unfolding phrase_def paren_toks_def
  by (auto intro!: spells_Cons [OF spells_char] spells_append [OF _ spells_char])

lemma phrase_list:
  assumes "\<And>x. x \<in> set xs \<Longrightarrow> phrase cs (f x) (g x) \<and> g x \<noteq> []"
  shows "phrase cs (Join '', '' (map f xs)) (comma_toks (map g xs))"
  using assms unfolding phrase_def by (auto intro!: spells_list)

lemma comma_toks_ne: "xs \<noteq> [] \<Longrightarrow> (\<And>x. x \<in> set xs \<Longrightarrow> g x \<noteq> []) \<Longrightarrow> comma_toks (map g xs) \<noteq> []"
  by (cases xs rule: remdups_adj.cases) auto

lemma clause_words:
  assumes "\<And>w. w \<in> set ws \<Longrightarrow> w \<in> set reserved"
  shows "clause cs (if b then concat (map (\<lambda>w. CHR '' '' # w) ws) else []) (word_toks b ws)"
proof -
  have "clause cs (concat (map (\<lambda>w. CHR '' '' # w) ws)) (map kw ws)"
    using assms
  proof (induction ws)
    case (Cons w ws)
    then show ?case using clause_Cons [OF clause_word, of w cs] by simp
  qed (simp add: clause_Nil)
  then show ?thesis by (simp add: word_toks_def clause_Nil)
qed

text \<open>An optional clause with an expression.\<close>

definition opt_text :: "string \<Rightarrow> Expr option \<Rightarrow> string" where
  "opt_text w e = (case e of None \<Rightarrow> [] | Some e \<Rightarrow> CHR '' '' # w @ CHR '' '' # Expr_String e)"

lemma clause_opt:
  assumes "w \<in> set reserved" and "\<And>x. e = Some x \<Longrightarrow> expr_shape x \<and> printable x"
  shows "clause cs (opt_text w e) (opt_toks w e)"
proof (cases e)
  case (Some x)
  have "clause cs ((CHR '' '' # w) @ CHR '' '' # Expr_String x) (kw w # expr_toks x)"
    using assms Some by (intro clause_Cons clause_word clause_phrase phrase_expr) simp_all
  then show ?thesis using Some by (simp add: opt_text_def opt_toks_def)
qed (simp add: opt_text_def opt_toks_def clause_Nil)

definition by_text :: "string \<Rightarrow> string list \<Rightarrow> string" where
  "by_text w ts = (if ts = [] then [] else CHR '' '' # w @ '' BY'' @ CHR '' '' # Join '', '' ts)"

lemma clause_by:
  assumes w: "w \<in> set reserved" and f: "\<And>x. x \<in> set xs \<Longrightarrow> phrase cs (f x) (g x) \<and> g x \<noteq> []"
  shows "clause cs (by_text w (map f xs)) (by_toks w (map g xs))"
proof (cases "xs = []")
  case False
  have "clause cs ((CHR '' '' # w) @ '' BY'' @ CHR '' '' # Join '', '' (map f xs)) (kw w # kw ''BY'' # comma_toks (map g xs))"
    using w f False clause_word [of "''BY''" cs]
    by (intro clause_Cons clause_word clause_phrase phrase_list comma_toks_ne) (simp_all add: reserved_def)
  then show ?thesis using False by (simp add: by_text_def by_toks_def)
qed (simp add: by_text_def by_toks_def clause_Nil)

section \<open>Statements\<close>

text \<open>What the printer can write of a statement: printable expressions, and names that are not taken for keywords.\<close>

definition opt_printable :: "Expr option \<Rightarrow> bool" where
  "opt_printable e \<longleftrightarrow> (case e of None \<Rightarrow> True | Some e \<Rightarrow> printable e)"

definition column_printable :: "ResultColumn \<Rightarrow> bool" where
  "column_printable c \<longleftrightarrow> (rc_Star c \<or> printable (the (rc_Expr c))) \<and> (rc_Alias c = [] \<or> name_ok (rc_Alias c))"

definition select_printable :: "Select \<Rightarrow> bool" where
  "select_printable s \<longleftrightarrow> list_all column_printable (s_Columns s) \<and> name_ok (s_Table s) \<and> opt_printable (s_Where s) \<and>
     list_all printable (s_GroupBy s) \<and> list_all (\<lambda>t. printable (ot_Expr t)) (s_OrderBy s)"

fun stmt_printable :: "Stmt \<Rightarrow> bool" where
  "stmt_printable (CreateTableStmt t cols ine) = (name_ok t \<and> list_all (\<lambda>d. name_ok (cd_Name d)) cols)"
| "stmt_printable (DropTableStmt t ie) = name_ok t"
| "stmt_printable (CreateIndexStmt name t col ine) = (name_ok name \<and> name_ok t \<and> name_ok col)"
| "stmt_printable (DropIndexStmt name ie) = name_ok name"
| "stmt_printable (InsertStmt t cols rows) = (name_ok t \<and> list_all name_ok cols \<and> list_all (list_all printable) rows)"
| "stmt_printable (SelectStmt s) = select_printable s"
| "stmt_printable (UpdateStmt t sets w) = (name_ok t \<and> list_all (\<lambda>(c, e). name_ok c \<and> printable e) sets \<and> opt_printable w)"
| "stmt_printable (DeleteStmt t w) = (name_ok t \<and> opt_printable w)"
| "stmt_printable (ExplainStmt s) = stmt_printable s"
| "stmt_printable _ = True"

lemma toks_ne [simp]: "column_toks c \<noteq> []" "order_toks t \<noteq> []" "def_toks d \<noteq> []" "set_toks a \<noteq> []" "paren_toks ts \<noteq> []"
  by (simp_all add: column_toks_def order_toks_def def_toks_def set_toks_def paren_toks_def split: prod.split)

lemma phrase_column:
  assumes "column_shape c" and "column_printable c"
  shows "phrase cs (ResultColumn_String c) (column_toks c)"
proof -
  have e: "phrase cs (if rc_Star c then ''*'' else Expr_String (the (rc_Expr c))) (if rc_Star c then [punct ''*''] else expr_toks (the (rc_Expr c)))"
    using assms by (auto simp: column_shape_def column_printable_def phrase_star phrase_expr)
  have as: "clause cs ('' AS'' @ CHR '' '' # quoteIdent n) [kw ''AS'', name_tok n]" if "name_ok n" for n
    using clause_word [of "''AS''" cs] that by (intro clause_Cons clause_name) (simp_all add: reserved_def)
  show ?thesis
    using phrase_append [OF e as, of "rc_Alias c"] phrase_append [OF e clause_Nil] assms(2)
    by (auto simp: ResultColumn_String_def column_toks_def column_printable_def Let_def)
qed

lemma phrase_order:
  assumes "expr_shape (ot_Expr t)" and "printable (ot_Expr t)"
  shows "phrase cs (OrderTerm_String t) (order_toks t)"
  using phrase_append [OF phrase_expr [OF assms] clause_word, of "''DESC''" cs]
    phrase_append [OF phrase_expr [OF assms] clause_word, of "''ASC''" cs]
  by (simp add: OrderTerm_String_def order_toks_def reserved_def)

definition plain_word :: "string \<Rightarrow> bool" where
  "plain_word w \<longleftrightarrow> w \<noteq> [] \<and> is_ident_start (hd w) \<and> list_all is_ident_part w \<and> is_ascii w \<and> map upper_char w \<notin> set reserved"

lemma phrase_kind:
  assumes "k \<noteq> KindNull"
  shows "phrase cs (Kind_String k) [name_tok (map lower_char (Kind_String k))]"
proof -
  have "list_all (\<lambda>k. plain_word (Kind_String k)) [KindBool, KindInt, KindFloat, KindText]" by code_simp
  moreover have "k \<in> set [KindBool, KindInt, KindFloat, KindText]" using assms by (cases k) simp_all
  ultimately have "plain_word (Kind_String k)" by (simp only: list_all_iff)
  then show ?thesis
    unfolding phrase_def plain_word_def using sep_not_part by (blast intro: spells_plain_word)
qed

lemma phrase_def_text:
  assumes "name_ok (cd_Name d)" and "cd_Type d \<noteq> KindNull"
  shows "phrase cs (ColumnDef_String d) (def_toks d)"
proof -
  have "phrase cs (quoteIdent (cd_Name d) @ (CHR '' '' # Kind_String (cd_Type d)) @
      (if cd_PrimaryKey d then concat (map (\<lambda>w. CHR '' '' # w) [''PRIMARY'', ''KEY'']) else []) @
      (if cd_NotNull d \<and> \<not> cd_PrimaryKey d then concat (map (\<lambda>w. CHR '' '' # w) [''NOT'', ''NULL'']) else [])) (def_toks d)"
    unfolding def_toks_def
    using assms
    by (intro phrase_Cons clause_Cons clause_append phrase_name clause_phrase phrase_kind clause_words)
      (auto simp: reserved_def)
  then show ?thesis by (cases "cd_PrimaryKey d"; cases "cd_NotNull d") (simp_all add: ColumnDef_String_def)
qed

lemma count_shape_expr: "count_shape e \<Longrightarrow> expr_shape e \<and> printable e"
  by (cases e rule: count_shape.cases) (auto simp: literal_ok_def value_ok_def word_sle_eq)

text \<open>The printer's optional parts in this form.\<close>

lemma opt_texts:
  "where_print w = opt_text ''WHERE'' w"
  "(case w of None \<Rightarrow> [] | Some e \<Rightarrow> '' LIMIT '' @ Expr_String e) = opt_text ''LIMIT'' w"
  "(case w of None \<Rightarrow> [] | Some e \<Rightarrow> '' OFFSET '' @ Expr_String e) = opt_text ''OFFSET'' w"
  by (simp_all add: where_print_def opt_text_def split: option.split)

lemma by_texts:
  "(if xs \<noteq> [] then '' GROUP BY '' @ Join '', '' (map f xs) else []) = by_text ''GROUP'' (map f xs)"
  "(if xs' \<noteq> [] then '' ORDER BY '' @ Join '', '' (map f' xs') else []) = by_text ''ORDER'' (map f' xs')"
  by (simp_all add: by_text_def)

lemma phrase_select:
  assumes "select_shape s" and "select_printable s"
  shows "phrase cs (Select_String s) (select_toks s)"
proof -
  have cols: "phrase cs (Join '', '' (map ResultColumn_String (s_Columns s))) (comma_toks (map column_toks (s_Columns s)))"
    using assms by (intro phrase_list) (simp add: select_shape_def select_printable_def list_all_iff phrase_column)
  have ne: "comma_toks (map column_toks (s_Columns s)) \<noteq> []"
    using assms(1) by (intro comma_toks_ne) (simp_all add: select_shape_def)
  have "phrase cs (''SELECT'' @ (if s_Distinct s then concat (map (\<lambda>w. CHR '' '' # w) [''DISTINCT'']) else []) @
      (CHR '' '' # Join '', '' (map ResultColumn_String (s_Columns s))) @ (CHR '' '' # ''FROM'') @
      (CHR '' '' # quoteIdent (s_Table s)) @ opt_text ''WHERE'' (s_Where s) @
      by_text ''GROUP'' (map Expr_String (s_GroupBy s)) @ by_text ''ORDER'' (map OrderTerm_String (s_OrderBy s)) @
      opt_text ''LIMIT'' (s_Limit s) @ opt_text ''OFFSET'' (s_Offset s)) (select_toks s)"
    unfolding select_toks_def
    using assms ne
    by (intro phrase_Cons clause_Cons clause_append phrase_word clause_words clause_phrase [OF cols(1)] clause_word clause_name
        clause_opt clause_by conjI phrase_expr phrase_order)
      (auto simp: reserved_def select_shape_def select_printable_def list_all_iff opt_shape_def opt_printable_def plain_shape_def
        order_toks_def dest: count_shape_expr)
  then show ?thesis
    unfolding Select_String_def opt_texts by_texts by (cases "s_Distinct s") simp_all
qed

lemma phrase_insert:
  assumes "bare_shape (InsertStmt t cols rows)" and "stmt_printable (InsertStmt t cols rows)"
  shows "phrase cs (Insert_String t cols rows) (insert_toks t cols rows)"
proof -
  have names: "phrase cs (Join '', '' (map quoteIdent cols)) (comma_toks (map (\<lambda>c. [name_tok c]) cols))"
    using assms(2) by (intro phrase_list) (simp add: list_all_iff phrase_name)
  have cols: "clause cs (if cols \<noteq> [] then CHR '' '' # ''('' @ Join '', '' (map quoteIdent cols) @ '')'' else [])
      (if cols = [] then [] else paren_toks (comma_toks (map (\<lambda>c. [name_tok c]) cols)))"
    using clause_phrase [OF phrase_parens [OF names]] clause_Nil by simp
  have row: "phrase cs (''('' @ Join '', '' (map Expr_String row) @ '')'') (paren_toks (comma_toks (map expr_toks row)))"
    if "row \<in> set rows" for row
    using assms that by (intro phrase_parens phrase_list) (auto simp: list_all_iff intro!: phrase_expr)
  have rows: "phrase cs (Join '', '' (map (\<lambda>row. ''('' @ Join '', '' (map Expr_String row) @ '')'') rows))
      (comma_toks (map (\<lambda>row. paren_toks (comma_toks (map expr_toks row))) rows))"
    using row by (intro phrase_list) simp
  have ne: "comma_toks (map (\<lambda>row. paren_toks (comma_toks (map expr_toks row))) rows) \<noteq> []"
    using assms(1) by (intro comma_toks_ne) simp_all
  have "phrase cs (''INSERT'' @ (CHR '' '' # ''INTO'') @ (CHR '' '' # quoteIdent t) @
      (if cols \<noteq> [] then CHR '' '' # ''('' @ Join '', '' (map quoteIdent cols) @ '')'' else []) @ (CHR '' '' # ''VALUES'') @
      CHR '' '' # Join '', '' (map (\<lambda>row. ''('' @ Join '', '' (map Expr_String row) @ '')'') rows)) (insert_toks t cols rows)"
    unfolding insert_toks_def
    using assms(2) ne
    by (intro phrase_Cons clause_Cons clause_append [OF cols] phrase_word clause_word clause_name clause_phrase [OF rows])
      (simp_all add: reserved_def)
  then show ?thesis by (cases "cols = []") (simp_all add: Insert_String_def)
qed

lemma phrase_set:
  assumes "name_ok c" and "expr_shape e" and "printable e"
  shows "phrase cs (quoteIdent c @ '' = '' @ Expr_String e) (set_toks (c, e))"
proof -
  have "phrase cs (quoteIdent c @ '' ='' @ CHR '' '' # Expr_String e) (name_tok c # punct ''='' # expr_toks e)"
    using assms by (intro phrase_Cons phrase_name clause_Cons clause_equals clause_phrase phrase_expr) simp_all
  then show ?thesis by (simp add: set_toks_def)
qed

lemma clause_where: "opt_shape expr_shape w \<Longrightarrow> opt_printable w \<Longrightarrow> clause cs (where_print w) (opt_toks ''WHERE'' w)"
  unfolding opt_texts by (rule clause_opt) (auto simp: reserved_def opt_shape_def opt_printable_def)

lemma phrase_bare:
  assumes "bare_shape s" and "stmt_printable s"
  shows "phrase cs (Stmt_String s) (stmt_toks s)"
  using assms
proof (cases s)
  case (CreateTableStmt t cols ine)
  have defs: "phrase cs (''('' @ Join '', '' (map ColumnDef_String cols) @ '')'') (paren_toks (comma_toks (map def_toks cols)))"
    using assms CreateTableStmt
    by (intro phrase_parens phrase_list conjI phrase_def_text) (auto simp: list_all_iff def_shape_def)
  have "phrase cs (''CREATE'' @ (CHR '' '' # ''TABLE'') @
      (if ine then concat (map (\<lambda>w. CHR '' '' # w) [''IF'', ''NOT'', ''EXISTS'']) else []) @ (CHR '' '' # quoteIdent t) @
      CHR '' '' # ''('' @ Join '', '' (map ColumnDef_String cols) @ '')'') (stmt_toks s)"
    unfolding CreateTableStmt stmt_toks.simps
    using assms(2) CreateTableStmt
    by (intro phrase_Cons clause_Cons clause_append phrase_word clause_word clause_words clause_name clause_phrase [OF defs])
      (auto simp: reserved_def)
  then show ?thesis by (cases ine) (simp_all add: CreateTableStmt)
next
  case (DropTableStmt t ie)
  have "phrase cs (''DROP'' @ (CHR '' '' # ''TABLE'') @
      (if ie then concat (map (\<lambda>w. CHR '' '' # w) [''IF'', ''EXISTS'']) else []) @ (CHR '' '' # quoteIdent t)) (stmt_toks s)"
    unfolding DropTableStmt stmt_toks.simps
    using assms(2) DropTableStmt
    by (intro phrase_Cons clause_Cons clause_append phrase_word clause_word clause_words clause_name) (auto simp: reserved_def)
  then show ?thesis by (cases ie) (simp_all add: DropTableStmt)
next
  case (CreateIndexStmt name t col ine)
  have "phrase cs (''CREATE'' @ (CHR '' '' # ''INDEX'') @
      (if ine then concat (map (\<lambda>w. CHR '' '' # w) [''IF'', ''NOT'', ''EXISTS'']) else []) @ (CHR '' '' # quoteIdent name) @
      (CHR '' '' # ''ON'') @ (CHR '' '' # quoteIdent t) @ CHR '' '' # ''('' @ quoteIdent col @ '')'') (stmt_toks s)"
    unfolding CreateIndexStmt stmt_toks.simps
    using assms(2) CreateIndexStmt
    by (intro phrase_Cons clause_Cons clause_append phrase_word clause_word clause_words clause_name clause_phrase
        phrase_parens phrase_name) (auto simp: reserved_def)
  then show ?thesis by (cases ine) (simp_all add: CreateIndexStmt)
next
  case (DropIndexStmt name ie)
  have "phrase cs (''DROP'' @ (CHR '' '' # ''INDEX'') @
      (if ie then concat (map (\<lambda>w. CHR '' '' # w) [''IF'', ''EXISTS'']) else []) @ (CHR '' '' # quoteIdent name)) (stmt_toks s)"
    unfolding DropIndexStmt stmt_toks.simps
    using assms(2) DropIndexStmt
    by (intro phrase_Cons clause_Cons clause_append phrase_word clause_word clause_words clause_name) (auto simp: reserved_def)
  then show ?thesis by (cases ie) (simp_all add: DropIndexStmt)
next
  case (UpdateStmt t sets w)
  have sets: "phrase cs (Join '', '' (map (\<lambda>(c, e). quoteIdent c @ '' = '' @ Expr_String e) sets)) (comma_toks (map set_toks sets))"
    using assms UpdateStmt
    by (intro phrase_list) (fastforce simp: list_all_iff plain_shape_def intro!: phrase_set [simplified])
  have ne: "comma_toks (map set_toks sets) \<noteq> []" using assms(1) UpdateStmt by (intro comma_toks_ne) simp_all
  have "phrase cs (''UPDATE'' @ (CHR '' '' # quoteIdent t) @ (CHR '' '' # ''SET'') @
      (CHR '' '' # Join '', '' (map (\<lambda>(c, e). quoteIdent c @ '' = '' @ Expr_String e) sets)) @ where_print w) (stmt_toks s)"
    unfolding UpdateStmt stmt_toks.simps
    using assms UpdateStmt ne
    by (intro phrase_Cons clause_Cons clause_append phrase_word clause_word clause_name clause_phrase [OF sets] clause_where)
      (auto simp: reserved_def)
  then show ?thesis by (simp add: UpdateStmt)
next
  case (DeleteStmt t w)
  have "phrase cs (''DELETE'' @ (CHR '' '' # ''FROM'') @ (CHR '' '' # quoteIdent t) @ where_print w) (stmt_toks s)"
    unfolding DeleteStmt stmt_toks.simps
    using assms DeleteStmt
    by (intro phrase_Cons clause_Cons phrase_word clause_word clause_name clause_where) (auto simp: reserved_def)
  then show ?thesis by (simp add: DeleteStmt)
qed (auto simp: phrase_select phrase_insert reserved_def intro!: phrase_word)

theorem phrase_statement:
  assumes "stmt_shape s" and "stmt_printable s"
  shows "phrase cs (Stmt_String s) (stmt_toks s)"
proof (cases "\<exists>inner. s = ExplainStmt inner")
  case True
  then obtain inner where s: "s = ExplainStmt inner" by blast
  have "stmt_toks inner \<noteq> []" by (cases inner) (simp_all add: insert_toks_def select_toks_def)
  then have "phrase cs (''EXPLAIN'' @ CHR '' '' # Stmt_String inner) (kw ''EXPLAIN'' # stmt_toks inner)"
    using assms s by (intro phrase_Cons phrase_word clause_phrase phrase_bare) (simp_all add: reserved_def)
  then show ?thesis by (simp add: s)
next
  case False
  then have "bare_shape s" using assms(1) by (cases s) simp_all
  then show ?thesis using assms(2) by (rule phrase_bare)
qed

end
