(* ===== verification/ReparseStmt.thy ===== *)
theory ReparseStmt
  imports Reparse PrintStmt
begin

text \<open>
  Statements parse back.  Every production of the statement parser is described, like the expressions, by the
  tokens it consumes; a printed statement parses to the statement that was printed, and so do the statements
  of a script.
\<close>

section \<open>Lists, words and optional clauses\<close>

lemma comma_list_enough:
  assumes "comma_list cs n item p = ret xs q" and "comma_list cs m item p \<noteq> None"
  shows "comma_list cs m item p = ret xs q"
proof (cases "n \<le> m")
  case True
  then show ?thesis using below_list [of item item n m cs p] assms(1) by (auto intro: below_ret)
next
  case False
  then have "below (comma_list cs m item p) (comma_list cs n item p)" by (intro below_list) simp_all
  then show ?thesis using assms by (auto simp: below_def)
qed

text \<open>The items of a list, before a token that is no comma.\<close>

lemma consumes_items:
  assumes item: "\<And>x vs. x \<in> set xs \<Longrightarrow> vs = us \<or> (\<exists>ws. vs = punct '','' # ws) \<Longrightarrow> consumes cs item (g x @ vs) x vs"
    and us: "\<not> is_sym (hd_tok us) '',''" and xs: "xs \<noteq> []" and p: "ahead cs p (comma_toks (map g xs) @ us)"
  shows "\<exists>n q. comma_list cs n item p = ret xs q \<and> ahead cs q us"
  using item xs p
proof (induction xs arbitrary: p rule: induct_list012)
  case (2 x)
  have "consumes cs item (g x @ us) x us" by (rule 2) simp_all
  then obtain q where "item p = ret x q" "ahead cs q us" using 2(3) consumesD by fastforce
  then have "comma_list cs (Suc 0) item p = ret [x] q" using us by (simp add: accept_def sees_ahead)
  then show ?case using \<open>ahead cs q us\<close> by blast
next
  case (3 x y ys)
  let ?rest = "comma_toks (map g (y # ys)) @ us"
  have "consumes cs item (g x @ punct '','' # ?rest) x (punct '','' # ?rest)" by (rule 3) simp_all
  then obtain q where q: "item p = ret x q" "ahead cs q (punct '','' # ?rest)" using 3(5) consumesD by fastforce
  then have "ahead cs (Parser_advance cs q) ?rest" using ahead_advance by fastforce
  then obtain n r where "comma_list cs n item (Parser_advance cs q) = ret (y # ys) r" "ahead cs r us"
    using 3(2) [of "Parser_advance cs q"] 3(3) by auto
  then have "comma_list cs (Suc n) item p = ret (x # y # ys) r" using q by (simp add: accept_def sees_ahead [OF q(2)])
  then show ?case using \<open>ahead cs r us\<close> by blast
qed simp

lemma consumes_list:
  assumes "\<And>x vs. x \<in> set xs \<Longrightarrow> vs = us \<or> (\<exists>ws. vs = punct '','' # ws) \<Longrightarrow> consumes cs item (g x @ vs) x vs"
    and "\<not> is_sym (hd_tok us) '',''" and "xs \<noteq> []" and "\<And>q. takes_some q (item q)"
  shows "consumes cs (\<lambda>p. comma_list cs (fuel_for p) item p) (comma_toks (map g xs) @ us) xs us"
  unfolding consumes_def
proof (intro allI impI)
  fix p assume p: "ahead cs p (comma_toks (map g xs) @ us)"
  have "\<exists>n q. comma_list cs n item p = ret xs q \<and> ahead cs q us"
    by (rule consumes_items [OF assms(1-3) p])
  moreover have "comma_list cs (fuel_for p) item p \<noteq> None"
    using takes_list [of item p cs, OF assms(4)] by (cases "comma_list cs (fuel_for p) item p") (simp_all add: ends_def)
  ultimately show "\<exists>q. comma_list cs (fuel_for p) item p = ret xs q \<and> ahead cs q us"
    using comma_list_enough by metis
qed

lemma accept_words_all:
  "ahead cs p (map kw ws @ us) \<Longrightarrow> \<exists>q. accept_words cs saved ws p = (True, q) \<and> ahead cs q us"
proof (induction ws arbitrary: p)
  case (Cons w ws)
  then have "ahead cs (Parser_advance cs p) (map kw ws @ us)" using ahead_advance by fastforce
  from Cons.IH [OF this] show ?case using Cons.prems by (simp add: sees_ahead)
qed simp

lemma consumes_seq:
  assumes "b \<Longrightarrow> consumes cs (f True) us a vs" and "\<not> b \<Longrightarrow> consumes cs (f False) us a vs"
    and "\<not> is_sym (hd_tok us) w"
  shows "consumes cs (\<lambda>p. case acceptSeq cs (w # ws) p of (b, q) \<Rightarrow> f b q) (word_toks b (w # ws) @ us) a vs"
  unfolding consumes_def
proof (intro allI impI)
  fix p assume p: "ahead cs p (word_toks b (w # ws) @ us)"
  show "\<exists>q. (case acceptSeq cs (w # ws) p of (b, q) \<Rightarrow> f b q) = ret a q \<and> ahead cs q vs"
  proof (cases b)
    case True
    then obtain q where "accept_words cs p (w # ws) p = (True, q)" "ahead cs q us"
      using accept_words_all [of cs p "w # ws" us p] p by (auto simp: word_toks_def)
    then show ?thesis using assms(1) True by (auto simp: acceptSeq_def consumes_def simp del: accept_words.simps)
  next
    case False
    then have "ahead cs p us" using p by (simp add: word_toks_def)
    then show ?thesis using assms(2,3) False by (auto simp: acceptSeq_def sees_ahead consumes_def)
  qed
qed

text \<open>The tokens behind an expression of a statement: a comma, a parenthesis, a semicolon, the end, or a keyword that
  is no operator.\<close>

definition stops :: "tok list \<Rightarrow> bool" where
  "stops ts \<longleftrightarrow> follows PrecLowest ts \<and> fst (hd_tok ts) \<noteq> TIdent"

lemma stops_follows: "stops ts \<Longrightarrow> follows PrecLowest ts"
  by (simp add: stops_def)

definition plain_kw :: "string \<Rightarrow> bool" where
  "plain_kw w \<longleftrightarrow> BinaryPrecedence w = PrecLowest \<and> w \<notin> {''NOT'', ''IS'', ''BETWEEN'', ''IN'', ''LIKE'', ''('', ''.''}"

lemma stops_sym: "plain_kw w \<Longrightarrow> stops (kw w # ts)" "plain_kw w \<Longrightarrow> stops (punct w # ts)"
  by (auto simp: stops_def follows_def plain_kw_def tok_prec_def postfix_start_def)

lemma plain_words:
  "list_all plain_kw [''AS'', ''FROM'', ''WHERE'', ''GROUP'', ''ORDER'', ''LIMIT'', ''OFFSET'', ''ASC'', ''DESC'', '','', '')'', '';'']"
  by code_simp

lemma stops_simps [simp]:
  "stops []" "stops (kw ''AS'' # ts)" "stops (kw ''FROM'' # ts)" "stops (kw ''WHERE'' # ts)" "stops (kw ''GROUP'' # ts)"
  "stops (kw ''ORDER'' # ts)" "stops (kw ''LIMIT'' # ts)" "stops (kw ''OFFSET'' # ts)" "stops (kw ''ASC'' # ts)"
  "stops (kw ''DESC'' # ts)" "stops (punct '','' # ts)" "stops (punct '')'' # ts)" "stops (punct '';'' # ts)"
  using plain_words by (simp_all add: stops_sym) (simp add: stops_def follows_end)

text \<open>What may follow a statement.\<close>

definition stmt_end :: "tok list \<Rightarrow> bool" where
  "stmt_end ts \<longleftrightarrow> ts = [] \<or> hd ts = punct '';''"

lemma stmt_end_cases: "stmt_end ts \<Longrightarrow> ts = [] \<or> (\<exists>us. ts = punct '';'' # us)"
  by (cases ts) (simp_all add: stmt_end_def)

lemma stmt_end_stops [simp]: "stmt_end ts \<Longrightarrow> stops ts"
  using stmt_end_cases by fastforce

lemma stmt_end_sym: "stmt_end ts \<Longrightarrow> s \<noteq> '';'' \<Longrightarrow> \<not> is_sym (hd_tok ts) s"
  using stmt_end_cases by fastforce

lemma stops_opt: "plain_kw w \<Longrightarrow> stops us \<Longrightarrow> stops (opt_toks w e @ us)"
  by (simp add: opt_toks_def stops_sym split: option.split)

lemma stops_by: "plain_kw w \<Longrightarrow> stops us \<Longrightarrow> stops (by_toks w xs @ us)"
  by (simp add: by_toks_def stops_sym)

lemma opt_sym: "w \<noteq> s \<Longrightarrow> \<not> is_sym (hd_tok us) s \<Longrightarrow> \<not> is_sym (hd_tok (opt_toks w e @ us)) s"
  by (simp add: opt_toks_def split: option.split)

lemma by_sym: "w \<noteq> s \<Longrightarrow> \<not> is_sym (hd_tok us) s \<Longrightarrow> \<not> is_sym (hd_tok (by_toks w xs @ us)) s"
  by (simp add: by_toks_def)

lemma consumes_expr:
  "expr_shape e \<Longrightarrow> printable e \<Longrightarrow> stops us \<Longrightarrow> consumes cs (expression cs) (expr_toks e @ us) e us"
  by (intro consumes_expression stops_follows)

lemma consumes_optional:
  assumes "\<And>x. e = Some x \<Longrightarrow> expr_shape x \<and> printable x" and "stops us" and "\<not> is_sym (hd_tok us) w"
  shows "consumes cs (optional_expr cs w) (opt_toks w e @ us) e us"
  unfolding optional_expr_def
  by (rule consumes_accept')
    (use assms in \<open>auto simp: opt_toks_def split: option.split intro!: consumes_bind [OF consumes_expr] consumes_ret\<close>)

section \<open>SELECT\<close>

lemma consumes_column:
  assumes c: "column_shape c" "column_printable c" and us: "stops us" "\<not> is_sym (hd_tok us) ''AS''"
  shows "consumes cs (resultColumn cs) (column_toks c @ us) c us"
proof (cases "rc_Star c")
  case True
  then have c: "c = \<lparr>rc_Star = True, rc_Expr = None, rc_Alias = []\<rparr>" using c(1) by (simp add: column_shape_def)
  show ?thesis
    unfolding consumes_def
  proof (intro allI impI)
    fix p assume "ahead cs p (column_toks c @ us)"
    then have p: "ahead cs p (punct ''*'' # us)" by (simp add: column_toks_def c)
    show "\<exists>q. resultColumn cs p = ret c q \<and> ahead cs q us"
      using ahead_advance [OF p] by (auto simp: resultColumn_def sees_ahead [OF p] c)
  qed
next
  case False
  then obtain e where e: "rc_Expr c = Some e" "expr_shape e" "printable e" using c by (auto simp: column_shape_def column_printable_def)
  let ?as = "if rc_Alias c = [] then [] else [kw ''AS'', name_tok (rc_Alias c)]"
  let ?col = "\<lambda>alias. \<lparr>rc_Star = False, rc_Expr = Some e, rc_Alias = alias\<rparr>"
  have col: "?col (rc_Alias c) = c" using False e(1) by simp
  have after: "consumes cs (\<lambda>p1. case accept cs ''AS'' p1 of
        (True, p2) \<Rightarrow> pbind (ident cs ''a column alias'' p2) (\<lambda>alias. ret (?col alias))
      | (False, p2) \<Rightarrow> if tk_Kind (ps_tok p2) = TIdent then ret (?col (tk_Text (ps_tok p2))) (Parser_advance cs p2) else ret (?col []) p2)
      (?as @ us) c us"
  proof (rule consumes_accept', cases "rc_Alias c = []")
    case True
    then have "consumes cs (\<lambda>p2. if tk_Kind (ps_tok p2) = TIdent then ret (?col (tk_Text (ps_tok p2))) (Parser_advance cs p2) else ret (?col []) p2) us c us"
      using us(1) col by (auto simp: consumes_def stops_def ahead_tok)
    then show "if is_sym (hd_tok (?as @ us)) ''AS''
      then consumes cs (\<lambda>p2. pbind (ident cs ''a column alias'' p2) (\<lambda>alias. ret (?col alias))) (tl (?as @ us)) c us
      else consumes cs (\<lambda>p2. if tk_Kind (ps_tok p2) = TIdent then ret (?col (tk_Text (ps_tok p2))) (Parser_advance cs p2) else ret (?col []) p2) (?as @ us) c us"
      using us(2) True by simp
  next
    case False
    have "consumes cs (\<lambda>p2. pbind (ident cs ''a column alias'' p2) (\<lambda>alias. ret (?col alias))) (name_tok (rc_Alias c) # us) c us"
      by (rule consumes_bind [OF consumes_ident]) (simp add: col consumes_ret)
    then show "if is_sym (hd_tok (?as @ us)) ''AS''
      then consumes cs (\<lambda>p2. pbind (ident cs ''a column alias'' p2) (\<lambda>alias. ret (?col alias))) (tl (?as @ us)) c us
      else consumes cs (\<lambda>p2. if tk_Kind (ps_tok p2) = TIdent then ret (?col (tk_Text (ps_tok p2))) (Parser_advance cs p2) else ret (?col []) p2) (?as @ us) c us"
      using False by simp
  qed
  have "consumes cs (\<lambda>p. pbind (expression cs p) (\<lambda>e p1.
      case accept cs ''AS'' p1 of
        (True, p2) \<Rightarrow> pbind (ident cs ''a column alias'' p2) (\<lambda>alias. ret \<lparr>rc_Star = False, rc_Expr = Some e, rc_Alias = alias\<rparr>)
      | (False, p2) \<Rightarrow>
          if tk_Kind (ps_tok p2) = TIdent then ret \<lparr>rc_Star = False, rc_Expr = Some e, rc_Alias = tk_Text (ps_tok p2)\<rparr> (Parser_advance cs p2)
          else ret \<lparr>rc_Star = False, rc_Expr = Some e, rc_Alias = []\<rparr> p2)) (expr_toks e @ ?as @ us) c us"
    by (rule consumes_bind [OF consumes_expr [OF e(2,3)]], simp add: us(1), rule after)
  moreover have "\<not> is_sym (hd_tok (expr_toks e @ ?as @ us)) ''*''" using first_tok [OF e(2)] by (simp add: hd_tok_append)
  ultimately show ?thesis
    using False e(1) by (auto simp: consumes_def resultColumn_def sees_ahead column_toks_def Let_def)
qed

lemma consumes_order:
  assumes t: "expr_shape (ot_Expr t)" "printable (ot_Expr t)"
  shows "consumes cs (orderTerm cs) (order_toks t @ us) t us"
proof -
  obtain e d where td: "t = \<lparr>ot_Expr = e, ot_Desc = d\<rparr>" by (cases t)
  have "consumes cs (\<lambda>p2. ret \<lparr>ot_Expr = e, ot_Desc = False\<rparr> (snd (accept cs ''ASC'' p2)))
      (kw ''ASC'' # us) \<lparr>ot_Expr = e, ot_Desc = False\<rparr> us"
    using ahead_advance by (fastforce simp: consumes_def accept_def sees_ahead)
  then have after: "consumes cs (\<lambda>p1. case accept cs ''DESC'' p1 of
         (True, p2) \<Rightarrow> ret \<lparr>ot_Expr = e, ot_Desc = True\<rparr> p2
       | (False, p2) \<Rightarrow> ret \<lparr>ot_Expr = e, ot_Desc = False\<rparr> (snd (accept cs ''ASC'' p2)))
      (kw (if d then ''DESC'' else ''ASC'') # us) t us"
    by (intro consumes_accept') (cases d; simp add: td consumes_ret)
  have "order_toks t @ us = expr_toks e @ kw (if d then ''DESC'' else ''ASC'') # us" by (simp add: order_toks_def td)
  moreover have "consumes cs (orderTerm cs) (expr_toks e @ kw (if d then ''DESC'' else ''ASC'') # us) t us"
    unfolding orderTerm_def
    by (rule consumes_bind [OF consumes_expr]) (use t after in \<open>simp_all add: td\<close>)
  ultimately show ?thesis by simp
qed

lemma consumes_by:
  assumes item: "\<And>x vs. x \<in> set xs \<Longrightarrow> vs = us \<or> (\<exists>ws. vs = punct '','' # ws) \<Longrightarrow> consumes cs item (g x @ vs) x vs"
    and us: "\<not> is_sym (hd_tok us) '',''" "\<not> is_sym (hd_tok us) w" and takes: "\<And>q. takes_some q (item q)"
  shows "consumes cs (by_clause cs w item) (by_toks w (map g xs) @ us) xs us"
  unfolding by_clause_def
proof (rule consumes_accept')
  have "consumes cs (\<lambda>p1. pbind (expect cs ''BY'' p1) (\<lambda>_ p2. comma_list cs (fuel_for p2) item p2))
      (kw ''BY'' # comma_toks (map g xs) @ us) xs us" if "xs \<noteq> []"
    using that assms by (intro consumes_bind [OF consumes_expect] consumes_list) auto
  then show "if is_sym (hd_tok (by_toks w (map g xs) @ us)) w
    then consumes cs (\<lambda>p1. pbind (expect cs ''BY'' p1) (\<lambda>_ p2. comma_list cs (fuel_for p2) item p2)) (tl (by_toks w (map g xs) @ us)) xs us
    else consumes cs (ret []) (by_toks w (map g xs) @ us) xs us"
    using us(2) by (auto simp: by_toks_def consumes_ret)
qed

lemma consumes_where:
  assumes "opt_shape plain_shape e" and "opt_printable e" and "stops us" and "\<not> is_sym (hd_tok us) ''WHERE''"
  shows "consumes cs (where_clause cs) (opt_toks ''WHERE'' e @ us) e us"
  unfolding where_clause_def
  using assms
  by (intro consumes_bind [OF consumes_optional])
    (auto simp: opt_shape_def opt_printable_def plain_shape_def split: option.splits intro: consumes_ret)

lemma consumes_count:
  assumes "opt_shape count_shape e" and "stops us" and "\<not> is_sym (hd_tok us) w"
  shows "consumes cs (optional_count cs w) (opt_toks w e @ us) e us"
proof -
  have "consumes cs (countExpr cs w) (expr_toks x @ us) x us" if x: "count_shape x" for x
  proof -
    obtain i where i: "x = ELiteral (VInt i)" "0 \<le>s i" using x by (cases x rule: count_shape.cases) auto
    have "consumes cs (expression cs) (expr_toks x @ us) x us"
      using count_shape_expr [OF x] assms(2) by (intro consumes_expr) auto
    then show ?thesis using i by (fastforce simp: consumes_def countExpr_def word_sless_alt word_sle_eq)
  qed
  then show ?thesis
    unfolding optional_count_def
    using assms(1,3)
    by (intro consumes_accept') (auto simp: opt_toks_def opt_shape_def split: option.splits intro!: consumes_bind consumes_ret)
qed

lemma consumes_select:
  assumes s: "select_shape s" "select_printable s" and us: "stmt_end us"
  shows "consumes cs (p_selectStmt cs) (select_toks s @ us) (SelectStmt s) us"
proof -
  note sym = stmt_end_sym [OF us]
  let ?off = "opt_toks ''OFFSET'' (s_Offset s) @ us" let ?lim = "opt_toks ''LIMIT'' (s_Limit s) @ ?off"
  let ?order = "by_toks ''ORDER'' (map order_toks (s_OrderBy s)) @ ?lim"
  let ?group = "by_toks ''GROUP'' (map expr_toks (s_GroupBy s)) @ ?order"
  let ?where = "opt_toks ''WHERE'' (s_Where s) @ ?group"
  have st: "stops us" "stops ?off" "stops ?lim" "stops ?order" "stops ?group"
    using us plain_words by (simp_all add: stops_opt stops_by)
  have cols: "consumes cs (\<lambda>p. comma_list cs (fuel_for p) (resultColumn cs) p)
      (comma_toks (map column_toks (s_Columns s)) @ kw ''FROM'' # name_tok (s_Table s) # ?where) (s_Columns s)
      (kw ''FROM'' # name_tok (s_Table s) # ?where)"
    using s by (intro consumes_list consumes_column takes_resultColumn) (auto simp: select_shape_def select_printable_def list_all_iff)
  have group: "consumes cs (by_clause cs ''GROUP'' (expression cs)) ?group (s_GroupBy s) ?order"
    using s st by (intro consumes_by consumes_expr takes_expression)
      (auto simp: select_shape_def select_printable_def list_all_iff sym opt_sym by_sym)
  have order: "consumes cs (by_clause cs ''ORDER'' (orderTerm cs)) ?order (s_OrderBy s) ?lim"
    using s by (intro consumes_by consumes_order takes_orderTerm)
      (auto simp: select_shape_def select_printable_def list_all_iff sym opt_sym by_sym)
  have first: "\<not> is_sym (hd_tok (comma_toks (map column_toks (s_Columns s)) @ vs)) ''DISTINCT''" for vs
  proof -
    obtain c cs' where c: "s_Columns s = c # cs'" "column_shape c" using s(1) by (cases "s_Columns s") (auto simp: select_shape_def)
    have "\<not> is_sym (hd_tok (column_toks c)) ''DISTINCT''"
      using c(2) first_tok by (auto simp: column_toks_def column_shape_def hd_tok_append)
    then show ?thesis by (cases cs') (simp_all add: c(1) hd_tok_append)
  qed
  have eta: "\<lparr>s_Columns = s_Columns s, s_Table = s_Table s, s_Where = s_Where s, s_GroupBy = s_GroupBy s,
      s_OrderBy = s_OrderBy s, s_Limit = s_Limit s, s_Offset = s_Offset s, s_Distinct = s_Distinct s\<rparr> = s"
    by (cases s) simp
  have body: "consumes cs (\<lambda>p1. pbind (comma_list cs (fuel_for p1) (resultColumn cs) p1) (\<lambda>cols p2.
     pbind (expect cs ''FROM'' p2) (\<lambda>_ p3.
     pbind (ident cs ''a table name'' p3) (\<lambda>table p4.
     pbind (where_clause cs p4) (\<lambda>w p5.
     pbind (by_clause cs ''GROUP'' (expression cs) p5) (\<lambda>group p6.
     pbind (by_clause cs ''ORDER'' (orderTerm cs) p6) (\<lambda>order p7.
     pbind (optional_count cs ''LIMIT'' p7) (\<lambda>lim p8.
     pbind (optional_count cs ''OFFSET'' p8) (\<lambda>off.
       ret (SelectStmt \<lparr>s_Columns = cols, s_Table = table, s_Where = w, s_GroupBy = group,
         s_OrderBy = order, s_Limit = lim, s_Offset = off, s_Distinct = s_Distinct s\<rparr>))))))))))
      (comma_toks (map column_toks (s_Columns s)) @ kw ''FROM'' # name_tok (s_Table s) # ?where) (SelectStmt s) us"
  proof (rule consumes_bind [OF cols], rule consumes_bind [OF consumes_expect], simp, rule consumes_bind [OF consumes_ident],
      rule consumes_bind [OF consumes_where], goal_cases)
    case 5
    show ?case
      by (rule consumes_bind [OF group], rule consumes_bind [OF order], rule consumes_bind [OF consumes_count], goal_cases)
        (use s st in \<open>auto simp: select_shape_def sym opt_sym eta intro!: consumes_bind [OF consumes_count] consumes_ret\<close>)
  qed (use s st in \<open>auto simp: select_shape_def select_printable_def sym opt_sym by_sym\<close>)
  show ?thesis
    unfolding p_selectStmt_def select_toks_def append_Cons append_assoc
    by (rule consumes_bind [OF consumes_expect], simp, rule consumes_accept, cases "s_Distinct s")
      (use body first in \<open>simp_all add: word_toks_def\<close>)
qed

section \<open>INSERT, UPDATE and DELETE\<close>

lemma consumes_value_item:
  assumes "expr_shape e" and "printable e" and "IsConstant e" and "stops us"
  shows "consumes cs (value_item cs) (expr_toks e @ us) e us"
  unfolding value_item_def
  by (rule consumes_bind [OF consumes_expr]) (use assms consumes_ret in \<open>simp_all\<close>)

lemma paren_toks_append: "paren_toks ts @ us = punct ''('' # ts @ punct '')'' # us"
  by (simp add: paren_toks_def)

lemma consumes_value_row:
  assumes "row \<noteq> []" and "\<And>e. e \<in> set row \<Longrightarrow> expr_shape e \<and> printable e \<and> IsConstant e"
  shows "consumes cs (value_row cs) (paren_toks (comma_toks (map expr_toks row)) @ us) row us"
  unfolding value_row_def paren_toks_append
proof (rule consumes_bind [OF consumes_expect], simp, rule consumes_bind [OF consumes_list])
  show "consumes cs (\<lambda>p. pbind (expect cs '')'' p) (\<lambda>_. ret row)) (punct '')'' # us) row us"
    by (rule consumes_bind [OF consumes_expect]) (simp_all add: consumes_ret)
qed (use assms takes_value_item in \<open>auto intro!: consumes_value_item\<close>)

lemma consumes_column_names:
  assumes "\<not> is_sym (hd_tok us) ''(''"
  shows "consumes cs (column_names cs)
    ((if cols = [] then [] else paren_toks (comma_toks (map (\<lambda>c. [name_tok c]) cols))) @ us) cols us"
  unfolding column_names_def
proof (rule consumes_accept', cases "cols = []")
  case False
  have "consumes cs (\<lambda>p1. pbind (comma_list cs (fuel_for p1) (ident cs ''a column name'') p1) (\<lambda>names p2.
      pbind (expect cs '')'' p2) (\<lambda>_. ret names))) (comma_toks (map (\<lambda>c. [name_tok c]) cols) @ punct '')'' # us) cols us"
  proof (rule consumes_bind [OF consumes_list])
    show "consumes cs (\<lambda>p. pbind (expect cs '')'' p) (\<lambda>_. ret cols)) (punct '')'' # us) cols us"
      by (rule consumes_bind [OF consumes_expect]) (simp_all add: consumes_ret)
  qed (use False in \<open>auto simp: consumes_ident takes_ident\<close>)
  then show "if is_sym (hd_tok ((if cols = [] then [] else paren_toks (comma_toks (map (\<lambda>c. [name_tok c]) cols))) @ us)) ''(''
    then consumes cs (\<lambda>p1. pbind (comma_list cs (fuel_for p1) (ident cs ''a column name'') p1) (\<lambda>names p2.
        pbind (expect cs '')'' p2) (\<lambda>_. ret names)))
      (tl ((if cols = [] then [] else paren_toks (comma_toks (map (\<lambda>c. [name_tok c]) cols))) @ us)) cols us
    else consumes cs (ret []) ((if cols = [] then [] else paren_toks (comma_toks (map (\<lambda>c. [name_tok c]) cols))) @ us) cols us"
    using False by (simp add: paren_toks_append)
qed (use assms in \<open>simp add: consumes_ret\<close>)

lemma consumes_insert:
  assumes s: "bare_shape (InsertStmt t cols rows)" "stmt_printable (InsertStmt t cols rows)" and us: "stmt_end us"
  shows "consumes cs (p_insertStmt cs) (insert_toks t cols rows @ us) (InsertStmt t cols rows) us"
proof -
  have rows: "consumes cs (\<lambda>p. comma_list cs (fuel_for p) (value_row cs) p)
      (comma_toks (map (\<lambda>row. paren_toks (comma_toks (map expr_toks row))) rows) @ us) rows us"
    using s us by (intro consumes_list consumes_value_row takes_value_row) (auto simp: list_all_iff stmt_end_sym)
  show ?thesis
    unfolding p_insertStmt_def insert_toks_def append_Cons append_assoc
    by (rule consumes_bind [OF consumes_expect], simp, rule consumes_bind [OF consumes_expect], simp,
        rule consumes_bind [OF consumes_ident], rule consumes_bind [OF consumes_column_names], simp,
        rule consumes_bind [OF consumes_expect], simp, rule consumes_bind [OF rows], rule consumes_ret)
qed

lemma consumes_set:
  assumes "plain_shape e" and "printable e" and "stops us"
  shows "consumes cs (p_assignment cs) (set_toks (c, e) @ us) (c, e) us"
  unfolding p_assignment_def set_toks_def prod.case append_Cons
  by (rule consumes_bind [OF consumes_ident], rule consumes_bind [OF consumes_expect], simp, rule consumes_bind [OF consumes_expr])
    (use assms consumes_ret in \<open>simp_all add: plain_shape_def\<close>)

lemma consumes_optional_where:
  assumes "opt_shape expr_shape w" and "opt_printable w" and "stmt_end us"
  shows "consumes cs (optional_expr cs ''WHERE'') (opt_toks ''WHERE'' w @ us) w us"
  using assms by (intro consumes_optional) (auto simp: opt_shape_def opt_printable_def stmt_end_sym)

lemma consumes_update:
  assumes s: "bare_shape (UpdateStmt t sets w)" "stmt_printable (UpdateStmt t sets w)" and us: "stmt_end us"
  shows "consumes cs (p_updateStmt cs) (stmt_toks (UpdateStmt t sets w) @ us) (UpdateStmt t sets w) us"
proof -
  have set: "consumes cs (p_assignment cs) (set_toks a @ vs) a vs" if "a \<in> set sets" "stops vs" for a vs
    using s that by (cases a) (auto simp: list_all_iff intro!: consumes_set)
  have "stops (opt_toks ''WHERE'' w @ us)" using us plain_words by (simp add: stops_opt)
  then have sets: "consumes cs (\<lambda>p. comma_list cs (fuel_for p) (p_assignment cs) p)
      (comma_toks (map set_toks sets) @ opt_toks ''WHERE'' w @ us) sets (opt_toks ''WHERE'' w @ us)"
    using s us by (intro consumes_list set takes_assignment) (auto simp: opt_sym stmt_end_sym)
  show ?thesis
    unfolding p_updateStmt_def stmt_toks.simps append_Cons append_assoc
    by (rule consumes_bind [OF consumes_expect], simp, rule consumes_bind [OF consumes_ident],
        rule consumes_bind [OF consumes_expect], simp, rule consumes_bind [OF sets],
        rule consumes_bind [OF consumes_optional_where]) (use s us in \<open>simp_all add: consumes_ret\<close>)
qed

lemma consumes_delete:
  assumes s: "bare_shape (DeleteStmt t w)" "stmt_printable (DeleteStmt t w)" and us: "stmt_end us"
  shows "consumes cs (p_deleteStmt cs) (stmt_toks (DeleteStmt t w) @ us) (DeleteStmt t w) us"
  unfolding p_deleteStmt_def stmt_toks.simps append_Cons append_assoc
  by (rule consumes_bind [OF consumes_expect], simp, rule consumes_bind [OF consumes_expect], simp,
      rule consumes_bind [OF consumes_ident], rule consumes_bind [OF consumes_optional_where])
    (use s us in \<open>simp_all add: consumes_ret\<close>)

section \<open>CREATE and DROP\<close>

lemma seq_step:
  assumes "ahead cs p (word_toks b (w # ws) @ us)" and "\<not> is_sym (hd_tok us) w"
  shows "\<exists>q. acceptSeq cs (w # ws) p = (b, q) \<and> ahead cs q us"
proof -
  have "consumes cs (\<lambda>p. case acceptSeq cs (w # ws) p of (b, q) \<Rightarrow> ret b q) (word_toks b (w # ws) @ us) b us"
    using assms(2) by (intro consumes_seq) (auto simp: consumes_ret)
  from consumesD [OF this assms(1)] show ?thesis by (cases "acceptSeq cs (w # ws) p") (auto simp: ret_def)
qed

text \<open>The constraints the printer writes: the primary key, or else NOT NULL.\<close>

lemma constraints_stop:
  assumes q: "ahead cs q us" and us: "\<not> is_sym (hd_tok us) ''PRIMARY''" "\<not> is_sym (hd_tok us) ''NOT''"
  shows "\<exists>r. constraints cs (Suc m) d q = ret d r \<and> ahead cs r us"
proof -
  obtain r where r: "acceptSeq cs [''PRIMARY'', ''KEY''] q = (False, r)" "ahead cs r us"
    using seq_step [of cs q False _ _ us, OF _ us(1)] q by (auto simp: word_toks_def)
  obtain r' where r': "acceptSeq cs [''NOT'', ''NULL''] r = (False, r')" "ahead cs r' us"
    using seq_step [of cs r False _ _ us, OF _ us(2)] r(2) by (auto simp: word_toks_def)
  show ?thesis using r r' us(1) by (intro exI [of _ r']) (simp add: sees_ahead)
qed

lemma constraints_read:
  assumes p: "ahead cs p (word_toks pk [''PRIMARY'', ''KEY''] @ word_toks (nn \<and> \<not> pk) [''NOT'', ''NULL''] @ us)"
    and us: "\<not> is_sym (hd_tok us) ''PRIMARY''" "\<not> is_sym (hd_tok us) ''NOT''"
  shows "\<exists>q. constraints cs (Suc (Suc n)) d p =
    ret (if pk then d\<lparr>cd_PrimaryKey := True, cd_NotNull := True\<rparr> else if nn then d\<lparr>cd_NotNull := True\<rparr> else d) q \<and> ahead cs q us"
proof -
  have "\<not> is_sym (hd_tok (word_toks (nn \<and> \<not> pk) [''NOT'', ''NULL''] @ us)) ''PRIMARY''"
    using us(1) by (simp add: word_toks_def)
  from seq_step [OF p this] obtain q where q: "acceptSeq cs [''PRIMARY'', ''KEY''] p = (pk, q)"
    "ahead cs q (word_toks (nn \<and> \<not> pk) [''NOT'', ''NULL''] @ us)" by blast
  show ?thesis
  proof (cases pk)
    case True
    then have "ahead cs q us" using q(2) by (simp add: word_toks_def)
    from constraints_stop [OF this us] show ?thesis using q(1) True by (simp only: constraints.simps prod.case bool.case if_True)
  next
    case pk: False
    from seq_step [OF q(2) us(2)] obtain r where r: "acceptSeq cs [''NOT'', ''NULL''] q = (nn \<and> \<not> pk, r)" "ahead cs r us" by blast
    show ?thesis
    proof (cases nn)
      case True
      from constraints_stop [OF r(2) us] show ?thesis
        using q(1) r(1) True pk by (simp only: constraints.simps prod.case bool.case if_True if_False simp_thms)
    next
      case False
      then have "ahead cs p us" using p pk by (simp add: word_toks_def)
      from constraints_stop [OF this us] show ?thesis using False pk by (simp only: if_False)
    qed
  qed
qed

lemma parse_kind: "k \<noteq> KindNull \<Longrightarrow> ParseKind cs (map lower_char (Kind_String k)) = Some k"
proof -
  assume "k \<noteq> KindNull"
  then have k: "k \<in> set [KindBool, KindInt, KindFloat, KindText]" by (cases k) simp_all
  have "list_all (\<lambda>k. is_ascii (map lower_char (Kind_String k)) \<and> map upper_char (map lower_char (Kind_String k)) = Kind_String k)
      [KindBool, KindInt, KindFloat, KindText]"
    by code_simp
  then have "is_ascii (map lower_char (Kind_String k))" "map upper_char (map lower_char (Kind_String k)) = Kind_String k"
    using k by (simp_all only: list_all_iff)
  then have "ToUpper cs (map lower_char (Kind_String k)) = Kind_String k" by (simp only: ToUpper_def if_True)
  then show ?thesis using k by (auto simp: ParseKind_def)
qed

lemma consumes_def_text:
  assumes d: "def_shape d" and us: "\<not> is_sym (hd_tok us) ''PRIMARY''" "\<not> is_sym (hd_tok us) ''NOT''"
  shows "consumes cs (columnDef cs) (def_toks d @ us) d us"
proof -
  let ?rest = "word_toks (cd_PrimaryKey d) [''PRIMARY'', ''KEY''] @ word_toks (cd_NotNull d \<and> \<not> cd_PrimaryKey d) [''NOT'', ''NULL''] @ us"
  let ?kind = "map lower_char (Kind_String (cd_Type d))"
  let ?d = "\<lparr>cd_Name = cd_Name d, cd_Type = cd_Type d, cd_NotNull = False, cd_PrimaryKey = False\<rparr>"
  have whole: "(if cd_PrimaryKey d then ?d\<lparr>cd_PrimaryKey := True, cd_NotNull := True\<rparr>
      else if cd_NotNull d then ?d\<lparr>cd_NotNull := True\<rparr> else ?d) = d"
    using d by (cases d) (simp add: def_shape_def)
  have "consumes cs (\<lambda>p1. if tk_Kind (ps_tok p1) \<noteq> TIdent then fail_with (perrorf p1 (ExpectedType (cd_Name d) (ps_tok p1)))
       else
         (case ParseKind cs (tk_Text (ps_tok p1)) of
            None \<Rightarrow> fail_with (ParseFailed (UnknownType (tk_Text (ps_tok p1))) (tk_Pos (ps_tok p1)))
          | Some k \<Rightarrow>
              constraints cs (fuel_for p1)
                \<lparr>cd_Name = cd_Name d, cd_Type = k, cd_NotNull = False, cd_PrimaryKey = False\<rparr>
                (Parser_advance cs p1))) (name_tok ?kind # ?rest) d us"
    unfolding consumes_def
  proof (intro allI impI)
    fix p assume p: "ahead cs p (name_tok ?kind # ?rest)"
    then have "ahead cs (Parser_advance cs p) ?rest" using ahead_advance by fastforce
    moreover obtain n where "fuel_for p = Suc (Suc n)" by (simp add: fuel_for_def)
    ultimately have "\<exists>q. constraints cs (fuel_for p) ?d (Parser_advance cs p) = ret d q \<and> ahead cs q us"
      using constraints_read [OF _ us, of cs "Parser_advance cs p" "cd_PrimaryKey d" "cd_NotNull d" n ?d] by (simp only: whole)
    then show "\<exists>q. (if tk_Kind (ps_tok p) \<noteq> TIdent then fail_with (perrorf p (ExpectedType (cd_Name d) (ps_tok p)))
       else
         (case ParseKind cs (tk_Text (ps_tok p)) of
            None \<Rightarrow> fail_with (ParseFailed (UnknownType (tk_Text (ps_tok p))) (tk_Pos (ps_tok p)))
          | Some k \<Rightarrow>
              constraints cs (fuel_for p)
                \<lparr>cd_Name = cd_Name d, cd_Type = k, cd_NotNull = False, cd_PrimaryKey = False\<rparr>
                (Parser_advance cs p))) = ret d q \<and> ahead cs q us"
      using d parse_kind [of "cd_Type d" cs] by (simp add: ahead_tok [OF p] def_shape_def)
  qed
  then show ?thesis
    unfolding columnDef_def def_toks_def append_Cons append_assoc by (rule consumes_bind [OF consumes_ident])
qed

lemma consumes_createTable:
  assumes cols: "cols \<noteq> []" "list_all def_shape cols"
  shows "consumes cs (createTableTail cs)
    (word_toks ine [''IF'', ''NOT'', ''EXISTS''] @ name_tok t # paren_toks (comma_toks (map def_toks cols)) @ us)
    (CreateTableStmt t cols ine) us"
proof -
  have defs: "consumes cs (\<lambda>p. comma_list cs (fuel_for p) (columnDef cs) p)
      (comma_toks (map def_toks cols) @ punct '')'' # us) cols (punct '')'' # us)"
    using cols by (intro consumes_list consumes_def_text takes_columnDef) (auto simp: list_all_iff)
  have tail: "consumes cs (\<lambda>p0. pbind (ident cs ''a table name'' p0) (\<lambda>table p1.
        pbind (expect cs ''('' p1) (\<lambda>_ p2.
        pbind (comma_list cs (fuel_for p2) (columnDef cs) p2) (\<lambda>defs p3.
        pbind (expect cs '')'' p3) (\<lambda>_. ret (CreateTableStmt table defs ine))))))
      (name_tok t # paren_toks (comma_toks (map def_toks cols)) @ us) (CreateTableStmt t cols ine) us"
    unfolding paren_toks_append
    by (rule consumes_bind [OF consumes_ident], rule consumes_bind [OF consumes_expect], simp, rule consumes_bind [OF defs],
        rule consumes_bind [OF consumes_expect], simp, rule consumes_ret)
  show ?thesis
    unfolding createTableTail_def by (rule consumes_seq) (use tail in simp_all)
qed

lemma consumes_createIndex:
  "consumes cs (createIndexTail cs)
    (word_toks ine [''IF'', ''NOT'', ''EXISTS''] @ name_tok name # kw ''ON'' # name_tok t # paren_toks [name_tok col] @ us)
    (CreateIndexStmt name t col ine) us"
proof -
  have close: "consumes cs (\<lambda>p5. if sees p5 '','' then fail_with (perrorf p5 OneColumnIndex)
      else pbind (expect cs '')'' p5) (\<lambda>_. ret (CreateIndexStmt name t col b))) (punct '')'' # us) (CreateIndexStmt name t col b) us" for b
  proof -
    have "consumes cs (\<lambda>p5. pbind (expect cs '')'' p5) (\<lambda>_. ret (CreateIndexStmt name t col b))) (punct '')'' # us) (CreateIndexStmt name t col b) us"
      by (rule consumes_bind [OF consumes_expect consumes_ret]) simp
    then show ?thesis by (auto simp: consumes_def sees_ahead)
  qed
  have tail: "consumes cs (\<lambda>p0. pbind (ident cs ''an index name'' p0) (\<lambda>name p1.
        pbind (expect cs ''ON'' p1) (\<lambda>_ p2.
        pbind (ident cs ''a table name'' p2) (\<lambda>table p3.
        pbind (expect cs ''('' p3) (\<lambda>_ p4.
        pbind (ident cs ''a column name'' p4) (\<lambda>column p5.
          if sees p5 '','' then fail_with (perrorf p5 OneColumnIndex)
          else pbind (expect cs '')'' p5) (\<lambda>_. ret (CreateIndexStmt name table column b))))))))
      (name_tok name # kw ''ON'' # name_tok t # paren_toks [name_tok col] @ us) (CreateIndexStmt name t col b) us" for b
    unfolding paren_toks_append append_Cons append_Nil
    by (rule consumes_bind [OF consumes_ident], rule consumes_bind [OF consumes_expect], simp,
        rule consumes_bind [OF consumes_ident], rule consumes_bind [OF consumes_expect], simp,
        rule consumes_bind [OF consumes_ident], rule close)
  show ?thesis
    unfolding createIndexTail_def by (rule consumes_seq) (use tail in simp_all)
qed

lemma consumes_create:
  assumes s: "bare_shape s" and create: "(\<exists>t cols ine. s = CreateTableStmt t cols ine) \<or> (\<exists>n t c ine. s = CreateIndexStmt n t c ine)"
  shows "consumes cs (p_createStmt cs) (stmt_toks s @ us) s us"
  using create
proof (elim disjE exE)
  fix t cols ine assume c: "s = CreateTableStmt t cols ine"
  show ?thesis
    unfolding c p_createStmt_def stmt_toks.simps append_Cons append_assoc
    by (rule consumes_bind [OF consumes_expect], simp, rule consumes_accept') (use s c consumes_createTable in simp)
next
  fix n t col ine assume c: "s = CreateIndexStmt n t col ine"
  show ?thesis
    unfolding c p_createStmt_def stmt_toks.simps append_Cons append_assoc
    by (rule consumes_bind [OF consumes_expect], simp, rule consumes_accept', simp, rule consumes_accept')
      (use consumes_createIndex in simp)
qed

lemma consumes_drop_tail:
  "consumes cs (drop_tail cs what mk) (word_toks ie [''IF'', ''EXISTS''] @ name_tok n # us) (mk n ie) us"
proof -
  have tail: "consumes cs (\<lambda>p1. pbind (ident cs what p1) (\<lambda>name. ret (mk name ie))) (name_tok n # us) (mk n ie) us"
    by (rule consumes_bind [OF consumes_ident consumes_ret])
  show ?thesis
    unfolding drop_tail_def by (rule consumes_seq) (use tail in simp_all)
qed

lemma consumes_drop:
  assumes drop: "(\<exists>t ie. s = DropTableStmt t ie) \<or> (\<exists>n ie. s = DropIndexStmt n ie)"
  shows "consumes cs (p_dropStmt cs) (stmt_toks s @ us) s us"
  using drop
proof (elim disjE exE)
  fix t ie assume s: "s = DropTableStmt t ie"
  show ?thesis
    unfolding s p_dropStmt_def stmt_toks.simps append_Cons append_assoc append_Nil
    by (rule consumes_bind [OF consumes_expect], simp, rule consumes_accept') (use consumes_drop_tail in simp)
next
  fix n ie assume s: "s = DropIndexStmt n ie"
  show ?thesis
    unfolding s p_dropStmt_def stmt_toks.simps append_Cons append_assoc append_Nil
    by (rule consumes_bind [OF consumes_expect], simp, rule consumes_accept', simp, rule consumes_accept')
      (use consumes_drop_tail in simp)
qed

section \<open>Statements and scripts\<close>

lemma consumes_transaction:
  assumes "stmt_end us"
  shows "consumes cs (transaction_word cs s) (t # us) s us"
  unfolding consumes_def
proof (intro allI impI)
  fix p assume p: "ahead cs p (t # us)"
  have "ahead cs (Parser_advance cs p) us" using ahead_advance [OF p] by simp
  then show "\<exists>q. transaction_word cs s p = ret s q \<and> ahead cs q us"
    using stmt_end_sym [OF assms, of "''TRANSACTION''"]
    by (intro exI [of _ "Parser_advance cs p"]) (simp add: transaction_word_def accept_def sees_ahead)
qed

lemma consumes_bare:
  assumes s: "bare_shape s" "stmt_printable s" and us: "stmt_end us"
  shows "consumes cs (Statement_rounds cs (Suc n)) (stmt_toks s @ us) s us"
proof -
  have dispatch: "consumes cs (Statement_rounds cs (Suc n)) (kw w # ts) a vs"
    if "consumes cs f (kw w # ts) a vs" and "\<And>p. ps_err p = None \<Longrightarrow> tk_Kind (ps_tok p) = TKeyword \<Longrightarrow> tk_Text (ps_tok p) = w \<Longrightarrow>
      Statement_rounds cs (Suc n) p = f p" for f w ts a vs
    using that unfolding consumes_def by (metis ahead_tok fst_conv snd_conv hd_tok_simps(2))
  show ?thesis
  proof (cases s)
    case (SelectStmt x)
    then show ?thesis using consumes_select [of x us cs] s us by (auto simp: select_toks_def intro!: dispatch)
  next
    case (InsertStmt t cols rows)
    then show ?thesis using consumes_insert [of t cols rows us cs] s us by (auto simp: insert_toks_def intro!: dispatch)
  next
    case (UpdateStmt t sets w)
    then show ?thesis using consumes_update [of t sets w us cs] s us by (auto intro!: dispatch)
  next
    case (DeleteStmt t w)
    then show ?thesis using consumes_delete [of t w us cs] s us by (auto intro!: dispatch)
  next
    case (CreateTableStmt t cols ine)
    then show ?thesis using consumes_create [of s cs us] s by (auto intro!: dispatch)
  next
    case (CreateIndexStmt m t c ine)
    then show ?thesis using consumes_create [of s cs us] s by (auto intro!: dispatch)
  next
    case (DropTableStmt t ie)
    then show ?thesis using consumes_drop [of s cs us] by (auto intro!: dispatch)
  next
    case (DropIndexStmt m ie)
    then show ?thesis using consumes_drop [of s cs us] by (auto intro!: dispatch)
  next
    case (ExplainStmt x)
    then show ?thesis using s by simp
  qed (auto intro!: dispatch consumes_transaction us)
qed


lemma consumes_statement:
  assumes s: "stmt_shape s" "stmt_printable s" and us: "stmt_end us"
  shows "consumes cs (Statement cs) (stmt_toks s @ us) s us"
proof (cases "\<exists>inner. s = ExplainStmt inner")
  case True
  then obtain inner where i: "s = ExplainStmt inner" "bare_shape inner" "stmt_printable inner" using s by auto
  have rest: "consumes cs (\<lambda>p1. pbind (Statement_rounds cs (Suc 0) p1) (\<lambda>inner. ret (ExplainStmt inner))) (stmt_toks inner @ us) s us"
    unfolding i(1) by (rule consumes_bind [OF consumes_bare [OF i(2,3) us] consumes_ret])
  have "\<not> is_sym (hd_tok (stmt_toks inner @ us)) ''EXPLAIN''"
    using i(2) by (cases inner) (simp_all add: insert_toks_def select_toks_def)
  then have "consumes cs (\<lambda>p1. if sees p1 ''EXPLAIN'' then fail_with (perrorf p1 ExplainExplain)
      else pbind (Statement_rounds cs (Suc 0) p1) (\<lambda>inner. ret (ExplainStmt inner))) (stmt_toks inner @ us) s us"
    using rest by (auto simp: consumes_def sees_ahead simp del: Statement_rounds.simps)
  then have "consumes cs (\<lambda>p. pbind (expect cs ''EXPLAIN'' p) (\<lambda>_ p1. if sees p1 ''EXPLAIN'' then fail_with (perrorf p1 ExplainExplain)
      else pbind (Statement_rounds cs (Suc 0) p1) (\<lambda>inner. ret (ExplainStmt inner)))) (kw ''EXPLAIN'' # stmt_toks inner @ us) s us"
    by (intro consumes_bind [OF consumes_expect]) simp_all
  then show ?thesis
    unfolding consumes_def Statement_def numeral_2_eq_2 i(1) stmt_toks.simps append_Cons
    by (subst Statement_rounds.simps) (simp add: ahead_tok Let_def del: Statement_rounds.simps)
next
  case False
  then have "bare_shape s" using s(1) by (cases s) simp_all
  then show ?thesis unfolding Statement_def numeral_2_eq_2 using s(2) us by (rule consumes_bare)
qed

text \<open>C27: A statement that is printed parses to itself.  The shape is what the parser guarantees of its trees
  (\<open>ParseTree\<close>); printable means that no name in lower case is a keyword, no text holds a backslash, floats are
  finite, no two minus signs meet and the pattern of LIKE binds tighter than a comparison, the cases in which
  the printer's text reads as something else.\<close>

theorem Parse_Stmt_String:
  assumes "stmt_shape s" and "stmt_printable s"
  shows "Parse cs (Stmt_String s) = Some (Inr s)"
proof -
  have "spells cs (Stmt_String s) (stmt_toks s @ []) []"
    using phraseD [OF phrase_statement [OF assms], of "[]" cs] by (simp add: sep_def)
  from consumesD [OF consumes_statement [OF assms] ahead_New [OF this]]
  obtain q where q: "Statement cs (Parser_New cs (Stmt_String s)) = ret s q" "ahead cs q []"
    by (auto simp: stmt_end_def)
  then have "accept cs '';'' q = (False, q)" by (simp add: accept_def sees_ahead)
  then show ?thesis using q by (simp add: Parse_def ret_def finish_def ahead_tok)
qed

theorem Parse_Stmt_String_witness:
  "Parse \<lparr>to_upper = id, to_lower = id\<rparr> (Stmt_String (UpdateStmt ''t'' [(''Mixed Case'', EBinary ''-'' (EColumn [] ''a'') (EBinary ''-'' (EColumn ''t'' ''b'')
        (ELiteral (VFloat (Float64frombits 0xBFF8000000000000)))))]
      (Some (EUnary ''NOT'' (EIn (EColumn [] ''c'') [ELiteral (VText [CHR ''i'', CHR ''t'', squote, CHR ''s'']), ELiteral VNull] True))))) =
    Some (Inr (UpdateStmt ''t'' [(''Mixed Case'', EBinary ''-'' (EColumn [] ''a'') (EBinary ''-'' (EColumn ''t'' ''b'')
        (ELiteral (VFloat (Float64frombits 0xBFF8000000000000)))))]
      (Some (EUnary ''NOT'' (EIn (EColumn [] ''c'') [ELiteral (VText [CHR ''i'', CHR ''t'', squote, CHR ''s'']), ELiteral VNull] True)))))"
proof (rule Parse_Stmt_String, goal_cases)
  case 1
  show ?case by code_simp
next
  case 2
  have "finite_float (Float64frombits 0xBFF8000000000000)" by (simp add: finite_float_mag f_mag_def)
  then show ?case by (simp add: opt_printable_def value_ok_def name_ok_def reserved_def squote_def lower_ascii_def char_code_def)
qed

text \<open>A name that is a keyword is printed without its quotes, and does not parse.\<close>

theorem keyword_name_unquoted:
  "Parse cs (''DELETE FROM '' @ dquote @ ''order'' @ dquote) = Some (Inr (DeleteStmt ''order'' None)) \<and>
    (case Parse cs (Stmt_String (DeleteStmt ''order'' None)) of Some (Inl e) \<Rightarrow> True | _ \<Rightarrow> False)"
  by (intro conjI; code_simp)

text \<open>A script: every statement printed and ended with a semicolon.\<close>

definition script_text :: "Stmt list \<Rightarrow> string" where
  "script_text ss = concat (map (\<lambda>s. Stmt_String s @ '';'') ss)"

definition script_toks :: "Stmt list \<Rightarrow> tok list" where
  "script_toks ss = concat (map (\<lambda>s. stmt_toks s @ [punct '';'']) ss)"

lemma spells_script:
  "list_all (\<lambda>s. stmt_shape s \<and> stmt_printable s) ss \<Longrightarrow> spells cs (script_text ss) (script_toks ss) []"
proof (induction ss)
  case (Cons s ss)
  have "spells cs ('';'' @ script_text ss) (punct '';'' # script_toks ss) []"
    unfolding append_Cons append_Nil by (rule spells_Cons [OF spells_char]) (use Cons in simp_all)
  moreover have "spells cs (Stmt_String s @ '';'' @ script_text ss) (stmt_toks s) ('';'' @ script_text ss)"
    using Cons by (intro phraseD [OF phrase_statement]) (simp_all add: sep_def)
  ultimately show ?case by (simp add: script_text_def script_toks_def spells_append)
qed (simp add: script_text_def script_toks_def)

text \<open>The loop of a script, at its start and behind the semicolon of a statement.\<close>

lemma first_word: "stmt_shape s \<Longrightarrow> \<exists>w ts. stmt_toks s = kw w # ts \<and> w \<noteq> '';''"
  by (cases s) (simp_all add: select_toks_def insert_toks_def)

lemma skip_ahead:
  assumes p: "ahead cs p (pre @ script_toks ss)" and pre: "pre = [] \<or> pre = [punct '';'']" and ss: "list_all stmt_shape ss"
  shows "\<exists>p0. skip_semicolons cs (fuel_for p) p = Some p0 \<and> ahead cs p0 (script_toks ss)"
proof -
  have first: "\<not> is_sym (hd_tok (script_toks ss)) '';''"
    using ss first_word by (cases ss) (fastforce simp: script_toks_def)+
  obtain n where n: "fuel_for p = Suc (Suc n)" by (simp add: fuel_for_def)
  show ?thesis
    using pre
  proof
    assume "pre = []"
    then show ?thesis using p first by (simp add: n sees_ahead)
  next
    assume pre: "pre = [punct '';'']"
    then have q: "ahead cs (Parser_advance cs p) (script_toks ss)" using ahead_advance p by fastforce
    then show ?thesis using p pre first by (simp add: n sees_ahead)
  qed
qed

lemma script_reads:
  assumes "ahead cs p (pre @ script_toks ss)" and "pre = [] \<or> pre = [punct '';'']"
    and "list_all (\<lambda>s. stmt_shape s \<and> stmt_printable s) ss" and "script cs n out p = Some r"
  shows "r = Inr (out @ ss)"
  using assms
proof (induction n arbitrary: out p pre ss)
  case (Suc n)
  obtain p0 where p0: "skip_semicolons cs (fuel_for p) p = Some p0" "ahead cs p0 (script_toks ss)"
    using skip_ahead [OF Suc.prems(1,2)] Suc.prems(3) by (auto simp: list_all_iff)
  show ?case
  proof (cases ss)
    case Nil
    then show ?thesis using Suc.prems(4) p0 by (simp add: script_toks_def finish_def ahead_tok)
  next
    case (Cons s ss')
    obtain w ts where w: "stmt_toks s = kw w # ts" using Suc.prems(3) Cons first_word [of s] by auto
    have "tk_Kind (ps_tok p0) \<noteq> TEOF" using p0(2) w by (simp add: Cons script_toks_def ahead_tok)
    moreover obtain q where q: "Statement cs p0 = ret s q" "ahead cs q ([punct '';''] @ script_toks ss')"
      using consumesD [OF consumes_statement, of s "[punct '';''] @ script_toks ss'" cs p0] Suc.prems(3) p0(2) Cons
      by (auto simp: script_toks_def stmt_end_def)
    moreover have "sees q '';''" using q(2) by (simp add: sees_ahead)
    ultimately have "script cs n (out @ [s]) q = Some r" using Suc.prems(4) p0(1) by (simp add: ret_def)
    from Suc.IH [OF q(2) _ _ this] show ?thesis using Suc.prems(3) Cons by simp
  qed
qed simp

theorem ParseMany_script:
  assumes "list_all (\<lambda>s. stmt_shape s \<and> stmt_printable s) ss"
  shows "ParseMany cs (script_text ss) = Some (Inr ss)"
proof -
  let ?p = "Parser_New cs (script_text ss)"
  have p: "ahead cs ?p ([] @ script_toks ss)" using ahead_New [OF spells_script [OF assms]] by simp
  have "left_over ?p < fuel_for ?p" using fuel_for_left [of ?p ?p] by (simp add: same_text_def)
  from script_ends [OF this] obtain r where r: "script cs (fuel_for ?p) [] ?p = Some r" by blast
  then show ?thesis using script_reads [OF p _ assms r] by (simp add: ParseMany_def Let_def)
qed

end
