(* ===== verification/Range.thy ===== *)
theory Range
  imports Ast Ops
begin

text \<open>
  Scan ranges, \<open>src/plan/range.go\<close>: the interval of a sorted column that a scan has to visit,
  its intersection, and its translation into the half-open byte range of a key scan.
\<close>

section \<open>Bounds and ranges\<close>

record Bound =
  bd_Value :: Value
  bd_Inclusive :: bool
  bd_Set :: bool

record Range =
  Lo :: Bound
  Hi :: Bound

definition no_bound :: Bound where
  "no_bound = \<lparr>bd_Value = VNull, bd_Inclusive = False, bd_Set = False\<rparr>"

definition full_range :: Range where
  "full_range = \<lparr>Lo = no_bound, Hi = no_bound\<rparr>"

definition Bounded :: "Range \<Rightarrow> bool" where
  "Bounded r \<longleftrightarrow> bd_Set (Lo r) \<or> bd_Set (Hi r)"

definition IsPoint :: "Range \<Rightarrow> bool" where
  "IsPoint r =
     (if \<not> bd_Set (Lo r) \<or> \<not> bd_Set (Hi r) \<or> \<not> bd_Inclusive (Lo r) \<or> \<not> bd_Inclusive (Hi r) then False
      else Equal (bd_Value (Lo r)) (bd_Value (Hi r)))"

definition Range_String :: "Range \<Rightarrow> string" where
  "Range_String r =
     (if \<not> bd_Set (Lo r) then ''(-inf''
      else if bd_Inclusive (Lo r) then ''['' @ Value_SQL (bd_Value (Lo r))
      else ''('' @ Value_SQL (bd_Value (Lo r))) @ '', '' @
     (if \<not> bd_Set (Hi r) then ''+inf)''
      else if bd_Inclusive (Hi r) then Value_SQL (bd_Value (Hi r)) @ '']''
      else Value_SQL (bd_Value (Hi r)) @ '')'')"

definition Empty :: "Range \<Rightarrow> bool" where
  "Empty r =
     (if \<not> bd_Set (Lo r) \<or> \<not> bd_Set (Hi r) then False
      else
        (let c = Order (bd_Value (Lo r)) (bd_Value (Hi r)) in
         if c > 0 then True else c = 0 \<and> (\<not> bd_Inclusive (Lo r) \<or> \<not> bd_Inclusive (Hi r))))"

definition tighterLo :: "Bound \<Rightarrow> Bound \<Rightarrow> bool" where
  "tighterLo a b =
     (let c = Order (bd_Value a) (bd_Value b) in
      if c \<noteq> 0 then c > 0 else \<not> bd_Inclusive a \<and> bd_Inclusive b)"

definition tighterHi :: "Bound \<Rightarrow> Bound \<Rightarrow> bool" where
  "tighterHi a b =
     (let c = Order (bd_Value a) (bd_Value b) in
      if c \<noteq> 0 then c < 0 else \<not> bd_Inclusive a \<and> bd_Inclusive b)"

definition Intersect :: "Range \<Rightarrow> Range \<Rightarrow> Range" where
  "Intersect r o' =
     (let r1 = (if bd_Set (Lo o') \<and> (\<not> bd_Set (Lo r) \<or> tighterLo (Lo o') (Lo r))
                then r\<lparr>Lo := Lo o'\<rparr> else r)
      in if bd_Set (Hi o') \<and> (\<not> bd_Set (Hi r1) \<or> tighterHi (Hi o') (Hi r1))
         then r1\<lparr>Hi := Hi o'\<rparr> else r1)"

text \<open>The guesses are doubles in the code; only their products with 1000 and sums with small
  integers are compared, all of which are exact integers there.\<close>

definition Selectivity :: "Range \<Rightarrow> rat" where
  "Selectivity r =
     (if IsPoint r then 1 / 1000
      else if bd_Set (Lo r) \<and> bd_Set (Hi r) then 5 / 100
      else if Bounded r then 3 / 10
      else 1)"

definition KeyBytes :: "Range \<Rightarrow> bytes \<Rightarrow> bytes option \<times> bytes option" where
  "KeyBytes r pfx =
     (let start = (if bd_Set (Lo r)
            then (let lo = Encode pfx (bd_Value (Lo r)) in
                  if bd_Inclusive (Lo r) then Some lo else PrefixEnd lo)
            else Some pfx);
          end = (if bd_Set (Hi r)
            then (let hi = Encode pfx (bd_Value (Hi r)) in
                  if bd_Inclusive (Hi r) then PrefixEnd hi else Some hi)
            else PrefixEnd pfx)
      in (start, end))"

section \<open>The interval a range stands for\<close>

definition above :: "Bound \<Rightarrow> Value \<Rightarrow> bool" where
  "above b v \<longleftrightarrow> (bd_Set b \<longrightarrow> Order (bd_Value b) v < 0 \<or> bd_Inclusive b \<and> Order (bd_Value b) v = 0)"

definition below :: "Bound \<Rightarrow> Value \<Rightarrow> bool" where
  "below b v \<longleftrightarrow> (bd_Set b \<longrightarrow> Order v (bd_Value b) < 0 \<or> bd_Inclusive b \<and> Order v (bd_Value b) = 0)"

definition in_interval :: "Range \<Rightarrow> Value \<Rightarrow> bool" where
  "in_interval r v \<longleftrightarrow> above (Lo r) v \<and> below (Hi r) v"

definition bound_ok :: "Bound \<Rightarrow> bool" where
  "bound_ok b \<longleftrightarrow> (bd_Set b \<longrightarrow> key_ok (bd_Value b))"

lemma tighterLo_rank:
  "tighterLo a b \<longleftrightarrow> v_rank (bd_Value b) < v_rank (bd_Value a)
     \<or> v_rank (bd_Value a) = v_rank (bd_Value b) \<and> \<not> bd_Inclusive a \<and> bd_Inclusive b"
  by (auto simp: tighterLo_def Order_rank)

lemma tighterHi_rank:
  "tighterHi a b \<longleftrightarrow> v_rank (bd_Value a) < v_rank (bd_Value b)
     \<or> v_rank (bd_Value a) = v_rank (bd_Value b) \<and> \<not> bd_Inclusive a \<and> bd_Inclusive b"
  by (auto simp: tighterHi_def Order_rank)

lemma above_rank: "above b v \<longleftrightarrow> (bd_Set b \<longrightarrow> v_rank (bd_Value b) < v_rank v
    \<or> bd_Inclusive b \<and> v_rank (bd_Value b) = v_rank v)"
  by (simp add: above_def Order_rank)

lemma below_rank: "below b v \<longleftrightarrow> (bd_Set b \<longrightarrow> v_rank v < v_rank (bd_Value b)
    \<or> bd_Inclusive b \<and> v_rank v = v_rank (bd_Value b))"
  by (simp add: below_def Order_rank)

lemma above_tighter:
  assumes "bd_Set a" and "bd_Set b"
  shows "above a v \<and> above b v \<longleftrightarrow> (if tighterLo a b then above a v else above b v)"
  using assms unfolding tighterLo_rank above_rank
  by (cases "v_rank (bd_Value a)" "v_rank (bd_Value b)" rule: linorder_cases) auto

lemma below_tighter:
  assumes "bd_Set a" and "bd_Set b"
  shows "below a v \<and> below b v \<longleftrightarrow> (if tighterHi a b then below a v else below b v)"
  using assms unfolding tighterHi_rank below_rank
  by (cases "v_rank (bd_Value a)" "v_rank (bd_Value b)" rule: linorder_cases) auto

lemma Intersect_Lo: "Lo (Intersect r o') = (if bd_Set (Lo o') \<and> (\<not> bd_Set (Lo r) \<or> tighterLo (Lo o') (Lo r))
    then Lo o' else Lo r)"
  and Intersect_Hi: "Hi (Intersect r o') = (if bd_Set (Hi o') \<and> (\<not> bd_Set (Hi r) \<or> tighterHi (Hi o') (Hi r))
    then Hi o' else Hi r)"
  by (auto simp: Intersect_def Let_def)

lemma above_unset [simp]: "\<not> bd_Set b \<Longrightarrow> above b v"
  and below_unset [simp]: "\<not> bd_Set b \<Longrightarrow> below b v"
  by (simp_all add: above_def below_def)

lemma above_Intersect: "above (Lo (Intersect r o')) v \<longleftrightarrow> above (Lo r) v \<and> above (Lo o') v"
  using above_tighter [of "Lo o'" "Lo r" v] unfolding Intersect_Lo
  by (cases "bd_Set (Lo o')"; cases "bd_Set (Lo r)") auto

lemma below_Intersect: "below (Hi (Intersect r o')) v \<longleftrightarrow> below (Hi r) v \<and> below (Hi o') v"
  using below_tighter [of "Hi o'" "Hi r" v] unfolding Intersect_Hi
  by (cases "bd_Set (Hi o')"; cases "bd_Set (Hi r)") auto

lemma in_interval_Intersect: "in_interval (Intersect r o') v \<longleftrightarrow> in_interval r v \<and> in_interval o' v"
  unfolding in_interval_def above_Intersect below_Intersect by blast

lemma in_interval_full [simp]: "in_interval full_range v"
  by (simp add: in_interval_def full_range_def no_bound_def above_def below_def)

section \<open>The bytes of a range\<close>

lemma PrefixEnd_Some_iff: "PrefixEnd p = Some e \<Longrightarrow> prefix p k \<longleftrightarrow> p \<le> k \<and> k < e"
  using in_range_PrefixEnd [of p k] by (simp add: in_range_def)

lemma PrefixEnd_append: "PrefixEnd p \<noteq> None \<Longrightarrow> PrefixEnd (p @ x) \<noteq> None"
  unfolding PrefixEnd_rec by (induction p) (auto split: option.splits)

lemma start_bound:
  assumes "key_ok v" and "key_ok w" and "PrefixEnd p \<noteq> None"
  shows "Encode p w \<le> p @ enc_value v @ x \<longleftrightarrow> Order w v \<le> 0"
    and "\<exists>e. PrefixEnd (Encode p w) = Some e \<and> (e \<le> p @ enc_value v @ x \<longleftrightarrow> Order w v < 0)"
proof -
  let ?k = "p @ enc_value v @ x"
  have E: "Encode p w = p @ enc_value w" by (rule Encode_append)
  have less: "?k < p @ enc_value w \<longleftrightarrow> Order v w < 0"
    using key_code.enc_less_append [OF assms(1,2), of x "[]"] by simp
  then show le: "Encode p w \<le> ?k \<longleftrightarrow> Order w v \<le> 0"
    unfolding E using Order_swap [of v w] by (simp add: not_less [symmetric])
  obtain e where e: "PrefixEnd (p @ enc_value w) = Some e"
    using PrefixEnd_append [OF assms(3)] by blast
  have pk: "prefix (p @ enc_value w) ?k \<longleftrightarrow> v = w"
  proof
    assume "prefix (p @ enc_value w) ?k"
    then obtain r where "enc_value v @ x = enc_value w @ r" by (auto simp: prefix_def)
    then show "v = w" using value_code.enc_append_inj by blast
  qed simp
  have "e \<le> ?k \<longleftrightarrow> Encode p w \<le> ?k \<and> v \<noteq> w"
  proof -
    have "p @ enc_value w < e" using PrefixEnd_Some_iff [OF e, of "p @ enc_value w"] by simp
    then have "e \<le> ?k \<Longrightarrow> p @ enc_value w \<le> ?k" by (meson less_imp_le order_trans)
    then show ?thesis using PrefixEnd_Some_iff [OF e, of ?k] pk unfolding E by auto
  qed
  then have "e \<le> ?k \<longleftrightarrow> Order w v < 0"
    using le key_code.cmp_eq_0 [OF assms(2,1)] by auto
  then show "\<exists>e. PrefixEnd (Encode p w) = Some e \<and> (e \<le> ?k \<longleftrightarrow> Order w v < 0)"
    using e by (simp only: E) blast
qed

lemma KeyBytes_interval:
  assumes "key_ok v" and "bound_ok (Lo r)" and "bound_ok (Hi r)" and "PrefixEnd p \<noteq> None"
    and "KeyBytes r p = (lo, hi)"
  shows "in_range lo hi (p @ enc_value v @ x) \<longleftrightarrow> in_interval r v"
proof -
  let ?k = "p @ enc_value v @ x"
  have start: "(case lo of None \<Rightarrow> True | Some s \<Rightarrow> s \<le> ?k) \<longleftrightarrow> above (Lo r) v"
  proof (cases "bd_Set (Lo r)")
    case True
    then have ok: "key_ok (bd_Value (Lo r))" using assms(2) by (simp add: bound_ok_def)
    show ?thesis
      using True assms(5) start_bound [OF assms(1) ok assms(4), of x]
      by (cases "bd_Inclusive (Lo r)") (auto simp: KeyBytes_def Let_def above_def)
  next
    case False
    then have "lo = Some p" using assms(5) by (simp add: KeyBytes_def Let_def)
    then show ?thesis using False prefix_le [of p ?k] by simp
  qed
  have stop: "(case hi of None \<Rightarrow> True | Some e \<Rightarrow> ?k < e) \<longleftrightarrow> below (Hi r) v"
  proof (cases "bd_Set (Hi r)")
    case True
    then have ok: "key_ok (bd_Value (Hi r))" using assms(3) by (simp add: bound_ok_def)
    show ?thesis
      using True assms(5) start_bound [OF assms(1) ok assms(4), of x] Order_swap [of "bd_Value (Hi r)" v]
      by (cases "bd_Inclusive (Hi r)") (auto simp: KeyBytes_def Let_def below_def not_le [symmetric])
  next
    case False
    then have "hi = PrefixEnd p" using assms(5) by (simp add: KeyBytes_def Let_def)
    then show ?thesis using False in_range_PrefixEnd [of p ?k] by (simp add: in_range_def)
  qed
  show ?thesis using start stop by (simp add: in_range_def in_interval_def)
qed

lemma KeyBytes_prefix:
  assumes "PrefixEnd p \<noteq> None" and "KeyBytes r p = (lo, hi)" and "in_range lo hi k"
  shows "prefix p k"
proof -
  obtain e where e: "PrefixEnd p = Some e" using assms(1) by blast
  have s: "\<exists>s. lo = Some s \<and> p \<le> s"
  proof (cases "bd_Set (Lo r) \<and> \<not> bd_Inclusive (Lo r)")
    case True
    obtain e' where e': "PrefixEnd (p @ enc_value (bd_Value (Lo r))) = Some e'"
      using PrefixEnd_append [OF assms(1)] by blast
    have "p @ enc_value (bd_Value (Lo r)) < e'"
      using PrefixEnd_Some_iff [OF e', of "p @ enc_value (bd_Value (Lo r))"] by simp
    then have "p \<le> e'" using prefix_le [of p "p @ enc_value (bd_Value (Lo r))"] by simp
    moreover have "lo = Some e'"
      using True assms(2) e' Encode_append [of p "bd_Value (Lo r)"] by (simp add: KeyBytes_def Let_def)
    ultimately show ?thesis by blast
  next
    case False
    then show ?thesis using assms(2) Encode_append [of p "bd_Value (Lo r)"]
      prefix_le [of p "p @ enc_value (bd_Value (Lo r))"]
      by (auto simp: KeyBytes_def Let_def split: if_splits)
  qed
  have h: "\<exists>h. hi = Some h \<and> h \<le> e"
  proof (cases "bd_Set (Hi r)")
    case True
    let ?q = "p @ enc_value (bd_Value (Hi r))"
    have q: "?q < e" using PrefixEnd_Some_iff [OF e, of ?q] by simp
    obtain e' where e': "PrefixEnd ?q = Some e'" using PrefixEnd_append [OF assms(1)] by blast
    have "e' \<le> e"
    proof (rule ccontr)
      assume "\<not> e' \<le> e"
      then have "prefix ?q e" using PrefixEnd_Some_iff [OF e', of e] q by (simp add: not_le)
      then have "prefix p e" using append_prefixD by blast
      then show False using PrefixEnd_Some_iff [OF e, of e] by simp
    qed
    then show ?thesis using True assms(2) e' q Encode_append [of p "bd_Value (Hi r)"]
      by (auto simp: KeyBytes_def Let_def split: if_splits)
  next
    case False
    then have "hi = Some e" using assms(2) e by (simp add: KeyBytes_def Let_def)
    then show ?thesis by blast
  qed
  show ?thesis using s h assms(3) PrefixEnd_Some_iff [OF e, of k] by (auto simp: in_range_def)
qed

lemma PrefixEnd_DataPrefix: "PrefixEnd (DataPrefix t) \<noteq> None"
  and PrefixEnd_IndexPrefix: "PrefixEnd (IndexPrefix t i) \<noteq> None"
  by (auto simp: PrefixEnd_rec DataPrefix_bytes IndexPrefix_bytes PrefixData_def PrefixIndex_def
      split: option.split)

section \<open>Properties\<close>

text \<open>C33: Combining ranges combines the conditions they stand for: a value is in the intersection
  exactly when it is in both; a range that \<open>Empty\<close> reports holds no value; a point range holds
  exactly the values \<open>Equal\<close> to its bound.\<close>

theorem range_algebra:
  "(in_interval (Intersect r q) v \<longleftrightarrow> in_interval r v \<and> in_interval q v)
   \<and> \<not> (Empty r \<and> in_interval r v)
   \<and> (IsPoint r \<and> in_interval r v \<longleftrightarrow> IsPoint r \<and> Equal (bd_Value (Lo r)) v)"
proof (intro conjI)
  show "in_interval (Intersect r q) v \<longleftrightarrow> in_interval r v \<and> in_interval q v"
    by (rule in_interval_Intersect)
  show "\<not> (Empty r \<and> in_interval r v)"
    unfolding Empty_def in_interval_def above_rank below_rank Order_rank
    by (auto simp: Let_def split: if_splits)
  show "IsPoint r \<and> in_interval r v \<longleftrightarrow> IsPoint r \<and> Equal (bd_Value (Lo r)) v"
    unfolding IsPoint_def in_interval_def above_rank below_rank Equal_rank
    by (auto split: if_splits)
qed

text \<open>A range scan visits exactly the keys whose value lies in the range: of the keys that
  share the scanned prefix, a key is inside the byte range of \<open>KeyBytes\<close> exactly when its value
  is in the interval, whatever follows the value (nothing in a row key, the primary key in an
  index key); and no key without the prefix is inside.\<close>

theorem KeyBytes_exact:
  assumes "key_ok v" and "bound_ok (Lo r)" and "bound_ok (Hi r)"
    and "KeyBytes r (DataPrefix t) = (lo, hi)" and "KeyBytes r (IndexPrefix t i) = (lo', hi')"
  shows "(in_range lo hi (RowKey t v) \<longleftrightarrow> in_interval r v)
    \<and> (in_range lo' hi' (IndexKey t i v pk) \<longleftrightarrow> in_interval r v)
    \<and> \<not> (in_range lo hi k \<and> \<not> prefix (DataPrefix t) k)
    \<and> \<not> (in_range lo' hi' k \<and> \<not> prefix (IndexPrefix t i) k)"
  using KeyBytes_interval [OF assms(1-3) PrefixEnd_DataPrefix assms(4), of "[]"]
    KeyBytes_interval [OF assms(1-3) PrefixEnd_IndexPrefix assms(5), of "enc_value pk"]
    KeyBytes_prefix [OF PrefixEnd_DataPrefix assms(4), of k]
    KeyBytes_prefix [OF PrefixEnd_IndexPrefix assms(5), of k]
  by (auto simp: RowKey_append IndexKey_append)

definition sample_range :: Range where
  "sample_range = \<lparr>Lo = \<lparr>bd_Value = VInt 3, bd_Inclusive = False, bd_Set = True\<rparr>,
     Hi = \<lparr>bd_Value = VInt 9, bd_Inclusive = True, bd_Set = True\<rparr>\<rparr>"

theorem KeyBytes_exact_witness:
  "case KeyBytes sample_range (DataPrefix 1) of (lo, hi) \<Rightarrow>
     in_range lo hi (RowKey 1 (VInt 9)) \<and> \<not> in_range lo hi (RowKey 1 (VInt 3))"
proof -
  obtain lo hi lo' hi' where K: "KeyBytes sample_range (DataPrefix 1) = (lo, hi)"
    "KeyBytes sample_range (IndexPrefix 1 1) = (lo', hi')" by fastforce
  have ok: "bound_ok (Lo sample_range)" "bound_ok (Hi sample_range)"
    by (simp_all add: bound_ok_def sample_range_def key_ok_def)
  have "in_interval sample_range (VInt 9)" "\<not> in_interval sample_range (VInt 3)"
    by (simp_all add: in_interval_def above_def below_def sample_range_def cmp3_def)
  then show ?thesis
    using KeyBytes_exact [OF _ ok K, of "VInt 9"] KeyBytes_exact [OF _ ok K, of "VInt 3"] K
    by (simp add: key_ok_def)
qed

text \<open>A range with only an upper bound also visits the NULL entries of an index, although
  the predicate it stands for is not TRUE on NULL: for \<open>k < 5\<close> the entry of a row whose \<open>k\<close> is
  NULL is inside the scanned bytes, and \<open>NULL < 5\<close> is UNKNOWN.\<close>

theorem upper_bound_scan_visits_NULL:
  assumes "KeyBytes \<lparr>Lo = no_bound, Hi = \<lparr>bd_Value = VInt n, bd_Inclusive = inc, bd_Set = True\<rparr>\<rparr>
      (IndexPrefix t i) = (lo, hi)"
  shows "in_range lo hi (IndexKey t i VNull pk)
    \<and> CompareOp (if inc then ''<='' else ''<'') VNull (VInt n) = Inr B3Unknown"
proof -
  let ?r = "\<lparr>Lo = no_bound, Hi = \<lparr>bd_Value = VInt n, bd_Inclusive = inc, bd_Set = True\<rparr>\<rparr>"
  have "bound_ok (Lo ?r)" "bound_ok (Hi ?r)" "key_ok VNull"
    by (simp_all add: bound_ok_def no_bound_def key_ok_def)
  moreover have "in_interval ?r VNull"
    by (simp add: in_interval_def no_bound_def below_def Order_kinds cmp3_def less_Kind_def)
  ultimately have "in_range lo hi (IndexPrefix t i @ enc_value VNull @ enc_value pk)"
    using KeyBytes_interval [OF _ _ _ PrefixEnd_IndexPrefix assms] by blast
  then show ?thesis by (simp add: IndexKey_append CompareOp_def)
qed

theorem upper_bound_scan_visits_NULL_witness:
  "case KeyBytes \<lparr>Lo = no_bound, Hi = \<lparr>bd_Value = VInt 5, bd_Inclusive = False, bd_Set = True\<rparr>\<rparr>
      (IndexPrefix 1 1) of (lo, hi) \<Rightarrow> in_range lo hi (IndexKey 1 1 VNull (VInt 7))"
  using upper_bound_scan_visits_NULL [of 5 False 1 1] by fastforce

end
