(* ===== verification/Plans.thy ===== *)
theory Plans
  imports Range
begin

text \<open>
  Physical plans, \<open>src/plan/plan.go\<close>: the environments that bind names and expressions to row
  positions, the plan nodes, the one-line description of each, and EXPLAIN's rendering of the
  tree.  A Go map is an association list with distinct keys.
\<close>

section \<open>Environments\<close>

record Env =
  env_Columns :: "(string \<times> int) list"
  env_Exprs :: "(string \<times> int) list"

definition NewEnv :: Env where
  "NewEnv = \<lparr>env_Columns = [], env_Exprs = []\<rparr>"

fun table_env_loop :: "int \<Rightarrow> Column list \<Rightarrow> Env \<Rightarrow> Env" where
  "table_env_loop i [] env = env"
| "table_env_loop i (c # cs) env =
     table_env_loop (i + 1) cs (env\<lparr>env_Columns := AList.update (c_Name c) i (env_Columns env)\<rparr>)"

definition TableEnv :: "Table \<Rightarrow> Env" where
  "TableEnv t = table_env_loop 0 (t_Columns t) NewEnv"

section \<open>Nodes\<close>

record SortKey =
  sk_Expr :: Expr
  sk_Desc :: bool

definition SortKey_String :: "SortKey \<Rightarrow> string" where
  "SortKey_String k = (if sk_Desc k then Expr_String (sk_Expr k) @ '' DESC''
     else Expr_String (sk_Expr k) @ '' ASC'')"

record AggCall =
  ac_Func :: string
  ac_Arg :: "Expr option"
  ac_Text :: string

record Assignment =
  as_Column :: int
  as_Name :: string
  as_Value :: Expr

text \<open>A mask that is nil is \<open>None\<close>; the planner never builds one.\<close>

type_synonym mask = "bool list option"

datatype Plan =
    PSeqScan Table mask
  | PRangeScan Table Range mask
  | PIndexScan Table Index Range mask
  | PFilter Plan Expr Env
  | PProject Plan "Expr list" "string list" Env
  | PAggregate Plan "Expr list" "AggCall list" Env Env
  | PSort Plan "SortKey list" int64 Env
  | PLimit Plan int64 int64
  | PDistinct Plan
  | PInsert Table "Expr list list" "int list"
  | PUpdate Table Plan "Assignment list" Env
  | PDelete Table Plan
  | PCreateTable Table bool
  | PDropTable string bool
  | PCreateIndex Table string int bool
  | PDropIndex string bool
  | PTransaction string

section \<open>Descriptions\<close>

definition maskNames :: "Table \<Rightarrow> mask \<Rightarrow> string" where
  "maskNames t mk =
     ''['' @ Join '', '' (map snd (filter
        (\<lambda>(i, name). case mk of None \<Rightarrow> True | Some m \<Rightarrow> m ! i)
        (zip [0..<length (t_Columns t)] (ColumnNames t)))) @ '']''"

definition project_part :: "Expr \<Rightarrow> string \<Rightarrow> string" where
  "project_part e name =
     (let s = Expr_String e in if name \<noteq> s then s @ '' AS '' @ name else s)"

fun Line :: "Plan \<Rightarrow> string" where
  "Line (PSeqScan t m) = ''SeqScan table='' @ t_Name t @ '' columns='' @ maskNames t m"
| "Line (PRangeScan t r m) =
     ''RangeScan table='' @ t_Name t @ '' pk='' @ c_Name (PKColumn t) @ '' range='' @ Range_String r @
     '' columns='' @ maskNames t m"
| "Line (PIndexScan t ix r m) =
     ''IndexScan table='' @ t_Name t @ '' index='' @ i_Name ix @ '' on='' @ i_Column ix @ '' range='' @
     Range_String r @ '' columns='' @ maskNames t m"
| "Line (PFilter p e env) = ''Filter predicate='' @ Expr_String e"
| "Line (PProject p es names env) =
     ''Project columns=['' @ Join '', '' (map (\<lambda>(e, n). project_part e n) (zip es names)) @ '']''"
| "Line (PAggregate p gs calls env out) =
     ''HashAggregate group='' @
     (if gs \<noteq> [] then ''['' @ Join '', '' (map Expr_String gs) @ '']'' else ''none'') @
     '' aggregates=['' @ Join '', '' (map ac_Text calls) @ '']''"
| "Line (PSort p keys n env) =
     ''Sort keys=['' @ Join '', '' (map SortKey_String keys) @
     (if 0 \<le>s n then ''] mode=top-'' @ FormatInt n else ''] mode=full'')"
| "Line (PLimit p n offset) =
     ''Limit count='' @ (if 0 \<le>s n then FormatInt n else ''all'') @ '' offset='' @ FormatInt offset"
| "Line (PDistinct p) = ''Distinct''"
| "Line (PInsert t rows cols) = ''Insert table='' @ t_Name t @ '' rows='' @ nat_dec (length rows)"
| "Line (PUpdate t p sets env) =
     ''Update table='' @ t_Name t @ '' set=['' @
     Join '', '' (map (\<lambda>a. as_Name a @ '' = '' @ Expr_String (as_Value a)) sets) @ '']''"
| "Line (PDelete t p) = ''Delete table='' @ t_Name t"
| "Line (PCreateTable def ine) = ''CreateTable table='' @ t_Name def"
| "Line (PDropTable name ie) = ''DropTable table='' @ name"
| "Line (PCreateIndex t name col ine) =
     ''CreateIndex index='' @ name @ '' table='' @ t_Name t @ '' on='' @ c_Name (t_Columns t ! nat col)"
| "Line (PDropIndex name ie) = ''DropIndex index='' @ name"
| "Line (PTransaction op) = op"

fun Children :: "Plan \<Rightarrow> Plan list" where
  "Children (PFilter p _ _) = [p]"
| "Children (PProject p _ _ _) = [p]"
| "Children (PAggregate p _ _ _ _) = [p]"
| "Children (PSort p _ _ _) = [p]"
| "Children (PLimit p _ _) = [p]"
| "Children (PDistinct p) = [p]"
| "Children (PUpdate _ p _ _) = [p]"
| "Children (PDelete _ p) = [p]"
| "Children _ = []"

lemma Children_size: "c \<in> set (Children p) \<Longrightarrow> size c < size p"
  by (cases p) auto

function explainInto :: "Plan \<Rightarrow> nat \<Rightarrow> string" where
  "explainInto p depth =
     (if depth = 0 then Line p
      else concat (replicate depth ''  '') @ ''-> '' @ Line p) @ newline @
     concat (map (\<lambda>child. explainInto child (depth + 1)) (Children p))"
  by auto
termination by (relation "measure (\<lambda>(p, _). size p)") (auto dest: Children_size)

declare explainInto.simps [simp del]

text \<open>\<open>strings.TrimRight(s, "\n")\<close>.\<close>

definition trim_newlines :: "string \<Rightarrow> string" where
  "trim_newlines s = rev (dropWhile (\<lambda>c. c = CHR 0x0A) (rev s))"

definition Explain :: "Plan \<Rightarrow> string" where
  "Explain p = trim_newlines (explainInto p 0)"

fun ScanTable :: "Plan \<Rightarrow> Table option" where
  "ScanTable (PSeqScan t _) = Some t"
| "ScanTable (PRangeScan t _ _) = Some t"
| "ScanTable (PIndexScan t _ _ _) = Some t"
| "ScanTable _ = None"

section \<open>Facts about environments\<close>

lemma table_env_columns:
  assumes "distinct (map c_Name cs)"
  shows "map_of (env_Columns (table_env_loop i cs env)) n =
     (case column_index_from i cs n of None \<Rightarrow> map_of (env_Columns env) n | Some p \<Rightarrow> Some p)"
  using assms
proof (induction cs arbitrary: i env)
  case (Cons c cs)
  have none: "column_index_from j cs (c_Name c) = None" for j
    using Cons.prems by (induction cs arbitrary: j) auto
  show ?case using Cons none by (auto simp: update_conv' split: option.split)
qed simp

lemma table_env_exprs [simp]: "env_Exprs (table_env_loop i cs env) = env_Exprs env"
  by (induction i cs env rule: table_env_loop.induct) simp_all

lemma TableEnv_Columns:
  "distinct (map c_Name (t_Columns t)) \<Longrightarrow> map_of (env_Columns (TableEnv t)) n = ColumnIndex t n"
  by (simp add: TableEnv_def table_env_columns ColumnIndex_def NewEnv_def split: option.split)

lemma TableEnv_Exprs [simp]: "env_Exprs (TableEnv t) = []"
  by (simp add: TableEnv_def NewEnv_def)

lemma column_index_from_Some:
  "column_index_from i cs n = Some p \<Longrightarrow> i \<le> p \<and> nat (p - i) < length cs \<and> c_Name (cs ! nat (p - i)) = n"
proof (induction i cs n rule: column_index_from.induct)
  case (2 i c cs n)
  show ?case
  proof (cases "c_Name c = n")
    case False
    then have "i + 1 \<le> p \<and> nat (p - (i + 1)) < length cs \<and> c_Name (cs ! nat (p - (i + 1))) = n"
      using 2 by simp
    moreover from this have "i + 1 \<le> p" by simp
    then have "nat (p - i) = Suc (nat (p - (i + 1)))" by arith
    ultimately show ?thesis by simp
  qed (use 2 in auto)
qed simp

lemma ColumnIndex_Some:
  assumes "ColumnIndex t n = Some p"
  shows "0 \<le> p" and "nat p < length (t_Columns t)" and "c_Name (t_Columns t ! nat p) = n"
  using column_index_from_Some [of 0 "t_Columns t" n p] assms by (simp_all add: ColumnIndex_def)

end
