(* ===== verification/Eval.thy ===== *)
theory Eval
  imports Plans Logic3
begin

text \<open>
  Expression evaluation, \<open>src/exec/eval.go\<close>: \<open>Eval\<close> computes a value, \<open>EvalPredicate\<close> a
  three-valued condition.  The two call each other on the same node (a comparison used as a
  value is evaluated as a condition, and anything that is not a condition form is evaluated as a
  value), which is why their termination needs a measure.
\<close>

section \<open>Errors\<close>

text \<open>One constructor per error the executor creates, and one per package whose errors it
  passes on.\<close>

datatype exec_error =
    NoColumnsInScope
  | ColumnNotAvailable string
  | RowTooShort nat int
  | AggregateNotAllowed string
  | StarNotAllowed
  | UnknownUnaryOperator string
  | UnknownOperator string
  | ExType types_error
  | ExCodec codec_error
  | ExTableCodec string codec_error
  | ExStore store_error
  | DanglingIndexEntry string Value
  | NotAQueryOperator
  | NotDML
  | UnknownAggregate string
  | WrongArity nat string nat
  | CannotCoerce string string types_error
  | ErrNullKey string string
  | ErrNotNull string string
  | ErrDuplicateKey string string Value

type_synonym Row = "Value list"

fun lift_types :: "types_error + 'a \<Rightarrow> exec_error + 'a" where
  "lift_types (Inl e) = Inl (ExType e)"
| "lift_types (Inr v) = Inr v"

section \<open>Evaluation\<close>

definition row_at :: "Row \<Rightarrow> int \<Rightarrow> exec_error + Value" where
  "row_at row pos =
     (if pos < 0 \<or> pos \<ge> int (length row) then Inl (RowTooShort (length row) pos)
      else Inr (row ! nat pos))"

definition is_comparison :: "string \<Rightarrow> bool" where
  "is_comparison op \<longleftrightarrow> op \<in> {''='', ''=='', ''!='', ''<>'', ''<'', ''<='', ''>'', ''>=''}"

text \<open>The forms \<open>EvalPredicate\<close> handles itself.\<close>

fun predicate_form :: "Expr \<Rightarrow> bool" where
  "predicate_form (EBinary op _ _) \<longleftrightarrow> op = ''AND'' \<or> op = ''OR'' \<or> is_comparison op"
| "predicate_form (EUnary op _) \<longleftrightarrow> op = ''NOT''"
| "predicate_form (EIsNull _ _) = True"
| "predicate_form (EBetween _ _ _ _) = True"
| "predicate_form (EIn _ _ _) = True"
| "predicate_form (ELike _ _ _) = True"
| "predicate_form _ = False"

text \<open>The binding of the whole expression in \<open>env.Exprs\<close>, looked up before anything else.\<close>

definition env_binding :: "Env option \<Rightarrow> Expr \<Rightarrow> int option" where
  "env_binding env e =
     (case env of
        None \<Rightarrow> None
      | Some en \<Rightarrow>
          if length (env_Exprs en) > 0 then map_of (env_Exprs en) (Expr_String e) else None)"

definition negate_if :: "bool \<Rightarrow> Bool3 \<Rightarrow> Bool3" where
  "negate_if n t = (if n then B3Not t else t)"

definition arith :: "string \<Rightarrow> Value \<Rightarrow> Value \<Rightarrow> exec_error + Value" where
  "arith op left right =
     (if op = ''+'' then lift_types (Add left right)
      else if op = ''-'' then lift_types (Sub left right)
      else if op = ''*'' then lift_types (Mul left right)
      else if op = ''/'' then lift_types (Div left right)
      else if op = ''%'' then lift_types (Mod left right)
      else Inl (UnknownOperator op))"

definition eval_column :: "Env option \<Rightarrow> Row \<Rightarrow> string \<Rightarrow> exec_error + Value" where
  "eval_column env row name =
     (case env of
        None \<Rightarrow> Inl NoColumnsInScope
      | Some en \<Rightarrow>
          (case map_of (env_Columns en) name of
             None \<Rightarrow> Inl (ColumnNotAvailable name)
           | Some pos \<Rightarrow> row_at row pos))"

definition eval_unary :: "string \<Rightarrow> Value \<Rightarrow> exec_error + Value" where
  "eval_unary op v =
     (if op = ''NOT'' then
        (case Truth v of Inl e \<Rightarrow> Inl (ExType e) | Inr t \<Rightarrow> Inr (B3Value (B3Not t)))
      else if op = ''-'' then lift_types (Neg v)
      else if op = ''+'' then Inr v
      else Inl (UnknownUnaryOperator op))"

function Eval :: "Expr \<Rightarrow> Env option \<Rightarrow> Row \<Rightarrow> exec_error + Value"
  and EvalPredicate :: "Expr \<Rightarrow> Env option \<Rightarrow> Row \<Rightarrow> exec_error + Bool3"
  and eval_in :: "Value \<Rightarrow> Expr list \<Rightarrow> Env option \<Rightarrow> Row \<Rightarrow> Bool3 \<Rightarrow> exec_error + Bool3"
where
  "Eval e env row =
     (case env_binding env e of
        Some pos \<Rightarrow> row_at row pos
      | None \<Rightarrow>
          (case e of
             ELiteral v \<Rightarrow> Inr v
           | EColumn t name \<Rightarrow> eval_column env row name
           | EUnary op a \<Rightarrow>
               (case Eval a env row of Inl err \<Rightarrow> Inl err | Inr v \<Rightarrow> eval_unary op v)
           | EBinary op l r \<Rightarrow>
               if op = ''AND'' \<or> op = ''OR'' \<or> is_comparison op then
                 (case EvalPredicate e env row of Inl err \<Rightarrow> Inl err | Inr t \<Rightarrow> Inr (B3Value t))
               else
                 (case Eval l env row of
                    Inl err \<Rightarrow> Inl err
                  | Inr left \<Rightarrow>
                      (case Eval r env row of
                         Inl err \<Rightarrow> Inl err
                       | Inr right \<Rightarrow> arith op left right))
           | EFuncCall name arg star \<Rightarrow> Inl (AggregateNotAllowed (Expr_String e))
           | EStar \<Rightarrow> Inl StarNotAllowed
           | _ \<Rightarrow>
               (case EvalPredicate e env row of Inl err \<Rightarrow> Inl err | Inr t \<Rightarrow> Inr (B3Value t))))"
| "EvalPredicate e env row =
     (if \<not> predicate_form e then
        (case Eval e env row of Inl err \<Rightarrow> Inl err | Inr v \<Rightarrow> lift_types (Truth v))
      else case e of
        EBinary op l r \<Rightarrow>
          if op = ''AND'' then
            (case EvalPredicate l env row of
               Inl err \<Rightarrow> Inl err
             | Inr left \<Rightarrow>
                 if left = B3False then Inr B3False
                 else (case EvalPredicate r env row of
                         Inl err \<Rightarrow> Inl err
                       | Inr right \<Rightarrow> Inr (B3And left right)))
          else if op = ''OR'' then
            (case EvalPredicate l env row of
               Inl err \<Rightarrow> Inl err
             | Inr left \<Rightarrow>
                 if left = B3True then Inr B3True
                 else (case EvalPredicate r env row of
                         Inl err \<Rightarrow> Inl err
                       | Inr right \<Rightarrow> Inr (B3Or left right)))
          else
            (case Eval l env row of
               Inl err \<Rightarrow> Inl err
             | Inr left \<Rightarrow>
                 (case Eval r env row of
                    Inl err \<Rightarrow> Inl err
                  | Inr right \<Rightarrow> lift_types (CompareOp op left right)))
      | EUnary op a \<Rightarrow>
          (case EvalPredicate a env row of Inl err \<Rightarrow> Inl err | Inr t \<Rightarrow> Inr (B3Not t))
      | EIsNull a n \<Rightarrow>
          (case Eval a env row of Inl err \<Rightarrow> Inl err | Inr v \<Rightarrow> Inr (B3 (IsNull v \<noteq> n)))
      | EBetween a lo hi n \<Rightarrow>
          (case Eval a env row of
             Inl err \<Rightarrow> Inl err
           | Inr v \<Rightarrow>
               (case Eval lo env row of
                  Inl err \<Rightarrow> Inl err
                | Inr l \<Rightarrow>
                    (case Eval hi env row of
                       Inl err \<Rightarrow> Inl err
                     | Inr h \<Rightarrow>
                         (case CompareOp ''>='' v l of
                            Inl err \<Rightarrow> Inl (ExType err)
                          | Inr ge \<Rightarrow>
                              (case CompareOp ''<='' v h of
                                 Inl err \<Rightarrow> Inl (ExType err)
                               | Inr le \<Rightarrow> Inr (negate_if n (B3And ge le)))))))
      | EIn a items n \<Rightarrow>
          (case Eval a env row of
             Inl err \<Rightarrow> Inl err
           | Inr v \<Rightarrow>
               (case eval_in v items env row B3False of
                  Inl err \<Rightarrow> Inl err
                | Inr out \<Rightarrow> Inr (negate_if n out)))
      | ELike a p n \<Rightarrow>
          (case Eval a env row of
             Inl err \<Rightarrow> Inl err
           | Inr v \<Rightarrow>
               (case Eval p env row of
                  Inl err \<Rightarrow> Inl err
                | Inr pattern \<Rightarrow>
                    (case LikeValue v pattern of
                       Inl err \<Rightarrow> Inl (ExType err)
                     | Inr out \<Rightarrow> Inr (negate_if n out))))
      | _ \<Rightarrow> Inr B3Unknown)"
| "eval_in v [] env row out = Inr out"
| "eval_in v (item # items) env row out =
     (case Eval item env row of
        Inl err \<Rightarrow> Inl err
      | Inr candidate \<Rightarrow>
          (case CompareOp ''='' v candidate of
             Inl err \<Rightarrow> Inl (ExType err)
           | Inr eq \<Rightarrow>
               (let out' = B3Or out eq in
                if out' = B3True then Inr out' else eval_in v items env row out')))"
  by pat_completeness auto
termination
  by (relation "measure (\<lambda>x. case x of
        Inl (e, _, _) \<Rightarrow> 2 * size e + (if predicate_form e then 1 else 0)
      | Inr (Inl (e, _, _)) \<Rightarrow> 2 * size e + (if predicate_form e then 0 else 1)
      | Inr (Inr (_, items, _, _, _)) \<Rightarrow> 2 * size_list size items)") auto

declare Eval.simps [simp del] EvalPredicate.simps [simp del]


section \<open>One equation per construct\<close>

text \<open>Below any aggregation no environment binds whole expressions.\<close>

definition plain_env :: "Env option \<Rightarrow> bool" where
  "plain_env env \<longleftrightarrow> (case env of None \<Rightarrow> True | Some en \<Rightarrow> env_Exprs en = [])"

lemma plain_env_binding [simp]: "plain_env env \<Longrightarrow> env_binding env e = None"
  by (simp add: plain_env_def env_binding_def split: option.splits)

lemma plain_env_simps [simp]:
  "plain_env None" "plain_env (Some (TableEnv t))" "plain_env (Some NewEnv)"
  by (simp_all add: plain_env_def NewEnv_def)

text \<open>The condition forms whose value is their truth value read back.\<close>

fun value_of_condition :: "Expr \<Rightarrow> bool" where
  "value_of_condition (EUnary _ _) = False"
| "value_of_condition e = predicate_form e"

lemma Eval_condition:
  "plain_env env \<Longrightarrow> value_of_condition e \<Longrightarrow>
     Eval e env row = (case EvalPredicate e env row of Inl err \<Rightarrow> Inl err | Inr t \<Rightarrow> Inr (B3Value t))"
  by (cases e) (subst Eval.simps, simp)+

lemma Eval_ELiteral [simp]: "plain_env env \<Longrightarrow> Eval (ELiteral v) env row = Inr v"
  by (subst Eval.simps) simp

lemma Eval_EColumn [simp]: "plain_env env \<Longrightarrow> Eval (EColumn t name) env row = eval_column env row name"
  by (subst Eval.simps) simp

lemma Eval_EUnary:
  "plain_env env \<Longrightarrow> Eval (EUnary op a) env row =
     (case Eval a env row of Inl err \<Rightarrow> Inl err | Inr v \<Rightarrow> eval_unary op v)"
  by (subst Eval.simps) simp

lemma Eval_arith:
  "plain_env env \<Longrightarrow> \<not> predicate_form (EBinary op l r) \<Longrightarrow> Eval (EBinary op l r) env row =
     (case Eval l env row of Inl err \<Rightarrow> Inl err
      | Inr left \<Rightarrow> (case Eval r env row of Inl err \<Rightarrow> Inl err | Inr right \<Rightarrow> arith op left right))"
  by (subst Eval.simps) simp

lemma EvalPredicate_value:
  "\<not> predicate_form e \<Longrightarrow> EvalPredicate e env row =
     (case Eval e env row of Inl err \<Rightarrow> Inl err | Inr v \<Rightarrow> lift_types (Truth v))"
  by (subst EvalPredicate.simps) simp

lemma EvalPredicate_AND:
  "EvalPredicate (EBinary ''AND'' l r) env row =
     (case EvalPredicate l env row of
        Inl err \<Rightarrow> Inl err
      | Inr left \<Rightarrow>
          if left = B3False then Inr B3False
          else (case EvalPredicate r env row of Inl err \<Rightarrow> Inl err | Inr right \<Rightarrow> Inr (B3And left right)))"
  by (subst EvalPredicate.simps) simp

lemma EvalPredicate_OR:
  "EvalPredicate (EBinary ''OR'' l r) env row =
     (case EvalPredicate l env row of
        Inl err \<Rightarrow> Inl err
      | Inr left \<Rightarrow>
          if left = B3True then Inr B3True
          else (case EvalPredicate r env row of Inl err \<Rightarrow> Inl err | Inr right \<Rightarrow> Inr (B3Or left right)))"
  by (subst EvalPredicate.simps) simp

lemma EvalPredicate_comparison:
  "is_comparison op \<Longrightarrow> EvalPredicate (EBinary op l r) env row =
     (case Eval l env row of
        Inl err \<Rightarrow> Inl err
      | Inr left \<Rightarrow>
          (case Eval r env row of Inl err \<Rightarrow> Inl err | Inr right \<Rightarrow> lift_types (CompareOp op left right)))"
  by (subst EvalPredicate.simps) (auto simp: is_comparison_def)

lemma EvalPredicate_NOT:
  "EvalPredicate (EUnary ''NOT'' a) env row =
     (case EvalPredicate a env row of Inl err \<Rightarrow> Inl err | Inr t \<Rightarrow> Inr (B3Not t))"
  by (subst EvalPredicate.simps) simp

lemma EvalPredicate_EIsNull:
  "EvalPredicate (EIsNull a n) env row =
     (case Eval a env row of Inl err \<Rightarrow> Inl err | Inr v \<Rightarrow> Inr (B3 (IsNull v \<noteq> n)))"
  by (subst EvalPredicate.simps) simp

lemma EvalPredicate_EIn:
  "EvalPredicate (EIn a items n) env row =
     (case Eval a env row of
        Inl err \<Rightarrow> Inl err
      | Inr v \<Rightarrow>
          (case eval_in v items env row B3False of Inl err \<Rightarrow> Inl err | Inr out \<Rightarrow> Inr (negate_if n out)))"
  by (subst EvalPredicate.simps) simp

lemma EvalPredicate_ELike:
  "EvalPredicate (ELike a p n) env row =
     (case Eval a env row of
        Inl err \<Rightarrow> Inl err
      | Inr v \<Rightarrow>
          (case Eval p env row of
             Inl err \<Rightarrow> Inl err
           | Inr pattern \<Rightarrow>
               (case LikeValue v pattern of
                  Inl err \<Rightarrow> Inl (ExType err)
                | Inr out \<Rightarrow> Inr (negate_if n out))))"
  by (subst EvalPredicate.simps) simp

lemma EvalPredicate_EBetween:
  "EvalPredicate (EBetween a lo hi n) env row =
     (case Eval a env row of
        Inl err \<Rightarrow> Inl err
      | Inr v \<Rightarrow>
          (case Eval lo env row of
             Inl err \<Rightarrow> Inl err
           | Inr l \<Rightarrow>
               (case Eval hi env row of
                  Inl err \<Rightarrow> Inl err
                | Inr h \<Rightarrow>
                    (case CompareOp ''>='' v l of
                       Inl err \<Rightarrow> Inl (ExType err)
                     | Inr ge \<Rightarrow>
                         (case CompareOp ''<='' v h of
                            Inl err \<Rightarrow> Inl (ExType err)
                          | Inr le \<Rightarrow> Inr (negate_if n (B3And ge le)))))))"
  by (subst EvalPredicate.simps) simp

lemmas EvalPredicate_eqs = EvalPredicate_AND EvalPredicate_OR EvalPredicate_comparison EvalPredicate_NOT
  EvalPredicate_EIsNull EvalPredicate_EIn EvalPredicate_ELike EvalPredicate_EBetween

text \<open>The forms of a condition, as a case rule.\<close>

lemma condition_cases:
  obtains (scalar) "\<not> predicate_form e"
  | (conj) l r where "e = EBinary ''AND'' l r"
  | (disj) l r where "e = EBinary ''OR'' l r"
  | (comparison) op l r where "e = EBinary op l r" "is_comparison op"
  | (neg) a where "e = EUnary ''NOT'' a"
  | (is_null) a n where "e = EIsNull a n"
  | (between) a lo hi n where "e = EBetween a lo hi n"
  | (in_list) a items n where "e = EIn a items n"
  | (like) a p n where "e = ELike a p n"
  by (cases e) auto

section \<open>Conditions are three-valued\<close>

lemma is_bool3_negate_if [simp]: "is_bool3 t \<Longrightarrow> is_bool3 (negate_if n t)"
  by (simp add: negate_if_def)

lemma lift_types_Inr [simp]: "lift_types r = Inr v \<longleftrightarrow> r = Inr v"
  by (cases r) simp_all

lemma lift_types_Inl [simp]: "lift_types r = Inl e \<longleftrightarrow> (\<exists>x. r = Inl x \<and> e = ExType x)"
  by (cases r) auto

lemma eval_in_is_bool3: "eval_in v items env row out = Inr t \<Longrightarrow> is_bool3 out \<Longrightarrow> is_bool3 t"
proof (induction items arbitrary: out)
  case (Cons item items)
  then obtain candidate eq where "Eval item env row = Inr candidate" "CompareOp ''='' v candidate = Inr eq"
    by (auto split: sum.splits)
  moreover from this have "is_bool3 (B3Or out eq)" using Cons.prems CompareOp_is_bool3 by simp
  ultimately show ?case using Cons by (auto simp: Let_def split: if_splits)
qed simp

lemma EvalPredicate_bool3: "EvalPredicate e env row = Inr t \<Longrightarrow> is_bool3 t"
proof (induction e arbitrary: t rule: measure_induct_rule [of size])
  case (less e)
  show ?case
  proof (cases e rule: condition_cases)
    case scalar
    then show ?thesis using less.prems
      by (auto simp: EvalPredicate_value split: sum.splits dest: Truth_is_bool3)
  next
    case (conj l r)
    then show ?thesis using less.prems less.IH [of l] less.IH [of r]
      by (auto simp: EvalPredicate_AND split: sum.splits if_splits)
  next
    case (disj l r)
    then show ?thesis using less.prems less.IH [of l] less.IH [of r]
      by (auto simp: EvalPredicate_OR split: sum.splits if_splits)
  next
    case (comparison op l r)
    then show ?thesis using less.prems
      by (auto simp: EvalPredicate_comparison split: sum.splits dest: CompareOp_is_bool3)
  next
    case (neg a)
    then show ?thesis using less.prems less.IH [of a]
      by (auto simp: EvalPredicate_NOT split: sum.splits)
  next
    case (is_null a n)
    then show ?thesis using less.prems by (auto simp: EvalPredicate_EIsNull split: sum.splits)
  next
    case (between a lo hi n)
    then show ?thesis using less.prems
      by (auto simp: EvalPredicate_EBetween split: sum.splits
          intro!: is_bool3_negate_if is_bool3_ops dest: CompareOp_is_bool3)
  next
    case (in_list a items n)
    then show ?thesis using less.prems
      by (auto simp: EvalPredicate_EIn split: sum.splits dest: eval_in_is_bool3)
  next
    case (like a p n)
    then show ?thesis using less.prems
      by (auto simp: EvalPredicate_ELike split: sum.splits dest: LikeValue_is_bool3)
  qed
qed

section \<open>The two evaluators agree\<close>

lemma Eval_Truth_form:
  assumes "plain_env env" and "value_of_condition e \<or> \<not> predicate_form e"
  shows "EvalPredicate e env row =
    (case Eval e env row of Inl err \<Rightarrow> Inl err | Inr v \<Rightarrow> lift_types (Truth v))"
proof (cases "predicate_form e")
  case True
  then have "Eval e env row =
      (case EvalPredicate e env row of Inl err \<Rightarrow> Inl err | Inr t \<Rightarrow> Inr (B3Value t))"
    using assms by (simp add: Eval_condition)
  then show ?thesis
    by (cases "EvalPredicate e env row") (simp_all add: EvalPredicate_bool3)
qed (simp add: EvalPredicate_value)

lemma Eval_Truth:
  assumes "plain_env env"
  shows "EvalPredicate e env row =
    (case Eval e env row of Inl err \<Rightarrow> Inl err | Inr v \<Rightarrow> lift_types (Truth v))"
proof (induction e)
  case (EUnary op a)
  show ?case
  proof (cases "op = ''NOT''")
    case True
    then show ?thesis using assms EUnary
      by (auto simp: EvalPredicate_NOT Eval_EUnary eval_unary_def split: sum.splits
          dest: Truth_is_bool3)
  qed (simp add: EvalPredicate_value)
next
  case (EBinary op l r)
  show ?case by (rule Eval_Truth_form) (simp_all add: assms, blast)
qed (rule Eval_Truth_form; simp add: assms)+

section \<open>Only the columns read matter\<close>

text \<open>Evaluation consults a row at the positions of the columns the expression mentions and
  nowhere else: what makes it sound to leave the other columns undecoded.\<close>

definition same_columns :: "Env option \<Rightarrow> Expr \<Rightarrow> Row \<Rightarrow> Row \<Rightarrow> bool" where
  "same_columns env e row row' \<longleftrightarrow>
     (\<forall>name \<in> set (Columns e). eval_column env row name = eval_column env row' name)"

lemma Columns_simps [simp]:
  "set (Columns (EColumn t name)) = {name}"
  "set (Columns (EUnary op a)) = set (Columns a)"
  "set (Columns (EBinary op l r)) = set (Columns l) \<union> set (Columns r)"
  "set (Columns (EIsNull a n)) = set (Columns a)"
  "set (Columns (EBetween a lo hi n)) = set (Columns a) \<union> set (Columns lo) \<union> set (Columns hi)"
  "set (Columns (EIn a items n)) = set (Columns a) \<union> (\<Union>i \<in> set items. set (Columns i))"
  "set (Columns (ELike a p n)) = set (Columns a) \<union> set (Columns p)"
  by (auto simp: Columns_iff bex_Un)

lemma same_columns_simps [simp]:
  "same_columns env (EUnary op a) row row' \<longleftrightarrow> same_columns env a row row'"
  "same_columns env (EBinary op l r) row row' \<longleftrightarrow>
     same_columns env l row row' \<and> same_columns env r row row'"
  "same_columns env (EIsNull a n) row row' \<longleftrightarrow> same_columns env a row row'"
  "same_columns env (EBetween a lo hi n) row row' \<longleftrightarrow>
     same_columns env a row row' \<and> same_columns env lo row row' \<and> same_columns env hi row row'"
  "same_columns env (EIn a items n) row row' \<longleftrightarrow>
     same_columns env a row row' \<and> (\<forall>i \<in> set items. same_columns env i row row')"
  "same_columns env (ELike a p n) row row' \<longleftrightarrow>
     same_columns env a row row' \<and> same_columns env p row row'"
  by (auto simp: same_columns_def)

lemma eval_in_same:
  assumes "\<And>i. i \<in> set items \<Longrightarrow> Eval i env row = Eval i env row'"
  shows "eval_in v items env row out = eval_in v items env row' out"
  using assms
proof (induction items arbitrary: out)
  case (Cons i items)
  then have "eval_in v items env row out' = eval_in v items env row' out'" for out' by simp
  then show ?case using Cons.prems [of i] by (auto simp: Let_def split: sum.split)
qed simp

lemma Eval_same_columns:
  assumes "plain_env env" and "same_columns env e row row'"
  shows "Eval e env row = Eval e env row'" and "EvalPredicate e env row = EvalPredicate e env row'"
proof -
  have "Eval e env row = Eval e env row'"
    using assms(2)
  proof (induction e)
    case (ELiteral v)
    then show ?case using assms(1) by simp
  next
    case (EColumn t name)
    then show ?case using assms(1) by (simp add: same_columns_def)
  next
    case (EUnary op a)
    then show ?case using assms(1) by (simp add: Eval_EUnary)
  next
    case (EBinary op l r)
    then have same: "Eval l env row = Eval l env row'" "Eval r env row = Eval r env row'" by simp_all
    then have pred: "EvalPredicate l env row = EvalPredicate l env row'"
      "EvalPredicate r env row = EvalPredicate r env row'"
      using assms(1) by (simp_all add: Eval_Truth)
    consider "op = ''AND''" | "op = ''OR''" | "is_comparison op" | "\<not> predicate_form (EBinary op l r)"
      by auto
    then show ?case
      using same pred assms(1)
      by cases (simp_all add: Eval_condition EvalPredicate_eqs Eval_arith cong: sum.case_cong if_cong)
  next
    case (EIn a items n)
    then have "eval_in v items env row out = eval_in v items env row' out" for v out
      by (intro eval_in_same) simp
    then show ?case using EIn assms(1)
      by (simp add: Eval_condition EvalPredicate_EIn cong: sum.case_cong)
  next
    case EStar
    show ?case by (subst (1 2) Eval.simps) (simp add: assms(1))
  next
    case (EFuncCall name arg star)
    show ?case by (subst (1 2) Eval.simps) (simp add: assms(1))
  qed (use assms(1) in \<open>simp_all add: Eval_condition EvalPredicate_eqs cong: sum.case_cong\<close>)
  then show "Eval e env row = Eval e env row'" and "EvalPredicate e env row = EvalPredicate e env row'"
    using assms(1) by (simp_all add: Eval_Truth)
qed

section \<open>The list of IN\<close>

text \<open>The disjunction of the equalities, folded from FALSE without stopping early.\<close>

fun in_fold :: "Value \<Rightarrow> Value list \<Rightarrow> Bool3 \<Rightarrow> types_error + Bool3" where
  "in_fold v [] out = Inr out"
| "in_fold v (c # cs) out =
     (case CompareOp ''='' v c of Inl err \<Rightarrow> Inl err | Inr eq \<Rightarrow> in_fold v cs (B3Or out eq))"

lemma in_fold_True: "in_fold v cs B3True = Inr t \<Longrightarrow> t = B3True"
  by (induction cs) (auto split: sum.splits dest: CompareOp_is_bool3 elim!: is_bool3_cases)

lemma eval_in_fold:
  assumes "in_fold v cs out = Inr t" and "is_bool3 out"
    and "list_all2 (\<lambda>i c. Eval i env row = Inr c) items cs"
  shows "eval_in v items env row out = Inr t"
  using assms(3,1,2)
proof (induction items cs arbitrary: out rule: list_all2_induct)
  case (Cons i items c cs)
  then obtain eq where eq: "CompareOp ''='' v c = Inr eq" "in_fold v cs (B3Or out eq) = Inr t"
    by (auto split: sum.splits)
  then have "is_bool3 (B3Or out eq)" using Cons.prems CompareOp_is_bool3 by simp
  then show ?case using Cons eq in_fold_True [of v cs t] by (auto simp: Let_def)
qed simp

section \<open>Properties\<close>

text \<open>C26: A condition evaluates to FALSE, UNKNOWN or TRUE whatever the expression, environment and
  row are.  The short circuits of AND and OR are invisible: whenever both operands evaluate, the
  result is the Kleene connective of the two.\<close>

theorem conditions_three_valued:
  assumes l: "EvalPredicate l env row = Inr t" and r: "EvalPredicate r env row = Inr u"
  shows "is_bool3 t \<and>
    EvalPredicate (EBinary ''AND'' l r) env row = Inr (B3And t u) \<and>
    EvalPredicate (EBinary ''OR'' l r) env row = Inr (B3Or t u) \<and>
    EvalPredicate (EUnary ''NOT'' l) env row = Inr (B3Not t)"
proof -
  have b: "is_bool3 t" "is_bool3 u" using l r by (simp_all add: EvalPredicate_bool3)
  then show ?thesis
    by (auto simp: l r EvalPredicate_AND EvalPredicate_OR EvalPredicate_NOT elim!: is_bool3_cases)
qed

theorem conditions_three_valued_witness:
  "EvalPredicate (EBinary ''AND'' (ELiteral VNull) (ELiteral (VBool True))) None [] = Inr B3Unknown"
proof -
  have "EvalPredicate (ELiteral VNull) None [] = Inr B3Unknown"
    and "EvalPredicate (ELiteral (VBool True)) None [] = Inr B3True"
    by (simp_all add: EvalPredicate_value Truth_def B3_def)
  from conditions_three_valued [OF this] show ?thesis by simp
qed

text \<open>C25: The value of a condition read back as a truth value is the condition: \<open>Eval\<close> and
  \<open>EvalPredicate\<close> agree on every expression, errors included, wherever no environment binds whole
  expressions (everywhere below an aggregation).\<close>

theorem evaluators_agree:
  assumes "plain_env env"
  shows "EvalPredicate e env row =
    (case Eval e env row of Inl err \<Rightarrow> Inl err | Inr v \<Rightarrow> lift_types (Truth v))"
  by (rule Eval_Truth [OF assms])

theorem evaluators_agree_witness:
  "EvalPredicate (EUnary ''NOT'' (EUnary ''-'' (ELiteral (VInt 1)))) None [] =
     Inl (ExType (NotACondition KindInt))"
proof -
  have "Eval (EUnary ''NOT'' (EUnary ''-'' (ELiteral (VInt 1)))) None [] =
      Inl (ExType (NotACondition KindInt))"
    by (simp add: Eval_EUnary eval_unary_def Neg_def Truth_def)
  then show ?thesis using evaluators_agree [of None] by simp
qed

text \<open>Evaluation reads a row only at the columns the expression mentions, so a scan that leaves
  the other columns undecoded changes no result and no error.\<close>

theorem evaluation_reads_columns:
  assumes "plain_env env" and "same_columns env e row row'"
  shows "Eval e env row = Eval e env row' \<and> EvalPredicate e env row = EvalPredicate e env row'"
  using Eval_same_columns [OF assms] by blast

definition sample_env :: Env where
  "sample_env = \<lparr>env_Columns = [(''a'', 0), (''b'', 1)], env_Exprs = []\<rparr>"

theorem evaluation_reads_columns_witness:
  "Eval (EColumn '''' ''a'') (Some sample_env) [VInt 7, VText ''x''] =
   Eval (EColumn '''' ''a'') (Some sample_env) [VInt 7, VNull]"
  by (rule evaluation_reads_columns [THEN conjunct1])
    (simp_all add: plain_env_def same_columns_def sample_env_def eval_column_def row_at_def)

text \<open>\<open>x IN (\<dots>)\<close> is the disjunction of the equalities with every element of the list, under
  Kleene's OR, although the code stops at the first match; NOT IN is its negation.\<close>

theorem IN_is_disjunction:
  assumes "Eval a env row = Inr v" and "list_all2 (\<lambda>i c. Eval i env row = Inr c) items cs"
    and "in_fold v cs B3False = Inr t"
  shows "EvalPredicate (EIn a items n) env row = Inr (if n then B3Not t else t)"
  using eval_in_fold [OF assms(3) _ assms(2)] assms(1)
  by (simp add: EvalPredicate_EIn negate_if_def)

theorem IN_is_disjunction_witness:
  "EvalPredicate (EIn (ELiteral (VInt 1)) [ELiteral (VInt 2), ELiteral VNull] True) None [] =
     Inr B3Unknown"
proof -
  have "in_fold (VInt 1) [VInt 2, VNull] B3False = Inr B3Unknown"
    by (simp add: CompareOp_same_kind Compare_def Order_simps B3_def)
  from IN_is_disjunction [OF _ _ this, of "ELiteral (VInt 1)" None "[]" "[ELiteral (VInt 2), ELiteral VNull]" True]
  show ?thesis by simp
qed

text \<open>Above an aggregation the row holds the grouped expressions, and \<open>Eval\<close> finds them there by
  their text; \<open>EvalPredicate\<close> does not look, so a grouped condition used inside another condition
  fails at run time because its columns are gone.\<close>

theorem grouped_condition_lost:
  "\<exists>e env row v. Eval e (Some env) row = Inr v \<and> Truth v = Inr B3True \<and>
     EvalPredicate e (Some env) row = Inl (ColumnNotAvailable ''a'')"
proof -
  let ?e = "EBinary ''='' (EColumn '''' ''a'') (ELiteral (VInt 1))"
  let ?env = "\<lparr>env_Columns = [], env_Exprs = [(''a = 1'', 0)]\<rparr>"
  have "Expr_String ?e = ''a = 1''" by code_simp
  then have "Eval ?e (Some ?env) [VBool True] = Inr (VBool True)"
    by (subst Eval.simps) (simp add: env_binding_def row_at_def)
  moreover have "Expr_String (EColumn '''' ''a'') = ''a''" by code_simp
  then have "Eval (EColumn '''' ''a'') (Some ?env) [VBool True] = Inl (ColumnNotAvailable ''a'')"
    by (subst Eval.simps) (simp add: env_binding_def eval_column_def)
  then have "EvalPredicate ?e (Some ?env) [VBool True] = Inl (ColumnNotAvailable ''a'')"
    by (simp add: EvalPredicate_comparison is_comparison_def)
  ultimately show ?thesis
    by (intro exI [of _ ?e] exI [of _ ?env] exI [of _ "[VBool True]"] exI [of _ "VBool True"])
      (simp add: Truth_def B3_def)
qed

end
