(* ===== verification/Aggregate.thy ===== *)
theory Aggregate
  imports Eval Sorting
begin

text \<open>
  Hash aggregation, \<open>src/exec/aggregate.go\<close>: the accumulators, the buckets a row is added to and
  the rows a finished aggregation emits.  The Go map of groups is an association list keyed by
  the encoded group values.  The accumulators' \<open>result\<close> methods never return an error and are
  plain functions here.
\<close>

section \<open>Accumulators\<close>

datatype accumulator =
    CountAcc bool int64
  | SumAcc Value bool
  | AvgAcc float64 int64
  | ExtremeAcc int Value bool

definition newAccumulator :: "AggCall \<Rightarrow> exec_error + accumulator" where
  "newAccumulator call =
     (if ac_Func call = ''COUNT'' then Inr (CountAcc (ac_Arg call = None) 0)
      else if ac_Func call = ''SUM'' then Inr (SumAcc VNull False)
      else if ac_Func call = ''AVG'' then Inr (AvgAcc f_pos_zero 0)
      else if ac_Func call = ''MIN'' then Inr (ExtremeAcc (- 1) VNull False)
      else if ac_Func call = ''MAX'' then Inr (ExtremeAcc 1 VNull False)
      else Inl (UnknownAggregate (ac_Func call)))"

fun newAccumulators :: "AggCall list \<Rightarrow> exec_error + accumulator list" where
  "newAccumulators [] = Inr []"
| "newAccumulators (call # calls) =
     (case newAccumulator call of
        Inl e \<Rightarrow> Inl e
      | Inr acc \<Rightarrow>
          (case newAccumulators calls of Inl e \<Rightarrow> Inl e | Inr accs \<Rightarrow> Inr (acc # accs)))"

definition countAcc_add :: "bool \<Rightarrow> int64 \<Rightarrow> Value \<Rightarrow> int64" where
  "countAcc_add all n v = (if all \<or> \<not> IsNull v then n + 1 else n)"

definition sumAcc_add :: "Value \<Rightarrow> bool \<Rightarrow> Value \<Rightarrow> exec_error + (Value \<times> bool)" where
  "sumAcc_add tot any v =
     (if IsNull v then Inr (tot, any)
      else if \<not> IsNumeric v then Inl (ExType (AggregateWantsNumbers ''SUM'' (Value_Kind v)))
      else if \<not> any then Inr (v, True)
      else (case Add tot v of Inl e \<Rightarrow> Inl (ExType e) | Inr s \<Rightarrow> Inr (s, any)))"

definition avgAcc_add :: "float64 \<Rightarrow> int64 \<Rightarrow> Value \<Rightarrow> exec_error + (float64 \<times> int64)" where
  "avgAcc_add tot n v =
     (if IsNull v then Inr (tot, n)
      else if \<not> IsNumeric v then Inl (ExType (AggregateWantsNumbers ''AVG'' (Value_Kind v)))
      else Inr (f_add tot (AsFloat v), n + 1))"

definition extremeAcc_add :: "int \<Rightarrow> Value \<Rightarrow> bool \<Rightarrow> Value \<Rightarrow> Value \<times> bool" where
  "extremeAcc_add want best found v =
     (if IsNull v then (best, found)
      else if \<not> found then (v, True)
      else (let c = Order v best in
            if want < 0 \<and> c < 0 \<or> want > 0 \<and> c > 0 then (v, found) else (best, found)))"

fun acc_add :: "accumulator \<Rightarrow> Value \<Rightarrow> exec_error + accumulator" where
  "acc_add (CountAcc all n) v = Inr (CountAcc all (countAcc_add all n v))"
| "acc_add (SumAcc tot any) v =
     (case sumAcc_add tot any v of Inl e \<Rightarrow> Inl e | Inr (t, a) \<Rightarrow> Inr (SumAcc t a))"
| "acc_add (AvgAcc tot n) v =
     (case avgAcc_add tot n v of Inl e \<Rightarrow> Inl e | Inr (t, m) \<Rightarrow> Inr (AvgAcc t m))"
| "acc_add (ExtremeAcc want best found) v =
     (case extremeAcc_add want best found v of (b, f) \<Rightarrow> Inr (ExtremeAcc want b f))"

fun acc_result :: "accumulator \<Rightarrow> Value" where
  "acc_result (CountAcc all n) = VInt n"
| "acc_result (SumAcc tot any) = (if \<not> any then VNull else tot)"
| "acc_result (AvgAcc tot n) = (if n = 0 then VNull else VFloat (f_div tot (f_of_int64 n)))"
| "acc_result (ExtremeAcc want best found) = (if \<not> found then VNull else best)"

section \<open>Buckets\<close>

record aggGroup =
  ag_key :: bytes
  ag_values :: "Value list"
  ag_accs :: "accumulator list"

text \<open>The fields of the plan node the operator reads.\<close>

record aggNode =
  an_GroupBy :: "Expr list"
  an_Calls :: "AggCall list"
  an_Env :: Env

record aggState =
  as_groups :: "(bytes \<times> aggGroup) list"
  as_order :: "bytes list"

fun eval_all :: "Expr list \<Rightarrow> Env option \<Rightarrow> Row \<Rightarrow> exec_error + Value list" where
  "eval_all [] env row = Inr []"
| "eval_all (e # es) env row =
     (case Eval e env row of
        Inl err \<Rightarrow> Inl err
      | Inr v \<Rightarrow> (case eval_all es env row of Inl err \<Rightarrow> Inl err | Inr vs \<Rightarrow> Inr (v # vs)))"

definition call_arg :: "AggCall \<Rightarrow> Env option \<Rightarrow> Row \<Rightarrow> exec_error + Value" where
  "call_arg call env row = (case ac_Arg call of None \<Rightarrow> Inr VNull | Some e \<Rightarrow> Eval e env row)"

fun add_calls :: "AggCall list \<Rightarrow> accumulator list \<Rightarrow> Env option \<Rightarrow> Row \<Rightarrow> exec_error + accumulator list"
where
  "add_calls (call # calls) (acc # accs) env row =
     (case call_arg call env row of
        Inl e \<Rightarrow> Inl e
      | Inr arg \<Rightarrow>
          (case acc_add acc arg of
             Inl e \<Rightarrow> Inl e
           | Inr acc' \<Rightarrow>
               (case add_calls calls accs env row of
                  Inl e \<Rightarrow> Inl e
                | Inr accs' \<Rightarrow> Inr (acc' # accs'))))"
| "add_calls _ accs env row = Inr accs"

text \<open>The bucket of a key, opened when it is new.\<close>

definition open_group :: "aggNode \<Rightarrow> aggState \<Rightarrow> bytes \<Rightarrow> Value list \<Rightarrow> exec_error + (aggGroup \<times> aggState)"
where
  "open_group node st key vals =
     (case map_of (as_groups st) key of
        Some g \<Rightarrow> Inr (g, st)
      | None \<Rightarrow>
          (case newAccumulators (an_Calls node) of
             Inl e \<Rightarrow> Inl e
           | Inr accs \<Rightarrow>
               (let g = \<lparr>ag_key = key, ag_values = vals, ag_accs = accs\<rparr> in
                Inr (g, \<lparr>as_groups = AList.update key g (as_groups st),
                         as_order = as_order st @ [key]\<rparr>))))"

text \<open>One turn of the loop of \<open>load\<close>.\<close>

definition agg_row :: "aggNode \<Rightarrow> aggState \<Rightarrow> Row \<Rightarrow> exec_error + aggState" where
  "agg_row node st row =
     (case eval_all (an_GroupBy node) (Some (an_Env node)) row of
        Inl e \<Rightarrow> Inl e
      | Inr vals \<Rightarrow>
          (let key = Key vals in
           (case open_group node st key vals of
              Inl e \<Rightarrow> Inl e
            | Inr (g, st') \<Rightarrow>
                (case add_calls (an_Calls node) (ag_accs g) (Some (an_Env node)) row of
                   Inl e \<Rightarrow> Inl e
                 | Inr accs \<Rightarrow>
                     Inr (st'\<lparr>as_groups := AList.update key (g\<lparr>ag_accs := accs\<rparr>) (as_groups st')\<rparr>)))))"

definition group_row :: "aggGroup \<Rightarrow> Row" where
  "group_row g = ag_values g @ map acc_result (ag_accs g)"

text \<open>What follows the loop: the single bucket of an ungrouped aggregation over no rows, and the
  rows in the order of their keys.  \<open>groups[key]\<close> always exists.\<close>

definition agg_finish :: "aggNode \<Rightarrow> aggState \<Rightarrow> exec_error + Row list" where
  "agg_finish node st =
     (case (if an_GroupBy node = [] \<and> as_groups st = [] then
              (case newAccumulators (an_Calls node) of
                 Inl e \<Rightarrow> Inl e
               | Inr accs \<Rightarrow>
                   Inr \<lparr>as_groups = [([], \<lparr>ag_key = [], ag_values = [], ag_accs = accs\<rparr>)],
                        as_order = [[]]\<rparr>)
            else Inr st) of
        Inl e \<Rightarrow> Inl e
      | Inr st' \<Rightarrow>
          Inr (map (\<lambda>key. case map_of (as_groups st') key of None \<Rightarrow> [] | Some g \<Rightarrow> group_row g)
                 (sort_slice (<) (as_order st'))))"

definition agg_empty :: aggState where
  "agg_empty = \<lparr>as_groups = [], as_order = []\<rparr>"

end
