(* ===== verification/TopHeap.thy ===== *)
theory TopHeap
  imports Sorting
begin

text \<open>
  The standard library's \<open>container/heap\<close> on a slice, as the bounded sort of
  \<open>src/exec/operators.go\<close> uses it: \<open>heap.Push\<close> appends and sifts up, \<open>heap.Fix\<close> sifts the
  changed element down and, when it did not move, up.  \<open>lt\<close> is the \<open>Less\<close> of
  \<open>heap.Interface\<close>; the root is an element no other is below.
\<close>

section \<open>The algorithm\<close>

definition list_swap :: "'a list \<Rightarrow> nat \<Rightarrow> nat \<Rightarrow> 'a list" where
  "list_swap xs i j = xs[i := xs ! j, j := xs ! i]"

definition parent :: "nat \<Rightarrow> nat" where
  "parent j = (j - 1) div 2"

lemma parent_le: "parent j \<le> j" "0 < j \<Longrightarrow> parent j < j" "parent 0 = 0"
  by (simp_all add: parent_def)

function heap_up :: "('a \<Rightarrow> 'a \<Rightarrow> bool) \<Rightarrow> nat \<Rightarrow> 'a list \<Rightarrow> 'a list" where
  "heap_up lt j xs =
     (let i = parent j in
      if i = j \<or> \<not> lt (xs ! j) (xs ! i) then xs
      else heap_up lt i (list_swap xs i j))"
  by auto
termination by (relation "measure (\<lambda>(_, j, _). j)") (auto simp: parent_def)

declare heap_up.simps [simp del]

function heap_down :: "('a \<Rightarrow> 'a \<Rightarrow> bool) \<Rightarrow> nat \<Rightarrow> 'a list \<Rightarrow> nat \<times> 'a list" where
  "heap_down lt i xs =
     (let j1 = 2 * i + 1 in
      if j1 \<ge> length xs then (i, xs)
      else
        (let j2 = j1 + 1;
             j = (if j2 < length xs \<and> lt (xs ! j2) (xs ! j1) then j2 else j1)
         in if \<not> lt (xs ! j) (xs ! i) then (i, xs)
            else heap_down lt j (list_swap xs i j)))"
  by auto
termination by (relation "measure (\<lambda>(_, i, xs). length xs - i)") (auto simp: list_swap_def)

declare heap_down.simps [simp del]

definition heap_Push :: "('a \<Rightarrow> 'a \<Rightarrow> bool) \<Rightarrow> 'a list \<Rightarrow> 'a \<Rightarrow> 'a list" where
  "heap_Push lt xs x = heap_up lt (length xs) (xs @ [x])"

definition heap_Fix :: "('a \<Rightarrow> 'a \<Rightarrow> bool) \<Rightarrow> 'a list \<Rightarrow> nat \<Rightarrow> 'a list" where
  "heap_Fix lt xs i =
     (case heap_down lt i xs of
        (k, xs') \<Rightarrow> if k > i then xs' else heap_up lt i xs')"

section \<open>Elements are kept\<close>

lemma mset_list_swap [simp]: "i < length xs \<Longrightarrow> j < length xs \<Longrightarrow> mset (list_swap xs i j) = mset xs"
  by (simp add: list_swap_def mset_swap)

lemma length_list_swap [simp]: "length (list_swap xs i j) = length xs"
  by (simp add: list_swap_def)

lemma nth_list_swap:
  "i < length xs \<Longrightarrow> j < length xs \<Longrightarrow> k < length xs \<Longrightarrow>
     list_swap xs i j ! k = (if k = i then xs ! j else if k = j then xs ! i else xs ! k)"
  by (simp add: list_swap_def nth_list_update)

lemma mset_heap_up: "j < length xs \<Longrightarrow> mset (heap_up lt j xs) = mset xs"
proof (induction lt j xs rule: heap_up.induct)
  case (1 lt j xs)
  then have "parent j < length xs" using parent_le(1) [of j] by linarith
  then show ?case using 1 by (subst heap_up.simps) (simp add: Let_def)
qed

lemma mset_heap_down: "i < length xs \<Longrightarrow> mset (snd (heap_down lt i xs)) = mset xs"
proof (induction lt i xs rule: heap_down.induct)
  case (1 lt i xs)
  then show ?case by (subst heap_down.simps) (auto simp: Let_def)
qed

lemma mset_heap_Push [simp]: "mset (heap_Push lt xs x) = add_mset x (mset xs)"
  by (simp add: heap_Push_def mset_heap_up)

lemma mset_heap_Fix [simp]:
  assumes "i < length xs"
  shows "mset (heap_Fix lt xs i) = mset xs"
proof -
  obtain k xs' where d: "heap_down lt i xs = (k, xs')" by fastforce
  then have m: "mset xs' = mset xs" using mset_heap_down [OF assms, of lt] by simp
  then have "i < length xs'" using assms by (metis size_mset)
  then show ?thesis using m by (simp add: heap_Fix_def d mset_heap_up)
qed

lemma set_heap_Push [simp]: "set (heap_Push lt xs x) = insert x (set xs)"
  by (metis mset_heap_Push set_mset_add_mset_insert set_mset_mset)

lemma length_heap_Push [simp]: "length (heap_Push lt xs x) = Suc (length xs)"
  by (metis mset_heap_Push size_add_mset size_mset)

section \<open>The heap order\<close>

definition heap_ordered :: "('a \<Rightarrow> 'a \<Rightarrow> bool) \<Rightarrow> 'a list \<Rightarrow> bool" where
  "heap_ordered lt xs \<longleftrightarrow> (\<forall>k < length xs. 0 < k \<longrightarrow> \<not> lt (xs ! k) (xs ! parent k))"

text \<open>Ordered but for the element at \<open>j\<close>, which may be below its ancestors; its children are not
  below its parent.\<close>

definition ordered_above :: "('a \<Rightarrow> 'a \<Rightarrow> bool) \<Rightarrow> nat \<Rightarrow> 'a list \<Rightarrow> bool" where
  "ordered_above lt j xs \<longleftrightarrow>
     (\<forall>k < length xs. 0 < k \<longrightarrow> k \<noteq> j \<longrightarrow> \<not> lt (xs ! k) (xs ! parent k)) \<and>
     (\<forall>k < length xs. 0 < k \<longrightarrow> parent k = j \<longrightarrow> 0 < j \<longrightarrow> \<not> lt (xs ! k) (xs ! parent j))"

text \<open>Ordered but for the children of the element at \<open>i\<close>.\<close>

definition ordered_below :: "('a \<Rightarrow> 'a \<Rightarrow> bool) \<Rightarrow> nat \<Rightarrow> 'a list \<Rightarrow> bool" where
  "ordered_below lt i xs \<longleftrightarrow>
     (\<forall>k < length xs. 0 < k \<longrightarrow> parent k \<noteq> i \<longrightarrow> \<not> lt (xs ! k) (xs ! parent k)) \<and>
     (\<forall>k < length xs. 0 < k \<longrightarrow> parent k = i \<longrightarrow> 0 < i \<longrightarrow> \<not> lt (xs ! k) (xs ! parent i))"

lemma parent_children: "0 < k \<Longrightarrow> parent k = i \<longleftrightarrow> k = 2 * i + 1 \<or> k = 2 * i + 2"
  unfolding parent_def by arith

lemmas parent_less = parent_le(2)

context strict_weak
begin

lemma le_trans: "\<not> lt y x \<Longrightarrow> \<not> lt z y \<Longrightarrow> \<not> lt z x"
  using incomp_trans by blast

lemma ordered_above_swap:
  assumes above: "ordered_above lt j xs" and len: "j < length xs" and j: "0 < j"
    and lt: "lt (xs ! j) (xs ! parent j)"
  shows "ordered_above lt (parent j) (list_swap xs (parent j) j)"
proof -
  let ?i = "parent j"
  let ?ys = "list_swap xs ?i j"
  have i: "?i < j" "?i < length xs" using parent_le(2) [OF j] len by simp_all
  have nth: "?ys ! k = (if k = ?i then xs ! j else if k = j then xs ! ?i else xs ! k)" if "k < length xs" for k
    using that i len by (simp add: nth_list_swap)
  have o1: "\<And>k. k < length xs \<Longrightarrow> 0 < k \<Longrightarrow> k \<noteq> j \<Longrightarrow> \<not> lt (xs ! k) (xs ! parent k)"
    and o2: "\<And>k. k < length xs \<Longrightarrow> 0 < k \<Longrightarrow> parent k = j \<Longrightarrow> \<not> lt (xs ! k) (xs ! ?i)"
    using above j by (simp_all add: ordered_above_def)
  show ?thesis
    unfolding ordered_above_def length_list_swap
  proof (intro conjI allI impI)
    fix k assume k: "k < length xs" "0 < k" "k \<noteq> ?i"
    then have p: "parent k < length xs" using parent_less [of k] by linarith
    consider "k = j" | "k \<noteq> j" "parent k = ?i" | "k \<noteq> j" "parent k = j" | "k \<noteq> j" "parent k \<noteq> j" "parent k \<noteq> ?i"
      by blast
    then show "\<not> lt (?ys ! k) (?ys ! parent k)"
    proof cases
      case 2
      then have "\<not> lt (xs ! k) (xs ! ?i)" using o1 [of k] k by simp
      then show ?thesis using 2 k p lt asym le_trans [of "xs ! ?i" "xs ! j" "xs ! k"] by (simp add: nth)
    qed (use lt asym k p i j len o1 [of k] o2 [of k] in \<open>simp_all add: nth\<close>)
  next
    fix k assume k: "k < length xs" "0 < k" "parent k = ?i" "0 < ?i"
    have "\<not> lt (xs ! ?i) (xs ! parent ?i)" using o1 [of ?i] k(4) i by simp
    moreover have "\<not> lt (xs ! k) (xs ! ?i)" if "k \<noteq> j" using o1 [of k] k that by simp
    moreover have "parent ?i < ?i" "?i < length xs" using k(4) i parent_less [of ?i] by simp_all
    moreover have "k \<noteq> ?i" using parent_less [of k] k by auto
    ultimately show "\<not> lt (?ys ! k) (?ys ! parent ?i)"
      using k i le_trans [of "xs ! ?i" "xs ! parent ?i" "xs ! k"] by (auto simp: nth)
  qed
qed

lemma heap_up_ordered: "ordered_above lt j xs \<Longrightarrow> j < length xs \<Longrightarrow> heap_ordered lt (heap_up lt j xs)"
proof (induction j arbitrary: xs rule: less_induct)
  case (less j)
  let ?i = "parent j"
  show ?case
  proof (cases "?i = j \<or> \<not> lt (xs ! j) (xs ! ?i)")
    case True
    then have "\<forall>k < length xs. 0 < k \<longrightarrow> \<not> lt (xs ! k) (xs ! parent k)"
      using less.prems parent_less [of j] by (metis ordered_above_def less_irrefl)
    then show ?thesis using True by (subst heap_up.simps) (simp add: heap_ordered_def Let_def)
  next
    case False
    then have j: "0 < j" "?i < j" "?i < length xs" and lt: "lt (xs ! j) (xs ! ?i)"
      using parent_le(1) [of j] parent_le(2) [of j] parent_le(3) less.prems(2) by (cases j; auto)+
    have "heap_ordered lt (heap_up lt ?i (list_swap xs ?i j))"
      using less.IH [of ?i "list_swap xs ?i j"] j ordered_above_swap [OF less.prems j(1) lt] by simp
    then show ?thesis using False by (subst heap_up.simps) (simp add: Let_def)
  qed
qed

lemma ordered_below_swap:
  assumes below: "ordered_below lt i xs" and i: "i < length xs" and j: "j < length xs" "parent j = i" "0 < j"
    and lt: "lt (xs ! j) (xs ! i)"
    and least: "\<And>k. k < length xs \<Longrightarrow> 0 < k \<Longrightarrow> parent k = i \<Longrightarrow> \<not> lt (xs ! k) (xs ! j)"
  shows "ordered_below lt j (list_swap xs i j)"
proof -
  let ?ys = "list_swap xs i j"
  have o1: "\<And>k. k < length xs \<Longrightarrow> 0 < k \<Longrightarrow> parent k \<noteq> i \<Longrightarrow> \<not> lt (xs ! k) (xs ! parent k)"
    and o2: "\<And>k. k < length xs \<Longrightarrow> 0 < k \<Longrightarrow> parent k = i \<Longrightarrow> 0 < i \<Longrightarrow> \<not> lt (xs ! k) (xs ! parent i)"
    using below by (simp_all add: ordered_below_def)
  have ij: "i < j" using parent_less [OF j(3)] j(2) by simp
  have nth: "?ys ! k = (if k = i then xs ! j else if k = j then xs ! i else xs ! k)" if "k < length xs" for k
    using that j i by (simp add: nth_list_swap)
  show ?thesis
    unfolding ordered_below_def length_list_swap
  proof (intro conjI allI impI)
    fix k assume k: "k < length xs" "0 < k" "parent k \<noteq> j"
    then have p: "parent k < length xs" using parent_less [of k] by linarith
    consider "k = j" | "k = i" | "k \<noteq> i" "k \<noteq> j" "parent k = i" | "k \<noteq> i" "k \<noteq> j" "parent k \<noteq> i"
      by blast
    then show "\<not> lt (?ys ! k) (?ys ! parent k)"
    proof cases
      case 1
      have "?ys ! j = xs ! i" "?ys ! i = xs ! j" using nth [OF j(1)] nth [OF i] ij by simp_all
      then show ?thesis using 1 j(2) asym [OF lt] by simp
    next
      case 2
      then have "parent k \<noteq> i" "parent k \<noteq> j" using parent_less [of k] k ij by auto
      then have "?ys ! k = xs ! j" "?ys ! parent k = xs ! parent i" using nth [OF k(1)] nth [OF p] 2 by simp_all
      then show ?thesis using o2 [OF j(1,3,2)] k(2) 2 by simp
    next
      case 3
      then show ?thesis using least [of k] k p i by (simp add: nth)
    next
      case 4
      then show ?thesis using o1 [of k] k p by (simp add: nth)
    qed
  next
    fix k assume k: "k < length xs" "0 < k" "parent k = j" "0 < j"
    then have "k \<noteq> j" "k \<noteq> i" using parent_less [of k] ij by auto
    then show "\<not> lt (?ys ! k) (?ys ! parent j)"
      using o1 [of k] k j i ij by (simp add: nth)
  qed
qed

lemma heap_down_ordered:
  assumes "ordered_below lt i xs" and "i < length xs"
  shows "heap_ordered lt (snd (heap_down lt i xs))"
  using assms
proof (induction "length xs - i" arbitrary: i xs rule: less_induct)
  case (less i xs)
  let ?j1 = "2 * i + 1" and ?j2 = "2 * i + 2"
  define j where "j = (if ?j2 < length xs \<and> lt (xs ! ?j2) (xs ! ?j1) then ?j2 else ?j1)"
  have eq: "heap_down lt i xs =
      (if ?j1 \<ge> length xs then (i, xs)
       else if \<not> lt (xs ! j) (xs ! i) then (i, xs)
       else heap_down lt j (list_swap xs i j))"
    by (subst heap_down.simps) (simp add: Let_def j_def)
  have stop: "heap_ordered lt xs" if "\<And>k. k < length xs \<Longrightarrow> 0 < k \<Longrightarrow> parent k = i \<Longrightarrow> \<not> lt (xs ! k) (xs ! i)"
    unfolding heap_ordered_def using that less.prems(1) by (metis ordered_below_def)
  show ?case
  proof (cases "?j1 < length xs")
    case False
    then have "heap_ordered lt xs" by (intro stop) (auto simp: parent_children)
    then show ?thesis using False by (simp add: eq)
  next
    case len: True
    have least: "\<not> lt (xs ! k) (xs ! j)" if "k < length xs" "0 < k" "parent k = i" for k
      using that asym irrefl by (auto simp: j_def parent_children)
    show ?thesis
    proof (cases "lt (xs ! j) (xs ! i)")
      case False
      then have "heap_ordered lt xs" using least le_trans by (intro stop) blast
      then show ?thesis using False len by (simp add: eq)
    next
      case lt: True
      have j: "j < length xs" "parent j = i" "0 < j" "i < j"
        using len by (auto simp: j_def parent_children split: if_splits)
      have "ordered_below lt j (list_swap xs i j)" by (rule ordered_below_swap [OF less.prems j(1-3) lt least])
      then have "heap_ordered lt (snd (heap_down lt j (list_swap xs i j)))"
        using less.hyps [of "list_swap xs i j" j] j by simp
      then show ?thesis using lt len by (simp add: eq)
    qed
  qed
qed

lemma heap_root:
  assumes "heap_ordered lt xs" and "k < length xs"
  shows "\<not> lt (xs ! k) (xs ! 0)"
  using assms(2)
proof (induction k rule: less_induct)
  case (less k)
  show ?case
  proof (cases "k = 0")
    case False
    then have "\<not> lt (xs ! k) (xs ! parent k)" "\<not> lt (xs ! parent k) (xs ! 0)"
      using assms(1) less parent_less [of k] by (simp_all add: heap_ordered_def)
    then show ?thesis using le_trans by blast
  qed (simp add: irrefl)
qed

lemma heap_Push_ordered: "heap_ordered lt xs \<Longrightarrow> heap_ordered lt (heap_Push lt xs x)"
  unfolding heap_Push_def
proof (rule heap_up_ordered)
  assume h: "heap_ordered lt xs"
  have "\<not> lt ((xs @ [x]) ! k) ((xs @ [x]) ! parent k)"
    if "k < length (xs @ [x])" "0 < k" "k \<noteq> length xs" for k
  proof -
    have "k < length xs" "parent k < length xs" using that parent_less [of k] by auto
    then show ?thesis using h that by (simp add: heap_ordered_def nth_append)
  qed
  moreover have "parent k \<noteq> length xs" if "k < length (xs @ [x])" "0 < k" for k
    using that parent_less [of k] by auto
  ultimately show "ordered_above lt (length xs) (xs @ [x])"
    unfolding ordered_above_def by blast
qed simp

lemma heap_replace_root:
  assumes "heap_ordered lt xs" and "xs \<noteq> []"
  shows "heap_ordered lt (heap_Fix lt (xs[0 := x]) 0)"
proof -
  have "parent k = 0 \<or> (xs[0 := x]) ! parent k = xs ! parent k" for k by (cases "parent k") simp_all
  then have "ordered_below lt 0 (xs[0 := x])"
    using assms(1) unfolding ordered_below_def heap_ordered_def
    by (metis length_list_update nth_list_update_neq less_irrefl)
  then have "heap_ordered lt (snd (heap_down lt 0 (xs[0 := x])))"
    using heap_down_ordered assms(2) by simp
  moreover have "heap_up lt 0 ys = ys" for ys
    by (subst heap_up.simps) (simp add: parent_le)
  ultimately show ?thesis by (simp add: heap_Fix_def split_beta)
qed

end

end
