(* ===== verification/Operators.thy ===== *)
theory Operators
  imports Aggregate TopHeap Storage
begin

text \<open>
  The running operator tree, \<open>src/exec/operators.go\<close>: one constructor per operator struct, with
  the fields it changes, and \<open>op_next\<close> for \<open>Next\<close>.  An operator asks the storage for index
  targets while it runs, so \<open>Next\<close> takes the reader as it is at that moment.

  The loops of \<open>Next\<close> run until their input is exhausted.  Their fuel is \<open>op_size\<close>, a bound on
  the rows an operator can still hand out; running out is the value \<open>None\<close>, and
  \<open>op_Next_rows\<close> shows that it does not happen.  Closing an operator only releases iterators
  pinned in the store and is not modelled.
\<close>

section \<open>Operators\<close>

datatype Operator =
    OpScan Table mask scan bool
  | OpIndexScan Table mask scan bool
  | OpFilter Operator Expr Env
  | OpProject Operator "Expr list" Env
  | OpLimit Operator int64 int64 int64 int64
  | OpDistinct Operator "bytes list"
  | OpSort Operator "SortKey list" int64 Env "Row list" nat bool
  | OpAggregate Operator aggNode "Row list" nat bool

text \<open>The rows an operator can still hand out, at most.\<close>

fun op_size :: "Operator \<Rightarrow> nat" where
  "op_size (OpScan _ _ it fin) = (if fin then 0 else length (fst it))"
| "op_size (OpIndexScan _ _ it fin) = (if fin then 0 else length (fst it))"
| "op_size (OpFilter input _ _) = op_size input"
| "op_size (OpProject input _ _) = op_size input"
| "op_size (OpLimit input _ _ _ _) = op_size input"
| "op_size (OpDistinct input _) = op_size input"
| "op_size (OpSort input _ _ _ rows pos loaded) =
     (if loaded then length rows - pos else op_size input)"
| "op_size (OpAggregate input _ rows pos loaded) =
     (if loaded then length rows - pos else Suc (op_size input))"

fun op_depth :: "Operator \<Rightarrow> nat" where
  "op_depth (OpScan _ _ _ _) = 1"
| "op_depth (OpIndexScan _ _ _ _) = 1"
| "op_depth (OpFilter input _ _) = Suc (op_depth input)"
| "op_depth (OpProject input _ _) = Suc (op_depth input)"
| "op_depth (OpLimit input _ _ _ _) = Suc (op_depth input)"
| "op_depth (OpDistinct input _) = Suc (op_depth input)"
| "op_depth (OpSort input _ _ _ _ _ _) = Suc (op_depth input)"
| "op_depth (OpAggregate input _ _ _ _) = Suc (op_depth input)"

text \<open>What \<open>Next\<close> returns: an error, no row or a row.\<close>

type_synonym fetched = "exec_error + Row option"
type_synonym next_fn = "Operator \<Rightarrow> (fetched \<times> Operator) option"

section \<open>Scans\<close>

definition decode_stored :: "Table \<Rightarrow> mask \<Rightarrow> bytes \<Rightarrow> exec_error + Row" where
  "decode_stored t m blob =
     (case DecodeRowMasked blob m of
        Inl e \<Rightarrow> Inl (ExTableCodec (t_Name t) e)
      | Inr row \<Rightarrow> Inr row)"

definition scan_Next :: "Table \<Rightarrow> mask \<Rightarrow> scan \<Rightarrow> bool \<Rightarrow> fetched \<times> Operator" where
  "scan_Next t m it fin =
     (if fin then (Inr None, OpScan t m it fin)
      else case it of
        ([], err) \<Rightarrow>
          ((case err of None \<Rightarrow> Inr None | Some e \<Rightarrow> Inl (ExStore e)), OpScan t m it True)
      | (p # ps, err) \<Rightarrow>
          ((case decode_stored t m (snd p) of Inl e \<Rightarrow> Inl e | Inr row \<Rightarrow> Inr (Some row)),
           OpScan t m (ps, err) False))"

definition fetch_entry :: "Reader \<Rightarrow> Table \<Rightarrow> mask \<Rightarrow> bytes \<Rightarrow> exec_error + Row" where
  "fetch_entry rd t m key =
     (case IndexEntry key of
        Inl e \<Rightarrow> Inl (ExCodec e)
      | Inr (_, pk) \<Rightarrow>
          (case Get rd (RowKey (t_ID t) pk) of
             Inl e \<Rightarrow> Inl (if e = ErrNotFound then DanglingIndexEntry (t_Name t) pk else ExStore e)
           | Inr blob \<Rightarrow> decode_stored t m blob))"

definition indexScan_Next :: "Reader \<Rightarrow> Table \<Rightarrow> mask \<Rightarrow> scan \<Rightarrow> bool \<Rightarrow> fetched \<times> Operator" where
  "indexScan_Next rd t m it fin =
     (if fin then (Inr None, OpIndexScan t m it fin)
      else case it of
        ([], err) \<Rightarrow>
          ((case err of None \<Rightarrow> Inr None | Some e \<Rightarrow> Inl (ExStore e)), OpIndexScan t m it True)
      | (p # ps, err) \<Rightarrow>
          ((case fetch_entry rd t m (fst p) of Inl e \<Rightarrow> Inl e | Inr row \<Rightarrow> Inr (Some row)),
           OpIndexScan t m (ps, err) False))"

section \<open>Filter, limit, distinct\<close>

fun filter_loop :: "next_fn \<Rightarrow> nat \<Rightarrow> Expr \<Rightarrow> Env \<Rightarrow> Operator \<Rightarrow> (fetched \<times> Operator) option" where
  "filter_loop nxt 0 pred env input = None"
| "filter_loop nxt (Suc n) pred env input =
     (case nxt input of
        None \<Rightarrow> None
      | Some (Inl e, input') \<Rightarrow> Some (Inl e, input')
      | Some (Inr None, input') \<Rightarrow> Some (Inr None, input')
      | Some (Inr (Some row), input') \<Rightarrow>
          (case EvalPredicate pred (Some env) row of
             Inl e \<Rightarrow> Some (Inl e, input')
           | Inr keep \<Rightarrow>
               if B3IsTrue keep then Some (Inr (Some row), input')
               else filter_loop nxt n pred env input'))"

text \<open>The skipping loop of \<open>limitOp\<close>: an error, the end of the input, or done.\<close>

fun skip_loop :: "next_fn \<Rightarrow> nat \<Rightarrow> int64 \<Rightarrow> int64 \<Rightarrow> Operator \<Rightarrow> ((exec_error + bool) \<times> int64 \<times> Operator) option"
where
  "skip_loop nxt 0 offset skipped input = None"
| "skip_loop nxt (Suc n) offset skipped input =
     (if skipped <s offset then
        (case nxt input of
           None \<Rightarrow> None
         | Some (Inl e, input') \<Rightarrow> Some (Inl e, skipped, input')
         | Some (Inr None, input') \<Rightarrow> Some (Inr False, skipped, input')
         | Some (Inr (Some row), input') \<Rightarrow> skip_loop nxt n offset (skipped + 1) input')
      else Some (Inr True, skipped, input))"

definition limit_Next :: "next_fn \<Rightarrow> nat \<Rightarrow> Operator \<Rightarrow> int64 \<Rightarrow> int64 \<Rightarrow> int64 \<Rightarrow> int64 \<Rightarrow> (fetched \<times> Operator) option"
where
  "limit_Next nxt n input cnt offset emitted skipped =
     (case skip_loop nxt n offset skipped input of
        None \<Rightarrow> None
      | Some (Inl e, skipped', input') \<Rightarrow> Some (Inl e, OpLimit input' cnt offset emitted skipped')
      | Some (Inr False, skipped', input') \<Rightarrow> Some (Inr None, OpLimit input' cnt offset emitted skipped')
      | Some (Inr True, skipped', input') \<Rightarrow>
          if 0 \<le>s cnt \<and> cnt \<le>s emitted
          then Some (Inr None, OpLimit input' cnt offset emitted skipped')
          else
            (case nxt input' of
               None \<Rightarrow> None
             | Some (Inl e, input'') \<Rightarrow> Some (Inl e, OpLimit input'' cnt offset emitted skipped')
             | Some (Inr None, input'') \<Rightarrow> Some (Inr None, OpLimit input'' cnt offset emitted skipped')
             | Some (Inr (Some row), input'') \<Rightarrow>
                 Some (Inr (Some row), OpLimit input'' cnt offset (emitted + 1) skipped')))"

fun distinct_loop :: "next_fn \<Rightarrow> nat \<Rightarrow> bytes list \<Rightarrow> Operator \<Rightarrow> (fetched \<times> Operator) option" where
  "distinct_loop nxt 0 seen input = None"
| "distinct_loop nxt (Suc n) seen input =
     (case nxt input of
        None \<Rightarrow> None
      | Some (Inl e, input') \<Rightarrow> Some (Inl e, OpDistinct input' seen)
      | Some (Inr None, input') \<Rightarrow> Some (Inr None, OpDistinct input' seen)
      | Some (Inr (Some row), input') \<Rightarrow>
          (let key = Key row in
           if key \<in> set seen then distinct_loop nxt n seen input'
           else Some (Inr (Some row), OpDistinct input' (key # seen))))"

section \<open>Blocking operators\<close>

text \<open>The loop of both \<open>load\<close> methods: every row of the input goes through \<open>f\<close>.\<close>

fun load_loop :: "next_fn \<Rightarrow> nat \<Rightarrow> ('s \<Rightarrow> Row \<Rightarrow> exec_error + 's) \<Rightarrow> 's \<Rightarrow> Operator \<Rightarrow> ((exec_error + 's) \<times> Operator) option"
where
  "load_loop nxt 0 f s input = None"
| "load_loop nxt (Suc n) f s input =
     (case nxt input of
        None \<Rightarrow> None
      | Some (Inl e, input') \<Rightarrow> Some (Inl e, input')
      | Some (Inr None, input') \<Rightarrow> Some (Inr s, input')
      | Some (Inr (Some row), input') \<Rightarrow>
          (case f s row of
             Inl e \<Rightarrow> Some (Inl e, input')
           | Inr s' \<Rightarrow> load_loop nxt n f s' input'))"

record sortItem =
  si_row :: Row
  si_keys :: "Value list"
  si_seq :: nat

fun less_from :: "nat \<Rightarrow> SortKey list \<Rightarrow> sortItem \<Rightarrow> sortItem \<Rightarrow> bool" where
  "less_from i [] a b \<longleftrightarrow> si_seq a < si_seq b"
| "less_from i (k # ks) a b \<longleftrightarrow>
     (let c = Order (si_keys a ! i) (si_keys b ! i);
          c' = (if sk_Desc k then - c else c)
      in if c' \<noteq> 0 then c' < 0 else less_from (i + 1) ks a b)"

definition sort_less :: "SortKey list \<Rightarrow> sortItem \<Rightarrow> sortItem \<Rightarrow> bool" where
  "sort_less keys a b = less_from 0 keys a b"

text \<open>\<open>topHeap.Less\<close>: the root is the item that would come last.\<close>

definition topHeap_Less :: "SortKey list \<Rightarrow> sortItem \<Rightarrow> sortItem \<Rightarrow> bool" where
  "topHeap_Less keys a b = sort_less keys b a"

definition sort_insert :: "SortKey list \<Rightarrow> int64 \<Rightarrow> sortItem list \<Rightarrow> sortItem \<Rightarrow> sortItem list" where
  "sort_insert keys bnd items item =
     (if \<not> 0 \<le>s bnd then items @ [item]
      else if int (length items) < sint bnd then heap_Push (topHeap_Less keys) items item
      else if 0 <s bnd \<and> sort_less keys item (items ! 0)
        then heap_Fix (topHeap_Less keys) (items[0 := item]) 0
      else items)"

text \<open>One turn of the loop of \<open>sortOp.load\<close>: the items kept and the next arrival number.\<close>

definition sort_row :: "SortKey list \<Rightarrow> int64 \<Rightarrow> Env \<Rightarrow> sortItem list \<times> nat \<Rightarrow> Row \<Rightarrow> exec_error + sortItem list \<times> nat"
where
  "sort_row keys bnd env st row =
     (case eval_all (map sk_Expr keys) (Some env) row of
        Inl e \<Rightarrow> Inl e
      | Inr ks \<Rightarrow>
          Inr (sort_insert keys bnd (fst st) \<lparr>si_row = row, si_keys = ks, si_seq = snd st\<rparr>,
               snd st + 1))"

definition sort_finish :: "SortKey list \<Rightarrow> sortItem list \<Rightarrow> Row list" where
  "sort_finish keys items = map si_row (sort_slice (sort_less keys) items)"

text \<open>Handing out the loaded rows.\<close>

definition emit :: "Row list \<Rightarrow> nat \<Rightarrow> fetched \<times> nat" where
  "emit rows pos = (if pos \<ge> length rows then (Inr None, pos) else (Inr (Some (rows ! pos)), pos + 1))"

definition sort_Next :: "next_fn \<Rightarrow> nat \<Rightarrow> Operator \<Rightarrow> SortKey list \<Rightarrow> int64 \<Rightarrow> Env \<Rightarrow> Row list \<Rightarrow> nat \<Rightarrow> bool \<Rightarrow> (fetched \<times> Operator) option"
where
  "sort_Next nxt n input keys bnd env rows pos loaded =
     (if loaded then
        (case emit rows pos of (r, pos') \<Rightarrow> Some (r, OpSort input keys bnd env rows pos' True))
      else
        (case load_loop nxt n (sort_row keys bnd env) ([], 0) input of
           None \<Rightarrow> None
         | Some (Inl e, input') \<Rightarrow> Some (Inl e, OpSort input' keys bnd env rows pos False)
         | Some (Inr st, input') \<Rightarrow>
             (let rows' = sort_finish keys (fst st) in
              case emit rows' pos of
                (r, pos') \<Rightarrow> Some (r, OpSort input' keys bnd env rows' pos' True))))"

definition aggregate_Next :: "next_fn \<Rightarrow> nat \<Rightarrow> Operator \<Rightarrow> aggNode \<Rightarrow> Row list \<Rightarrow> nat \<Rightarrow> bool \<Rightarrow> (fetched \<times> Operator) option"
where
  "aggregate_Next nxt n input node rows pos loaded =
     (if loaded then
        (case emit rows pos of (r, pos') \<Rightarrow> Some (r, OpAggregate input node rows pos' True))
      else
        (case load_loop nxt n (agg_row node) agg_empty input of
           None \<Rightarrow> None
         | Some (Inl e, input') \<Rightarrow> Some (Inl e, OpAggregate input' node rows pos False)
         | Some (Inr st, input') \<Rightarrow>
             (case agg_finish node st of
                Inl e \<Rightarrow> Some (Inl e, OpAggregate input' node rows pos False)
              | Inr rows' \<Rightarrow>
                  (case emit rows' pos of
                     (r, pos') \<Rightarrow> Some (r, OpAggregate input' node rows' pos' True)))))"

section \<open>Next\<close>

definition project_Next :: "next_fn \<Rightarrow> Operator \<Rightarrow> Expr list \<Rightarrow> Env \<Rightarrow> (fetched \<times> Operator) option" where
  "project_Next nxt input exprs env =
     (case nxt input of
        None \<Rightarrow> None
      | Some (Inl e, input') \<Rightarrow> Some (Inl e, OpProject input' exprs env)
      | Some (Inr None, input') \<Rightarrow> Some (Inr None, OpProject input' exprs env)
      | Some (Inr (Some row), input') \<Rightarrow>
          (case eval_all exprs (Some env) row of
             Inl e \<Rightarrow> Some (Inl e, OpProject input' exprs env)
           | Inr out \<Rightarrow> Some (Inr (Some out), OpProject input' exprs env)))"

fun op_next :: "nat \<Rightarrow> Reader \<Rightarrow> next_fn" where
  "op_next 0 rd op = None"
| "op_next (Suc d) rd op =
     (case op of
        OpScan t m it fin \<Rightarrow> Some (scan_Next t m it fin)
      | OpIndexScan t m it fin \<Rightarrow> Some (indexScan_Next rd t m it fin)
      | OpFilter input pred env \<Rightarrow>
          map_option (\<lambda>(r, input'). (r, OpFilter input' pred env))
            (filter_loop (op_next d rd) (Suc (op_size input)) pred env input)
      | OpProject input exprs env \<Rightarrow> project_Next (op_next d rd) input exprs env
      | OpLimit input cnt offset emitted skipped \<Rightarrow>
          limit_Next (op_next d rd) (Suc (op_size input)) input cnt offset emitted skipped
      | OpDistinct input seen \<Rightarrow> distinct_loop (op_next d rd) (Suc (op_size input)) seen input
      | OpSort input keys bnd env rows pos loaded \<Rightarrow>
          sort_Next (op_next d rd) (Suc (op_size input)) input keys bnd env rows pos loaded
      | OpAggregate input node rows pos loaded \<Rightarrow>
          aggregate_Next (op_next d rd) (Suc (op_size input)) input node rows pos loaded)"

definition op_Next :: "Reader \<Rightarrow> next_fn" where
  "op_Next rd op = op_next (op_depth op) rd op"

section \<open>Building the tree\<close>

definition newScan :: "Reader \<Rightarrow> Table \<Rightarrow> mask \<Rightarrow> bytes option \<Rightarrow> bytes option \<Rightarrow> Operator" where
  "newScan rd t m start end = OpScan t m (Scan rd start end) False"

fun Build :: "Plan \<Rightarrow> Reader \<Rightarrow> exec_error + Operator" where
  "Build (PSeqScan t m) rd =
     (let pfx = DataPrefix (t_ID t) in Inr (newScan rd t m (Some pfx) (PrefixEnd pfx)))"
| "Build (PRangeScan t bounds m) rd =
     (case KeyBytes bounds (DataPrefix (t_ID t)) of (start, end) \<Rightarrow> Inr (newScan rd t m start end))"
| "Build (PIndexScan t ix bounds m) rd =
     (case KeyBytes bounds (IndexPrefix (t_ID t) (i_ID ix)) of
        (start, end) \<Rightarrow> Inr (OpIndexScan t m (Scan rd start end) False))"
| "Build (PFilter input pred env) rd =
     (case Build input rd of Inl e \<Rightarrow> Inl e | Inr op \<Rightarrow> Inr (OpFilter op pred env))"
| "Build (PProject input exprs names env) rd =
     (case Build input rd of Inl e \<Rightarrow> Inl e | Inr op \<Rightarrow> Inr (OpProject op exprs env))"
| "Build (PAggregate input groupBy calls env out) rd =
     (case Build input rd of
        Inl e \<Rightarrow> Inl e
      | Inr op \<Rightarrow>
          Inr (OpAggregate op \<lparr>an_GroupBy = groupBy, an_Calls = calls, an_Env = env\<rparr> [] 0 False))"
| "Build (PSort input keys bnd env) rd =
     (case Build input rd of Inl e \<Rightarrow> Inl e | Inr op \<Rightarrow> Inr (OpSort op keys bnd env [] 0 False))"
| "Build (PLimit input cnt offset) rd =
     (case Build input rd of Inl e \<Rightarrow> Inl e | Inr op \<Rightarrow> Inr (OpLimit op cnt offset 0 0))"
| "Build (PDistinct input) rd =
     (case Build input rd of Inl e \<Rightarrow> Inl e | Inr op \<Rightarrow> Inr (OpDistinct op []))"
| "Build _ rd = Inl NotAQueryOperator"

text \<open>\<open>Columns\<close>: the names of the outermost projection.\<close>

function plan_columns :: "Plan \<Rightarrow> string list option" where
  "plan_columns p =
     (case p of
        PProject _ _ names _ \<Rightarrow> Some names
      | _ \<Rightarrow> (case Children p of [] \<Rightarrow> None | c # _ \<Rightarrow> plan_columns c))"
  by auto
termination by (relation "measure size") (auto intro: Children_size)

declare plan_columns.simps [simp del] op_next.simps(2) [simp del]

end
