(* ===== verification/Rows.thy ===== *)
theory Rows
  imports Operators
begin

text \<open>
  What an operator tree computes: \<open>rows_of\<close> gives the rows a tree hands out and the error it
  stops with, by recursion over the tree on whole lists.  \<open>op_Next_rows\<close> proves that \<open>Next\<close>
  hands out exactly these rows, one per call, and that its loops always end.
\<close>

section \<open>Rows as lists\<close>

type_synonym rows = "Row list \<times> exec_error option"

fun map_rows :: "('a \<Rightarrow> exec_error + Row option) \<Rightarrow> 'a list \<Rightarrow> exec_error option \<Rightarrow> rows" where
  "map_rows f [] err = ([], err)"
| "map_rows f (x # xs) err =
     (case f x of
        Inl e \<Rightarrow> ([], Some e)
      | Inr None \<Rightarrow> map_rows f xs err
      | Inr (Some y) \<Rightarrow> (y # fst (map_rows f xs err), snd (map_rows f xs err)))"

definition keep_row :: "exec_error + Row \<Rightarrow> exec_error + Row option" where
  "keep_row r = (case r of Inl e \<Rightarrow> Inl e | Inr row \<Rightarrow> Inr (Some row))"

definition filter_row :: "Expr \<Rightarrow> Env \<Rightarrow> Row \<Rightarrow> exec_error + Row option" where
  "filter_row pred env row =
     (case EvalPredicate pred (Some env) row of
        Inl e \<Rightarrow> Inl e
      | Inr keep \<Rightarrow> Inr (if B3IsTrue keep then Some row else None))"

fun distinct_rows :: "bytes list \<Rightarrow> Row list \<Rightarrow> Row list" where
  "distinct_rows seen [] = []"
| "distinct_rows seen (row # rs) =
     (if Key row \<in> set seen then distinct_rows seen rs
      else row # distinct_rows (Key row # seen) rs)"

definition limit_rows :: "nat \<Rightarrow> nat option \<Rightarrow> rows \<Rightarrow> rows" where
  "limit_rows skip cnt rs =
     (if length (fst rs) < skip then ([], snd rs)
      else case cnt of
        None \<Rightarrow> (drop skip (fst rs), snd rs)
      | Some n \<Rightarrow>
          if n \<le> length (fst rs) - skip then (take n (drop skip (fst rs)), None)
          else (drop skip (fst rs), snd rs))"

fun fold_rows :: "('s \<Rightarrow> Row \<Rightarrow> exec_error + 's) \<Rightarrow> 's \<Rightarrow> Row list \<Rightarrow> exec_error option \<Rightarrow> exec_error + 's" where
  "fold_rows f s [] err = (case err of None \<Rightarrow> Inr s | Some e \<Rightarrow> Inl e)"
| "fold_rows f s (row # rs) err = (case f s row of Inl e \<Rightarrow> Inl e | Inr s' \<Rightarrow> fold_rows f s' rs err)"

definition stored_rows :: "exec_error + Row list \<Rightarrow> rows" where
  "stored_rows r = (case r of Inl e \<Rightarrow> ([], Some e) | Inr rs \<Rightarrow> (rs, None))"

definition sort_rows :: "SortKey list \<Rightarrow> int64 \<Rightarrow> Env \<Rightarrow> rows \<Rightarrow> rows" where
  "sort_rows keys bnd env rs =
     stored_rows (case fold_rows (sort_row keys bnd env) ([], 0) (fst rs) (snd rs) of
       Inl e \<Rightarrow> Inl e
     | Inr st \<Rightarrow> Inr (sort_finish keys (fst st)))"

definition agg_rows :: "aggNode \<Rightarrow> rows \<Rightarrow> rows" where
  "agg_rows node rs =
     stored_rows (case fold_rows (agg_row node) agg_empty (fst rs) (snd rs) of
       Inl e \<Rightarrow> Inl e
     | Inr st \<Rightarrow> agg_finish node st)"

definition skip_left :: "int64 \<Rightarrow> int64 \<Rightarrow> nat" where
  "skip_left offset skipped = nat (sint offset - sint skipped)"

definition count_left :: "int64 \<Rightarrow> int64 \<Rightarrow> nat option" where
  "count_left cnt emitted = (if 0 \<le>s cnt then Some (nat (sint cnt - sint emitted)) else None)"

fun rows_of :: "Reader \<Rightarrow> Operator \<Rightarrow> rows" where
  "rows_of rd (OpScan t m it fin) =
     (if fin then ([], None)
      else map_rows (\<lambda>p. keep_row (decode_stored t m (snd p))) (fst it) (map_option ExStore (snd it)))"
| "rows_of rd (OpIndexScan t m it fin) =
     (if fin then ([], None)
      else map_rows (\<lambda>p. keep_row (fetch_entry rd t m (fst p))) (fst it) (map_option ExStore (snd it)))"
| "rows_of rd (OpFilter input pred env) =
     (case rows_of rd input of (rs, err) \<Rightarrow> map_rows (filter_row pred env) rs err)"
| "rows_of rd (OpProject input exprs env) =
     (case rows_of rd input of (rs, err) \<Rightarrow>
        map_rows (\<lambda>row. keep_row (eval_all exprs (Some env) row)) rs err)"
| "rows_of rd (OpLimit input cnt offset emitted skipped) =
     limit_rows (skip_left offset skipped) (count_left cnt emitted) (rows_of rd input)"
| "rows_of rd (OpDistinct input seen) =
     (case rows_of rd input of (rs, err) \<Rightarrow> (distinct_rows seen rs, err))"
| "rows_of rd (OpSort input keys bnd env rows pos loaded) =
     (if loaded then (drop pos rows, None)
      else (case sort_rows keys bnd env (rows_of rd input) of (rs, err) \<Rightarrow> (drop pos rs, err)))"
| "rows_of rd (OpAggregate input node rows pos loaded) =
     (if loaded then (drop pos rows, None)
      else (case agg_rows node (rows_of rd input) of (rs, err) \<Rightarrow> (drop pos rs, err)))"

section \<open>One step\<close>

text \<open>The answer \<open>r\<close> is the next of the rows \<open>s\<close>, and \<open>s'\<close> is what is left.\<close>

definition takes :: "rows \<Rightarrow> fetched \<Rightarrow> rows \<Rightarrow> bool" where
  "takes s r s' \<longleftrightarrow>
     (case s of
        (row # rs, err) \<Rightarrow> r = Inr (Some row) \<and> s' = (rs, err)
      | ([], None) \<Rightarrow> r = Inr None \<and> s' = ([], None)
      | ([], Some e) \<Rightarrow> r = Inl e)"

lemma takes_simps [simp]:
  "takes (row # rs, err) r s' \<longleftrightarrow> r = Inr (Some row) \<and> s' = (rs, err)"
  "takes ([], None) r s' \<longleftrightarrow> r = Inr None \<and> s' = ([], None)"
  "takes ([], Some e) r s' \<longleftrightarrow> r = Inl e"
  by (simp_all add: takes_def)

text \<open>A \<open>Next\<close> method that hands out the rows \<open>rows\<close> assigns to the states \<open>P\<close> holds of.\<close>

definition iterates :: "next_fn \<Rightarrow> (Operator \<Rightarrow> rows) \<Rightarrow> (Operator \<Rightarrow> bool) \<Rightarrow> bool" where
  "iterates nxt rs P \<longleftrightarrow>
     (\<forall>op. P op \<longrightarrow> (\<exists>r op'. nxt op = Some (r, op') \<and> P op' \<and> takes (rs op) r (rs op')))"

lemma iteratesE:
  assumes "iterates nxt rs P" and "P op"
  obtains (fail) e op' where "rs op = ([], Some e)" "nxt op = Some (Inl e, op')" "P op'"
  | (ended) op' where "rs op = ([], None)" "nxt op = Some (Inr None, op')" "P op'" "rs op' = ([], None)"
  | (row) row rest err op' where "rs op = (row # rest, err)" "nxt op = Some (Inr (Some row), op')" "P op'"
      "rs op' = (rest, err)"
proof -
  obtain r op' where s: "nxt op = Some (r, op')" "P op'" "takes (rs op) r (rs op')"
    using assms unfolding iterates_def by blast
  obtain xs err where x: "rs op = (xs, err)" by fastforce
  show thesis
  proof (cases xs)
    case (Cons a xs')
    then show ?thesis using s x row by simp
  next
    case Nil
    then show ?thesis using s x fail ended by (cases err) auto
  qed
qed

lemma filter_loop_iterates:
  assumes nxt: "iterates nxt rs P"
    and op: "P input" and n: "length (fst (rs input)) < n"
  shows "\<exists>r input'. filter_loop nxt n pred env input = Some (r, input') \<and> P input' \<and>
    takes (case rs input of (xs, err) \<Rightarrow> map_rows (filter_row pred env) xs err) r
      (case rs input' of (xs, err) \<Rightarrow> map_rows (filter_row pred env) xs err)"
  using op n
proof (induction n arbitrary: input)
  case (Suc n)
  show ?case
    using nxt Suc.prems(1)
  proof (cases rule: iteratesE)
    case (row row rest err op')
    show ?thesis
    proof (cases "EvalPredicate pred (Some env) row")
      case (Inr keep)
      then show ?thesis using row Suc.IH [of op'] Suc.prems(2) by (auto simp: filter_row_def)
    qed (use row in \<open>simp add: filter_row_def\<close>)
  qed simp_all
qed simp

lemma distinct_loop_iterates:
  assumes nxt: "iterates nxt rs P"
    and op: "P input" and n: "length (fst (rs input)) < n"
  shows "\<exists>r input' seen'. distinct_loop nxt n seen input = Some (r, OpDistinct input' seen') \<and> P input' \<and>
    takes (distinct_rows seen (fst (rs input)), snd (rs input)) r
      (distinct_rows seen' (fst (rs input')), snd (rs input'))"
  using op n
proof (induction n arbitrary: input)
  case (Suc n)
  show ?case
    using nxt Suc.prems(1)
  proof (cases rule: iteratesE)
    case (row row rest err op')
    then show ?thesis using Suc.IH [of op'] Suc.prems(2) by (auto simp: Let_def)
  qed simp_all
qed simp

lemma load_loop_iterates:
  assumes nxt: "iterates nxt rs P"
    and op: "P input" and n: "length (fst (rs input)) < n"
  shows "\<exists>input'. load_loop nxt n f s input =
    Some (fold_rows f s (fst (rs input)) (snd (rs input)), input') \<and> P input'"
  using op n
proof (induction n arbitrary: input s)
  case (Suc n)
  show ?case
    using nxt Suc.prems(1)
  proof (cases rule: iteratesE)
    case (row row rest err op')
    then show ?thesis using Suc.IH [of op'] Suc.prems(2) by (cases "f s row") simp_all
  qed simp_all
qed simp

lemma sless_iff: "(a :: int64) <s b \<longleftrightarrow> sint a < sint b" and sle_iff: "(a :: int64) \<le>s b \<longleftrightarrow> sint a \<le> sint b"
  by (simp_all add: word_sless_alt word_sle_eq)

text \<open>Counters below an \<open>int64\<close> bound can be incremented.\<close>

lemma sint_incr: "sint (a :: int64) < sint (b :: int64) \<Longrightarrow> sint (a + 1) = sint a + 1"
proof -
  assume h: "sint a < sint b"
  have "sint (word_of_int (sint a + 1) :: int64) = sint a + 1"
    using h sint_bounds64 [of b] sint_bounds64 [of a] by (intro sint_word_of_int64) auto
  then show ?thesis by simp
qed

lemma skip_left_step:
  "skipped <s offset \<Longrightarrow> skip_left offset skipped = Suc (skip_left offset (skipped + 1))"
  by (simp add: skip_left_def sless_iff sint_incr)

lemma skip_left_0: "\<not> skipped <s offset \<Longrightarrow> skip_left offset skipped = 0"
  by (simp add: skip_left_def sless_iff)

lemma skip_loop_iterates:
  assumes nxt: "iterates nxt rs P"
    and op: "P input" and n: "length (fst (rs input)) < n"
  shows "\<exists>r skipped' input'. skip_loop nxt n offset skipped input = Some (r, skipped', input') \<and> P input' \<and>
    (if skip_left offset skipped \<le> length (fst (rs input))
     then r = Inr True \<and> skip_left offset skipped' = 0 \<and>
       rs input' = (drop (skip_left offset skipped) (fst (rs input)), snd (rs input))
     else (case snd (rs input) of
         None \<Rightarrow> r = Inr False \<and> rs input' = ([], None) \<and> skip_left offset skipped' > 0
       | Some e \<Rightarrow> r = Inl e))"
  using op n
proof (induction n arbitrary: input skipped)
  case (Suc n)
  show ?case
  proof (cases "skipped <s offset")
    case True
    show ?thesis
      using nxt Suc.prems(1)
    proof (cases rule: iteratesE)
      case (row row rest err op')
      then have "length (fst (rs op')) < n" using Suc.prems(2) by simp
      from Suc.IH [OF row(3) this, of "skipped + 1"] show ?thesis
        using row True by (simp add: skip_left_step, elim exE conjE, intro exI) auto
    qed (use True in \<open>simp_all add: skip_left_step\<close>)
  next
    case False
    then show ?thesis using Suc.prems by (simp add: skip_left_0)
  qed
qed simp

lemma count_left_Some: "0 \<le>s cnt \<Longrightarrow> count_left cnt emitted = Some (nat (sint cnt - sint emitted))"
  by (simp add: count_left_def)

text \<open>The rows past the offset, while the count lasts.\<close>

lemma limit_emits:
  assumes nxt: "iterates nxt rs P" and mid: "P mid" "rs mid = (drop k xs, err)" and k: "k \<le> length xs"
    and left: "\<not> (0 \<le>s cnt \<and> cnt \<le>s emitted)"
  obtains (row) row rest op' where "nxt mid = Some (Inr (Some row), op')" "P op'" "rs op' = (rest, err)"
      "takes (limit_rows k (count_left cnt emitted) (xs, err)) (Inr (Some row))
        (limit_rows 0 (count_left cnt (emitted + 1)) (rest, err))"
  | (ended) r op' where "nxt mid = Some (r, op')" "P op'" "r = Inr None \<or> (\<exists>e. r = Inl e)"
      "takes (limit_rows k (count_left cnt emitted) (xs, err)) r
        (limit_rows 0 (count_left cnt emitted) (rs op'))"
proof -
  have cl: "count_left cnt emitted = None \<and> count_left cnt (emitted + 1) = None \<or>
      (\<exists>k. count_left cnt emitted = Some (Suc k) \<and> count_left cnt (emitted + 1) = Some k)"
    using left sint_incr [of emitted cnt] by (auto simp: count_left_def sle_iff)
  show thesis
    using nxt mid(1)
  proof (cases rule: iteratesE)
    case (row row rest err' op')
    then have d: "drop k xs = row # rest" "err' = err" using mid(2) by simp_all
    from arg_cong [OF d(1), of length] have "length xs - k = Suc (length rest)" by simp
    then show thesis using row k cl d that(1) [of row op' rest] by (auto simp: limit_rows_def)
  next
    case (ended op')
    then show thesis using mid(2) k cl that(2) [of "Inr None" op'] by (auto simp: limit_rows_def)
  next
    case (fail e op')
    then show thesis using mid(2) k cl that(2) [of "Inl e" op'] by (auto simp: limit_rows_def)
  qed
qed

lemma limit_Next_iterates:
  assumes nxt: "iterates nxt rs P"
    and op: "P input" and n: "length (fst (rs input)) < n"
  shows "\<exists>r input' emitted' skipped'.
    limit_Next nxt n input cnt offset emitted skipped = Some (r, OpLimit input' cnt offset emitted' skipped') \<and>
    P input' \<and>
    takes (limit_rows (skip_left offset skipped) (count_left cnt emitted) (rs input)) r
      (limit_rows (skip_left offset skipped') (count_left cnt emitted') (rs input'))"
proof -
  obtain r skipped' mid where s: "skip_loop nxt n offset skipped input = Some (r, skipped', mid)" "P mid"
    and c: "if skip_left offset skipped \<le> length (fst (rs input))
     then r = Inr True \<and> skip_left offset skipped' = 0 \<and>
       rs mid = (drop (skip_left offset skipped) (fst (rs input)), snd (rs input))
     else (case snd (rs input) of
         None \<Rightarrow> r = Inr False \<and> rs mid = ([], None) \<and> skip_left offset skipped' > 0
       | Some e \<Rightarrow> r = Inl e)"
    using skip_loop_iterates [OF assms, of offset skipped] by blast
  show ?thesis
  proof (cases "skip_left offset skipped \<le> length (fst (rs input))")
    case False
    then show ?thesis using s c
      by (cases "snd (rs input)") (auto simp: limit_Next_def limit_rows_def)
  next
    case skip: True
    show ?thesis
    proof (cases "0 \<le>s cnt \<and> cnt \<le>s emitted")
      case True
      then have "count_left cnt emitted = Some 0" by (simp add: count_left_Some sle_iff)
      then show ?thesis using s c skip True by (simp add: limit_Next_def limit_rows_def)
    next
      case False
      have mid: "rs mid = (drop (skip_left offset skipped) (fst (rs input)), snd (rs input))"
        using c skip by simp
      show ?thesis
        using nxt s(2) mid skip False
      proof (cases rule: limit_emits)
        case (row row rest op')
        then show ?thesis using s c skip False by (auto simp: limit_Next_def)
      next
        case (ended r op')
        then show ?thesis using s c skip False by (auto simp: limit_Next_def)
      qed
    qed
  qed
qed

lemma emit_takes:
  "takes (drop pos rows, None) (fst (emit rows pos)) (drop (snd (emit rows pos)) rows, None)"
proof (cases "pos < length rows")
  case True
  then show ?thesis by (simp add: emit_def Cons_nth_drop_Suc [symmetric])
qed (simp add: emit_def)

section \<open>How many rows\<close>

lemma length_map_rows: "length (fst (map_rows f xs err)) \<le> length xs"
  by (induction xs) (auto split: sum.splits option.splits)

lemma length_distinct_rows: "length (distinct_rows seen rs) \<le> length rs"
  by (induction seen rs rule: distinct_rows.induct) auto

lemma length_limit_rows: "length (fst (limit_rows skip cnt rs)) \<le> length (fst rs)"
  by (auto simp: limit_rows_def split: option.splits)

lemma fold_rows_measure:
  assumes "\<And>s row s'. f s row = Inr s' \<Longrightarrow> size_of s' \<le> Suc (size_of s)"
  shows "fold_rows f s rs err = Inr s' \<Longrightarrow> size_of s' \<le> size_of s + length rs"
proof (induction rs arbitrary: s)
  case (Cons row rs)
  then obtain t where "f s row = Inr t" "fold_rows f t rs err = Inr s'" by (auto split: sum.splits)
  then show ?case using Cons.IH [of t] assms [of s row t] by simp
qed (simp split: option.splits)

lemma length_sort_insert: "length (sort_insert keys bnd items item) \<le> Suc (length items)"
proof -
  have "length (heap_Fix lt (items[0 := item]) 0) = length items" if "items \<noteq> []" for lt
    using mset_heap_Fix [of 0 "items[0 := item]" lt] that by (metis length_greater_0_conv length_list_update size_mset)
  moreover have "items \<noteq> []" if "\<not> int (length items) < sint bnd" "0 <s bnd"
    using that by (auto simp: sless_iff)
  ultimately show ?thesis by (auto simp: sort_insert_def)
qed

lemma length_sort_rows: "length (fst (sort_rows keys bnd env rs)) \<le> length (fst rs)"
proof (cases "fold_rows (sort_row keys bnd env) ([], 0) (fst rs) (snd rs)")
  case (Inr st)
  have "length (fst s') \<le> Suc (length (fst s))" if "sort_row keys bnd env s row = Inr s'" for s row s'
    using that length_sort_insert by (auto simp: sort_row_def split: sum.splits)
  from fold_rows_measure [where size_of = "\<lambda>s. length (fst s)", OF this Inr]
  show ?thesis by (simp add: sort_rows_def Inr stored_rows_def sort_finish_def)
qed (simp add: sort_rows_def stored_rows_def)

lemma length_agg_rows: "length (fst (agg_rows node rs)) \<le> Suc (length (fst rs))"
proof (cases "fold_rows (agg_row node) agg_empty (fst rs) (snd rs)")
  case (Inr st)
  have "length (as_order s') \<le> Suc (length (as_order s))" if "agg_row node s row = Inr s'" for s row s'
    using that by (auto simp: agg_row_def open_group_def Let_def split: sum.splits option.splits)
  from fold_rows_measure [where size_of = "\<lambda>s. length (as_order s)", OF this Inr]
  have "length (as_order st) \<le> length (fst rs)" by (simp add: agg_empty_def)
  moreover have "length rows \<le> Suc (length (as_order st))" if "agg_finish node st = Inr rows" for rows
    using that by (auto simp: agg_finish_def split: sum.splits if_splits)
  ultimately show ?thesis
    by (cases "agg_finish node st") (fastforce simp: agg_rows_def Inr stored_rows_def)+
qed (simp add: agg_rows_def stored_rows_def)

lemma rows_of_size: "length (fst (rows_of rd op)) \<le> op_size op"
proof (induction op)
  case (OpFilter input pred env)
  then show ?case by (auto simp: split_beta intro: order_trans [OF length_map_rows])
next
  case (OpProject input exprs env)
  then show ?case by (auto simp: split_beta intro: order_trans [OF length_map_rows])
next
  case (OpLimit input cnt offset emitted skipped)
  then show ?case by (auto simp: split_beta intro: order_trans [OF length_limit_rows])
next
  case (OpDistinct input seen)
  then show ?case by (auto simp: split_beta intro: order_trans [OF length_distinct_rows])
next
  case (OpSort input keys bnd env rows pos loaded)
  then show ?case using length_sort_rows [of keys bnd env "rows_of rd input"]
    by (simp add: split_beta) arith
next
  case (OpAggregate input node rows pos loaded)
  then show ?case using length_agg_rows [of node "rows_of rd input"]
    by (simp add: split_beta) arith
qed (simp_all add: length_map_rows)

section \<open>Next hands out the rows\<close>

lemma scan_Next_takes:
  "takes (rows_of rd (OpScan t m it fin)) (fst (scan_Next t m it fin))
     (rows_of rd (snd (scan_Next t m it fin)))"
proof (cases "fin \<or> fst it = []")
  case True
  then show ?thesis by (cases it; cases "snd it") (auto simp: scan_Next_def)
next
  case False
  then obtain p ps err where "it = (p # ps, err)" by (cases it) (auto simp: neq_Nil_conv)
  then show ?thesis using False
    by (cases "decode_stored t m (snd p)") (simp_all add: scan_Next_def keep_row_def)
qed

lemma indexScan_Next_takes:
  "takes (rows_of rd (OpIndexScan t m it fin)) (fst (indexScan_Next rd t m it fin))
     (rows_of rd (snd (indexScan_Next rd t m it fin)))"
proof (cases "fin \<or> fst it = []")
  case True
  then show ?thesis by (cases it; cases "snd it") (auto simp: indexScan_Next_def)
next
  case False
  then obtain p ps err where "it = (p # ps, err)" by (cases it) (auto simp: neq_Nil_conv)
  then show ?thesis using False
    by (cases "fetch_entry rd t m (fst p)") (simp_all add: indexScan_Next_def keep_row_def)
qed

lemma project_Next_iterates:
  assumes "iterates nxt rs P" and "P input"
  shows "\<exists>r input'. project_Next nxt input exprs env = Some (r, OpProject input' exprs env) \<and> P input' \<and>
    takes (case rs input of (xs, err) \<Rightarrow> map_rows (\<lambda>row. keep_row (eval_all exprs (Some env) row)) xs err) r
      (case rs input' of (xs, err) \<Rightarrow> map_rows (\<lambda>row. keep_row (eval_all exprs (Some env) row)) xs err)"
  using assms
proof (cases rule: iteratesE)
  case (row row rest err op')
  then show ?thesis
    by (cases "eval_all exprs (Some env) row") (simp_all add: project_Next_def keep_row_def)
qed (simp_all add: project_Next_def)

lemma sort_Next_iterates:
  assumes "iterates nxt rs P" and op: "P input" and "length (fst (rs input)) < n"
  shows "\<exists>r input' rows' pos' loaded'.
    sort_Next nxt n input keys bnd env rows pos loaded = Some (r, OpSort input' keys bnd env rows' pos' loaded') \<and>
    P input' \<and>
    takes (if loaded then (drop pos rows, None)
           else (case sort_rows keys bnd env (rs input) of (xs, err) \<Rightarrow> (drop pos xs, err))) r
      (if loaded' then (drop pos' rows', None)
       else (case sort_rows keys bnd env (rs input') of (xs, err) \<Rightarrow> (drop pos' xs, err)))"
proof (cases loaded)
  case True
  then show ?thesis using op emit_takes [of pos rows]
    by (auto simp: sort_Next_def split_beta)
next
  case False
  obtain input' where l: "load_loop nxt n (sort_row keys bnd env) ([], 0) input =
      Some (fold_rows (sort_row keys bnd env) ([], 0) (fst (rs input)) (snd (rs input)), input')" "P input'"
    using load_loop_iterates [OF assms, of "sort_row keys bnd env" "([], 0)"] by (elim exE conjE)
  show ?thesis
  proof (cases "fold_rows (sort_row keys bnd env) ([], 0) (fst (rs input)) (snd (rs input))")
    case (Inl e)
    then show ?thesis using False l by (auto simp: sort_Next_def sort_rows_def stored_rows_def)
  next
    case (Inr st)
    let ?rows = "sort_finish keys (fst st)"
    have "sort_Next nxt n input keys bnd env rows pos loaded =
        Some (fst (emit ?rows pos), OpSort input' keys bnd env ?rows (snd (emit ?rows pos)) True)"
      using False l Inr by (simp add: sort_Next_def split_beta Let_def)
    moreover have "sort_rows keys bnd env (rs input) = (?rows, None)"
      by (simp add: sort_rows_def stored_rows_def Inr)
    ultimately show ?thesis using False l(2) emit_takes [of pos ?rows]
      by (intro exI [of _ "fst (emit ?rows pos)"] exI [of _ input'] exI [of _ ?rows]
          exI [of _ "snd (emit ?rows pos)"] exI [of _ True]) simp
  qed
qed

lemma aggregate_Next_iterates:
  assumes "iterates nxt rs P" and op: "P input" and "length (fst (rs input)) < n"
  shows "\<exists>r input' rows' pos' loaded'.
    aggregate_Next nxt n input node rows pos loaded = Some (r, OpAggregate input' node rows' pos' loaded') \<and>
    P input' \<and>
    takes (if loaded then (drop pos rows, None)
           else (case agg_rows node (rs input) of (xs, err) \<Rightarrow> (drop pos xs, err))) r
      (if loaded' then (drop pos' rows', None)
       else (case agg_rows node (rs input') of (xs, err) \<Rightarrow> (drop pos' xs, err)))"
proof (cases loaded)
  case True
  then show ?thesis using op emit_takes [of pos rows]
    by (auto simp: aggregate_Next_def split_beta)
next
  case False
  obtain input' where l: "load_loop nxt n (agg_row node) agg_empty input =
      Some (fold_rows (agg_row node) agg_empty (fst (rs input)) (snd (rs input)), input')" "P input'"
    using load_loop_iterates [OF assms, of "agg_row node" agg_empty] by (elim exE conjE)
  show ?thesis
  proof (cases "fold_rows (agg_row node) agg_empty (fst (rs input)) (snd (rs input))")
    case (Inl e)
    then show ?thesis using False l by (auto simp: aggregate_Next_def agg_rows_def stored_rows_def)
  next
    case st: (Inr st)
    show ?thesis
    proof (cases "agg_finish node st")
      case (Inl e)
      then show ?thesis using False l st
        by (auto simp: aggregate_Next_def agg_rows_def stored_rows_def)
    next
      case (Inr done')
      have "aggregate_Next nxt n input node rows pos loaded =
          Some (fst (emit done' pos), OpAggregate input' node done' (snd (emit done' pos)) True)"
        using False l st Inr by (simp add: aggregate_Next_def split_beta)
      moreover have "agg_rows node (rs input) = (done', None)"
        by (simp add: agg_rows_def stored_rows_def st Inr)
      ultimately show ?thesis using False l(2) emit_takes [of pos done']
        by (intro exI [of _ "fst (emit done' pos)"] exI [of _ input'] exI [of _ done']
            exI [of _ "snd (emit done' pos)"] exI [of _ True]) simp
    qed
  qed
qed

lemma scan_Next_iterates:
  "\<exists>r op'. scan_Next t m it fin = (r, op') \<and> op_depth op' = 1 \<and>
    takes (rows_of rd (OpScan t m it fin)) r (rows_of rd op')"
  using scan_Next_takes [of rd t m it fin]
  by (cases "scan_Next t m it fin") (auto simp: scan_Next_def split: prod.splits list.splits if_splits)

lemma indexScan_Next_iterates:
  "\<exists>r op'. indexScan_Next rd t m it fin = (r, op') \<and> op_depth op' = 1 \<and>
    takes (rows_of rd (OpIndexScan t m it fin)) r (rows_of rd op')"
  using indexScan_Next_takes [of rd t m it fin]
  by (cases "indexScan_Next rd t m it fin") (auto simp: indexScan_Next_def split: prod.splits list.splits if_splits)

lemma op_next_iterates: "iterates (op_next d rd) (rows_of rd) (\<lambda>op. op_depth op \<le> d)"
proof (induction d)
  case 0
  have "\<not> op_depth op \<le> 0" for op by (cases op) simp_all
  then show ?case by (simp add: iterates_def)
next
  case (Suc d)
  have fuel: "length (fst (rows_of rd input)) < Suc (op_size input)" for input
    using rows_of_size [of rd input] by simp
  note unfold = op_next.simps(2)
  have "\<exists>r op'. op_next (Suc d) rd op = Some (r, op') \<and> op_depth op' \<le> Suc d \<and>
      takes (rows_of rd op) r (rows_of rd op')" if "op_depth op \<le> Suc d" for op
    using that
  proof (cases op)
    case (OpScan t m it fin)
    then show ?thesis using scan_Next_iterates [of t m it fin rd] by (auto simp: unfold)
  next
    case (OpIndexScan t m it fin)
    then show ?thesis using indexScan_Next_iterates [of rd t m it fin] by (auto simp: unfold)
  next
    case (OpFilter input pred env)
    then show ?thesis using that filter_loop_iterates [OF Suc.IH _ fuel, of input pred env]
      by (auto simp: unfold)
  next
    case (OpProject input exprs env)
    then show ?thesis using that project_Next_iterates [OF Suc.IH, of input exprs env]
      by (auto simp: unfold)
  next
    case (OpLimit input cnt offset emitted skipped)
    then show ?thesis
      using that limit_Next_iterates [OF Suc.IH _ fuel, of input cnt offset emitted skipped]
      by (auto simp: unfold)
  next
    case (OpDistinct input seen)
    then show ?thesis using that distinct_loop_iterates [OF Suc.IH _ fuel, of input seen]
      by (auto simp: unfold split_beta)
  next
    case (OpSort input keys bnd env rows pos loaded)
    then show ?thesis
      using that sort_Next_iterates [OF Suc.IH _ fuel, of input keys bnd env rows pos loaded]
      by (auto simp: unfold)
  next
    case (OpAggregate input node rows pos loaded)
    then show ?thesis
      using that aggregate_Next_iterates [OF Suc.IH _ fuel, of input node rows pos loaded]
      by (auto simp: unfold)
  qed
  then show ?case by (simp add: iterates_def)
qed

text \<open>A stored row read through a mask of its width.\<close>

definition masked :: "bool list \<Rightarrow> Row \<Rightarrow> Row" where
  "masked m row = map (\<lambda>(w, v). if w then v else VNull) (zip m row)"

lemma decode_stored_row:
  "length m = length row \<Longrightarrow> decode_stored t (Some m) (EncodeRow [] row) = Inr (masked m row)"
  by (simp add: decode_stored_def DecodeRowMasked_def EncodeRow_concat rowBody_def decode_masked_concat
      masked_def)

lemma length_masked [simp]: "length (masked m row) = min (length m) (length row)"
  by (simp add: masked_def)

lemma masked_nth [simp]:
  "i < length m \<Longrightarrow> i < length row \<Longrightarrow> masked m row ! i = (if m ! i then row ! i else VNull)"
  by (simp add: masked_def)

lemma masked_all: "length m = length row \<Longrightarrow> \<forall>w \<in> set m. w \<Longrightarrow> masked m row = row"
  by (rule nth_equalityI) (auto simp: all_set_conv_all_nth)

text \<open>C16: \<open>Next\<close> always returns: none of the loops of the operators runs out of steps, whatever
  the tree and the store.  Call by call it hands out exactly the rows \<open>rows_of\<close> computes, then
  the end or the error it computes.\<close>

theorem op_Next_rows:
  "\<exists>r op'. op_Next rd op = Some (r, op') \<and> takes (rows_of rd op) r (rows_of rd op')"
  using op_next_iterates [of "op_depth op" rd] by (auto simp: iterates_def op_Next_def)

end
