(* ===== verification/Dml.thy ===== *)
theory Dml
  imports Rows
begin

text \<open>
  Writing rows, \<open>src/exec/dml.go\<close>: the \<open>Mutator\<close> that keeps a row and its index entries together,
  the three DML statements, and the bulk maintenance behind CREATE INDEX, DROP INDEX and DROP
  TABLE.  A writer threads the state of its store; a Go error is \<open>Some\<close> of the error, and the
  state returned with it is the state the store was left in.
\<close>

section \<open>The mutator\<close>

fun validate_cols :: "Table \<Rightarrow> Column list \<Rightarrow> Row \<Rightarrow> exec_error + Row" where
  "validate_cols t [] row = Inr []"
| "validate_cols t (c # cs) [] = Inl (WrongArity 0 (t_Name t) (length (t_Columns t)))"
| "validate_cols t (c # cs) (x # xs) =
     (case Coerce x (c_Type c) of
        Inl e \<Rightarrow> Inl (CannotCoerce (t_Name t) (c_Name c) e)
      | Inr v \<Rightarrow>
          if IsNull v \<and> c_PrimaryKey c then Inl (ErrNullKey (t_Name t) (c_Name c))
          else if IsNull v \<and> c_NotNull c then Inl (ErrNotNull (t_Name t) (c_Name c))
          else (case validate_cols t cs xs of Inl e \<Rightarrow> Inl e | Inr vs \<Rightarrow> Inr (v # vs)))"

definition validate :: "Table \<Rightarrow> Row \<Rightarrow> exec_error + Row" where
  "validate t row =
     (if length row \<noteq> length (t_Columns t)
      then Inl (WrongArity (length row) (t_Name t) (length (t_Columns t)))
      else validate_cols t (t_Columns t) row)"

fun write_entries :: "'st ReadWriter \<Rightarrow> Table \<Rightarrow> Index list \<Rightarrow> Row \<Rightarrow> Value \<Rightarrow> bool \<Rightarrow> 'st \<Rightarrow> exec_error option \<times> 'st"
where
  "write_entries rw t [] row pk remove st = (None, st)"
| "write_entries rw t (ix # ixs) row pk remove st =
     (let key = IndexKey (t_ID t) (i_ID ix) (row ! nat (i_Pos ix)) pk in
      case (if remove then rw_Delete rw st key else rw_Put rw st key []) of
        (Some e, st') \<Rightarrow> (Some (ExStore e), st')
      | (None, st') \<Rightarrow> write_entries rw t ixs row pk remove st')"

definition writeIndexes :: "'st ReadWriter \<Rightarrow> Table \<Rightarrow> Row \<Rightarrow> Value \<Rightarrow> bool \<Rightarrow> 'st \<Rightarrow> exec_error option \<times> 'st" where
  "writeIndexes rw t row pk remove st = write_entries rw t (t_Indexes t) row pk remove st"

abbreviation row_pk :: "Table \<Rightarrow> Row \<Rightarrow> Value" where
  "row_pk t row \<equiv> row ! nat (t_PK t)"

text \<open>The duplicate check of \<open>Insert\<close> and \<open>Update\<close>.\<close>

definition check_free :: "'st ReadWriter \<Rightarrow> Table \<Rightarrow> Value \<Rightarrow> 'st \<Rightarrow> exec_error option" where
  "check_free rw t pk st =
     (case Get (rw_reader rw st) (RowKey (t_ID t) pk) of
        Inr blob \<Rightarrow> Some (ErrDuplicateKey (t_Name t) (c_Name (PKColumn t)) pk)
      | Inl e \<Rightarrow> if e = ErrNotFound then None else Some (ExStore e))"

definition put_row :: "'st ReadWriter \<Rightarrow> Table \<Rightarrow> Row \<Rightarrow> 'st \<Rightarrow> exec_error option \<times> 'st" where
  "put_row rw t row st =
     (case rw_Put rw st (RowKey (t_ID t) (row_pk t row)) (EncodeRow [] row) of
        (Some e, st') \<Rightarrow> (Some (ExStore e), st')
      | (None, st') \<Rightarrow> writeIndexes rw t row (row_pk t row) False st')"

definition Mutator_Insert :: "'st ReadWriter \<Rightarrow> Table \<Rightarrow> Row \<Rightarrow> 'st \<Rightarrow> exec_error option \<times> 'st" where
  "Mutator_Insert rw t row0 st =
     (case validate t row0 of
        Inl e \<Rightarrow> (Some e, st)
      | Inr row \<Rightarrow>
          (case check_free rw t (row_pk t row) st of
             Some e \<Rightarrow> (Some e, st)
           | None \<Rightarrow> put_row rw t row st))"

text \<open>The second half of \<open>Update\<close>, after the row has left its old key if the key changes.\<close>

definition rewrite_row :: "'st ReadWriter \<Rightarrow> Table \<Rightarrow> Row \<Rightarrow> Row \<Rightarrow> 'st \<Rightarrow> exec_error option \<times> 'st" where
  "rewrite_row rw t oldRow newRow st =
     (case writeIndexes rw t oldRow (row_pk t oldRow) True st of
        (Some e, st') \<Rightarrow> (Some e, st')
      | (None, st') \<Rightarrow> put_row rw t newRow st')"

definition Mutator_Update :: "'st ReadWriter \<Rightarrow> Table \<Rightarrow> Row \<Rightarrow> Row \<Rightarrow> 'st \<Rightarrow> exec_error option \<times> 'st" where
  "Mutator_Update rw t oldRow newRow0 st =
     (case validate t newRow0 of
        Inl e \<Rightarrow> (Some e, st)
      | Inr newRow \<Rightarrow>
          if \<not> Equal (row_pk t oldRow) (row_pk t newRow) then
            (case check_free rw t (row_pk t newRow) st of
               Some e \<Rightarrow> (Some e, st)
             | None \<Rightarrow>
                 (case rw_Delete rw st (RowKey (t_ID t) (row_pk t oldRow)) of
                    (Some e, st') \<Rightarrow> (Some (ExStore e), st')
                  | (None, st') \<Rightarrow> rewrite_row rw t oldRow newRow st'))
          else rewrite_row rw t oldRow newRow st)"

definition Mutator_Delete :: "'st ReadWriter \<Rightarrow> Table \<Rightarrow> Row \<Rightarrow> 'st \<Rightarrow> exec_error option \<times> 'st" where
  "Mutator_Delete rw t row st =
     (case writeIndexes rw t row (row_pk t row) True st of
        (Some e, st') \<Rightarrow> (Some e, st')
      | (None, st') \<Rightarrow>
          (case rw_Delete rw st' (RowKey (t_ID t) (row_pk t row)) of
             (err, st'') \<Rightarrow> (map_option ExStore err, st'')))"

section \<open>Statements\<close>

text \<open>A statement's outcome: the number of rows changed, the error that stopped it, the state.\<close>

type_synonym 'st outcome = "int64 \<times> exec_error option \<times> 'st"

text \<open>The row an entry of VALUES stands for: the values at the positions of the column list, NULL
  elsewhere.  VALUES are evaluated without a row and without an environment.\<close>

fun fill_row :: "Expr list \<Rightarrow> int list \<Rightarrow> Row \<Rightarrow> exec_error + Row" where
  "fill_row (e # es) (c # cs) row =
     (case Eval e None [] of Inl err \<Rightarrow> Inl err | Inr v \<Rightarrow> fill_row es cs (row[nat c := v]))"
| "fill_row _ _ row = Inr row"

definition blank_row :: "Table \<Rightarrow> Row" where
  "blank_row t = replicate (length (t_Columns t)) VNull"

fun insert_loop :: "'st ReadWriter \<Rightarrow> Table \<Rightarrow> int list \<Rightarrow> Expr list list \<Rightarrow> int64 \<Rightarrow> 'st \<Rightarrow> 'st outcome" where
  "insert_loop rw t cols [] cnt st = (cnt, None, st)"
| "insert_loop rw t cols (es # rows) cnt st =
     (case fill_row es cols (blank_row t) of
        Inl e \<Rightarrow> (cnt, Some e, st)
      | Inr row \<Rightarrow>
          (case Mutator_Insert rw t row st of
             (Some e, st') \<Rightarrow> (cnt, Some e, st')
           | (None, st') \<Rightarrow> insert_loop rw t cols rows (cnt + 1) st'))"

definition runInsert :: "'st ReadWriter \<Rightarrow> Table \<Rightarrow> Expr list list \<Rightarrow> int list \<Rightarrow> 'st \<Rightarrow> 'st outcome" where
  "runInsert rw t rows cols st = insert_loop rw t cols rows 0 st"

text \<open>The right-hand sides all read the row as it was.\<close>

fun assign :: "Assignment list \<Rightarrow> Env \<Rightarrow> Row \<Rightarrow> Row \<Rightarrow> exec_error + Row" where
  "assign [] env oldRow newRow = Inr newRow"
| "assign (a # sets) env oldRow newRow =
     (case Eval (as_Value a) (Some env) oldRow of
        Inl e \<Rightarrow> Inl e
      | Inr v \<Rightarrow> assign sets env oldRow (newRow[nat (as_Column a) := v]))"

definition update_one :: "'st ReadWriter \<Rightarrow> Table \<Rightarrow> Assignment list \<Rightarrow> Env \<Rightarrow> Row \<Rightarrow> 'st \<Rightarrow> exec_error option \<times> 'st"
where
  "update_one rw t sets env oldRow st =
     (case assign sets env oldRow oldRow of
        Inl e \<Rightarrow> (Some e, st)
      | Inr newRow \<Rightarrow> Mutator_Update rw t oldRow newRow st)"

text \<open>The loop of \<open>runUpdate\<close> and \<open>runDelete\<close>: each row of the input, read while the store changes,
  goes to \<open>f\<close>.\<close>

fun change_loop :: "'st ReadWriter \<Rightarrow> (Row \<Rightarrow> 'st \<Rightarrow> exec_error option \<times> 'st) \<Rightarrow> nat \<Rightarrow> Operator \<Rightarrow> int64 \<Rightarrow> 'st \<Rightarrow> 'st outcome option"
where
  "change_loop rw f 0 input cnt st = None"
| "change_loop rw f (Suc n) input cnt st =
     (case op_Next (rw_reader rw st) input of
        None \<Rightarrow> None
      | Some (Inl e, input') \<Rightarrow> Some (cnt, Some e, st)
      | Some (Inr None, input') \<Rightarrow> Some (cnt, None, st)
      | Some (Inr (Some row), input') \<Rightarrow>
          (case f row st of
             (Some e, st') \<Rightarrow> Some (cnt, Some e, st')
           | (None, st') \<Rightarrow> change_loop rw f n input' (cnt + 1) st'))"

definition runUpdate :: "'st ReadWriter \<Rightarrow> Table \<Rightarrow> Plan \<Rightarrow> Assignment list \<Rightarrow> Env \<Rightarrow> 'st \<Rightarrow> 'st outcome option"
where
  "runUpdate rw t input sets env st =
     (case Build input (rw_reader rw st) of
        Inl e \<Rightarrow> Some (0, Some e, st)
      | Inr op \<Rightarrow> change_loop rw (update_one rw t sets env) (Suc (op_size op)) op 0 st)"

definition runDelete :: "'st ReadWriter \<Rightarrow> Table \<Rightarrow> Plan \<Rightarrow> 'st \<Rightarrow> 'st outcome option" where
  "runDelete rw t input st =
     (case Build input (rw_reader rw st) of
        Inl e \<Rightarrow> Some (0, Some e, st)
      | Inr op \<Rightarrow> change_loop rw (Mutator_Delete rw t) (Suc (op_size op)) op 0 st)"

fun RunDML :: "'st ReadWriter \<Rightarrow> Plan \<Rightarrow> 'st \<Rightarrow> 'st outcome option" where
  "RunDML rw (PInsert t rows cols) st = Some (runInsert rw t rows cols st)"
| "RunDML rw (PUpdate t input sets env) st = runUpdate rw t input sets env st"
| "RunDML rw (PDelete t input) st = runDelete rw t input st"
| "RunDML rw _ st = Some (0, Some NotDML, st)"

section \<open>Bulk maintenance\<close>

definition DecodeStoredRow :: "Table \<Rightarrow> bytes \<Rightarrow> exec_error + Row" where
  "DecodeStoredRow t blob =
     (case DecodeRow blob (length (t_Columns t)) of
        Inl e \<Rightarrow> Inl (ExTableCodec (t_Name t) e)
      | Inr row \<Rightarrow> Inr row)"

fun put_all :: "'st ReadWriter \<Rightarrow> bytes list \<Rightarrow> 'st \<Rightarrow> exec_error option \<times> 'st" where
  "put_all rw [] st = (None, st)"
| "put_all rw (k # ks) st =
     (case rw_Put rw st k [] of
        (Some e, st') \<Rightarrow> (Some (ExStore e), st')
      | (None, st') \<Rightarrow> put_all rw ks st')"

fun delete_all :: "'st ReadWriter \<Rightarrow> bytes list \<Rightarrow> 'st \<Rightarrow> exec_error option \<times> 'st" where
  "delete_all rw [] st = (None, st)"
| "delete_all rw (k # ks) st =
     (case rw_Delete rw st k of
        (Some e, st') \<Rightarrow> (Some (ExStore e), st')
      | (None, st') \<Rightarrow> delete_all rw ks st')"

text \<open>The entries a new index needs, collected before any is written.\<close>

fun index_entries :: "Table \<Rightarrow> Index \<Rightarrow> pairs \<Rightarrow> exec_error + bytes list" where
  "index_entries t ix [] = Inr []"
| "index_entries t ix ((k, blob) # ps) =
     (case DecodeStoredRow t blob of
        Inl e \<Rightarrow> Inl e
      | Inr row \<Rightarrow>
          (case index_entries t ix ps of
             Inl e \<Rightarrow> Inl e
           | Inr ks \<Rightarrow> Inr (IndexKey (t_ID t) (i_ID ix) (row ! nat (i_Pos ix)) (row_pk t row) # ks)))"

definition BuildIndex :: "'st ReadWriter \<Rightarrow> Table \<Rightarrow> Index \<Rightarrow> 'st \<Rightarrow> exec_error option \<times> 'st" where
  "BuildIndex rw t ix st =
     (let pfx = DataPrefix (t_ID t) in
      case Scan (rw_reader rw st) (Some pfx) (PrefixEnd pfx) of
        (ps, err) \<Rightarrow>
          (case index_entries t ix ps of
             Inl e \<Rightarrow> (Some e, st)
           | Inr ks \<Rightarrow>
               (case err of Some e \<Rightarrow> (Some (ExStore e), st) | None \<Rightarrow> put_all rw ks st)))"

definition deleteRange :: "'st ReadWriter \<Rightarrow> bytes option \<Rightarrow> bytes option \<Rightarrow> 'st \<Rightarrow> exec_error option \<times> 'st" where
  "deleteRange rw start end st =
     (case Scan (rw_reader rw st) start end of
        (ps, Some e) \<Rightarrow> (Some (ExStore e), st)
      | (ps, None) \<Rightarrow> delete_all rw (map fst ps) st)"

definition DropIndexEntries :: "'st ReadWriter \<Rightarrow> Table \<Rightarrow> Index \<Rightarrow> 'st \<Rightarrow> exec_error option \<times> 'st" where
  "DropIndexEntries rw t ix st =
     (let pfx = IndexPrefix (t_ID t) (i_ID ix) in deleteRange rw (Some pfx) (PrefixEnd pfx) st)"

fun drop_indexes :: "'st ReadWriter \<Rightarrow> Table \<Rightarrow> Index list \<Rightarrow> 'st \<Rightarrow> exec_error option \<times> 'st" where
  "drop_indexes rw t [] st = (None, st)"
| "drop_indexes rw t (ix # ixs) st =
     (case DropIndexEntries rw t ix st of
        (Some e, st') \<Rightarrow> (Some e, st')
      | (None, st') \<Rightarrow> drop_indexes rw t ixs st')"

definition DropTableData :: "'st ReadWriter \<Rightarrow> Table \<Rightarrow> 'st \<Rightarrow> exec_error option \<times> 'st" where
  "DropTableData rw t st =
     (let pfx = DataPrefix (t_ID t) in
      case deleteRange rw (Some pfx) (PrefixEnd pfx) st of
        (Some e, st') \<Rightarrow> (Some e, st')
      | (None, st') \<Rightarrow> drop_indexes rw t (t_Indexes t) st')"

end
