(* ===== verification/Progress.thy ===== *)
theory Progress
  imports Rows Dml
begin

text \<open>
  Every statement that runs an operator tree returns, whatever the store does under it: each row an
  operator hands out makes it smaller, also when the rows it reads change between two calls, so the
  fuel of the loops that drain a tree is always enough.
\<close>

section \<open>A row makes the tree smaller\<close>

definition shrinks :: "next_fn \<Rightarrow> (Operator \<Rightarrow> bool) \<Rightarrow> bool" where
  "shrinks nxt P \<longleftrightarrow>
     (\<forall>op row op'. P op \<longrightarrow> nxt op = Some (Inr (Some row), op') \<longrightarrow> P op' \<and> op_size op' < op_size op)"

lemma shrinksD:
  "shrinks nxt P \<Longrightarrow> P op \<Longrightarrow> nxt op = Some (Inr (Some row), op') \<Longrightarrow> P op' \<and> op_size op' < op_size op"
  by (simp add: shrinks_def)

lemma filter_loop_shrinks:
  assumes "shrinks nxt P" and "P input" and "filter_loop nxt n pred env input = Some (Inr (Some row), input')"
  shows "op_size input' < op_size input"
  using assms(2,3)
proof (induction n arbitrary: input)
  case (Suc n)
  then show ?case
    using shrinksD [OF assms(1) Suc.prems(1)] by (force split: option.splits prod.splits sum.splits if_splits)
qed simp

lemma skip_loop_shrinks:
  assumes "shrinks nxt P" and "P input" and "skip_loop nxt n offset skipped input = Some (Inr True, s, input')"
  shows "P input' \<and> op_size input' \<le> op_size input"
  using assms(2,3)
proof (induction n arbitrary: skipped input)
  case (Suc n)
  then show ?case
    using shrinksD [OF assms(1) Suc.prems(1)] by (force split: option.splits prod.splits sum.splits if_splits)
qed simp

lemma limit_Next_shrinks:
  assumes "shrinks nxt P" and "P input"
    and "limit_Next nxt n input cnt offset emitted skipped = Some (Inr (Some row), op')"
  shows "op_size op' < op_size input"
proof -
  obtain s input' input'' where "skip_loop nxt n offset skipped input = Some (Inr True, s, input')"
    and "nxt input' = Some (Inr (Some row), input'')" and op': "op' = OpLimit input'' cnt offset (emitted + 1) s"
    using assms(3) by (auto simp: limit_Next_def split: option.splits prod.splits sum.splits bool.splits if_splits)
  then have "op_size input'' < op_size input"
    using skip_loop_shrinks [OF assms(1,2)] shrinksD [OF assms(1)] by fastforce
  then show ?thesis by (simp add: op')
qed

lemma distinct_loop_shrinks:
  assumes "shrinks nxt P" and "P input" and "distinct_loop nxt n seen input = Some (Inr (Some row), op')"
  shows "op_size op' < op_size input"
  using assms(2,3)
proof (induction n arbitrary: seen input)
  case (Suc n)
  then show ?case
    using shrinksD [OF assms(1) Suc.prems(1)]
    by (force simp: Let_def split: option.splits prod.splits sum.splits if_splits)
qed simp

lemma project_Next_shrinks:
  assumes "shrinks nxt P" and "P input" and "project_Next nxt input exprs env = Some (Inr (Some row), op')"
  shows "op_size op' < op_size input"
  using assms(3) shrinksD [OF assms(1,2)]
  by (auto simp: project_Next_def split: option.splits prod.splits sum.splits)

text \<open>A sort or an aggregation that hands out a row is loaded, and its size is the number of rows left.\<close>

fun is_blocking :: "Operator \<Rightarrow> bool" where
  "is_blocking (OpSort _ _ _ _ _ _ _) = True"
| "is_blocking (OpAggregate _ _ _ _ _) = True"
| "is_blocking _ = False"

lemma blocking_loaded:
  assumes "is_blocking op" and "op_next d rd op = Some (Inr (Some row), op')"
  shows "op_size op' = length (fst (rows_of rd op'))"
  using assms
  by (cases d; cases op)
    (auto simp: op_next.simps(2) sort_Next_def aggregate_Next_def emit_def Let_def
      split: option.splits prod.splits sum.splits if_splits)

lemma op_next_keeps:
  assumes "op_depth op \<le> d" and "op_next d rd op = Some (Inr (Some row), op')"
  shows "op_depth op' \<le> d" and "rows_of rd op = (row # fst (rows_of rd op'), snd (rows_of rd op'))"
  by (rule iteratesE [OF op_next_iterates, of op d rd]; use assms in simp)+

lemma scan_shrinks:
  "scan_Next t m it fin = (Inr (Some row), op') \<Longrightarrow> op_size op' < op_size (OpScan t m it fin)"
  "indexScan_Next rd t m it fin = (Inr (Some row), op') \<Longrightarrow> op_size op' < op_size (OpIndexScan t m it fin)"
  by (auto simp: scan_Next_def indexScan_Next_def split: if_splits prod.splits list.splits option.splits sum.splits)

lemma op_next_shrinks: "shrinks (op_next d rd) (\<lambda>op. op_depth op \<le> d)"
proof (induction d)
  case (Suc d)
  have "op_size op' < op_size op" if h: "op_depth op \<le> Suc d" "op_next (Suc d) rd op = Some (Inr (Some row), op')"
    for op row op'
  proof (cases "is_blocking op")
    case True
    have "op_size op' < length (fst (rows_of rd op))"
      using blocking_loaded [OF True h(2)] op_next_keeps(2) [OF h] by simp
    then show ?thesis using rows_of_size [of rd op] by linarith
  next
    case False
    then show ?thesis
      using h filter_loop_shrinks [OF Suc.IH] limit_Next_shrinks [OF Suc.IH] distinct_loop_shrinks [OF Suc.IH]
        project_Next_shrinks [OF Suc.IH] scan_shrinks
      by (cases op) (auto simp: op_next.simps(2) simp del: filter_loop.simps distinct_loop.simps)
  qed
  then show ?case using op_next_keeps(1) by (auto simp: shrinks_def)
qed (simp add: shrinks_def)

lemma op_Next_shrinks: "op_Next rd op = Some (Inr (Some row), op') \<Longrightarrow> op_size op' < op_size op"
  using shrinksD [OF op_next_shrinks, of op "op_depth op"] by (simp add: op_Next_def)

lemma op_Next_returns: "\<exists>r op'. op_Next rd op = Some (r, op')"
  using op_next_iterates [of "op_depth op" rd] by (auto simp: iterates_def op_Next_def)

section \<open>Statements return\<close>

lemma change_loop_returns: "op_size input < n \<Longrightarrow> \<exists>r. change_loop rw f n input cnt st = Some r"
proof (induction n arbitrary: input cnt st)
  case (Suc n)
  obtain r op' where nx: "op_Next (rw_reader rw st) input = Some (r, op')" using op_Next_returns by blast
  have "op_size op' < n" if "r = Inr (Some row)" for row
    using op_Next_shrinks nx that Suc.prems by fastforce
  then show ?case
    using nx Suc.IH [of op'] by (auto split: sum.split option.split prod.split)
qed simp

lemma RunDML_returns: "\<exists>n err st'. RunDML rw pl st = Some (n, err, st')"
proof -
  have loop: "\<exists>n err st'. change_loop rw f (Suc (op_size op)) op 0 st = Some (n, err, st')" for f op
    using change_loop_returns [of op "Suc (op_size op)" rw f 0 st] by (metis lessI prod_cases3)
  moreover have "\<exists>n err st'. x = (n, err, st')" for x :: "'a outcome" by (cases x) blast
  ultimately show ?thesis
    by (cases pl) (simp_all add: runUpdate_def runDelete_def split: sum.split del: change_loop.simps)
qed

end
