(* ===== verification/Planner.thy ===== *)
theory Planner
  imports Plans
begin

text \<open>
  The construction of plans, \<open>src/plan/build.go\<close>: checks of a statement against the catalog, the
  choice of an access path from the conjuncts of the condition, and the trees of scan, filter,
  aggregation, sort, projection and limit above it.

  A Go map that is only looked up is a HOL map; a set of positions is a predicate.  Costs are the
  rational numbers the code writes as float literals: the products compared are integers.
\<close>

section \<open>Errors\<close>

text \<open>The code's \<open>ErrUnsupported\<close> has no case: every statement of the syntax has a plan.\<close>

datatype plan_error =
    PlCatalog catalog_error
  | ColumnListedTwice string
  | RowWidth nat nat string nat
  | OrderByAggregate
  | StarWithAggregation
  | GroupByAggregate
  | NotGrouped string
  | LimitNotInteger
  | OffsetNotInteger

definition cat_get :: "Catalog \<Rightarrow> string \<Rightarrow> plan_error + Table" where
  "cat_get cat name = (case Catalog_Get cat name of Inl e \<Rightarrow> Inl (PlCatalog e) | Inr t \<Rightarrow> Inr t)"

section \<open>Checks\<close>

definition ref_error :: "Table \<Rightarrow> string \<Rightarrow> string \<Rightarrow> plan_error option" where
  "ref_error t tbl name =
     (if tbl \<noteq> [] \<and> tbl \<noteq> t_Name t then Some (PlCatalog (ErrTableNotFound tbl))
      else if ColumnIndex t name = None then Some (PlCatalog (ErrColumnNotFound (t_Name t) name))
      else None)"

definition check_ref :: "Table \<Rightarrow> plan_error option \<Rightarrow> Expr \<Rightarrow> bool \<times> plan_error option" where
  "check_ref t bad n =
     (case n of
        EColumn tbl name \<Rightarrow>
          if bad \<noteq> None then (True, bad)
          else (ref_error t tbl name = None, ref_error t tbl name)
      | _ \<Rightarrow> (True, bad))"

definition checkTableRefs :: "Table \<Rightarrow> Expr \<Rightarrow> plan_error option" where
  "checkTableRefs t e = Inspect (check_ref t) e None"

fun first_error :: "plan_error option list \<Rightarrow> plan_error option" where
  "first_error [] = None"
| "first_error (None # es) = first_error es"
| "first_error (Some e # es) = Some e"

fun checkGrouped :: "Env \<Rightarrow> Expr \<Rightarrow> plan_error option" where
  "checkGrouped out e =
     (if map_of (env_Exprs out) (Expr_String e) \<noteq> None then None
      else case e of
        EColumn tbl name \<Rightarrow>
          if map_of (env_Columns out) name \<noteq> None then None else Some (NotGrouped name)
      | EUnary op a \<Rightarrow> checkGrouped out a
      | EBinary op l r \<Rightarrow> first_error [checkGrouped out l, checkGrouped out r]
      | EIsNull a n \<Rightarrow> checkGrouped out a
      | EBetween a lo hi n \<Rightarrow> first_error [checkGrouped out a, checkGrouped out lo, checkGrouped out hi]
      | EIn a items n \<Rightarrow> first_error (checkGrouped out a # map (\<lambda>i. checkGrouped out i) items)
      | ELike a p n \<Rightarrow> first_error [checkGrouped out a, checkGrouped out p]
      | _ \<Rightarrow> None)"

declare checkGrouped.simps [simp del]

definition selectHasAggregate :: "Select \<Rightarrow> bool" where
  "selectHasAggregate s \<longleftrightarrow>
     (\<exists>col \<in> set (s_Columns s). \<not> rc_Star col \<and> HasAggregate (the (rc_Expr col))) \<or>
     (\<exists>term \<in> set (s_OrderBy s). HasAggregate (ot_Expr term))"

definition resultName :: "ResultColumn \<Rightarrow> string" where
  "resultName col = (if rc_Alias col \<noteq> [] then rc_Alias col else Expr_String (the (rc_Expr col)))"

fun int_constant :: "Expr option \<Rightarrow> int64 \<Rightarrow> plan_error \<Rightarrow> plan_error + int64" where
  "int_constant None dflt err = Inr dflt"
| "int_constant (Some (ELiteral v)) dflt err =
     (if Value_Kind v \<noteq> KindInt then Inl err else Inr (AsInt v))"
| "int_constant (Some _) dflt err = Inl err"

definition limitValues :: "Select \<Rightarrow> plan_error + int64 \<times> int64" where
  "limitValues s =
     (case int_constant (s_Limit s) (- 1) LimitNotInteger of
        Inl e \<Rightarrow> Inl e
      | Inr cnt \<Rightarrow>
          (case int_constant (s_Offset s) 0 OffsetNotInteger of
             Inl e \<Rightarrow> Inl e
           | Inr offset \<Rightarrow> Inr (cnt, offset)))"

section \<open>Conjuncts and masks\<close>

fun split_expr :: "Expr \<Rightarrow> Expr list" where
  "split_expr (EBinary op l r) =
     (if op = ''AND'' then split_expr l @ split_expr r else [EBinary op l r])"
| "split_expr e = [e]"

definition splitConjuncts :: "Expr option \<Rightarrow> Expr list" where
  "splitConjuncts w = (case w of None \<Rightarrow> [] | Some e \<Rightarrow> split_expr e)"

fun joinConjuncts :: "Expr list \<Rightarrow> Expr option" where
  "joinConjuncts [] = None"
| "joinConjuncts (e # es) = Some (foldl (EBinary ''AND'') e es)"

definition newMask :: "Table \<Rightarrow> bool list" where
  "newMask t = replicate (length (t_Columns t)) False"

definition fullMask :: "Table \<Rightarrow> bool list" where
  "fullMask t = replicate (length (t_Columns t)) True"

fun mark_names :: "Table \<Rightarrow> string list \<Rightarrow> bool list \<Rightarrow> bool list" where
  "mark_names t [] msk = msk"
| "mark_names t (name # names) msk =
     mark_names t names (case ColumnIndex t name of None \<Rightarrow> msk | Some pos \<Rightarrow> msk[nat pos := True])"

fun markColumns :: "Table \<Rightarrow> Expr list \<Rightarrow> bool list \<Rightarrow> bool list" where
  "markColumns t [] msk = msk"
| "markColumns t (e # es) msk = markColumns t es (mark_names t (Columns e) msk)"

section \<open>Search arguments\<close>

fun asColumn :: "Expr \<Rightarrow> string option" where
  "asColumn (EColumn tbl name) = Some name"
| "asColumn _ = None"

fun asLiteral :: "Expr \<Rightarrow> Value option" where
  "asLiteral (ELiteral v) = Some v"
| "asLiteral _ = None"

definition flipOp :: "string \<Rightarrow> string" where
  "flipOp op =
     (if op = ''='' \<or> op = ''=='' then ''=''
      else if op = ''<'' then ''>''
      else if op = ''<='' then ''>=''
      else if op = ''>'' then ''<''
      else if op = ''>='' then ''<=''
      else [])"

definition boundValue :: "Table \<Rightarrow> string \<Rightarrow> Value \<Rightarrow> Value option" where
  "boundValue t column lit =
     (case ColumnIndex t column of
        None \<Rightarrow> None
      | Some pos \<Rightarrow>
          (let want = c_Type (t_Columns t ! nat pos) in
           if IsNull lit then None
           else
             (let v = (if Value_Kind lit = KindInt \<and> want = KindFloat
                       then VFloat (f_of_int64 (AsInt lit)) else lit)
              in if Value_Kind v \<noteq> want then None else Some v)))"

abbreviation bound_at :: "Value \<Rightarrow> bool \<Rightarrow> Bound" where
  "bound_at v incl \<equiv> \<lparr>bd_Value = v, bd_Inclusive = incl, bd_Set = True\<rparr>"

definition op_range :: "string \<Rightarrow> Value \<Rightarrow> Range option" where
  "op_range op v =
     (if op = ''='' then Some \<lparr>Lo = bound_at v True, Hi = bound_at v True\<rparr>
      else if op = ''<'' then Some \<lparr>Lo = no_bound, Hi = bound_at v False\<rparr>
      else if op = ''<='' then Some \<lparr>Lo = no_bound, Hi = bound_at v True\<rparr>
      else if op = ''>'' then Some \<lparr>Lo = bound_at v False, Hi = no_bound\<rparr>
      else if op = ''>='' then Some \<lparr>Lo = bound_at v True, Hi = no_bound\<rparr>
      else None)"

definition sargable_op :: "Table \<Rightarrow> string \<Rightarrow> string option \<Rightarrow> Value option \<Rightarrow> (string \<times> Range) option" where
  "sargable_op t op col lit =
     (case (col, lit) of
        (Some name, Some l) \<Rightarrow>
          if op = [] then None
          else (case boundValue t name l of
                  None \<Rightarrow> None
                | Some v \<Rightarrow> map_option (Pair name) (op_range op v))
      | _ \<Rightarrow> None)"

fun sargable :: "Table \<Rightarrow> Expr \<Rightarrow> (string \<times> Range) option" where
  "sargable t (EBinary op l r) =
     (if asColumn l = None \<or> asLiteral r = None
      then sargable_op t (flipOp op) (asColumn r) (asLiteral l)
      else sargable_op t op (asColumn l) (asLiteral r))"
| "sargable t (EBetween a lo hi n) =
     (if n then None
      else case (asColumn a, asLiteral lo, asLiteral hi) of
        (Some name, Some l, Some h) \<Rightarrow>
          (case (boundValue t name l, boundValue t name h) of
             (Some lov, Some hiv) \<Rightarrow> Some (name, \<lparr>Lo = bound_at lov True, Hi = bound_at hiv True\<rparr>)
           | _ \<Rightarrow> None)
      | _ \<Rightarrow> None)"
| "sargable t _ = None"

section \<open>Access paths\<close>

definition estimatedRows :: rat where "estimatedRows = 1000"
definition costRowRead :: rat where "costRowRead = 1"
definition costIndexRead :: rat where "costIndexRead = 1"
definition costRowFetch :: rat where "costRowFetch = 1"
definition costStartup :: rat where "costStartup = 1"

record accessPath =
  ap_table :: Table
  ap_index :: "Index option"
  ap_bounds :: Range
  ap_cost :: rat
  ap_consumed :: "nat \<Rightarrow> bool"
  ap_ordersBy :: string

definition path_build :: "accessPath \<Rightarrow> bool list \<Rightarrow> Plan" where
  "path_build a msk =
     (case ap_index a of
        Some ix \<Rightarrow> PIndexScan (ap_table a) ix (ap_bounds a) (Some msk)
      | None \<Rightarrow>
          if Bounded (ap_bounds a) then PRangeScan (ap_table a) (ap_bounds a) (Some msk)
          else PSeqScan (ap_table a) (Some msk))"

fun residual_from :: "(nat \<Rightarrow> bool) \<Rightarrow> nat \<Rightarrow> Expr list \<Rightarrow> Expr list" where
  "residual_from consumed i [] = []"
| "residual_from consumed i (c # cs) =
     (if \<not> consumed i then c # residual_from consumed (i + 1) cs else residual_from consumed (i + 1) cs)"

definition path_residual :: "accessPath \<Rightarrow> Expr list \<Rightarrow> Expr list" where
  "path_residual a conjuncts = residual_from (ap_consumed a) 0 conjuncts"

definition path_provides :: "accessPath \<Rightarrow> Expr \<Rightarrow> bool" where
  "path_provides a e \<longleftrightarrow> (case e of EColumn tbl name \<Rightarrow> name = ap_ordersBy a | _ \<Rightarrow> False)"

definition indexSet :: "nat list \<Rightarrow> nat \<Rightarrow> bool" where
  "indexSet idx i \<longleftrightarrow> i \<in> set idx"

text \<open>The ranges and their owners, conjunct by conjunct.  A missing entry of the Go map of owners
  reads as the empty list.\<close>

fun collect_ranges :: "Table \<Rightarrow> nat \<Rightarrow> Expr list \<Rightarrow> (string \<rightharpoonup> Range) \<Rightarrow> (string \<Rightarrow> nat list)
    \<Rightarrow> (string \<rightharpoonup> Range) \<times> (string \<Rightarrow> nat list)" where
  "collect_ranges t i [] ranges owners = (ranges, owners)"
| "collect_ranges t i (c # cs) ranges owners =
     (case sargable t c of
        None \<Rightarrow> collect_ranges t (i + 1) cs ranges owners
      | Some (col, r) \<Rightarrow>
          collect_ranges t (i + 1) cs
            (ranges(col \<mapsto> (case ranges col of Some prev \<Rightarrow> Intersect prev r | None \<Rightarrow> r)))
            (owners(col := owners col @ [i])))"

definition scan_path :: "Table \<Rightarrow> accessPath" where
  "scan_path t = \<lparr>ap_table = t, ap_index = None, ap_bounds = full_range,
     ap_cost = estimatedRows * costRowRead + costStartup, ap_consumed = (\<lambda>i. False),
     ap_ordersBy = c_Name (PKColumn t)\<rparr>"

definition pk_path :: "Table \<Rightarrow> (string \<rightharpoonup> Range) \<Rightarrow> (string \<Rightarrow> nat list) \<Rightarrow> accessPath \<Rightarrow> accessPath" where
  "pk_path t ranges owners best =
     (case ranges (c_Name (PKColumn t)) of
        None \<Rightarrow> best
      | Some r \<Rightarrow>
          (let cost = estimatedRows * Selectivity r * costRowRead + costStartup in
           if Bounded r \<and> cost < ap_cost best
           then \<lparr>ap_table = t, ap_index = None, ap_bounds = r, ap_cost = cost,
                 ap_consumed = indexSet (owners (c_Name (PKColumn t))),
                 ap_ordersBy = c_Name (PKColumn t)\<rparr>
           else best))"

definition index_path :: "Table \<Rightarrow> (string \<rightharpoonup> Range) \<Rightarrow> (string \<Rightarrow> nat list) \<Rightarrow> Index \<Rightarrow> accessPath \<Rightarrow> accessPath" where
  "index_path t ranges owners idx best =
     (case ranges (i_Column idx) of
        None \<Rightarrow> best
      | Some r \<Rightarrow>
          if \<not> Bounded r then best
          else
            (let matched = estimatedRows * Selectivity r;
                 cost = matched * (costIndexRead + costRowFetch) + 2 * costStartup in
             if cost \<ge> ap_cost best then best
             else \<lparr>ap_table = t, ap_index = Some idx, ap_bounds = r, ap_cost = cost,
                   ap_consumed = indexSet (owners (i_Column idx)), ap_ordersBy = i_Column idx\<rparr>))"

definition choosePath :: "Table \<Rightarrow> Expr list \<Rightarrow> accessPath" where
  "choosePath t conjuncts =
     (let (ranges, owners) = collect_ranges t 0 conjuncts Map.empty (\<lambda>col. []) in
      fold (index_path t ranges owners) (t_Indexes t) (pk_path t ranges owners (scan_path t)))"

text \<open>The scan of a path with the filter of what it left.\<close>

definition filter_over :: "Expr list \<Rightarrow> Env \<Rightarrow> Plan \<Rightarrow> Plan" where
  "filter_over residual env node =
     (case joinConjuncts residual of None \<Rightarrow> node | Some pred \<Rightarrow> PFilter node pred env)"

section \<open>DDL and INSERT\<close>

definition plan_createTable :: "string \<Rightarrow> ColumnDef list \<Rightarrow> bool \<Rightarrow> plan_error + Plan" where
  "plan_createTable name cols ifNotExists =
     (case Define name (map (\<lambda>c. \<lparr>c_Name = cd_Name c, c_Type = cd_Type c, c_NotNull = cd_NotNull c,
         c_PrimaryKey = cd_PrimaryKey c\<rparr>) cols) of
        Inl e \<Rightarrow> Inl (PlCatalog e)
      | Inr def \<Rightarrow> Inr (PCreateTable def ifNotExists))"

definition plan_createIndex :: "Catalog \<Rightarrow> string \<Rightarrow> string \<Rightarrow> string \<Rightarrow> bool \<Rightarrow> plan_error + Plan" where
  "plan_createIndex cat name table column ifNotExists =
     (case cat_get cat table of
        Inl e \<Rightarrow> Inl e
      | Inr t \<Rightarrow>
          (case ColumnIndex t column of
             None \<Rightarrow> Inl (PlCatalog (ErrColumnNotFound table column))
           | Some pos \<Rightarrow> Inr (PCreateIndex t name pos ifNotExists)))"

fun insert_targets :: "Table \<Rightarrow> string list \<Rightarrow> string list \<Rightarrow> plan_error + int list" where
  "insert_targets t seen [] = Inr []"
| "insert_targets t seen (name # names) =
     (if name \<in> set seen then Inl (ColumnListedTwice name)
      else case ColumnIndex t name of
        None \<Rightarrow> Inl (PlCatalog (ErrColumnNotFound (t_Name t) name))
      | Some pos \<Rightarrow>
          (case insert_targets t (name # seen) names of
             Inl e \<Rightarrow> Inl e
           | Inr targets \<Rightarrow> Inr (pos # targets)))"

fun check_widths :: "Table \<Rightarrow> nat \<Rightarrow> nat \<Rightarrow> Expr list list \<Rightarrow> plan_error option" where
  "check_widths t width i [] = None"
| "check_widths t width i (row # rows) =
     (if length row \<noteq> width then Some (RowWidth (i + 1) (length row) (t_Name t) width)
      else check_widths t width (i + 1) rows)"

definition plan_insert :: "Catalog \<Rightarrow> string \<Rightarrow> string list \<Rightarrow> Expr list list \<Rightarrow> plan_error + Plan" where
  "plan_insert cat table cols rows =
     (case cat_get cat table of
        Inl e \<Rightarrow> Inl e
      | Inr t \<Rightarrow>
          (case (if cols = [] then Inr (map int [0..<length (t_Columns t)]) else insert_targets t [] cols) of
             Inl e \<Rightarrow> Inl e
           | Inr targets \<Rightarrow>
               (case check_widths t (length targets) 0 rows of
                  Some e \<Rightarrow> Inl e
                | None \<Rightarrow> Inr (PInsert t rows targets))))"

section \<open>SELECT\<close>

definition check_where :: "Table \<Rightarrow> Expr option \<Rightarrow> plan_error option" where
  "check_where t w = (case w of None \<Rightarrow> None | Some e \<Rightarrow> checkTableRefs t e)"

text \<open>The SELECT list without aggregation; the parser gives every column without a star an
  expression.\<close>

fun expand_columns :: "Table \<Rightarrow> ResultColumn list \<Rightarrow> plan_error + Expr list \<times> string list" where
  "expand_columns t [] = Inr ([], [])"
| "expand_columns t (col # cols) =
     (if rc_Star col then
        (case expand_columns t cols of
           Inl e \<Rightarrow> Inl e
         | Inr (exprs, names) \<Rightarrow> Inr (map (EColumn []) (ColumnNames t) @ exprs, ColumnNames t @ names))
      else
        (case checkTableRefs t (the (rc_Expr col)) of
           Some e \<Rightarrow> Inl e
         | None \<Rightarrow>
             (case expand_columns t cols of
                Inl e \<Rightarrow> Inl e
              | Inr (exprs, names) \<Rightarrow> Inr (the (rc_Expr col) # exprs, resultName col # names))))"

abbreviation sort_key_of :: "OrderTerm \<Rightarrow> SortKey" where
  "sort_key_of term \<equiv> \<lparr>sk_Expr = ot_Expr term, sk_Desc = ot_Desc term\<rparr>"

fun order_keys :: "Table \<Rightarrow> OrderTerm list \<Rightarrow> plan_error + SortKey list" where
  "order_keys t [] = Inr []"
| "order_keys t (term # terms) =
     (if HasAggregate (ot_Expr term) then Inl OrderByAggregate
      else case checkTableRefs t (ot_Expr term) of
        Some e \<Rightarrow> Inl e
      | None \<Rightarrow>
          (case order_keys t terms of Inl e \<Rightarrow> Inl e | Inr keys \<Rightarrow> Inr (sort_key_of term # keys)))"

definition needed_keys :: "accessPath \<Rightarrow> SortKey list \<Rightarrow> SortKey list" where
  "needed_keys path keys =
     (if length keys = 1 \<and> \<not> sk_Desc (hd keys) \<and> path_provides path (sk_Expr (hd keys)) then [] else keys)"

definition sort_over :: "SortKey list \<Rightarrow> int64 \<Rightarrow> int64 \<Rightarrow> bool \<Rightarrow> Env \<Rightarrow> Plan \<Rightarrow> Plan" where
  "sort_over keys cnt offset uniq env node =
     (if keys \<noteq> [] then
        PSort node keys (if 0 \<le>s cnt \<and> \<not> uniq then cnt + offset else - 1) env
      else node)"

definition limit_over :: "int64 \<Rightarrow> int64 \<Rightarrow> Plan \<Rightarrow> Plan" where
  "limit_over cnt offset node =
     (if 0 \<le>s cnt \<or> 0 <s offset then PLimit node cnt offset else node)"

definition distinct_over :: "bool \<Rightarrow> Plan \<Rightarrow> Plan" where
  "distinct_over uniq node = (if uniq then PDistinct node else node)"

definition plainSelect :: "Select \<Rightarrow> Table \<Rightarrow> Env \<Rightarrow> Expr list \<Rightarrow> plan_error + Plan" where
  "plainSelect s t env conjuncts =
     (case expand_columns t (s_Columns s) of
        Inl e \<Rightarrow> Inl e
      | Inr (exprs, names) \<Rightarrow>
          (case order_keys t (s_OrderBy s) of
             Inl e \<Rightarrow> Inl e
           | Inr keys0 \<Rightarrow>
               (case limitValues s of
                  Inl e \<Rightarrow> Inl e
                | Inr (cnt, offset) \<Rightarrow>
                    (let path = choosePath t conjuncts;
                         residual = path_residual path conjuncts;
                         keys = needed_keys path keys0;
                         msk = markColumns t (map sk_Expr keys)
                                 (markColumns t exprs (markColumns t residual (newMask t)));
                         node = filter_over residual env (path_build path msk);
                         node = sort_over keys cnt offset (s_Distinct s) env node;
                         node = distinct_over (s_Distinct s) (PProject node exprs names env)
                     in Inr (limit_over cnt offset node)))))"

text \<open>The output environment of an aggregation.\<close>

fun group_env :: "Table \<Rightarrow> nat \<Rightarrow> Expr list \<Rightarrow> Env \<Rightarrow> plan_error + Env" where
  "group_env t i [] out = Inr out"
| "group_env t i (g # gs) out =
     (if HasAggregate g then Inl GroupByAggregate
      else case checkTableRefs t g of
        Some e \<Rightarrow> Inl e
      | None \<Rightarrow>
          (let out = out\<lparr>env_Exprs := AList.update (Expr_String g) (int i) (env_Exprs out)\<rparr> in
           group_env t (i + 1) gs
             (case g of
                EColumn tbl name \<Rightarrow> out\<lparr>env_Columns := AList.update name (int i) (env_Columns out)\<rparr>
              | _ \<Rightarrow> out)))"

type_synonym collected = "plan_error option \<times> Env \<times> AggCall list"

definition collect_node :: "Table \<Rightarrow> nat \<Rightarrow> collected \<Rightarrow> Expr \<Rightarrow> bool \<times> collected" where
  "collect_node t groups st n =
     (case n of
        EFuncCall name arg star \<Rightarrow>
          (let (bad, out, calls) = st;
               bad = (case arg of
                        None \<Rightarrow> bad
                      | Some a \<Rightarrow> (case checkTableRefs t a of
                                     Some e \<Rightarrow> if bad = None then Some e else bad
                                   | None \<Rightarrow> bad));
               txt = Expr_String n
           in (False,
               if map_of (env_Exprs out) txt = None
               then (bad, out\<lparr>env_Exprs := AList.update txt (int (groups + length calls)) (env_Exprs out)\<rparr>,
                     calls @ [\<lparr>ac_Func = name, ac_Arg = arg, ac_Text = txt\<rparr>])
               else (bad, out, calls)))
      | _ \<Rightarrow> (True, st))"

fun collect_calls :: "Table \<Rightarrow> nat \<Rightarrow> Expr list \<Rightarrow> Env \<Rightarrow> AggCall list \<Rightarrow> plan_error + Env \<times> AggCall list" where
  "collect_calls t groups [] out calls = Inr (out, calls)"
| "collect_calls t groups (e # es) out calls =
     (case Inspect (collect_node t groups) e (None, out, calls) of
        (Some err, _) \<Rightarrow> Inl err
      | (None, out', calls') \<Rightarrow> collect_calls t groups es out' calls')"

definition groupedSelect :: "Select \<Rightarrow> Table \<Rightarrow> Env \<Rightarrow> Expr list \<Rightarrow> plan_error + Plan" where
  "groupedSelect s t env conjuncts =
     (if \<exists>col \<in> set (s_Columns s). rc_Star col then Inl StarWithAggregation
      else case group_env t 0 (s_GroupBy s) NewEnv of
        Inl e \<Rightarrow> Inl e
      | Inr out0 \<Rightarrow>
          (let exprs = map (\<lambda>col. the (rc_Expr col)) (s_Columns s) in
           case collect_calls t (length (s_GroupBy s)) (exprs @ map ot_Expr (s_OrderBy s)) out0 [] of
             Inl e \<Rightarrow> Inl e
           | Inr (out, calls) \<Rightarrow>
               (case first_error (map (checkGrouped out) (exprs @ map ot_Expr (s_OrderBy s))) of
                  Some e \<Rightarrow> Inl e
                | None \<Rightarrow>
                    (case limitValues s of
                       Inl e \<Rightarrow> Inl e
                     | Inr (cnt, offset) \<Rightarrow>
                         (let path = choosePath t conjuncts;
                              residual = path_residual path conjuncts;
                              args = concat (map (\<lambda>c. case ac_Arg c of None \<Rightarrow> [] | Some a \<Rightarrow> [a]) calls);
                              msk = markColumns t args
                                      (markColumns t (s_GroupBy s) (markColumns t residual (newMask t)));
                              node = filter_over residual env (path_build path msk);
                              node = PAggregate node (s_GroupBy s) calls env out;
                              node = sort_over (map sort_key_of (s_OrderBy s)) cnt offset (s_Distinct s) out node;
                              node = distinct_over (s_Distinct s)
                                (PProject node exprs (map resultName (s_Columns s)) out)
                          in Inr (limit_over cnt offset node))))))"

definition selectStmt :: "Catalog \<Rightarrow> Select \<Rightarrow> plan_error + Plan" where
  "selectStmt cat s =
     (case cat_get cat (s_Table s) of
        Inl e \<Rightarrow> Inl e
      | Inr t \<Rightarrow>
          (case check_where t (s_Where s) of
             Some e \<Rightarrow> Inl e
           | None \<Rightarrow>
               if s_GroupBy s \<noteq> [] \<or> selectHasAggregate s
               then groupedSelect s t (TableEnv t) (splitConjuncts (s_Where s))
               else plainSelect s t (TableEnv t) (splitConjuncts (s_Where s))))"

section \<open>UPDATE and DELETE\<close>

fun plan_sets :: "Table \<Rightarrow> (string \<times> Expr) list \<Rightarrow> plan_error + Assignment list" where
  "plan_sets t [] = Inr []"
| "plan_sets t ((column, e) # sets) =
     (case ColumnIndex t column of
        None \<Rightarrow> Inl (PlCatalog (ErrColumnNotFound (t_Name t) column))
      | Some pos \<Rightarrow>
          (case checkTableRefs t e of
             Some err \<Rightarrow> Inl err
           | None \<Rightarrow>
               (case plan_sets t sets of
                  Inl err \<Rightarrow> Inl err
                | Inr rest \<Rightarrow> Inr (\<lparr>as_Column = pos, as_Name = column, as_Value = e\<rparr> # rest))))"

text \<open>The input both statements build: a scan of every column under the filter of the residual.\<close>

definition target_of :: "Table \<Rightarrow> Expr option \<Rightarrow> Plan" where
  "target_of t w =
     (let conjuncts = splitConjuncts w; path = choosePath t conjuncts;
          residual = path_residual path conjuncts
      in filter_over residual (TableEnv t) (path_build path (fullMask t)))"

definition plan_update :: "Catalog \<Rightarrow> string \<Rightarrow> (string \<times> Expr) list \<Rightarrow> Expr option \<Rightarrow> plan_error + Plan" where
  "plan_update cat table sets w =
     (case cat_get cat table of
        Inl e \<Rightarrow> Inl e
      | Inr t \<Rightarrow>
          (case check_where t w of
             Some e \<Rightarrow> Inl e
           | None \<Rightarrow>
               (case plan_sets t sets of
                  Inl e \<Rightarrow> Inl e
                | Inr asgs \<Rightarrow> Inr (PUpdate t (target_of t w) asgs (TableEnv t)))))"

definition plan_delete :: "Catalog \<Rightarrow> string \<Rightarrow> Expr option \<Rightarrow> plan_error + Plan" where
  "plan_delete cat table w =
     (case cat_get cat table of
        Inl e \<Rightarrow> Inl e
      | Inr t \<Rightarrow>
          (case check_where t w of
             Some e \<Rightarrow> Inl e
           | None \<Rightarrow> Inr (PDelete t (target_of t w))))"

section \<open>Statements\<close>

fun Planner_Plan :: "Catalog \<Rightarrow> Stmt \<Rightarrow> plan_error + Plan" where
  "Planner_Plan cat (ExplainStmt s) = Planner_Plan cat s"
| "Planner_Plan cat (CreateTableStmt name cols ine) = plan_createTable name cols ine"
| "Planner_Plan cat (DropTableStmt name ie) = Inr (PDropTable name ie)"
| "Planner_Plan cat (CreateIndexStmt name table column ine) = plan_createIndex cat name table column ine"
| "Planner_Plan cat (DropIndexStmt name ie) = Inr (PDropIndex name ie)"
| "Planner_Plan cat (InsertStmt table cols rows) = plan_insert cat table cols rows"
| "Planner_Plan cat (SelectStmt s) = selectStmt cat s"
| "Planner_Plan cat (UpdateStmt table sets w) = plan_update cat table sets w"
| "Planner_Plan cat (DeleteStmt table w) = plan_delete cat table w"
| "Planner_Plan cat BeginStmt = Inr (PTransaction ''BEGIN'')"
| "Planner_Plan cat CommitStmt = Inr (PTransaction ''COMMIT'')"
| "Planner_Plan cat RollbackStmt = Inr (PTransaction ''ROLLBACK'')"

end
