(* ===== verification/TableData.thy ===== *)
theory TableData
  imports Dml
begin

text \<open>
  What the keys of a table stand for: \<open>table_holds t m R\<close> says that the store \<open>m\<close> holds exactly
  the rows \<open>R\<close> of table \<open>t\<close>, by primary key, and that every index of the table has exactly one
  entry per row.  Insert, update and delete change \<open>R\<close> as their names say and keep the indexes
  in step; a refused row changes nothing.  The lemmas rest on the \<open>read_writer\<close> contract only, so
  they hold of the overlay a transaction writes to and of the in-memory store.
\<close>

section \<open>The abstraction\<close>

definition is_row :: "Table \<Rightarrow> Row \<Rightarrow> bool" where
  "is_row t row \<longleftrightarrow>
     length row = length (t_Columns t) \<and>
     (\<forall>i < length row. Coerce (row ! i) (c_Type (t_Columns t ! i)) = Inr (row ! i) \<and>
        (row ! i = VNull \<longrightarrow> \<not> c_PrimaryKey (t_Columns t ! i) \<and> \<not> c_NotNull (t_Columns t ! i)))"

type_synonym table_rows = "Value \<rightharpoonup> Row"

definition rows_held :: "Table \<Rightarrow> (bytes \<rightharpoonup> bytes) \<Rightarrow> table_rows \<Rightarrow> bool" where
  "rows_held t m R \<longleftrightarrow>
     (\<forall>pk. m (RowKey (t_ID t) pk) = map_option (EncodeRow []) (R pk)) \<and>
     (\<forall>k. prefix (DataPrefix (t_ID t)) k \<and> m k \<noteq> None \<longrightarrow> (\<exists>pk. k = RowKey (t_ID t) pk))"

definition index_held :: "Table \<Rightarrow> (bytes \<rightharpoonup> bytes) \<Rightarrow> table_rows \<Rightarrow> Index \<Rightarrow> bool" where
  "index_held t m R ix \<longleftrightarrow>
     (\<forall>v pk. m (IndexKey (t_ID t) (i_ID ix) v pk) =
        (if \<exists>row. R pk = Some row \<and> row ! nat (i_Pos ix) = v then Some [] else None)) \<and>
     (\<forall>k. prefix (IndexPrefix (t_ID t) (i_ID ix)) k \<and> m k \<noteq> None \<longrightarrow>
        (\<exists>v pk. k = IndexKey (t_ID t) (i_ID ix) v pk))"

definition rows_ok :: "Table \<Rightarrow> table_rows \<Rightarrow> bool" where
  "rows_ok t R \<longleftrightarrow> (\<forall>pk row. R pk = Some row \<longrightarrow> is_row t row \<and> row_pk t row = pk)"

definition table_holds :: "Table \<Rightarrow> (bytes \<rightharpoonup> bytes) \<Rightarrow> table_rows \<Rightarrow> bool" where
  "table_holds t m R \<longleftrightarrow> rows_ok t R \<and> rows_held t m R \<and> (\<forall>ix \<in> set (t_Indexes t). index_held t m R ix)"

text \<open>The keys of a table: its rows and the entries of its indexes.  Everything else is the same.\<close>

definition table_key :: "Table \<Rightarrow> bytes \<Rightarrow> bool" where
  "table_key t k \<longleftrightarrow> prefix (DataPrefix (t_ID t)) k \<or>
     (\<exists>ix \<in> set (t_Indexes t). prefix (IndexPrefix (t_ID t) (i_ID ix)) k)"

definition same_elsewhere :: "Table \<Rightarrow> (bytes \<rightharpoonup> bytes) \<Rightarrow> (bytes \<rightharpoonup> bytes) \<Rightarrow> bool" where
  "same_elsewhere t m m' \<longleftrightarrow> (\<forall>k. \<not> table_key t k \<longrightarrow> m' k = m k)"

lemma same_elsewhere_refl [simp]: "same_elsewhere t m m"
  by (simp add: same_elsewhere_def)

lemma same_elsewhere_trans: "same_elsewhere t a b \<Longrightarrow> same_elsewhere t b c \<Longrightarrow> same_elsewhere t a c"
  by (simp add: same_elsewhere_def)

section \<open>Removing and putting a row\<close>

definition entry_keys :: "Table \<Rightarrow> Row \<Rightarrow> bytes set" where
  "entry_keys t row =
     (\<lambda>ix. IndexKey (t_ID t) (i_ID ix) (row ! nat (i_Pos ix)) (row_pk t row)) ` set (t_Indexes t)"

definition m_remove :: "Table \<Rightarrow> Row \<Rightarrow> (bytes \<rightharpoonup> bytes) \<Rightarrow> (bytes \<rightharpoonup> bytes)" where
  "m_remove t row m = (\<lambda>k. if k \<in> entry_keys t row \<or> k = RowKey (t_ID t) (row_pk t row) then None else m k)"

definition m_put :: "Table \<Rightarrow> Row \<Rightarrow> (bytes \<rightharpoonup> bytes) \<Rightarrow> (bytes \<rightharpoonup> bytes)" where
  "m_put t row m = (\<lambda>k. if k \<in> entry_keys t row then Some []
     else if k = RowKey (t_ID t) (row_pk t row) then Some (EncodeRow [] row) else m k)"

lemma entry_keys_RowKey [simp]: "RowKey u pk \<notin> entry_keys t row"
  by (auto simp: entry_keys_def)

lemma entry_keys_IndexKey:
  assumes "distinct (map i_ID (t_Indexes t))" and "ix \<in> set (t_Indexes t)"
  shows "IndexKey (t_ID t) (i_ID ix) v pk \<in> entry_keys t row \<longleftrightarrow> v = row ! nat (i_Pos ix) \<and> pk = row_pk t row"
  using assms by (auto simp: entry_keys_def distinct_map dest: inj_onD)

lemma entry_keys_table_key: "k \<in> entry_keys t row \<Longrightarrow> table_key t k \<and> \<not> prefix (DataPrefix (t_ID t)) k"
  by (auto simp: entry_keys_def table_key_def)

lemma same_elsewhere_row:
  "same_elsewhere t m (m_remove t row m)" "same_elsewhere t m (m_put t row m)"
  by (auto simp: same_elsewhere_def m_remove_def m_put_def dest: entry_keys_table_key)
    (auto simp: table_key_def)

lemma table_holds_remove:
  assumes h: "table_holds t m R" and ids: "distinct (map i_ID (t_Indexes t))"
    and R: "R (row_pk t row) = Some row"
  shows "table_holds t (m_remove t row m) (R(row_pk t row := None))"
proof -
  have "index_held t (m_remove t row m) (R(row_pk t row := None)) ix" if ix: "ix \<in> set (t_Indexes t)" for ix
  proof -
    have "index_held t m R ix" using h ix by (simp add: table_holds_def)
    then show ?thesis
      using R by (auto simp: index_held_def m_remove_def entry_keys_IndexKey [OF ids ix])
  qed
  moreover have "rows_held t (m_remove t row m) (R(row_pk t row := None))"
    using h by (auto simp: table_holds_def rows_held_def m_remove_def)
  ultimately show ?thesis using h by (simp add: table_holds_def rows_ok_def)
qed

lemma table_holds_put:
  assumes h: "table_holds t m R" and ids: "distinct (map i_ID (t_Indexes t))"
    and R: "R (row_pk t row) = None" and row: "is_row t row"
  shows "table_holds t (m_put t row m) (R(row_pk t row \<mapsto> row))"
proof -
  have "index_held t (m_put t row m) (R(row_pk t row \<mapsto> row)) ix" if ix: "ix \<in> set (t_Indexes t)" for ix
  proof -
    have i: "index_held t m R ix" using h ix by (simp add: table_holds_def)
    have "\<exists>v pk. k = IndexKey (t_ID t) (i_ID ix) v pk"
      if "prefix (IndexPrefix (t_ID t) (i_ID ix)) k" "m_put t row m k \<noteq> None" for k
      using that i by (auto simp: index_held_def m_put_def entry_keys_def split: if_splits)
    then show ?thesis
      using R i by (auto simp: index_held_def m_put_def entry_keys_IndexKey [OF ids ix])
  qed
  moreover have "rows_held t (m_put t row m) (R(row_pk t row \<mapsto> row))"
    using h entry_keys_table_key [of _ t row]
    by (auto simp: table_holds_def rows_held_def m_put_def)
  ultimately show ?thesis using h row by (simp add: table_holds_def rows_ok_def)
qed

text \<open>A key that stays is overwritten in place.\<close>

lemma m_put_remove_same:
  "row_pk t new = row_pk t old \<Longrightarrow>
     m_put t new (\<lambda>k. if k \<in> entry_keys t old then None else m k) = m_put t new (m_remove t old m)"
  by (auto simp: m_put_def m_remove_def)

section \<open>Validation\<close>

lemma validate_cols_row:
  assumes "validate_cols t cs row = Inr row'" and "length row = length cs"
  shows "length row' = length cs \<and> (\<forall>i < length cs. Coerce (row ! i) (c_Type (cs ! i)) = Inr (row' ! i) \<and>
     (row' ! i = VNull \<longrightarrow> \<not> c_PrimaryKey (cs ! i) \<and> \<not> c_NotNull (cs ! i)))"
  using assms
proof (induction t cs row arbitrary: row' rule: validate_cols.induct)
  case (3 t c cs x xs)
  then obtain v vs where v: "Coerce x (c_Type c) = Inr v" "row' = v # vs" "validate_cols t cs xs = Inr vs"
    "v = VNull \<longrightarrow> \<not> c_PrimaryKey c \<and> \<not> c_NotNull c"
    by (auto split: sum.splits if_splits)
  then have "length vs = length cs \<and> (\<forall>i < length cs. Coerce (xs ! i) (c_Type (cs ! i)) = Inr (vs ! i) \<and>
     (vs ! i = VNull \<longrightarrow> \<not> c_PrimaryKey (cs ! i) \<and> \<not> c_NotNull (cs ! i)))"
    using 3 by auto
  then show ?case using v by (auto simp: less_Suc_eq_0_disj)
qed auto

lemma validate_is_row: "validate t row = Inr row' \<Longrightarrow> is_row t row'"
  using validate_cols_row [of t "t_Columns t" row row'] Coerce_idem
  by (auto simp: validate_def is_row_def split: if_splits)

lemma validate_cols_fixed:
  assumes "length row = length cs"
    and "\<forall>i < length cs. Coerce (row ! i) (c_Type (cs ! i)) = Inr (row ! i) \<and>
      (row ! i = VNull \<longrightarrow> \<not> c_PrimaryKey (cs ! i) \<and> \<not> c_NotNull (cs ! i))"
  shows "validate_cols t cs row = Inr row"
  using assms
proof (induction t cs row rule: validate_cols.induct)
  case (3 t c cs x xs)
  have "Coerce x (c_Type c) = Inr x \<and> (x = VNull \<longrightarrow> \<not> c_PrimaryKey c \<and> \<not> c_NotNull c)"
    using 3(3) by (auto dest: spec [of _ 0])
  moreover have "\<forall>i < length cs. Coerce (xs ! i) (c_Type (cs ! i)) = Inr (xs ! i) \<and>
      (xs ! i = VNull \<longrightarrow> \<not> c_PrimaryKey (cs ! i) \<and> \<not> c_NotNull (cs ! i))"
    using 3(3) by (auto dest: spec [of _ "Suc _"])
  ultimately show ?case using 3 by auto
qed auto

lemma validate_fixed: "is_row t row \<Longrightarrow> validate t row = Inr row"
  by (simp add: validate_def is_row_def validate_cols_fixed)

text \<open>The keys a row may move to: the one it has, or any that no row has and that is not equal to
  it.  A key that is equal under \<open>Order\<close> but encoded differently, as \<open>0.0\<close> and \<open>-0.0\<close> are, is
  neither.\<close>

definition moves :: "table_rows \<Rightarrow> Value \<Rightarrow> Value \<Rightarrow> bool" where
  "moves R old new \<longleftrightarrow> new = old \<or> \<not> Equal old new \<and> R new = None"

section \<open>The mutator on any store\<close>

context read_writer
begin

lemma write_entries_view:
  assumes "inv st"
  shows "\<exists>st'. write_entries rw t ixs row pk remove st = (None, st') \<and> inv st' \<and>
    view st' = (\<lambda>k. if k \<in> (\<lambda>ix. IndexKey (t_ID t) (i_ID ix) (row ! nat (i_Pos ix)) pk) ` set ixs
      then (if remove then None else Some []) else view st k)"
  using assms
proof (induction ixs arbitrary: st)
  case (Cons ix ixs)
  let ?k = "IndexKey (t_ID t) (i_ID ix) (row ! nat (i_Pos ix)) pk"
  obtain st1 where st1: "(if remove then rw_Delete rw st ?k else rw_Put rw st ?k []) = (None, st1)" "inv st1"
    "view st1 = (view st)(?k := if remove then None else Some [])"
    using Cons.prems by (cases remove) (auto elim: putE deleteE)
  obtain st2 where "write_entries rw t ixs row pk remove st1 = (None, st2)" "inv st2"
    "view st2 = (\<lambda>k. if k \<in> (\<lambda>ix. IndexKey (t_ID t) (i_ID ix) (row ! nat (i_Pos ix)) pk) ` set ixs
      then (if remove then None else Some []) else view st1 k)"
    using Cons.IH [OF st1(2)] by blast
  then show ?case using st1 by (auto simp: Let_def fun_eq_iff)
qed auto

lemma writeIndexes_view:
  assumes "inv st"
  obtains st' where "writeIndexes rw t row (row_pk t row) remove st = (None, st')" "inv st'"
    "view st' = (\<lambda>k. if k \<in> entry_keys t row then (if remove then None else Some []) else view st k)"
  using write_entries_view [OF assms, of t "t_Indexes t" row "row_pk t row" remove]
  by (auto simp: writeIndexes_def entry_keys_def)

lemma put_row_view:
  assumes "inv st"
  obtains st' where "put_row rw t row st = (None, st')" "inv st'" "view st' = m_put t row (view st)"
proof -
  obtain st1 where st1: "rw_Put rw st (RowKey (t_ID t) (row_pk t row)) (EncodeRow [] row) = (None, st1)"
    "inv st1" "view st1 = (view st)(RowKey (t_ID t) (row_pk t row) \<mapsto> EncodeRow [] row)"
    using assms by (rule putE)
  obtain st2 where "writeIndexes rw t row (row_pk t row) False st1 = (None, st2)" "inv st2"
    "view st2 = (\<lambda>k. if k \<in> entry_keys t row then Some [] else view st1 k)"
    using st1(2) by (rule writeIndexes_view [where remove = False and t = t and row = row]) auto
  then show thesis using that [of st2] st1 by (simp add: put_row_def m_put_def fun_eq_iff)
qed

lemma check_free_view:
  assumes "inv st" and "table_holds t (view st) R"
  shows "check_free rw t pk st =
    (if R pk = None then None else Some (ErrDuplicateKey (t_Name t) (c_Name (PKColumn t)) pk))"
  using assms get [of st "RowKey (t_ID t) pk"]
  by (auto simp: check_free_def table_holds_def rows_held_def)

text \<open>What an operation leaves behind: a store of the contract that holds the rows \<open>R'\<close> and is
  otherwise as before.\<close>

definition leaves :: "Table \<Rightarrow> 'st \<Rightarrow> 'st \<Rightarrow> table_rows \<Rightarrow> bool" where
  "leaves t st st' R' \<longleftrightarrow> inv st' \<and> table_holds t (view st') R' \<and> same_elsewhere t (view st) (view st')"

lemma leaves_trans: "leaves t a b R \<Longrightarrow> leaves t b c R' \<Longrightarrow> leaves t a c R'"
  using same_elsewhere_trans by (auto simp: leaves_def)

lemma Insert_view:
  assumes "inv st" and "table_holds t (view st) R" and ids: "distinct (map i_ID (t_Indexes t))"
    and v: "validate t row0 = Inr row"
  shows "if R (row_pk t row) = None
    then \<exists>st'. Mutator_Insert rw t row0 st = (None, st') \<and> leaves t st st' (R(row_pk t row \<mapsto> row))
    else Mutator_Insert rw t row0 st =
      (Some (ErrDuplicateKey (t_Name t) (c_Name (PKColumn t)) (row_pk t row)), st)"
proof (cases "R (row_pk t row) = None")
  case True
  obtain st' where "put_row rw t row st = (None, st')" "inv st'" "view st' = m_put t row (view st)"
    using assms(1) by (rule put_row_view)
  then show ?thesis
    using True v check_free_view [OF assms(1,2), of "row_pk t row"]
      table_holds_put [OF assms(2) ids True validate_is_row [OF v]]
    by (auto simp: Mutator_Insert_def leaves_def same_elsewhere_row)
next
  case False
  then show ?thesis
    using v check_free_view [OF assms(1,2), of "row_pk t row"] by (auto simp: Mutator_Insert_def)
qed

lemma Delete_view:
  assumes "inv st" and "table_holds t (view st) R" and ids: "distinct (map i_ID (t_Indexes t))"
    and R: "R (row_pk t row) = Some row"
  shows "\<exists>st'. Mutator_Delete rw t row st = (None, st') \<and> leaves t st st' (R(row_pk t row := None))"
proof -
  obtain st1 where st1: "writeIndexes rw t row (row_pk t row) True st = (None, st1)" "inv st1"
    "view st1 = (\<lambda>k. if k \<in> entry_keys t row then None else view st k)"
    using assms(1) by (rule writeIndexes_view [where remove = True and t = t and row = row]) auto
  obtain st2 where st2: "rw_Delete rw st1 (RowKey (t_ID t) (row_pk t row)) = (None, st2)" "inv st2"
    "view st2 = (view st1)(RowKey (t_ID t) (row_pk t row) := None)"
    using st1(2) by (rule deleteE)
  have "view st2 = m_remove t row (view st)" using st1 st2 by (auto simp: m_remove_def fun_eq_iff)
  then show ?thesis
    using st1 st2 table_holds_remove [OF assms(2) ids R]
    by (auto simp: Mutator_Delete_def leaves_def same_elsewhere_row)
qed

lemma rewrite_row_view:
  assumes "inv st"
  obtains st' where "rewrite_row rw t old new st = (None, st')" "inv st'"
    "view st' = m_put t new (\<lambda>k. if k \<in> entry_keys t old then None else view st k)"
proof -
  obtain st1 where st1: "writeIndexes rw t old (row_pk t old) True st = (None, st1)" "inv st1"
    "view st1 = (\<lambda>k. if k \<in> entry_keys t old then None else view st k)"
    using assms(1) by (rule writeIndexes_view [where remove = True and t = t and row = old]) auto
  obtain st2 where "put_row rw t new st1 = (None, st2)" "inv st2" "view st2 = m_put t new (view st1)"
    using st1(2) by (rule put_row_view)
  then show thesis using that [of st2] st1 by (simp add: rewrite_row_def)
qed

lemma Update_view:
  assumes "inv st" and "table_holds t (view st) R" and ids: "distinct (map i_ID (t_Indexes t))"
    and R: "R (row_pk t old) = Some old" and v: "validate t new0 = Inr new"
    and m: "moves R (row_pk t old) (row_pk t new)"
  shows "\<exists>st'. Mutator_Update rw t old new0 st = (None, st') \<and>
    leaves t st st' (R(row_pk t old := None, row_pk t new \<mapsto> new))"
proof -
  let ?m = "m_put t new (m_remove t old (view st))"
  have "\<exists>st'. Mutator_Update rw t old new0 st = (None, st') \<and> inv st' \<and> view st' = ?m"
  proof (cases "row_pk t new = row_pk t old")
    case True
    obtain st' where st': "rewrite_row rw t old new st = (None, st')" "inv st'"
      "view st' = m_put t new (\<lambda>k. if k \<in> entry_keys t old then None else view st k)"
      using assms(1) by (rule rewrite_row_view)
    then show ?thesis
      using True v by (simp add: Mutator_Update_def Equal_rank m_put_remove_same)
  next
    case False
    then have free: "R (row_pk t new) = None" "\<not> Equal (row_pk t old) (row_pk t new)"
      using m by (auto simp: moves_def)
    obtain st1 where st1: "rw_Delete rw st (RowKey (t_ID t) (row_pk t old)) = (None, st1)" "inv st1"
      "view st1 = (view st)(RowKey (t_ID t) (row_pk t old) := None)"
      using assms(1) by (rule deleteE)
    obtain st' where "rewrite_row rw t old new st1 = (None, st')" "inv st'"
      "view st' = m_put t new (\<lambda>k. if k \<in> entry_keys t old then None else view st1 k)"
      using st1(2) by (rule rewrite_row_view)
    moreover have "(\<lambda>k. if k \<in> entry_keys t old then None else view st1 k) = m_remove t old (view st)"
      using st1(3) by (auto simp: m_remove_def fun_eq_iff)
    ultimately show ?thesis
      using free v st1 check_free_view [OF assms(1,2), of "row_pk t new"]
      by (simp add: Mutator_Update_def)
  qed
  moreover have "table_holds t ?m ((R(row_pk t old := None))(row_pk t new \<mapsto> new))"
    using m by (intro table_holds_put table_holds_remove assms(2) ids R validate_is_row [OF v])
      (auto simp: moves_def)
  moreover have "same_elsewhere t (view st) ?m"
    using same_elsewhere_trans same_elsewhere_row by blast
  ultimately show ?thesis by (auto simp: leaves_def)
qed

end

section \<open>An empty table and a sample\<close>

lemma table_holds_empty:
  assumes "\<And>k. table_key t k \<Longrightarrow> m k = None"
  shows "table_holds t m Map.empty"
proof -
  have "m (RowKey (t_ID t) pk) = None" for pk
    by (rule assms) (simp add: table_key_def)
  moreover have "m (IndexKey (t_ID t) (i_ID ix) v pk) = None" if "ix \<in> set (t_Indexes t)" for ix v pk
    by (rule assms) (use that in \<open>auto simp: table_key_def\<close>)
  moreover have "prefix (DataPrefix (t_ID t)) k \<Longrightarrow> m k = None" for k
    by (rule assms) (simp add: table_key_def)
  moreover have "prefix (IndexPrefix (t_ID t) (i_ID ix)) k \<Longrightarrow> m k = None" if "ix \<in> set (t_Indexes t)" for ix k
    by (rule assms) (use that in \<open>auto simp: table_key_def\<close>)
  ultimately show ?thesis
    by (auto simp: table_holds_def rows_ok_def rows_held_def index_held_def)
qed

definition sample_indexed :: Table where
  "sample_indexed = sample_table\<lparr>t_NextIndexID := 2, t_Indexes := [sample_index]\<rparr>"

lemma sample_indexed_ok: "table_ok sample_indexed"
  by (simp add: table_ok_def sample_indexed_def sample_table_def sample_def_def sample_cols_def
      sample_index_def PKColumn_def ColumnIndex_def less_Suc_eq)

lemma sample_indexed_simps [simp]:
  "t_ID sample_indexed = 1" "t_PK sample_indexed = 0" "t_Name sample_indexed = ''users''"
  "t_Columns sample_indexed = sample_cols" "t_Indexes sample_indexed = [sample_index]"
  by (simp_all add: sample_indexed_def sample_table_def sample_def_def)

lemma sample_validate:
  "validate sample_indexed [VInt n, v] =
     (if v = VNull \<or> Value_Kind v = KindText then Inr [VInt n, v]
      else Inl (CannotCoerce ''users'' ''name'' (CannotStore (Value_Kind v) KindText)))"
  by (cases v) (simp_all add: validate_def sample_cols_def Coerce_def)

section \<open>Properties\<close>

text \<open>Inserting a row into a table stores it under its primary key with one entry in every index;
  a row that fails validation, or whose key is taken, is refused with that error and nothing is
  written.  No key outside the table is touched.\<close>

theorem insert_row:
  assumes "overlay_inv st" and "table_holds t (overlay_view st) R" and "table_ok t"
  shows "case validate t row0 of
      Inl e \<Rightarrow> Mutator_Insert Overlay_rw t row0 st = (Some e, st)
    | Inr row \<Rightarrow>
        if R (row_pk t row) = None
        then \<exists>st'. Mutator_Insert Overlay_rw t row0 st = (None, st') \<and> overlay_inv st' \<and>
          table_holds t (overlay_view st') (R(row_pk t row \<mapsto> row)) \<and>
          same_elsewhere t (overlay_view st) (overlay_view st')
        else Mutator_Insert Overlay_rw t row0 st =
          (Some (ErrDuplicateKey (t_Name t) (c_Name (PKColumn t)) (row_pk t row)), st)"
proof (cases "validate t row0")
  case (Inr row)
  have "distinct (map i_ID (t_Indexes t))" using assms(3) by (simp add: table_ok_def)
  from overlay.Insert_view [OF assms(1,2) this Inr] show ?thesis
    by (auto simp: Inr overlay.leaves_def split: if_splits)
qed (simp add: Mutator_Insert_def)

text \<open>Updating a stored row replaces it, under its new primary key if that changes, and rewrites
  exactly its index entries.  A new row that fails validation, or whose key another row has, is
  refused and nothing is written.\<close>

theorem update_row:
  assumes "overlay_inv st" and "table_holds t (overlay_view st) R" and "table_ok t"
    and "R (row_pk t old) = Some old" and "validate t new0 = Inr new"
  shows "moves R (row_pk t old) (row_pk t new) \<Longrightarrow>
      \<exists>st'. Mutator_Update Overlay_rw t old new0 st = (None, st') \<and> overlay_inv st' \<and>
        table_holds t (overlay_view st') (R(row_pk t old := None, row_pk t new \<mapsto> new)) \<and>
        same_elsewhere t (overlay_view st) (overlay_view st')"
    and "\<not> Equal (row_pk t old) (row_pk t new) \<Longrightarrow> R (row_pk t new) \<noteq> None \<Longrightarrow>
      Mutator_Update Overlay_rw t old new0 st =
        (Some (ErrDuplicateKey (t_Name t) (c_Name (PKColumn t)) (row_pk t new)), st)"
  using overlay.Update_view [OF assms(1,2) _ assms(4,5)] assms(3,5)
    overlay.check_free_view [OF assms(1,2), of "row_pk t new"]
  by (auto simp: overlay.leaves_def table_ok_def Mutator_Update_def)

text \<open>Deleting a stored row removes it and its entry in every index, and nothing else.\<close>

theorem delete_row:
  assumes "overlay_inv st" and "table_holds t (overlay_view st) R" and "table_ok t"
    and "R (row_pk t row) = Some row"
  shows "\<exists>st'. Mutator_Delete Overlay_rw t row st = (None, st') \<and> overlay_inv st' \<and>
    table_holds t (overlay_view st') (R(row_pk t row := None)) \<and>
    same_elsewhere t (overlay_view st) (overlay_view st')"
  using overlay.Delete_view [OF assms(1,2) _ assms(4)] assms(3)
  by (simp add: overlay.leaves_def table_ok_def)

lemma sample_empty_holds: "table_holds t (overlay_view sample_empty) Map.empty"
  by (simp add: table_holds_empty sample_empty_view)

definition sample_rows :: table_rows where
  "sample_rows = [VInt 1 \<mapsto> [VInt 1, VText ''ann''], VInt 2 \<mapsto> [VInt 2, VNull]]"

context read_writer begin

lemma sample_stored:
  assumes "inv st" and "view st = Map.empty"
  shows "\<exists>st'. inv st' \<and> table_holds sample_indexed (view st') sample_rows"
proof -
  have ids: "distinct (map i_ID (t_Indexes sample_indexed))" by simp
  have v: "validate sample_indexed [VInt 1, VText ''ann''] = Inr [VInt 1, VText ''ann'']"
    "validate sample_indexed [VInt 2, VNull] = Inr [VInt 2, VNull]"
    by (simp_all add: sample_validate)
  have "table_holds sample_indexed (view st) Map.empty" by (simp add: table_holds_empty assms(2))
  from Insert_view [OF assms(1) this ids v(1)] obtain st1 where st1: "inv st1"
    "table_holds sample_indexed (view st1) [VInt 1 \<mapsto> [VInt 1, VText ''ann'']]"
    by (auto simp: leaves_def)
  show ?thesis using Insert_view [OF st1 ids v(2)] by (auto simp: leaves_def sample_rows_def)
qed

end

lemma sample_holds:
  obtains st where "overlay_inv st" and "table_holds sample_indexed (overlay_view st) sample_rows"
  using overlay.sample_stored [of sample_empty] sample_empty_view by blast

lemma sample_memory_holds:
  obtains st where "memory_inv st" and "table_holds sample_indexed (memory_view st) sample_rows"
  using memory.sample_stored [of NewMemory] by (auto simp: memory_inv_def memory_view_def NewMemory_def)

theorem insert_row_witness:
  "\<exists>st'. Mutator_Insert Overlay_rw sample_indexed [VInt 1, VText ''ann''] sample_empty = (None, st') \<and>
     table_holds sample_indexed (overlay_view st') [VInt 1 \<mapsto> [VInt 1, VText ''ann'']]"
  using insert_row [OF sample_empty_view(2) sample_empty_holds sample_indexed_ok, of "[VInt 1, VText ''ann'']"]
  by (auto simp: sample_validate)

theorem update_row_witness:
  "\<exists>st st'. Mutator_Update Overlay_rw sample_indexed [VInt 2, VNull] [VInt 3, VNull] st = (None, st') \<and>
     table_holds sample_indexed (overlay_view st') (sample_rows(VInt 2 := None, VInt 3 \<mapsto> [VInt 3, VNull]))"
proof -
  obtain st where st: "overlay_inv st" "table_holds sample_indexed (overlay_view st) sample_rows"
    by (rule sample_holds)
  have "moves sample_rows (VInt 2) (VInt 3)"
    by (simp add: moves_def sample_rows_def Equal_def cmp3_def)
  then show ?thesis
    using update_row(1) [OF st sample_indexed_ok, of "[VInt 2, VNull]" "[VInt 3, VNull]" "[VInt 3, VNull]"]
    by (auto simp: sample_rows_def sample_validate)
qed

theorem delete_row_witness:
  "\<exists>st st'. Mutator_Delete Overlay_rw sample_indexed [VInt 2, VNull] st = (None, st') \<and>
     table_holds sample_indexed (overlay_view st') [VInt 1 \<mapsto> [VInt 1, VText ''ann'']]"
proof -
  obtain st where st: "overlay_inv st" "table_holds sample_indexed (overlay_view st) sample_rows"
    by (rule sample_holds)
  have "sample_rows(VInt 2 := None) = [VInt 1 \<mapsto> [VInt 1, VText ''ann'']]"
    by (auto simp: sample_rows_def)
  then show ?thesis
    using delete_row [OF st sample_indexed_ok, of "[VInt 2, VNull]"] by (auto simp: sample_rows_def)
qed

text \<open>C34: A primary key changed to a value that is equal but encoded differently, as from \<open>0.0\<close> to
  \<open>-0.0\<close>, is not treated as a change: the row is written under the new key and stays under the
  old one, so the table then has two rows with equal primary keys.\<close>

theorem update_equal_key_duplicates:
  assumes "overlay_inv st" and "table_holds t (overlay_view st) R" and "table_ok t"
    and "R (row_pk t old) = Some old" and "validate t new0 = Inr new"
    and "Equal (row_pk t old) (row_pk t new)" and "row_pk t new \<noteq> row_pk t old"
  shows "\<exists>st'. Mutator_Update Overlay_rw t old new0 st = (None, st') \<and>
    overlay_view st' (RowKey (t_ID t) (row_pk t old)) = Some (EncodeRow [] old) \<and>
    overlay_view st' (RowKey (t_ID t) (row_pk t new)) = Some (EncodeRow [] new)"
proof -
  obtain st' where "rewrite_row Overlay_rw t old new st = (None, st')"
    "overlay_view st' = m_put t new (\<lambda>k. if k \<in> entry_keys t old then None else overlay_view st k)"
    using assms(1) by (rule overlay.rewrite_row_view)
  moreover have "overlay_view st (RowKey (t_ID t) (row_pk t old)) = Some (EncodeRow [] old)"
    using assms(2,4) by (simp add: table_holds_def rows_held_def)
  ultimately show ?thesis using assms(5-7) by (auto simp: Mutator_Update_def m_put_def)
qed

definition sample_float_table :: Table where
  "sample_float_table = \<lparr>t_Name = ''f'', t_ID = 7,
     t_Columns = [\<lparr>c_Name = ''x'', c_Type = KindFloat, c_NotNull = True, c_PrimaryKey = True\<rparr>],
     t_PK = 0, t_Indexes = [], t_NextIndexID = 1\<rparr>"

theorem update_equal_key_duplicates_witness:
  "\<exists>st st'. Mutator_Update Overlay_rw sample_float_table [VFloat f_pos_zero] [VFloat f_neg_zero] st = (None, st') \<and>
     overlay_view st' (RowKey 7 (VFloat f_pos_zero)) \<noteq> None \<and>
     overlay_view st' (RowKey 7 (VFloat f_neg_zero)) \<noteq> None"
proof -
  let ?t = sample_float_table
  have t: "table_ok ?t"
    by (simp add: table_ok_def sample_float_table_def PKColumn_def)
  have v: "validate ?t [VFloat f] = Inr [VFloat f]" for f
    by (simp add: validate_def sample_float_table_def Coerce_def)
  have ids: "distinct (map i_ID (t_Indexes ?t))" by (simp add: sample_float_table_def)
  have pk: "row_pk ?t [VFloat f] = VFloat f" "t_ID ?t = 7" for f
    by (simp_all add: sample_float_table_def)
  obtain st where st: "overlay_inv st"
    "table_holds ?t (overlay_view st) [VFloat f_pos_zero \<mapsto> [VFloat f_pos_zero]]"
    using overlay.Insert_view [OF sample_empty_view(2) sample_empty_holds ids v, of f_pos_zero]
    by (auto simp: pk overlay.leaves_def)
  have "f_mag f_pos_zero = 0" "f_mag f_neg_zero = 0"
    by (simp_all add: f_pos_zero_def f_neg_zero_def f_mag_def)
  then have "Equal (VFloat f_pos_zero) (VFloat f_neg_zero)"
    using f_int_eq_cases [of f_pos_zero f_neg_zero] by (simp add: Equal_def f_rank_def IsNaN_mag)
  moreover have "VFloat f_neg_zero \<noteq> VFloat f_pos_zero"
    by (simp add: f_pos_zero_def f_neg_zero_def)
  ultimately show ?thesis
    using update_equal_key_duplicates [OF st t _ v, of "[VFloat f_pos_zero]" f_neg_zero] by (auto simp: pk)
qed

end
