(* ===== verification/Session.thy ===== *)
theory Session
  imports Progress Planner Parser TableData
begin

text \<open>
  Databases, transactions and sessions: \<open>src/keelsql.go\<close> and \<open>src/conn.go\<close>.  A database is the state
  of its keelstore, a parameter as in the storage seam, and the catalog; a transaction is an overlay of
  a write buffer on a snapshot, which is the store as it was when the transaction began; a session is
  the transaction it has open, if any.  A statement takes the database and the session to new ones.
  Locks are not modelled: a statement is one step, and sessions interleave between statements.
\<close>

section \<open>State\<close>

record 'db DB =
  db_store :: 'db
  db_cat :: Catalog

record Tx =
  tx_rw :: Overlay
  tx_done :: bool

record Conn =
  conn_tx :: "Tx option"

record Result =
  r_Tag :: string
  r_Columns :: "string list"
  r_Rows :: "Row list"
  r_Affected :: int64
  r_Plan :: string

datatype conn_error =
    ErrNoTransaction
  | ErrTransactionOpen
  | ErrDDLInTransaction
  | TransactionFinished
  | QueryWantsSelect Stmt
  | NotASchemaStatement Plan
  | CParse parse_error
  | CPlan plan_error
  | CExec exec_error
  | CCatalog catalog_error
  | CKeel keel_error

definition tagged :: "string \<Rightarrow> Result" where
  "tagged tag = \<lparr>r_Tag = tag, r_Columns = [], r_Rows = [], r_Affected = 0, r_Plan = []\<rparr>"

section \<open>Databases\<close>

definition DB_Open :: "'db keelstore \<Rightarrow> json \<Rightarrow> 'db \<Rightarrow> conn_error + 'db DB" where
  "DB_Open ks js store =
     (case Load js (Store_reader ks store) of
        Inl e \<Rightarrow> Inl (CCatalog e)
      | Inr cat \<Rightarrow> Inr \<lparr>db_store = store, db_cat = cat\<rparr>)"

definition DB_Conn :: Conn where
  "DB_Conn = \<lparr>conn_tx = None\<rparr>"

section \<open>Transactions\<close>

definition DB_begin :: "'db keelstore \<Rightarrow> 'db DB \<Rightarrow> Tx" where
  "DB_begin ks db = \<lparr>tx_rw = NewOverlay (Store_reader ks (db_store db)) NewBuffer, tx_done = False\<rparr>"

fun apply_entries :: "'db keelstore \<Rightarrow> Entry list \<Rightarrow> 'db \<Rightarrow> keel_error option \<times> 'db" where
  "apply_entries ks [] st = (None, st)"
| "apply_entries ks (e # es) st =
     (case (if e_Deleted e then ks_Delete ks st (e_Key e) else ks_Put ks st (e_Key e) (e_Value e)) of
        (Some err, st') \<Rightarrow> (Some err, st')
      | (None, st') \<Rightarrow> apply_entries ks es st')"

definition Tx_Commit :: "'db keelstore \<Rightarrow> Tx \<Rightarrow> 'db DB \<Rightarrow> conn_error option \<times> Tx \<times> 'db DB" where
  "Tx_Commit ks tx db =
     (if tx_done tx then (Some TransactionFinished, tx, db)
      else
        (let (entries, buf) = Entries (Buf (tx_rw tx));
             tx' = tx\<lparr>tx_done := True, tx_rw := (tx_rw tx)\<lparr>Buf := buf\<rparr>\<rparr>
         in if entries = [] then (None, tx', db)
            else
              (case apply_entries ks entries (db_store db) of
                 (err, st) \<Rightarrow> (map_option CKeel err, tx', db\<lparr>db_store := st\<rparr>))))"

definition Tx_Rollback :: "Tx \<Rightarrow> Tx" where
  "Tx_Rollback tx =
     (if tx_done tx then tx
      else tx\<lparr>tx_done := True, tx_rw := (tx_rw tx)\<lparr>Buf := Buffer_Reset (Buf (tx_rw tx))\<rparr>\<rparr>)"

definition Tx_Writes :: "Tx \<Rightarrow> nat" where
  "Tx_Writes tx = Buffer_Len (Buf (tx_rw tx))"

definition InTx :: "Conn \<Rightarrow> bool" where
  "InTx c \<longleftrightarrow> conn_tx c \<noteq> None"

section \<open>Streaming rows\<close>

text \<open>The cursor reads through the transaction it was opened in: its own one, or the session's, given
  here as \<open>rd\<close>.\<close>

record Rows =
  rs_cols :: "string list"
  rs_op :: Operator
  rs_tx :: Tx
  rs_owned :: bool
  rs_row :: Row
  rs_err :: "exec_error option"
  rs_closed :: bool

definition Rows_Next :: "Reader \<Rightarrow> Rows \<Rightarrow> (bool \<times> Rows) option" where
  "Rows_Next rd r =
     (if rs_closed r \<or> rs_err r \<noteq> None then Some (False, r)
      else
        (case op_Next rd (rs_op r) of
           None \<Rightarrow> None
         | Some (Inl e, op) \<Rightarrow> Some (False, r\<lparr>rs_op := op, rs_err := Some e\<rparr>)
         | Some (Inr None, op) \<Rightarrow> Some (False, r\<lparr>rs_op := op\<rparr>)
         | Some (Inr (Some row), op) \<Rightarrow> Some (True, r\<lparr>rs_op := op, rs_row := row\<rparr>)))"

definition Rows_Close :: "Rows \<Rightarrow> Rows" where
  "Rows_Close r =
     (if rs_closed r then r
      else (if rs_owned r then r\<lparr>rs_closed := True, rs_tx := Tx_Rollback (rs_tx r)\<rparr>
            else r\<lparr>rs_closed := True\<rparr>))"

text \<open>\<open>for rows.Next() { res.Rows = append(res.Rows, rows.Row()) }\<close>\<close>

fun collect :: "nat \<Rightarrow> Reader \<Rightarrow> Rows \<Rightarrow> Row list \<Rightarrow> (Row list \<times> Rows) option" where
  "collect 0 rd r out = None"
| "collect (Suc n) rd r out =
     (case Rows_Next rd r of
        None \<Rightarrow> None
      | Some (True, r') \<Rightarrow> collect n rd r' (out @ [rs_row r'])
      | Some (False, r') \<Rightarrow> Some (out, r'))"

section \<open>Statements\<close>

text \<open>The transaction a statement runs in, and whether it is its own.\<close>

definition tx_for :: "'db keelstore \<Rightarrow> 'db DB \<Rightarrow> Conn \<Rightarrow> Tx \<times> bool" where
  "tx_for ks db c = (case conn_tx c of Some tx \<Rightarrow> (tx, False) | None \<Rightarrow> (DB_begin ks db, True))"

definition Conn_query :: "'db keelstore \<Rightarrow> Select \<Rightarrow> 'db DB \<Rightarrow> Conn \<Rightarrow> conn_error + Rows" where
  "Conn_query ks s db c =
     (case Planner_Plan (db_cat db) (SelectStmt s) of
        Inl e \<Rightarrow> Inl (CPlan e)
      | Inr p \<Rightarrow>
          (let (tx, owned) = tx_for ks db c in
           case Build p (Overlay_reader (tx_rw tx)) of
             Inl e \<Rightarrow> Inl (CExec e)
           | Inr op \<Rightarrow>
               Inr \<lparr>rs_cols = (case plan_columns p of None \<Rightarrow> [] | Some names \<Rightarrow> names), rs_op = op, rs_tx = tx,
                    rs_owned = owned, rs_row = [], rs_err = None, rs_closed = False\<rparr>))"

definition selectRows :: "'db keelstore \<Rightarrow> Select \<Rightarrow> 'db DB \<Rightarrow> Conn \<Rightarrow> (conn_error + Result) option" where
  "selectRows ks s db c =
     (case Conn_query ks s db c of
        Inl e \<Rightarrow> Some (Inl e)
      | Inr rows \<Rightarrow>
          (case collect (Suc (op_size (rs_op rows))) (Overlay_reader (tx_rw (rs_tx rows))) rows [] of
             None \<Rightarrow> None
           | Some (out, rows') \<Rightarrow>
               Some (case rs_err rows' of
                 Some e \<Rightarrow> Inl (CExec e)
               | None \<Rightarrow>
                   Inr ((tagged ''SELECT'')\<lparr>r_Columns := rs_cols rows, r_Rows := out, r_Affected := of_nat (length out)\<rparr>))))"

fun split_lines_loop :: "string \<Rightarrow> string \<Rightarrow> string list" where
  "split_lines_loop line [] = [line]"
| "split_lines_loop line (ch # s) =
     (if ch = CHR 0x0A then line # split_lines_loop [] s else split_lines_loop (line @ [ch]) s)"

definition splitLines :: "string \<Rightarrow> string list" where
  "splitLines s = split_lines_loop [] s"

definition Conn_explain :: "Stmt \<Rightarrow> 'db DB \<Rightarrow> conn_error + Result" where
  "Conn_explain stmt db =
     (case Planner_Plan (db_cat db) stmt of
        Inl e \<Rightarrow> Inl (CPlan e)
      | Inr p \<Rightarrow>
          (let tree = Explain p in
           Inr ((tagged ''EXPLAIN'')\<lparr>r_Plan := tree, r_Columns := [''plan''],
             r_Rows := map (\<lambda>line. [VText line]) (splitLines tree)\<rparr>)))"

definition dmlTag :: "Stmt \<Rightarrow> string" where
  "dmlTag stmt =
     (case stmt of InsertStmt _ _ _ \<Rightarrow> ''INSERT'' | UpdateStmt _ _ _ \<Rightarrow> ''UPDATE'' | DeleteStmt _ _ \<Rightarrow> ''DELETE''
      | _ \<Rightarrow> ''OK'')"

type_synonym 'db ran = "((conn_error + Result) \<times> 'db DB \<times> Conn) option"

definition Conn_dml :: "'db keelstore \<Rightarrow> Stmt \<Rightarrow> 'db DB \<Rightarrow> Conn \<Rightarrow> 'db ran" where
  "Conn_dml ks stmt db c =
     (case Planner_Plan (db_cat db) stmt of
        Inl e \<Rightarrow> Some (Inl (CPlan e), db, c)
      | Inr p \<Rightarrow>
          (let (tx, owned) = tx_for ks db c in
           case RunDML Overlay_rw p (tx_rw tx) of
             None \<Rightarrow> None
           | Some (affected, err, rw) \<Rightarrow>
               (let tx' = tx\<lparr>tx_rw := rw\<rparr>;
                    c' = (if owned then c else c\<lparr>conn_tx := Some tx'\<rparr>);
                    ok = Inr ((tagged (dmlTag stmt))\<lparr>r_Affected := affected\<rparr>)
                in case err of
                  Some e \<Rightarrow> Some (Inl (CExec e), db, c')
                | None \<Rightarrow>
                    if owned then
                      (case Tx_Commit ks tx' db of
                         (Some e, _, db') \<Rightarrow> Some (Inl e, db', c')
                       | (None, _, db') \<Rightarrow> Some (ok, db', c'))
                    else Some (ok, db, c'))))"

section \<open>Schema changes\<close>

definition is_missing :: "plan_error \<Rightarrow> bool" where
  "is_missing e \<longleftrightarrow> (case e of PlCatalog (ErrTableNotFound _) \<Rightarrow> True | PlCatalog (ErrIndexNotFound _) \<Rightarrow> True | _ \<Rightarrow> False)"

definition isExistenceSkip :: "Stmt \<Rightarrow> plan_error \<Rightarrow> bool" where
  "isExistenceSkip stmt e \<longleftrightarrow> is_missing e \<and>
     (case stmt of DropTableStmt _ ie \<Rightarrow> ie | DropIndexStmt _ ie \<Rightarrow> ie | CreateIndexStmt _ _ _ ine \<Rightarrow> ine | _ \<Rightarrow> False)"

definition ddlTag :: "Stmt \<Rightarrow> string" where
  "ddlTag stmt =
     (case stmt of CreateTableStmt _ _ _ \<Rightarrow> ''CREATE TABLE'' | DropTableStmt _ _ \<Rightarrow> ''DROP TABLE''
      | CreateIndexStmt _ _ _ _ \<Rightarrow> ''CREATE INDEX'' | DropIndexStmt _ _ \<Rightarrow> ''DROP INDEX'' | _ \<Rightarrow> ''OK'')"

type_synonym 'db changed = "conn_error option \<times> 'db DB"

definition ddl_createTable :: "'db keelstore \<Rightarrow> json \<Rightarrow> Table \<Rightarrow> bool \<Rightarrow> 'db DB \<Rightarrow> 'db changed" where
  "ddl_createTable ks js def ine db =
     (if Has (db_cat db) (t_Name def) then
        (if ine then (None, db) else (Some (CCatalog (ErrTableExists (t_Name def))), db))
      else
        (case Create js (Store_rw ks) (db_store db) (db_cat db) def of
           (r, st, cat) \<Rightarrow>
             ((case r of Inl e \<Rightarrow> Some (CCatalog e) | Inr _ \<Rightarrow> None), \<lparr>db_store = st, db_cat = cat\<rparr>)))"

definition ddl_dropTable :: "'db keelstore \<Rightarrow> string \<Rightarrow> bool \<Rightarrow> 'db DB \<Rightarrow> 'db changed" where
  "ddl_dropTable ks name ie db =
     (case Catalog_Get (db_cat db) name of
        Inl e \<Rightarrow>
          (case e of
             ErrTableNotFound _ \<Rightarrow> if ie then (None, db) else (Some (CCatalog e), db)
           | _ \<Rightarrow> (Some (CCatalog e), db))
      | Inr t \<Rightarrow>
          (case DropTableData (Store_rw ks) t (db_store db) of
             (Some e, st) \<Rightarrow> (Some (CExec e), db\<lparr>db_store := st\<rparr>)
           | (None, st) \<Rightarrow>
               (case Drop (Store_rw ks) st (db_cat db) name of
                  (err, st', cat) \<Rightarrow> (map_option CCatalog err, \<lparr>db_store = st', db_cat = cat\<rparr>))))"

definition ddl_createIndex :: "'db keelstore \<Rightarrow> json \<Rightarrow> Table \<Rightarrow> string \<Rightarrow> int \<Rightarrow> bool \<Rightarrow> 'db DB \<Rightarrow> 'db changed" where
  "ddl_createIndex ks js t name col ine db =
     (case Catalog_FindIndex (db_cat db) name of
        Inr _ \<Rightarrow> (if ine then (None, db) else (Some (CCatalog (ErrIndexExists name)), db))
      | Inl _ \<Rightarrow>
          (case AddIndex js (Store_rw ks) (db_store db) (db_cat db) (t_Name t) name (c_Name (t_Columns t ! nat col)) of
             (Inl e, st, cat) \<Rightarrow> (Some (CCatalog e), \<lparr>db_store = st, db_cat = cat\<rparr>)
           | (Inr (table, ix), st, cat) \<Rightarrow>
               (case BuildIndex (Store_rw ks) table ix st of
                  (err, st') \<Rightarrow> (map_option CExec err, \<lparr>db_store = st', db_cat = cat\<rparr>))))"

definition ddl_dropIndex :: "'db keelstore \<Rightarrow> json \<Rightarrow> string \<Rightarrow> bool \<Rightarrow> 'db DB \<Rightarrow> 'db changed" where
  "ddl_dropIndex ks js name ie db =
     (case Catalog_FindIndex (db_cat db) name of
        Inl e \<Rightarrow>
          (case e of
             ErrIndexNotFound _ \<Rightarrow> if ie then (None, db) else (Some (CCatalog e), db)
           | _ \<Rightarrow> (Some (CCatalog e), db))
      | Inr (table, ix) \<Rightarrow>
          (case DropIndexEntries (Store_rw ks) table ix (db_store db) of
             (Some e, st) \<Rightarrow> (Some (CExec e), db\<lparr>db_store := st\<rparr>)
           | (None, st) \<Rightarrow>
               (case RemoveIndex js (Store_rw ks) st (db_cat db) name of
                  (r, st', cat) \<Rightarrow>
                    ((case r of Inl e \<Rightarrow> Some (CCatalog e) | Inr _ \<Rightarrow> None), \<lparr>db_store = st', db_cat = cat\<rparr>))))"

definition apply_ddl :: "'db keelstore \<Rightarrow> json \<Rightarrow> Plan \<Rightarrow> 'db DB \<Rightarrow> 'db changed" where
  "apply_ddl ks js p db =
     (case p of
        PCreateTable def ine \<Rightarrow> ddl_createTable ks js def ine db
      | PDropTable name ie \<Rightarrow> ddl_dropTable ks name ie db
      | PCreateIndex t name col ine \<Rightarrow> ddl_createIndex ks js t name col ine db
      | PDropIndex name ie \<Rightarrow> ddl_dropIndex ks js name ie db
      | _ \<Rightarrow> (Some (NotASchemaStatement p), db))"

definition Conn_ddl :: "'db keelstore \<Rightarrow> json \<Rightarrow> Stmt \<Rightarrow> 'db DB \<Rightarrow> Conn \<Rightarrow> (conn_error + Result) \<times> 'db DB" where
  "Conn_ddl ks js stmt db c =
     (if InTx c then (Inl ErrDDLInTransaction, db)
      else
        (case Planner_Plan (db_cat db) stmt of
           Inl e \<Rightarrow> ((if isExistenceSkip stmt e then Inr (tagged (ddlTag stmt)) else Inl (CPlan e)), db)
         | Inr p \<Rightarrow>
             (case apply_ddl ks js p db of
                (Some e, db') \<Rightarrow> (Inl e, db')
              | (None, db') \<Rightarrow> (Inr (tagged (ddlTag stmt)), db'))))"

section \<open>Dispatch\<close>

definition Conn_run :: "'db keelstore \<Rightarrow> json \<Rightarrow> Stmt \<Rightarrow> 'db DB \<Rightarrow> Conn \<Rightarrow> 'db ran" where
  "Conn_run ks js stmt db c =
     (case stmt of
        BeginStmt \<Rightarrow>
          (if InTx c then Some (Inl ErrTransactionOpen, db, c)
           else Some (Inr (tagged ''BEGIN''), db, c\<lparr>conn_tx := Some (DB_begin ks db)\<rparr>))
      | CommitStmt \<Rightarrow>
          (case conn_tx c of
             None \<Rightarrow> Some (Inl ErrNoTransaction, db, c)
           | Some tx \<Rightarrow>
               (case Tx_Commit ks tx db of
                  (Some e, _, db') \<Rightarrow> Some (Inl e, db', c\<lparr>conn_tx := None\<rparr>)
                | (None, _, db') \<Rightarrow> Some (Inr (tagged ''COMMIT''), db', c\<lparr>conn_tx := None\<rparr>)))
      | RollbackStmt \<Rightarrow>
          (case conn_tx c of
             None \<Rightarrow> Some (Inl ErrNoTransaction, db, c)
           | Some tx \<Rightarrow> Some (Inr (tagged ''ROLLBACK''), db, c\<lparr>conn_tx := None\<rparr>))
      | ExplainStmt s \<Rightarrow> Some (Conn_explain s db, db, c)
      | SelectStmt s \<Rightarrow> map_option (\<lambda>r. (r, db, c)) (selectRows ks s db c)
      | InsertStmt _ _ _ \<Rightarrow> Conn_dml ks stmt db c
      | UpdateStmt _ _ _ \<Rightarrow> Conn_dml ks stmt db c
      | DeleteStmt _ _ \<Rightarrow> Conn_dml ks stmt db c
      | _ \<Rightarrow> (case Conn_ddl ks js stmt db c of (r, db') \<Rightarrow> Some (r, db', c)))"

text \<open>\<open>Exec\<close>, \<open>ExecScript\<close> and \<open>Query\<close> of a session.\<close>

definition Conn_Exec :: "casing \<Rightarrow> 'db keelstore \<Rightarrow> json \<Rightarrow> string \<Rightarrow> 'db DB \<Rightarrow> Conn \<Rightarrow> 'db ran" where
  "Conn_Exec cs ks js sql db c =
     (case Parse cs sql of
        None \<Rightarrow> None
      | Some (Inl e) \<Rightarrow> Some (Inl (CParse e), db, c)
      | Some (Inr stmt) \<Rightarrow> Conn_run ks js stmt db c)"

fun run_all :: "'db keelstore \<Rightarrow> json \<Rightarrow> Stmt list \<Rightarrow> Result list \<Rightarrow> 'db DB \<Rightarrow> Conn
    \<Rightarrow> (Result list \<times> conn_error option \<times> 'db DB \<times> Conn) option" where
  "run_all ks js [] out db c = Some (out, None, db, c)"
| "run_all ks js (stmt # stmts) out db c =
     (case Conn_run ks js stmt db c of
        None \<Rightarrow> None
      | Some (Inl e, db', c') \<Rightarrow> Some (out, Some e, db', c')
      | Some (Inr res, db', c') \<Rightarrow> run_all ks js stmts (out @ [res]) db' c')"

definition Conn_ExecScript :: "casing \<Rightarrow> 'db keelstore \<Rightarrow> json \<Rightarrow> string \<Rightarrow> 'db DB \<Rightarrow> Conn
    \<Rightarrow> (Result list \<times> conn_error option \<times> 'db DB \<times> Conn) option" where
  "Conn_ExecScript cs ks js sql db c =
     (case ParseMany cs sql of
        None \<Rightarrow> None
      | Some (Inl e) \<Rightarrow> Some ([], Some (CParse e), db, c)
      | Some (Inr stmts) \<Rightarrow> run_all ks js stmts [] db c)"

definition Conn_Query :: "casing \<Rightarrow> 'db keelstore \<Rightarrow> string \<Rightarrow> 'db DB \<Rightarrow> Conn \<Rightarrow> (conn_error + Rows) option" where
  "Conn_Query cs ks sql db c =
     (case Parse cs sql of
        None \<Rightarrow> None
      | Some (Inl e) \<Rightarrow> Some (Inl (CParse e))
      | Some (Inr stmt) \<Rightarrow>
          Some (case stmt of SelectStmt s \<Rightarrow> Conn_query ks s db c | _ \<Rightarrow> Inl (QueryWantsSelect stmt)))"

text \<open>The same on a session of their own, which is thrown away.\<close>

definition DB_Exec :: "casing \<Rightarrow> 'db keelstore \<Rightarrow> json \<Rightarrow> string \<Rightarrow> 'db DB \<Rightarrow> ((conn_error + Result) \<times> 'db DB) option" where
  "DB_Exec cs ks js sql db = map_option (\<lambda>(r, db', c). (r, db')) (Conn_Exec cs ks js sql db DB_Conn)"

definition DB_ExecScript :: "casing \<Rightarrow> 'db keelstore \<Rightarrow> json \<Rightarrow> string \<Rightarrow> 'db DB
    \<Rightarrow> (Result list \<times> conn_error option \<times> 'db DB) option" where
  "DB_ExecScript cs ks js sql db = map_option (\<lambda>(out, err, db', c). (out, err, db')) (Conn_ExecScript cs ks js sql db DB_Conn)"

definition DB_Query :: "casing \<Rightarrow> 'db keelstore \<Rightarrow> string \<Rightarrow> 'db DB \<Rightarrow> (conn_error + Rows) option" where
  "DB_Query cs ks sql db = Conn_Query cs ks sql db DB_Conn"

section \<open>Statements return\<close>

lemma Rows_Next_shrinks:
  assumes "Rows_Next rd r = Some (True, r')"
  shows "op_size (rs_op r') < op_size (rs_op r)"
  using assms op_Next_shrinks
  by (fastforce simp: Rows_Next_def split: if_splits option.splits prod.splits sum.splits)

lemma Rows_Next_returns: "\<exists>b r'. Rows_Next rd r = Some (b, r')"
  using op_Next_returns [of rd "rs_op r"] by (auto simp: Rows_Next_def split: sum.split option.split)

lemma collect_returns: "op_size (rs_op r) < n \<Longrightarrow> \<exists>out' r'. collect n rd r out = Some (out', r')"
proof (induction n arbitrary: r out)
  case (Suc n)
  obtain b r' where nx: "Rows_Next rd r = Some (b, r')" using Rows_Next_returns by blast
  then show ?case
    using Suc.IH [of r'] Rows_Next_shrinks [of rd r r'] Suc.prems by (cases b) (simp_all add: nx)
qed simp

lemma selectRows_returns: "\<exists>r. selectRows ks s db c = Some r"
proof (cases "Conn_query ks s db c")
  case (Inr rows)
  then show ?thesis
    using collect_returns [of rows "Suc (op_size (rs_op rows))" "Overlay_reader (tx_rw (rs_tx rows))" "[]"]
    by (auto simp: selectRows_def simp del: collect.simps)
qed (simp add: selectRows_def)

lemma Conn_dml_returns: "\<exists>r db' c'. Conn_dml ks stmt db c = Some (r, db', c')"
proof (cases "Planner_Plan (db_cat db) stmt")
  case (Inr p)
  obtain tx owned where tx: "tx_for ks db c = (tx, owned)" by fastforce
  obtain n err rw where "RunDML Overlay_rw p (tx_rw tx) = Some (n, err, rw)" using RunDML_returns [of Overlay_rw p "tx_rw tx"] by blast
  then show ?thesis
    using Inr tx by (auto simp: Conn_dml_def Let_def split: option.split prod.split)
qed (simp add: Conn_dml_def)

lemma Conn_run_returns: "\<exists>r db' c'. Conn_run ks js stmt db c = Some (r, db', c')"
  using selectRows_returns [of ks _ db c] Conn_dml_returns [of ks stmt db c]
  by (cases stmt) (auto simp: Conn_run_def split: option.split prod.split)

lemma run_all_returns: "\<exists>out' err db' c'. run_all ks js stmts out db c = Some (out', err, db', c')"
proof (induction stmts arbitrary: out db c)
  case (Cons stmt stmts)
  obtain r db' c' where "Conn_run ks js stmt db c = Some (r, db', c')" using Conn_run_returns by blast
  then show ?case using Cons.IH by (cases r) simp_all
qed simp

section \<open>The session as a state machine\<close>

lemma dml_tx:
  assumes "Conn_dml ks stmt db c = Some (r, db', c')"
  shows "InTx c' \<longleftrightarrow> InTx c"
  using assms
  by (auto simp: Conn_dml_def Let_def tx_for_def InTx_def split: sum.splits option.splits prod.splits if_splits)

text \<open>A statement inside a transaction reads and writes the transaction only.\<close>

lemma tx_for_open: "conn_tx c = Some tx \<Longrightarrow> tx_for ks db c = (tx, False)"
  by (simp add: tx_for_def)

lemma tx_for_same: "InTx c \<Longrightarrow> tx_for ks db2 c = tx_for ks db c"
  by (auto simp: InTx_def tx_for_def)

lemma query_isolated:
  assumes "InTx c" and "db_cat db2 = db_cat db"
  shows "Conn_query ks s db2 c = Conn_query ks s db c"
  using assms(2) tx_for_same [OF assms(1), of ks db2 db] by (simp only: Conn_query_def)

lemma dml_isolated:
  assumes "InTx c" and "db_cat db2 = db_cat db" and "Conn_dml ks stmt db c = Some (r, db', c')"
  shows "db' = db \<and> Conn_dml ks stmt db2 c = Some (r, db2, c')"
  using assms
  by (auto simp: Conn_dml_def Let_def InTx_def tx_for_open split: sum.splits option.splits prod.splits)

text \<open>C12: A session is a machine with two states.  BEGIN opens a transaction unless one is open, COMMIT and
  ROLLBACK always leave none open, whatever errors they report, and no other statement moves between the
  states; every statement and every script returns.\<close>

theorem session_machine:
  "(\<exists>r db' c'. Conn_run ks js stmt db c = Some (r, db', c') \<and>
     (InTx c' \<longleftrightarrow> (case stmt of BeginStmt \<Rightarrow> True | CommitStmt \<Rightarrow> False | RollbackStmt \<Rightarrow> False | _ \<Rightarrow> InTx c))) \<and>
   (\<exists>out err db' c'. Conn_ExecScript cs ks js sql db c = Some (out, err, db', c'))"
proof
  obtain r db' c' where run: "Conn_run ks js stmt db c = Some (r, db', c')" using Conn_run_returns by blast
  have "InTx c' \<longleftrightarrow> (case stmt of BeginStmt \<Rightarrow> True | CommitStmt \<Rightarrow> False | RollbackStmt \<Rightarrow> False | _ \<Rightarrow> InTx c)"
    using run dml_tx [of ks stmt db c r db' c']
    by (cases stmt) (auto simp: Conn_run_def InTx_def split: option.splits prod.splits if_splits)
  then show "\<exists>r db' c'. Conn_run ks js stmt db c = Some (r, db', c') \<and>
     (InTx c' \<longleftrightarrow> (case stmt of BeginStmt \<Rightarrow> True | CommitStmt \<Rightarrow> False | RollbackStmt \<Rightarrow> False | _ \<Rightarrow> InTx c))"
    using run by blast
next
  obtain p where "ParseMany cs sql = Some p" using Parse_many_returns by blast
  then show "\<exists>out err db' c'. Conn_ExecScript cs ks js sql db c = Some (out, err, db', c')"
    using run_all_returns by (cases p) (simp_all add: Conn_ExecScript_def)
qed

end
