(* ===== verification/Scans.thy ===== *)
theory Scans
  imports TableData Range
begin

text \<open>
  What the three scans of a plan read from a store that holds a table: the rows the range admits,
  in the order of the keys scanned, through the mask of wanted columns.
\<close>

section \<open>Rows in key order\<close>

text \<open>\<open>rs\<close> lists the rows of \<open>S\<close>, each once, in ascending order of their keys.\<close>

definition lists :: "(Row \<Rightarrow> bytes) \<Rightarrow> Row set \<Rightarrow> Row list \<Rightarrow> bool" where
  "lists kf S rs \<longleftrightarrow> set rs = S \<and> sorted_wrt (\<lambda>a b. kf a < kf b) rs"

abbreviation row_key :: "Table \<Rightarrow> Row \<Rightarrow> bytes" where
  "row_key t row \<equiv> RowKey (t_ID t) (row_pk t row)"

abbreviation entry_key :: "Table \<Rightarrow> Index \<Rightarrow> Row \<Rightarrow> bytes" where
  "entry_key t ix row \<equiv> IndexKey (t_ID t) (i_ID ix) (row ! nat (i_Pos ix)) (row_pk t row)"

lemma lists_sorted: "lists kf S rs \<Longrightarrow> sorted_wrt (<) (map kf rs)"
  by (simp add: lists_def sorted_wrt_map)

lemma lists_distinct: "lists kf S rs \<Longrightarrow> distinct (map kf rs)"
  using lists_sorted strict_sorted_iff by blast

lemma lists_unique:
  assumes "lists kf S rs" and "lists kf S rs'"
  shows "rs = rs'"
proof -
  have "inj_on kf (set rs \<union> set rs')"
    using assms lists_distinct [OF assms(1)] by (simp add: lists_def distinct_map)
  moreover have "map kf rs = map kf rs'"
    using assms lists_sorted by (intro strict_sorted_equal) (simp_all add: lists_def)
  ultimately show ?thesis by (simp add: map_inj_on)
qed

lemma lists_filter: "lists kf S rs \<Longrightarrow> lists kf {row \<in> S. P row} (filter P rs)"
  by (auto simp: lists_def sorted_wrt_filter)

text \<open>A scan whose pairs stand for rows lists those rows.\<close>

lemma scan_lists:
  assumes scan: "is_scan m lo hi ps"
    and rows: "\<And>k v. m k = Some v \<Longrightarrow> in_range lo hi k \<Longrightarrow> \<exists>row \<in> S. (k, v) = (kf row, vf row)"
    and all: "\<And>row. row \<in> S \<Longrightarrow> m (kf row) = Some (vf row) \<and> in_range lo hi (kf row)"
    and inj: "inj_on kf S"
  obtains rs where "ps = map (\<lambda>row. (kf row, vf row)) rs" and "lists kf S rs"
proof -
  have "\<forall>p \<in> set ps. \<exists>row. row \<in> S \<and> p = (kf row, vf row)"
    using scan rows by (fastforce simp: is_scan_def)
  then obtain g where g: "\<And>p. p \<in> set ps \<Longrightarrow> g p \<in> S \<and> p = (kf (g p), vf (g p))" by metis
  let ?rs = "map g ps"
  have ps: "ps = map (\<lambda>row. (kf row, vf row)) ?rs"
    using g by (simp add: map_idI [symmetric])
  have "S \<subseteq> set ?rs"
  proof
    fix row assume row: "row \<in> S"
    then have p: "(kf row, vf row) \<in> set ps" using all scan by (simp add: is_scan_def)
    then have "kf (g (kf row, vf row)) = kf row" using g by fastforce
    then have "g (kf row, vf row) = row" using g [OF p] row inj by (simp add: inj_onD)
    then show "row \<in> set ?rs" using p by force
  qed
  moreover have "map kf ?rs = map fst ps" by (subst (2) ps) simp
  then have "sorted_wrt (\<lambda>a b. kf a < kf b) ?rs"
    using scan by (metis is_scan_def sorted_wrt_map)
  ultimately have "lists kf S ?rs" using g by (auto simp: lists_def)
  with ps show thesis by (rule that)
qed

lemma map_rows_all:
  "(\<And>x. x \<in> set xs \<Longrightarrow> f x = Inr (Some (g x))) \<Longrightarrow> map_rows f xs err = (map g xs, err)"
  by (induction xs) simp_all

lemma map_rows_map: "map_rows f (map g xs) err = map_rows (\<lambda>x. f (g x)) xs err"
  by (induction xs) (simp_all split: sum.split option.split)

section \<open>The stored rows\<close>

lemma table_holds_row:
  assumes "table_holds t m R" and "row \<in> ran R"
  shows "R (row_pk t row) = Some row" and "is_row t row" and "m (row_key t row) = Some (EncodeRow [] row)"
  using assms by (auto simp: table_holds_def rows_ok_def rows_held_def ran_def)

lemma table_holds_inj: "table_holds t m R \<Longrightarrow> inj_on (row_pk t) (ran R)"
  by (rule inj_onI) (metis table_holds_row(1) option.inject)

lemma table_holds_entry:
  assumes "table_holds t m R" and "ix \<in> set (t_Indexes t)" and "row \<in> ran R"
  shows "m (entry_key t ix row) = Some []"
  using assms table_holds_row [OF assms(1,3)] by (auto simp: table_holds_def index_held_def)

lemma data_rows:
  assumes h: "table_holds t m R" and scan: "is_scan m lo hi ps"
    and pfx: "\<And>k. in_range lo hi k \<Longrightarrow> prefix (DataPrefix (t_ID t)) k"
  obtains rs where "ps = map (\<lambda>row. (row_key t row, EncodeRow [] row)) rs"
    and "lists (row_key t) {row \<in> ran R. in_range lo hi (row_key t row)} rs"
  using scan
proof (rule scan_lists)
  fix k v assume kv: "m k = Some v" "in_range lo hi k"
  then obtain pk where k: "k = RowKey (t_ID t) pk"
    using h pfx [of k] by (auto simp: table_holds_def rows_held_def)
  then obtain row where "R pk = Some row" "v = EncodeRow [] row"
    using h kv by (auto simp: table_holds_def rows_held_def)
  moreover from this have "row_pk t row = pk" using h by (simp add: table_holds_def rows_ok_def)
  ultimately show "\<exists>row \<in> {row \<in> ran R. in_range lo hi (row_key t row)}. (k, v) = (row_key t row, EncodeRow [] row)"
    using k kv by (auto intro: ranI)
next
  show "m (row_key t row) = Some (EncodeRow [] row) \<and> in_range lo hi (row_key t row)"
    if "row \<in> {row \<in> ran R. in_range lo hi (row_key t row)}" for row
    using that table_holds_row [OF h] by simp
  show "inj_on (row_key t) {row \<in> ran R. in_range lo hi (row_key t row)}"
    using table_holds_row(1) [OF h] by (auto simp: inj_on_def) (metis option.inject)
qed (rule that)

lemma entry_rows:
  assumes h: "table_holds t m R" and scan: "is_scan m lo hi ps" and ix: "ix \<in> set (t_Indexes t)"
    and pfx: "\<And>k. in_range lo hi k \<Longrightarrow> prefix (IndexPrefix (t_ID t) (i_ID ix)) k"
  obtains rs where "ps = map (\<lambda>row. (entry_key t ix row, [])) rs"
    and "lists (entry_key t ix) {row \<in> ran R. in_range lo hi (entry_key t ix row)} rs"
  using scan
proof (rule scan_lists)
  have held: "index_held t m R ix" using h ix by (simp add: table_holds_def)
  fix k v assume kv: "m k = Some v" "in_range lo hi k"
  then obtain w pk where k: "k = IndexKey (t_ID t) (i_ID ix) w pk"
    using held pfx [of k] by (auto simp: index_held_def)
  then obtain row where "R pk = Some row" "row ! nat (i_Pos ix) = w" "v = []"
    using held kv by (auto simp: index_held_def split: if_splits)
  moreover from this have "row_pk t row = pk" using h by (simp add: table_holds_def rows_ok_def)
  ultimately show "\<exists>row \<in> {row \<in> ran R. in_range lo hi (entry_key t ix row)}. (k, v) = (entry_key t ix row, [])"
    using k kv by (auto intro: ranI)
next
  show "m (entry_key t ix row) = Some [] \<and> in_range lo hi (entry_key t ix row)"
    if "row \<in> {row \<in> ran R. in_range lo hi (entry_key t ix row)}" for row
    using that table_holds_entry [OF h ix] by simp
  show "inj_on (entry_key t ix) {row \<in> ran R. in_range lo hi (entry_key t ix row)}"
    using table_holds_row(1) [OF h] by (auto simp: inj_on_def) (metis option.inject)
qed (rule that)

section \<open>The scan operators\<close>

lemma decode_row:
  "is_row t row \<Longrightarrow> length msk = length (t_Columns t) \<Longrightarrow>
     decode_stored t (Some msk) (EncodeRow [] row) = Inr (masked msk row)"
  by (simp add: decode_stored_row is_row_def)

lemma fetch_row:
  assumes "reads rd m" and h: "table_holds t m R" and "length msk = length (t_Columns t)"
    and "row \<in> ran R"
  shows "fetch_entry rd t (Some msk) (entry_key t ix row) = Inr (masked msk row)"
  using assms table_holds_row [OF h assms(4)]
  by (simp add: fetch_entry_def IndexEntry_IndexKey reads_Get [OF assms(1)] decode_row)

text \<open>A running scan that has the rows \<open>rs\<close> before it.\<close>

definition base_op :: "Table \<Rightarrow> bool list \<Rightarrow> Operator \<Rightarrow> Row list \<Rightarrow> bool" where
  "base_op t msk op rs \<longleftrightarrow>
     (\<exists>fin. (fin \<longrightarrow> rs = []) \<and>
        (op = OpScan t (Some msk) (map (\<lambda>row. (row_key t row, EncodeRow [] row)) rs, None) fin \<or>
         (\<exists>ix \<in> set (t_Indexes t).
            op = OpIndexScan t (Some msk) (map (\<lambda>row. (entry_key t ix row, [])) rs, None) fin)))"

lemma base_rows:
  assumes h: "reads rd m" "table_holds t m R" and len: "length msk = length (t_Columns t)"
    and rs: "set rs \<subseteq> ran R" and op: "base_op t msk op rs"
  shows "rows_of rd op = (map (masked msk) rs, None)"
proof -
  have row: "keep_row (decode_stored t (Some msk) (EncodeRow [] row)) = Inr (Some (masked msk row))"
    "keep_row (fetch_entry rd t (Some msk) (entry_key t ix row)) = Inr (Some (masked msk row))"
    if "row \<in> set rs" for row ix
    using that rs table_holds_row(2) [OF h(2)] fetch_row [OF h len] len
    by (auto simp: decode_row keep_row_def)
  have "map_rows (\<lambda>row. keep_row (decode_stored t (Some msk) (EncodeRow [] row))) rs None = (map (masked msk) rs, None)"
    "map_rows (\<lambda>row. keep_row (fetch_entry rd t (Some msk) (entry_key t ix row))) rs None = (map (masked msk) rs, None)"
    for ix
    by (rule map_rows_all, rule row, assumption)+
  then show ?thesis using op by (auto simp: base_op_def map_rows_map)
qed

text \<open>The rows a scan plan reads, and the order it reads them in.\<close>

fun scan_selects :: "Plan \<Rightarrow> Row \<Rightarrow> bool" where
  "scan_selects (PSeqScan t m) row = True"
| "scan_selects (PRangeScan t r m) row = in_interval r (row_pk t row)"
| "scan_selects (PIndexScan t ix r m) row = in_interval r (row ! nat (i_Pos ix))"
| "scan_selects _ row = False"

fun order_key :: "Plan \<Rightarrow> Row \<Rightarrow> bytes" where
  "order_key (PIndexScan t ix r m) row = entry_key t ix row"
| "order_key (PSeqScan t m) row = row_key t row"
| "order_key (PRangeScan t r m) row = row_key t row"
| "order_key _ row = []"

text \<open>A scan plan of table \<open>t\<close> with mask \<open>msk\<close> that the store and the rows are fit for: the mask is as
  wide as the table, an index is one of the table's, and neither the bounds nor the values
  compared with them are \<open>-0.0\<close> or a NaN.\<close>

fun scan_plan_ok :: "Table \<Rightarrow> bool list \<Rightarrow> table_rows \<Rightarrow> Plan \<Rightarrow> bool" where
  "scan_plan_ok t msk R (PSeqScan t' m) \<longleftrightarrow> t' = t \<and> m = Some msk"
| "scan_plan_ok t msk R (PRangeScan t' r m) \<longleftrightarrow>
     t' = t \<and> m = Some msk \<and> bound_ok (Lo r) \<and> bound_ok (Hi r) \<and> (\<forall>row \<in> ran R. key_ok (row_pk t row))"
| "scan_plan_ok t msk R (PIndexScan t' ix r m) \<longleftrightarrow>
     t' = t \<and> m = Some msk \<and> ix \<in> set (t_Indexes t) \<and> bound_ok (Lo r) \<and> bound_ok (Hi r) \<and>
     (\<forall>row \<in> ran R. key_ok (row ! nat (i_Pos ix)))"
| "scan_plan_ok t msk R _ \<longleftrightarrow> False"

text \<open>Whatever its bounds are, such a plan builds a scan that lists the rows whose keys are between them.\<close>

fun scan_range :: "Plan \<Rightarrow> bytes option \<times> bytes option" where
  "scan_range (PSeqScan t m) = (Some (DataPrefix (t_ID t)), PrefixEnd (DataPrefix (t_ID t)))"
| "scan_range (PRangeScan t r m) = KeyBytes r (DataPrefix (t_ID t))"
| "scan_range (PIndexScan t ix r m) = KeyBytes r (IndexPrefix (t_ID t) (i_ID ix))"
| "scan_range _ = (None, None)"

fun scan_fits :: "Table \<Rightarrow> bool list \<Rightarrow> Plan \<Rightarrow> bool" where
  "scan_fits t msk (PSeqScan t' m) \<longleftrightarrow> t' = t \<and> m = Some msk"
| "scan_fits t msk (PRangeScan t' r m) \<longleftrightarrow> t' = t \<and> m = Some msk"
| "scan_fits t msk (PIndexScan t' ix r m) \<longleftrightarrow> t' = t \<and> m = Some msk \<and> ix \<in> set (t_Indexes t)"
| "scan_fits t msk _ \<longleftrightarrow> False"

abbreviation between_bounds :: "Plan \<Rightarrow> Row \<Rightarrow> bool" where
  "between_bounds p row \<equiv> in_range (fst (scan_range p)) (snd (scan_range p)) (order_key p row)"

lemma order_key_scan:
  "order_key (PSeqScan t m') = row_key t" "order_key (PRangeScan t r m') = row_key t"
  "order_key (PIndexScan t ix r m') = entry_key t ix"
  by (rule ext, simp)+

lemma scan_base:
  assumes h: "reads rd m" "table_holds t m R" and p: "scan_fits t msk p"
  obtains op rs where "Build p rd = Inr op" and "base_op t msk op rs"
    and "lists (order_key p) {row \<in> ran R. between_bounds p row} rs"
proof -
  obtain lo hi where K: "scan_range p = (lo, hi)" by fastforce
  obtain ps where scan: "Scan rd lo hi = (ps, None)" "is_scan m lo hi ps"
    using h(1) by (rule reads_ScanE)
  consider (data) "\<And>k. in_range lo hi k \<Longrightarrow> prefix (DataPrefix (t_ID t)) k" "order_key p = row_key t"
      "Build p rd = Inr (OpScan t (Some msk) (Scan rd lo hi) False)"
    | (index) ix r where "p = PIndexScan t ix r (Some msk)" "ix \<in> set (t_Indexes t)"
    using p K KeyBytes_prefix [OF PrefixEnd_DataPrefix]
    by (cases p) (fastforce simp: in_range_PrefixEnd Let_def newScan_def order_key_scan)+
  then show thesis
  proof cases
    case data
    obtain rs where "ps = map (\<lambda>row. (row_key t row, EncodeRow [] row)) rs"
      "lists (row_key t) {row \<in> ran R. in_range lo hi (row_key t row)} rs"
      using data_rows [OF h(2) scan(2) data(1)] by blast
    then show thesis using that data scan(1) K by (force simp: base_op_def)
  next
    case index
    have k: "KeyBytes r (IndexPrefix (t_ID t) (i_ID ix)) = (lo, hi)" using index K by simp
    obtain rs where "ps = map (\<lambda>row. (entry_key t ix row, [])) rs"
      "lists (entry_key t ix) {row \<in> ran R. in_range lo hi (entry_key t ix row)} rs"
      by (rule entry_rows [OF h(2) scan(2) index(2) KeyBytes_prefix [OF PrefixEnd_IndexPrefix k]])
    then show thesis
      using index scan(1) K
      by (intro that [of "OpIndexScan t (Some msk) (ps, None) False" rs]) (auto simp: base_op_def order_key_scan)
  qed
qed

lemma scan_plan_fits: "scan_plan_ok t msk R p \<Longrightarrow> scan_fits t msk p"
  by (cases p) simp_all

lemma between_bounds_selects:
  assumes "scan_plan_ok t msk R p" and "row \<in> ran R"
  shows "between_bounds p row \<longleftrightarrow> scan_selects p row"
proof (cases p)
  case (PRangeScan t' r m')
  then show ?thesis
    using assms KeyBytes_interval [of "row_pk t row" r "DataPrefix (t_ID t)" _ _ "[]"] PrefixEnd_DataPrefix
    by (cases "KeyBytes r (DataPrefix (t_ID t))") (simp add: RowKey_append)
next
  case (PIndexScan t' ix r m')
  then show ?thesis
    using assms PrefixEnd_IndexPrefix
      KeyBytes_interval [of "row ! nat (i_Pos ix)" r "IndexPrefix (t_ID t) (i_ID ix)" _ _ "enc_value (row_pk t row)"]
    by (cases "KeyBytes r (IndexPrefix (t_ID t) (i_ID ix))") (simp add: IndexKey_append)
qed (use assms in \<open>simp_all add: in_range_PrefixEnd\<close>)

lemma scan_plan_base:
  assumes h: "reads rd m" "table_holds t m R" and p: "scan_plan_ok t msk R p"
  obtains op rs where "Build p rd = Inr op" and "base_op t msk op rs"
    and "lists (order_key p) {row \<in> ran R. scan_selects p row} rs"
proof -
  have "{row \<in> ran R. between_bounds p row} = {row \<in> ran R. scan_selects p row}"
    using between_bounds_selects [OF p] by blast
  then show thesis using scan_base [OF h scan_plan_fits [OF p]] that by auto
qed

lemma scan_plan_rows:
  assumes h: "reads rd m" "table_holds t m R" and len: "length msk = length (t_Columns t)"
    and p: "scan_plan_ok t msk R p"
  obtains op rs where "Build p rd = Inr op" and "rows_of rd op = (map (masked msk) rs, None)"
    and "lists (order_key p) {row \<in> ran R. scan_selects p row} rs"
proof -
  obtain op rs where "Build p rd = Inr op" "base_op t msk op rs"
    "lists (order_key p) {row \<in> ran R. scan_selects p row} rs"
    using scan_plan_base [OF h p] by blast
  moreover from this(3) have "set rs \<subseteq> ran R" by (auto simp: lists_def)
  ultimately show thesis using base_rows [OF h len] that by blast
qed

section \<open>Filters and projections over a scan\<close>

definition covers :: "Table \<Rightarrow> bool list \<Rightarrow> Expr \<Rightarrow> bool" where
  "covers t msk e \<longleftrightarrow> (\<forall>name \<in> set (Columns e). \<forall>p. ColumnIndex t name = Some p \<longrightarrow> msk ! nat p)"

lemma covers_same_columns:
  assumes "distinct (map c_Name (t_Columns t))" and "is_row t row"
    and "length msk = length (t_Columns t)" and "covers t msk e"
  shows "same_columns (Some (TableEnv t)) e (masked msk row) row"
  unfolding same_columns_def
proof
  fix name assume name: "name \<in> set (Columns e)"
  show "eval_column (Some (TableEnv t)) (masked msk row) name = eval_column (Some (TableEnv t)) row name"
  proof (cases "ColumnIndex t name")
    case (Some p)
    then have "0 \<le> p" "nat p < length row" "msk ! nat p"
      using ColumnIndex_Some [OF Some] assms(2,4) name by (auto simp: is_row_def covers_def)
    moreover have "int (length (masked msk row)) = int (length row)" using assms(2,3) by (simp add: is_row_def)
    ultimately show ?thesis
      using assms(2,3) Some
      by (simp add: eval_column_def TableEnv_Columns [OF assms(1)] row_at_def is_row_def)
  qed (simp add: eval_column_def TableEnv_Columns [OF assms(1)])
qed

lemma eval_all_covered:
  assumes "distinct (map c_Name (t_Columns t))" and "is_row t row"
    and "length msk = length (t_Columns t)" and "\<forall>e \<in> set es. covers t msk e"
  shows "eval_all es (Some (TableEnv t)) (masked msk row) = eval_all es (Some (TableEnv t)) row"
  using assms(4)
proof (induction es)
  case (Cons e es)
  then have "Eval e (Some (TableEnv t)) (masked msk row) = Eval e (Some (TableEnv t)) row"
    using Eval_same_columns(1) covers_same_columns [OF assms(1-3), of e] by simp
  then show ?case using Cons by (simp cong: sum.case_cong)
qed simp

lemma map_rows_filter:
  "(\<And>x. x \<in> set xs \<Longrightarrow> f x = Inr (if P x then Some (g x) else None)) \<Longrightarrow>
     map_rows f xs err = (map g (filter P xs), err)"
  by (induction xs) simp_all

lemma select_rows:
  assumes h: "reads rd m" "table_holds t m R" and t: "table_ok t"
    and len: "length msk = length (t_Columns t)" and p: "scan_plan_ok t msk R p"
    and cov: "covers t msk pred" "\<forall>e \<in> set es. covers t msk e"
    and tv: "\<And>row. row \<in> ran R \<Longrightarrow> EvalPredicate pred (Some (TableEnv t)) row = Inr (tv row)"
    and out: "\<And>row. row \<in> ran R \<Longrightarrow> B3IsTrue (tv row) \<Longrightarrow> eval_all es (Some (TableEnv t)) row = Inr (out row)"
  obtains op rs where "Build (PProject (PFilter p pred (TableEnv t)) es names (TableEnv t)) rd = Inr op"
    and "rows_of rd op = (map out (filter (\<lambda>row. B3IsTrue (tv row)) rs), None)"
    and "lists (order_key p) {row \<in> ran R. scan_selects p row} rs"
proof -
  obtain op rs where op: "Build p rd = Inr op" "rows_of rd op = (map (masked msk) rs, None)"
    and rs: "lists (order_key p) {row \<in> ran R. scan_selects p row} rs"
    using scan_plan_rows [OF h len p] by blast
  have ran: "row \<in> ran R" if "row \<in> set rs" for row using that rs by (simp add: lists_def)
  have names: "distinct (map c_Name (t_Columns t))" using t by (simp add: table_ok_def)
  have pred: "EvalPredicate pred (Some (TableEnv t)) (masked msk row) = Inr (tv row)" if "row \<in> set rs" for row
    by (simp add: tv [OF ran [OF that]]
        Eval_same_columns(2) [OF plain_env_simps(2) covers_same_columns [OF names table_holds_row(2) [OF h(2) ran [OF that]] len cov(1)]])
  have exprs: "eval_all es (Some (TableEnv t)) (masked msk row) = Inr (out row)"
    if "row \<in> set rs" "B3IsTrue (tv row)" for row
    using eval_all_covered [OF names table_holds_row(2) [OF h(2) ran [OF that(1)]] len cov(2)]
      out [OF ran [OF that(1)] that(2)] by simp
  let ?kept = "filter (\<lambda>row. B3IsTrue (tv row)) rs"
  have "map_rows (filter_row pred (TableEnv t)) (map (masked msk) rs) None = (map (masked msk) ?kept, None)"
    unfolding map_rows_map by (rule map_rows_filter) (simp add: filter_row_def pred)
  moreover have "map_rows (\<lambda>row. keep_row (eval_all es (Some (TableEnv t)) row)) (map (masked msk) ?kept) None =
      (map out ?kept, None)"
    unfolding map_rows_map by (rule map_rows_all) (simp add: keep_row_def exprs)
  ultimately have "rows_of rd (OpProject (OpFilter op pred (TableEnv t)) es (TableEnv t)) = (map out ?kept, None)"
    by (simp only: rows_of.simps op(2) prod.case)
  from that [OF _ this rs] show thesis by (simp add: op(1))
qed

section \<open>Properties\<close>

text \<open>C20: The three scans read a stored table alike: exactly the rows whose key or indexed value the
  range admits, each once, in primary-key order or in the order of the indexed value and then the
  primary key; columns outside the mask read as NULL.\<close>

theorem scans_read_the_table:
  assumes "reads rd m" and "table_holds t m R" and "length msk = length (t_Columns t)"
    and "scan_plan_ok t msk R p"
  shows "\<exists>op rs. Build p rd = Inr op \<and> rows_of rd op = (map (masked msk) rs, None) \<and>
    lists (order_key p) {row \<in> ran R. scan_selects p row} rs"
  using scan_plan_rows [OF assms] by blast

text \<open>A query over one table returns, for exactly the rows its scan selects that satisfy the
  condition (TRUE, not UNKNOWN), the values of its expressions, in scan order.  Only the columns
  the query mentions need to be decoded for that.\<close>

theorem select_where:
  assumes "reads rd m" and "table_holds t m R" and "table_ok t"
    and "length msk = length (t_Columns t)" and "scan_plan_ok t msk R p"
    and "covers t msk pred" and "\<forall>e \<in> set es. covers t msk e"
    and "\<And>row. row \<in> ran R \<Longrightarrow> EvalPredicate pred (Some (TableEnv t)) row = Inr (tv row)"
    and "\<And>row. row \<in> ran R \<Longrightarrow> B3IsTrue (tv row) \<Longrightarrow> eval_all es (Some (TableEnv t)) row = Inr (out row)"
  shows "\<exists>op rs. Build (PProject (PFilter p pred (TableEnv t)) es names (TableEnv t)) rd = Inr op \<and>
    rows_of rd op = (map out rs, None) \<and>
    lists (order_key p) {row \<in> ran R. scan_selects p row \<and> B3IsTrue (tv row)} rs"
proof -
  obtain op rs where "Build (PProject (PFilter p pred (TableEnv t)) es names (TableEnv t)) rd = Inr op"
    and "rows_of rd op = (map out (filter (\<lambda>row. B3IsTrue (tv row)) rs), None)"
    and rs: "lists (order_key p) {row \<in> ran R. scan_selects p row} rs"
    using select_rows [OF assms(1-9), where names = names] by blast
  moreover have "{row \<in> {row \<in> ran R. scan_selects p row}. B3IsTrue (tv row)} =
      {row \<in> ran R. scan_selects p row \<and> B3IsTrue (tv row)}" by auto
  ultimately show ?thesis using lists_filter [OF rs, of "\<lambda>row. B3IsTrue (tv row)"] by auto
qed

section \<open>Witnesses\<close>

definition sample_is_null :: Expr where
  "sample_is_null = EIsNull (EColumn '''' ''name'') False"

lemma sample_column [simp]:
  "eval_column (Some (TableEnv sample_indexed)) [a, b] ''name'' = Inr b"
  "eval_column (Some (TableEnv sample_indexed)) [a, b] ''id'' = Inr a"
  by (simp_all add: TableEnv_def NewEnv_def sample_cols_def eval_column_def row_at_def)

lemma sample_is_null_eval [simp]:
  "EvalPredicate sample_is_null (Some (TableEnv sample_indexed)) [a, b] = Inr (B3 (b = VNull))"
  by (simp add: sample_is_null_def EvalPredicate_EIsNull)

lemma sample_ran: "row \<in> ran sample_rows \<longleftrightarrow> row = [VInt 1, VText ''ann''] \<or> row = [VInt 2, VNull]"
  by (simp add: sample_rows_def ran_map_upd disj_commute)

lemma lists_single: "lists kf {row} rs \<Longrightarrow> rs = [row]"
  by (rule lists_unique [of kf "{row}" rs "[row]"]) (simp_all add: lists_def)

theorem scans_read_the_table_witness:
  "\<exists>st op rs. overlay_inv st \<and> Build (PSeqScan sample_indexed (Some [True, False])) (Overlay_reader st) = Inr op \<and>
     rows_of (Overlay_reader st) op = (map (masked [True, False]) rs, None) \<and> set rs = ran sample_rows"
proof -
  obtain st where st: "overlay_inv st" "table_holds sample_indexed (overlay_view st) sample_rows"
    by (rule sample_holds)
  have "length [True, False] = length (t_Columns sample_indexed)"
    and "scan_plan_ok sample_indexed [True, False] sample_rows (PSeqScan sample_indexed (Some [True, False]))"
    by (simp_all add: sample_cols_def)
  from scans_read_the_table [OF overlay_reads [OF st(1)] st(2) this]
  show ?thesis using st(1) by (simp only: lists_def scan_selects.simps) blast
qed

theorem select_where_witness:
  "\<exists>st op. overlay_inv st \<and>
     Build (PProject (PFilter (PSeqScan sample_indexed (Some [True, True])) sample_is_null (TableEnv sample_indexed))
       [EColumn '''' ''id''] [''id''] (TableEnv sample_indexed)) (Overlay_reader st) = Inr op \<and>
     rows_of (Overlay_reader st) op = ([[VInt 2]], None)"
proof -
  obtain st where st: "overlay_inv st" "table_holds sample_indexed (overlay_view st) sample_rows"
    by (rule sample_holds)
  let ?p = "PSeqScan sample_indexed (Some [True, True])" and ?tv = "\<lambda>row :: Row. B3 (row ! 1 = VNull)"
    and ?out = "\<lambda>row :: Row. [row ! 0]"
  have cov: "covers sample_indexed [True, True] e" for e
    using ColumnIndex_Some(2) [of sample_indexed] by (fastforce simp: covers_def sample_cols_def less_Suc_eq)
  have tv: "EvalPredicate sample_is_null (Some (TableEnv sample_indexed)) row = Inr (?tv row)"
    and out: "eval_all [EColumn '''' ''id''] (Some (TableEnv sample_indexed)) row = Inr (?out row)"
    if "row \<in> ran sample_rows" for row
    using that by (auto simp: sample_ran)
  obtain op rs where op: "Build (PProject (PFilter ?p sample_is_null (TableEnv sample_indexed))
      [EColumn '''' ''id''] [''id''] (TableEnv sample_indexed)) (Overlay_reader st) = Inr op"
    "rows_of (Overlay_reader st) op = (map ?out rs, None)"
    and rs: "lists (order_key ?p) {row \<in> ran sample_rows. scan_selects ?p row \<and> B3IsTrue (?tv row)} rs"
    using select_where [OF overlay_reads [OF st(1)] st(2) sample_indexed_ok, where msk = "[True, True]" and p = ?p
        and pred = sample_is_null and es = "[EColumn '''' ''id'']" and names = "[''id'']", OF _ _ cov _ tv out]
    by (auto simp: sample_cols_def cov)
  have "{row \<in> ran sample_rows. scan_selects ?p row \<and> B3IsTrue (?tv row)} = {[VInt 2, VNull]}"
    by (auto simp: sample_ran)
  then have "rs = [[VInt 2, VNull]]" using rs lists_single by simp
  then show ?thesis using op st(1) by auto
qed

end
