(* ===== verification/Statements.thy ===== *)
theory Statements
  imports Scans
begin

text \<open>
  INSERT, UPDATE and DELETE as a whole: each is a loop over rows on the abstract table, and the
  loops of \<open>exec/dml.go\<close>, which read a scan of the very store they are changing, do what those
  loops do.  Then CREATE INDEX, DROP INDEX and DROP TABLE on the keys of a table.
\<close>

section \<open>The abstract statements\<close>

type_synonym 'a change = "'a \<Rightarrow> table_rows \<Rightarrow> exec_error option \<times> table_rows"

fun change_rows :: "'a change \<Rightarrow> 'a list \<Rightarrow> table_rows \<Rightarrow> int64 \<Rightarrow> int64 \<times> exec_error option \<times> table_rows" where
  "change_rows g [] R n = (n, None, R)"
| "change_rows g (row # rs) R n =
     (case g row R of (Some e, R') \<Rightarrow> (n, Some e, R') | (None, R') \<Rightarrow> change_rows g rs R' (n + 1))"

definition spec_insert :: "Table \<Rightarrow> Row change" where
  "spec_insert t row0 R =
     (case validate t row0 of
        Inl e \<Rightarrow> (Some e, R)
      | Inr row \<Rightarrow>
          if R (row_pk t row) = None then (None, R(row_pk t row \<mapsto> row))
          else (Some (ErrDuplicateKey (t_Name t) (c_Name (PKColumn t)) (row_pk t row)), R))"

definition spec_values :: "Table \<Rightarrow> int list \<Rightarrow> Expr list change" where
  "spec_values t cols es R =
     (case fill_row es cols (blank_row t) of Inl e \<Rightarrow> (Some e, R) | Inr row \<Rightarrow> spec_insert t row R)"

definition spec_delete :: "Table \<Rightarrow> Row change" where
  "spec_delete t row R = (None, R(row_pk t row := None))"

definition spec_update :: "Table \<Rightarrow> (Row \<Rightarrow> exec_error + Row) \<Rightarrow> Row change" where
  "spec_update t new_row old R =
     (case (case new_row old of Inl e \<Rightarrow> Inl e | Inr new0 \<Rightarrow> validate t new0) of
        Inl e \<Rightarrow> (Some e, R)
      | Inr new \<Rightarrow>
          if row_pk t new \<noteq> row_pk t old \<and> R (row_pk t new) \<noteq> None
          then (Some (ErrDuplicateKey (t_Name t) (c_Name (PKColumn t)) (row_pk t new)), R)
          else (None, R(row_pk t old := None, row_pk t new \<mapsto> new)))"

section \<open>Running a scan under changes\<close>

lemma base_next:
  assumes h: "reads rd m" "table_holds t m R" and len: "length msk = length (t_Columns t)"
    and rs: "set rs \<subseteq> ran R" and op: "base_op t msk op rs"
  obtains op' where "base_op t msk op' (tl rs)" and "op_next (Suc d) rd op =
    Some (case rs of [] \<Rightarrow> Inr None | row # _ \<Rightarrow> Inr (Some (masked msk row)), op')"
proof (cases rs)
  case Nil
  from op Nil consider fin where "op = OpScan t (Some msk) ([], None) fin"
    | ix fin where "ix \<in> set (t_Indexes t)" "op = OpIndexScan t (Some msk) ([], None) fin"
    by (auto simp: base_op_def)
  then show ?thesis
  proof cases
    case 1
    then show ?thesis using Nil
      by (intro that [of "OpScan t (Some msk) ([], None) True"])
        (auto simp: base_op_def op_next.simps(2) scan_Next_def)
  next
    case 2
    then show ?thesis using Nil
      by (intro that [of "OpIndexScan t (Some msk) ([], None) True"])
        (auto simp: base_op_def op_next.simps(2) indexScan_Next_def)
  qed
next
  case (Cons row rest)
  then have row: "decode_stored t (Some msk) (EncodeRow [] row) = Inr (masked msk row)"
    "fetch_entry rd t (Some msk) (entry_key t ix row) = Inr (masked msk row)" for ix
    using rs table_holds_row(2) [OF h(2)] fetch_row [OF h len] len by (auto simp: decode_row)
  from op Cons consider
      "op = OpScan t (Some msk) (map (\<lambda>row. (row_key t row, EncodeRow [] row)) (row # rest), None) False"
    | ix where "ix \<in> set (t_Indexes t)"
        "op = OpIndexScan t (Some msk) (map (\<lambda>row. (entry_key t ix row, [])) (row # rest), None) False"
    by (auto simp: base_op_def)
  then show ?thesis
  proof cases
    case 1
    then show ?thesis using Cons row
      by (intro that [of "OpScan t (Some msk) (map (\<lambda>row. (row_key t row, EncodeRow [] row)) rest, None) False"])
        (auto simp: base_op_def op_next.simps(2) scan_Next_def)
  next
    case 2
    then show ?thesis using Cons row
      by (intro that [of "OpIndexScan t (Some msk) (map (\<lambda>row. (entry_key t ix row, [])) rest, None) False"])
        (auto simp: base_op_def op_next.simps(2) indexScan_Next_def)
  qed
qed

text \<open>The inputs the planner gives to UPDATE and DELETE: a scan of every column, filtered or not.
  \<open>keep\<close> is what the filter lets through.\<close>

definition input_op :: "Table \<Rightarrow> (Row \<Rightarrow> bool) \<Rightarrow> Operator \<Rightarrow> Row list \<Rightarrow> bool" where
  "input_op t keep op rs \<longleftrightarrow>
     (let full = replicate (length (t_Columns t)) True in
      (base_op t full op rs \<and> (\<forall>row \<in> set rs. keep row)) \<or>
      (\<exists>b pred env. op = OpFilter b pred env \<and> base_op t full b rs \<and>
         (\<forall>row \<in> set rs. \<exists>tv. EvalPredicate pred (Some env) row = Inr tv \<and> (B3IsTrue tv \<longleftrightarrow> keep row))))"

lemma masked_full: "is_row t row \<Longrightarrow> masked (replicate (length (t_Columns t)) True) row = row"
  by (rule masked_all) (simp_all add: is_row_def)

lemma base_op_size: "base_op t msk op rs \<Longrightarrow> op_size op = length rs"
  by (auto simp: base_op_def)

lemma base_op_depth: "base_op t msk op rs \<Longrightarrow> op_depth op = 1"
  by (auto simp: base_op_def)

lemma filter_base:
  assumes h: "reads rd m" "table_holds t m R"
    and b: "base_op t (replicate (length (t_Columns t)) True) b rs" and rs: "set rs \<subseteq> ran R"
    and tv: "\<forall>row \<in> set rs. \<exists>tv. EvalPredicate pred (Some env) row = Inr tv \<and> (B3IsTrue tv \<longleftrightarrow> keep row)"
    and n: "length rs < n"
  shows "\<exists>b' rest. base_op t (replicate (length (t_Columns t)) True) b' rest \<and>
    rest = tl (dropWhile (\<lambda>row. \<not> keep row) rs) \<and>
    filter_loop (op_next (Suc d) rd) n pred env b =
      Some (case dropWhile (\<lambda>row. \<not> keep row) rs of [] \<Rightarrow> Inr None | row # _ \<Rightarrow> Inr (Some row), b')"
  using b rs tv n
proof (induction n arbitrary: b rs)
  case (Suc n)
  obtain b' where b': "base_op t (replicate (length (t_Columns t)) True) b' (tl rs)"
    "op_next (Suc d) rd b = Some (case rs of [] \<Rightarrow> Inr None
       | row # _ \<Rightarrow> Inr (Some (masked (replicate (length (t_Columns t)) True) row)), b')"
    using base_next [OF h _ Suc.prems(2,1)] by auto
  show ?case
  proof (cases rs)
    case Nil
    then show ?thesis using b' by auto
  next
    case (Cons row rest)
    then have row: "masked (replicate (length (t_Columns t)) True) row = row"
      using Suc.prems(2) table_holds_row(2) [OF h(2)] masked_full by auto
    show ?thesis
    proof (cases "keep row")
      case True
      then show ?thesis using Cons b' row Suc.prems(3) by auto
    next
      case False
      have "\<exists>b'' rest'. base_op t (replicate (length (t_Columns t)) True) b'' rest' \<and>
          rest' = tl (dropWhile (\<lambda>row. \<not> keep row) rest) \<and>
          filter_loop (op_next (Suc d) rd) n pred env b' =
            Some (case dropWhile (\<lambda>row. \<not> keep row) rest of [] \<Rightarrow> Inr None | row # _ \<Rightarrow> Inr (Some row), b'')"
        by (rule Suc.IH) (use Suc.prems Cons b' in auto)
      then show ?thesis using False Cons b' row Suc.prems(3) by auto
    qed
  qed
qed simp

lemma filter_dropWhile: "filter P (dropWhile (\<lambda>x. \<not> P x) xs) = filter P xs"
  by (induction xs) simp_all

lemma dropWhile_Cons_split:
  "dropWhile (\<lambda>x. \<not> P x) xs = y # ys \<Longrightarrow> P y \<and> filter P xs = y # filter P ys \<and> set (y # ys) \<subseteq> set xs"
  using filter_dropWhile [of P xs] set_dropWhileD [of _ "\<lambda>x. \<not> P x" xs]
  by (metis (no_types, lifting) dropWhile_eq_Cons_conv filter.simps(2) subsetI)

text \<open>One call of \<open>Next\<close> on such an input.\<close>

lemma filtered_input_next:
  assumes h: "reads rd m" "table_holds t m R" and b: "base_op t (replicate (length (t_Columns t)) True) b rs"
    and rs: "set rs \<subseteq> ran R"
    and truth: "\<forall>row \<in> set rs. \<exists>tv. EvalPredicate pred (Some env) row = Inr tv \<and> (B3IsTrue tv \<longleftrightarrow> keep row)"
  obtains b' where "base_op t (replicate (length (t_Columns t)) True) b' (tl (dropWhile (\<lambda>row. \<not> keep row) rs))"
    and "op_Next rd (OpFilter b pred env) = Some (case dropWhile (\<lambda>row. \<not> keep row) rs of [] \<Rightarrow> Inr None
      | row # _ \<Rightarrow> Inr (Some row), OpFilter b' pred env)"
proof -
  obtain b' where b': "base_op t (replicate (length (t_Columns t)) True) b' (tl (dropWhile (\<lambda>row. \<not> keep row) rs))"
    "filter_loop (op_next 1 rd) (Suc (op_size b)) pred env b =
      Some (case dropWhile (\<lambda>row. \<not> keep row) rs of [] \<Rightarrow> Inr None | row # _ \<Rightarrow> Inr (Some row), b')"
    using filter_base [OF h b rs truth, of "Suc (op_size b)" 0] base_op_size [OF b] by auto
  have "op_Next rd (OpFilter b pred env) = map_option (\<lambda>(r, b'). (r, OpFilter b' pred env))
      (filter_loop (op_next 1 rd) (Suc (op_size b)) pred env b)"
    using base_op_depth [OF b] by (simp add: op_Next_def op_next.simps(2) [of "Suc 0"])
  then show thesis using that [OF b'(1)] by (simp only: b'(2) option.map prod.case)
qed

lemma input_next:
  assumes h: "reads rd m" "table_holds t m R" and op: "input_op t keep op rs" and rs: "set rs \<subseteq> ran R"
  obtains (ended) op' where "op_Next rd op = Some (Inr None, op')" "filter keep rs = []"
  | (row) row rest op' where "op_Next rd op = Some (Inr (Some row), op')" "input_op t keep op' rest"
      "filter keep rs = row # filter keep rest" "suffix (row # rest) rs"
proof -
  let ?full = "replicate (length (t_Columns t)) True"
  from op consider (scan) "base_op t ?full op rs" "\<forall>row \<in> set rs. keep row"
    | (filt) b pred env where "op = OpFilter b pred env" "base_op t ?full b rs"
        "\<forall>row \<in> set rs. \<exists>tv. EvalPredicate pred (Some env) row = Inr tv \<and> (B3IsTrue tv \<longleftrightarrow> keep row)"
    by (auto simp: input_op_def Let_def)
  then show thesis
  proof cases
    case scan
    obtain op' where op': "base_op t ?full op' (tl rs)" "op_Next rd op =
        Some (case rs of [] \<Rightarrow> Inr None | row # _ \<Rightarrow> Inr (Some (masked ?full row)), op')"
      using base_next [OF h _ rs scan(1), of 0] base_op_depth [OF scan(1)] by (auto simp: op_Next_def)
    show thesis
    proof (cases rs)
      case Nil
      then show thesis using op' ended by simp
    next
      case (Cons r rest)
      then have "masked ?full r = r" using rs table_holds_row(2) [OF h(2)] masked_full by auto
      then show thesis
        using op' Cons scan(2) row [of r op' rest] by (simp add: input_op_def Let_def)
    qed
  next
    case filt
    obtain b' where b': "base_op t ?full b' (tl (dropWhile (\<lambda>row. \<not> keep row) rs))"
      and next': "op_Next rd op = Some (case dropWhile (\<lambda>row. \<not> keep row) rs of [] \<Rightarrow> Inr None
        | row # _ \<Rightarrow> Inr (Some row), OpFilter b' pred env)"
      unfolding filt(1) by (rule filtered_input_next [OF h filt(2) rs filt(3)])
    show thesis
    proof (cases "dropWhile (\<lambda>row. \<not> keep row) rs")
      case Nil
      have "filter keep rs = []" using filter_dropWhile [of keep rs, unfolded Nil] by simp
      with next' [unfolded Nil] ended show thesis by simp
    next
      case (Cons r rest')
      then have s: "filter keep rs = r # filter keep rest'" "set (r # rest') \<subseteq> set rs"
        using dropWhile_Cons_split [OF Cons] by auto
      have "input_op t keep (OpFilter b' pred env) rest'"
        using b' [unfolded Cons] s filt(3) by (auto simp: input_op_def Let_def)
      moreover have "suffix (r # rest') rs"
        using suffix_dropWhile [of "\<lambda>row. \<not> keep row" rs] Cons by simp
      ultimately show thesis using next' [unfolded Cons] s(1) row by simp
    qed
  qed
qed

lemma Equal_exact: "Value_Kind a \<noteq> KindFloat \<Longrightarrow> Equal a b \<longleftrightarrow> a = b"
  by (cases "Value_Kind a = Value_Kind b", cases a; cases b)
    (auto simp: Equal_def Order_kinds signed_word_eqI)

section \<open>The loops do what the abstract statements do\<close>

context read_writer
begin

text \<open>One row changed in the store as \<open>g\<close> changes it in the table.\<close>

definition does :: "Table \<Rightarrow> (Row \<Rightarrow> 'st \<Rightarrow> exec_error option \<times> 'st) \<Rightarrow> Row change \<Rightarrow> bool" where
  "does t f g \<longleftrightarrow>
     (\<forall>st R row. inv st \<and> table_holds t (view st) R \<and> R (row_pk t row) = Some row \<longrightarrow>
        (\<exists>st'. f row st = (fst (g row R), st') \<and> leaves t st st' (snd (g row R)))) \<and>
     (\<forall>R row k r. R k = Some r \<and> k \<noteq> row_pk t row \<and> fst (g row R) = None \<longrightarrow> snd (g row R) k = Some r)"

lemma does_rest:
  assumes f: "does t f g" and h: "table_holds t m R"
    and rows: "set (row # rest) \<subseteq> ran R" "distinct (map (row_pk t) (row # rest))" and ok: "fst (g row R) = None"
  shows "set rest \<subseteq> ran (snd (g row R))"
proof
  fix r assume r: "r \<in> set rest"
  then have "R (row_pk t r) = Some r" using rows(1) table_holds_row(1) [OF h] by auto
  moreover have "row_pk t r \<noteq> row_pk t row" using r rows(2) by (auto simp: image_iff)
  ultimately have "snd (g row R) (row_pk t r) = Some r" using f ok unfolding does_def by blast
  then show "r \<in> ran (snd (g row R))" by (rule ranI)
qed

lemma change_loop_view:
  assumes f: "does t f g"
    and st: "inv st" "table_holds t (view st) R"
    and op: "input_op t keep op rs" and rs: "set rs \<subseteq> ran R" "distinct (map (row_pk t) rs)"
    and n: "length rs < n"
  shows "\<exists>st'. change_loop rw f n op cnt st =
      Some (fst (change_rows g (filter keep rs) R cnt), fst (snd (change_rows g (filter keep rs) R cnt)), st') \<and>
    leaves t st st' (snd (snd (change_rows g (filter keep rs) R cnt)))"
  using st op rs n
proof (induction n arbitrary: st R op rs cnt)
  case (Suc n)
  have rd: "reads (rw_reader rw st) (view st)" using Suc.prems(1) by (rule reader)
  show ?case
    using rd Suc.prems(2,3,4)
  proof (cases rule: input_next)
    case (ended op')
    then show ?thesis using Suc.prems(1,2) by (simp add: leaves_def)
  next
    case (row row rest op')
    have sub: "set (row # rest) \<subseteq> set rs" using row(4) by (rule set_mono_suffix)
    then have R: "R (row_pk t row) = Some row"
      using Suc.prems(4) table_holds_row(1) [OF Suc.prems(2)] by auto
    obtain st1 where st1: "f row st = (fst (g row R), st1)" "leaves t st st1 (snd (g row R))"
      using f Suc.prems(1,2) R unfolding does_def by blast
    show ?thesis
    proof (cases "fst (g row R)")
      case (Some e)
      then show ?thesis using row(1,3) st1 by (auto split: prod.splits)
    next
      case None
      let ?R = "snd (g row R)"
      have dist: "distinct (map (row_pk t) (row # rest))"
        using Suc.prems(5) row(4) by (auto simp: suffix_def)
      have "set rest \<subseteq> ran ?R"
        using f Suc.prems(2) _ dist None by (rule does_rest) (use sub Suc.prems(4) in auto)
      moreover have "length rest < n" using Suc.prems(6) row(4) suffix_length_le by fastforce
      moreover have "inv st1" "table_holds t (view st1) ?R" using st1(2) by (simp_all add: leaves_def)
      ultimately obtain st2 where st2: "change_loop rw f n op' (cnt + 1) st1 =
          Some (fst (change_rows g (filter keep rest) ?R (cnt + 1)),
            fst (snd (change_rows g (filter keep rest) ?R (cnt + 1))), st2)"
        "leaves t st1 st2 (snd (snd (change_rows g (filter keep rest) ?R (cnt + 1))))"
        using Suc.IH [of st1 ?R op' rest "cnt + 1"] row(2) dist by auto
      have "change_rows g (filter keep rs) R cnt = change_rows g (filter keep rest) ?R (cnt + 1)"
        using None by (cases "g row R") (simp add: row(3))
      then show ?thesis
        using row(1) st1 None st2 leaves_trans [OF st1(2) st2(2)] by auto
    qed
  qed
qed simp

lemma delete_does:
  assumes "distinct (map i_ID (t_Indexes t))"
  shows "does t (Mutator_Delete rw t) (spec_delete t)"
  using Delete_view [OF _ _ assms] by (auto simp: does_def spec_delete_def)

lemma update_does:
  assumes "distinct (map i_ID (t_Indexes t))"
    and keys: "\<And>row. is_row t row \<Longrightarrow> Value_Kind (row_pk t row) \<noteq> KindFloat"
    and upd: "\<And>old st. f old st = (case new_row old of Inl e \<Rightarrow> (Some e, st) | Inr new \<Rightarrow> Mutator_Update rw t old new st)"
  shows "does t f (spec_update t new_row)"
proof -
  have "\<exists>st'. f row st = (fst (spec_update t new_row row R), st') \<and> leaves t st st' (snd (spec_update t new_row row R))"
    if h: "inv st" "table_holds t (view st) R" "R (row_pk t row) = Some row" for st R row
  proof (cases "new_row row")
    case (Inl e)
    then show ?thesis using h by (simp add: upd spec_update_def leaves_def)
  next
    case new0: (Inr new0)
    show ?thesis
    proof (cases "validate t new0")
      case (Inl e)
      then show ?thesis using h new0 by (simp add: upd spec_update_def leaves_def Mutator_Update_def)
    next
      case (Inr new)
      have eq: "Equal (row_pk t row) (row_pk t new) \<longleftrightarrow> row_pk t row = row_pk t new"
        using keys table_holds_row(2) [OF h(2) ranI [where m = R, OF h(3)]] by (intro Equal_exact) blast
      show ?thesis
      proof (cases "row_pk t new \<noteq> row_pk t row \<and> R (row_pk t new) \<noteq> None")
        case True
        then show ?thesis
          using h new0 Inr eq check_free_view [OF h(1,2), of "row_pk t new"]
          by (auto simp: upd spec_update_def leaves_def Mutator_Update_def)
      next
        case False
        then have "moves R (row_pk t row) (row_pk t new)" using eq by (auto simp: moves_def)
        from Update_view [OF h(1,2) assms(1) h(3) Inr this] show ?thesis
          using False new0 Inr by (auto simp: upd spec_update_def)
      qed
    qed
  qed
  moreover have "snd (spec_update t new_row row R) k = Some r"
    if "R k = Some r" "k \<noteq> row_pk t row" "fst (spec_update t new_row row R) = None" for R row k r
    using that by (auto simp: spec_update_def split: sum.splits if_splits)
  ultimately show ?thesis unfolding does_def by blast
qed

end

section \<open>Statements\<close>

text \<open>The plans the planner makes for UPDATE and DELETE: a scan of all columns, filtered or not.\<close>

definition full_mask :: "Table \<Rightarrow> bool list" where
  "full_mask t = replicate (length (t_Columns t)) True"

fun target_plan :: "Plan \<Rightarrow> Plan" where
  "target_plan (PFilter p pred env) = p"
| "target_plan p = p"

fun target_keep :: "Plan \<Rightarrow> Row \<Rightarrow> bool" where
  "target_keep (PFilter p pred env) row =
     (case EvalPredicate pred (Some env) row of Inl _ \<Rightarrow> False | Inr tv \<Rightarrow> B3IsTrue tv)"
| "target_keep p row = True"

fun target_evals :: "Plan \<Rightarrow> Row \<Rightarrow> bool" where
  "target_evals (PFilter p pred env) row = (\<exists>tv. EvalPredicate pred (Some env) row = Inr tv)"
| "target_evals p row = True"

definition target_ok :: "Table \<Rightarrow> table_rows \<Rightarrow> Plan \<Rightarrow> bool" where
  "target_ok t R p \<longleftrightarrow> scan_plan_ok t (full_mask t) R (target_plan p) \<and> (\<forall>row \<in> ran R. target_evals p row)"

lemma target_input:
  assumes h: "reads rd m" "table_holds t m R" and p: "target_ok t R p"
  obtains op rs where "Build p rd = Inr op" and "input_op t (target_keep p) op rs" and "op_size op = length rs"
    and "lists (order_key (target_plan p)) {row \<in> ran R. scan_selects (target_plan p) row} rs"
proof -
  obtain b rs where b: "Build (target_plan p) rd = Inr b" "base_op t (full_mask t) b rs"
    "lists (order_key (target_plan p)) {row \<in> ran R. scan_selects (target_plan p) row} rs"
    using scan_plan_base [OF h] p unfolding target_ok_def by blast
  have evals: "\<forall>row \<in> set rs. target_evals p row"
    using b(3) p by (auto simp: lists_def target_ok_def)
  show thesis
  proof (cases "\<exists>q pred env. p = PFilter q pred env")
    case True
    then obtain q pred env where q: "p = PFilter q pred env" by blast
    have "input_op t (target_keep p) (OpFilter b pred env) rs"
      using b(2) evals by (force simp: input_op_def Let_def q full_mask_def)
    then show thesis using b base_op_size [OF b(2)] that by (simp add: q)
  next
    case False
    then have "target_plan p = p" "target_keep p = (\<lambda>row. True)" by (cases p; simp; fail | cases p; auto)+
    then show thesis
      using b base_op_size [OF b(2)] that [of b rs] by (simp add: input_op_def Let_def full_mask_def)
  qed
qed

text \<open>The rows a target selects, in scan order.\<close>

definition targets :: "Plan \<Rightarrow> table_rows \<Rightarrow> Row list \<Rightarrow> bool" where
  "targets p R rows \<longleftrightarrow>
     lists (order_key (target_plan p))
       {row \<in> ran R. scan_selects (target_plan p) row \<and> target_keep p row} rows"

context read_writer
begin

lemma target_loop:
  assumes st: "inv st" "table_holds t (view st) R" and p: "target_ok t R p" and f: "does t f g"
  obtains op rows st' where "Build p (rw_reader rw st) = Inr op" and "targets p R rows"
    and "change_loop rw f (Suc (op_size op)) op 0 st =
      Some (fst (change_rows g rows R 0), fst (snd (change_rows g rows R 0)), st')"
    and "leaves t st st' (snd (snd (change_rows g rows R 0)))"
proof -
  obtain op rs where op: "Build p (rw_reader rw st) = Inr op" "input_op t (target_keep p) op rs" "op_size op = length rs"
    and rs: "lists (order_key (target_plan p)) {row \<in> ran R. scan_selects (target_plan p) row} rs"
    by (rule target_input [OF reader [OF st(1)] st(2) p])
  have sub: "set rs \<subseteq> ran R" using rs by (auto simp: lists_def)
  have "inj_on (row_pk t) (ran R)" using st(2) by (rule table_holds_inj)
  moreover have "distinct rs" using lists_distinct [OF rs] by (simp add: distinct_map)
  ultimately have dist: "distinct (map (row_pk t) rs)" using sub by (simp add: distinct_map inj_on_subset)
  have "length rs < Suc (op_size op)" using op(3) by simp
  note loop = change_loop_view [OF f st op(2) sub dist this, of 0]
  have targets: "targets p R (filter (target_keep p) rs)"
    using lists_filter [OF rs, of "target_keep p"] by (simp add: targets_def conj_assoc)
  obtain st' where
    "change_loop rw f (Suc (op_size op)) op 0 st =
      Some (fst (change_rows g (filter (target_keep p) rs) R 0),
        fst (snd (change_rows g (filter (target_keep p) rs) R 0)), st')"
    "leaves t st st' (snd (snd (change_rows g (filter (target_keep p) rs) R 0)))"
    using loop by (elim exE conjE)
  from that [OF op(1) targets this] show thesis .
qed

end

section \<open>Bulk maintenance\<close>

lemma DecodeStoredRow_row: "is_row t row \<Longrightarrow> DecodeStoredRow t (EncodeRow [] row) = Inr row"
  using DecodeRow_EncodeRow [of row] by (simp add: DecodeStoredRow_def is_row_def)

lemma index_entries_rows:
  "set rs \<subseteq> {row. is_row t row} \<Longrightarrow>
     index_entries t ix (map (\<lambda>row. (row_key t row, EncodeRow [] row)) rs) = Inr (map (entry_key t ix) rs)"
  by (induction rs) (simp_all add: DecodeStoredRow_row)

context read_writer
begin

lemma put_all_view:
  assumes "inv st"
  shows "\<exists>st'. put_all rw ks st = (None, st') \<and> inv st' \<and>
    view st' = (\<lambda>k. if k \<in> set ks then Some [] else view st k)"
  using assms
proof (induction ks arbitrary: st)
  case (Cons k ks)
  obtain st1 where st1: "rw_Put rw st k [] = (None, st1)" "inv st1" "view st1 = (view st)(k \<mapsto> [])"
    using Cons.prems by (rule putE)
  obtain st2 where "put_all rw ks st1 = (None, st2)" "inv st2"
    "view st2 = (\<lambda>k. if k \<in> set ks then Some [] else view st1 k)"
    using Cons.IH [OF st1(2)] by blast
  then show ?case using st1 by (auto simp: fun_eq_iff)
qed simp

lemma delete_all_view:
  assumes "inv st"
  shows "\<exists>st'. delete_all rw ks st = (None, st') \<and> inv st' \<and>
    view st' = (\<lambda>k. if k \<in> set ks then None else view st k)"
  using assms
proof (induction ks arbitrary: st)
  case (Cons k ks)
  obtain st1 where st1: "rw_Delete rw st k = (None, st1)" "inv st1" "view st1 = (view st)(k := None)"
    using Cons.prems by (rule deleteE)
  obtain st2 where "delete_all rw ks st1 = (None, st2)" "inv st2"
    "view st2 = (\<lambda>k. if k \<in> set ks then None else view st1 k)"
    using Cons.IH [OF st1(2)] by blast
  then show ?case using st1 by (auto simp: fun_eq_iff)
qed simp

lemma deleteRange_view:
  assumes "inv st"
  obtains st' where "deleteRange rw lo hi st = (None, st')" and "inv st'"
    and "view st' = (\<lambda>k. if in_range lo hi k then None else view st k)"
proof -
  obtain ps where scan: "Scan (rw_reader rw st) lo hi = (ps, None)" "is_scan (view st) lo hi ps"
    using reader [OF assms] by (rule reads_ScanE)
  obtain st' where st': "delete_all rw (map fst ps) st = (None, st')" "inv st'"
    "view st' = (\<lambda>k. if k \<in> set (map fst ps) then None else view st k)"
    using delete_all_view [OF assms] by blast
  have keys: "k \<in> set (map fst ps) \<longleftrightarrow> in_range lo hi k \<and> view st k \<noteq> None" for k
    using scan(2) by (force simp: is_scan_def)
  have "view st' = (\<lambda>k. if in_range lo hi k then None else view st k)"
    using keys by (auto simp: st'(3) fun_eq_iff simp del: set_map)
  then show thesis using that st' scan by (simp add: deleteRange_def)
qed

lemma drop_indexes_view:
  assumes "inv st"
  shows "\<exists>st'. drop_indexes rw t ixs st = (None, st') \<and> inv st' \<and>
    view st' = (\<lambda>k. if \<exists>ix \<in> set ixs. prefix (IndexPrefix (t_ID t) (i_ID ix)) k then None else view st k)"
  using assms
proof (induction ixs arbitrary: st)
  case (Cons ix ixs)
  let ?p = "IndexPrefix (t_ID t) (i_ID ix)"
  obtain st1 where st1: "deleteRange rw (Some ?p) (PrefixEnd ?p) st = (None, st1)" "inv st1"
    "view st1 = (\<lambda>k. if in_range (Some ?p) (PrefixEnd ?p) k then None else view st k)"
    using Cons.prems by (rule deleteRange_view)
  obtain st2 where st2: "drop_indexes rw t ixs st1 = (None, st2)" "inv st2"
    "view st2 = (\<lambda>k. if \<exists>ix \<in> set ixs. prefix (IndexPrefix (t_ID t) (i_ID ix)) k then None else view st1 k)"
    using Cons.IH [OF st1(2)] by blast
  then show ?case using st1
    by (auto simp: DropIndexEntries_def Let_def fun_eq_iff in_range_PrefixEnd)
qed auto

lemma BuildIndex_view:
  assumes "inv st" and h: "table_holds t (view st) R"
  obtains st' where "BuildIndex rw t ix st = (None, st')" and "inv st'"
    and "view st' = (\<lambda>k. if k \<in> entry_key t ix ` ran R then Some [] else view st k)"
proof -
  let ?p = "DataPrefix (t_ID t)"
  obtain ps where scan: "Scan (rw_reader rw st) (Some ?p) (PrefixEnd ?p) = (ps, None)"
    "is_scan (view st) (Some ?p) (PrefixEnd ?p) ps"
    using reader [OF assms(1)] by (rule reads_ScanE)
  obtain rs where ps: "ps = map (\<lambda>row. (row_key t row, EncodeRow [] row)) rs"
    and rs: "lists (row_key t) {row \<in> ran R. in_range (Some ?p) (PrefixEnd ?p) (row_key t row)} rs"
    by (rule data_rows [OF h scan(2)]) (simp add: in_range_PrefixEnd)
  have set: "set rs = ran R" using rs by (simp add: lists_def in_range_PrefixEnd)
  then have "index_entries t ix ps = Inr (map (entry_key t ix) rs)"
    unfolding ps using table_holds_row(2) [OF h] by (intro index_entries_rows) auto
  moreover obtain st' where "put_all rw (map (entry_key t ix) rs) st = (None, st')" "inv st'"
    "view st' = (\<lambda>k. if k \<in> set (map (entry_key t ix) rs) then Some [] else view st k)"
    using put_all_view [OF assms(1)] by blast
  ultimately show thesis using that [of st'] scan(1) set by (simp add: BuildIndex_def Let_def)
qed

lemma DropTableData_view:
  assumes "inv st"
  obtains st' where "DropTableData rw t st = (None, st')" and "inv st'"
    and "view st' = (\<lambda>k. if prefix (DataPrefix (t_ID t)) k \<or>
      (\<exists>ix \<in> set (t_Indexes t). prefix (IndexPrefix (t_ID t) (i_ID ix)) k) then None else view st k)"
proof -
  let ?p = "DataPrefix (t_ID t)"
  obtain st1 where st1: "deleteRange rw (Some ?p) (PrefixEnd ?p) st = (None, st1)" "inv st1"
    "view st1 = (\<lambda>k. if in_range (Some ?p) (PrefixEnd ?p) k then None else view st k)"
    using assms by (rule deleteRange_view)
  obtain st' where st': "drop_indexes rw t (t_Indexes t) st1 = (None, st')" "inv st'"
    "view st' = (\<lambda>k. if \<exists>ix \<in> set (t_Indexes t). prefix (IndexPrefix (t_ID t) (i_ID ix)) k
      then None else view st1 k)"
    using drop_indexes_view [OF st1(2)] by blast
  show thesis
    by (rule that [of st']) (use st1 st' in \<open>auto simp: DropTableData_def Let_def in_range_PrefixEnd fun_eq_iff\<close>)
qed

end

text \<open>CREATE INDEX fills the keys of the new index; the table with that index then holds its rows.\<close>

lemma table_holds_new_index:
  assumes h: "table_holds t m R" and fresh: "\<And>k. prefix (IndexPrefix (t_ID t) (i_ID ix)) k \<Longrightarrow> m k = None"
    and new: "i_ID ix \<notin> i_ID ` set (t_Indexes t)"
    and t': "t_ID t' = t_ID t" "t_Columns t' = t_Columns t" "t_PK t' = t_PK t" "t_Indexes t' = t_Indexes t @ [ix]"
  shows "table_holds t' (\<lambda>k. if k \<in> entry_key t ix ` ran R then Some [] else m k) R"
proof -
  let ?m = "\<lambda>k. if k \<in> entry_key t ix ` ran R then Some [] else m k"
  have ok: "\<And>pk row. R pk = Some row \<Longrightarrow> row_pk t row = pk" using h by (simp add: table_holds_def rows_ok_def)
  have none: "m (IndexKey (t_ID t) (i_ID ix) v pk) = None" for v pk by (rule fresh) simp
  have "index_held t ?m R ix"
    using ok none fresh by (auto simp: index_held_def ran_def)
  moreover have "index_held t ?m R ix'" if "ix' \<in> set (t_Indexes t)" for ix'
  proof -
    have "i_ID ix' \<noteq> i_ID ix" using new that by (metis imageI)
    moreover have "index_held t m R ix'" using h that by (simp add: table_holds_def)
    ultimately show ?thesis by (auto simp: index_held_def)
  qed
  moreover have "rows_held t ?m R"
    using h by (auto simp: table_holds_def rows_held_def)
  moreover have "rows_ok t' R = rows_ok t R" "rows_held t' ?m R = rows_held t ?m R"
    "index_held t' ?m R i = index_held t ?m R i" for i
    by (simp_all add: rows_ok_def is_row_def rows_held_def index_held_def t')
  ultimately show ?thesis using h by (simp add: table_holds_def t'(4))
qed

section \<open>Properties\<close>

lemma change_rows_delete:
  "change_rows (spec_delete t) rows R n =
     (n + of_nat (length rows), None, R |` (- row_pk t ` set rows))"
proof (induction rows arbitrary: R n)
  case (Cons row rows)
  then show ?case by (auto simp: spec_delete_def fun_eq_iff restrict_map_def)
qed (simp add: restrict_map_def)

text \<open>DELETE removes from the table exactly the rows its scan selects for which the condition is
  TRUE, with their index entries, and reports their number, although it deletes while its own scan
  is still running.\<close>

lemma runDelete_targets:
  assumes "overlay_inv st" and "table_holds t (overlay_view st) R" and "table_ok t" and "target_ok t R p"
  shows "\<exists>rows st'. targets p R rows \<and>
    RunDML Overlay_rw (PDelete t p) st = Some (of_nat (length rows), None, st') \<and> overlay_inv st' \<and>
    table_holds t (overlay_view st') (R |` (- row_pk t ` set rows)) \<and>
    same_elsewhere t (overlay_view st) (overlay_view st')"
proof -
  have "overlay.does t (Mutator_Delete Overlay_rw t) (spec_delete t)"
    using assms(3) by (intro overlay.delete_does) (simp add: table_ok_def)
  from overlay.target_loop [OF assms(1,2,4) this] obtain op rows st' where
    "Build p (rw_reader Overlay_rw st) = Inr op" "targets p R rows"
    "change_loop Overlay_rw (Mutator_Delete Overlay_rw t) (Suc (op_size op)) op 0 st =
       Some (of_nat (length rows), None, st')"
    "overlay.leaves t st st' (R |` (- row_pk t ` set rows))"
    by (auto simp: change_rows_delete)
  then show ?thesis by (auto simp: runDelete_def overlay.leaves_def)
qed

lemma update_one_does:
  assumes "table_ok t" and "c_Type (PKColumn t) \<noteq> KindFloat"
  shows "overlay.does t (update_one Overlay_rw t sets env) (spec_update t (\<lambda>old. assign sets env old old))"
proof -
  have "Value_Kind (row_pk t row) \<noteq> KindFloat" if "is_row t row" for row
    using that assms Coerce_kind [of "row_pk t row" "c_Type (PKColumn t)" "row_pk t row"]
    by (auto simp: is_row_def table_ok_def PKColumn_def)
  then show ?thesis
    using assms(1) by (intro overlay.update_does) (simp_all add: table_ok_def update_one_def)
qed

text \<open>UPDATE changes the selected rows one after the other, each from its values before the
  statement, and stops at the first one that cannot be changed: a constraint it violates, or a key
  that another row has at that moment.  The rows changed until then stay changed.\<close>

lemma runUpdate_targets:
  assumes "overlay_inv st" and "table_holds t (overlay_view st) R" and "table_ok t" and "target_ok t R p"
    and "c_Type (PKColumn t) \<noteq> KindFloat"
  shows "\<exists>rows n err R' st'. targets p R rows \<and>
    change_rows (spec_update t (\<lambda>old. assign sets env old old)) rows R 0 = (n, err, R') \<and>
    RunDML Overlay_rw (PUpdate t p sets env) st = Some (n, err, st') \<and> overlay_inv st' \<and>
    table_holds t (overlay_view st') R' \<and> same_elsewhere t (overlay_view st) (overlay_view st')"
proof -
  from overlay.target_loop [OF assms(1,2,4) update_one_does [OF assms(3,5)]] obtain op rows st' where
    op: "Build p (rw_reader Overlay_rw st) = Inr op" "targets p R rows"
    and loop: "change_loop Overlay_rw (update_one Overlay_rw t sets env) (Suc (op_size op)) op 0 st =
       Some (fst (change_rows (spec_update t (\<lambda>old. assign sets env old old)) rows R 0),
         fst (snd (change_rows (spec_update t (\<lambda>old. assign sets env old old)) rows R 0)), st')"
    and left: "overlay.leaves t st st' (snd (snd (change_rows (spec_update t (\<lambda>old. assign sets env old old)) rows R 0)))" .
  obtain n err R' where "change_rows (spec_update t (\<lambda>old. assign sets env old old)) rows R 0 = (n, err, R')"
    by (metis surj_pair)
  then show ?thesis using op loop left by (fastforce simp: runUpdate_def overlay.leaves_def)
qed

text \<open>INSERT adds its rows one after the other and stops at the first that cannot be evaluated,
  violates a constraint or has a key that is taken, reporting how many it added.\<close>

theorem INSERT_adds_rows:
  assumes "overlay_inv st" and "table_holds t (overlay_view st) R" and "table_ok t"
  shows "\<exists>n err R' st'. change_rows (spec_values t cols) rows R 0 = (n, err, R') \<and>
    RunDML Overlay_rw (PInsert t rows cols) st = Some (n, err, st') \<and> overlay_inv st' \<and>
    table_holds t (overlay_view st') R' \<and> same_elsewhere t (overlay_view st) (overlay_view st')"
proof -
  have ids: "distinct (map i_ID (t_Indexes t))" using assms(3) by (simp add: table_ok_def)
  have "\<exists>st'. insert_loop Overlay_rw t cols rows n st =
      (fst (change_rows (spec_values t cols) rows R n), fst (snd (change_rows (spec_values t cols) rows R n)), st') \<and>
      overlay.leaves t st st' (snd (snd (change_rows (spec_values t cols) rows R n)))" for n
    using assms(1,2)
  proof (induction rows arbitrary: st R n)
    case (Cons es rows)
    note h = Cons.prems
    show ?case
    proof (cases "fill_row es cols (blank_row t)")
      case (Inl e)
      then show ?thesis using h by (simp add: spec_values_def overlay.leaves_def)
    next
      case row0: (Inr row0)
      show ?thesis
      proof (cases "fst (spec_insert t row0 R)")
        case (Some e)
        then have "Mutator_Insert Overlay_rw t row0 st = (Some e, st)" "snd (spec_insert t row0 R) = R"
          using overlay.Insert_view [OF h ids, of row0]
          by (auto simp: spec_insert_def Mutator_Insert_def split: sum.splits if_splits)
        then show ?thesis using h row0 Some
          by (simp add: spec_values_def overlay.leaves_def split_beta)
      next
        case None
        then obtain st1 where st1: "Mutator_Insert Overlay_rw t row0 st = (None, st1)"
          "overlay.leaves t st st1 (snd (spec_insert t row0 R))"
          using overlay.Insert_view [OF h ids, of row0]
          by (auto simp: spec_insert_def split: sum.splits if_splits)
        then have "overlay_inv st1" "table_holds t (overlay_view st1) (snd (spec_insert t row0 R))"
          by (simp_all add: overlay.leaves_def)
        from Cons.IH [OF this, of "n + 1"] show ?thesis
          using row0 None st1 overlay.leaves_trans by (fastforce simp: spec_values_def split_beta)
      qed
    qed
  qed (simp add: overlay.leaves_def)
  from this [of 0] show ?thesis
    by (cases "change_rows (spec_values t cols) rows R 0") (auto simp: runInsert_def overlay.leaves_def)
qed

text \<open>CREATE INDEX on a table with rows gives every row its entry, DROP INDEX removes exactly the
  index's entries, and DROP TABLE leaves neither rows nor entries; other tables are untouched.\<close>

theorem index_maintenance:
  assumes "overlay_inv st" and "table_holds t (overlay_view st) R"
    and "\<And>k. prefix (IndexPrefix (t_ID t) (i_ID ix)) k \<Longrightarrow> overlay_view st k = None"
    and "i_ID ix \<notin> i_ID ` set (t_Indexes t)"
  defines "t' \<equiv> t\<lparr>t_Indexes := t_Indexes t @ [ix]\<rparr>"
  shows "\<exists>st1. BuildIndex Overlay_rw t ix st = (None, st1) \<and> overlay_inv st1 \<and>
      table_holds t' (overlay_view st1) R \<and> same_elsewhere t' (overlay_view st) (overlay_view st1) \<and>
      (\<exists>st2. DropIndexEntries Overlay_rw t ix st1 = (None, st2) \<and> overlay_inv st2 \<and>
        overlay_view st2 = overlay_view st) \<and>
      (\<exists>st3. DropTableData Overlay_rw t' st1 = (None, st3) \<and> overlay_inv st3 \<and>
        table_holds t' (overlay_view st3) Map.empty \<and> same_elsewhere t' (overlay_view st) (overlay_view st3))"
proof -
  let ?p = "IndexPrefix (t_ID t) (i_ID ix)"
  obtain st1 where st1: "BuildIndex Overlay_rw t ix st = (None, st1)" "overlay_inv st1"
    "overlay_view st1 = (\<lambda>k. if k \<in> entry_key t ix ` ran R then Some [] else overlay_view st k)"
    using assms(1,2) by (rule overlay.BuildIndex_view)
  have holds: "table_holds t' (overlay_view st1) R"
    unfolding st1(3) by (rule table_holds_new_index [OF assms(2,3,4)]) (simp_all add: t'_def)
  have same: "same_elsewhere t' (overlay_view st) (overlay_view st1)"
    by (auto simp: same_elsewhere_def st1(3)) (auto simp: table_key_def t'_def)
  obtain st2 where st2: "deleteRange Overlay_rw (Some ?p) (PrefixEnd ?p) st1 = (None, st2)" "overlay_inv st2"
    "overlay_view st2 = (\<lambda>k. if in_range (Some ?p) (PrefixEnd ?p) k then None else overlay_view st1 k)"
    using st1(2) by (rule overlay.deleteRange_view)
  have "overlay_view st2 = overlay_view st"
    using assms(3) by (auto simp: st2(3) st1(3) in_range_PrefixEnd fun_eq_iff)
  moreover obtain st3 where st3: "DropTableData Overlay_rw t' st1 = (None, st3)" "overlay_inv st3"
    "overlay_view st3 = (\<lambda>k. if prefix (DataPrefix (t_ID t')) k \<or>
      (\<exists>ix \<in> set (t_Indexes t'). prefix (IndexPrefix (t_ID t') (i_ID ix)) k) then None else overlay_view st1 k)"
    using st1(2) by (rule overlay.DropTableData_view)
  have "table_holds t' (overlay_view st3) Map.empty"
    by (auto simp: table_holds_def rows_ok_def rows_held_def index_held_def st3(3) t'_def)
  moreover have "same_elsewhere t' (overlay_view st) (overlay_view st3)"
    using same by (auto simp: same_elsewhere_def st3(3) t'_def table_key_def)
  ultimately show ?thesis
    using st1 st2 st3 holds same by (auto simp: DropIndexEntries_def Let_def)
qed

section \<open>Witnesses\<close>

theorem INSERT_adds_rows_witness:
  "\<exists>st'. RunDML Overlay_rw (PInsert sample_indexed
       [[ELiteral (VInt 1)], [ELiteral (VInt 2)], [ELiteral (VInt 1)]] [0]) sample_empty =
       Some (2, Some (ErrDuplicateKey ''users'' ''id'' (VInt 1)), st') \<and>
     table_holds sample_indexed (overlay_view st') [VInt 1 \<mapsto> [VInt 1, VNull], VInt 2 \<mapsto> [VInt 2, VNull]]"
proof -
  let ?rows = "[[ELiteral (VInt 1)], [ELiteral (VInt 2)], [ELiteral (VInt 1)]]"
  have "change_rows (spec_values sample_indexed [0]) ?rows Map.empty 0 =
      (2, Some (ErrDuplicateKey ''users'' ''id'' (VInt 1)), [VInt 1 \<mapsto> [VInt 1, VNull], VInt 2 \<mapsto> [VInt 2, VNull]])"
    using sample_validate [of _ VNull]
    by (simp add: spec_values_def spec_insert_def blank_row_def sample_cols_def PKColumn_def)
  then show ?thesis
    using INSERT_adds_rows [OF sample_empty_view(2) sample_empty_holds sample_indexed_ok, of "[0]" ?rows] by auto
qed

theorem index_maintenance_witness:
  "\<exists>st1. BuildIndex Overlay_rw sample_table sample_index sample_empty = (None, st1) \<and>
     table_holds (sample_table\<lparr>t_Indexes := [sample_index]\<rparr>) (overlay_view st1) Map.empty"
proof -
  have "t_Indexes sample_table = []" by (simp add: sample_table_def sample_def_def)
  then show ?thesis
    using index_maintenance [OF sample_empty_view(2) sample_empty_holds, of sample_table sample_index]
    by (auto simp: sample_empty_view)
qed

end
