(* ===== verification/PlanSound.thy ===== *)
theory PlanSound
  imports Planner Statements
begin

text \<open>
  What the planner may rely on: a search argument is the condition it came from, a path with its
  residual is the whole condition, and the plans built for a statement read the rows that
  satisfy its condition.
\<close>

section \<open>Integers as doubles\<close>

lemma f_round_nonzero:
  assumes "0 < num"
  shows "0 < f_mag (f_round s num 1)" and "\<not> IsNaN (f_round s num 1)"
proof -
  let ?shift = "floorlog 2 num - 53"
  let ?m = "num div 2 ^ ?shift" and ?r = "num mod 2 ^ ?shift"
  let ?m' = "if 2 * ?r > 2 ^ ?shift \<or> (2 * ?r = 2 ^ ?shift \<and> odd ?m) then ?m + 1 else ?m"
  let ?mag = "min (?shift * 2 ^ 52 + ?m') (2047 * 2 ^ 52)"
  obtain mag where mag: "mag = ?mag" by simp
  have f: "f_round s num 1 = f_make s mag" by (simp add: mag f_round_def Let_def)
  have le: "mag \<le> 2047 * 2 ^ 52" by (simp add: mag)
  then have make: "f_mag (f_round s num 1) = mag" unfolding f by (intro f_mag_make) simp
  have "0 < ?shift * 2 ^ 52 + ?m'" using assms by (cases "?shift = 0") auto
  then show "0 < f_mag (f_round s num 1)" unfolding make by (simp add: mag)
  show "\<not> IsNaN (f_round s num 1)"
    using f_mag_split [of "f_round s num 1", unfolded make] le by (auto simp: IsNaN_def)
qed

lemma f_of_int64_key_ok: "key_ok (VFloat (f_of_int64 i))"
proof (cases "sint i = 0")
  case True
  then have "f_of_int64 i = f_make False 0"
    by (simp add: f_of_int64_def f_round_def Let_def floorlog_def)
  moreover have "f_mag (f_make False 0) = 0" "\<not> f_sign (f_make False 0)" by simp_all
  moreover have "f_sign f_neg_zero" by (simp add: f_sign_def f_neg_zero_def)
  ultimately have "f_of_int64 i \<noteq> f_neg_zero" "f_mag (f_of_int64 i) = 0" by metis+
  then show ?thesis by (simp add: key_ok_def IsNaN_def f_exp_def)
next
  case False
  then have pos: "0 < nat \<bar>sint i\<bar> * 2 ^ 1074" by simp
  have "f_mag f_neg_zero = 0" by (simp add: f_mag_def f_neg_zero_def)
  then have "f_of_int64 i \<noteq> f_neg_zero"
    using f_round_nonzero(1) [OF pos] by (metis f_of_int64_def less_irrefl)
  then show ?thesis using f_round_nonzero(2) [OF pos] by (simp add: key_ok_def f_of_int64_def)
qed

section \<open>Columns of a stored row\<close>

lemma column_kind:
  assumes "is_row t row" and "ColumnIndex t name = Some p"
  shows "row ! nat p = VNull \<or> Value_Kind (row ! nat p) = c_Type (t_Columns t ! nat p)"
    and "Eval (EColumn tbl name) (Some (TableEnv t)) row =
      (case map_of (env_Columns (TableEnv t)) name of
         None \<Rightarrow> Inl (ColumnNotAvailable name) | Some pos \<Rightarrow> row_at row pos)"
proof -
  have "nat p < length row" using ColumnIndex_Some(2) [OF assms(2)] assms(1) by (simp add: is_row_def)
  then have "Coerce (row ! nat p) (c_Type (t_Columns t ! nat p)) = Inr (row ! nat p)"
    using assms(1) by (simp add: is_row_def)
  then show "row ! nat p = VNull \<or> Value_Kind (row ! nat p) = c_Type (t_Columns t ! nat p)"
    by (rule Coerce_kind)
qed (simp add: eval_column_def)

lemma Eval_row_column:
  assumes "table_ok t" and "is_row t row" and "ColumnIndex t name = Some p"
  shows "Eval (EColumn tbl name) (Some (TableEnv t)) row = Inr (row ! nat p)"
  using assms ColumnIndex_Some [OF assms(3)]
  by (simp add: table_ok_def TableEnv_Columns eval_column_def row_at_def is_row_def)

lemma ColumnIndex_nth:
  assumes "distinct (map c_Name (t_Columns t))" and "i < length (t_Columns t)"
  shows "ColumnIndex t (c_Name (t_Columns t ! i)) = Some (int i)"
proof -
  have "c_Name (t_Columns t ! i) \<in> c_Name ` set (t_Columns t)" using assms(2) by simp
  then obtain p where p: "ColumnIndex t (c_Name (t_Columns t ! i)) = Some p"
    unfolding ColumnIndex_def
  proof -
    have "name \<in> c_Name ` set cs \<Longrightarrow> column_index_from j cs name \<noteq> None" for name cs j
      by (induction cs arbitrary: j) auto
    then show ?thesis using that \<open>_ \<in> _\<close> unfolding ColumnIndex_def by blast
  qed
  then have "map c_Name (t_Columns t) ! nat p = map c_Name (t_Columns t) ! i" "nat p < length (t_Columns t)"
    using ColumnIndex_Some [OF p] assms(2) by simp_all
  then have "nat p = i" using assms nth_eq_iff_index_eq [OF assms(1)] by (metis length_map)
  then show ?thesis using p ColumnIndex_Some(1) [OF p] by simp
qed

lemma ColumnIndex_PK: "table_ok t \<Longrightarrow> ColumnIndex t (c_Name (PKColumn t)) = Some (t_PK t)"
  using ColumnIndex_nth [of t "nat (t_PK t)"] by (simp add: table_ok_def PKColumn_def)

lemma row_pk_not_null: "table_ok t \<Longrightarrow> is_row t row \<Longrightarrow> row_pk t row \<noteq> VNull"
  unfolding table_ok_def is_row_def by (metis PKColumn_def)

section \<open>Search arguments\<close>

lemma Order_VNull: "v \<noteq> VNull \<Longrightarrow> 0 < Order v VNull \<and> Order VNull v < 0"
  by (cases v) (simp_all add: Order_rank cmp3_def)

text \<open>The kinds of bound the planner makes, all from a constant that is not NULL.\<close>

definition range_of :: "Range \<Rightarrow> bool" where
  "range_of r \<longleftrightarrow> (bd_Set (Lo r) \<longrightarrow> bd_Value (Lo r) \<noteq> VNull) \<and> (bd_Set (Hi r) \<longrightarrow> bd_Value (Hi r) \<noteq> VNull)"

lemma range_of_NULL: "range_of r \<Longrightarrow> in_interval r VNull \<longleftrightarrow> \<not> bd_Set (Lo r)"
  using Order_VNull [of "bd_Value (Lo r)"] Order_VNull [of "bd_Value (Hi r)"]
  by (auto simp: range_of_def in_interval_def above_def below_def)

lemma boundValue_Some:
  assumes "boundValue t name l = Some v"
  obtains p where "ColumnIndex t name = Some p" and "Value_Kind v = c_Type (t_Columns t ! nat p)"
    and "v \<noteq> VNull" and "key_ok l \<Longrightarrow> key_ok v"
    and "\<And>x op. x = VNull \<or> Value_Kind x = Value_Kind v \<Longrightarrow>
      CompareOp op x l = CompareOp op x v \<and> CompareOp op l x = CompareOp op v x"
proof -
  obtain p where p: "ColumnIndex t name = Some p"
    using assms by (auto simp: boundValue_def split: option.splits)
  have l: "l \<noteq> VNull" using assms p by (auto simp: boundValue_def Let_def split: if_splits)
  consider "v = l" "Value_Kind l = c_Type (t_Columns t ! nat p)"
    | i where "l = VInt i" "v = VFloat (f_of_int64 i)" "c_Type (t_Columns t ! nat p) = KindFloat"
    using assms p l by (cases l) (auto simp: boundValue_def Let_def split: if_splits)
  then show thesis
  proof cases
    case 1
    then show thesis using that [OF p] l by simp
  next
    case 2
    have "CompareOp op x l = CompareOp op x v \<and> CompareOp op l x = CompareOp op v x"
      if "x = VNull \<or> Value_Kind x = Value_Kind v" for x op
      using that 2 by (cases x) (auto simp: CompareOp_def)
    then show thesis using that [OF p] 2 f_of_int64_key_ok by simp
  qed
qed

lemma op_range_Some:
  assumes "op_range op v = Some r" and "v \<noteq> VNull"
  shows "range_of r" and "key_ok v \<Longrightarrow> bound_ok (Lo r) \<and> bound_ok (Hi r)" and "is_comparison op"
  using assms
  by (auto simp: op_range_def range_of_def bound_ok_def no_bound_def is_comparison_def split: if_splits)

lemma cmp3_swap_Order: "Order a b = - Order b a"
  using cmp3_swap by (simp add: Order_rank)

lemma op_range_Compare:
  assumes "op_range op v = Some r" and "v \<noteq> VNull" and "Value_Kind x = Value_Kind v"
  shows "CompareOp op x v = Inr (B3 (in_interval r x))"
proof -
  have "x \<noteq> VNull" using assms(2,3) by (cases v) auto
  note c = CompareOp_same_kind [OF assms(3) this] and s = cmp3_swap_Order [of v x]
  show ?thesis
    using assms(1)
    by (auto simp: op_range_def in_interval_def above_def below_def no_bound_def c s
        split: if_splits intro!: arg_cong [of _ _ B3])
qed

lemma op_range_flip:
  assumes "op_range (flipOp op) v = Some r" and "v \<noteq> VNull" and "Value_Kind x = Value_Kind v"
  shows "CompareOp op v x = Inr (B3 (in_interval r x))" and "is_comparison op"
proof -
  have "CompareOp ''=='' v x = CompareOp ''='' v x" by (simp add: CompareOp_def cong: sum.case_cong)
  note c = CompareOp_same_kind [OF assms(3) [symmetric] assms(2)] this and s = cmp3_swap_Order [of x v]
  show "CompareOp op v x = Inr (B3 (in_interval r x))"
    using assms(1)
    by (auto simp: op_range_def flipOp_def in_interval_def above_def below_def no_bound_def c s
        split: if_splits intro!: arg_cong [of _ _ B3])
  show "is_comparison op"
    using assms(1) by (auto simp: op_range_def flipOp_def is_comparison_def split: if_splits)
qed

text \<open>What a conjunct that became the range \<open>r\<close> of column \<open>col\<close> says about a row.\<close>

definition col_value :: "Table \<Rightarrow> Row \<Rightarrow> string \<Rightarrow> Value" where
  "col_value t row col = row ! nat (the (ColumnIndex t col))"

definition range_truth :: "Range \<Rightarrow> Value \<Rightarrow> Bool3" where
  "range_truth r v = (if v = VNull then B3Unknown else B3 (in_interval r v))"

definition constants_ok :: "Expr \<Rightarrow> bool" where
  "constants_ok e \<longleftrightarrow> (\<forall>v. ELiteral v \<in> set (nodes e) \<longrightarrow> key_ok v)"

lemma asColumn_Some: "asColumn e = Some name \<longleftrightarrow> (\<exists>tbl. e = EColumn tbl name)"
  by (cases e) auto

lemma asLiteral_Some: "asLiteral e = Some v \<longleftrightarrow> e = ELiteral v"
  by (cases e) auto

lemma Eval_row_literal [simp]: "Eval (ELiteral v) (Some (TableEnv t)) row = Inr v"
  by (rule Eval_ELiteral) simp

text \<open>The cases of \<open>sargable\<close>.\<close>

lemma sargable_cases:
  assumes "sargable t c = Some (col, r)"
  obtains (direct) op tbl l v where "c = EBinary op (EColumn tbl col) (ELiteral l)"
      and "boundValue t col l = Some v" and "op_range op v = Some r"
  | (flipped) op tbl l v where "c = EBinary op (ELiteral l) (EColumn tbl col)"
      and "boundValue t col l = Some v" and "op_range (flipOp op) v = Some r"
  | (between) tbl l h lov hiv where "c = EBetween (EColumn tbl col) (ELiteral l) (ELiteral h) False"
      and "boundValue t col l = Some lov" and "boundValue t col h = Some hiv"
      and "r = \<lparr>Lo = bound_at lov True, Hi = bound_at hiv True\<rparr>"
proof (cases c)
  case (EBinary op l r')
  show thesis
  proof (cases "asColumn l = None \<or> asLiteral r' = None")
    case True
    then show thesis
      using assms EBinary flipped
      by (auto simp: sargable_op_def asColumn_Some asLiteral_Some split: option.splits if_splits)
  next
    case False
    then show thesis
      using assms EBinary direct
      by (auto simp: sargable_op_def asColumn_Some asLiteral_Some split: option.splits if_splits)
  qed
next
  case (EBetween a lo hi n)
  then show thesis
    using assms between
    by (auto simp: asColumn_Some asLiteral_Some split: option.splits if_splits)
qed (use assms in simp_all)

lemma bound_on_row:
  assumes b: "boundValue t col l = Some v" and row: "is_row t row"
  obtains p where "ColumnIndex t col = Some p" and "v \<noteq> VNull"
    and "row ! nat p = VNull \<or> Value_Kind (row ! nat p) = Value_Kind v"
    and "\<And>op. CompareOp op (row ! nat p) l = CompareOp op (row ! nat p) v"
    and "\<And>op. CompareOp op l (row ! nat p) = CompareOp op v (row ! nat p)"
proof -
  from b obtain p where p: "ColumnIndex t col = Some p" "Value_Kind v = c_Type (t_Columns t ! nat p)"
    "v \<noteq> VNull" "\<And>x op. x = VNull \<or> Value_Kind x = Value_Kind v \<Longrightarrow> CompareOp op x l = CompareOp op x v \<and> CompareOp op l x = CompareOp op v x"
    by (rule boundValue_Some) blast
  have "row ! nat p = VNull \<or> Value_Kind (row ! nat p) = Value_Kind v"
    using column_kind(1) [OF row p(1)] p(2) by simp
  then show thesis using that p by blast
qed

lemma sargable_sound:
  assumes s: "sargable t c = Some (col, r)" and t: "table_ok t" and row: "is_row t row"
  shows "EvalPredicate c (Some (TableEnv t)) row = Inr (range_truth r (col_value t row col))"
  using s
proof (cases rule: sargable_cases)
  case (direct op tbl l v)
  obtain p where p: "ColumnIndex t col = Some p" "v \<noteq> VNull" "row ! nat p = VNull \<or> Value_Kind (row ! nat p) = Value_Kind v"
    "CompareOp op (row ! nat p) l = CompareOp op (row ! nat p) v"
    by (rule bound_on_row [OF direct(2) row]) blast
  then have "CompareOp op (row ! nat p) l = Inr (range_truth r (row ! nat p))"
    using op_range_Compare [OF direct(3) p(2)] by (auto simp: range_truth_def)
  then show ?thesis
    using direct(1) op_range_Some(3) [OF direct(3) p(2)] Eval_row_column [OF t row p(1)]
    by (simp add: EvalPredicate_comparison col_value_def p(1))
next
  case (flipped op tbl l v)
  obtain p where p: "ColumnIndex t col = Some p" "v \<noteq> VNull" "row ! nat p = VNull \<or> Value_Kind (row ! nat p) = Value_Kind v"
    "CompareOp op l (row ! nat p) = CompareOp op v (row ! nat p)"
    by (rule bound_on_row [OF flipped(2) row]) blast
  then have "CompareOp op l (row ! nat p) = Inr (range_truth r (row ! nat p))"
    using op_range_flip(1) [OF flipped(3) p(2)] by (auto simp: range_truth_def)
  then show ?thesis
    using flipped op_range_flip(2) [OF flipped(3) p(2) refl] Eval_row_column [OF t row p(1)]
    by (simp add: EvalPredicate_comparison col_value_def p(1))
next
  case (between tbl l h lov hiv)
  obtain p where p: "ColumnIndex t col = Some p" "row ! nat p = VNull \<or> Value_Kind (row ! nat p) = Value_Kind lov"
    "\<And>op. CompareOp op (row ! nat p) l = CompareOp op (row ! nat p) lov"
    by (rule bound_on_row [OF between(2) row]) blast
  obtain q where q: "ColumnIndex t col = Some q" "row ! nat q = VNull \<or> Value_Kind (row ! nat q) = Value_Kind hiv"
    "\<And>op. CompareOp op (row ! nat q) h = CompareOp op (row ! nat q) hiv"
    by (rule bound_on_row [OF between(3) row]) blast
  have [simp]: "q = p" using p(1) q(1) by simp
  let ?x = "row ! nat p"
  have "B3And (B3 a) (B3 b) = B3 (a \<and> b)" for a b by (simp add: B3_def B3And_table)
  moreover have "in_interval r ?x \<longleftrightarrow> 0 \<le> Order ?x lov \<and> Order ?x hiv \<le> 0"
    using cmp3_swap_Order [of lov ?x] by (auto simp: between(4) in_interval_def above_def below_def)
  ultimately have "?x \<noteq> VNull \<Longrightarrow> CompareOp ''>='' ?x l = Inr (B3 (0 \<le> Order ?x lov)) \<and>
      CompareOp ''<='' ?x h = Inr (B3 (Order ?x hiv \<le> 0)) \<and>
      B3And (B3 (0 \<le> Order ?x lov)) (B3 (Order ?x hiv \<le> 0)) = range_truth r ?x"
    using p(2,3) q(2,3) CompareOp_same_kind by (auto simp: range_truth_def)
  then show ?thesis
    using Eval_row_column [OF t row p(1)]
    by (cases "?x = VNull")
      (simp_all add: between(1) EvalPredicate_EBetween col_value_def p(1) negate_if_def range_truth_def B3And_def)
qed

lemma sargable_range:
  assumes "sargable t c = Some (col, r)"
  shows "range_of r" and "constants_ok c \<Longrightarrow> bound_ok (Lo r) \<and> bound_ok (Hi r)" and "ColumnIndex t col \<noteq> None"
  using assms
  by (cases rule: sargable_cases;
    force simp: constants_ok_def range_of_def bound_ok_def elim!: boundValue_Some dest: op_range_Some)+

section \<open>The ranges of the columns\<close>

lemma range_of_Intersect: "range_of r \<Longrightarrow> range_of r' \<Longrightarrow> range_of (Intersect r r')"
  by (auto simp: range_of_def Intersect_Lo Intersect_Hi)

lemma bound_ok_Intersect:
  "bound_ok (Lo r) \<and> bound_ok (Hi r) \<Longrightarrow> bound_ok (Lo r') \<and> bound_ok (Hi r') \<Longrightarrow>
     bound_ok (Lo (Intersect r r')) \<and> bound_ok (Hi (Intersect r r'))"
  by (auto simp: Intersect_Lo Intersect_Hi)

text \<open>The conjuncts that are search arguments for a column, and the range they leave together.\<close>

definition args_of :: "Table \<Rightarrow> Expr list \<Rightarrow> string \<Rightarrow> Range set" where
  "args_of t cs col = {r. \<exists>c \<in> set cs. sargable t c = Some (col, r)}"

definition range_for :: "Table \<Rightarrow> Expr list \<Rightarrow> string \<Rightarrow> Range \<Rightarrow> bool" where
  "range_for t cs col R \<longleftrightarrow>
     args_of t cs col \<noteq> {} \<and> range_of R \<and>
     ((\<forall>c \<in> set cs. constants_ok c) \<longrightarrow> bound_ok (Lo R) \<and> bound_ok (Hi R)) \<and>
     (\<forall>v. in_interval R v \<longleftrightarrow> (\<forall>r \<in> args_of t cs col. in_interval r v))"

definition search_inv :: "Table \<Rightarrow> Expr list \<Rightarrow> (string \<rightharpoonup> Range) \<Rightarrow> (string \<Rightarrow> nat list) \<Rightarrow> bool" where
  "search_inv t cs ranges owners \<longleftrightarrow>
     (\<forall>col i. i \<in> set (owners col) \<longleftrightarrow> i < length cs \<and> (\<exists>r. sargable t (cs ! i) = Some (col, r))) \<and>
     (\<forall>col. case ranges col of None \<Rightarrow> args_of t cs col = {} | Some R \<Rightarrow> range_for t cs col R)"

lemma args_of_snoc:
  "args_of t (cs @ [c]) col = args_of t cs col \<union> {r. sargable t c = Some (col, r)}"
  by (auto simp: args_of_def)

lemma range_for_snoc_other:
  assumes "\<And>r. sargable t c \<noteq> Some (col, r)" and "range_for t cs col R"
  shows "range_for t (cs @ [c]) col R"
  using assms by (auto simp: range_for_def args_of_snoc)

lemma range_for_snoc:
  assumes "sargable t c = Some (col, r)"
    and "case prev of None \<Rightarrow> args_of t cs col = {} | Some R \<Rightarrow> range_for t cs col R"
  shows "range_for t (cs @ [c]) col (case prev of Some R \<Rightarrow> Intersect R r | None \<Rightarrow> r)"
proof -
  have args: "args_of t (cs @ [c]) col = insert r (args_of t cs col)"
    using assms(1) by (auto simp: args_of_snoc)
  show ?thesis
  proof (cases prev)
    case None
    then show ?thesis using assms(2) sargable_range(1,2) [OF assms(1)] by (simp add: range_for_def args)
  next
    case (Some R)
    then have R: "range_for t cs col R" using assms(2) by simp
    have "bound_ok (Lo (Intersect R r)) \<and> bound_ok (Hi (Intersect R r))"
      if "\<forall>c \<in> set (cs @ [c]). constants_ok c"
      using that R sargable_range(2) [OF assms(1)] by (intro bound_ok_Intersect) (auto simp: range_for_def)
    moreover have "range_of (Intersect R r)"
      using R sargable_range(1) [OF assms(1)] by (intro range_of_Intersect) (auto simp: range_for_def)
    moreover have "in_interval (Intersect R r) v \<longleftrightarrow> (\<forall>r \<in> insert r (args_of t cs col). in_interval r v)" for v
      using R by (auto simp: range_for_def in_interval_Intersect)
    ultimately show ?thesis unfolding Some range_for_def args by simp
  qed
qed

lemma search_inv_step:
  assumes inv: "search_inv t cs ranges owners"
  shows "sargable t c = None \<Longrightarrow> search_inv t (cs @ [c]) ranges owners"
    and "sargable t c = Some (col, r) \<Longrightarrow> search_inv t (cs @ [c])
      (ranges(col \<mapsto> (case ranges col of Some prev \<Rightarrow> Intersect prev r | None \<Rightarrow> r)))
      (owners(col := owners col @ [length cs]))"
proof -
  have nth: "i < length (cs @ [c]) \<and> (\<exists>r. sargable t ((cs @ [c]) ! i) = Some (col', r)) \<longleftrightarrow>
      i < length cs \<and> (\<exists>r. sargable t (cs ! i) = Some (col', r)) \<or>
      i = length cs \<and> (\<exists>r. sargable t c = Some (col', r))" for i col'
    by (auto simp: nth_append less_Suc_eq)
  note o = inv [unfolded search_inv_def, THEN conjunct1, rule_format]
    and R = inv [unfolded search_inv_def, THEN conjunct2, rule_format]
  show "search_inv t (cs @ [c]) ranges owners" if s: "sargable t c = None"
  proof -
    have other: "range_for t cs col Q \<Longrightarrow> range_for t (cs @ [c]) col Q" for col Q
      by (rule range_for_snoc_other) (simp_all add: s)
    have "case ranges col of None \<Rightarrow> args_of t (cs @ [c]) col = {} | Some R \<Rightarrow> range_for t (cs @ [c]) col R" for col
      using R [of col] other s by (cases "ranges col") (simp_all add: args_of_snoc)
    then show ?thesis unfolding search_inv_def nth using o s by simp
  qed
  show "search_inv t (cs @ [c])
      (ranges(col \<mapsto> (case ranges col of Some prev \<Rightarrow> Intersect prev r | None \<Rightarrow> r)))
      (owners(col := owners col @ [length cs]))" if s: "sargable t c = Some (col, r)"
    unfolding search_inv_def nth
  proof (intro conjI allI)
    fix col' i
    show "i \<in> set ((owners(col := owners col @ [length cs])) col') \<longleftrightarrow>
        i < length cs \<and> (\<exists>r. sargable t (cs ! i) = Some (col', r)) \<or>
        i = length cs \<and> (\<exists>r. sargable t c = Some (col', r))"
      using o s by auto
  next
    fix col'
    let ?R = "ranges(col \<mapsto> (case ranges col of Some prev \<Rightarrow> Intersect prev r | None \<Rightarrow> r))"
    show "case ?R col' of None \<Rightarrow> args_of t (cs @ [c]) col' = {} | Some R \<Rightarrow> range_for t (cs @ [c]) col' R"
    proof (cases "col' = col")
      case True
      then show ?thesis using range_for_snoc [OF s R] by simp
    next
      case False
      then have "range_for t cs col' Q \<Longrightarrow> range_for t (cs @ [c]) col' Q" for Q
        using s by (intro range_for_snoc_other) auto
      then show ?thesis using False R [of col'] s by (auto simp: args_of_snoc split: option.splits)
    qed
  qed
qed

lemma collect_inv:
  "search_inv t pre ranges owners \<Longrightarrow> collect_ranges t (length pre) cs ranges owners = (ranges', owners') \<Longrightarrow>
     search_inv t (pre @ cs) ranges' owners'"
proof (induction cs arbitrary: pre ranges owners)
  case (Cons c cs)
  then show ?case
    using Cons.IH [of "pre @ [c]"] search_inv_step [OF Cons.prems(1), of c]
    by (auto split: option.splits)
qed simp

section \<open>Access paths\<close>

definition path_inv :: "Table \<Rightarrow> Expr list \<Rightarrow> accessPath \<Rightarrow> bool" where
  "path_inv t cs a \<longleftrightarrow> ap_table a = t \<and>
     (ap_index a = None \<and> ap_bounds a = full_range \<and> (\<forall>i. \<not> ap_consumed a i) \<and>
        ap_ordersBy a = c_Name (PKColumn t) \<or>
      range_for t cs (ap_ordersBy a) (ap_bounds a) \<and> Bounded (ap_bounds a) \<and>
      (\<forall>i < length cs. ap_consumed a i \<longleftrightarrow> (\<exists>r. sargable t (cs ! i) = Some (ap_ordersBy a, r))) \<and>
      (case ap_index a of
         None \<Rightarrow> ap_ordersBy a = c_Name (PKColumn t)
       | Some ix \<Rightarrow> ix \<in> set (t_Indexes t) \<and> ap_ordersBy a = i_Column ix))"

lemma search_inv_range:
  assumes "search_inv t cs ranges owners" and "ranges col = Some R"
  shows "range_for t cs col R"
    and "i < length cs \<Longrightarrow> indexSet (owners col) i \<longleftrightarrow> (\<exists>r. sargable t (cs ! i) = Some (col, r))"
proof -
  show "range_for t cs col R"
    using assms(1) [unfolded search_inv_def, THEN conjunct2, rule_format, of col] assms(2) by simp
  show "indexSet (owners col) i \<longleftrightarrow> (\<exists>r. sargable t (cs ! i) = Some (col, r))" if "i < length cs"
    using assms(1) [unfolded search_inv_def, THEN conjunct1, rule_format, of i col] that
    by (simp add: indexSet_def)
qed

lemma choosePath_inv: "path_inv t cs (choosePath t cs)"
proof -
  obtain ranges owners where c: "collect_ranges t 0 cs Map.empty (\<lambda>col. []) = (ranges, owners)"
    by fastforce
  have "search_inv t [] Map.empty (\<lambda>col. [])" by (simp add: search_inv_def args_of_def)
  then have inv: "search_inv t cs ranges owners"
    using collect_inv [of t "[]" Map.empty "\<lambda>col. []" cs ranges owners] c by simp
  have scan: "path_inv t cs (scan_path t)" by (simp add: path_inv_def scan_path_def)
  have pk: "path_inv t cs (pk_path t ranges owners a)" if "path_inv t cs a" for a
    using that search_inv_range [OF inv, of "c_Name (PKColumn t)"]
    by (auto simp: pk_path_def path_inv_def Let_def split: option.splits)
  have ix: "path_inv t cs (index_path t ranges owners ix a)" if "path_inv t cs a" "ix \<in> set (t_Indexes t)" for a ix
    using that search_inv_range [OF inv, of "i_Column ix"]
    by (auto simp: index_path_def path_inv_def Let_def split: option.splits)
  have "path_inv t cs (fold (index_path t ranges owners) ixs a)"
    if "path_inv t cs a" "set ixs \<subseteq> set (t_Indexes t)" for ixs a
    using that by (induction ixs arbitrary: a) (simp_all add: ix)
  then show ?thesis using pk [OF scan] by (simp add: choosePath_def c)
qed

section \<open>A path with its residual is the whole condition\<close>

definition holds_for :: "Table \<Rightarrow> Row \<Rightarrow> Expr \<Rightarrow> bool" where
  "holds_for t row c \<longleftrightarrow> EvalPredicate c (Some (TableEnv t)) row = Inr B3True"

text \<open>The one way a path lets through a row its conjuncts reject: an index scan whose range has no
  lower bound starts at the entries of NULL.\<close>

definition null_slip :: "accessPath \<Rightarrow> Row \<Rightarrow> bool" where
  "null_slip a row \<longleftrightarrow> ap_index a \<noteq> None \<and> \<not> bd_Set (Lo (ap_bounds a)) \<and>
     col_value (ap_table a) row (ap_ordersBy a) = VNull"

lemma set_residual_from:
  "c \<in> set (residual_from P i cs) \<longleftrightarrow> (\<exists>j < length cs. cs ! j = c \<and> \<not> P (i + j))"
proof (induction cs arbitrary: i)
  case (Cons d cs)
  have "(\<exists>j < length (d # cs). (d # cs) ! j = c \<and> \<not> P (i + j)) \<longleftrightarrow>
      d = c \<and> \<not> P i \<or> (\<exists>j < length cs. cs ! j = c \<and> \<not> P (i + 1 + j))"
    by (simp add: Ex_less_Suc2)
  then show ?case using Cons [of "i + 1"] by auto
qed simp

lemma holds_range_truth:
  "sargable t c = Some (col, r) \<Longrightarrow> table_ok t \<Longrightarrow> is_row t row \<Longrightarrow>
     holds_for t row c \<longleftrightarrow> col_value t row col \<noteq> VNull \<and> in_interval r (col_value t row col)"
  by (simp add: holds_for_def sargable_sound range_truth_def)

lemma path_column:
  assumes "path_inv t cs a" and "table_ok t"
  shows "Bounded (ap_bounds a) \<Longrightarrow>
      scan_selects (path_build a msk) row \<longleftrightarrow> in_interval (ap_bounds a) (col_value t row (ap_ordersBy a))"
    and "ap_index a = None \<Longrightarrow> is_row t row \<Longrightarrow> col_value t row (ap_ordersBy a) \<noteq> VNull"
proof -
  have pk: "ColumnIndex t (c_Name (PKColumn t)) = Some (t_PK t)"
    and ix: "\<And>ix. ix \<in> set (t_Indexes t) \<Longrightarrow> ColumnIndex t (i_Column ix) = Some (i_Pos ix)"
    using assms(2) ColumnIndex_PK by (auto simp: table_ok_def)
  have none: "ap_index a = None \<Longrightarrow> ap_ordersBy a = c_Name (PKColumn t)" and tbl: "ap_table a = t"
    and some: "\<And>ix. Bounded (ap_bounds a) \<Longrightarrow> ap_index a = Some ix \<Longrightarrow> ix \<in> set (t_Indexes t) \<and> ap_ordersBy a = i_Column ix"
    using assms(1) by (auto simp: path_inv_def Bounded_def full_range_def no_bound_def)
  show "scan_selects (path_build a msk) row \<longleftrightarrow> in_interval (ap_bounds a) (col_value t row (ap_ordersBy a))"
    if "Bounded (ap_bounds a)"
    using that none some ix by (cases "ap_index a") (auto simp: path_build_def col_value_def tbl pk)
  show "col_value t row (ap_ordersBy a) \<noteq> VNull" if "ap_index a = None" "is_row t row"
    using none [OF that(1)] row_pk_not_null [OF assms(2) that(2)] by (simp add: col_value_def pk)
qed

lemma path_exact:
  assumes a: "path_inv t cs a" and t: "table_ok t" and row: "is_row t row"
  shows "(\<forall>c \<in> set cs. holds_for t row c) \<longleftrightarrow>
    scan_selects (path_build a msk) row \<and> \<not> null_slip a row \<and>
    (\<forall>c \<in> set (path_residual a cs). holds_for t row c)"
proof (cases "Bounded (ap_bounds a)")
  case False
  then have scan: "ap_index a = None" "\<And>i. \<not> ap_consumed a i" using a by (auto simp: path_inv_def)
  then have "c \<in> set (path_residual a cs) \<longleftrightarrow> c \<in> set cs" for c
    unfolding path_residual_def set_residual_from in_set_conv_nth [of c cs] by auto
  then show ?thesis using scan False by (simp add: Ball_def null_slip_def path_build_def)
next
  case True
  let ?v = "col_value t row (ap_ordersBy a)" and ?col = "ap_ordersBy a"
  have R: "range_for t cs ?col (ap_bounds a)" and tbl: "ap_table a = t"
    and consumed: "\<And>i. i < length cs \<Longrightarrow> ap_consumed a i \<longleftrightarrow> (\<exists>r. sargable t (cs ! i) = Some (?col, r))"
    using a True by (auto simp: path_inv_def Bounded_def full_range_def no_bound_def)
  have residual: "c \<in> set (path_residual a cs) \<longleftrightarrow> c \<in> set cs \<and> (\<forall>r. sargable t c \<noteq> Some (?col, r))" for c
    unfolding path_residual_def set_residual_from in_set_conv_nth [of c cs] using consumed by auto
  have args: "(\<forall>c \<in> set cs. (\<exists>r. sargable t c = Some (?col, r)) \<longrightarrow> holds_for t row c) \<longleftrightarrow>
      (\<forall>r \<in> args_of t cs ?col. ?v \<noteq> VNull \<and> in_interval r ?v)"
    using holds_range_truth [OF _ t row] by (auto simp: args_of_def)
  also have "\<dots> \<longleftrightarrow> ?v \<noteq> VNull \<and> in_interval (ap_bounds a) ?v"
    using R by (auto simp: range_for_def)
  also have "\<dots> \<longleftrightarrow> in_interval (ap_bounds a) ?v \<and> \<not> null_slip a row"
    using path_column(2) [OF a t _ row] range_of_NULL [of "ap_bounds a"] R
    by (auto simp: null_slip_def tbl range_for_def)
  finally show ?thesis
    unfolding path_column(1) [OF a t True] using residual by blast
qed

section \<open>Splitting and joining a condition\<close>

definition evals_for :: "Table \<Rightarrow> Row \<Rightarrow> Expr \<Rightarrow> bool" where
  "evals_for t row c \<longleftrightarrow> (\<exists>tv. EvalPredicate c (Some (TableEnv t)) row = Inr tv)"

fun where_holds :: "Table \<Rightarrow> Expr option \<Rightarrow> Row \<Rightarrow> bool" where
  "where_holds t None row = True"
| "where_holds t (Some e) row = holds_for t row e"

lemma AND_holds:
  assumes "evals_for t row l" and "evals_for t row r"
  shows "evals_for t row (EBinary ''AND'' l r)"
    and "holds_for t row (EBinary ''AND'' l r) \<longleftrightarrow> holds_for t row l \<and> holds_for t row r"
proof -
  obtain u v where uv: "EvalPredicate l (Some (TableEnv t)) row = Inr u"
    "EvalPredicate r (Some (TableEnv t)) row = Inr v"
    using assms by (auto simp: evals_for_def)
  then have "is_bool3 u" "is_bool3 v" by (simp_all add: EvalPredicate_bool3)
  then show "evals_for t row (EBinary ''AND'' l r)"
    and "holds_for t row (EBinary ''AND'' l r) \<longleftrightarrow> holds_for t row l \<and> holds_for t row r"
    by (auto simp: evals_for_def holds_for_def EvalPredicate_AND uv elim!: is_bool3_cases)
qed

lemma split_expr_AND [simp]: "split_expr (EBinary ''AND'' l r) = split_expr l @ split_expr r"
  by simp

lemma split_holds:
  assumes "\<forall>c \<in> set (split_expr e). evals_for t row c"
  shows "evals_for t row e \<and> (holds_for t row e \<longleftrightarrow> (\<forall>c \<in> set (split_expr e). holds_for t row c))"
  using assms
proof (induction e rule: split_expr.induct)
  case (1 op l r)
  show ?case
  proof (cases "op = ''AND''")
    case True
    then have "\<forall>c \<in> set (split_expr l). evals_for t row c" "\<forall>c \<in> set (split_expr r). evals_for t row c"
      using 1(3) by simp_all
    then show ?thesis using 1(1,2) AND_holds [of t row l r] True by auto
  qed (use 1(3) in simp)
qed simp_all

lemma splitConjuncts_holds:
  "\<forall>c \<in> set (splitConjuncts w). evals_for t row c \<Longrightarrow>
     where_holds t w row \<longleftrightarrow> (\<forall>c \<in> set (splitConjuncts w). holds_for t row c)"
  using split_holds by (cases w) (auto simp: splitConjuncts_def)

lemma foldl_AND_holds:
  assumes "\<forall>c \<in> set (e # es). evals_for t row c"
  shows "evals_for t row (foldl (EBinary ''AND'') e es) \<and>
    (holds_for t row (foldl (EBinary ''AND'') e es) \<longleftrightarrow> (\<forall>c \<in> set (e # es). holds_for t row c))"
  using assms
proof (induction es arbitrary: e)
  case (Cons c es)
  then show ?case using AND_holds [of t row e c] Cons.IH [of "EBinary ''AND'' e c"] by simp
qed simp

lemma join_cases:
  obtains (none) "cs = []" "filter_over cs env node = node"
  | (some) pred where "cs \<noteq> []" "filter_over cs env node = PFilter node pred env"
      "\<And>t row. \<forall>c \<in> set cs. evals_for t row c \<Longrightarrow>
         evals_for t row pred \<and> (holds_for t row pred \<longleftrightarrow> (\<forall>c \<in> set cs. holds_for t row c))"
      "set (Columns pred) = (\<Union>c \<in> set cs. set (Columns c))"
proof (cases cs)
  case Nil
  then show thesis using none by (simp add: filter_over_def)
next
  case (Cons e es)
  have "set (Columns (foldl (EBinary ''AND'') e es)) = (\<Union>c \<in> set (e # es). set (Columns c))"
    by (induction es arbitrary: e) auto
  then show thesis
    using Cons some [of "foldl (EBinary ''AND'') e es"] foldl_AND_holds [of e es]
    by (auto simp: filter_over_def)
qed

section \<open>The target of UPDATE and DELETE\<close>

text \<open>What a table and a condition have to be for the theorems below: no \<open>-0.0\<close> or odd NaN among the
  stored values and the constants, and conditions that evaluate without an error.\<close>

definition plannable :: "Table \<Rightarrow> table_rows \<Rightarrow> Expr option \<Rightarrow> bool" where
  "plannable t R w \<longleftrightarrow> table_ok t \<and>
     (\<forall>c \<in> set (splitConjuncts w). constants_ok c) \<and>
     (\<forall>row \<in> ran R. is_row t row \<and> (\<forall>v \<in> set row. key_ok v) \<and>
        (\<forall>c \<in> set (splitConjuncts w). evals_for t row c))"

definition no_slip :: "Table \<Rightarrow> table_rows \<Rightarrow> Expr option \<Rightarrow> bool" where
  "no_slip t R w \<longleftrightarrow> (\<forall>row \<in> ran R. \<not> null_slip (choosePath t (splitConjuncts w)) row)"

lemma path_scan_ok:
  assumes a: "path_inv t cs a" and t: "table_ok t"
    and rows: "\<forall>row \<in> ran R. is_row t row \<and> (\<forall>v \<in> set row. key_ok v)"
    and cs: "\<forall>c \<in> set cs. constants_ok c"
  shows "scan_plan_ok t msk R (path_build a msk)"
proof -
  have pk: "key_ok (row_pk t row)" if "row \<in> ran R" for row
    using rows that t by (auto simp: table_ok_def is_row_def)
  have ix: "key_ok (row ! nat (i_Pos ix))" if "row \<in> ran R" "ix \<in> set (t_Indexes t)" for row ix
  proof -
    have "ColumnIndex t (i_Column ix) = Some (i_Pos ix)" using t that(2) by (simp add: table_ok_def)
    then show ?thesis using rows that(1) ColumnIndex_Some(2) by (auto simp: is_row_def)
  qed
  show ?thesis
    using a cs pk ix
    by (auto simp: path_inv_def path_build_def range_for_def Bounded_def full_range_def no_bound_def
        split: option.splits)
qed

lemma target_scan:
  "path_inv t cs a \<Longrightarrow> target_plan (filter_over es env (path_build a msk)) = path_build a msk"
  by (rule join_cases [where cs = es and env = env and node = "path_build a msk"])
    (auto simp: path_build_def split: option.splits)

lemma residual_subset: "c \<in> set (path_residual a cs) \<Longrightarrow> c \<in> set cs"
  by (auto simp: path_residual_def set_residual_from)

lemma target_of_ok:
  assumes "plannable t R w"
  shows "target_ok t R (target_of t w)"
    and "row \<in> ran R \<Longrightarrow> where_holds t w row \<longleftrightarrow>
      scan_selects (target_plan (target_of t w)) row \<and> target_keep (target_of t w) row \<and>
      \<not> null_slip (choosePath t (splitConjuncts w)) row"
proof -
  let ?cs = "splitConjuncts w" and ?a = "choosePath t (splitConjuncts w)"
  let ?scan = "path_build ?a (fullMask t)" and ?rest = "path_residual ?a ?cs"
  have T: "target_of t w = filter_over ?rest (TableEnv t) ?scan" by (simp add: target_of_def Let_def)
  have plan: "target_plan (target_of t w) = ?scan" unfolding T by (rule target_scan [OF choosePath_inv])
  have row: "evals_for t row c" if "row \<in> ran R" "c \<in> set ?rest" for row c
    using assms that residual_subset [OF that(2)] by (auto simp: plannable_def)
  have keep: "target_evals (target_of t w) row \<and>
      (target_keep (target_of t w) row \<longleftrightarrow> (\<forall>c \<in> set ?rest. holds_for t row c))" if "row \<in> ran R" for row
  proof (rule join_cases [where cs = ?rest and env = "TableEnv t" and node = ?scan])
    assume "?rest = []" "filter_over ?rest (TableEnv t) ?scan = ?scan"
    then show ?thesis unfolding T by (simp add: path_build_def split: option.splits)
  next
    fix pred assume p: "filter_over ?rest (TableEnv t) ?scan = PFilter ?scan pred (TableEnv t)"
      and "\<And>t row. \<forall>c \<in> set ?rest. evals_for t row c \<Longrightarrow>
         evals_for t row pred \<and> (holds_for t row pred \<longleftrightarrow> (\<forall>c \<in> set ?rest. holds_for t row c))"
    then have "evals_for t row pred" "holds_for t row pred \<longleftrightarrow> (\<forall>c \<in> set ?rest. holds_for t row c)"
      using row [OF that] by blast+
    then show ?thesis unfolding T p
      by (auto simp: evals_for_def holds_for_def B3IsTrue_def)
  qed
  have "scan_plan_ok t (fullMask t) R ?scan"
    using assms by (intro path_scan_ok [OF choosePath_inv]) (auto simp: plannable_def)
  then show "target_ok t R (target_of t w)"
    using keep by (simp add: target_ok_def plan full_mask_def fullMask_def)
  show "where_holds t w row \<longleftrightarrow> scan_selects (target_plan (target_of t w)) row \<and>
      target_keep (target_of t w) row \<and> \<not> null_slip ?a row" if "row \<in> ran R"
    using assms that splitConjuncts_holds [of w t row] keep [OF that]
      path_exact [OF choosePath_inv, of t row ?cs "fullMask t"]
    by (auto simp: plannable_def plan)
qed

lemma target_of_targets:
  assumes "plannable t R w" and "no_slip t R w"
  shows "targets (target_of t w) R rows \<longleftrightarrow>
    lists (order_key (target_plan (target_of t w))) {row \<in> ran R. where_holds t w row} rows"
proof -
  have "{row \<in> ran R. scan_selects (target_plan (target_of t w)) row \<and> target_keep (target_of t w) row} =
      {row \<in> ran R. where_holds t w row}"
    using target_of_ok(2) [OF assms(1)] assms(2) by (auto simp: no_slip_def)
  then show ?thesis by (simp add: targets_def)
qed

end
