(* ===== verification/OrderBy.thy ===== *)
theory OrderBy
  imports Rows
begin

text \<open>
  ORDER BY: the comparison of \<open>sortOp\<close> is a strict order, the bounded heap keeps exactly the
  first rows, and the operator hands out the stable sort of its input, cut off at the bound.
\<close>

section \<open>The order of the keys\<close>

text \<open>The comparison of the evaluated keys alone, without the arrival numbers.\<close>

fun less_keys :: "nat \<Rightarrow> SortKey list \<Rightarrow> Value list \<Rightarrow> Value list \<Rightarrow> bool" where
  "less_keys i [] a b \<longleftrightarrow> False"
| "less_keys i (k # ks) a b \<longleftrightarrow>
     (let c = (if sk_Desc k then Order (b ! i) (a ! i) else Order (a ! i) (b ! i))
      in if c \<noteq> 0 then c < 0 else less_keys (i + 1) ks a b)"

lemma strict_weak_lex:
  fixes f :: "'a \<Rightarrow> 'k::linorder"
  assumes "strict_weak lt"
  shows "strict_weak (\<lambda>a b. f a < f b \<or> f a = f b \<and> lt a b)"
proof
  fix x y z
  show "\<not> (f x < f x \<or> f x = f x \<and> lt x x)" by (simp add: strict_weak.irrefl [OF assms])
  show "f x < f y \<or> f x = f y \<and> lt x y \<Longrightarrow> f y < f z \<or> f y = f z \<and> lt y z \<Longrightarrow>
      f x < f z \<or> f x = f z \<and> lt x z"
    by (elim disjE conjE) (auto dest: strict_weak.less_trans [OF assms])
  show "\<not> (f x < f y \<or> f x = f y \<and> lt x y) \<Longrightarrow> \<not> (f y < f z \<or> f y = f z \<and> lt y z) \<Longrightarrow>
      \<not> (f x < f z \<or> f x = f z \<and> lt x z)"
    using strict_weak.incomp_trans [OF assms, of x y z]
    by (cases "f x" "f y" rule: linorder_cases; cases "f y" "f z" rule: linorder_cases) auto
qed

lemma strict_weak_pullback:
  assumes "strict_weak lt"
  shows "strict_weak (\<lambda>a b. lt (f a) (f b))"
proof
  fix x y z
  show "\<not> lt (f x) (f x)" by (rule strict_weak.irrefl [OF assms])
  show "lt (f x) (f y) \<Longrightarrow> lt (f y) (f z) \<Longrightarrow> lt (f x) (f z)"
    by (rule strict_weak.less_trans [OF assms])
  show "\<not> lt (f x) (f y) \<Longrightarrow> \<not> lt (f y) (f z) \<Longrightarrow> \<not> lt (f x) (f z)"
    by (rule strict_weak.incomp_trans [OF assms])
qed

lemma strict_weak_flip: "strict_weak lt \<Longrightarrow> strict_weak (\<lambda>a b. lt b a)"
  unfolding strict_weak_def by blast

lemma strict_weak_lex_desc:
  fixes f :: "'a \<Rightarrow> 'k::linorder"
  assumes "strict_weak lt"
  shows "strict_weak (\<lambda>a b. f b < f a \<or> f a = f b \<and> lt a b)"
proof -
  have "strict_weak (\<lambda>a b. f b < f a \<or> f b = f a \<and> lt a b)"
    by (rule strict_weak_flip [OF strict_weak_lex [OF strict_weak_flip [OF assms]]])
  moreover have "(\<lambda>a b. f b < f a \<or> f b = f a \<and> lt a b) = (\<lambda>a b. f b < f a \<or> f a = f b \<and> lt a b)"
    by (intro ext) auto
  ultimately show ?thesis by simp
qed

lemma cmp3_less_0 [simp]: "cmp3 a b < 0 \<longleftrightarrow> a < b" "- cmp3 a b < 0 \<longleftrightarrow> b < a"
  by (auto simp: cmp3_def)

lemma less_keys_Cons:
  "less_keys i (k # ks) a b \<longleftrightarrow>
     (if sk_Desc k then v_rank (b ! i) < v_rank (a ! i) \<or> v_rank (a ! i) = v_rank (b ! i) \<and> less_keys (i + 1) ks a b
      else v_rank (a ! i) < v_rank (b ! i) \<or> v_rank (a ! i) = v_rank (b ! i) \<and> less_keys (i + 1) ks a b)"
  by (auto simp: Let_def Order_rank)

lemma less_from_Cons:
  "less_from i (k # ks) a b \<longleftrightarrow>
     (if sk_Desc k
      then v_rank (si_keys b ! i) < v_rank (si_keys a ! i) \<or>
        v_rank (si_keys a ! i) = v_rank (si_keys b ! i) \<and> less_from (i + 1) ks a b
      else v_rank (si_keys a ! i) < v_rank (si_keys b ! i) \<or>
        v_rank (si_keys a ! i) = v_rank (si_keys b ! i) \<and> less_from (i + 1) ks a b)"
  by (auto simp: Let_def Order_rank)

declare less_keys.simps(2) [simp del] less_from.simps(2) [simp del]

lemma strict_weak_less_keys: "strict_weak (less_keys i ks)"
proof (induction ks arbitrary: i)
  case Nil
  show ?case by unfold_locales simp_all
next
  case (Cons k ks)
  then show ?case
    unfolding less_keys_Cons
    by (cases "sk_Desc k") (simp_all add: strict_weak_lex strict_weak_lex_desc)
qed

lemma strict_weak_less_from: "strict_weak (less_from i ks)"
proof (induction ks arbitrary: i)
  case Nil
  show ?case by unfold_locales auto
next
  case (Cons k ks)
  then show ?case
    unfolding less_from_Cons
    by (cases "sk_Desc k") (simp_all add: strict_weak_lex strict_weak_lex_desc)
qed

text \<open>The contract of the sorting library, for the three comparisons of \<open>sortOp\<close>.\<close>

interpretation key_less: strict_weak "less_keys i ks" for i ks
  by (rule strict_weak_less_keys)

interpretation item_less: strict_weak "sort_less ks" for ks
  using strict_weak_less_from [of 0 ks] by (simp add: sort_less_def [abs_def])

interpretation top_heap: strict_weak "topHeap_Less ks" for ks
  using strict_weak_flip [OF item_less.strict_weak_axioms, of ks] by (simp add: topHeap_Less_def [abs_def])

lemma less_from_keys:
  "less_from i ks a b \<longleftrightarrow>
     less_keys i ks (si_keys a) (si_keys b) \<or>
     \<not> less_keys i ks (si_keys b) (si_keys a) \<and> si_seq a < si_seq b"
proof (induction ks arbitrary: i)
  case (Cons k ks)
  show ?case
    unfolding less_from_Cons less_keys_Cons Cons.IH
    by (cases "v_rank (si_keys a ! i)" "v_rank (si_keys b ! i)" rule: linorder_cases) auto
qed simp

lemma sort_less_total: "\<not> sort_less ks a b \<Longrightarrow> \<not> sort_less ks b a \<Longrightarrow> si_seq a = si_seq b"
  by (auto simp: sort_less_def less_from_keys)

section \<open>The full sort is stable\<close>

lemma insert_sorted_arrival:
  assumes "\<forall>y \<in> set ys. si_seq x < si_seq y"
  shows "insert_sorted (sort_less ks) x ys = insert_sorted (\<lambda>a b. less_keys 0 ks (si_keys a) (si_keys b)) x ys"
  using assms by (induction ys) (auto simp: sort_less_def less_from_keys)

lemma sort_slice_arrival:
  assumes "sorted_wrt (<) (map si_seq items)"
  shows "sort_slice (sort_less ks) items =
    sort_slice (\<lambda>a b. less_keys 0 ks (si_keys a) (si_keys b)) items"
  using assms by (induction items) (simp_all add: insert_sorted_arrival)

lemma map_insert_sorted:
  "map f (insert_sorted (\<lambda>a b. lt (f a) (f b)) x xs) = insert_sorted lt (f x) (map f xs)"
  by (induction xs) simp_all

lemma map_sort_slice: "map f (sort_slice (\<lambda>a b. lt (f a) (f b)) xs) = sort_slice lt (map f xs)"
  by (induction xs) (simp_all add: map_insert_sorted)

lemma insert_sorted_cong:
  "(\<And>y. y \<in> set ys \<Longrightarrow> lt y x = lt' y x) \<Longrightarrow> insert_sorted lt x ys = insert_sorted lt' x ys"
  by (induction ys) simp_all

lemma sort_slice_cong:
  "(\<And>x y. x \<in> set xs \<Longrightarrow> y \<in> set xs \<Longrightarrow> lt x y = lt' x y) \<Longrightarrow> sort_slice lt xs = sort_slice lt' xs"
  by (induction xs) (auto intro!: insert_sorted_cong)

section \<open>The bounded sort keeps the first rows\<close>

text \<open>Lists sorted by a comparison that separates their elements are equal when they hold the same
  elements.\<close>

lemma sorted_by_unique:
  assumes "sorted_by lt xs" and "sorted_by lt ys" and "mset xs = mset ys"
    and "\<And>x y. x \<in> set xs \<Longrightarrow> y \<in> set xs \<Longrightarrow> \<not> lt x y \<Longrightarrow> \<not> lt y x \<Longrightarrow> x = y"
  shows "xs = ys"
  using assms
proof (induction xs arbitrary: ys)
  case (Cons x xs)
  then obtain y ys' where ys: "ys = y # ys'" by (cases ys) auto
  have mem: "y \<in> set (x # xs)" "x \<in> set (y # ys')"
    using Cons.prems(3) ys by (metis list.set_intros(1) set_mset_mset)+
  have "x = y"
  proof (rule ccontr)
    assume "x \<noteq> y"
    then have "\<not> lt y x" "\<not> lt x y" using mem Cons.prems(1,2) ys by auto
    then show False using \<open>x \<noteq> y\<close> mem Cons.prems(4) [of x y] by simp
  qed
  then show ?case using Cons ys by simp
qed simp

text \<open>The items kept so far against all items seen so far.\<close>

definition kept_first :: "SortKey list \<Rightarrow> nat \<Rightarrow> sortItem list \<Rightarrow> sortItem list \<Rightarrow> bool" where
  "kept_first ks n kept all \<longleftrightarrow>
     length kept = min n (length all) \<and>
     (\<exists>rest. mset all = mset kept + mset rest \<and> (\<forall>a \<in> set kept. \<forall>b \<in> set rest. \<not> sort_less ks b a))"

definition top_inv :: "SortKey list \<Rightarrow> nat \<Rightarrow> sortItem list \<Rightarrow> sortItem list \<Rightarrow> bool" where
  "top_inv ks n kept all \<longleftrightarrow> heap_ordered (topHeap_Less ks) kept \<and> kept_first ks n kept all"

lemma kept_first_sort:
  assumes k: "kept_first ks n kept all" and d: "distinct (map si_seq all)"
  shows "sort_slice (sort_less ks) kept = take n (sort_slice (sort_less ks) all)"
proof -
  obtain rest where rest: "mset all = mset kept + mset rest"
    and first: "\<forall>a \<in> set kept. \<forall>b \<in> set rest. \<not> sort_less ks b a"
    using k by (auto simp: kept_first_def)
  let ?s = "sort_slice (sort_less ks)"
  have "?s kept @ ?s rest = ?s all"
  proof (rule sorted_by_unique)
    show "sorted_by (sort_less ks) (?s kept @ ?s rest)"
      using first by (simp add: sorted_by_append item_less.sorted_sort)
    show "sorted_by (sort_less ks) (?s all)" by (rule item_less.sorted_sort)
    show "mset (?s kept @ ?s rest) = mset (?s all)" by (simp add: rest)
    fix x y
    assume "x \<in> set (?s kept @ ?s rest)" "y \<in> set (?s kept @ ?s rest)"
    then have "x \<in> set all" "y \<in> set all" using rest by (metis Un_iff mset_append set_append set_mset_mset set_sort_slice)+
    moreover assume "\<not> sort_less ks x y" "\<not> sort_less ks y x"
    ultimately show "x = y" using sort_less_total d by (metis distinct_map inj_onD)
  qed
  moreover have "length (?s kept) = min n (length (?s all))" using k by (simp add: kept_first_def)
  ultimately show ?thesis
    by (metis append_eq_conv_conj length_sort_slice min.commute take_all_iff min_def nle_le take_take)
qed

text \<open>A full heap whose root the new item beats: the root leaves, the item comes in.\<close>

lemma top_inv_replace:
  assumes rest: "mset all = mset kept + mset rest"
    and first: "\<forall>a \<in> set kept. \<forall>b \<in> set rest. \<not> sort_less ks b a"
    and heap: "heap_ordered (topHeap_Less ks) kept"
    and full: "length kept = n" "n \<le> length all" and ne: "kept \<noteq> []" and beats: "sort_less ks item (kept ! 0)"
    and insert: "sort_insert ks bnd kept item = heap_Fix (topHeap_Less ks) (kept[0 := item]) 0"
  shows "top_inv ks n (sort_insert ks bnd kept item) (all @ [item])"
proof -
  obtain x xs where kept: "kept = x # xs" using ne by (cases kept) auto
  have root: "\<not> sort_less ks x a" if "a \<in> set kept" for a
    using that top_heap.heap_root [OF heap] kept
    by (metis in_set_conv_nth nth_Cons_0 topHeap_Less_def)
  have m: "mset (sort_insert ks bnd kept item) = add_mset item (mset xs)"
    unfolding insert by (simp add: kept)
  then have s: "set (sort_insert ks bnd kept item) = insert item (set xs)"
    by (metis set_mset_add_mset_insert set_mset_mset)
  have "\<not> sort_less ks c a" if "a \<in> insert item (set xs)" "c \<in> insert x (set rest)" for a c
  proof (cases "c = x")
    case True
    then show ?thesis using that(1) root [of a] kept beats item_less.asym by auto
  next
    case False
    then have c: "c \<in> set rest" "\<not> sort_less ks c x" using that(2) first kept by auto
    then show ?thesis
      using that(1) first kept beats item_less.less_trans [of ks c item x] by auto
  qed
  moreover have "heap_ordered (topHeap_Less ks) (sort_insert ks bnd kept item)"
    using top_heap.heap_replace_root [OF heap ne] by (simp add: insert)
  moreover have "length (sort_insert ks bnd kept item) = length kept"
    using arg_cong [OF m, of size] kept by simp
  ultimately show ?thesis
    using full rest m s kept
    by (simp add: top_inv_def kept_first_def) (intro exI [of _ "x # rest"], auto)
qed

lemma top_inv_step:
  assumes inv: "top_inv ks (nat (sint bnd)) kept all" and bnd: "0 \<le>s bnd"
  shows "top_inv ks (nat (sint bnd)) (sort_insert ks bnd kept item) (all @ [item])"
proof -
  define n where "n = nat (sint bnd)"
  obtain rest where rest: "mset all = mset kept + mset rest"
    and first: "\<forall>a \<in> set kept. \<forall>b \<in> set rest. \<not> sort_less ks b a"
    and len: "length kept = min n (length all)" and heap: "heap_ordered (topHeap_Less ks) kept"
    using inv by (auto simp: top_inv_def kept_first_def n_def)
  have b: "0 \<le> sint bnd" "int (length kept) < sint bnd \<longleftrightarrow> length kept < n" "0 <s bnd \<longleftrightarrow> 0 < n"
    using bnd by (auto simp: sle_iff sless_iff n_def)
  consider "length kept < n" | "length kept = n" "0 < n" "sort_less ks item (kept ! 0)"
    | "length kept = n" "0 < n \<longrightarrow> \<not> sort_less ks item (kept ! 0)"
    using len by linarith
  then have "top_inv ks n (sort_insert ks bnd kept item) (all @ [item])"
  proof cases
    case 1
    then have "rest = []" using len arg_cong [OF rest, of size] by simp
    then show ?thesis
      using 1 bnd b heap len rest
      by (auto simp: top_inv_def kept_first_def sort_insert_def intro!: top_heap.heap_Push_ordered exI [of _ "[]"])
  next
    case 2
    then show ?thesis
      using bnd b len by (intro top_inv_replace [OF rest first heap]) (auto simp: sort_insert_def)
  next
    case 3
    have "\<not> sort_less ks item a" if "a \<in> set kept" for a
    proof -
      have "0 < n" using that 3 by (cases kept) auto
      then have "\<not> sort_less ks item (kept ! 0)" using 3 by simp
      moreover have "\<not> sort_less ks (kept ! 0) a"
        using that top_heap.heap_root [OF heap] by (metis in_set_conv_nth topHeap_Less_def)
      ultimately show ?thesis using item_less.incomp_trans by blast
    qed
    moreover have "sort_insert ks bnd kept item = kept"
      using 3 b bnd by (auto simp: sort_insert_def)
    moreover have "n \<le> length all" using 3(1) len by linarith
    ultimately show ?thesis
      using 3(1) rest heap first
      by (simp add: top_inv_def kept_first_def) (intro exI [of _ "item # rest"], auto)
  qed
  then show ?thesis by (simp add: n_def)
qed

section \<open>The operator\<close>

fun arrive :: "(Row \<Rightarrow> Value list) \<Rightarrow> nat \<Rightarrow> Row list \<Rightarrow> sortItem list" where
  "arrive kf i [] = []"
| "arrive kf i (row # rs) = \<lparr>si_row = row, si_keys = kf row, si_seq = i\<rparr> # arrive kf (Suc i) rs"

lemma arrive_seq: "map si_seq (arrive kf i rs) = [i..<i + length rs]"
proof (induction rs arbitrary: i)
  case (Cons row rs)
  then show ?case using upt_conv_Cons [of i "i + length (row # rs)"] by simp
qed simp

lemma arrive_rows [simp]: "map si_row (arrive kf i rs) = rs"
  by (induction rs arbitrary: i) simp_all

lemma arrive_keys: "x \<in> set (arrive kf i rs) \<Longrightarrow> si_keys x = kf (si_row x)"
  by (induction rs arbitrary: i) auto

lemma fold_sort_full:
  assumes "\<not> 0 \<le>s bnd" and "\<And>row. row \<in> set rs \<Longrightarrow> eval_all (map sk_Expr keys) (Some env) row = Inr (kf row)"
  shows "fold_rows (sort_row keys bnd env) (items, i) rs None =
    Inr (items @ arrive kf i rs, i + length rs)"
  using assms(2)
  by (induction rs arbitrary: items i) (simp_all add: sort_row_def sort_insert_def assms(1))

lemma fold_sort_bounded:
  assumes "0 \<le>s bnd" and "\<And>row. row \<in> set rs \<Longrightarrow> eval_all (map sk_Expr keys) (Some env) row = Inr (kf row)"
    and "top_inv keys (nat (sint bnd)) kept all"
  shows "\<exists>kept'. fold_rows (sort_row keys bnd env) (kept, i) rs None = Inr (kept', i + length rs) \<and>
    top_inv keys (nat (sint bnd)) kept' (all @ arrive kf i rs)"
  using assms(2,3)
proof (induction rs arbitrary: kept all i)
  case (Cons row rs)
  let ?item = "\<lparr>si_row = row, si_keys = kf row, si_seq = i\<rparr>"
  have "top_inv keys (nat (sint bnd)) (sort_insert keys bnd kept ?item) (all @ [?item])"
    using top_inv_step Cons.prems(2) assms(1) by blast
  from Cons.IH [OF _ this, of "Suc i"] Cons.prems(1) show ?case by (simp add: sort_row_def)
qed simp

lemma sort_arrive:
  "map si_row (sort_slice (sort_less keys) (arrive kf i rs)) =
     sort_slice (\<lambda>a b. less_keys 0 keys (kf a) (kf b)) rs"
proof -
  let ?items = "arrive kf i rs"
  have "sort_slice (sort_less keys) ?items =
      sort_slice (\<lambda>a b. less_keys 0 keys (si_keys a) (si_keys b)) ?items"
    by (rule sort_slice_arrival) (simp add: arrive_seq)
  also have "\<dots> = sort_slice (\<lambda>a b. less_keys 0 keys (kf (si_row a)) (kf (si_row b))) ?items"
    by (rule sort_slice_cong) (simp add: arrive_keys)
  finally show ?thesis
    by (simp add: map_sort_slice [of si_row "\<lambda>a b. less_keys 0 keys (kf a) (kf b)"])
qed

definition first_rows :: "int64 \<Rightarrow> Row list \<Rightarrow> Row list" where
  "first_rows bnd rs = (if 0 \<le>s bnd then take (nat (sint bnd)) rs else rs)"

lemma sort_rows_stable:
  assumes "\<And>row. row \<in> set rs \<Longrightarrow> eval_all (map sk_Expr keys) (Some env) row = Inr (kf row)"
  shows "sort_rows keys bnd env (rs, None) =
    (first_rows bnd (sort_slice (\<lambda>a b. less_keys 0 keys (kf a) (kf b)) rs), None)"
proof (cases "0 \<le>s bnd")
  case False
  then show ?thesis
    using fold_sort_full [OF False assms, of rs "[]" 0]
    by (simp add: sort_rows_def stored_rows_def sort_finish_def sort_arrive first_rows_def)
next
  case True
  have "top_inv keys (nat (sint bnd)) [] []"
    by (simp add: top_inv_def kept_first_def heap_ordered_def)
  from fold_sort_bounded [OF True assms this, of rs 0] obtain kept where
    f: "fold_rows (sort_row keys bnd env) ([], 0) rs None = Inr (kept, length rs)"
    and inv: "top_inv keys (nat (sint bnd)) kept (arrive kf 0 rs)" by auto
  have "kept_first keys (nat (sint bnd)) kept (arrive kf 0 rs)" using inv by (simp add: top_inv_def)
  then have "sort_slice (sort_less keys) kept =
      take (nat (sint bnd)) (sort_slice (sort_less keys) (arrive kf 0 rs))"
    by (rule kept_first_sort) (simp add: arrive_seq)
  then have "map si_row (sort_slice (sort_less keys) kept) =
      take (nat (sint bnd)) (sort_slice (\<lambda>a b. less_keys 0 keys (kf a) (kf b)) rs)"
    by (simp add: take_map [symmetric] sort_arrive)
  then show ?thesis
    by (simp add: sort_rows_def f stored_rows_def sort_finish_def first_rows_def True)
qed

text \<open>C15: ORDER BY hands out the stable sort of its input by the sort keys, ascending or descending
  key by key: the rows of the input, in order, rows with equal keys in the order they arrived.
  With a bound it hands out the first rows of that same list, although it keeps only that many
  rows in a heap while it reads.\<close>

theorem ORDER_BY_stable:
  assumes "rows_of rd input = (rs, None)"
    and "\<And>row. row \<in> set rs \<Longrightarrow> eval_all (map sk_Expr keys) (Some env) row = Inr (kf row)"
  defines "lt \<equiv> (\<lambda>a b. less_keys 0 keys (kf a) (kf b))"
  shows "rows_of rd (OpSort input keys bnd env [] 0 False) = (first_rows bnd (sort_slice lt rs), None) \<and>
    mset (sort_slice lt rs) = mset rs \<and> sorted_by lt (sort_slice lt rs) \<and>
    filter (\<lambda>y. \<not> lt y z \<and> \<not> lt z y) (sort_slice lt rs) = filter (\<lambda>y. \<not> lt y z \<and> \<not> lt z y) rs"
proof (intro conjI)
  have lt: "strict_weak lt"
    unfolding lt_def by (rule strict_weak_pullback [OF strict_weak_less_keys])
  then show "sorted_by lt (sort_slice lt rs)"
    and "filter (\<lambda>y. \<not> lt y z \<and> \<not> lt z y) (sort_slice lt rs) = filter (\<lambda>y. \<not> lt y z \<and> \<not> lt z y) rs"
    by (rule strict_weak.sorted_sort, rule strict_weak.sort_stable)
  show "rows_of rd (OpSort input keys bnd env [] 0 False) = (first_rows bnd (sort_slice lt rs), None)"
    using sort_rows_stable [OF assms(2), of rs] by (simp add: assms(1) lt_def)
qed simp

definition sample_scan :: Operator where
  "sample_scan = OpScan sample_table (Some [True])
     ([([0], EncodeRow [] [VInt 1]), ([1], EncodeRow [] [VNull]), ([2], EncodeRow [] [VInt 2])], None)
     False"

definition sample_key :: SortKey where
  "sample_key = \<lparr>sk_Expr = EColumn '''' ''a'', sk_Desc = True\<rparr>"

lemma sample_scan_rows: "rows_of rd sample_scan = ([[VInt 1], [VNull], [VInt 2]], None)"
  by (simp add: sample_scan_def decode_stored_row keep_row_def masked_def)

lemma sample_key_value:
  assumes "row \<in> set [[VInt 1], [VNull], [VInt 2]]"
  shows "eval_all (map sk_Expr [sample_key]) (Some sample_env) row = Inr [row ! 0]"
  using assms
  by (auto simp: sample_key_def sample_env_def plain_env_def eval_column_def row_at_def)

theorem ORDER_BY_stable_witness:
  "\<forall>rd. rows_of rd (OpSort sample_scan [sample_key] 2 sample_env [] 0 False) = ([[VInt 2], [VInt 1]], None)"
proof
  fix rd
  from ORDER_BY_stable [OF sample_scan_rows sample_key_value, where bnd = 2 and rd = rd]
  show "rows_of rd (OpSort sample_scan [sample_key] 2 sample_env [] 0 False) = ([[VInt 2], [VInt 1]], None)"
    by (simp add: first_rows_def less_keys_Cons sample_key_def sle_iff)
qed

end
