(* ===== verification/Queries.thy ===== *)
theory Queries
  imports PlanSound OrderBy
begin

text \<open>
  SELECT without aggregation from end to end: the tree the planner builds, run on a store that
  holds the table, hands out what the statement asks for.  Every rewriting of the planner is in
  the way of that and is shown harmless: the range scan and the index scan with their residual
  filter, the pruned columns, the elided sort and the bounded sort.
\<close>

section \<open>Marked columns\<close>

lemma length_mark_names [simp]: "length (mark_names t names msk) = length msk"
  by (induction names arbitrary: msk) (simp_all split: option.split)

lemma length_markColumns [simp]: "length (markColumns t es msk) = length msk"
  by (induction es arbitrary: msk) simp_all

lemma mark_nth: "i < length msk \<Longrightarrow> msk[k := True] ! i \<longleftrightarrow> msk ! i \<or> k = i"
  by (cases "k = i") simp_all

lemma mark_names_nth:
  assumes "length msk = length (t_Columns t)" and "i < length msk"
  shows "mark_names t names msk ! i \<longleftrightarrow>
    msk ! i \<or> (\<exists>name \<in> set names. \<exists>p. ColumnIndex t name = Some p \<and> nat p = i)"
  using assms
  by (induction names arbitrary: msk) (auto simp: mark_nth split: option.split)

lemma covers_mark_names:
  assumes "length msk = length (t_Columns t)" and "covers t msk e \<or> set (Columns e) \<subseteq> set names"
  shows "covers t (mark_names t names msk) e"
  using assms ColumnIndex_Some(2) [of t]
  by (auto simp: covers_def mark_names_nth [OF assms(1)])

lemma covers_markColumns:
  assumes "length msk = length (t_Columns t)" and "covers t msk e \<or> e \<in> set es"
  shows "covers t (markColumns t es msk) e"
  using assms
proof (induction es arbitrary: msk)
  case (Cons d es)
  have "covers t (mark_names t (Columns d) msk) e \<or> e \<in> set es"
    using Cons.prems covers_mark_names [of msk t e "Columns d"] by auto
  then show ?case using Cons by simp
qed simp

section \<open>The filtered scan\<close>

lemma filter_masked_rows:
  assumes names: "distinct (map c_Name (t_Columns t))" and len: "length msk = length (t_Columns t)"
    and rows: "\<And>row. row \<in> set rs \<Longrightarrow> is_row t row" and covered: "covers t msk pred"
    and truth: "\<And>row. row \<in> set rs \<Longrightarrow> evals_for t row pred \<and> (holds_for t row pred \<longleftrightarrow> keep row)"
  shows "map_rows (filter_row pred (TableEnv t)) (map (masked msk) rs) None = (map (masked msk) (filter keep rs), None)"
  unfolding map_rows_map
proof (rule map_rows_filter)
  fix row assume r: "row \<in> set rs"
  have "EvalPredicate pred (Some (TableEnv t)) (masked msk row) = EvalPredicate pred (Some (TableEnv t)) row"
    using rows [OF r] by (intro Eval_same_columns(2) covers_same_columns [OF names _ len covered]) simp_all
  then show "filter_row pred (TableEnv t) (masked msk row) = Inr (if keep row then Some (masked msk row) else None)"
    using truth [OF r] by (auto simp: filter_row_def evals_for_def holds_for_def B3IsTrue_def)
qed

lemma filtered_scan:
  assumes h: "reads rd m" "table_holds t m R" and p: "plannable t R w" "no_slip t R w"
    and len: "length msk = length (t_Columns t)"
    and cov: "\<forall>c \<in> set (path_residual (choosePath t (splitConjuncts w)) (splitConjuncts w)). covers t msk c"
  obtains op rs where
    "Build (filter_over (path_residual (choosePath t (splitConjuncts w)) (splitConjuncts w)) (TableEnv t)
       (path_build (choosePath t (splitConjuncts w)) msk)) rd = Inr op"
    and "rows_of rd op = (map (masked msk) rs, None)"
    and "lists (order_key (path_build (choosePath t (splitConjuncts w)) msk)) {row \<in> ran R. where_holds t w row} rs"
proof -
  let ?cs = "splitConjuncts w" and ?a = "choosePath t (splitConjuncts w)"
  let ?scan = "path_build ?a msk" and ?rest = "path_residual ?a ?cs"
  have t: "table_ok t" and names: "distinct (map c_Name (t_Columns t))"
    using p(1) by (simp_all add: plannable_def table_ok_def)
  have "scan_plan_ok t msk R ?scan"
    using p(1) by (intro path_scan_ok [OF choosePath_inv]) (auto simp: plannable_def)
  then obtain op rs where op: "Build ?scan rd = Inr op" "rows_of rd op = (map (masked msk) rs, None)"
    and rs: "lists (order_key ?scan) {row \<in> ran R. scan_selects ?scan row} rs"
    using scan_plan_rows [OF h len] by blast
  have ran: "row \<in> ran R" if "row \<in> set rs" for row using that rs by (simp add: lists_def)
  have evals: "\<forall>c \<in> set ?rest. evals_for t row c" if "row \<in> ran R" for row
    using p(1) that residual_subset by (auto simp: plannable_def)
  have exact: "where_holds t w row \<longleftrightarrow> scan_selects ?scan row \<and> (\<forall>c \<in> set ?rest. holds_for t row c)"
    if "row \<in> ran R" for row
    using p that path_exact [OF choosePath_inv t, of row ?cs msk] splitConjuncts_holds [of w t row]
    by (auto simp: plannable_def no_slip_def)
  define keep where "keep row \<longleftrightarrow> (\<forall>c \<in> set ?rest. holds_for t row c)" for row
  have "{row \<in> {row \<in> ran R. scan_selects ?scan row}. keep row} = {row \<in> ran R. where_holds t w row}"
    using exact by (auto simp: keep_def)
  then have listed: "lists (order_key ?scan) {row \<in> ran R. where_holds t w row} (filter keep rs)"
    using lists_filter [OF rs, of keep] by simp
  show thesis
  proof (rule join_cases [where cs = ?rest and env = "TableEnv t" and node = ?scan])
    assume none: "?rest = []" "filter_over ?rest (TableEnv t) ?scan = ?scan"
    then have "filter keep rs = rs" by (simp add: keep_def)
    then show thesis using that op listed none(2) by simp
  next
    fix pred assume p: "filter_over ?rest (TableEnv t) ?scan = PFilter ?scan pred (TableEnv t)"
      and truth: "\<And>t row. \<forall>c \<in> set ?rest. evals_for t row c \<Longrightarrow>
         evals_for t row pred \<and> (holds_for t row pred \<longleftrightarrow> (\<forall>c \<in> set ?rest. holds_for t row c))"
      and cols: "set (Columns pred) = (\<Union>c \<in> set ?rest. set (Columns c))"
    have "map_rows (filter_row pred (TableEnv t)) (map (masked msk) rs) None =
        (map (masked msk) (filter keep rs), None)"
      using cov truth [OF evals [OF ran]] table_holds_row(2) [OF h(2) ran]
      by (intro filter_masked_rows [OF names len]) (auto simp: covers_def cols keep_def)
    then show thesis
      using that [of "OpFilter op pred (TableEnv t)"] op listed by (simp add: p)
  qed
qed

section \<open>Sorts that a scan already did\<close>

lemma row_key_less:
  assumes "key_ok a" and "key_ok b"
  shows "RowKey i a < RowKey i b \<Longrightarrow> v_rank a < v_rank b"
  using assms cmp3_neg [of "RowKey i a" "RowKey i b"]
  by (simp add: RowKey_append key_code.cmp_enc_append key_code.cmp_enc Order_rank)

lemma entry_key_less:
  assumes "key_ok v" and "key_ok w" and "key_ok a" and "key_ok b"
  shows "IndexKey i j v a < IndexKey i j w b \<Longrightarrow> v_rank v \<le> v_rank w"
  using assms cmp3_neg [of "IndexKey i j v a" "IndexKey i j w b"]
  by (auto simp: IndexKey_append key_code.cmp_enc_append key_code.cmp_enc Order_rank split: if_splits)

lemma scan_sorted:
  assumes a: "path_inv t cs a" and t: "table_ok t"
    and rows: "\<And>row. row \<in> S \<Longrightarrow> is_row t row \<and> (\<forall>v \<in> set row. key_ok v)"
    and rs: "lists (order_key (path_build a msk)) S rs"
  shows "sorted_wrt (\<lambda>x y. v_rank (col_value t x (ap_ordersBy a)) \<le> v_rank (col_value t y (ap_ordersBy a))) rs"
proof -
  have ok: "key_ok (row ! nat p)" if "row \<in> S" "ColumnIndex t c = Some p" for row c p
    using rows [OF that(1)] ColumnIndex_Some(2) [OF that(2)] by (auto simp: is_row_def)
  note pk = ColumnIndex_PK [OF t]
  have "v_rank (col_value t x (ap_ordersBy a)) \<le> v_rank (col_value t y (ap_ordersBy a))"
    if xy: "x \<in> S" "y \<in> S" "order_key (path_build a msk) x < order_key (path_build a msk) y" for x y
  proof (cases "ap_index a")
    case None
    then have "row_key t x < row_key t y" "ap_ordersBy a = c_Name (PKColumn t)"
      using xy(3) a by (auto simp: path_inv_def path_build_def split: if_splits)
    then show ?thesis
      using row_key_less [OF ok [OF xy(1) pk] ok [OF xy(2) pk]]
      by (simp add: col_value_def pk less_imp_le)
  next
    case (Some ix)
    then have ix: "ix \<in> set (t_Indexes t)" "ap_ordersBy a = i_Column ix" "ap_table a = t"
      using a by (auto simp: path_inv_def)
    then have c: "ColumnIndex t (i_Column ix) = Some (i_Pos ix)" using t by (simp add: table_ok_def)
    have "entry_key t ix x < entry_key t ix y" using xy(3) Some ix(3) by (simp add: path_build_def)
    then show ?thesis
      using entry_key_less [OF ok [OF xy(1) c] ok [OF xy(2) c] ok [OF xy(1) pk] ok [OF xy(2) pk]]
      by (simp add: col_value_def ix(2) c)
  qed
  moreover have "set rs = S" using rs by (simp add: lists_def)
  ultimately show ?thesis using rs unfolding lists_def by (auto elim!: sorted_wrt_mono_rel [rotated])
qed

lemma sorted_by_wrt: "sorted_by lt xs \<longleftrightarrow> sorted_wrt (\<lambda>x y. \<not> lt y x) xs"
  by (induction xs) auto

text \<open>The order of the sort keys.\<close>

abbreviation by_keys :: "SortKey list \<Rightarrow> (Row \<Rightarrow> Value list) \<Rightarrow> Row \<Rightarrow> Row \<Rightarrow> bool" where
  "by_keys keys kf \<equiv> (\<lambda>a b. less_keys 0 keys (kf a) (kf b))"

lemma strict_weak_by_keys: "strict_weak (by_keys keys kf)"
  by (rule strict_weak_pullback [OF strict_weak_less_keys])

lemma elided_sort:
  assumes a: "path_inv t cs a" and t: "table_ok t"
    and rows: "\<And>row. row \<in> S \<Longrightarrow> is_row t row \<and> (\<forall>v \<in> set row. key_ok v)"
    and rs: "lists (order_key (path_build a msk)) S rs"
    and kf: "\<And>row. row \<in> S \<Longrightarrow> eval_all (map sk_Expr keys) (Some (TableEnv t)) row = Inr (kf row)"
    and none: "needed_keys a keys = []"
    and pos: "ColumnIndex t (ap_ordersBy a) \<noteq> None"
  shows "sort_slice (by_keys keys kf) rs = rs"
proof (rule strict_weak.sort_id [OF strict_weak_by_keys])
  show "sorted_by (by_keys keys kf) rs"
  proof (cases keys)
    case (Cons k ks)
    then have k: "keys = [k]" "\<not> sk_Desc k" and p: "path_provides a (sk_Expr k)"
      using none by (auto simp: needed_keys_def split: if_splits)
    obtain tbl where e: "sk_Expr k = EColumn tbl (ap_ordersBy a)"
      using p by (auto simp: path_provides_def split: Expr.splits)
    obtain p where p: "ColumnIndex t (ap_ordersBy a) = Some p" using pos by blast
    have "kf row = [col_value t row (ap_ordersBy a)]" if "row \<in> S" for row
      using kf [OF that] Eval_row_column [OF t _ p, of row tbl] rows [OF that]
      by (simp add: k e col_value_def p)
    moreover have "set rs = S" using rs by (simp add: lists_def)
    ultimately show ?thesis
      using scan_sorted [OF a t rows rs] unfolding sorted_by_wrt
      by (auto simp: k less_keys_Cons not_less elim!: sorted_wrt_mono_rel [rotated])
  qed (simp add: sorted_by_wrt sorted_wrt_true)
qed

section \<open>LIMIT and OFFSET\<close>

definition limited :: "int64 \<Rightarrow> int64 \<Rightarrow> 'a list \<Rightarrow> 'a list" where
  "limited cnt offset xs =
     (let rest = drop (nat (sint offset)) xs in if 0 \<le>s cnt then take (nat (sint cnt)) rest else rest)"

lemma limit_rows_limited:
  "limit_rows (skip_left offset 0) (count_left cnt 0) (xs, None) = (limited cnt offset xs, None)"
  by (simp add: limit_rows_def limited_def skip_left_def count_left_def Let_def)

text \<open>The bound pushed into a sort is the sum of the two, at 64 bits: when it overflows it turns
  negative, and the sort is not bounded at all.\<close>

lemma sint_add_wraps:
  fixes a b :: int64
  assumes "0 \<le> sint a" and "0 \<le> sint b" and "0 \<le> sint (a + b)"
  shows "sint (a + b) = sint a + sint b"
proof -
  have "sint (a + b) = signed_take_bit 63 (sint a + sint b)" by (simp add: sint_word_ariths)
  moreover have "sint a < 9223372036854775808" "sint b < 9223372036854775808"
    using sint_lt [of a] sint_lt [of b] by simp_all
  moreover have "sint a + sint b < 2 ^ 63"
  proof (rule ccontr)
    assume "\<not> sint a + sint b < 2 ^ 63"
    then have "signed_take_bit 63 (sint a + sint b) \<le> sint a + sint b - 18446744073709551616"
      using signed_take_bit_int_less_eq [of 63 "sint a + sint b"] by simp
    then show False using calculation assms(3) by linarith
  qed
  ultimately show ?thesis
    using assms(1,2) signed_take_bit_int_eq_self [of 63 "sint a + sint b"] by simp
qed

lemma nat_sint_unat:
  fixes cnt :: int64
  assumes "0 \<le>s cnt"
  shows "nat (sint cnt) = unat cnt"
  using assms unat64_bound [of cnt] unfolding sle_iff sint_0 sint_unat64 [of cnt]
  by (cases "2 ^ 63 \<le> unat cnt") (simp_all del: of_nat_unat)

lemma limited_first_rows:
  assumes "0 \<le>s cnt" and "0 \<le>s offset"
  shows "limited cnt offset (map f (first_rows (cnt + offset) xs)) = limited cnt offset (map f xs)"
proof (cases "0 \<le> sint (cnt + offset)")
  case True
  then have "sint (cnt + offset) = sint cnt + sint offset"
    using assms by (intro sint_add_wraps) (simp_all add: sle_iff)
  then have "nat (sint (cnt + offset)) = nat (sint offset) + nat (sint cnt)"
    using assms by (simp add: sle_iff nat_add_distrib)
  then show ?thesis using True assms(1)
    by (simp add: limited_def first_rows_def sle_iff Let_def take_map drop_map drop_take)
qed (simp add: first_rows_def sle_iff)

section \<open>SELECT\<close>

lemma set_first_rows: "set (first_rows b xs) \<subseteq> set xs"
  by (simp add: first_rows_def set_take_subset)

lemma sorted_rows:
  assumes op: "rows_of rd op = (map M rs, None)"
    and kf: "\<And>row. row \<in> set rs \<Longrightarrow> eval_all (map sk_Expr keys) (Some env) (M row) = Inr (kf row)"
  shows "rows_of rd (OpSort op keys b env [] 0 False) =
    (map M (first_rows b (sort_slice (by_keys keys kf) rs)), None)"
proof -
  define kf' where "kf' row = (case eval_all (map sk_Expr keys) (Some env) row of Inl e \<Rightarrow> [] | Inr vs \<Rightarrow> vs)" for row
  have kf': "kf' (M row) = kf row" if "row \<in> set rs" for row using kf [OF that] by (simp add: kf'_def)
  have "eval_all (map sk_Expr keys) (Some env) row = Inr (kf' row)" if "row \<in> set (map M rs)" for row
    using that kf by (auto simp: kf'_def)
  from sort_rows_stable [OF this, of "map M rs"]
  have "sort_rows keys b env (map M rs, None) = (first_rows b (sort_slice (by_keys keys kf') (map M rs)), None)"
    by simp
  also have "sort_slice (by_keys keys kf') (map M rs) = map M (sort_slice (by_keys keys (\<lambda>row. kf' (M row))) rs)"
    by (simp only: map_sort_slice [symmetric, of "by_keys keys kf'" M])
  also have "sort_slice (by_keys keys (\<lambda>row. kf' (M row))) rs = sort_slice (by_keys keys kf) rs"
    by (rule sort_slice_cong) (simp add: kf')
  finally show ?thesis by (simp add: op first_rows_def take_map)
qed

text \<open>What is left to do above the sort.\<close>

lemma finished_rows:
  assumes op: "Build node rd = Inr op" "rows_of rd op = (map M xs, None)"
    and out: "\<And>row. row \<in> set xs \<Longrightarrow> eval_all exprs (Some env) (M row) = Inr (out row)"
  obtains op' where "Build (limit_over cnt offset (distinct_over d (PProject node exprs names env))) rd = Inr op'"
    and "rows_of rd op' = (limited cnt offset (if d then distinct_rows [] (map out xs) else map out xs), None)"
proof -
  let ?ys = "if d then distinct_rows [] (map out xs) else map out xs"
  let ?op = "if d then OpDistinct (OpProject op exprs env) [] else OpProject op exprs env"
  have "map_rows (\<lambda>row. keep_row (eval_all exprs (Some env) (M row))) xs None = (map out xs, None)"
    by (rule map_rows_all) (simp add: out keep_row_def)
  then have p: "Build (distinct_over d (PProject node exprs names env)) rd = Inr ?op" "rows_of rd ?op = (?ys, None)"
    by (simp_all add: op distinct_over_def map_rows_map)
  show thesis
  proof (cases "0 \<le>s cnt \<or> 0 <s offset")
    case True
    then show thesis
      using that [of "OpLimit ?op cnt offset 0 0"] p by (simp add: limit_over_def limit_rows_limited)
  next
    case False
    then have "limited cnt offset ?ys = ?ys" by (simp add: limited_def sless_iff sle_iff)
    then show thesis using that [of ?op] p False by (simp add: limit_over_def)
  qed
qed

lemma needed_keys_cases: "needed_keys a keys = keys \<or> needed_keys a keys = []"
  by (simp add: needed_keys_def)

lemma plain_select_rows:
  assumes h: "reads rd m" "table_holds t m R" and p: "plannable t R w" "no_slip t R w"
    and cols: "expand_columns t (s_Columns s) = Inr (exprs, names)"
    and keys: "order_keys t (s_OrderBy s) = Inr keys"
    and lims: "limitValues s = Inr (cnt, offset)" "0 \<le>s offset"
    and kf: "\<And>row. row \<in> ran R \<Longrightarrow> where_holds t w row \<Longrightarrow>
      eval_all (map sk_Expr keys) (Some (TableEnv t)) row = Inr (kf row)"
    and out: "\<And>row. row \<in> ran R \<Longrightarrow> where_holds t w row \<Longrightarrow>
      eval_all exprs (Some (TableEnv t)) row = Inr (out row)"
  obtains pl op rs msk where "plainSelect s t (TableEnv t) (splitConjuncts w) = Inr pl" and "Build pl rd = Inr op"
    and "lists (order_key (path_build (choosePath t (splitConjuncts w)) msk)) {row \<in> ran R. where_holds t w row} rs"
    and "rows_of rd op = (limited cnt offset
      (if s_Distinct s then distinct_rows [] (map out (sort_slice (by_keys keys kf) rs))
       else map out (sort_slice (by_keys keys kf) rs)), None)"
proof -
  let ?cs = "splitConjuncts w" and ?a = "choosePath t (splitConjuncts w)" and ?env = "TableEnv t"
  let ?rest = "path_residual ?a ?cs" and ?K = "needed_keys ?a keys" and ?d = "s_Distinct s"
  define msk where "msk = markColumns t (map sk_Expr ?K) (markColumns t exprs (markColumns t ?rest (newMask t)))"
  have len: "length msk = length (t_Columns t)" by (simp add: msk_def newMask_def)
  have cov: "covers t msk e" if "e \<in> set ?rest \<union> set exprs \<union> set (map sk_Expr ?K)" for e
    unfolding msk_def using that by (intro covers_markColumns) (auto simp: newMask_def intro!: covers_markColumns)
  have t: "table_ok t" "distinct (map c_Name (t_Columns t))" using p(1) by (auto simp: plannable_def table_ok_def)
  obtain op1 rs where op1: "Build (filter_over ?rest ?env (path_build ?a msk)) rd = Inr op1"
    "rows_of rd op1 = (map (masked msk) rs, None)"
    and rs: "lists (order_key (path_build ?a msk)) {row \<in> ran R. where_holds t w row} rs"
    using filtered_scan [OF h p len] cov by blast
  have row: "row \<in> ran R" "where_holds t w row" "is_row t row" if "row \<in> set rs" for row
    using that rs table_holds_row(2) [OF h(2)] by (auto simp: lists_def)
  have eval: "eval_all es (Some ?env) (masked msk row) = eval_all es (Some ?env) row"
    if "row \<in> set rs" "set es \<subseteq> set ?rest \<union> set exprs \<union> set (map sk_Expr ?K)" for es row
    using that cov row(3) by (intro eval_all_covered [OF t(2) _ len]) auto
  let ?xs = "sort_slice (by_keys keys kf) rs" and ?b = "if 0 \<le>s cnt \<and> \<not> ?d then cnt + offset else - 1"
  obtain op2 xs where op2: "Build (sort_over ?K cnt offset ?d ?env (filter_over ?rest ?env (path_build ?a msk))) rd = Inr op2"
    "rows_of rd op2 = (map (masked msk) xs, None)" and xs: "xs = ?xs \<or> xs = first_rows ?b ?xs"
  proof (cases "?K = []")
    case True
    have "ColumnIndex t (ap_ordersBy ?a) \<noteq> None"
      using choosePath_inv [of t ?cs] ColumnIndex_PK [OF t(1)] t(1)
      by (auto simp: path_inv_def table_ok_def split: option.splits)
    then have "?xs = rs"
      using p(1) kf by (intro elided_sort [OF choosePath_inv t(1) _ rs _ True]) (auto simp: plannable_def)
    then show thesis using that [of op1 rs] op1 True by (simp add: sort_over_def)
  next
    case False
    then have K: "?K = keys" using needed_keys_cases by metis
    have "rows_of rd (OpSort op1 keys ?b ?env [] 0 False) = (map (masked msk) (first_rows ?b ?xs), None)"
      using row kf eval [of _ "map sk_Expr keys"] by (intro sorted_rows [OF op1(2)]) (auto simp: K)
    then show thesis using that [of "OpSort op1 keys ?b ?env [] 0 False"] op1(1) False by (simp add: sort_over_def K)
  qed
  have "set xs \<subseteq> set rs" using xs set_first_rows [of ?b ?xs] by auto
  then have "eval_all exprs (Some ?env) (masked msk row) = Inr (out row)" if "row \<in> set xs" for row
    using that row out eval [of row exprs] by auto
  from finished_rows [OF op2 this, where cnt = cnt and offset = offset and d = ?d and names = names] obtain op where
    op: "Build (limit_over cnt offset (distinct_over ?d (PProject (sort_over ?K cnt offset ?d ?env
      (filter_over ?rest ?env (path_build ?a msk))) exprs names ?env))) rd = Inr op"
    "rows_of rd op = (limited cnt offset (if ?d then distinct_rows [] (map out xs) else map out xs), None)"
    by blast
  have "limited cnt offset (if ?d then distinct_rows [] (map out xs) else map out xs) =
      limited cnt offset (if ?d then distinct_rows [] (map out ?xs) else map out ?xs)"
    using xs limited_first_rows [OF _ lims(2), of cnt out ?xs] by (auto simp: first_rows_def)
  then show thesis
    using that [OF _ op(1) rs] op(2) by (simp add: plainSelect_def cols keys lims(1) Let_def msk_def)
qed

section \<open>DISTINCT\<close>

lemma Key_inj: "Key vs = Key ws \<longleftrightarrow> vs = ws"
proof (induction vs arbitrary: ws)
  case Nil
  show ?case by (cases ws) (simp_all add: Key_def EncodeAll_append key_code.enc_nonempty)
next
  case (Cons v vs)
  show ?case
    by (cases ws) (use Cons in \<open>simp_all add: Key_def EncodeAll_append key_code.enc_nonempty value_code.enc_append_inj\<close>)
qed

text \<open>The first occurrence of every row, in order.\<close>

fun firsts :: "'a list \<Rightarrow> 'a list" where
  "firsts [] = []"
| "firsts (x # xs) = x # filter (\<lambda>y. y \<noteq> x) (firsts xs)"

lemma distinct_firsts: "distinct (firsts xs) \<and> set (firsts xs) = set xs"
  by (induction xs) auto

lemma distinct_rows_firsts: "distinct_rows (map Key seen) rs = filter (\<lambda>row. row \<notin> set seen) (firsts rs)"
proof (induction rs arbitrary: seen)
  case (Cons row rs)
  have seen: "Key row \<in> set (map Key seen) \<longleftrightarrow> row \<in> set seen" by (auto simp: Key_inj)
  show ?case
  proof (cases "row \<in> set seen")
    case True
    then have "filter (\<lambda>y. y \<noteq> row \<and> y \<notin> set seen) (firsts rs) = filter (\<lambda>y. y \<notin> set seen) (firsts rs)"
      by (intro filter_cong) auto
    then show ?thesis using True seen Cons [of seen] by (simp del: set_map)
  next
    case False
    then show ?thesis using seen Cons [of "row # seen"] by (simp del: set_map)
  qed
qed simp

lemma distinct_rows_first: "distinct_rows [] rs = firsts rs"
  using distinct_rows_firsts [of "[]" rs] by simp

section \<open>Properties\<close>

text \<open>A SELECT without aggregation hands out what it says: the rows that satisfy WHERE, each once,
  sorted stably by ORDER BY, their SELECT list evaluated, duplicates removed when it says DISTINCT,
  cut by OFFSET and LIMIT.  The access path, the pushed-down predicates, the pruned columns, the
  elided sort and the bounded sort (whose 64-bit bound may wrap around) make no difference, with
  the one exception that \<open>no_slip\<close> rules out.\<close>

theorem SELECT_correct:
  assumes "reads rd m" and "table_holds t m R" and "cat_get cat (s_Table s) = Inr t"
    and "plannable t R (s_Where s)" and "no_slip t R (s_Where s)"
    and "check_where t (s_Where s) = None" and "s_GroupBy s = []" and "\<not> selectHasAggregate s"
    and "expand_columns t (s_Columns s) = Inr (exprs, names)" and "order_keys t (s_OrderBy s) = Inr keys"
    and "limitValues s = Inr (cnt, offset)" and "0 \<le>s offset"
    and "\<And>row. row \<in> ran R \<Longrightarrow> where_holds t (s_Where s) row \<Longrightarrow>
      eval_all (map sk_Expr keys) (Some (TableEnv t)) row = Inr (kf row)"
    and "\<And>row. row \<in> ran R \<Longrightarrow> where_holds t (s_Where s) row \<Longrightarrow>
      eval_all exprs (Some (TableEnv t)) row = Inr (out row)"
  shows "\<exists>pl op rs. Planner_Plan cat (SelectStmt s) = Inr pl \<and> Build pl rd = Inr op \<and>
    distinct rs \<and> set rs = {row \<in> ran R. where_holds t (s_Where s) row} \<and>
    (let found = map out (sort_slice (by_keys keys kf) rs)
     in rows_of rd op = (limited cnt offset (if s_Distinct s then firsts found else found), None))"
proof -
  obtain pl op rs msk where "plainSelect s t (TableEnv t) (splitConjuncts (s_Where s)) = Inr pl" "Build pl rd = Inr op"
    and rs: "lists (order_key (path_build (choosePath t (splitConjuncts (s_Where s))) msk)) {row \<in> ran R. where_holds t (s_Where s) row} rs"
    and "rows_of rd op = (limited cnt offset
      (if s_Distinct s then distinct_rows [] (map out (sort_slice (by_keys keys kf) rs))
       else map out (sort_slice (by_keys keys kf) rs)), None)"
    by (rule plain_select_rows [OF assms(1,2,4,5,9-14)])
  moreover have "distinct rs" using lists_distinct [OF rs] by (simp add: distinct_map)
  ultimately show ?thesis
    using rs
    by (intro exI [of _ pl] exI [of _ op] exI [of _ rs])
      (simp add: selectStmt_def assms(3,6-8) lists_def distinct_rows_first Let_def)
qed

text \<open>DELETE removes exactly the rows that satisfy WHERE, with their index entries, and reports their
  number, although it deletes while its own scan is still running.\<close>

theorem DELETE_correct:
  assumes "overlay_inv st" and "table_holds t (overlay_view st) R" and "cat_get cat name = Inr t"
    and "plannable t R w" and "no_slip t R w" and "check_where t w = None"
  shows "\<exists>pl st'. Planner_Plan cat (DeleteStmt name w) = Inr pl \<and>
    RunDML Overlay_rw pl st = Some (of_nat (card {row \<in> ran R. where_holds t w row}), None, st') \<and>
    overlay_inv st' \<and>
    table_holds t (overlay_view st') (R |` (- row_pk t ` {row \<in> ran R. where_holds t w row})) \<and>
    same_elsewhere t (overlay_view st) (overlay_view st')"
proof -
  have t: "table_ok t" using assms(4) by (simp add: plannable_def)
  obtain rows st' where rows: "targets (target_of t w) R rows"
    and run: "RunDML Overlay_rw (PDelete t (target_of t w)) st = Some (of_nat (length rows), None, st')"
      "overlay_inv st'" "table_holds t (overlay_view st') (R |` (- row_pk t ` set rows))"
      "same_elsewhere t (overlay_view st) (overlay_view st')"
    using runDelete_targets [OF assms(1,2) t target_of_ok(1) [OF assms(4)]] by blast
  have listed: "lists (order_key (target_plan (target_of t w))) {row \<in> ran R. where_holds t w row} rows"
    using rows target_of_targets [OF assms(4,5)] by simp
  then have "set rows = {row \<in> ran R. where_holds t w row}" "distinct rows"
    using lists_distinct [OF listed] by (simp_all add: lists_def distinct_map)
  then have "length rows = card {row \<in> ran R. where_holds t w row}" by (metis distinct_card)
  then show ?thesis using run \<open>set rows = _\<close> by (simp add: plan_delete_def assms(3,6))
qed

text \<open>UPDATE changes the rows that satisfy WHERE one after the other, in the order of its scan, each
  from its values before the statement, and stops at the first one that cannot be changed: a
  constraint it violates, or a key that another row has at that moment.  The rows changed until
  then stay changed.\<close>

theorem UPDATE_correct:
  assumes "overlay_inv st" and "table_holds t (overlay_view st) R" and "cat_get cat name = Inr t"
    and "plannable t R w" and "no_slip t R w" and "check_where t w = None"
    and "plan_sets t sets = Inr asgs" and "c_Type (PKColumn t) \<noteq> KindFloat"
  shows "\<exists>pl rows n err R' st'. Planner_Plan cat (UpdateStmt name sets w) = Inr pl \<and>
    distinct rows \<and> set rows = {row \<in> ran R. where_holds t w row} \<and>
    change_rows (spec_update t (\<lambda>old. assign asgs (TableEnv t) old old)) rows R 0 = (n, err, R') \<and>
    RunDML Overlay_rw pl st = Some (n, err, st') \<and> overlay_inv st' \<and>
    table_holds t (overlay_view st') R' \<and> same_elsewhere t (overlay_view st) (overlay_view st')"
proof -
  have t: "table_ok t" using assms(4) by (simp add: plannable_def)
  obtain rows n err R' st' where rows: "targets (target_of t w) R rows"
    and run: "change_rows (spec_update t (\<lambda>old. assign asgs (TableEnv t) old old)) rows R 0 = (n, err, R')"
      "RunDML Overlay_rw (PUpdate t (target_of t w) asgs (TableEnv t)) st = Some (n, err, st')"
      "overlay_inv st'" "table_holds t (overlay_view st') R'"
      "same_elsewhere t (overlay_view st) (overlay_view st')"
    using runUpdate_targets [OF assms(1,2) t target_of_ok(1) [OF assms(4)] assms(8)] by blast
  have listed: "lists (order_key (target_plan (target_of t w))) {row \<in> ran R. where_holds t w row} rows"
    using rows target_of_targets [OF assms(4,5)] by simp
  then have "set rows = {row \<in> ran R. where_holds t w row}" "distinct rows"
    using lists_distinct [OF listed] by (simp_all add: lists_def distinct_map)
  then show ?thesis using run by (simp add: plan_update_def assms(3,6,7)) blast
qed

text \<open>C21: Bounding a sort by LIMIT plus OFFSET loses no row of the answer, also when the 64-bit sum wraps
  around; a LIMIT never hands out more rows than it says.\<close>

theorem limit_pushdown:
  assumes input: "rows_of rd input = (rs, None)"
    and keys: "\<And>row. row \<in> set rs \<Longrightarrow> eval_all (map sk_Expr keys) (Some env) row = Inr (kf row)"
    and lims: "0 \<le>s cnt" "0 \<le>s offset"
  shows "rows_of rd (OpLimit (OpSort input keys (cnt + offset) env [] 0 False) cnt offset 0 0) =
      rows_of rd (OpLimit (OpSort input keys (- 1) env [] 0 False) cnt offset 0 0) \<and>
    length (fst (rows_of rd (OpLimit (OpSort input keys (cnt + offset) env [] 0 False) cnt offset 0 0)))
      \<le> unat cnt"
proof -
  have sorted: "sort_rows keys b env (rows_of rd input) = (first_rows b (sort_slice (by_keys keys kf) rs), None)"
    for b
    using sorted_rows [of rd input "\<lambda>row. row" rs] input keys by simp
  have "length (limited cnt offset xs) \<le> nat (sint cnt)" for xs :: "Row list"
    using lims(1) by (simp add: limited_def Let_def)
  then show ?thesis
    using limited_first_rows [OF lims, of "\<lambda>row. row" "sort_slice (by_keys keys kf) rs"] lims(1)
    by (simp add: sorted limit_rows_limited first_rows_def nat_sint_unat)
qed

text \<open>C13: Pushing a predicate into a scan leaves the condition what it is: a row satisfies WHERE exactly
  if the scan selects it, the conjuncts the scan did not absorb are TRUE for it, and it is not one
  of the rows with NULL that an index scan without a lower bound lets through.\<close>

theorem access_path_exact:
  assumes "table_ok t" and "is_row t row" and "\<forall>c \<in> set (splitConjuncts w). evals_for t row c"
  defines "a \<equiv> choosePath t (splitConjuncts w)"
  shows "where_holds t w row \<longleftrightarrow> scan_selects (path_build a msk) row \<and>
    (\<forall>c \<in> set (path_residual a (splitConjuncts w)). EvalPredicate c (Some (TableEnv t)) row = Inr B3True) \<and>
    \<not> (ap_index a \<noteq> None \<and> \<not> bd_Set (Lo (ap_bounds a)) \<and> col_value t row (ap_ordersBy a) = VNull)"
proof -
  have "ap_table a = t" using choosePath_inv [of t "splitConjuncts w"] by (simp add: a_def path_inv_def)
  then show ?thesis
    using path_exact [OF choosePath_inv assms(1,2), of "splitConjuncts w" msk] splitConjuncts_holds [OF assms(3)]
    by (auto simp: a_def null_slip_def holds_for_def)
qed

section \<open>Witnesses\<close>

definition sample_catalog :: Catalog where
  "sample_catalog = \<lparr>cat_tables = [(''users'', sample_indexed)], cat_nextID = 2\<rparr>"

definition id_is_2 :: Expr where
  "id_is_2 = EBinary ''='' (EColumn '''' ''id'') (ELiteral (VInt 2))"

definition name_before_b :: Expr where
  "name_before_b = EBinary ''<'' (EColumn '''' ''name'') (ELiteral (VText ''b''))"

abbreviation only :: "string \<Rightarrow> ResultColumn" where
  "only name \<equiv> \<lparr>rc_Star = False, rc_Expr = Some (EColumn '''' name), rc_Alias = ''''\<rparr>"

definition sample_select :: "string \<Rightarrow> Expr \<Rightarrow> Select" where
  "sample_select name w = \<lparr>s_Columns = [only name], s_Table = ''users'', s_Where = Some w, s_GroupBy = [],
     s_OrderBy = [\<lparr>ot_Expr = EColumn '''' ''id'', ot_Desc = False\<rparr>], s_Limit = None, s_Offset = None,
     s_Distinct = False\<rparr>"

lemma sample_names [simp]:
  "ColumnIndex sample_indexed ''id'' = Some 0" "ColumnIndex sample_indexed ''name'' = Some 1"
  "PKColumn sample_indexed = sample_cols ! 0" "i_Column sample_index = ''name''"
  by (simp_all add: ColumnIndex_def sample_cols_def PKColumn_def sample_index_def)

lemma sample_get [simp]: "cat_get sample_catalog ''users'' = Inr sample_indexed"
  by (simp add: cat_get_def Catalog_Get_def sample_catalog_def)

lemma sample_paths:
  "choosePath sample_indexed [id_is_2] = \<lparr>ap_table = sample_indexed, ap_index = None,
     ap_bounds = \<lparr>Lo = bound_at (VInt 2) True, Hi = bound_at (VInt 2) True\<rparr>, ap_cost = 2,
     ap_consumed = indexSet [0], ap_ordersBy = ''id''\<rparr>"
  "choosePath sample_indexed [name_before_b] = \<lparr>ap_table = sample_indexed, ap_index = Some sample_index,
     ap_bounds = \<lparr>Lo = no_bound, Hi = bound_at (VText ''b'') False\<rparr>, ap_cost = 602,
     ap_consumed = indexSet [0], ap_ordersBy = ''name''\<rparr>"
  by (simp_all add: choosePath_def id_is_2_def name_before_b_def sargable_op_def boundValue_def op_range_def
      sample_cols_def pk_path_def index_path_def scan_path_def Bounded_def Selectivity_def IsPoint_def
      Equal_def estimatedRows_def costRowRead_def costIndexRead_def costRowFetch_def costStartup_def
      no_bound_def)

lemma sample_conditions [simp]:
  "EvalPredicate id_is_2 (Some (TableEnv sample_indexed)) [VInt n, v] = Inr (B3 (n = 2))"
  "EvalPredicate name_before_b (Some (TableEnv sample_indexed)) [VInt n, VNull] = Inr B3Unknown"
  "EvalPredicate name_before_b (Some (TableEnv sample_indexed)) [VInt n, VText s] = Inr (B3 (s < ''b''))"
  by (simp_all add: id_is_2_def name_before_b_def EvalPredicate_comparison is_comparison_def
      CompareOp_same_kind signed_word_eqI)
   (auto intro!: arg_cong [of _ _ B3] simp: cmp3_eq_0 intro: signed_word_eqI)

lemma sample_is_row: "row \<in> ran sample_rows \<Longrightarrow> is_row sample_indexed row"
  by (auto simp: sample_ran is_row_def sample_cols_def less_Suc_eq Coerce_def)

lemma sample_split [simp]:
  "splitConjuncts (Some id_is_2) = [id_is_2]" "splitConjuncts (Some name_before_b) = [name_before_b]"
  by (simp_all add: splitConjuncts_def id_is_2_def name_before_b_def)

lemma sample_constants: "constants_ok id_is_2"
  by (auto simp: constants_ok_def key_ok_def id_is_2_def)

lemma sample_values: "row \<in> ran sample_rows \<Longrightarrow> (\<forall>v \<in> set row. key_ok v) \<and> evals_for sample_indexed row id_is_2"
  by (auto simp: sample_ran key_ok_def evals_for_def)

lemma sample_plannable:
  "plannable sample_indexed sample_rows (Some id_is_2)" "no_slip sample_indexed sample_rows (Some id_is_2)"
proof -
  show "plannable sample_indexed sample_rows (Some id_is_2)"
    by (simp add: plannable_def sample_indexed_ok sample_is_row sample_values sample_constants)
  show "no_slip sample_indexed sample_rows (Some id_is_2)"
    by (simp add: no_slip_def null_slip_def sample_paths)
qed

lemma sample_found: "{row \<in> ran sample_rows. where_holds sample_indexed (Some id_is_2) row} = {[VInt 2, VNull]}"
  by (auto simp: sample_ran holds_for_def)

lemma sample_check: "check_where sample_indexed (Some id_is_2) = None" "check_where sample_indexed (Some name_before_b) = None"
  by (simp_all add: check_where_def checkTableRefs_def id_is_2_def name_before_b_def check_ref_def ref_error_def)

lemma quote_name: "quoteIdent ''name'' = ''name''"
  by code_simp

lemma sample_select_parts:
  "\<not> selectHasAggregate (sample_select ''name'' w)"
  "expand_columns sample_indexed (s_Columns (sample_select ''name'' w)) = Inr ([EColumn '''' ''name''], [''name''])"
  "order_keys sample_indexed (s_OrderBy (sample_select ''name'' w)) =
     Inr [\<lparr>sk_Expr = EColumn '''' ''id'', sk_Desc = False\<rparr>]"
  "limitValues (sample_select ''name'' w) = Inr (- 1, 0)"
  "s_Table (sample_select ''name'' w) = ''users''" "s_Where (sample_select ''name'' w) = Some w"
  "s_GroupBy (sample_select ''name'' w) = []" "\<not> s_Distinct (sample_select ''name'' w)"
  by (simp_all add: sample_select_def selectHasAggregate_def HasAggregate_def checkTableRefs_def check_ref_def
      ref_error_def limitValues_def resultName_def quote_name)

lemma sample_evals:
  assumes "row \<in> ran sample_rows"
  shows "eval_all [EColumn '''' ''id''] (Some (TableEnv sample_indexed)) row = Inr [row ! 0]"
    and "eval_all [EColumn '''' ''name''] (Some (TableEnv sample_indexed)) row = Inr [row ! 1]"
  using assms by (auto simp: sample_ran)

lemma sample_slip_selects:
  assumes "row \<in> ran sample_rows"
  shows "scan_selects (PIndexScan sample_indexed sample_index
    \<lparr>Lo = no_bound, Hi = bound_at (VText ''b'') False\<rparr> m) row"
proof -
  have "Order VNull (VText ''b'') < 0" "Order (VText ''ann'') (VText ''b'') < 0"
    using Order_VNull by (simp_all add: cmp3_def)
  then show ?thesis
    using assms unfolding sample_ran
    by (elim disjE) (simp_all add: in_interval_def below_def no_bound_def sample_index_def del: Order_simps)
qed

theorem SELECT_correct_witness:
  "\<exists>st pl op. overlay_inv st \<and>
     Planner_Plan sample_catalog (SelectStmt (sample_select ''name'' id_is_2)) = Inr pl \<and>
     Build pl (Overlay_reader st) = Inr op \<and> rows_of (Overlay_reader st) op = ([[VNull]], None)"
proof -
  obtain st where st: "overlay_inv st" "table_holds sample_indexed (overlay_view st) sample_rows"
    by (rule sample_holds)
  let ?s = "sample_select ''name'' id_is_2" and ?out = "\<lambda>row :: Row. [row ! 1]" and ?kf = "\<lambda>row :: Row. [row ! 0]"
  have get: "cat_get sample_catalog (s_Table ?s) = Inr sample_indexed"
    and plannable: "plannable sample_indexed sample_rows (s_Where ?s)" "no_slip sample_indexed sample_rows (s_Where ?s)"
    and chk: "check_where sample_indexed (s_Where ?s) = None" and off: "0 \<le>s (0 :: int64)"
    by (simp_all add: sample_select_parts sample_plannable sample_check)
  have kf: "eval_all (map sk_Expr [\<lparr>sk_Expr = EColumn '''' ''id'', sk_Desc = False\<rparr>]) (Some (TableEnv sample_indexed)) row =
      Inr (?kf row)" if "row \<in> ran sample_rows" for row
    using sample_evals(1) [OF that] by simp
  obtain pl op rs where run: "Planner_Plan sample_catalog (SelectStmt ?s) = Inr pl" "Build pl (Overlay_reader st) = Inr op"
    and rs: "distinct rs" "set rs = {row \<in> ran sample_rows. where_holds sample_indexed (s_Where ?s) row}"
    and found: "let found = map ?out (sort_slice (by_keys [\<lparr>sk_Expr = EColumn '''' ''id'', sk_Desc = False\<rparr>] ?kf) rs)
       in rows_of (Overlay_reader st) op = (limited (- 1) 0 (if s_Distinct ?s then firsts found else found), None)"
    using SELECT_correct [OF overlay_reads [OF st(1)] st(2) get plannable chk sample_select_parts(7,1-4) off kf sample_evals(2)]
    by blast
  have "set rs = {[VInt 2, VNull]}" using rs(2) sample_found by (simp add: sample_select_parts)
  then have "rs = [[VInt 2, VNull]]" using rs(1) by (cases rs) (auto simp: subset_singleton_iff)
  then show ?thesis using run found st(1) by (auto simp: sample_select_parts limited_def)
qed

theorem DELETE_correct_witness:
  "\<exists>st pl st'. Planner_Plan sample_catalog (DeleteStmt ''users'' (Some id_is_2)) = Inr pl \<and>
     RunDML Overlay_rw pl st = Some (1, None, st') \<and>
     table_holds sample_indexed (overlay_view st') [VInt 1 \<mapsto> [VInt 1, VText ''ann'']]"
proof -
  obtain st where st: "overlay_inv st" "table_holds sample_indexed (overlay_view st) sample_rows"
    by (rule sample_holds)
  have "sample_rows |` (- {VInt 2}) = [VInt 1 \<mapsto> [VInt 1, VText ''ann'']]"
    by (simp add: sample_rows_def fun_eq_iff restrict_map_def)
  then show ?thesis
    using DELETE_correct [OF st sample_get sample_plannable sample_check(1)]
    unfolding sample_found by (intro exI [of _ st]) auto
qed

theorem UPDATE_correct_witness:
  "\<exists>st pl st'. Planner_Plan sample_catalog
       (UpdateStmt ''users'' [(''name'', ELiteral (VText ''bob''))] (Some id_is_2)) = Inr pl \<and>
     RunDML Overlay_rw pl st = Some (1, None, st') \<and>
     table_holds sample_indexed (overlay_view st')
       [VInt 1 \<mapsto> [VInt 1, VText ''ann''], VInt 2 \<mapsto> [VInt 2, VText ''bob'']]"
proof -
  obtain st where st: "overlay_inv st" "table_holds sample_indexed (overlay_view st) sample_rows"
    by (rule sample_holds)
  let ?asgs = "[\<lparr>as_Column = 1, as_Name = ''name'', as_Value = ELiteral (VText ''bob'')\<rparr>]"
  have sets: "plan_sets sample_indexed [(''name'', ELiteral (VText ''bob''))] = Inr ?asgs"
    by (simp add: checkTableRefs_def check_ref_def)
  have nf: "c_Type (PKColumn sample_indexed) \<noteq> KindFloat" by (simp add: sample_cols_def)
  obtain pl rows n err R' st' where pl: "Planner_Plan sample_catalog
       (UpdateStmt ''users'' [(''name'', ELiteral (VText ''bob''))] (Some id_is_2)) = Inr pl"
    and rows: "distinct rows" "set rows = {[VInt 2, VNull]}"
    and spec: "change_rows (spec_update sample_indexed (\<lambda>old. assign ?asgs (TableEnv sample_indexed) old old)) rows
      sample_rows 0 = (n, err, R')"
    and run: "RunDML Overlay_rw pl st = Some (n, err, st')" "table_holds sample_indexed (overlay_view st') R'"
    using UPDATE_correct [OF st sample_get sample_plannable sample_check(1) sets nf] unfolding sample_found
    by (elim exE conjE)
  have "rows = [[VInt 2, VNull]]" using rows by (cases rows) (auto simp: subset_singleton_iff)
  moreover have "sample_rows(VInt 2 := None, VInt 2 \<mapsto> [VInt 2, VText ''bob'']) =
      [VInt 1 \<mapsto> [VInt 1, VText ''ann''], VInt 2 \<mapsto> [VInt 2, VText ''bob'']]"
    by (simp add: sample_rows_def)
  ultimately have "(n, err, R') = (1, None, [VInt 1 \<mapsto> [VInt 1, VText ''ann''], VInt 2 \<mapsto> [VInt 2, VText ''bob'']])"
    using spec by (simp add: spec_update_def sample_validate)
  then show ?thesis using pl run by auto
qed

text \<open>\<open>LIMIT 1 OFFSET 1\<close> over three stored rows sorted with a buffer of two, and
  \<open>LIMIT 9223372036854775807 OFFSET 1\<close>, where the sum wraps around.\<close>

theorem limit_pushdown_witness:
  "\<forall>rd. rows_of rd (OpLimit (OpSort sample_scan [sample_key] (1 + 1) sample_env [] 0 False) 1 1 0 0) =
      rows_of rd (OpLimit (OpSort sample_scan [sample_key] (- 1) sample_env [] 0 False) 1 1 0 0) \<and>
    rows_of rd (OpLimit (OpSort sample_scan [sample_key] (0x7FFFFFFFFFFFFFFF + 1) sample_env [] 0 False)
        0x7FFFFFFFFFFFFFFF 1 0 0) =
      rows_of rd (OpLimit (OpSort sample_scan [sample_key] (- 1) sample_env [] 0 False)
        0x7FFFFFFFFFFFFFFF 1 0 0)"
proof
  fix rd
  note pushed = limit_pushdown [OF sample_scan_rows sample_key_value]
  show "rows_of rd (OpLimit (OpSort sample_scan [sample_key] (1 + 1) sample_env [] 0 False) 1 1 0 0) =
      rows_of rd (OpLimit (OpSort sample_scan [sample_key] (- 1) sample_env [] 0 False) 1 1 0 0) \<and>
    rows_of rd (OpLimit (OpSort sample_scan [sample_key] (0x7FFFFFFFFFFFFFFF + 1) sample_env [] 0 False)
        0x7FFFFFFFFFFFFFFF 1 0 0) =
      rows_of rd (OpLimit (OpSort sample_scan [sample_key] (- 1) sample_env [] 0 False)
        0x7FFFFFFFFFFFFFFF 1 0 0)"
    using pushed [of 1 1] pushed [of "0x7FFFFFFFFFFFFFFF" 1] by (simp add: sle_iff)
qed

theorem access_path_exact_witness:
  "\<not> scan_selects (path_build (choosePath sample_indexed [id_is_2]) [True, True]) [VInt 1, VNull]"
proof -
  have "is_row sample_indexed [VInt 1, VNull]"
    by (auto simp: is_row_def sample_cols_def less_Suc_eq Coerce_def)
  from access_path_exact [OF sample_indexed_ok this, of "Some id_is_2" "[True, True]"]
  show ?thesis by (simp add: evals_for_def holds_for_def sample_paths path_residual_def indexSet_def)
qed

text \<open>C24: The exception is real.  \<open>SELECT name FROM users WHERE name < 'b' ORDER BY id\<close> with an index on
  \<open>name\<close> hands out the row whose name is NULL, although the condition is UNKNOWN for it: the index
  scan has no lower bound, starts at the entries of NULL, and no filter is left above it.\<close>

theorem index_scan_returns_NULL:
  "\<exists>st pl op. overlay_inv st \<and> table_holds sample_indexed (overlay_view st) sample_rows \<and>
     Planner_Plan sample_catalog (SelectStmt (sample_select ''name'' name_before_b)) = Inr pl \<and>
     Build pl (Overlay_reader st) = Inr op \<and> [VNull] \<in> set (fst (rows_of (Overlay_reader st) op)) \<and>
     sample_rows (VInt 2) = Some [VInt 2, VNull] \<and>
     EvalPredicate name_before_b (Some (TableEnv sample_indexed)) [VInt 2, VNull] = Inr B3Unknown"
proof -
  obtain st where st: "overlay_inv st" "table_holds sample_indexed (overlay_view st) sample_rows"
    by (rule sample_holds)
  let ?rd = "Overlay_reader st" and ?env = "TableEnv sample_indexed" and ?msk = "[True, True]"
  let ?r = "\<lparr>Lo = no_bound, Hi = bound_at (VText ''b'') False\<rparr>"
    and ?keys = "[\<lparr>sk_Expr = EColumn '''' ''id'', sk_Desc = False\<rparr>]"
  let ?scan = "PIndexScan sample_indexed sample_index ?r (Some ?msk)"
  have plan: "Planner_Plan sample_catalog (SelectStmt (sample_select ''name'' name_before_b)) =
      Inr (PProject (PSort ?scan ?keys (- 1) ?env) [EColumn '''' ''name''] [''name''] ?env)"
    by (simp add: selectStmt_def plainSelect_def sample_select_parts sample_check sample_paths needed_keys_def
        path_provides_def path_residual_def indexSet_def filter_over_def path_build_def sort_over_def
        distinct_over_def limit_over_def newMask_def sample_cols_def Let_def Columns_def)
  have "scan_plan_ok sample_indexed ?msk sample_rows ?scan"
    using sample_values by (auto simp: bound_ok_def no_bound_def key_ok_def sample_ran sample_index_def)
  then obtain op rs where op: "Build ?scan ?rd = Inr op" "rows_of ?rd op = (map (masked ?msk) rs, None)"
    and rs: "lists (order_key ?scan) {row \<in> ran sample_rows. scan_selects ?scan row} rs"
    using scan_plan_rows [OF overlay_reads [OF st(1)] st(2), of ?msk ?scan] by (auto simp: sample_cols_def)
  have "set rs = ran sample_rows" using rs sample_slip_selects by (auto simp only: lists_def)
  then have full: "map (masked ?msk) rs = rs" and ran: "\<And>row. row \<in> set rs \<Longrightarrow> row \<in> ran sample_rows"
    by (auto simp: sample_ran masked_def intro!: map_idI)
  have "rows_of ?rd (OpSort op ?keys (- 1) ?env [] 0 False) =
      (map (\<lambda>row. row) (first_rows (- 1) (sort_slice (by_keys ?keys (\<lambda>row. [row ! 0])) rs)), None)"
    by (rule sorted_rows, simp only: op(2) full list.map_ident)
      (simp only: list.map SortKey.select_convs sample_evals(1) [OF ran])
  then have sorted: "rows_of ?rd (OpSort op ?keys (- 1) ?env [] 0 False) =
      (sort_slice (by_keys ?keys (\<lambda>row. [row ! 0])) rs, None)"
    by (simp add: first_rows_def sle_iff)
  have "map_rows (\<lambda>row. keep_row (eval_all [EColumn '''' ''name''] (Some ?env) row))
      (sort_slice (by_keys ?keys (\<lambda>row. [row ! 0])) rs) None =
      (map (\<lambda>row. [row ! 1]) (sort_slice (by_keys ?keys (\<lambda>row. [row ! 0])) rs), None)"
    using ran by (intro map_rows_all) (simp only: sample_evals(2) set_sort_slice keep_row_def sum.case)
  then have "set (fst (rows_of ?rd (OpProject (OpSort op ?keys (- 1) ?env [] 0 False) [EColumn '''' ''name''] ?env))) =
      (\<lambda>row. [row ! 1]) ` ran sample_rows"
    using \<open>set rs = _\<close> by (simp only: rows_of.simps(4) sorted prod.case fst_conv set_map set_sort_slice)
  moreover have "[VNull] \<in> (\<lambda>row. [row ! 1]) ` ran sample_rows"
    by (rule image_eqI [where x = "[VInt 2, VNull]"]) (simp_all add: sample_ran)
  ultimately show ?thesis
    using st plan op(1)
    by (intro exI [of _ st] exI [of _ "PProject (PSort ?scan ?keys (- 1) ?env) [EColumn '''' ''name''] [''name''] ?env"]
        exI [of _ "OpProject (OpSort op ?keys (- 1) ?env [] 0 False) [EColumn '''' ''name''] ?env"])
      (simp add: sample_rows_def)
qed

end
