(* ===== verification/Transactions.thy ===== *)
theory Transactions
  imports Session Queries
begin

text \<open>
  What transactions promise: a commit publishes the write buffer and nothing else, a failed statement
  outside a transaction leaves the store as it was, and a statement that succeeds commits what it would
  have left in its transaction.  The contract of keelstore is that it
  reads as a map and that each write changes that map at one key: the locale \<open>keel\<close>.
\<close>

section \<open>No operation leaves the store's invariant\<close>

context read_writer begin

lemma put_keeps: "rw_Put rw st k v = (err, st') \<Longrightarrow> inv st \<Longrightarrow> inv st'"
  and delete_keeps: "rw_Delete rw st k = (err, st') \<Longrightarrow> inv st \<Longrightarrow> inv st'"
  using put delete by blast+

lemma write_entries_keeps: "write_entries rw t ixs row pk remove st = (err, st') \<Longrightarrow> inv st \<Longrightarrow> inv st'"
  by (induction ixs arbitrary: st)
    (auto simp: Let_def dest: put_keeps delete_keeps split: if_splits prod.splits option.splits)

lemma put_row_keeps: "put_row rw t row st = (err, st') \<Longrightarrow> inv st \<Longrightarrow> inv st'"
  by (auto simp: put_row_def writeIndexes_def dest: put_keeps write_entries_keeps split: prod.splits option.splits)

lemma rewrite_row_keeps: "rewrite_row rw t old new st = (err, st') \<Longrightarrow> inv st \<Longrightarrow> inv st'"
  by (auto simp: rewrite_row_def writeIndexes_def dest: write_entries_keeps put_row_keeps split: prod.splits option.splits)

lemma Insert_keeps: "Mutator_Insert rw t row st = (err, st') \<Longrightarrow> inv st \<Longrightarrow> inv st'"
  by (auto simp: Mutator_Insert_def dest: put_row_keeps split: sum.splits option.splits)

lemma Update_keeps: "Mutator_Update rw t old new st = (err, st') \<Longrightarrow> inv st \<Longrightarrow> inv st'"
  by (auto simp: Mutator_Update_def dest: rewrite_row_keeps delete_keeps
      split: sum.splits option.splits prod.splits if_splits)

lemma Delete_keeps: "Mutator_Delete rw t row st = (err, st') \<Longrightarrow> inv st \<Longrightarrow> inv st'"
  by (auto simp: Mutator_Delete_def writeIndexes_def dest: write_entries_keeps delete_keeps split: option.splits prod.splits)

lemma insert_loop_keeps: "insert_loop rw t cols rows n st = (n', err, st') \<Longrightarrow> inv st \<Longrightarrow> inv st'"
proof (induction rows arbitrary: n st)
  case (Cons es rows)
  then show ?case by (auto dest: Insert_keeps split: sum.splits option.splits prod.splits)
qed simp

lemma change_loop_keeps:
  assumes "\<And>row st err st'. f row st = (err, st') \<Longrightarrow> inv st \<Longrightarrow> inv st'"
  shows "change_loop rw f fuel input n st = Some (n', err, st') \<Longrightarrow> inv st \<Longrightarrow> inv st'"
proof (induction fuel arbitrary: input n st)
  case (Suc fuel)
  then show ?case by (auto dest: assms split: sum.splits option.splits prod.splits)
qed simp

lemma update_one_keeps: "update_one rw t sets env row st = (err, st') \<Longrightarrow> inv st \<Longrightarrow> inv st'"
  by (auto simp: update_one_def dest: Update_keeps split: sum.splits)

lemma RunDML_keeps:
  assumes "RunDML rw p st = Some (n, err, st')" and "inv st"
  shows "inv st'"
proof (cases p)
  case (PInsert t rows cols)
  then show ?thesis using assms insert_loop_keeps [of t cols rows 0 st] by (simp add: runInsert_def)
next
  case (PUpdate t input sets env)
  then show ?thesis
    using assms change_loop_keeps [of "update_one rw t sets env"] update_one_keeps
    by (auto simp: runUpdate_def simp del: change_loop.simps split: sum.splits)
next
  case (PDelete t input)
  then show ?thesis
    using assms change_loop_keeps [of "Mutator_Delete rw t"] Delete_keeps
    by (auto simp: runDelete_def simp del: change_loop.simps split: sum.splits)
qed (use assms in simp_all)

lemma put_all_keeps: "put_all rw ks st = (err, st') \<Longrightarrow> inv st \<Longrightarrow> inv st'"
  and delete_all_keeps: "delete_all rw ks st = (err, st') \<Longrightarrow> inv st \<Longrightarrow> inv st'"
  by (induction ks arbitrary: st) (auto dest: put_keeps delete_keeps split: option.splits prod.splits)

lemma deleteRange_keeps: "deleteRange rw lo hi st = (err, st') \<Longrightarrow> inv st \<Longrightarrow> inv st'"
  by (auto simp: deleteRange_def dest: delete_all_keeps split: option.splits prod.splits)

lemma drop_indexes_keeps: "drop_indexes rw t ixs st = (err, st') \<Longrightarrow> inv st \<Longrightarrow> inv st'"
  by (induction ixs arbitrary: st)
    (auto simp: DropIndexEntries_def Let_def dest: deleteRange_keeps split: option.splits prod.splits)

lemma DropTableData_keeps: "DropTableData rw t st = (err, st') \<Longrightarrow> inv st \<Longrightarrow> inv st'"
  by (auto simp: DropTableData_def Let_def dest: deleteRange_keeps drop_indexes_keeps split: option.splits prod.splits)

lemma DropIndexEntries_keeps: "DropIndexEntries rw t ix st = (err, st') \<Longrightarrow> inv st \<Longrightarrow> inv st'"
  by (auto simp: DropIndexEntries_def Let_def dest: deleteRange_keeps)

lemma BuildIndex_keeps: "BuildIndex rw t ix st = (err, st') \<Longrightarrow> inv st \<Longrightarrow> inv st'"
  by (auto simp: BuildIndex_def Let_def dest: put_all_keeps split: sum.splits option.splits prod.splits)

lemma persist_keeps: "persist js rw st t = (err, st') \<Longrightarrow> inv st \<Longrightarrow> inv st'"
  by (auto simp: persist_def dest: put_keeps split: sum.splits prod.splits)

lemma Create_keeps: "Create js rw st c t = (r, st', c') \<Longrightarrow> inv st \<Longrightarrow> inv st'"
  by (auto simp: Create_def bumpID_def Let_def dest: put_keeps persist_keeps split: if_splits option.splits prod.splits)

lemma Drop_keeps: "Drop rw st c name = (r, st', c') \<Longrightarrow> inv st \<Longrightarrow> inv st'"
  by (auto simp: Drop_def dest: delete_keeps split: if_splits option.splits prod.splits)

lemma AddIndex_keeps: "AddIndex js rw st c t name col = (r, st', c') \<Longrightarrow> inv st \<Longrightarrow> inv st'"
  by (auto simp: AddIndex_def Let_def dest: persist_keeps split: if_splits option.splits prod.splits)

lemma RemoveIndex_keeps: "RemoveIndex js rw st c name = (r, st', c') \<Longrightarrow> inv st \<Longrightarrow> inv st'"
  by (auto simp: RemoveIndex_def Let_def dest: persist_keeps split: if_splits option.splits prod.splits)

end

text \<open>Also the snapshot under a transaction stays: the contract of the overlay holds with the base fixed.\<close>

interpretation based: read_writer Overlay_rw overlay_view "\<lambda>ov. overlay_inv ov \<and> Base ov = B" for B
proof
  show "reads (rw_reader Overlay_rw st) (overlay_view st)" if "overlay_inv st \<and> Base st = B" for st
    using that overlay.reader by blast
  show "err = None \<and> (overlay_inv st' \<and> Base st' = B) \<and> overlay_view st' = (overlay_view st)(k \<mapsto> v)"
    if "overlay_inv st \<and> Base st = B" "rw_Put Overlay_rw st k v = (err, st')" for st k v err st'
    using that overlay.put [of st k v err st'] by (auto simp: Overlay_rw_def Overlay_Put_def split: prod.splits)
  show "err = None \<and> (overlay_inv st' \<and> Base st' = B) \<and> overlay_view st' = (overlay_view st)(k := None)"
    if "overlay_inv st \<and> Base st = B" "rw_Delete Overlay_rw st k = (err, st')" for st k err st'
    using that overlay.delete [of st k err st'] by (auto simp: Overlay_rw_def Overlay_Delete_def split: prod.splits)
qed

section \<open>Commit\<close>

text \<open>What the sources rely on keelstore for: it reads as a map, and a write that is not refused, which
  the model does not refuse, changes the map at its key.\<close>

locale keel = store: read_writer "Store_rw ks" view inv
  for ks :: "'db keelstore" and view :: "'db \<Rightarrow> bytes \<rightharpoonup> bytes" and inv :: "'db \<Rightarrow> bool"
begin

lemma put_ok:
  assumes "inv st"
  shows "\<exists>st'. ks_Put ks st k v = (None, st') \<and> inv st' \<and> view st' = (view st)(k \<mapsto> v)"
  using store.put [OF assms, of k v] by (cases "ks_Put ks st k v") (auto simp: Store_rw_def)

lemma delete_ok:
  assumes "inv st"
  shows "\<exists>st'. ks_Delete ks st k = (None, st') \<and> inv st' \<and> view st' = (view st)(k := None)"
  using store.delete [OF assms, of k] by (cases "ks_Delete ks st k") (auto simp: Store_rw_def)

lemma apply_entries_view:
  assumes "inv st" and "distinct (map e_Key es)"
  shows "\<exists>st'. apply_entries ks es st = (None, st') \<and> inv st' \<and>
    view st' = overlay_map (view st) (map_of (map (\<lambda>e. (e_Key e, e)) es))"
  using assms
proof (induction es arbitrary: st)
  case Nil
  then show ?case by (auto simp: overlay_map_def)
next
  case (Cons e es)
  obtain st1 where "(if e_Deleted e then ks_Delete ks st (e_Key e) else ks_Put ks st (e_Key e) (e_Value e)) = (None, st1)"
    and st1: "inv st1" "view st1 = (view st)(e_Key e := if e_Deleted e then None else Some (e_Value e))"
    using put_ok [OF Cons.prems(1)] delete_ok [OF Cons.prems(1)] by (cases "e_Deleted e") force+
  moreover obtain st' where "apply_entries ks es st1 = (None, st')" "inv st'"
    "view st' = overlay_map (view st1) (map_of (map (\<lambda>e. (e_Key e, e)) es))"
    using Cons.IH [OF st1(1)] Cons.prems(2) by auto
  moreover have "map_of (map (\<lambda>e. (e_Key e, e)) es) (e_Key e) = None"
    using Cons.prems(2) by (auto simp: map_of_eq_None_iff image_image)
  ultimately show ?case by (auto simp: overlay_map_def st1(2) fun_eq_iff split: option.split)
qed

lemma begin_overlay:
  assumes "inv (db_store db)"
  shows "overlay_inv (tx_rw (DB_begin ks db))" and "overlay_view (tx_rw (DB_begin ks db)) = view (db_store db)"
    and "reader_view (Base (tx_rw (DB_begin ks db))) = view (db_store db)" and "\<not> tx_done (DB_begin ks db)"
  using store.reader [OF assms] NewOverlay_inv NewOverlay_view reads_view
  by (auto simp: DB_begin_def Store_rw_def NewOverlay_def)

lemma commit:
  assumes "inv (db_store db)" and "overlay_inv (tx_rw tx)" and "\<not> tx_done tx"
  shows "\<exists>tx' db'. Tx_Commit ks tx db = (None, tx', db') \<and> tx_done tx' \<and> db_cat db' = db_cat db \<and> inv (db_store db') \<and>
    view (db_store db') = overlay_map (view (db_store db)) (Lookup (Buf (tx_rw tx)))"
proof -
  obtain es buf where E: "Entries (Buf (tx_rw tx)) = (es, buf)" by fastforce
  have b: "buffer_inv (Buf (tx_rw tx))" using assms(2) by (simp add: overlay_inv_def)
  note es = Entries_sorted [OF b E]
  have d: "distinct (map e_Key es)" using es(1) by (simp add: strict_sorted_iff)
  have "map_of (map (\<lambda>e. (e_Key e, e)) es) k = Lookup (Buf (tx_rw tx)) k" for k
  proof (cases "Lookup (Buf (tx_rw tx)) k")
    case None
    then show ?thesis using es(2) by (auto simp: map_of_eq_None_iff)
  next
    case (Some e)
    then have "e \<in> set es" "e_Key e = k" using es(2) Lookup_key [OF b] by auto
    then have "(k, e) \<in> set (map (\<lambda>e. (e_Key e, e)) es)" by auto
    moreover have "distinct (map fst (map (\<lambda>e. (e_Key e, e)) es))" using d by (simp add: comp_def)
    ultimately show ?thesis using Some by (simp add: map_of_is_SomeI)
  qed
  then have "map_of (map (\<lambda>e. (e_Key e, e)) es) = Lookup (Buf (tx_rw tx))" by blast
  then show ?thesis
    using apply_entries_view [OF assms(1) d] assms(1,3) E
    by (cases es) (auto simp: Tx_Commit_def Let_def simp del: apply_entries.simps(2))
qed

lemma statement:
  assumes "inv (db_store db)" and "conn_tx c = None" and "Planner_Plan (db_cat db) stmt = Inr p"
    and run: "RunDML Overlay_rw p (tx_rw (DB_begin ks db)) = Some (n, err, ov)"
  shows "case err of
      Some e \<Rightarrow> Conn_dml ks stmt db c = Some (Inl (CExec e), db, c)
    | None \<Rightarrow> \<exists>db'. Conn_dml ks stmt db c = Some (Inr ((tagged (dmlTag stmt))\<lparr>r_Affected := n\<rparr>), db', c) \<and>
        db_cat db' = db_cat db \<and> inv (db_store db') \<and> view (db_store db') = overlay_view ov"
proof (cases err)
  case None
  note b = begin_overlay [OF assms(1)]
  have ov: "overlay_inv ov \<and> Base ov = Base (tx_rw (DB_begin ks db))"
    using based.RunDML_keeps [OF run, of "Base (tx_rw (DB_begin ks db))"] b(1) by blast
  obtain tx' db' where commit: "Tx_Commit ks ((DB_begin ks db)\<lparr>tx_rw := ov\<rparr>) db = (None, tx', db')"
    "db_cat db' = db_cat db" "inv (db_store db')"
    "view (db_store db') = overlay_map (view (db_store db)) (Lookup (Buf ov))"
    using commit [OF assms(1), of "(DB_begin ks db)\<lparr>tx_rw := ov\<rparr>"] ov b(4) by auto
  moreover have "overlay_map (view (db_store db)) (Lookup (Buf ov)) = overlay_view ov"
    using ov b(3) by (simp add: overlay_view_def)
  ultimately show ?thesis
    using None run assms(2,3) by (simp add: Conn_dml_def tx_for_def)
qed (use assms in \<open>simp add: Conn_dml_def tx_for_def\<close>)

end

text \<open>The in-memory store in the place of keelstore.\<close>

definition memory_keel :: "Memory keelstore" where
  "memory_keel =
     \<lparr>ks_Get = (\<lambda>s key. case Memory_Get s key of Inl e \<Rightarrow> Inl KeelNotFound | Inr v \<Rightarrow> Inr v),
      ks_Iterate = (\<lambda>s lo hi. (fst (Memory_Scan s lo hi), None)),
      ks_Put = (\<lambda>s key value. (None, snd (Memory_Put s key value))),
      ks_Delete = (\<lambda>s key. (None, snd (Memory_Delete s key)))\<rparr>"

lemma memory_keel_rw: "Store_rw memory_keel = Memory_rw"
proof -
  have "translate (case Memory_Get s key of Inl e \<Rightarrow> Inl KeelNotFound | Inr v \<Rightarrow> Inr v) = Memory_Get s key" for s key
    by (simp add: translate_def Memory_Get_def split: option.split)
  moreover have "(fst (Memory_Scan s lo hi), None) = Memory_Scan s lo hi" for s lo hi
    by (simp add: Memory_Scan_def Let_def)
  ultimately show ?thesis
    by (simp add: Store_rw_def Store_reader_def memory_keel_def Memory_rw_def Memory_reader_def Memory_Put_def
        Memory_Delete_def fun_eq_iff)
qed

interpretation memory_db: keel memory_keel memory_view memory_inv
  unfolding keel_def memory_keel_rw by (rule memory.read_writer_axioms)

section \<open>What a statement leaves of transactions\<close>

definition tx_ok :: "Tx \<Rightarrow> bool" where
  "tx_ok tx \<longleftrightarrow> \<not> tx_done tx \<and> overlay_inv (tx_rw tx)"

definition conn_ok :: "Conn \<Rightarrow> bool" where
  "conn_ok c \<longleftrightarrow> (\<forall>tx. conn_tx c = Some tx \<longrightarrow> tx_ok tx)"

text \<open>The store as a transaction's snapshot shows it.\<close>

definition snapshot :: "Tx \<Rightarrow> bytes \<rightharpoonup> bytes" where
  "snapshot tx = reader_view (Base (tx_rw tx))"

context keel begin

lemma ddl_keeps: "apply_ddl ks js p db = (err, db') \<Longrightarrow> inv (db_store db) \<Longrightarrow> inv (db_store db')"
  by (cases p)
    (auto simp: apply_ddl_def ddl_createTable_def ddl_dropTable_def ddl_createIndex_def ddl_dropIndex_def
      split: if_splits sum.splits option.splits prod.splits catalog_error.splits
      dest: store.Create_keeps store.Drop_keeps store.AddIndex_keeps store.RemoveIndex_keeps store.DropTableData_keeps
        store.BuildIndex_keeps store.DropIndexEntries_keeps)

lemma Conn_ddl_keeps: "Conn_ddl ks js stmt db c = (r, db') \<Longrightarrow> inv (db_store db) \<Longrightarrow> inv (db_store db')"
  by (auto simp: Conn_ddl_def dest: ddl_keeps split: if_splits sum.splits option.splits prod.splits)

lemma dml_keeps:
  assumes "inv (db_store db)" and "conn_ok c" and "Conn_dml ks stmt db c = Some (r, db', c')"
  shows "inv (db_store db')" and "conn_ok c'"
    and "conn_tx c' = Some tx' \<Longrightarrow> \<exists>tx. conn_tx c = Some tx \<and> snapshot tx' = snapshot tx"
proof (atomize (full), cases "Planner_Plan (db_cat db) stmt")
  case (Inl e)
  then show "inv (db_store db') \<and> conn_ok c' \<and>
      (conn_tx c' = Some tx' \<longrightarrow> (\<exists>tx. conn_tx c = Some tx \<and> snapshot tx' = snapshot tx))"
    using assms by (auto simp: Conn_dml_def)
next
  case (Inr p)
  show "inv (db_store db') \<and> conn_ok c' \<and>
      (conn_tx c' = Some tx' \<longrightarrow> (\<exists>tx. conn_tx c = Some tx \<and> snapshot tx' = snapshot tx))"
  proof (cases "conn_tx c")
    case None
    obtain n err ov where "RunDML Overlay_rw p (tx_rw (DB_begin ks db)) = Some (n, err, ov)"
      using RunDML_returns [of Overlay_rw p "tx_rw (DB_begin ks db)"] by blast
    from statement [OF assms(1) None Inr this] assms None show ?thesis
      by (auto split: option.splits)
  next
    case (Some tx)
    obtain n err ov where run: "RunDML Overlay_rw p (tx_rw tx) = Some (n, err, ov)"
      using RunDML_returns [of Overlay_rw p "tx_rw tx"] by blast
    have "overlay_inv ov \<and> Base ov = Base (tx_rw tx)"
      using based.RunDML_keeps [OF run, of "Base (tx_rw tx)"] assms(2) Some by (simp add: conn_ok_def tx_ok_def)
    then show ?thesis
      using assms Inr Some run
      by (auto simp: Conn_dml_def tx_for_def conn_ok_def tx_ok_def snapshot_def Let_def split: option.splits)
  qed
qed

lemma run_keeps:
  assumes "inv (db_store db)" and "conn_ok c" and "Conn_run ks js stmt db c = Some (r, db', c')"
  shows "inv (db_store db') \<and> conn_ok c' \<and> (\<forall>tx'. conn_tx c' = Some tx' \<longrightarrow>
    snapshot tx' = view (db_store db) \<or> (\<exists>tx. conn_tx c = Some tx \<and> snapshot tx' = snapshot tx))"
proof -
  have begin_ok: "tx_ok (DB_begin ks db)" "snapshot (DB_begin ks db) = view (db_store db)"
    using begin_overlay [OF assms(1)] by (simp_all add: tx_ok_def snapshot_def)
  have commit_ok: "inv (db_store d)" if "Tx_Commit ks tx db = (e, tx', d)" "conn_tx c = Some tx" for tx e tx' d
    using commit [OF assms(1), of tx] assms(2) that by (auto simp: conn_ok_def tx_ok_def)
  show ?thesis
    using assms begin_ok commit_ok dml_keeps [OF assms(1,2)] Conn_ddl_keeps
    by (cases stmt) (auto simp: Conn_run_def conn_ok_def split: if_splits option.splits prod.splits)
qed

end

text \<open>A database and a transaction on it for the witnesses: one key overwritten, one deleted.\<close>

definition sample_db :: "Memory DB" where
  "sample_db = \<lparr>db_store = sample_memory, db_cat = sample_catalog\<rparr>"

definition sample_tx :: Tx where
  "sample_tx = (DB_begin memory_keel sample_db)\<lparr>tx_rw := snd (Overlay_Delete (snd (Overlay_Put
     (tx_rw (DB_begin memory_keel sample_db)) [1] [11])) [2])\<rparr>"

lemma sample_tx_ok: "tx_ok sample_tx"
proof -
  have b: "overlay_inv (tx_rw (DB_begin memory_keel sample_db))" "\<not> tx_done (DB_begin memory_keel sample_db)"
    using memory_db.begin_overlay [of sample_db] by (simp_all add: sample_db_def sample_memory_inv)
  show ?thesis
    using based.put_keeps [OF surjective_pairing, of "tx_rw (DB_begin memory_keel sample_db)"]
      based.delete_keeps [OF surjective_pairing] b
    by (simp add: tx_ok_def sample_tx_def Overlay_rw_def)
qed

section \<open>Properties\<close>

text \<open>C10: Isolation: a statement run inside a transaction, COMMIT apart, changes nothing of the database, and
  what it answers and leaves buffered does not depend on the store: with the same catalog it is the
  same whatever other sessions have written since the transaction began.\<close>

theorem transaction_isolated:
  assumes "InTx c" and "stmt \<noteq> CommitStmt" and "Conn_run ks js stmt db c = Some (r, db', c')"
  shows "db' = db \<and> (db_cat db2 = db_cat db \<longrightarrow> Conn_run ks js stmt db2 c = Some (r, db2, c'))"
  using assms dml_isolated [OF assms(1), of db2 db ks stmt r db' c'] dml_isolated [OF assms(1), of db db ks stmt r db' c']
    query_isolated [OF assms(1), of db2 db ks]
  by (cases stmt)
    (auto simp: Conn_run_def Conn_ddl_def selectRows_def Conn_explain_def InTx_def split: option.splits prod.splits)

lemma transaction_isolated_witness:
  "let db = sample_db; db2 = db\<lparr>db_store := NewMemory\<rparr>; c = \<lparr>conn_tx = Some sample_tx\<rparr>; stmt = DeleteStmt ''users'' None
   in \<exists>r c'. Conn_run memory_keel sample_json stmt db c = Some (r, db, c') \<and>
     Conn_run memory_keel sample_json stmt db2 c = Some (r, db2, c')"
proof -
  obtain r db' c' where "Conn_run memory_keel sample_json (DeleteStmt ''users'' None) sample_db
      \<lparr>conn_tx = Some sample_tx\<rparr> = Some (r, db', c')"
    using Conn_run_returns by blast
  from transaction_isolated [OF _ _ this, of "sample_db\<lparr>db_store := NewMemory\<rparr>"] this
  show ?thesis by (simp add: InTx_def Let_def)
qed

text \<open>C9: Commit: it does not fail, it finishes the transaction, and it changes the store exactly at the buffered
  keys, to the buffered values, last writer winning over what others committed since; when nobody has,
  the store becomes what the transaction saw.\<close>

theorem commit_publishes:
  assumes "keel ks view good" and "good (db_store db)" and "tx_ok tx"
  shows "\<exists>tx' db'. Tx_Commit ks tx db = (None, tx', db') \<and> Tx_Commit ks tx' db' = (Some TransactionFinished, tx', db') \<and>
    db_cat db' = db_cat db \<and> good (db_store db') \<and>
    (\<forall>k. view (db_store db') k = (case Lookup (Buf (tx_rw tx)) k of
       None \<Rightarrow> view (db_store db) k | Some e \<Rightarrow> if e_Deleted e then None else Some (e_Value e))) \<and>
    (snapshot tx = view (db_store db) \<longrightarrow> view (db_store db') = overlay_view (tx_rw tx))"
proof -
  obtain tx' db' where c: "Tx_Commit ks tx db = (None, tx', db')" "tx_done tx'" "db_cat db' = db_cat db" "good (db_store db')"
    and v: "view (db_store db') = overlay_map (view (db_store db)) (Lookup (Buf (tx_rw tx)))"
    using keel.commit [OF assms(1,2)] assms(3) unfolding tx_ok_def by blast
  have "Tx_Commit ks tx' db' = (Some TransactionFinished, tx', db')" using c(2) by (simp add: Tx_Commit_def)
  then show ?thesis using c v by (simp add: overlay_map_def overlay_view_def snapshot_def)
qed

lemma commit_publishes_witness:
  "let db = sample_db; tx = sample_tx
   in \<exists>tx' db'. Tx_Commit memory_keel tx db = (None, tx', db') \<and> Tx_Commit memory_keel tx' db' = (Some TransactionFinished, tx', db') \<and>
    db_cat db' = db_cat db \<and> memory_inv (db_store db') \<and>
    (\<forall>k. memory_view (db_store db') k = (case Lookup (Buf (tx_rw tx)) k of
       None \<Rightarrow> memory_view (db_store db) k | Some e \<Rightarrow> if e_Deleted e then None else Some (e_Value e))) \<and>
    (snapshot tx = memory_view (db_store db) \<longrightarrow> memory_view (db_store db') = overlay_view (tx_rw tx))"
  unfolding Let_def
  by (rule commit_publishes [OF memory_db.keel_axioms]) (simp_all add: sample_db_def sample_memory_inv sample_tx_ok)

text \<open>C8: Outside a transaction INSERT, UPDATE and DELETE are all or nothing: either the statement reports an
  error and the database is the one before it, or its whole effect on a transaction over the current
  store is what the store becomes.\<close>

theorem statement_atomic:
  assumes "keel ks view good" and "good (db_store db)" and "\<not> InTx c"
    and "stmt = InsertStmt table cols rows \<or> stmt = UpdateStmt table sets w \<or> stmt = DeleteStmt table w"
  shows "\<exists>r db'. Conn_run ks js stmt db c = Some (r, db', c) \<and> good (db_store db') \<and> db_cat db' = db_cat db \<and>
    (case r of
       Inl e \<Rightarrow> db' = db
     | Inr res \<Rightarrow> \<exists>p ov. Planner_Plan (db_cat db) stmt = Inr p \<and>
         RunDML Overlay_rw p (tx_rw (DB_begin ks db)) = Some (r_Affected res, None, ov) \<and>
         view (db_store db') = overlay_view ov)"
proof -
  have run: "Conn_run ks js stmt db c = Conn_dml ks stmt db c" using assms(4) by (auto simp: Conn_run_def)
  have none: "conn_tx c = None" using assms(3) by (simp add: InTx_def)
  show ?thesis
  proof (cases "Planner_Plan (db_cat db) stmt")
    case (Inl e)
    then show ?thesis unfolding run using assms(2) by (simp add: Conn_dml_def)
  next
    case (Inr p)
    obtain n err ov where "RunDML Overlay_rw p (tx_rw (DB_begin ks db)) = Some (n, err, ov)"
      using RunDML_returns [of Overlay_rw p "tx_rw (DB_begin ks db)"] by blast
    from keel.statement [OF assms(1,2) none Inr this] this Inr show ?thesis
      unfolding run using assms(2) by (cases err) (auto simp: tagged_def)
  qed
qed

lemma statement_atomic_witness:
  "let db = sample_db; c = DB_Conn; stmt = DeleteStmt ''users'' None
   in \<exists>r db'. Conn_run memory_keel sample_json stmt db c = Some (r, db', c) \<and> memory_inv (db_store db') \<and> db_cat db' = db_cat db \<and>
    (case r of
       Inl e \<Rightarrow> db' = db
     | Inr res \<Rightarrow> \<exists>p ov. Planner_Plan (db_cat db) stmt = Inr p \<and>
         RunDML Overlay_rw p (tx_rw (DB_begin memory_keel db)) = Some (r_Affected res, None, ov) \<and>
         memory_view (db_store db') = overlay_view ov)"
  unfolding Let_def
  by (rule statement_atomic [OF memory_db.keel_axioms])
    (simp_all add: sample_db_def sample_memory_inv DB_Conn_def InTx_def)

end
