(* ===== verification/GroupBy.thy ===== *)
theory GroupBy
  imports Rows
begin

text \<open>
  GROUP BY: the aggregate operator emits one row per group, in the order of the encoded group
  values, made of the group's values and of the accumulators run over the group's rows; and what
  the accumulators compute.
\<close>

section \<open>Groups\<close>

definition members :: "(Row \<Rightarrow> Value list) \<Rightarrow> bytes \<Rightarrow> Row list \<Rightarrow> Row list" where
  "members gv k rs = filter (\<lambda>row. Key (gv row) = k) rs"

definition add_rows :: "aggNode \<Rightarrow> accumulator list \<Rightarrow> Row list \<Rightarrow> exec_error + accumulator list" where
  "add_rows node accs rs =
     fold_rows (\<lambda>accs row. add_calls (an_Calls node) accs (Some (an_Env node)) row) accs rs None"

lemma fold_rows_append:
  "fold_rows f s (xs @ ys) err =
     (case fold_rows f s xs None of Inl e \<Rightarrow> Inl e | Inr s' \<Rightarrow> fold_rows f s' ys err)"
  by (induction xs arbitrary: s) (auto split: sum.split)

lemma add_rows_append:
  "add_rows node accs (xs @ ys) =
     (case add_rows node accs xs of Inl e \<Rightarrow> Inl e | Inr accs' \<Rightarrow> add_rows node accs' ys)"
  by (auto simp: add_rows_def fold_rows_append split: sum.split)

lemma members_append [simp]: "members gv k (xs @ ys) = members gv k xs @ members gv k ys"
  by (simp add: members_def)

lemma members_empty: "members gv k rs = [] \<longleftrightarrow> k \<notin> (\<lambda>row. Key (gv row)) ` set rs"
  by (auto simp: members_def filter_empty_conv)

text \<open>What the loop of \<open>load\<close> has built after the rows \<open>ps\<close>.\<close>

definition group_of :: "aggNode \<Rightarrow> (Row \<Rightarrow> Value list) \<Rightarrow> accumulator list \<Rightarrow> Row list \<Rightarrow> bytes \<Rightarrow> aggGroup \<Rightarrow> bool"
where
  "group_of node gv accs0 ps k g \<longleftrightarrow>
     ag_values g = gv (hd (members gv k ps)) \<and> add_rows node accs0 (members gv k ps) = Inr (ag_accs g)"

definition groups_inv :: "aggNode \<Rightarrow> (Row \<Rightarrow> Value list) \<Rightarrow> accumulator list \<Rightarrow> Row list \<Rightarrow> aggState \<Rightarrow> bool"
where
  "groups_inv node gv accs0 ps st \<longleftrightarrow>
     distinct (as_order st) \<and> set (as_order st) = (\<lambda>row. Key (gv row)) ` set ps \<and>
     dom (map_of (as_groups st)) = set (as_order st) \<and>
     (\<forall>k g. map_of (as_groups st) k = Some g \<longrightarrow> group_of node gv accs0 ps k g)"

lemma groups_inv_step:
  assumes inv: "groups_inv node gv accs0 ps st"
    and accs0: "newAccumulators (an_Calls node) = Inr accs0"
    and gv: "eval_all (an_GroupBy node) (Some (an_Env node)) row = Inr (gv row)"
    and ok: "add_rows node accs0 (members gv (Key (gv row)) (ps @ [row])) = Inr accs'"
  shows "\<exists>st'. agg_row node st row = Inr st' \<and> groups_inv node gv accs0 (ps @ [row]) st'"
proof -
  let ?k = "Key (gv row)"
  have single: "members gv k [row] = (if k = ?k then [row] else [])" for k
    by (auto simp: members_def)
  have others: "group_of node gv accs0 (ps @ [row]) k g \<longleftrightarrow> group_of node gv accs0 ps k g" if "k \<noteq> ?k" for k g
    using that by (simp add: group_of_def single)
  show ?thesis
  proof (cases "map_of (as_groups st) ?k")
    case None
    then have new: "?k \<notin> set (as_order st)" "members gv ?k ps = []"
      using inv by (auto simp: groups_inv_def members_empty)
    then have a: "add_calls (an_Calls node) accs0 (Some (an_Env node)) row = Inr accs'"
      using ok by (auto simp: single add_rows_def split: sum.splits)
    let ?st' = "\<lparr>as_groups = AList.update ?k \<lparr>ag_key = ?k, ag_values = gv row, ag_accs = accs'\<rparr>
        (AList.update ?k \<lparr>ag_key = ?k, ag_values = gv row, ag_accs = accs0\<rparr> (as_groups st)),
      as_order = as_order st @ [?k]\<rparr>"
    have "agg_row node st row = Inr ?st'"
      by (simp add: agg_row_def gv Let_def open_group_def None accs0 a)
    moreover have "group_of node gv accs0 (ps @ [row]) ?k \<lparr>ag_key = ?k, ag_values = gv row, ag_accs = accs'\<rparr>"
      using new ok by (simp add: group_of_def single)
    then have "groups_inv node gv accs0 (ps @ [row]) ?st'"
      using inv new others
      by (auto simp: groups_inv_def update_conv' split: if_splits)
    ultimately show ?thesis by blast
  next
    case (Some g)
    then have old: "?k \<in> set (as_order st)" "members gv ?k ps \<noteq> []" and g: "group_of node gv accs0 ps ?k g"
      using inv by (auto simp: groups_inv_def members_empty)
    then have a: "add_calls (an_Calls node) (ag_accs g) (Some (an_Env node)) row = Inr accs'"
      using ok by (auto simp: single add_rows_append group_of_def) (auto simp: add_rows_def split: sum.splits)
    let ?st' = "st\<lparr>as_groups := AList.update ?k (g\<lparr>ag_accs := accs'\<rparr>) (as_groups st)\<rparr>"
    have "agg_row node st row = Inr ?st'"
      by (simp add: agg_row_def gv Let_def open_group_def Some a)
    moreover have "group_of node gv accs0 (ps @ [row]) ?k (g\<lparr>ag_accs := accs'\<rparr>)"
      using old(2) g ok by (simp add: group_of_def single)
    then have "groups_inv node gv accs0 (ps @ [row]) ?st'"
      using inv old others
      by (auto simp: groups_inv_def update_conv' split: if_splits)
    ultimately show ?thesis by blast
  qed
qed

lemma fold_groups:
  assumes accs0: "newAccumulators (an_Calls node) = Inr accs0"
    and "groups_inv node gv accs0 ps st"
    and "\<And>row. row \<in> set rs \<Longrightarrow> eval_all (an_GroupBy node) (Some (an_Env node)) row = Inr (gv row)"
    and "\<And>k. k \<in> (\<lambda>row. Key (gv row)) ` set rs \<Longrightarrow> add_rows node accs0 (members gv k (ps @ rs)) = Inr (fin k)"
  shows "\<exists>st'. fold_rows (agg_row node) st rs None = Inr st' \<and> groups_inv node gv accs0 (ps @ rs) st'"
  using assms(2-)
proof (induction rs arbitrary: ps st)
  case (Cons row rs)
  have "add_rows node accs0 (members gv (Key (gv row)) ((ps @ [row]) @ rs)) = Inr (fin (Key (gv row)))"
    using Cons.prems(3) [of "Key (gv row)"] by simp
  then obtain accs' where "add_rows node accs0 (members gv (Key (gv row)) (ps @ [row])) = Inr accs'"
    unfolding members_append [of gv _ "ps @ [row]"] add_rows_append [of node accs0 "members gv _ (ps @ [row])"]
    by (auto split: sum.splits)
  then obtain st' where st': "agg_row node st row = Inr st'" "groups_inv node gv accs0 (ps @ [row]) st'"
    using groups_inv_step [OF Cons.prems(1) accs0, of row accs'] Cons.prems(2) by auto
  have "\<exists>st''. fold_rows (agg_row node) st' rs None = Inr st'' \<and> groups_inv node gv accs0 ((ps @ [row]) @ rs) st''"
    by (rule Cons.IH [OF st'(2)]) (use Cons.prems in auto)
  then show ?case using st'(1) by simp
qed simp

lemma sort_slice_set:
  fixes xs :: "'k::linorder list"
  assumes "distinct xs"
  shows "sort_slice (<) xs = sorted_list_of_set (set xs)"
proof -
  have "sorted (sort_slice (<) xs)"
    using key_sort.sorted_sort [of "\<lambda>x. x" xs] sorted_by_key [of "\<lambda>x. x" "sort_slice (<) xs"] by simp
  moreover have "distinct (sort_slice (<) xs)"
    using assms by (metis mset_eq_imp_distinct_iff mset_sort_slice)
  ultimately show ?thesis by (metis set_sort_slice sorted_list_of_set.idem_if_sorted_distinct)
qed

section \<open>The accumulators\<close>

fun acc_all :: "accumulator \<Rightarrow> Value list \<Rightarrow> exec_error + accumulator" where
  "acc_all acc [] = Inr acc"
| "acc_all acc (v # vs) = (case acc_add acc v of Inl e \<Rightarrow> Inl e | Inr acc' \<Rightarrow> acc_all acc' vs)"

definition aggregate_of :: "string \<Rightarrow> Expr option \<Rightarrow> Value list \<Rightarrow> exec_error + Value" where
  "aggregate_of f arg vs =
     (case newAccumulator \<lparr>ac_Func = f, ac_Arg = arg, ac_Text = ''''\<rparr> of
        Inl e \<Rightarrow> Inl e
      | Inr acc \<Rightarrow> (case acc_all acc vs of Inl e \<Rightarrow> Inl e | Inr acc' \<Rightarrow> Inr (acc_result acc')))"

abbreviation present :: "Value list \<Rightarrow> Value list" where
  "present vs \<equiv> filter (\<lambda>v. v \<noteq> VNull) vs"

lemma acc_all_count:
  "acc_all (CountAcc all n) vs = Inr (CountAcc all (n + of_nat (length (if all then vs else present vs))))"
  by (induction vs arbitrary: n) (simp_all add: countAcc_add_def)

lemma acc_all_append:
  "acc_all acc (us @ vs) = (case acc_all acc us of Inl e \<Rightarrow> Inl e | Inr acc' \<Rightarrow> acc_all acc' vs)"
  by (induction us arbitrary: acc) (simp_all split: sum.split)

text \<open>SUM and AVG pass over NULL.\<close>

lemma acc_all_present:
  "acc_all (SumAcc tot any) vs = acc_all (SumAcc tot any) (present vs)"
  "acc_all (AvgAcc ftot n) vs = acc_all (AvgAcc ftot n) (present vs)"
  by (induction vs arbitrary: tot any ftot n)
    (auto simp: sumAcc_add_def avgAcc_add_def split: sum.split prod.split)

text \<open>The total of integers is an integer; with the first float it becomes one and stays one.\<close>

lemma acc_all_sum_ints: "acc_all (SumAcc (VInt n) True) (map VInt is) = Inr (SumAcc (VInt (n + sum_list is)) True)"
  by (induction "is" arbitrary: n) (simp_all add: sumAcc_add_def Add_def arith_op_def checkNumeric_def add.assoc)

lemma acc_all_sum_start:
  "acc_all (SumAcc VNull False) (map VInt is) =
     Inr (if is = [] then SumAcc VNull False else SumAcc (VInt (sum_list is)) True)"
  by (cases "is") (simp_all add: sumAcc_add_def acc_all_sum_ints)

lemma acc_all_sum_floats:
  "\<forall>w \<in> set ws. IsNumeric w \<Longrightarrow>
     acc_all (SumAcc (VFloat t) True) ws = Inr (SumAcc (VFloat (foldl (\<lambda>t w. f_add t (AsFloat w)) t ws)) True)"
proof (induction ws arbitrary: t)
  case (Cons w ws)
  then show ?case
    by (cases w) (simp_all add: sumAcc_add_def Add_def arith_op_def checkNumeric_def)
qed simp

lemma acc_all_sum_mixed:
  assumes "\<forall>w \<in> set ws. IsNumeric w"
  shows "acc_all (SumAcc VNull False) (map VInt is @ VFloat f # ws) =
    Inr (SumAcc (VFloat (foldl (\<lambda>t w. f_add t (AsFloat w)) (if is = [] then f else f_add (f_of_int64 (sum_list is)) f) ws)) True)"
  using acc_all_sum_floats [OF assms]
  by (simp add: acc_all_append acc_all_sum_start sumAcc_add_def Add_def arith_op_def checkNumeric_def)

text \<open>Numbers never stop SUM or AVG, and the first value that is none does.\<close>

lemma numeric_sum:
  "\<forall>w \<in> set ws. IsNumeric w \<Longrightarrow> \<not> any \<or> IsNumeric tot \<Longrightarrow>
     \<exists>tot' any'. acc_all (SumAcc tot any) ws = Inr (SumAcc tot' any') \<and> (\<not> any' \<or> IsNumeric tot')"
proof (induction ws arbitrary: tot any)
  case (Cons w ws)
  then show ?case
    by (cases w; cases tot; cases any) (simp_all add: sumAcc_add_def Add_def arith_op_def checkNumeric_def)
qed simp

lemma numeric_avg: "\<forall>w \<in> set ws. IsNumeric w \<Longrightarrow> \<exists>tot' n'. acc_all (AvgAcc tot n) ws = Inr (AvgAcc tot' n')"
proof (induction ws arbitrary: tot n)
  case (Cons w ws)
  then show ?case by (cases w) (simp_all add: avgAcc_add_def)
qed simp

lemma acc_all_avg:
  "\<forall>v \<in> set (present vs). IsNumeric v \<Longrightarrow>
     acc_all (AvgAcc tot n) vs =
       Inr (AvgAcc (foldl (\<lambda>t v. f_add t (AsFloat v)) tot (present vs)) (n + of_nat (length (present vs))))"
  by (induction vs arbitrary: tot n) (simp_all add: avgAcc_add_def)

text \<open>MIN and MAX: nothing seen is better than the value kept.\<close>

definition better :: "int \<Rightarrow> Value \<Rightarrow> Value \<Rightarrow> bool" where
  "better want v w \<longleftrightarrow> want < 0 \<and> Order v w < 0 \<or> want > 0 \<and> Order v w > 0"

definition extreme_inv :: "int \<Rightarrow> Value list \<Rightarrow> Value \<Rightarrow> bool \<Rightarrow> bool" where
  "extreme_inv want seen best found \<longleftrightarrow>
     (if found then best \<in> set (present seen) \<and> (\<forall>v \<in> set (present seen). \<not> better want v best)
      else present seen = [])"

lemma better_trans: "\<not> better want u v \<Longrightarrow> better want w v \<Longrightarrow> \<not> better want u w"
  by (auto simp: better_def Order_rank cmp3_def split: if_splits)

lemma extreme_step:
  assumes "extreme_inv want seen best found"
  shows "case extremeAcc_add want best found v of (b, f) \<Rightarrow> extreme_inv want (seen @ [v]) b f"
proof (cases "v = VNull \<or> \<not> found")
  case True
  then show ?thesis using assms
    by (auto simp: extremeAcc_add_def extreme_inv_def better_def)
next
  case False
  then show ?thesis
    using assms better_trans [of want _ best v]
    by (auto simp: extremeAcc_add_def extreme_inv_def Let_def better_def [of want v] better_def [of want best])
qed

lemma acc_all_extreme:
  assumes "extreme_inv want seen best found"
  shows "\<exists>b f. acc_all (ExtremeAcc want best found) vs = Inr (ExtremeAcc want b f) \<and>
    extreme_inv want (seen @ vs) b f"
  using assms
proof (induction vs arbitrary: seen best found)
  case (Cons v vs)
  obtain b f where e: "extremeAcc_add want best found v = (b, f)" by fastforce
  then have "extreme_inv want (seen @ [v]) b f" using extreme_step [OF Cons.prems, of v] by simp
  from Cons.IH [OF this] show ?case by (simp add: e)
qed auto

section \<open>Properties\<close>

text \<open>Grouping hands out exactly one row per distinct tuple of group values, in the order of
  those values' encodings: the values, then every aggregate run over the rows of that group and no
  others, in their order of arrival.  Without GROUP BY there is one row even over no input.\<close>

theorem GROUP_BY_groups:
  assumes "rows_of rd input = (rs, None)" and "newAccumulators (an_Calls node) = Inr accs0"
    and "\<And>row. row \<in> set rs \<Longrightarrow> eval_all (an_GroupBy node) (Some (an_Env node)) row = Inr (gv row)"
    and "\<And>k. k \<in> (\<lambda>row. Key (gv row)) ` set rs \<Longrightarrow> add_rows node accs0 (members gv k rs) = Inr (fin k)"
  shows "rows_of rd (OpAggregate input node [] 0 False) =
    (if an_GroupBy node = [] \<and> rs = [] then [map acc_result accs0]
     else map (\<lambda>k. gv (hd (members gv k rs)) @ map acc_result (fin k))
       (sorted_list_of_set ((\<lambda>row. Key (gv row)) ` set rs)), None)"
proof -
  have "groups_inv node gv accs0 [] agg_empty" by (simp add: groups_inv_def agg_empty_def)
  from fold_groups [OF assms(2) this assms(3), of rs fin] assms(4)
  obtain st where st: "fold_rows (agg_row node) agg_empty rs None = Inr st"
    and inv: "groups_inv node gv accs0 rs st" by auto
  have empty: "as_groups st = [] \<longleftrightarrow> rs = []"
    using inv by (auto simp: groups_inv_def dom_map_of_conv_image_fst)
  have keys: "set (as_order st) = (\<lambda>row. Key (gv row)) ` set rs" and "distinct (as_order st)"
    and dom: "dom (map_of (as_groups st)) = set (as_order st)"
    using inv by (simp_all add: groups_inv_def)
  have "(case map_of (as_groups st) k of None \<Rightarrow> [] | Some g \<Rightarrow> group_row g) =
      gv (hd (members gv k rs)) @ map acc_result (fin k)" if "k \<in> set (as_order st)" for k
  proof -
    have "k \<in> dom (map_of (as_groups st))" using that by (simp only: dom)
    then obtain g where g: "map_of (as_groups st) k = Some g" by blast
    then have "group_of node gv accs0 rs k g" using inv by (simp add: groups_inv_def)
    then show ?thesis using g assms(4) [of k] that keys by (auto simp: group_of_def group_row_def)
  qed
  then have rows: "map (\<lambda>k. case map_of (as_groups st) k of None \<Rightarrow> [] | Some g \<Rightarrow> group_row g)
      (sort_slice (<) (as_order st)) =
    map (\<lambda>k. gv (hd (members gv k rs)) @ map acc_result (fin k))
      (sorted_list_of_set ((\<lambda>row. Key (gv row)) ` set rs))"
    using keys sort_slice_set [OF \<open>distinct (as_order st)\<close>] by simp
  show ?thesis
    using rows by (simp add: assms(1,2) agg_rows_def st stored_rows_def agg_finish_def empty group_row_def)
qed

definition sample_node :: aggNode where
  "sample_node = \<lparr>an_GroupBy = [EColumn '''' ''a''],
     an_Calls = [\<lparr>ac_Func = ''COUNT'', ac_Arg = None, ac_Text = ''COUNT(*)''\<rparr>], an_Env = sample_env\<rparr>"

theorem GROUP_BY_groups_witness:
  "\<forall>rd t m it fin. rows_of rd (OpAggregate (OpLimit (OpSort (OpScan t m it fin) [] (- 1) NewEnv [[VInt 7], [VNull], [VInt 7]] 0 True)
      (- 1) 0 0 0) sample_node [] 0 False) =
     ([[VNull, VInt 1], [VInt 7, VInt 2]], None)"
proof (intro allI)
  fix rd t m it fin
  let ?rs = "[[VInt 7], [VNull], [VInt 7 :: Value]]" and ?gv = "\<lambda>row :: Row. [row ! 0]"
  let ?input = "OpLimit (OpSort (OpScan t m it fin) [] (- 1) NewEnv ?rs 0 True) (- 1) 0 0 0"
  have input: "rows_of rd ?input = (?rs, None)"
    by (simp add: limit_rows_def skip_left_def count_left_def sle_iff)
  have accs: "newAccumulators (an_Calls sample_node) = Inr [CountAcc True 0]"
    by (simp add: sample_node_def newAccumulator_def)
  have gv: "eval_all (an_GroupBy sample_node) (Some (an_Env sample_node)) row = Inr (?gv row)"
    if "row \<in> set ?rs" for row
    using that by (auto simp: sample_node_def sample_env_def plain_env_def eval_column_def row_at_def)
  have differ: "Key [VInt 7] \<noteq> Key [VNull]" "Key [VNull] < Key [VInt 7]"
    by (simp_all add: Key_def EncodeAll_append codec_simps)
  have fin: "add_rows sample_node [CountAcc True 0] (members ?gv k ?rs) =
      Inr [CountAcc True (if k = Key [VNull] then 1 else 2)]"
    if "k \<in> (\<lambda>row. Key (?gv row)) ` set ?rs" for k
    using that differ
    by (auto simp: members_def add_rows_def sample_node_def call_arg_def countAcc_add_def)
  have "sorted_list_of_set {Key [VInt 7], Key [VNull]} = [Key [VNull], Key [VInt 7]]"
    using differ by (simp add: insert_commute)
  then show "rows_of rd (OpAggregate ?input sample_node [] 0 False) = ([[VNull, VInt 1], [VInt 7, VInt 2]], None)"
    using GROUP_BY_groups [OF input accs gv fin] differ
    by (simp add: sample_node_def members_def insert_commute)
qed

lemma aggregate_results:
  "aggregate_of ''COUNT'' None vs = Inr (VInt (of_nat (length vs)))"
  "aggregate_of ''COUNT'' (Some e) vs = Inr (VInt (of_nat (length (present vs))))"
  "present vs = map VInt is \<Longrightarrow>
     aggregate_of ''SUM'' arg vs = Inr (if is = [] then VNull else VInt (sum_list is))"
  "present vs = map VInt is @ VFloat x # ws \<Longrightarrow> \<forall>w \<in> set ws. IsNumeric w \<Longrightarrow>
     aggregate_of ''SUM'' arg vs = Inr (VFloat (foldl (\<lambda>t w. f_add t (AsFloat w))
       (if is = [] then x else f_add (f_of_int64 (sum_list is)) x) ws))"
  "present vs = us @ v # ws \<Longrightarrow> \<forall>u \<in> set us. IsNumeric u \<Longrightarrow> \<not> IsNumeric v \<Longrightarrow> g = ''SUM'' \<or> g = ''AVG'' \<Longrightarrow>
     aggregate_of g arg vs = Inl (ExType (AggregateWantsNumbers g (Value_Kind v)))"
  "(\<forall>v \<in> set (present vs). IsNumeric v) \<Longrightarrow> length (present vs) < 2 ^ 63 \<Longrightarrow>
     aggregate_of ''AVG'' arg vs =
       Inr (if present vs = [] then VNull
            else VFloat (f_div (foldl (\<lambda>t v. f_add t (AsFloat v)) f_pos_zero (present vs))
              (f_of_int64 (of_nat (length (present vs))))))"
  "f = ''MIN'' \<and> want = - 1 \<or> f = ''MAX'' \<and> want = 1 \<Longrightarrow>
     \<exists>best. aggregate_of f arg vs = Inr best \<and>
       (if present vs = [] then best = VNull
        else best \<in> set (present vs) \<and> (\<forall>v \<in> set (present vs). \<not> better want v best))"
proof -
  show "aggregate_of ''COUNT'' None vs = Inr (VInt (of_nat (length vs)))"
    and "aggregate_of ''COUNT'' (Some e) vs = Inr (VInt (of_nat (length (present vs))))"
    by (simp_all add: aggregate_of_def newAccumulator_def acc_all_count)
  show "present vs = map VInt is \<Longrightarrow>
     aggregate_of ''SUM'' arg vs = Inr (if is = [] then VNull else VInt (sum_list is))"
    by (simp add: aggregate_of_def newAccumulator_def acc_all_present(1) [of _ _ vs] acc_all_sum_start)
  show "present vs = map VInt is @ VFloat x # ws \<Longrightarrow> \<forall>w \<in> set ws. IsNumeric w \<Longrightarrow>
     aggregate_of ''SUM'' arg vs = Inr (VFloat (foldl (\<lambda>t w. f_add t (AsFloat w))
       (if is = [] then x else f_add (f_of_int64 (sum_list is)) x) ws))"
    by (simp add: aggregate_of_def newAccumulator_def acc_all_present(1) [of _ _ vs] acc_all_sum_mixed)
  show "aggregate_of g arg vs = Inl (ExType (AggregateWantsNumbers g (Value_Kind v)))"
    if vs: "present vs = us @ v # ws" and us: "\<forall>u \<in> set us. IsNumeric u" and v: "\<not> IsNumeric v" and "g = ''SUM'' \<or> g = ''AVG''"
  proof -
    have "v \<in> set (present vs)" unfolding vs by simp
    then have null: "\<not> IsNull v" by (simp add: IsNull_iff)
    show ?thesis
      using that(4)
    proof
      assume g: "g = ''SUM''"
      obtain t b where "acc_all (SumAcc VNull False) us = Inr (SumAcc t b)" using numeric_sum [OF us] by blast
      then show ?thesis
        using v null by (simp add: g aggregate_of_def newAccumulator_def acc_all_present(1) [of _ _ vs] vs acc_all_append sumAcc_add_def)
    next
      assume g: "g = ''AVG''"
      obtain t n where "acc_all (AvgAcc f_pos_zero 0) us = Inr (AvgAcc t n)" using numeric_avg [OF us] by blast
      then show ?thesis
        using v null by (simp add: g aggregate_of_def newAccumulator_def acc_all_present(2) [of _ _ vs] vs acc_all_append avgAcc_add_def)
    qed
  qed
  show "aggregate_of ''AVG'' arg vs =
       Inr (if present vs = [] then VNull
            else VFloat (f_div (foldl (\<lambda>t v. f_add t (AsFloat v)) f_pos_zero (present vs))
              (f_of_int64 (of_nat (length (present vs))))))"
    if "\<forall>v \<in> set (present vs). IsNumeric v" and len: "length (present vs) < 2 ^ 63"
  proof -
    have "(of_nat (length (present vs)) :: int64) = 0 \<longleftrightarrow> present vs = []"
      using len by (auto simp: word_of_nat_eq_0_iff dest: dvd_imp_le)
    then show ?thesis
      using that(1) by (simp add: aggregate_of_def newAccumulator_def acc_all_avg)
  qed
  have start: "extreme_inv w [] VNull False" for w by (simp add: extreme_inv_def)
  show "\<exists>best. aggregate_of f arg vs = Inr best \<and>
       (if present vs = [] then best = VNull
        else best \<in> set (present vs) \<and> (\<forall>v \<in> set (present vs). \<not> better want v best))"
    if "f = ''MIN'' \<and> want = - 1 \<or> f = ''MAX'' \<and> want = 1"
  proof -
    obtain b g where a: "acc_all (ExtremeAcc want VNull False) vs = Inr (ExtremeAcc want b g)"
      and inv: "extreme_inv want vs b g"
      using acc_all_extreme [OF start [of want], of vs] by auto
    have "aggregate_of f arg vs = Inr (if g then b else VNull)"
      using that a by (auto simp: aggregate_of_def newAccumulator_def)
    moreover have "g \<longleftrightarrow> present vs \<noteq> []" using inv by (cases g) (auto simp: extreme_inv_def filter_empty_conv)
    ultimately show ?thesis using inv by (auto simp: extreme_inv_def)
  qed
qed

text \<open>C31: What the aggregates compute from the values of a group, NULLs left out: COUNT(*) the rows, COUNT(x) the
  values (modulo \<open>2 ^ 64\<close>); SUM of integers their sum modulo \<open>2 ^ 64\<close>, and when there is a float among the numbers, the
  float sum, left to right, of the integers before the first float, that float and what follows; AVG the
  floating-point sum over the count; SUM and AVG a type error at the first value that is no number; MIN and MAX a value that none is
  better than; and NULL for all but COUNT when there is no value.\<close>

theorem aggregates_compute:
  "aggregate_of ''COUNT'' None vs = Inr (VInt (of_nat (length vs))) \<and>
   aggregate_of ''COUNT'' (Some e) vs = Inr (VInt (of_nat (length (present vs)))) \<and>
   (present vs = map VInt is \<longrightarrow>
      aggregate_of ''SUM'' arg vs = Inr (if is = [] then VNull else VInt (sum_list is))) \<and>
   (present vs = map VInt is @ VFloat x # ws \<and> (\<forall>w \<in> set ws. IsNumeric w) \<longrightarrow>
      aggregate_of ''SUM'' arg vs = Inr (VFloat (foldl (\<lambda>t w. f_add t (AsFloat w))
        (if is = [] then x else f_add (f_of_int64 (sum_list is)) x) ws))) \<and>
   (present vs = us @ v # ws \<and> (\<forall>u \<in> set us. IsNumeric u) \<and> \<not> IsNumeric v \<and> (g = ''SUM'' \<or> g = ''AVG'') \<longrightarrow>
      aggregate_of g arg vs = Inl (ExType (AggregateWantsNumbers g (Value_Kind v)))) \<and>
   ((\<forall>v \<in> set (present vs). IsNumeric v) \<and> length (present vs) < 2 ^ 63 \<longrightarrow>
      aggregate_of ''AVG'' arg vs =
        Inr (if present vs = [] then VNull
             else VFloat (f_div (foldl (\<lambda>t v. f_add t (AsFloat v)) f_pos_zero (present vs))
               (f_of_int64 (of_nat (length (present vs))))))) \<and>
   (f = ''MIN'' \<and> want = - 1 \<or> f = ''MAX'' \<and> want = 1 \<longrightarrow>
      (\<exists>best. aggregate_of f arg vs = Inr best \<and>
        (if present vs = [] then best = VNull
         else best \<in> set (present vs) \<and> (\<forall>v \<in> set (present vs). \<not> better want v best))))"
  by (intro conjI impI; (elim conjE)?; (rule aggregate_results; assumption | rule aggregate_results))

theorem aggregates_compute_witness:
  "aggregate_of ''SUM'' None [VInt 2, VNull, VInt 3] = Inr (VInt 5) \<and>
   aggregate_of ''SUM'' None [VInt 2, VInt 5, VNull, VFloat f_nan, VInt 3] =
     Inr (VFloat (f_add (f_add (f_of_int64 7) f_nan) (f_of_int64 3))) \<and>
   aggregate_of ''AVG'' None [VInt 2, VNull, VText ''x''] = Inl (ExType (AggregateWantsNumbers ''AVG'' KindText))"
  using aggregates_compute [of "[VInt 2, VNull, VInt 3]" EStar "[2, 3]" None]
    aggregates_compute [of "[VInt 2, VInt 5, VNull, VFloat f_nan, VInt 3]" EStar "[2, 5]" None f_nan "[VInt 3]"]
    aggregates_compute [of "[VInt 2, VNull, VText ''x'']" EStar "[]" None f_nan "[]" "[VInt 2]" "VText ''x''" "''AVG''"]
  by simp

end
