(* ===== verification/Grouped.thy ===== *)
theory Grouped
  imports Queries GroupBy
begin

text \<open>
  SELECT with aggregation from end to end: the tree \<open>groupedSelect\<close> builds, run on a store that holds
  the table, hands out one row per group of the rows that satisfy WHERE, sorted, evaluated and cut
  as the statement says.
\<close>

section \<open>The rows of a grouping\<close>

text \<open>What the rows \<open>rs\<close> are grouped into: the group values, then the aggregates over the group's rows.\<close>

definition group_rows :: "aggNode \<Rightarrow> (Row \<Rightarrow> Value list) \<Rightarrow> accumulator list \<Rightarrow> Row list \<Rightarrow> Row list" where
  "group_rows node gv accs0 rs =
     (if an_GroupBy node = [] \<and> rs = [] then [map acc_result accs0]
      else map (\<lambda>k. gv (hd (members gv k rs)) @ map acc_result (projr (add_rows node accs0 (members gv k rs))))
        (sorted_list_of_set ((\<lambda>row. Key (gv row)) ` set rs)))"

lemma members_map: "(\<And>row. row \<in> set rs \<Longrightarrow> gv (M row) = gv' row) \<Longrightarrow> members gv k (map M rs) = map M (members gv' k rs)"
  by (induction rs) (simp_all add: members_def)

lemma add_calls_covered:
  assumes "distinct (map c_Name (t_Columns t))" and "is_row t row" and "length msk = length (t_Columns t)"
    and "\<forall>call \<in> set calls. \<forall>e. ac_Arg call = Some e \<longrightarrow> covers t msk e"
  shows "add_calls calls accs (Some (TableEnv t)) (masked msk row) = add_calls calls accs (Some (TableEnv t)) row"
  using assms(4)
proof (induction calls arbitrary: accs)
  case (Cons call calls)
  have "call_arg call (Some (TableEnv t)) (masked msk row) = call_arg call (Some (TableEnv t)) row"
    using Cons.prems Eval_same_columns(1) covers_same_columns [OF assms(1-3)] by (simp add: call_arg_def split: option.split)
  then show ?case using Cons by (cases accs) (simp_all split: sum.split)
qed simp

lemma add_rows_map:
  "(\<And>accs row. row \<in> set rs \<Longrightarrow> add_calls (an_Calls node) accs (Some (an_Env node)) (M row) =
      add_calls (an_Calls node) accs (Some (an_Env node)) row) \<Longrightarrow>
    add_rows node accs (map M rs) = add_rows node accs rs"
  unfolding add_rows_def by (induction rs arbitrary: accs) (simp_all split: sum.split)

text \<open>The aggregate operator over rows seen through a mask.\<close>

lemma aggregate_masked:
  assumes op: "rows_of rd op = (map M rs, None)"
    and accs0: "newAccumulators (an_Calls node) = Inr accs0"
    and gv: "\<And>row. row \<in> set rs \<Longrightarrow> eval_all (an_GroupBy node) (Some (an_Env node)) (M row) = Inr (gv row)"
    and calls: "\<And>accs row. row \<in> set rs \<Longrightarrow> add_calls (an_Calls node) accs (Some (an_Env node)) (M row) =
      add_calls (an_Calls node) accs (Some (an_Env node)) row"
    and fin: "\<And>k. k \<in> (\<lambda>row. Key (gv row)) ` set rs \<Longrightarrow> \<exists>accs. add_rows node accs0 (members gv k rs) = Inr accs"
  shows "rows_of rd (OpAggregate op node [] 0 False) = (group_rows node gv accs0 rs, None)"
proof -
  define gv' where "gv' row = projr (eval_all (an_GroupBy node) (Some (an_Env node)) row)" for row
  have gv': "gv' (M row) = gv row" if "row \<in> set rs" for row using gv [OF that] by (simp add: gv'_def)
  have members: "members gv' k (map M rs) = map M (members gv k rs)" for k using gv' by (rule members_map)
  have sub: "set (members gv k rs) \<subseteq> set rs" for k by (auto simp: members_def)
  have add: "add_rows node accs0 (map M (members gv k rs)) = add_rows node accs0 (members gv k rs)" for k
    using calls sub by (intro add_rows_map) blast
  have keys: "(\<lambda>row. Key (gv' row)) ` set (map M rs) = (\<lambda>row. Key (gv row)) ` set rs"
    using gv' by (auto simp: image_image intro!: image_cong)
  have "rows_of rd (OpAggregate op node [] 0 False) =
    (if an_GroupBy node = [] \<and> map M rs = [] then [map acc_result accs0]
     else map (\<lambda>k. gv' (hd (members gv' k (map M rs))) @ map acc_result (projr (add_rows node accs0 (members gv k rs))))
       (sorted_list_of_set ((\<lambda>row. Key (gv' row)) ` set (map M rs))), None)"
  proof (rule GROUP_BY_groups [OF op accs0])
    show "eval_all (an_GroupBy node) (Some (an_Env node)) row = Inr (gv' row)" if "row \<in> set (map M rs)" for row
      using that gv by (auto simp: gv'_def)
    show "add_rows node accs0 (members gv' k (map M rs)) = Inr (projr (add_rows node accs0 (members gv k rs)))"
      if "k \<in> (\<lambda>row. Key (gv' row)) ` set (map M rs)" for k
      using fin [of k] that unfolding members add keys by auto
  qed
  moreover have "gv' (hd (members gv' k (map M rs))) = gv (hd (members gv k rs))" if "k \<in> (\<lambda>row. Key (gv row)) ` set rs" for k
  proof -
    have "members gv k rs \<noteq> []" using that by (simp add: members_empty)
    then show ?thesis using gv' sub [of k] by (simp add: members hd_map subset_iff)
  qed
  ultimately show ?thesis unfolding group_rows_def keys by (auto intro!: map_cong)
qed

section \<open>The plan of a grouped SELECT\<close>

definition call_args :: "AggCall list \<Rightarrow> Expr list" where
  "call_args calls = concat (map (\<lambda>c. case ac_Arg c of None \<Rightarrow> [] | Some a \<Rightarrow> [a]) calls)"

lemma call_args_covered:
  "\<forall>e \<in> set (call_args calls). P e \<Longrightarrow> \<forall>call \<in> set calls. \<forall>e. ac_Arg call = Some e \<longrightarrow> P e"
  by (force simp: call_args_def)

lemma sort_over_rows:
  assumes op: "Build node rd = Inr op" "rows_of rd op = (rs, None)"
    and kf: "\<And>row. row \<in> set rs \<Longrightarrow> eval_all (map sk_Expr keys) (Some env) row = Inr (kf row)"
    and lims: "0 \<le>s offset"
  obtains op' xs where "Build (sort_over keys cnt offset d env node) rd = Inr op'" and "rows_of rd op' = (xs, None)"
    and "set xs \<subseteq> set rs"
    and "\<And>f. limited cnt offset (if d then distinct_rows [] (map f xs) else map f xs) =
      limited cnt offset (if d then distinct_rows [] (map f (sort_slice (by_keys keys kf) rs))
        else map f (sort_slice (by_keys keys kf) rs))"
proof (cases "keys = []")
  case True
  have "sort_slice (by_keys keys kf) rs = rs"
    by (rule strict_weak.sort_id [OF strict_weak_by_keys]) (simp add: True sorted_by_wrt sorted_wrt_true)
  then show thesis using that [of op rs] op True by (simp add: sort_over_def)
next
  case False
  let ?b = "if 0 \<le>s cnt \<and> \<not> d then cnt + offset else - 1"
  let ?xs = "first_rows ?b (sort_slice (by_keys keys kf) rs)"
  have "rows_of rd (OpSort op keys ?b env [] 0 False) = (?xs, None)"
    using sorted_rows [of rd op "\<lambda>row. row" rs keys env kf ?b] op(2) kf by simp
  moreover have "limited cnt offset (if d then distinct_rows [] (map f ?xs) else map f ?xs) =
      limited cnt offset (if d then distinct_rows [] (map f (sort_slice (by_keys keys kf) rs))
        else map f (sort_slice (by_keys keys kf) rs))" for f
    using limited_first_rows [OF _ lims, of cnt f] by (auto simp: first_rows_def)
  moreover have "set ?xs \<subseteq> set rs" using set_first_rows [of ?b "sort_slice (by_keys keys kf) rs"] by simp
  ultimately show thesis
    using that [of "OpSort op keys ?b env [] 0 False" ?xs] op(1) False by (simp add: sort_over_def)
qed

text \<open>The names under which the answer is evaluated, and what the plan is made of.\<close>

abbreviation select_exprs :: "Select \<Rightarrow> Expr list" where
  "select_exprs s \<equiv> map (\<lambda>col. the (rc_Expr col)) (s_Columns s)"

abbreviation order_exprs :: "Select \<Rightarrow> Expr list" where
  "order_exprs s \<equiv> map ot_Expr (s_OrderBy s)"

definition grouping :: "Table \<Rightarrow> Select \<Rightarrow> Env \<Rightarrow> AggCall list \<Rightarrow> bool" where
  "grouping t s genv calls \<longleftrightarrow> \<not> (\<exists>col \<in> set (s_Columns s). rc_Star col) \<and>
     (\<exists>out0. group_env t 0 (s_GroupBy s) NewEnv = Inr out0 \<and>
        collect_calls t (length (s_GroupBy s)) (select_exprs s @ order_exprs s) out0 [] = Inr (genv, calls)) \<and>
     first_error (map (checkGrouped genv) (select_exprs s @ order_exprs s)) = None"

text \<open>The aggregate operator over the filtered access path, whose mask keeps the columns it needs.\<close>

definition group_mask :: "Table \<Rightarrow> Select \<Rightarrow> AggCall list \<Rightarrow> Expr option \<Rightarrow> bool list" where
  "group_mask t s calls w = markColumns t (call_args calls) (markColumns t (s_GroupBy s)
     (markColumns t (path_residual (choosePath t (splitConjuncts w)) (splitConjuncts w)) (newMask t)))"

definition group_plan :: "Table \<Rightarrow> Select \<Rightarrow> AggCall list \<Rightarrow> Env \<Rightarrow> Expr option \<Rightarrow> Plan" where
  "group_plan t s calls genv w =
     PAggregate (filter_over (path_residual (choosePath t (splitConjuncts w)) (splitConjuncts w)) (TableEnv t)
       (path_build (choosePath t (splitConjuncts w)) (group_mask t s calls w))) (s_GroupBy s) calls (TableEnv t) genv"

lemma grouped_scan:
  assumes h: "reads rd m" "table_holds t m R" and p: "plannable t R w" "no_slip t R w"
    and accs0: "newAccumulators calls = Inr accs0"
    and gv: "\<And>row. row \<in> ran R \<Longrightarrow> where_holds t w row \<Longrightarrow> eval_all (s_GroupBy s) (Some (TableEnv t)) row = Inr (gv row)"
    and node: "node = \<lparr>an_GroupBy = s_GroupBy s, an_Calls = calls, an_Env = TableEnv t\<rparr>"
    and fin: "\<And>rs k. distinct rs \<Longrightarrow> set rs = {row \<in> ran R. where_holds t w row} \<Longrightarrow>
      k \<in> (\<lambda>row. Key (gv row)) ` set rs \<Longrightarrow> \<exists>accs. add_rows node accs0 (members gv k rs) = Inr accs"
  obtains op rs where "Build (group_plan t s calls genv w) rd = Inr op" and "distinct rs"
    and "set rs = {row \<in> ran R. where_holds t w row}" and "rows_of rd op = (group_rows node gv accs0 rs, None)"
proof -
  let ?a = "choosePath t (splitConjuncts w)" and ?env = "TableEnv t"
  let ?rest = "path_residual ?a (splitConjuncts w)" and ?msk = "group_mask t s calls w"
  have len: "length ?msk = length (t_Columns t)" by (simp add: group_mask_def newMask_def)
  have cov: "covers t ?msk e" if "e \<in> set ?rest \<union> set (s_GroupBy s) \<union> set (call_args calls)" for e
    unfolding group_mask_def using that by (intro covers_markColumns) (auto simp: newMask_def intro!: covers_markColumns)
  have t: "distinct (map c_Name (t_Columns t))" using p(1) by (auto simp: plannable_def table_ok_def)
  obtain op1 rs where op1: "Build (filter_over ?rest ?env (path_build ?a ?msk)) rd = Inr op1"
    "rows_of rd op1 = (map (masked ?msk) rs, None)"
    and rs: "lists (order_key (path_build ?a ?msk)) {row \<in> ran R. where_holds t w row} rs"
    by (rule filtered_scan [OF h p len]) (use cov in blast)
  have set: "set rs = {row \<in> ran R. where_holds t w row}" and distinct: "distinct rs"
    using lists_distinct [OF rs] rs by (simp_all add: lists_def distinct_map)
  have row: "row \<in> ran R" "where_holds t w row" "is_row t row" if "row \<in> set rs" for row
    using that set table_holds_row(2) [OF h(2)] by auto
  have "rows_of rd (OpAggregate op1 node [] 0 False) = (group_rows node gv accs0 rs, None)"
  proof (rule aggregate_masked [OF op1(2)])
    show "newAccumulators (an_Calls node) = Inr accs0" using accs0 by (simp add: node)
    show "eval_all (an_GroupBy node) (Some (an_Env node)) (masked ?msk row) = Inr (gv row)" if "row \<in> set rs" for row
      using gv [OF row(1,2) [OF that]] eval_all_covered [OF t row(3) [OF that] len, of "s_GroupBy s"] cov by (simp add: node)
    show "add_calls (an_Calls node) accs (Some (an_Env node)) (masked ?msk row) =
        add_calls (an_Calls node) accs (Some (an_Env node)) row" if "row \<in> set rs" for accs row
    proof -
      have "\<forall>call \<in> set calls. \<forall>e. ac_Arg call = Some e \<longrightarrow> covers t ?msk e"
        by (rule call_args_covered) (use cov in blast)
      from add_calls_covered [OF t row(3) [OF that] len this] show ?thesis by (simp only: node aggNode.select_convs)
    qed
  qed (rule fin [OF distinct set])
  then show thesis
    using that [of "OpAggregate op1 node [] 0 False" rs] op1(1) distinct set by (simp add: group_plan_def node)
qed

lemma grouped_select_rows:
  assumes h: "reads rd m" "table_holds t m R" and p: "plannable t R w" "no_slip t R w"
    and grouping: "grouping t s genv calls"
    and lims: "limitValues s = Inr (cnt, offset)" "0 \<le>s offset"
    and accs0: "newAccumulators calls = Inr accs0"
    and gv: "\<And>row. row \<in> ran R \<Longrightarrow> where_holds t w row \<Longrightarrow> eval_all (s_GroupBy s) (Some (TableEnv t)) row = Inr (gv row)"
    and node: "node = \<lparr>an_GroupBy = s_GroupBy s, an_Calls = calls, an_Env = TableEnv t\<rparr>"
    and fin: "\<And>rs k. distinct rs \<Longrightarrow> set rs = {row \<in> ran R. where_holds t w row} \<Longrightarrow>
      k \<in> (\<lambda>row. Key (gv row)) ` set rs \<Longrightarrow> \<exists>accs. add_rows node accs0 (members gv k rs) = Inr accs"
    and kf: "\<And>rs row. distinct rs \<Longrightarrow> set rs = {row \<in> ran R. where_holds t w row} \<Longrightarrow>
      row \<in> set (group_rows node gv accs0 rs) \<Longrightarrow> eval_all (order_exprs s) (Some genv) row = Inr (kf row)"
    and out: "\<And>rs row. distinct rs \<Longrightarrow> set rs = {row \<in> ran R. where_holds t w row} \<Longrightarrow>
      row \<in> set (group_rows node gv accs0 rs) \<Longrightarrow> eval_all (select_exprs s) (Some genv) row = Inr (out row)"
  obtains pl op rs where "groupedSelect s t (TableEnv t) (splitConjuncts w) = Inr pl" and "Build pl rd = Inr op"
    and "distinct rs" and "set rs = {row \<in> ran R. where_holds t w row}"
    and "let found = map out (sort_slice (by_keys (map sort_key_of (s_OrderBy s)) kf) (group_rows node gv accs0 rs))
      in rows_of rd op = (limited cnt offset (if s_Distinct s then firsts found else found), None)"
    and "plan_columns pl = Some (map resultName (s_Columns s))"
proof -
  let ?d = "s_Distinct s" and ?keys = "map sort_key_of (s_OrderBy s)" and ?node = "group_plan t s calls genv w"
  obtain opg rs where b: "Build ?node rd = Inr opg" and distinct: "distinct rs"
    and set: "set rs = {row \<in> ran R. where_holds t w row}" and agg: "rows_of rd opg = (group_rows node gv accs0 rs, None)"
    by (rule grouped_scan [OF h p accs0 gv node fin])
  have kf': "eval_all (map sk_Expr ?keys) (Some genv) row = Inr (kf row)" if "row \<in> set (group_rows node gv accs0 rs)" for row
    using kf [OF distinct set that] by (simp add: comp_def)
  obtain op2 xs where op2: "Build (sort_over ?keys cnt offset ?d genv ?node) rd = Inr op2" "rows_of rd op2 = (xs, None)"
    and xs: "set xs \<subseteq> set (group_rows node gv accs0 rs)"
    and cut: "\<And>f. limited cnt offset (if ?d then distinct_rows [] (map f xs) else map f xs) =
      limited cnt offset (if ?d then distinct_rows [] (map f (sort_slice (by_keys ?keys kf) (group_rows node gv accs0 rs)))
        else map f (sort_slice (by_keys ?keys kf) (group_rows node gv accs0 rs)))"
    using sort_over_rows [OF b agg kf' lims(2)] by blast
  have "eval_all (select_exprs s) (Some genv) row = Inr (out row)" if "row \<in> set xs" for row
    using out [OF distinct set] that xs by blast
  with op2 obtain op where op: "Build (limit_over cnt offset (distinct_over ?d (PProject (sort_over ?keys cnt offset ?d genv ?node)
      (select_exprs s) (map resultName (s_Columns s)) genv))) rd = Inr op"
    "rows_of rd op = (limited cnt offset (if ?d then distinct_rows [] (map out xs) else map out xs), None)"
    using finished_rows [of "sort_over ?keys cnt offset ?d genv ?node" rd op2 "\<lambda>row. row" xs "select_exprs s" genv out
      cnt offset ?d "map resultName (s_Columns s)"] by auto
  have plan: "groupedSelect s t (TableEnv t) (splitConjuncts w) =
      Inr (limit_over cnt offset (distinct_over ?d (PProject (sort_over ?keys cnt offset ?d genv ?node)
      (select_exprs s) (map resultName (s_Columns s)) genv)))"
    using grouping lims(1)
    by (auto simp: groupedSelect_def grouping_def Let_def group_plan_def group_mask_def call_args_def)
  show thesis
    using that [OF plan op(1) distinct set] op(2) cut [of out]
    by (simp add: Let_def distinct_rows_first plan_columns.simps limit_over_def distinct_over_def)
qed

end
