(* ===== verification/EndToEnd.thy ===== *)
theory EndToEnd
  imports Transactions Grouped
begin

text \<open>
  Statements from the session down to the bytes of the store: what SELECT, INSERT, UPDATE and DELETE,
  run on a session, answer and leave behind, stated over the rows the store holds.  The pieces are the
  planner and executor (\<open>Queries\<close>, \<open>Statements\<close>), the cursor (\<open>Session\<close>) and the commit
  (\<open>Transactions\<close>).
\<close>

section \<open>The cursor hands out the rows of its tree\<close>

lemma Rows_Next_takes:
  assumes "\<not> rs_closed r" and "rs_err r = None" and "rows_of rd (rs_op r) = (row # rows, err)"
  shows "\<exists>r'. Rows_Next rd r = Some (True, r') \<and> rs_row r' = row \<and> rows_of rd (rs_op r') = (rows, err) \<and>
    \<not> rs_closed r' \<and> rs_err r' = None"
proof -
  obtain x op' where "op_Next rd (rs_op r) = Some (x, op')" "takes (rows_of rd (rs_op r)) x (rows_of rd op')"
    using op_next_iterates [of "op_depth (rs_op r)" rd] by (auto simp: iterates_def op_Next_def)
  then show ?thesis using assms by (auto simp: Rows_Next_def)
qed

lemma Rows_Next_ends:
  assumes "\<not> rs_closed r" and "rs_err r = None" and "rows_of rd (rs_op r) = ([], err)"
  shows "\<exists>r'. Rows_Next rd r = Some (False, r') \<and> rs_err r' = err"
proof -
  obtain x op' where "op_Next rd (rs_op r) = Some (x, op')" "takes (rows_of rd (rs_op r)) x (rows_of rd op')"
    using op_next_iterates [of "op_depth (rs_op r)" rd] by (auto simp: iterates_def op_Next_def)
  then show ?thesis using assms by (cases err) (auto simp: Rows_Next_def)
qed

lemma collect_rows:
  assumes "\<not> rs_closed r" and "rs_err r = None" and "rows_of rd (rs_op r) = (rows, err)" and "op_size (rs_op r) < n"
  shows "\<exists>r'. collect n rd r out = Some (out @ rows, r') \<and> rs_err r' = err"
  using assms
proof (induction n arbitrary: r rows out)
  case (Suc n)
  show ?case
  proof (cases rows)
    case Nil
    then show ?thesis using Rows_Next_ends [of r rd err] Suc.prems by auto
  next
    case (Cons row rows')
    then obtain r' where r': "Rows_Next rd r = Some (True, r')" "rs_row r' = row" "rows_of rd (rs_op r') = (rows', err)"
      "\<not> rs_closed r'" "rs_err r' = None"
      using Rows_Next_takes [of r rd row rows' err] Suc.prems by auto
    then show ?thesis
      using Suc.IH [of r' rows' "out @ [row]"] Rows_Next_shrinks [OF r'(1)] Suc.prems(4) Cons by simp
  qed
qed simp

section \<open>Statements over stored tables\<close>

text \<open>What a session reads: its transaction, or the store.\<close>

definition seen :: "('db \<Rightarrow> bytes \<rightharpoonup> bytes) \<Rightarrow> 'db DB \<Rightarrow> Conn \<Rightarrow> bytes \<rightharpoonup> bytes" where
  "seen view db c = (case conn_tx c of Some tx \<Rightarrow> overlay_view (tx_rw tx) | None \<Rightarrow> view (db_store db))"

lemma plainSelect_columns:
  "plainSelect s t env cs = Inr pl \<Longrightarrow> expand_columns t (s_Columns s) = Inr (exprs, names) \<Longrightarrow> plan_columns pl = Some names"
  by (auto simp: plainSelect_def Let_def limit_over_def distinct_over_def plan_columns.simps split: sum.splits)

context keel begin

lemma tx_for_seen:
  assumes "inv (db_store db)" and "conn_ok c"
  shows "overlay_inv (tx_rw (fst (tx_for ks db c)))" and "overlay_view (tx_rw (fst (tx_for ks db c))) = seen view db c"
  using assms begin_overlay [OF assms(1)] by (auto simp: tx_for_def seen_def conn_ok_def tx_ok_def split: option.split)

lemma SELECT_runs:
  assumes "inv (db_store db)" and "conn_ok c" and "Planner_Plan (db_cat db) (SelectStmt s) = Inr pl"
    and "Build pl (Overlay_reader (tx_rw (fst (tx_for ks db c)))) = Inr op"
    and "rows_of (Overlay_reader (tx_rw (fst (tx_for ks db c)))) op = (rows, None)" and "plan_columns pl = Some names"
  shows "Conn_run ks js (SelectStmt s) db c =
    Some (Inr ((tagged ''SELECT'')\<lparr>r_Columns := names, r_Rows := rows, r_Affected := of_nat (length rows)\<rparr>), db, c)"
proof -
  obtain tx owned where tx: "tx_for ks db c = (tx, owned)" by fastforce
  let ?cur = "\<lparr>rs_cols = names, rs_op = op, rs_tx = tx, rs_owned = owned, rs_row = [], rs_err = None, rs_closed = False\<rparr>"
  obtain r' where "collect (Suc (op_size op)) (Overlay_reader (tx_rw tx)) ?cur [] = Some (rows, r')" "rs_err r' = None"
    using collect_rows [of ?cur "Overlay_reader (tx_rw tx)" rows None "Suc (op_size op)" "[]"] assms(5) tx by auto
  then show ?thesis
    using assms(3,4,6) tx by (simp add: Conn_run_def selectRows_def Conn_query_def del: collect.simps)
qed

end

section \<open>Properties\<close>

text \<open>C2: A SELECT without aggregation, run on a session in or out of a transaction, answers with the rows that
  satisfy WHERE, each once, sorted stably by ORDER BY, their SELECT list evaluated under its names,
  duplicates removed when it says DISTINCT, cut by OFFSET and LIMIT; it changes nothing.  The access
  path, the pushed-down predicates, the pruned columns, the elided sort and the bounded sort (whose
  64-bit bound may wrap around) make no difference, with the one exception that \<open>no_slip\<close> rules out.\<close>

theorem session_SELECT:
  assumes "keel ks view good" and "good (db_store db)" and "conn_ok c" and "table_holds t (seen view db c) R"
    and "cat_get (db_cat db) (s_Table s) = Inr t"
    and "plannable t R (s_Where s)" and "no_slip t R (s_Where s)"
    and "check_where t (s_Where s) = None" and "s_GroupBy s = []" and "\<not> selectHasAggregate s"
    and "expand_columns t (s_Columns s) = Inr (exprs, names)" and "order_keys t (s_OrderBy s) = Inr keys"
    and "limitValues s = Inr (cnt, offset)" and "0 \<le>s offset"
    and "\<And>row. row \<in> ran R \<Longrightarrow> where_holds t (s_Where s) row \<Longrightarrow>
      eval_all (map sk_Expr keys) (Some (TableEnv t)) row = Inr (kf row)"
    and "\<And>row. row \<in> ran R \<Longrightarrow> where_holds t (s_Where s) row \<Longrightarrow>
      eval_all exprs (Some (TableEnv t)) row = Inr (out row)"
  shows "\<exists>rs. distinct rs \<and> set rs = {row \<in> ran R. where_holds t (s_Where s) row} \<and>
    (let found = map out (sort_slice (by_keys keys kf) rs);
         answer = limited cnt offset (if s_Distinct s then firsts found else found)
     in Conn_run ks js (SelectStmt s) db c =
       Some (Inr ((tagged ''SELECT'')\<lparr>r_Columns := names, r_Rows := answer, r_Affected := of_nat (length answer)\<rparr>), db, c))"
proof -
  let ?ov = "tx_rw (fst (tx_for ks db c))"
  note seen = keel.tx_for_seen [OF assms(1-3)]
  have "reads (Overlay_reader ?ov) (seen view db c)" using overlay_reads [OF seen(1)] seen(2) by simp
  from SELECT_correct [OF this assms(4-16)] obtain pl op rs where
    pl: "Planner_Plan (db_cat db) (SelectStmt s) = Inr pl" "Build pl (Overlay_reader ?ov) = Inr op"
    and rs: "distinct rs" "set rs = {row \<in> ran R. where_holds t (s_Where s) row}"
    and rows: "let found = map out (sort_slice (by_keys keys kf) rs)
      in rows_of (Overlay_reader ?ov) op = (limited cnt offset (if s_Distinct s then firsts found else found), None)"
    by blast
  have "plan_columns pl = Some names"
    using pl(1) plainSelect_columns [OF _ assms(11)] assms(5,8-10) by (simp add: selectStmt_def)
  then show ?thesis
    using keel.SELECT_runs [OF assms(1-3) pl] rs rows by (auto simp: Let_def)
qed

lemma session_SELECT_witness:
  "\<exists>st. let db = \<lparr>db_store = st, db_cat = sample_catalog\<rparr>
    in Conn_run memory_keel sample_json (SelectStmt (sample_select ''name'' id_is_2)) db DB_Conn =
      Some (Inr ((tagged ''SELECT'')\<lparr>r_Columns := [''name''], r_Rows := [[VNull]], r_Affected := 1\<rparr>), db, DB_Conn)"
proof -
  obtain st where st: "memory_inv st" "table_holds sample_indexed (memory_view st) sample_rows"
    by (rule sample_memory_holds)
  let ?db = "\<lparr>db_store = st, db_cat = sample_catalog\<rparr>" and ?s = "sample_select ''name'' id_is_2"
  let ?keys = "[\<lparr>sk_Expr = EColumn '''' ''id'', sk_Desc = False\<rparr>]"
  have get: "cat_get (db_cat ?db) (s_Table ?s) = Inr sample_indexed"
    and rows: "table_holds sample_indexed (seen memory_view ?db DB_Conn) sample_rows"
    and good: "memory_inv (db_store ?db)" "conn_ok DB_Conn"
    and plannable: "plannable sample_indexed sample_rows (s_Where ?s)" "no_slip sample_indexed sample_rows (s_Where ?s)"
    and chk: "check_where sample_indexed (s_Where ?s) = None" and off: "0 \<le>s (0 :: int64)"
    using st by (simp_all add: sample_select_parts sample_plannable sample_check seen_def DB_Conn_def conn_ok_def)
  have kf: "eval_all (map sk_Expr ?keys) (Some (TableEnv sample_indexed)) row = Inr [row ! 0]" if "row \<in> ran sample_rows" for row
    using sample_evals(1) [OF that] by simp
  obtain rs where rs: "distinct rs" "set rs = {row \<in> ran sample_rows. where_holds sample_indexed (s_Where ?s) row}"
    and run: "let found = map (\<lambda>row. [row ! 1]) (sort_slice (by_keys ?keys (\<lambda>row. [row ! 0])) rs);
       answer = limited (- 1) 0 (if s_Distinct ?s then firsts found else found)
      in Conn_run memory_keel sample_json (SelectStmt ?s) ?db DB_Conn = Some (Inr ((tagged ''SELECT'')
        \<lparr>r_Columns := [''name''], r_Rows := answer, r_Affected := of_nat (length answer)\<rparr>), ?db, DB_Conn)"
    using session_SELECT [OF memory_db.keel_axioms good rows get plannable chk sample_select_parts(7,1-4) off kf sample_evals(2)]
    by blast
  have "set rs = {[VInt 2, VNull]}" using rs(2) sample_found by (simp add: sample_select_parts)
  then have "rs = [[VInt 2, VNull]]" using rs(1) by (cases rs) (auto simp: subset_singleton_iff)
  then show ?thesis using run by (intro exI [of _ st]) (simp add: sample_select_parts limited_def Let_def)
qed








text \<open>C4: A DELETE outside a transaction removes from the store exactly the rows that satisfy WHERE, with their
  index entries, reports their number, and leaves every other key as it was.\<close>

theorem session_DELETE:
  assumes "keel ks view good" and "good (db_store db)" and "\<not> InTx c" and "table_holds t (view (db_store db)) R"
    and "cat_get (db_cat db) name = Inr t" and "plannable t R w" and "no_slip t R w" and "check_where t w = None"
  shows "\<exists>db'. Conn_run ks js (DeleteStmt name w) db c =
      Some (Inr ((tagged ''DELETE'')\<lparr>r_Affected := of_nat (card {row \<in> ran R. where_holds t w row})\<rparr>), db', c) \<and>
    good (db_store db') \<and> db_cat db' = db_cat db \<and>
    table_holds t (view (db_store db')) (R |` (- row_pk t ` {row \<in> ran R. where_holds t w row})) \<and>
    same_elsewhere t (view (db_store db)) (view (db_store db'))"
proof -
  note b = keel.begin_overlay [OF assms(1,2)]
  have "table_holds t (overlay_view (tx_rw (DB_begin ks db))) R" using assms(4) b(2) by simp
  from DELETE_correct [OF b(1) this assms(5-8)] obtain pl ov where
    pl: "Planner_Plan (db_cat db) (DeleteStmt name w) = Inr pl"
      "RunDML Overlay_rw pl (tx_rw (DB_begin ks db)) = Some (of_nat (card {row \<in> ran R. where_holds t w row}), None, ov)"
    and ov: "table_holds t (overlay_view ov) (R |` (- row_pk t ` {row \<in> ran R. where_holds t w row}))"
      "same_elsewhere t (view (db_store db)) (overlay_view ov)"
    unfolding b(2) by blast
  have "conn_tx c = None" using assms(3) by (simp add: InTx_def)
  from keel.statement [OF assms(1,2) this pl] ov show ?thesis by (auto simp: Conn_run_def dmlTag_def)
qed

lemma session_DELETE_witness:
  "\<exists>st db'. Conn_run memory_keel sample_json (DeleteStmt ''users'' (Some id_is_2)) \<lparr>db_store = st, db_cat = sample_catalog\<rparr> DB_Conn =
      Some (Inr ((tagged ''DELETE'')\<lparr>r_Affected := 1\<rparr>), db', DB_Conn) \<and>
      table_holds sample_indexed (memory_view (db_store db')) [VInt 1 \<mapsto> [VInt 1, VText ''ann'']]"
proof -
  obtain st where st: "memory_inv st" "table_holds sample_indexed (memory_view st) sample_rows"
    by (rule sample_memory_holds)
  let ?db = "\<lparr>db_store = st, db_cat = sample_catalog\<rparr>"
  have get: "cat_get (db_cat ?db) ''users'' = Inr sample_indexed" and out: "\<not> InTx DB_Conn"
    and good: "memory_inv (db_store ?db)" and rows: "table_holds sample_indexed (memory_view (db_store ?db)) sample_rows"
    using st by (simp_all add: DB_Conn_def InTx_def)
  have "sample_rows |` (- {VInt 2}) = [VInt 1 \<mapsto> [VInt 1, VText ''ann'']]"
    by (simp add: sample_rows_def fun_eq_iff restrict_map_def)
  then show ?thesis
    using session_DELETE [OF memory_db.keel_axioms good out rows get sample_plannable sample_check(1), of sample_json]
    unfolding sample_found by (intro exI [of _ st]) auto
qed

text \<open>C3: An UPDATE outside a transaction changes the rows that satisfy WHERE one after the other, each from its
  values before the statement; if one of them cannot be changed, the statement reports that error and
  no row of the store has changed, otherwise the store holds the changed rows with their index entries.\<close>

theorem session_UPDATE:
  assumes "keel ks view good" and "good (db_store db)" and "\<not> InTx c" and "table_holds t (view (db_store db)) R"
    and "cat_get (db_cat db) name = Inr t" and "plannable t R w" and "no_slip t R w" and "check_where t w = None"
    and "plan_sets t sets = Inr asgs" and "c_Type (PKColumn t) \<noteq> KindFloat"
  shows "\<exists>rows n err R' r db'. distinct rows \<and> set rows = {row \<in> ran R. where_holds t w row} \<and>
    change_rows (spec_update t (\<lambda>old. assign asgs (TableEnv t) old old)) rows R 0 = (n, err, R') \<and>
    Conn_run ks js (UpdateStmt name sets w) db c = Some (r, db', c) \<and> good (db_store db') \<and> db_cat db' = db_cat db \<and>
    (case err of
       Some e \<Rightarrow> r = Inl (CExec e) \<and> db' = db
     | None \<Rightarrow> r = Inr ((tagged ''UPDATE'')\<lparr>r_Affected := n\<rparr>) \<and> table_holds t (view (db_store db')) R' \<and>
         same_elsewhere t (view (db_store db)) (view (db_store db')))"
proof -
  note b = keel.begin_overlay [OF assms(1,2)]
  have "table_holds t (overlay_view (tx_rw (DB_begin ks db))) R" using assms(4) b(2) by simp
  from UPDATE_correct [OF b(1) this assms(5-10)] obtain pl rows n err R' ov where
    pl: "Planner_Plan (db_cat db) (UpdateStmt name sets w) = Inr pl" "RunDML Overlay_rw pl (tx_rw (DB_begin ks db)) = Some (n, err, ov)"
    and rows: "distinct rows" "set rows = {row \<in> ran R. where_holds t w row}"
      "change_rows (spec_update t (\<lambda>old. assign asgs (TableEnv t) old old)) rows R 0 = (n, err, R')"
    and ov: "table_holds t (overlay_view ov) R'" "same_elsewhere t (view (db_store db)) (overlay_view ov)"
    unfolding b(2) by blast
  have "conn_tx c = None" using assms(3) by (simp add: InTx_def)
  from keel.statement [OF assms(1,2) this pl] ov assms(2)
  have "\<exists>r db'. Conn_run ks js (UpdateStmt name sets w) db c = Some (r, db', c) \<and> good (db_store db') \<and> db_cat db' = db_cat db \<and>
    (case err of
       Some e \<Rightarrow> r = Inl (CExec e) \<and> db' = db
     | None \<Rightarrow> r = Inr ((tagged ''UPDATE'')\<lparr>r_Affected := n\<rparr>) \<and> table_holds t (view (db_store db')) R' \<and>
         same_elsewhere t (view (db_store db)) (view (db_store db')))"
    by (auto simp: Conn_run_def dmlTag_def split: option.splits)
  then show ?thesis using rows by blast
qed

lemma session_UPDATE_witness:
  "\<exists>st db'. Conn_run memory_keel sample_json (UpdateStmt ''users'' [(''name'', ELiteral (VText ''bob''))] (Some id_is_2))
      \<lparr>db_store = st, db_cat = sample_catalog\<rparr> DB_Conn =
      Some (Inr ((tagged ''UPDATE'')\<lparr>r_Affected := 1\<rparr>), db', DB_Conn) \<and>
      table_holds sample_indexed (memory_view (db_store db'))
        [VInt 1 \<mapsto> [VInt 1, VText ''ann''], VInt 2 \<mapsto> [VInt 2, VText ''bob'']]"
proof -
  obtain st where st: "memory_inv st" "table_holds sample_indexed (memory_view st) sample_rows"
    by (rule sample_memory_holds)
  let ?db = "\<lparr>db_store = st, db_cat = sample_catalog\<rparr>"
    and ?asgs = "[\<lparr>as_Column = 1, as_Name = ''name'', as_Value = ELiteral (VText ''bob'')\<rparr>]"
  have get: "cat_get (db_cat ?db) ''users'' = Inr sample_indexed" and out: "\<not> InTx DB_Conn"
    and good: "memory_inv (db_store ?db)" and stored: "table_holds sample_indexed (memory_view (db_store ?db)) sample_rows"
    using st by (simp_all add: DB_Conn_def InTx_def)
  have sets: "plan_sets sample_indexed [(''name'', ELiteral (VText ''bob''))] = Inr ?asgs"
    and nf: "c_Type (PKColumn sample_indexed) \<noteq> KindFloat"
    by (simp_all add: checkTableRefs_def check_ref_def sample_cols_def)
  obtain rows n err R' r db' where rows: "distinct rows" "set rows = {[VInt 2, VNull]}"
    and spec: "change_rows (spec_update sample_indexed (\<lambda>old. assign ?asgs (TableEnv sample_indexed) old old)) rows
      sample_rows 0 = (n, err, R')"
    and run: "Conn_run memory_keel sample_json (UpdateStmt ''users'' [(''name'', ELiteral (VText ''bob''))] (Some id_is_2))
      ?db DB_Conn = Some (r, db', DB_Conn)"
    and left: "case err of Some e \<Rightarrow> r = Inl (CExec e) \<and> db' = ?db
      | None \<Rightarrow> r = Inr ((tagged ''UPDATE'')\<lparr>r_Affected := n\<rparr>) \<and> table_holds sample_indexed (memory_view (db_store db')) R' \<and>
          same_elsewhere sample_indexed (memory_view (db_store ?db)) (memory_view (db_store db'))"
    using session_UPDATE [OF memory_db.keel_axioms good out stored get sample_plannable sample_check(1) sets nf, of sample_json]
    unfolding sample_found by (elim exE conjE)
  have "rows = [[VInt 2, VNull]]" using rows by (cases rows) (auto simp: subset_singleton_iff)
  moreover have "sample_rows(VInt 2 := None, VInt 2 \<mapsto> [VInt 2, VText ''bob'']) =
      [VInt 1 \<mapsto> [VInt 1, VText ''ann''], VInt 2 \<mapsto> [VInt 2, VText ''bob'']]"
    by (simp add: sample_rows_def)
  ultimately have "(n, err, R') = (1, None, [VInt 1 \<mapsto> [VInt 1, VText ''ann''], VInt 2 \<mapsto> [VInt 2, VText ''bob'']])"
    using spec by (simp add: spec_update_def sample_validate)
  then show ?thesis using run left by auto
qed

text \<open>C5: An INSERT outside a transaction adds its rows one after the other; if one of them cannot be evaluated,
  violates a constraint or has a key that is taken, the statement reports that error and no row is in
  the store, otherwise all of them are, with their index entries.\<close>

theorem session_INSERT:
  assumes "keel ks view good" and "good (db_store db)" and "\<not> InTx c" and "table_holds t (view (db_store db)) R"
    and "table_ok t" and "Planner_Plan (db_cat db) (InsertStmt name cols rows) = Inr (PInsert t rows positions)"
  shows "\<exists>n err R' r db'. change_rows (spec_values t positions) rows R 0 = (n, err, R') \<and>
    Conn_run ks js (InsertStmt name cols rows) db c = Some (r, db', c) \<and> good (db_store db') \<and> db_cat db' = db_cat db \<and>
    (case err of
       Some e \<Rightarrow> r = Inl (CExec e) \<and> db' = db
     | None \<Rightarrow> r = Inr ((tagged ''INSERT'')\<lparr>r_Affected := n\<rparr>) \<and> table_holds t (view (db_store db')) R' \<and>
         same_elsewhere t (view (db_store db)) (view (db_store db')))"
proof -
  note b = keel.begin_overlay [OF assms(1,2)]
  have "table_holds t (overlay_view (tx_rw (DB_begin ks db))) R" using assms(4) b(2) by simp
  from INSERT_adds_rows [OF b(1) this assms(5)] obtain n err R' ov where
    spec: "change_rows (spec_values t positions) rows R 0 = (n, err, R')"
    and run: "RunDML Overlay_rw (PInsert t rows positions) (tx_rw (DB_begin ks db)) = Some (n, err, ov)"
    and ov: "table_holds t (overlay_view ov) R'" "same_elsewhere t (view (db_store db)) (overlay_view ov)"
    unfolding b(2) by blast
  have "conn_tx c = None" using assms(3) by (simp add: InTx_def)
  from keel.statement [OF assms(1,2) this assms(6) run] ov assms(2)
  have "\<exists>r db'. Conn_run ks js (InsertStmt name cols rows) db c = Some (r, db', c) \<and> good (db_store db') \<and> db_cat db' = db_cat db \<and>
    (case err of
       Some e \<Rightarrow> r = Inl (CExec e) \<and> db' = db
     | None \<Rightarrow> r = Inr ((tagged ''INSERT'')\<lparr>r_Affected := n\<rparr>) \<and> table_holds t (view (db_store db')) R' \<and>
         same_elsewhere t (view (db_store db)) (view (db_store db')))"
    by (auto simp: Conn_run_def dmlTag_def split: option.splits)
  then show ?thesis using spec by blast
qed

lemma session_INSERT_witness:
  "\<exists>st e. Conn_run memory_keel sample_json (InsertStmt ''users'' [''id''] [[ELiteral (VInt 3)], [ELiteral (VInt 2)]])
      \<lparr>db_store = st, db_cat = sample_catalog\<rparr> DB_Conn =
      Some (Inl (CExec e), \<lparr>db_store = st, db_cat = sample_catalog\<rparr>, DB_Conn)"
proof -
  obtain st where st: "memory_inv st" "table_holds sample_indexed (memory_view st) sample_rows"
    by (rule sample_memory_holds)
  let ?db = "\<lparr>db_store = st, db_cat = sample_catalog\<rparr>" and ?rows = "[[ELiteral (VInt 3)], [ELiteral (VInt 2)]]"
  have out: "\<not> InTx DB_Conn"
    and good: "memory_inv (db_store ?db)" and stored: "table_holds sample_indexed (memory_view (db_store ?db)) sample_rows"
    using st by (simp_all add: DB_Conn_def InTx_def)
  have plan: "Planner_Plan (db_cat ?db) (InsertStmt ''users'' [''id''] ?rows) = Inr (PInsert sample_indexed ?rows [0])"
    by (simp add: plan_insert_def)
  have blank: "blank_row sample_indexed = [VNull, VNull]" by (simp add: blank_row_def sample_cols_def)
  have "fst (snd (change_rows (spec_values sample_indexed [0]) ?rows sample_rows 0)) \<noteq> None"
    by (simp add: spec_values_def spec_insert_def blank sample_validate sample_rows_def)
  then show ?thesis
    using session_INSERT [OF memory_db.keel_axioms good out stored sample_indexed_ok plan, of sample_json]
    by (intro exI [of _ st]) (auto split: option.splits)
qed

section \<open>Indexes and concurrent commits\<close>

text \<open>The stored bytes determine the row.\<close>

lemma held_row:
  assumes "table_holds t m R" and "m (RowKey (t_ID t) pk) = Some (EncodeRow [] row)" and "is_row t row"
  shows "R pk = Some row"
proof -
  obtain row' where row': "R pk = Some row'" "EncodeRow [] row' = EncodeRow [] row"
    using assms(1,2) by (auto simp: table_holds_def rows_held_def)
  moreover have "is_row t row'" using assms(1) row'(1) by (auto simp: table_holds_def rows_ok_def)
  ultimately have "row' = row"
    using DecodeRow_EncodeRow [of row] DecodeRow_EncodeRow [of row'] assms(3) by (simp add: is_row_def)
  then show ?thesis using row'(1) by simp
qed

text \<open>C23: CREATE INDEX is refused inside a transaction but not beside one.  A row inserted by a transaction that was
  open when the index was created has no entry in it: the commit succeeds, and in the database it leaves the row is in the store,
  its index entry is not, and no set of rows fits the table together with its index, so that queries through the index
  miss the row.  (Changing or deleting the row later mends it.)\<close>

theorem index_misses_open_inserts:
  assumes "keel ks view good" and "good (db_store db0)" and "good (db_store db)"
    and "t_Indexes t = []" and "validate t row0 = Inr row"
    and "Mutator_Insert Overlay_rw t row0 (tx_rw (DB_begin ks db0)) = (None, ov)"
    and "table_holds (t\<lparr>t_NextIndexID := n, t_Indexes := [ix]\<rparr>) (view (db_store db)) R" and "R (row_pk t row) = None"
  shows "\<exists>tx' db'. Tx_Commit ks ((DB_begin ks db0)\<lparr>tx_rw := ov\<rparr>) db = (None, tx', db') \<and>
    view (db_store db') (RowKey (t_ID t) (row_pk t row)) = Some (EncodeRow [] row) \<and>
    view (db_store db') (IndexKey (t_ID t) (i_ID ix) (row ! nat (i_Pos ix)) (row_pk t row)) = None \<and>
    (\<forall>R'. \<not> table_holds (t\<lparr>t_NextIndexID := n, t_Indexes := [ix]\<rparr>) (view (db_store db')) R')"
proof -
  let ?key = "RowKey (t_ID t) (row_pk t row)" and ?blob = "EncodeRow [] row"
    and ?entry = "IndexKey (t_ID t) (i_ID ix) (row ! nat (i_Pos ix)) (row_pk t row)"
  note b = keel.begin_overlay [OF assms(1,2)]
  have put: "rw_Put Overlay_rw (tx_rw (DB_begin ks db0)) ?key ?blob = (None, ov)"
    using assms(4-6) by (auto simp: Mutator_Insert_def put_row_def writeIndexes_def split: option.splits prod.splits)
  then have inv: "overlay_inv ov" using overlay.put_keeps b(1) by blast
  have buf: "Lookup (Buf ov) = [?key \<mapsto> \<lparr>e_Key = ?key, e_Value = ?blob, e_Deleted = False\<rparr>]"
    using put by (auto simp: Overlay_rw_def Overlay_Put_def Buffer_Put_def DB_begin_def NewOverlay_def NewBuffer_def
        Lookup_def fun_eq_iff)
  obtain tx' db' where commit: "Tx_Commit ks ((DB_begin ks db0)\<lparr>tx_rw := ov\<rparr>) db = (None, tx', db')"
    and v: "view (db_store db') = overlay_map (view (db_store db)) (Lookup (Buf ov))"
    using keel.commit [OF assms(1,3), of "(DB_begin ks db0)\<lparr>tx_rw := ov\<rparr>"] inv b(4) by auto
  have row: "view (db_store db') ?key = Some ?blob" by (simp add: v buf overlay_map_def)
  have "view (db_store db) ?entry = None"
    using assms(7,8) by (auto simp: table_holds_def index_held_def)
  then have entry: "view (db_store db') ?entry = None" by (simp add: v buf overlay_map_def)
  have "\<not> table_holds (t\<lparr>t_NextIndexID := n, t_Indexes := [ix]\<rparr>) (view (db_store db')) R'" for R'
  proof
    assume h: "table_holds (t\<lparr>t_NextIndexID := n, t_Indexes := [ix]\<rparr>) (view (db_store db')) R'"
    moreover have "is_row (t\<lparr>t_NextIndexID := n, t_Indexes := [ix]\<rparr>) row"
      using validate_is_row [OF assms(5)] by (simp add: is_row_def)
    ultimately have "R' (row_pk t row) = Some row" using row held_row [OF h] by simp
    then show False using h entry by (auto simp: table_holds_def index_held_def)
  qed
  then show ?thesis using commit row entry by blast
qed

lemma index_misses_open_inserts_witness:
  "\<exists>ov tx' db'. let db = \<lparr>db_store = NewMemory, db_cat = sample_catalog\<rparr>; row = [VInt 1, VText ''ann''] in
    Mutator_Insert Overlay_rw sample_table row (tx_rw (DB_begin memory_keel db)) = (None, ov) \<and>
    Tx_Commit memory_keel ((DB_begin memory_keel db)\<lparr>tx_rw := ov\<rparr>) db = (None, tx', db') \<and>
    (\<forall>R'. \<not> table_holds sample_indexed (memory_view (db_store db')) R')"
proof -
  let ?db = "\<lparr>db_store = NewMemory, db_cat = sample_catalog\<rparr>" and ?row = "[VInt 1, VText ''ann'']"
  have good: "memory_inv (db_store ?db)" and empty: "memory_view (db_store ?db) = Map.empty"
    by (simp_all add: memory_inv_def memory_view_def NewMemory_def)
  note b = memory_db.begin_overlay [OF good]
  have v: "validate sample_table ?row = Inr ?row"
    by (rule validate_fixed) (auto simp: is_row_def sample_table_def sample_def_def sample_cols_def less_Suc_eq Coerce_def)
  have none: "t_Indexes sample_table = []" by (simp add: sample_table_def sample_def_def)
  have "table_holds sample_table (overlay_view (tx_rw (DB_begin memory_keel ?db))) Map.empty"
    by (simp only: b(2) empty table_holds_empty)
  from overlay.Insert_view [OF b(1) this _ v] obtain ov where
    ov: "Mutator_Insert Overlay_rw sample_table ?row (tx_rw (DB_begin memory_keel ?db)) = (None, ov)"
    by (auto simp: none)
  have holds: "table_holds (sample_table\<lparr>t_NextIndexID := 2, t_Indexes := [sample_index]\<rparr>) (memory_view (db_store ?db)) Map.empty"
    by (simp only: empty table_holds_empty)
  then show ?thesis
    using index_misses_open_inserts [OF memory_db.keel_axioms good good none v ov holds] ov unfolding Let_def sample_indexed_def by fastforce
qed

text \<open>The write buffer after an UPDATE of one row whose key and index stay.\<close>

lemma update_buffers:
  assumes "t_Indexes t = [ix]" and "validate t new0 = Inr new" and "row_pk t new = row_pk t old"
    and "old ! nat (i_Pos ix) \<noteq> new ! nat (i_Pos ix)"
    and "Mutator_Update Overlay_rw t old new0 (NewOverlay rd NewBuffer) = (None, ov)"
  shows "Lookup (Buf ov) =
    [IndexKey (t_ID t) (i_ID ix) (old ! nat (i_Pos ix)) (row_pk t old) \<mapsto>
       \<lparr>e_Key = IndexKey (t_ID t) (i_ID ix) (old ! nat (i_Pos ix)) (row_pk t old), e_Value = [], e_Deleted = True\<rparr>,
     RowKey (t_ID t) (row_pk t old) \<mapsto>
       \<lparr>e_Key = RowKey (t_ID t) (row_pk t old), e_Value = EncodeRow [] new, e_Deleted = False\<rparr>,
     IndexKey (t_ID t) (i_ID ix) (new ! nat (i_Pos ix)) (row_pk t old) \<mapsto>
       \<lparr>e_Key = IndexKey (t_ID t) (i_ID ix) (new ! nat (i_Pos ix)) (row_pk t old), e_Value = [], e_Deleted = False\<rparr>]"
  using assms
  by (auto simp: Mutator_Update_def rewrite_row_def put_row_def writeIndexes_def Let_def Equal_def Overlay_rw_def
      Overlay_Put_def Overlay_Delete_def Buffer_Put_def Buffer_Delete_def NewOverlay_def NewBuffer_def Lookup_def
      update_conv' fun_eq_iff)

text \<open>C22: Two transactions that began on the same state and both change the indexed column of the same row, to
  different values, both commit without an error.  The row is the second one's, but both index
  entries stay, so that the table and its index never agree again and a query through the index finds
  the row under a value it does not have.\<close>

theorem concurrent_updates_break_index:
  assumes "keel ks view good" and "good (db_store db)" and "t_Indexes t = [ix]"
    and "validate t new1 = Inr new1" and "validate t new2 = Inr new2"
    and "row_pk t new1 = row_pk t old" and "row_pk t new2 = row_pk t old"
    and "distinct [old ! nat (i_Pos ix), new1 ! nat (i_Pos ix), new2 ! nat (i_Pos ix)]"
    and "Mutator_Update Overlay_rw t old new1 (tx_rw (DB_begin ks db)) = (None, ov1)"
    and "Mutator_Update Overlay_rw t old new2 (tx_rw (DB_begin ks db)) = (None, ov2)"
  shows "\<exists>tx1 db1 tx2 db2. Tx_Commit ks ((DB_begin ks db)\<lparr>tx_rw := ov1\<rparr>) db = (None, tx1, db1) \<and>
    Tx_Commit ks ((DB_begin ks db)\<lparr>tx_rw := ov2\<rparr>) db1 = (None, tx2, db2) \<and>
    view (db_store db2) (RowKey (t_ID t) (row_pk t old)) = Some (EncodeRow [] new2) \<and>
    view (db_store db2) (IndexKey (t_ID t) (i_ID ix) (new1 ! nat (i_Pos ix)) (row_pk t old)) = Some [] \<and>
    (\<forall>R. \<not> table_holds t (view (db_store db2)) R)"
proof -
  let ?key = "RowKey (t_ID t) (row_pk t old)" and ?entry = "\<lambda>row. IndexKey (t_ID t) (i_ID ix) (row ! nat (i_Pos ix)) (row_pk t old)"
  note b = keel.begin_overlay [OF assms(1,2)]
  have inv: "overlay_inv ov1" "overlay_inv ov2" using overlay.Update_keeps b(1) assms(9,10) by blast+
  have new: "tx_rw (DB_begin ks db) = NewOverlay (Store_reader ks (db_store db)) NewBuffer" by (simp add: DB_begin_def)
  have d: "old ! nat (i_Pos ix) \<noteq> new1 ! nat (i_Pos ix)" "old ! nat (i_Pos ix) \<noteq> new2 ! nat (i_Pos ix)" "new1 ! nat (i_Pos ix) \<noteq> new2 ! nat (i_Pos ix)"
    using assms(8) by auto
  note buf1 = update_buffers [OF assms(3,4,6) d(1) assms(9) [unfolded new]]
    and buf2 = update_buffers [OF assms(3,5,7) d(2) assms(10) [unfolded new]]
  obtain tx1 db1 where c1: "Tx_Commit ks ((DB_begin ks db)\<lparr>tx_rw := ov1\<rparr>) db = (None, tx1, db1)" "good (db_store db1)"
    "view (db_store db1) = overlay_map (view (db_store db)) (Lookup (Buf ov1))"
    using keel.commit [OF assms(1,2), of "(DB_begin ks db)\<lparr>tx_rw := ov1\<rparr>"] inv(1) b(4) by auto
  obtain tx2 db2 where c2: "Tx_Commit ks ((DB_begin ks db)\<lparr>tx_rw := ov2\<rparr>) db1 = (None, tx2, db2)"
    "view (db_store db2) = overlay_map (view (db_store db1)) (Lookup (Buf ov2))"
    using keel.commit [OF assms(1) c1(2), of "(DB_begin ks db)\<lparr>tx_rw := ov2\<rparr>"] inv(2) b(4) by auto
  have row: "view (db_store db2) ?key = Some (EncodeRow [] new2)" by (simp add: c2(2) buf2 overlay_map_def)
  have entry: "view (db_store db2) (?entry new1) = Some []"
    using d by (simp add: c2(2) c1(3) buf1 buf2 overlay_map_def)
  have "\<not> table_holds t (view (db_store db2)) R" for R
  proof
    assume h: "table_holds t (view (db_store db2)) R"
    then have "R (row_pk t old) = Some new2" using row held_row [OF h] validate_is_row [OF assms(5)] by blast
    then show False using h entry d(3) assms(3) by (auto simp: table_holds_def index_held_def split: if_splits)
  qed
  then show ?thesis using c1(1) c2(1) row entry by blast
qed

lemma concurrent_updates_break_index_witness:
  "\<exists>st ov1 ov2 tx1 db1 tx2 db2. let db = \<lparr>db_store = st, db_cat = sample_catalog\<rparr> in
    table_holds sample_indexed (memory_view st) sample_rows \<and>
    Tx_Commit memory_keel ((DB_begin memory_keel db)\<lparr>tx_rw := ov1\<rparr>) db = (None, tx1, db1) \<and>
    Tx_Commit memory_keel ((DB_begin memory_keel db)\<lparr>tx_rw := ov2\<rparr>) db1 = (None, tx2, db2) \<and>
    (\<forall>R. \<not> table_holds sample_indexed (memory_view (db_store db2)) R)"
proof -
  obtain st where st: "memory_inv st" "table_holds sample_indexed (memory_view st) sample_rows"
    by (rule sample_memory_holds)
  let ?db = "\<lparr>db_store = st, db_cat = sample_catalog\<rparr>" and ?old = "[VInt 2, VNull]"
  have good: "memory_inv (db_store ?db)" and ix: "t_Indexes sample_indexed = [sample_index]"
    and v: "validate sample_indexed [VInt 2, VText s] = Inr [VInt 2, VText s]"
    and pk: "row_pk sample_indexed [VInt 2, VText s] = row_pk sample_indexed ?old"
    and d: "distinct [?old ! nat (i_Pos sample_index), [VInt 2, VText ''ann''] ! nat (i_Pos sample_index),
      [VInt 2, VText ''bob''] ! nat (i_Pos sample_index)]" for s
    using st(1) by (simp_all add: sample_validate sample_index_def)
  have "\<exists>ov. Mutator_Update Overlay_rw sample_indexed ?old [VInt 2, VText s] (tx_rw (DB_begin memory_keel ?db)) = (None, ov)" for s
    by (simp add: Mutator_Update_def rewrite_row_def put_row_def writeIndexes_def Let_def sample_validate Equal_def
        Overlay_rw_def Overlay_Put_def Overlay_Delete_def Buffer_Put_def Buffer_Delete_def)
  then obtain ov1 ov2 where
    "Mutator_Update Overlay_rw sample_indexed ?old [VInt 2, VText ''ann''] (tx_rw (DB_begin memory_keel ?db)) = (None, ov1)"
    "Mutator_Update Overlay_rw sample_indexed ?old [VInt 2, VText ''bob''] (tx_rw (DB_begin memory_keel ?db)) = (None, ov2)"
    by blast
  from concurrent_updates_break_index [OF memory_db.keel_axioms good ix v v pk pk d this] st(2) show ?thesis
    unfolding Let_def by blast
qed

end
