(* ===== verification/Targets.thy ===== *)
theory Targets
  imports Queries
begin

text \<open>
  INSERT, UPDATE and DELETE whatever their conditions are and whether they evaluate or not: the table they
  work on holds some rows afterwards, each index has its entries, and no other key has changed.
\<close>

section \<open>Statements over arbitrary conditions\<close>

text \<open>UPDATE and DELETE read rows of the table, each once, until the input ends or the condition fails to
  evaluate.\<close>

definition hands_out :: "Table \<Rightarrow> Operator \<Rightarrow> Row list \<Rightarrow> bool" where
  "hands_out t op rs \<longleftrightarrow> base_op t (full_mask t) op rs \<or>
     (\<exists>b pred env. op = OpFilter b pred env \<and> base_op t (full_mask t) b rs)"

lemma base_next_full:
  assumes h: "reads rd m" "table_holds t m R" and rs: "set rs \<subseteq> ran R" and op: "base_op t (full_mask t) op rs"
  obtains op' where "base_op t (full_mask t) op' (tl rs)" and "op_next (Suc d) rd op =
    Some (case rs of [] \<Rightarrow> Inr None | row # _ \<Rightarrow> Inr (Some row), op')"
proof -
  have "masked (full_mask t) row = row" if "row \<in> set rs" for row
    using table_holds_row(2) [OF h(2)] that rs masked_full by (auto simp: full_mask_def)
  then have "map (masked (full_mask t)) rs = rs" by (intro map_idI)
  then show thesis
    using base_next [OF h _ rs op, of d] that by (cases rs) (auto simp: full_mask_def)
qed

lemma filter_step:
  assumes h: "reads rd m" "table_holds t m R"
    and "base_op t (full_mask t) b rs" and "set rs \<subseteq> ran R" and "length rs < n"
  shows "\<exists>x b' rest. filter_loop (op_next (Suc d) rd) n pred env b = Some (x, b') \<and>
    base_op t (full_mask t) b' rest \<and> (\<forall>row. x = Inr (Some row) \<longrightarrow> suffix (row # rest) rs)"
  using assms(3-)
proof (induction n arbitrary: b rs)
  case (Suc n)
  obtain b' where b': "base_op t (full_mask t) b' (tl rs)" "op_next (Suc d) rd b =
      Some (case rs of [] \<Rightarrow> Inr None | row # _ \<Rightarrow> Inr (Some row), b')"
    by (rule base_next_full [OF h Suc.prems(2,1)])
  show ?case
  proof (cases rs)
    case Nil
    then show ?thesis using b' by auto
  next
    case (Cons row rest)
    have "\<exists>x b'' rest'. filter_loop (op_next (Suc d) rd) n pred env b' = Some (x, b'') \<and>
        base_op t (full_mask t) b'' rest' \<and> (\<forall>row. x = Inr (Some row) \<longrightarrow> suffix (row # rest') rest)"
      by (rule Suc.IH) (use b' Suc.prems Cons in auto)
    then obtain x b'' rest' where later: "filter_loop (op_next (Suc d) rd) n pred env b' = Some (x, b'')"
      "base_op t (full_mask t) b'' rest'" "\<And>row. x = Inr (Some row) \<Longrightarrow> suffix (row # rest') rest"
      by blast
    show ?thesis
    proof (cases "EvalPredicate pred (Some env) row")
      case (Inr tv)
      then show ?thesis
        using b' Cons later(1,2) suffix_ConsI [OF later(3), of _ row] by (cases "B3IsTrue tv") auto
    qed (use b' Cons in auto)
  qed
qed simp

lemma hands_out_next:
  assumes h: "reads rd m" "table_holds t m R" and op: "hands_out t op rs" and rs: "set rs \<subseteq> ran R"
  obtains x op' rest where "op_Next rd op = Some (x, op')" and "hands_out t op' rest"
    and "\<And>row. x = Inr (Some row) \<Longrightarrow> suffix (row # rest) rs"
proof (cases "base_op t (full_mask t) op rs")
  case True
  obtain op' where "base_op t (full_mask t) op' (tl rs)" "op_Next rd op =
      Some (case rs of [] \<Rightarrow> Inr None | row # _ \<Rightarrow> Inr (Some row), op')"
    using base_next_full [OF h rs True, of 0] base_op_depth [OF True] by (auto simp: op_Next_def)
  then show thesis
    using that [of _ op' "tl rs"] by (cases rs) (auto simp: hands_out_def)
next
  case False
  then obtain b pred env where b: "op = OpFilter b pred env" "base_op t (full_mask t) b rs"
    using op by (auto simp: hands_out_def)
  obtain x b' rest where x: "filter_loop (op_next 1 rd) (Suc (op_size b)) pred env b = Some (x, b')"
      "base_op t (full_mask t) b' rest" "\<forall>row. x = Inr (Some row) \<longrightarrow> suffix (row # rest) rs"
    using filter_step [OF h b(2) rs, of "Suc (op_size b)" 0 pred env] base_op_size [OF b(2)] by (simp del: filter_loop.simps) blast
  have "op_Next rd op = Some (x, OpFilter b' pred env)"
    using base_op_depth [OF b(2)] x(1) by (simp add: op_Next_def b(1) op_next.simps(2) [of "Suc 0"] del: filter_loop.simps)
  then show thesis using that x by (auto simp: hands_out_def)
qed

text \<open>The input of a plan the planner makes.\<close>

lemma target_hands_out:
  assumes h: "reads rd m" "table_holds t m R"
  obtains op rs where "Build (target_of t w) rd = Inr op" and "hands_out t op rs" and "op_size op = length rs"
    and "set rs \<subseteq> ran R" and "distinct (map (row_pk t) rs)"
proof -
  let ?cs = "splitConjuncts w"
  let ?scan = "path_build (choosePath t ?cs) (full_mask t)"
  have "scan_fits t (full_mask t) ?scan"
    using choosePath_inv [of t ?cs] by (auto simp: path_inv_def path_build_def split: option.splits)
  then obtain b rs where b: "Build ?scan rd = Inr b" "base_op t (full_mask t) b rs"
    and rs: "lists (order_key ?scan) {row \<in> ran R. between_bounds ?scan row} rs"
    by (rule scan_base [OF h])
  have sub: "set rs \<subseteq> ran R" using rs by (auto simp: lists_def)
  have "distinct rs" using lists_distinct [OF rs] by (simp add: distinct_map)
  then have dist: "distinct (map (row_pk t) rs)"
    using sub table_holds_inj [OF h(2)] by (simp add: distinct_map inj_on_subset)
  have T: "target_of t w = filter_over (path_residual (choosePath t ?cs) ?cs) (TableEnv t) ?scan"
    by (simp add: target_of_def Let_def full_mask_def fullMask_def)
  show thesis
  proof (cases "joinConjuncts (path_residual (choosePath t ?cs) ?cs)")
    case None
    then have "target_of t w = ?scan" by (simp add: T filter_over_def)
    then show thesis using that [of b rs] b sub dist base_op_size [OF b(2)] by (simp add: hands_out_def)
  next
    case (Some pred)
    then have "target_of t w = PFilter ?scan pred (TableEnv t)" by (simp add: T filter_over_def)
    then show thesis
      using that [of "OpFilter b pred (TableEnv t)" rs] b sub dist base_op_size [OF b(2)] by (simp add: hands_out_def)
  qed
qed

context read_writer begin

lemma change_loop_leaves:
  assumes f: "does t f g" and st: "inv st" "table_holds t (view st) R"
    and op: "hands_out t op rs" and rs: "set rs \<subseteq> ran R" "distinct (map (row_pk t) rs)" and n: "length rs < n"
  shows "\<exists>cnt' err st' R'. change_loop rw f n op cnt st = Some (cnt', err, st') \<and> leaves t st st' R'"
  using st op rs n
proof (induction n arbitrary: st R op rs cnt)
  case (Suc n)
  obtain x op' rest where x: "op_Next (rw_reader rw st) op = Some (x, op')" "hands_out t op' rest"
      "\<And>row. x = Inr (Some row) \<Longrightarrow> suffix (row # rest) rs"
    by (rule hands_out_next [OF reader [OF Suc.prems(1)] Suc.prems(2-4)]) blast
  have stay: "leaves t st st R" using Suc.prems(1,2) by (simp add: leaves_def)
  show ?case
  proof (cases "\<exists>row. x = Inr (Some row)")
    case False
    then have "\<exists>err. change_loop rw f (Suc n) op cnt st = Some (cnt, err, st)"
      using x(1) by (auto split: sum.split option.split)
    then show ?thesis using stay by blast
  next
    case True
    then obtain row where row: "x = Inr (Some row)" by blast
    have sub: "set (row # rest) \<subseteq> set rs" using x(3) [OF row] by (rule set_mono_suffix)
    then have R: "R (row_pk t row) = Some row"
      using Suc.prems(4) table_holds_row(1) [OF Suc.prems(2)] by auto
    let ?R = "snd (g row R)"
    obtain st1 where st1: "f row st = (fst (g row R), st1)" "leaves t st st1 ?R"
      using f Suc.prems(1,2) R unfolding does_def by blast
    show ?thesis
    proof (cases "fst (g row R)")
      case (Some e)
      then show ?thesis using x(1) row st1 by auto
    next
      case None
      have dist: "distinct (map (row_pk t) (row # rest))"
        using Suc.prems(5) x(3) [OF row] by (auto simp: suffix_def)
      have "set rest \<subseteq> ran ?R"
        using f Suc.prems(2) _ dist None by (rule does_rest) (use sub Suc.prems(4) in auto)
      moreover have "length rest < n" using Suc.prems(6) suffix_length_le [OF x(3) [OF row]] by simp
      moreover have "inv st1" "table_holds t (view st1) ?R" using st1(2) by (simp_all add: leaves_def)
      ultimately obtain cnt' err st' R' where "change_loop rw f n op' (cnt + 1) st1 = Some (cnt', err, st')"
          "leaves t st1 st' R'"
        using Suc.IH [of st1 ?R op' rest "cnt + 1"] x(2) dist by auto
      then show ?thesis using x(1) row st1 None leaves_trans [OF st1(2)] by auto
    qed
  qed
qed simp

end

text \<open>Whatever INSERT, UPDATE or DELETE answers, the table it works on holds some rows afterwards, each index
  its entries, and nothing else has changed.\<close>

definition writes_table :: "Table \<Rightarrow> Plan \<Rightarrow> bool" where
  "writes_table t p \<longleftrightarrow>
     (\<exists>rows cols. p = PInsert t rows cols) \<or> (\<exists>w. p = PDelete t (target_of t w)) \<or>
     (\<exists>w sets env. p = PUpdate t (target_of t w) sets env \<and> c_Type (PKColumn t) \<noteq> KindFloat)"

lemma change_target_leaves:
  assumes "overlay_inv st" and "table_holds t (overlay_view st) R" and f: "overlay.does t f g"
  obtains op n err st' R' where "Build (target_of t w) (rw_reader Overlay_rw st) = Inr op"
    and "change_loop Overlay_rw f (Suc (op_size op)) op 0 st = Some (n, err, st')" and "overlay.leaves t st st' R'"
proof -
  obtain op rs where op: "Build (target_of t w) (rw_reader Overlay_rw st) = Inr op" "hands_out t op rs" "op_size op = length rs"
    "set rs \<subseteq> ran R" "distinct (map (row_pk t) rs)"
    by (rule target_hands_out [OF overlay.reader [OF assms(1)] assms(2)])
  then show thesis
    using overlay.change_loop_leaves [OF f assms(1,2) op(2,4,5), of "Suc (op_size op)" 0] that [OF op(1)] by auto
qed

lemma RunDML_leaves:
  assumes st: "overlay_inv st" "table_holds t (overlay_view st) R" and t: "table_ok t" and p: "writes_table t p"
  shows "\<exists>n err st' R'. RunDML Overlay_rw p st = Some (n, err, st') \<and> overlay.leaves t st st' R'"
proof -
  have ids: "distinct (map i_ID (t_Indexes t))" using t by (simp add: table_ok_def)
  from p consider (ins) rows cols where "p = PInsert t rows cols" | (del) w where "p = PDelete t (target_of t w)"
    | (upd) w sets env where "p = PUpdate t (target_of t w) sets env" "c_Type (PKColumn t) \<noteq> KindFloat"
    by (auto simp: writes_table_def)
  then show ?thesis
  proof cases
    case ins
    then show ?thesis using INSERT_adds_rows [OF st t] by (fastforce simp: overlay.leaves_def)
  next
    case del
    obtain op n err st' R' where "Build (target_of t w) (rw_reader Overlay_rw st) = Inr op"
      "change_loop Overlay_rw (Mutator_Delete Overlay_rw t) (Suc (op_size op)) op 0 st = Some (n, err, st')"
      "overlay.leaves t st st' R'"
      by (rule change_target_leaves [OF st overlay.delete_does [OF ids]])
    then show ?thesis by (auto simp: del runDelete_def simp del: change_loop.simps)
  next
    case upd
    obtain op n err st' R' where "Build (target_of t w) (rw_reader Overlay_rw st) = Inr op"
      "change_loop Overlay_rw (update_one Overlay_rw t sets env) (Suc (op_size op)) op 0 st = Some (n, err, st')"
      "overlay.leaves t st st' R'"
      by (rule change_target_leaves [OF st update_one_does [OF t upd(2)]])
    then show ?thesis by (auto simp: upd runUpdate_def simp del: change_loop.simps)
  qed
qed

end
