(* ===== verification/Schema.thy ===== *)
theory Schema
  imports Transactions Targets
begin

text \<open>
  The invariant of a database: the catalog is valid and the store holds it, every table's keys are its
  rows with one entry per row and index, and no other key exists.  CREATE and DROP of tables and indexes
  keep it, and what else they do.
\<close>

section \<open>The invariant of a database\<close>

text \<open>Every key is the catalog's or belongs to a table: nothing is left over.\<close>

definition meta_key :: "bytes \<Rightarrow> bool" where
  "meta_key k \<longleftrightarrow> k \<noteq> [] \<and> hd k = PrefixMeta"

definition claimed :: "(string \<rightharpoonup> Table) \<Rightarrow> bytes \<Rightarrow> bool" where
  "claimed T k \<longleftrightarrow> meta_key k \<or> (\<exists>n t. T n = Some t \<and> table_key t k)"

definition tables_stored :: "(bytes \<rightharpoonup> bytes) \<Rightarrow> (string \<rightharpoonup> Table) \<Rightarrow> bool" where
  "tables_stored m T \<longleftrightarrow>
     (\<forall>n t. T n = Some t \<longrightarrow> (\<exists>R. table_holds t m R)) \<and> (\<forall>k. m k \<noteq> None \<longrightarrow> claimed T k)"

definition db_sound :: "json \<Rightarrow> (bytes \<rightharpoonup> bytes) \<Rightarrow> Catalog \<Rightarrow> bool" where
  "db_sound js m cat \<longleftrightarrow> catalog_ok cat \<and> synced js m cat \<and> tables_stored m (map_of (cat_tables cat))"

lemma meta_keys [simp]: "meta_key (MetaTableKey n)" "meta_key MetaSeqKey"
  by (simp_all add: meta_key_def)

lemma meta_key_not_table [simp]: "meta_key k \<Longrightarrow> \<not> table_key t k"
  by (auto simp: meta_key_def table_key_def DataPrefix_bytes IndexPrefix_bytes prefix_def PrefixMeta_def PrefixData_def PrefixIndex_def)

lemma table_key_prefixes:
  "prefix (DataPrefix i) k \<Longrightarrow> table_key t k \<longleftrightarrow> t_ID t = i"
  "prefix (IndexPrefix i j) k \<Longrightarrow> table_key t k \<longleftrightarrow> t_ID t = i \<and> j \<in> i_ID ` set (t_Indexes t)"
proof -
  have data: "prefix (DataPrefix a) k \<Longrightarrow> prefix (DataPrefix b) k \<longleftrightarrow> a = b" for a b
    by (metis DataPrefix_inj length_DataPrefix prefix_length_prefix prefix_order.dual_order.eq_iff order_refl)
  have idx: "prefix (IndexPrefix a c) k \<Longrightarrow> prefix (IndexPrefix b d) k \<longleftrightarrow> a = b \<and> c = d" for a b c d
    by (metis IndexPrefix_inj length_IndexPrefix prefix_length_prefix prefix_order.dual_order.eq_iff order_refl)
  have kinds: "\<not> (prefix (DataPrefix a) k \<and> prefix (IndexPrefix b c) k)" for a b c
    by (auto simp: DataPrefix_bytes IndexPrefix_bytes prefix_def PrefixData_def PrefixIndex_def)
  show "prefix (DataPrefix i) k \<Longrightarrow> table_key t k \<longleftrightarrow> t_ID t = i"
    using data [of i "t_ID t"] kinds by (auto simp: table_key_def)
  show "prefix (IndexPrefix i j) k \<Longrightarrow> table_key t k \<longleftrightarrow> t_ID t = i \<and> j \<in> i_ID ` set (t_Indexes t)"
    using idx [of i j "t_ID t"] kinds by (auto simp: table_key_def)
qed

lemma table_key_ID: "table_key t k \<Longrightarrow> table_key u k \<Longrightarrow> t_ID t = t_ID u"
  using table_key_prefixes by (metis table_key_def)

lemma table_holds_cong:
  assumes "\<And>k. table_key t k \<Longrightarrow> m' k = m k" and "table_holds t m R"
  shows "table_holds t m' R"
proof -
  have "m' (RowKey (t_ID t) pk) = m (RowKey (t_ID t) pk)" for pk
    by (rule assms) (simp add: table_key_def)
  moreover have "prefix (DataPrefix (t_ID t)) k \<Longrightarrow> m' k = m k" for k
    by (rule assms) (simp add: table_key_def)
  moreover have "prefix (IndexPrefix (t_ID t) (i_ID ix)) k \<Longrightarrow> m' k = m k" if "ix \<in> set (t_Indexes t)" for ix k
    by (rule assms) (use that in \<open>auto simp: table_key_def\<close>)
  ultimately show ?thesis
    using assms(2) by (auto simp: table_holds_def rows_held_def index_held_def)
qed

lemma table_holds_unique:
  assumes "table_holds t m Q" and "table_holds t m R"
  shows "Q = R"
proof
  fix pk
  have same: "map_option (EncodeRow []) (Q pk) = map_option (EncodeRow []) (R pk)"
    using assms by (simp add: table_holds_def rows_held_def)
  show "Q pk = R pk"
  proof (cases "Q pk")
    case (Some row)
    with same obtain row' where row': "R pk = Some row'" "EncodeRow [] row' = EncodeRow [] row"
      by (cases "R pk") auto
    have "is_row t row" "is_row t row'"
      using assms Some row'(1) by (auto simp: table_holds_def rows_ok_def)
    then have "Inr row' = (Inr row :: codec_error + Row)"
      using DecodeStoredRow_row [of t row] DecodeStoredRow_row [of t row'] row'(2) by auto
    then show ?thesis using Some row'(1) by simp
  qed (use same in simp)
qed

lemma synced_cong:
  assumes "\<And>k. meta_key k \<Longrightarrow> m' k = m k"
  shows "synced js m' cat \<longleftrightarrow> synced js m cat"
  using assms table_entry_cong [of m' _ m js] by (simp add: synced_def)

lemma same_data_key: "same_data m m' \<Longrightarrow> \<not> meta_key k \<Longrightarrow> m' k = m k"
  by (auto simp: same_data_def meta_key_def)

lemma claimed_upd:
  assumes "claimed T k" and "\<And>t. T n = Some t \<Longrightarrow> \<not> table_key t k"
  shows "claimed (T(n := r)) k"
proof (cases "meta_key k")
  case False
  then obtain n' u where "T n' = Some u" "table_key u k" using assms(1) by (auto simp: claimed_def)
  then have "(T(n := r)) n' = Some u" using assms(2) by auto
  then show ?thesis using \<open>table_key u k\<close> unfolding claimed_def by blast
qed (simp add: claimed_def)

text \<open>What replaces the table under one name keeps the invariant of the store when the keys of the other
  tables stay and the keys the table gives up are removed.\<close>

lemma tables_stored_update:
  assumes "tables_stored m T" and T: "tables_ok T N" "T n = Some t" and up: "t_ID up = t_ID t" "table_holds up m' R"
    and same: "\<And>k. \<not> meta_key k \<Longrightarrow> \<not> table_key t k \<Longrightarrow> \<not> table_key up k \<Longrightarrow> m' k = m k"
    and gone: "\<And>k. table_key t k \<Longrightarrow> \<not> table_key up k \<Longrightarrow> m' k = None"
  shows "tables_stored m' (T(n \<mapsto> up))"
proof -
  have other: "table_holds u m' Q" if "T n' = Some u" "n' \<noteq> n" "table_holds u m Q" for n' u Q
  proof (rule table_holds_cong [OF _ that(3)])
    have u: "t_ID u \<noteq> t_ID t" by (rule tables_okD(4) [OF T that(1,2)])
    show "m' k = m k" if k: "table_key u k" for k
    proof (rule same)
      show "\<not> meta_key k" using k meta_key_not_table by blast
      show "\<not> table_key t k" "\<not> table_key up k" using u up(1) table_key_ID [OF k] by auto
    qed
  qed
  have "claimed (T(n \<mapsto> up)) k" if "m' k \<noteq> None" for k
  proof (cases "meta_key k \<or> table_key up k")
    case False
    then have "\<not> table_key t k" using False that gone [of k] by auto
    moreover from this have "m k \<noteq> None" using False that same [of k] by simp
    then have "claimed T k" using assms(1) by (simp add: tables_stored_def)
    ultimately show ?thesis using T(2) by (auto intro: claimed_upd)
  qed (auto simp: claimed_def)
  moreover have "\<exists>Q. table_holds u m' Q" if u: "(T(n \<mapsto> up)) n' = Some u" for n' u
  proof (cases "n' = n")
    case False
    then have old: "T n' = Some u" using u by simp
    then obtain Q where "table_holds u m Q" using assms(1) unfolding tables_stored_def by blast
    then show ?thesis using other [OF old False] by blast
  qed (use u up(2) in auto)
  ultimately show ?thesis by (auto simp: tables_stored_def)
qed

lemma tables_stored_write:
  assumes "tables_stored m T" and "tables_ok T N" "T n = Some t" and "table_holds t m' R" "same_elsewhere t m m'"
  shows "tables_stored m' T"
  using tables_stored_update [OF assms(1-3) refl assms(4)] assms(3,5) by (simp add: same_elsewhere_def fun_upd_idem)

lemma tables_stored_new:
  assumes "tables_stored m T" and T: "tables_ok T N" "T n = None" and t: "t_ID t = N"
    and same: "\<And>k. \<not> meta_key k \<Longrightarrow> m' k = m k"
  shows "tables_stored m' (T(n \<mapsto> t))"
proof -
  have "m' k = None" if key: "table_key t k" for k
  proof -
    have "\<not> claimed T k"
    proof
      assume "claimed T k"
      then obtain n' u where "T n' = Some u" "table_key u k"
        using key meta_key_not_table [of k t] by (auto simp: claimed_def)
      then show False using table_key_ID [OF key] tables_okD(3) [OF T(1)] t by fastforce
    qed
    then show ?thesis using assms(1) same [of k] by (auto simp: tables_stored_def claimed_def)
  qed
  then have "table_holds t m' Map.empty" by (rule table_holds_empty)
  moreover have "\<exists>Q. table_holds u m' Q" if u: "T n' = Some u" for n' u
  proof -
    obtain Q where "table_holds u m Q" using assms(1) u unfolding tables_stored_def by blast
    then have "table_holds u m' Q" by (rule table_holds_cong [rotated]) (auto intro: same dest: meta_key_not_table)
    then show ?thesis by blast
  qed
  moreover have "claimed (T(n \<mapsto> t)) k" if "m' k \<noteq> None" for k
  proof (cases "meta_key k")
    case False
    then have "claimed T k" using that assms(1) same [of k] by (auto simp: tables_stored_def)
    then show ?thesis by (rule claimed_upd) (simp add: T(2))
  qed (simp add: claimed_def)
  ultimately show ?thesis by (auto simp: tables_stored_def)
qed

lemma tables_stored_drop:
  assumes "tables_stored m T" and T: "tables_ok T N" "T n = Some t"
    and same: "\<And>k. \<not> meta_key k \<Longrightarrow> m' k = (if table_key t k then None else m k)"
  shows "tables_stored m' (T(n := None))"
proof -
  have "\<exists>Q. table_holds u m' Q" if u: "T n' = Some u" "n' \<noteq> n" for n' u
  proof -
    obtain Q where "table_holds u m Q" using assms(1) u(1) unfolding tables_stored_def by blast
    moreover have "m' k = m k" if "table_key u k" for k
    proof -
      have "\<not> table_key t k" using that table_key_ID [of u k t] tables_okD(4) [OF T u] by blast
      moreover have "\<not> meta_key k" using that meta_key_not_table by blast
      ultimately show ?thesis using same by simp
    qed
    ultimately show ?thesis using table_holds_cong by blast
  qed
  moreover have "claimed (T(n := None)) k" if "m' k \<noteq> None" for k
  proof (cases "meta_key k")
    case False
    then have "claimed T k" "\<not> table_key t k"
      using that same [of k] assms(1) by (auto simp: tables_stored_def split: if_splits)
    then show ?thesis using T(2) by (auto intro: claimed_upd)
  qed (simp add: claimed_def)
  ultimately show ?thesis by (auto simp: tables_stored_def)
qed

section \<open>Schema changes keep it\<close>

text \<open>The builder of an index reads the columns of the table only.\<close>

lemma BuildIndex_columns:
  "BuildIndex rw (t\<lparr>t_NextIndexID := i, t_Indexes := ixs\<rparr>) ix st = BuildIndex rw t ix st"
proof -
  have "index_entries (t\<lparr>t_NextIndexID := i, t_Indexes := ixs\<rparr>) ix ps = index_entries t ix ps" for ps
    by (induction t ix ps rule: index_entries.induct) (simp_all add: DecodeStoredRow_def split: sum.split)
  then show ?thesis by (simp add: BuildIndex_def)
qed

lemma table_holds_old_index:
  assumes h: "table_holds t m R" and ids: "distinct (map i_ID (t_Indexes t))" and ix: "ix \<in> set (t_Indexes t)"
    and up: "up = t\<lparr>t_Indexes := filter (\<lambda>keep. i_Name keep \<noteq> i_Name ix) (t_Indexes t)\<rparr>"
    and m': "\<And>k. table_key t k \<Longrightarrow> m' k = (if prefix (IndexPrefix (t_ID t) (i_ID ix)) k then None else m k)"
  shows "table_holds up m' R"
proof -
  have "table_holds up m R"
    using h by (auto simp: table_holds_def up rows_ok_def is_row_def rows_held_def index_held_def)
  then show ?thesis
  proof (rule table_holds_cong [rotated])
    fix k assume k: "table_key up k"
    have "\<not> prefix (IndexPrefix (t_ID t) (i_ID ix)) k"
    proof
      assume "prefix (IndexPrefix (t_ID t) (i_ID ix)) k"
      then have "i_ID ix \<in> i_ID ` set (t_Indexes up)" using k table_key_prefixes(2) by blast
      then obtain x where "x \<in> set (t_Indexes t)" "i_Name x \<noteq> i_Name ix" "i_ID x = i_ID ix" by (auto simp: up)
      then show False using ids ix by (auto simp: distinct_map dest: inj_onD)
    qed
    moreover have "table_key t k" using k by (auto simp: table_key_def up)
    ultimately show "m' k = m k" using m' by simp
  qed
qed

lemma meta_key_not_prefix: "meta_key k \<Longrightarrow> \<not> prefix (IndexPrefix i j) k"
  by (auto simp: meta_key_def IndexPrefix_bytes prefix_def PrefixMeta_def PrefixIndex_def)

lemma fresh_index_keys:
  assumes m: "tables_stored m T" and T: "tables_ok T N" "T n = Some t"
    and new: "i \<notin> i_ID ` set (t_Indexes t)" and k: "prefix (IndexPrefix (t_ID t) i) k"
  shows "m k = None"
proof (rule ccontr)
  assume "m k \<noteq> None"
  then have "claimed T k" using m by (simp add: tables_stored_def)
  then obtain n' u where u: "T n' = Some u" "table_key u k"
    using k meta_key_not_prefix by (auto simp: claimed_def)
  then have id: "t_ID u = t_ID t" "i \<in> i_ID ` set (t_Indexes u)" using table_key_prefixes(2) [OF k] by auto
  then have "u = t" using tables_okD(4) [OF T u(1)] u(1) T(2) by fastforce
  then show False using id(2) new by simp
qed

lemma tables_stored_new_index:
  assumes m: "tables_stored m T" and T: "tables_ok T N" "T n = Some t" and R: "table_holds t m R"
    and new: "i_ID ix \<notin> i_ID ` set (t_Indexes t)"
    and up: "up = t\<lparr>t_NextIndexID := i, t_Indexes := t_Indexes t @ [ix]\<rparr>"
    and m1: "\<And>k. \<not> meta_key k \<Longrightarrow> m1 k = m k"
    and m': "m' = (\<lambda>k. if k \<in> entry_key t ix ` ran R then Some [] else m1 k)"
  shows "table_holds up m' R"
    and "\<And>k. \<not> meta_key k \<Longrightarrow> \<not> prefix (IndexPrefix (t_ID t) (i_ID ix)) k \<Longrightarrow> m' k = m k"
    and "\<And>k. meta_key k \<Longrightarrow> m' k = m1 k" and "tables_stored m' (T(n \<mapsto> up))"
proof -
  have none: "m1 k = None" if k: "prefix (IndexPrefix (t_ID t) (i_ID ix)) k" for k
    using fresh_index_keys [OF m T new k] m1 [of k] meta_key_not_prefix k by auto
  have "table_holds t m1 R" by (rule table_holds_cong [OF m1 R]) (auto dest: meta_key_not_table)
  then show holds: "table_holds up m' R"
    using none unfolding m' by (rule table_holds_new_index) (use new in \<open>simp_all add: up\<close>)
  show same: "m' k = m k" if "\<not> meta_key k" "\<not> prefix (IndexPrefix (t_ID t) (i_ID ix)) k" for k
    using that m1 [OF that(1)] by (auto simp: m')
  show "m' k = m1 k" if "meta_key k" for k
    using meta_key_not_prefix [OF that, of "t_ID t" "i_ID ix"] by (auto simp: m')
  show "tables_stored m' (T(n \<mapsto> up))"
    by (rule tables_stored_update [OF m T _ holds]) (use same in \<open>auto simp: up table_key_def\<close>)
qed

lemma tables_stored_drop_index:
  assumes m: "tables_stored m T" and T: "tables_ok T N" "T n = Some t" and ix: "ix \<in> set (t_Indexes t)"
    and up: "up = t\<lparr>t_Indexes := filter (\<lambda>keep. i_Name keep \<noteq> i_Name ix) (t_Indexes t)\<rparr>"
    and m': "\<And>k. \<not> meta_key k \<Longrightarrow> m' k = (if prefix (IndexPrefix (t_ID t) (i_ID ix)) k then None else m k)"
  shows "tables_stored m' (T(n \<mapsto> up))"
proof -
  have tok: "table_ok t" by (rule tables_okD(2) [OF T])
  obtain R where R: "table_holds t m R" using m T(2) unfolding tables_stored_def by blast
  have "table_holds up m' R"
    using R _ ix up m' by (rule table_holds_old_index) (use tok in \<open>auto simp: table_ok_def dest: meta_key_not_table\<close>)
  then show ?thesis
  proof (rule tables_stored_update [OF m T, rotated])
    show "m' k = m k" if "\<not> meta_key k" "\<not> table_key t k" for k
      using m' that ix by (auto simp: table_key_def)
  next
    fix k assume k: "table_key t k" "\<not> table_key up k"
    obtain x where x: "x \<in> set (t_Indexes t)" "prefix (IndexPrefix (t_ID t) (i_ID x)) k" "i_Name x = i_Name ix"
      using k by (auto simp: table_key_def up)
    then have "x = ix" using tok ix by (auto simp: table_ok_def distinct_map dest: inj_onD)
    then show "m' k = None" using m' [of k] x(2) meta_key_not_prefix by auto
  qed (simp add: up)
qed

text \<open>A database in use: besides the invariant, room for \<open>n\<close> more tables and indexes in the 32-bit counters,
  and no FLOAT primary key, which UPDATE duplicates (\<open>update_equal_key_duplicates\<close>).\<close>

definition room :: "nat \<Rightarrow> Catalog \<Rightarrow> bool" where
  "room n cat \<longleftrightarrow> unat (cat_nextID cat) + n < 2 ^ 32 \<and>
     (\<forall>name t. map_of (cat_tables cat) name = Some t \<longrightarrow> unat (t_NextIndexID t) + n < 2 ^ 32)"

definition exact_keys :: "Catalog \<Rightarrow> bool" where
  "exact_keys cat \<longleftrightarrow> (\<forall>name t. map_of (cat_tables cat) name = Some t \<longrightarrow> c_Type (PKColumn t) \<noteq> KindFloat)"

definition healthy :: "json \<Rightarrow> nat \<Rightarrow> (bytes \<rightharpoonup> bytes) \<Rightarrow> Catalog \<Rightarrow> bool" where
  "healthy js n m cat \<longleftrightarrow> db_sound js m cat \<and> room n cat \<and> exact_keys cat"

text \<open>\<open>encoding/json\<close> reads back every schema that is well formed.\<close>

definition json_ok :: "json \<Rightarrow> bool" where
  "json_ok js \<longleftrightarrow> (\<forall>t. table_ok t \<longrightarrow> json_roundtrip js t)"

lemma counter_room:
  fixes w :: uint32
  assumes "unat w + Suc n < 2 ^ 32"
  shows "w + 1 \<noteq> 0" and "unat (w + 1) + n < 2 ^ 32"
proof -
  have "unat (w + 1) = Suc (unat w)" using assms by (simp add: unat_word_ariths)
  then show "w + 1 \<noteq> 0" and "unat (w + 1) + n < 2 ^ 32" using assms by auto
qed

lemma room_Suc: "room (Suc n) cat \<Longrightarrow> room n cat"
  by (fastforce simp: room_def)

lemma healthy_Suc: "healthy js (Suc n) m cat \<Longrightarrow> healthy js n m cat"
  by (simp add: healthy_def room_Suc)

lemma healthyD:
  assumes "healthy js n m cat"
  shows "catalog_ok cat" and "synced js m cat" and "tables_stored m (map_of (cat_tables cat))"
    and "tables_ok (map_of (cat_tables cat)) (cat_nextID cat)" and "room n cat" and "exact_keys cat"
  using assms catalog_ok_tables by (simp_all add: healthy_def db_sound_def)

lemma healthyI:
  "catalog_ok cat \<Longrightarrow> synced js m cat \<Longrightarrow> tables_stored m (map_of (cat_tables cat)) \<Longrightarrow> room n cat \<Longrightarrow>
     exact_keys cat \<Longrightarrow> healthy js n m cat"
  by (simp add: healthy_def db_sound_def)

text \<open>A new schema under a name.\<close>

lemma room_upd:
  assumes "room (Suc n) cat" and "map_of (cat_tables cat') = (map_of (cat_tables cat))(name \<mapsto> t)"
    and "cat_nextID cat' = cat_nextID cat \<or> cat_nextID cat' = cat_nextID cat + 1" and "unat (t_NextIndexID t) + n < 2 ^ 32"
  shows "room n cat'"
proof -
  have "unat (cat_nextID cat') + n < 2 ^ 32"
    using assms(1,3) counter_room(2) [of "cat_nextID cat" n] by (auto simp: room_def)
  moreover have "unat (t_NextIndexID u) + n < 2 ^ 32" if "map_of (cat_tables cat') name' = Some u" for name' u
    using that assms(1,2,4) by (fastforce simp: room_def split: if_splits)
  ultimately show ?thesis by (simp add: room_def)
qed

lemma exact_keys_upd:
  "exact_keys cat \<Longrightarrow> map_of (cat_tables cat') = (map_of (cat_tables cat))(name \<mapsto> t) \<Longrightarrow>
     c_Type (PKColumn t) \<noteq> KindFloat \<Longrightarrow> exact_keys cat'"
  by (auto simp: exact_keys_def split: if_splits)

sublocale keel \<subseteq> schema: catalog_store "Store_rw ks" view inv js for js
  by unfold_locales

context keel begin

lemma createTable_healthy:
  assumes db: "inv (db_store db)" "healthy js (Suc n) (view (db_store db)) (db_cat db)" and js: "json_ok js"
    and def: "Define (t_Name def) cols = Inr def" "c_Type (PKColumn def) \<noteq> KindFloat"
  shows "\<exists>err db'. ddl_createTable ks js def ine db = (err, db') \<and> inv (db_store db') \<and>
    healthy js n (view (db_store db')) (db_cat db') \<and>
    (if Has (db_cat db) (t_Name def) then db' = db \<and> err = (if ine then None else Some (CCatalog (ErrTableExists (t_Name def))))
     else err = None \<and> same_data (view (db_store db)) (view (db_store db')) \<and>
       map_of (cat_tables (db_cat db')) = (map_of (cat_tables (db_cat db)))
         (t_Name def \<mapsto> def\<lparr>t_ID := cat_nextID (db_cat db), t_NextIndexID := 1\<rparr>))"
proof (cases "Has (db_cat db) (t_Name def)")
  case True
  then show ?thesis using db healthy_Suc by (auto simp: ddl_createTable_def)
next
  case False
  let ?t = "def\<lparr>t_ID := cat_nextID (db_cat db), t_NextIndexID := 1\<rparr>"
  note d = Define_Inr [OF def(1)] and h = healthyD [OF db(2)]
  have free: "map_of (cat_tables (db_cat db)) (t_Name def) = None" using False by (simp add: Has_def)
  then have get: "Catalog_Get (db_cat db) (t_Name def) = Inl (ErrTableNotFound (t_Name def))" by (simp add: Catalog_Get_def)
  have "table_ok ?t" by (rule table_ok_new) (use d in blast)+
  then have round: "json_roundtrip js ?t" using js by (simp add: json_ok_def)
  have counter: "unat (cat_nextID (db_cat db)) + Suc n < 2 ^ 32" using h(5) by (simp add: room_def)
  obtain t st cat where C: "Create js (Store_rw ks) (db_store db) (db_cat db) def = (Inr t, st, cat)" and t: "t = ?t"
    and st: "inv st" "synced js (view st) cat" "catalog_ok cat" "same_data (view (db_store db)) (view st)"
    and cat: "map_of (cat_tables cat) = (map_of (cat_tables (db_cat db)))(t_Name def \<mapsto> t)" "cat_nextID cat = cat_nextID (db_cat db) + 1"
    using schema.Create_ok [OF db(1) h(2,1) get _ _ counter_room(1) [OF counter] round] d by blast
  have "tables_stored (view st) (map_of (cat_tables cat))"
    unfolding cat(1) by (rule tables_stored_new [OF h(3,4) free]) (simp_all add: t same_data_key [OF st(4)])
  moreover have "room n cat" by (rule room_upd [OF h(5) cat(1)]) (use cat(2) t counter in auto)
  moreover have "exact_keys cat" by (rule exact_keys_upd [OF h(6) cat(1)]) (use def(2) t in \<open>simp add: PKColumn_def\<close>)
  ultimately have "healthy js n (view st) cat" using st(2,3) by (intro healthyI)
  then show ?thesis using False C st(1,4) cat(1) t by (simp add: ddl_createTable_def)
qed

lemma dropTable_healthy:
  assumes db: "inv (db_store db)" "healthy js n (view (db_store db)) (db_cat db)"
  shows "\<exists>err db'. ddl_dropTable ks name ie db = (err, db') \<and> inv (db_store db') \<and>
    healthy js n (view (db_store db')) (db_cat db') \<and>
    (case map_of (cat_tables (db_cat db)) name of
       None \<Rightarrow> db' = db \<and> err = (if ie then None else Some (CCatalog (ErrTableNotFound name)))
     | Some t \<Rightarrow> err = None \<and> map_of (cat_tables (db_cat db')) = (map_of (cat_tables (db_cat db)))(name := None) \<and>
         (\<forall>k. \<not> meta_key k \<longrightarrow> view (db_store db') k = (if table_key t k then None else view (db_store db) k)))"
proof (cases "map_of (cat_tables (db_cat db)) name")
  case None
  then show ?thesis using db by (simp add: ddl_dropTable_def Catalog_Get_def)
next
  case (Some t)
  note h = healthyD [OF db(2)]
  obtain st1 where st1: "DropTableData (Store_rw ks) t (db_store db) = (None, st1)" "inv st1"
    and v1: "view st1 = (\<lambda>k. if prefix (DataPrefix (t_ID t)) k \<or>
      (\<exists>ix \<in> set (t_Indexes t). prefix (IndexPrefix (t_ID t) (i_ID ix)) k) then None else view (db_store db) k)"
    by (rule store.DropTableData_view [OF db(1)])
  have v1: "view st1 = (\<lambda>k. if table_key t k then None else view (db_store db) k)"
    by (simp add: v1 table_key_def)
  have "synced js (view st1) (db_cat db)" using h(2) by (subst synced_cong [of _ "view (db_store db)"]) (simp_all add: v1)
  from schema.Drop_ok [OF st1(2) this h(1) Some]
  obtain st cat where D: "Drop (Store_rw ks) st1 (db_cat db) name = (None, st, cat)"
    and st: "inv st" "synced js (view st) cat" "catalog_ok cat" "same_data (view st1) (view st)"
    and cat: "map_of (cat_tables cat) = (map_of (cat_tables (db_cat db)))(name := None)" "cat_nextID cat = cat_nextID (db_cat db)"
    by blast
  have v: "view st k = (if table_key t k then None else view (db_store db) k)" if "\<not> meta_key k" for k
    using same_data_key [OF st(4) that] by (simp add: v1)
  have "tables_stored (view st) (map_of (cat_tables cat))"
    unfolding cat(1) by (rule tables_stored_drop [OF h(3,4) Some]) (rule v)
  moreover have "room n cat" "exact_keys cat"
    using h(5,6) cat by (auto simp: room_def exact_keys_def split: if_splits)
  ultimately have "healthy js n (view st) cat" using st(2,3) by (intro healthyI)
  then show ?thesis using Some st1(1) D st(1) cat(1) v by (simp add: ddl_dropTable_def Catalog_Get_def)
qed

lemma createIndex_healthy:
  assumes db: "inv (db_store db)" "healthy js (Suc n) (view (db_store db)) (db_cat db)" and js: "json_ok js"
    and t: "map_of (cat_tables (db_cat db)) table = Some t" and col: "ColumnIndex t column = Some pos"
    and up: "up = t\<lparr>t_NextIndexID := t_NextIndexID t + 1, t_Indexes := t_Indexes t @
      [\<lparr>i_Name = name, i_ID = t_NextIndexID t, i_Column = column, i_Pos = pos\<rparr>]\<rparr>"
  shows "\<exists>err db'. ddl_createIndex ks js t name pos ine db = (err, db') \<and> inv (db_store db') \<and>
    healthy js n (view (db_store db')) (db_cat db') \<and>
    (if find_index_in (cat_tables (db_cat db)) name \<noteq> None
     then db' = db \<and> err = (if ine then None else Some (CCatalog (ErrIndexExists name)))
     else err = None \<and> map_of (cat_tables (db_cat db')) = (map_of (cat_tables (db_cat db)))(table \<mapsto> up) \<and>
       (\<forall>R. table_holds t (view (db_store db)) R \<longrightarrow> table_holds up (view (db_store db')) R) \<and>
       (\<forall>k. \<not> meta_key k \<longrightarrow> \<not> prefix (IndexPrefix (t_ID t) (t_NextIndexID t)) k \<longrightarrow>
         view (db_store db') k = view (db_store db) k))"
proof (cases "find_index_in (cat_tables (db_cat db)) name")
  case (Some p)
  then show ?thesis using db healthy_Suc by (auto simp: ddl_createIndex_def Catalog_FindIndex_def)
next
  case None
  let ?ix = "\<lparr>i_Name = name, i_ID = t_NextIndexID t, i_Column = column, i_Pos = pos\<rparr>"
  let ?cat = "db_cat db" and ?m = "view (db_store db)"
  note h = healthyD [OF db(2)]
  note tok = tables_okD(1,2) [OF h(4) t]
  have counter: "unat (t_NextIndexID t) + Suc n < 2 ^ 32" using h(5) t by (simp add: room_def)
  have "name \<notin> i_Name ` set (t_Indexes t)"
    using None map_of_SomeD [OF t] by (auto simp: find_index_in_None)
  then have "table_ok up" by (rule table_ok_add_index [OF tok(2) _ col counter_room(1) [OF counter] up])
  then have round: "json_roundtrip js up" using js by (simp add: json_ok_def)
  from schema.AddIndex_ok [OF db(1) h(2,1) t None col counter_room(1) [OF counter] refl up round]
  obtain st1 cat where A: "AddIndex js (Store_rw ks) (db_store db) ?cat table name column = (Inr (up, ?ix), st1, cat)"
    and st1: "inv st1" "synced js (view st1) cat" "catalog_ok cat" "same_data ?m (view st1)"
    and cat: "map_of (cat_tables cat) = (map_of (cat_tables ?cat))(table \<mapsto> up)" "cat_nextID cat = cat_nextID ?cat"
    by blast
  have data: "view st1 k = ?m k" if "\<not> meta_key k" for k by (rule same_data_key [OF st1(4) that])
  have keep: "table_holds t (view st1) R" if "table_holds t ?m R" for R
    by (rule table_holds_cong [OF data that]) (auto dest: meta_key_not_table)
  have new: "i_ID ?ix \<notin> i_ID ` set (t_Indexes t)" using tok(2) by (auto simp: table_ok_def)
  obtain R where R: "table_holds t ?m R" using h(3) t unfolding tables_stored_def by blast
  obtain st where B: "BuildIndex (Store_rw ks) t ?ix st1 = (None, st)" "inv st"
    and v: "view st = (\<lambda>k. if k \<in> entry_key t ?ix ` ran R then Some [] else view st1 k)"
    by (rule store.BuildIndex_view [OF st1(1) keep [OF R]])
  have B': "BuildIndex (Store_rw ks) up ?ix st1 = (None, st)" using B(1) by (simp add: up BuildIndex_columns)
  note built = tables_stored_new_index [OF h(3,4) t R new up data v]
  have "synced js (view st) cat" using st1(2) built(3) by (subst synced_cong [of _ "view st1"]) simp_all
  moreover have "tables_stored (view st) (map_of (cat_tables cat))" unfolding cat(1) by (rule built(4))
  moreover have "room n cat"
    by (rule room_upd [OF h(5) cat(1)]) (use cat(2) counter_room(2) [OF counter] up in auto)
  moreover have "exact_keys cat"
    by (rule exact_keys_upd [OF h(6) cat(1)]) (use h(6) t up in \<open>auto simp: PKColumn_def exact_keys_def\<close>)
  ultimately have "healthy js n (view st) cat" using st1(3) by (intro healthyI)
  moreover have "Q = R" if "table_holds t ?m Q" for Q by (rule table_holds_unique [OF that R])
  ultimately show ?thesis
    using None A B(2) B' cat(1) built(1,2) tok(1) ColumnIndex_Some(3) [OF col]
    by (auto simp: ddl_createIndex_def Catalog_FindIndex_def)
qed

lemma dropIndex_healthy:
  assumes db: "inv (db_store db)" "healthy js n (view (db_store db)) (db_cat db)" and js: "json_ok js"
  shows "\<exists>err db'. ddl_dropIndex ks js name ie db = (err, db') \<and> inv (db_store db') \<and>
    healthy js n (view (db_store db')) (db_cat db') \<and>
    (case find_index_in (cat_tables (db_cat db)) name of
       None \<Rightarrow> db' = db \<and> err = (if ie then None else Some (CCatalog (ErrIndexNotFound name)))
     | Some (t, ix) \<Rightarrow>
         let up = t\<lparr>t_Indexes := filter (\<lambda>keep. i_Name keep \<noteq> name) (t_Indexes t)\<rparr>
         in err = None \<and> map_of (cat_tables (db_cat db')) = (map_of (cat_tables (db_cat db)))(t_Name t \<mapsto> up) \<and>
           (\<forall>R. table_holds t (view (db_store db)) R \<longrightarrow> table_holds up (view (db_store db')) R) \<and>
           (\<forall>k. \<not> meta_key k \<longrightarrow> view (db_store db') k =
             (if prefix (IndexPrefix (t_ID t) (i_ID ix)) k then None else view (db_store db) k)))"
proof (cases "find_index_in (cat_tables (db_cat db)) name")
  case None
  then show ?thesis using db by (simp add: ddl_dropIndex_def Catalog_FindIndex_def)
next
  case (Some p)
  then obtain t ix where F: "find_index_in (cat_tables (db_cat db)) name = Some (t, ix)" by (cases p) auto
  let ?cat = "db_cat db" and ?m = "view (db_store db)" and ?p = "IndexPrefix (t_ID t) (i_ID ix)"
  define up where up: "up = t\<lparr>t_Indexes := filter (\<lambda>keep. i_Name keep \<noteq> name) (t_Indexes t)\<rparr>"
  note h = healthyD [OF db(2)]
  have t: "map_of (cat_tables ?cat) (t_Name t) = Some t" and ix: "ix \<in> set (t_Indexes t)" "i_Name ix = name"
    using F by (simp_all add: find_index_in_iff [OF h(1)])
  have tok: "table_ok t" by (rule tables_okD(2) [OF h(4) t])
  then have round: "json_roundtrip js up" using js table_ok_filter_index by (simp add: json_ok_def up)
  obtain st1 where st1: "deleteRange (Store_rw ks) (Some ?p) (PrefixEnd ?p) (db_store db) = (None, st1)" "inv st1"
    and v1: "view st1 = (\<lambda>k. if in_range (Some ?p) (PrefixEnd ?p) k then None else ?m k)"
    by (rule store.deleteRange_view [OF db(1)])
  have nometa: "\<not> prefix ?p k" if "meta_key k" for k
    using that ix(1) meta_key_not_table [OF that, of t] by (auto simp: table_key_def)
  have "synced js (view st1) ?cat"
    using h(2) nometa by (subst synced_cong [of _ ?m]) (auto simp: v1 in_range_PrefixEnd)
  from schema.RemoveIndex_ok [OF st1(2) this h(1) F up round]
  obtain st cat where Rm: "RemoveIndex js (Store_rw ks) st1 ?cat name = (Inr (up, ix), st, cat)"
    and st: "inv st" "synced js (view st) cat" "catalog_ok cat" "same_data (view st1) (view st)"
    and cat: "map_of (cat_tables cat) = (map_of (cat_tables ?cat))(t_Name t \<mapsto> up)" "cat_nextID cat = cat_nextID ?cat"
    by blast
  have v: "view st k = (if prefix ?p k then None else ?m k)" if "\<not> meta_key k" for k
    using same_data_key [OF st(4) that] by (simp add: v1 in_range_PrefixEnd)
  have ids: "distinct (map i_ID (t_Indexes t))" using tok by (simp add: table_ok_def)
  have holds: "table_holds up (view st) R" if "table_holds t ?m R" for R
    using that ids ix(1) _ v
    by (rule table_holds_old_index) (auto simp: up ix(2) dest: meta_key_not_table)
  have "tables_stored (view st) (map_of (cat_tables cat))"
    unfolding cat(1) by (rule tables_stored_drop_index [OF h(3,4) t ix(1)]) (simp_all add: up ix(2) v)
  moreover have "room n cat" using h(5) t cat by (auto simp: room_def up)
  moreover have "exact_keys cat"
    by (rule exact_keys_upd [OF h(6) cat(1)]) (use h(6) t up in \<open>auto simp: PKColumn_def exact_keys_def\<close>)
  ultimately have "healthy js n (view st) cat" using st(2,3) by (intro healthyI)
  then show ?thesis
    using F st1(1) Rm st(1) cat(1) holds v
    by (simp add: ddl_dropIndex_def Catalog_FindIndex_def DropIndexEntries_def Let_def up [symmetric])
qed

end

end
