(* ===== verification/Locking.thy ===== *)
theory Locking
  imports Transactions
begin

text \<open>
  What \<open>commitMu\<close> is for.  keelstore has no atomic batch write, so \<open>Tx.Commit\<close> and a schema change write
  key by key, and in between other sessions run.  Here sessions interleave at every call of the lock, at
  the snapshot and at every single write; the lock alone keeps a snapshot from landing inside a
  sequence of writes, and two sequences apart.
\<close>

section \<open>The lock\<close>

text \<open>\<open>sync.RWMutex\<close>: \<open>None\<close> is a call that has to wait.\<close>

record rwmutex =
  mu_readers :: nat
  mu_writer :: bool

definition unlocked :: rwmutex where
  "unlocked = \<lparr>mu_readers = 0, mu_writer = False\<rparr>"

definition RLock :: "rwmutex \<Rightarrow> rwmutex option" where
  "RLock m = (if mu_writer m then None else Some (m\<lparr>mu_readers := mu_readers m + 1\<rparr>))"

definition RUnlock :: "rwmutex \<Rightarrow> rwmutex" where
  "RUnlock m = m\<lparr>mu_readers := mu_readers m - 1\<rparr>"

definition Lock :: "rwmutex \<Rightarrow> rwmutex option" where
  "Lock m = (if mu_writer m \<or> 0 < mu_readers m then None else Some (m\<lparr>mu_writer := True\<rparr>))"

definition Unlock :: "rwmutex \<Rightarrow> rwmutex" where
  "Unlock m = m\<lparr>mu_writer := False\<rparr>"

lemmas lock_defs = unlocked_def RLock_def RUnlock_def Lock_def Unlock_def

section \<open>One write of a sequence\<close>

definition write_entry :: "'db keelstore \<Rightarrow> Entry \<Rightarrow> 'db \<Rightarrow> keel_error option \<times> 'db" where
  "write_entry ks e st = (if e_Deleted e then ks_Delete ks st (e_Key e) else ks_Put ks st (e_Key e) (e_Value e))"

lemma apply_entries_Cons:
  "apply_entries ks (e # es) st =
     (case write_entry ks e st of (Some err, st') \<Rightarrow> (Some err, st') | (None, st') \<Rightarrow> apply_entries ks es st')"
  by (simp add: write_entry_def)

lemma apply_entries_append:
  "apply_entries ks es st = (None, st') \<Longrightarrow> apply_entries ks (es @ fs) st = apply_entries ks fs st'"
  by (induction es arbitrary: st) (auto simp: apply_entries_Cons simp del: apply_entries.simps(2) split: option.splits prod.splits)

text \<open>What a write does to the contents of the store.\<close>

definition published :: "Entry \<Rightarrow> (bytes \<rightharpoonup> bytes) \<Rightarrow> bytes \<rightharpoonup> bytes" where
  "published e m = m(e_Key e := if e_Deleted e then None else Some (e_Value e))"

text \<open>A store that also notes what is written to it: the writes of a schema change are those it makes here.\<close>

definition logged :: "'db keelstore \<Rightarrow> ('db \<times> Entry list) keelstore" where
  "logged ks =
     \<lparr>ks_Get = (\<lambda>(st, log). ks_Get ks st),
      ks_Iterate = (\<lambda>(st, log). ks_Iterate ks st),
      ks_Put = (\<lambda>(st, log) key value.
        case ks_Put ks st key value of
          (err, st') \<Rightarrow> (err, (st', log @ [\<lparr>e_Key = key, e_Value = value, e_Deleted = False\<rparr>]))),
      ks_Delete = (\<lambda>(st, log) key.
        case ks_Delete ks st key of
          (err, st') \<Rightarrow> (err, (st', log @ [\<lparr>e_Key = key, e_Value = [], e_Deleted = True\<rparr>])))\<rparr>"

definition logging :: "'db DB \<Rightarrow> ('db \<times> Entry list) DB" where
  "logging db = \<lparr>db_store = (db_store db, []), db_cat = db_cat db\<rparr>"

section \<open>Sessions at work\<close>

text \<open>Where a session stands: outside of every transaction; in \<open>begin\<close>, before and behind the snapshot; with a
  transaction, its own for one statement or one that BEGIN opened; or behind \<open>commitMu.Lock()\<close>, with the writes that are left and,
  in a schema change, the catalog it ends with.\<close>

datatype phase =
    Idle
  | Snapshotting
  | Snapshotted Tx
  | Working Tx
  | Writing "Entry list" "Catalog option"

record 'db shared =
  sh_db :: "'db DB"
  sh_mu :: rwmutex
  sh_phase :: "nat \<Rightarrow> phase"

definition write_set :: "Tx \<Rightarrow> Entry list" where
  "write_set tx = fst (Entries (Buf (tx_rw tx)))"

definition finished :: "Catalog option \<Rightarrow> 'db DB \<Rightarrow> 'db DB" where
  "finished c db = (case c of None \<Rightarrow> db | Some cat \<Rightarrow> db\<lparr>db_cat := cat\<rparr>)"

inductive db_step :: "'db keelstore \<Rightarrow> json \<Rightarrow> 'db shared \<Rightarrow> 'db shared \<Rightarrow> bool" for ks js where
  begin_lock: "sh_phase s i = Idle \<Longrightarrow> RLock (sh_mu s) = Some mu \<Longrightarrow>
    db_step ks js s (s\<lparr>sh_mu := mu, sh_phase := (sh_phase s)(i := Snapshotting)\<rparr>)"
| begin_snapshot: "sh_phase s i = Snapshotting \<Longrightarrow>
    db_step ks js s (s\<lparr>sh_phase := (sh_phase s)(i := Snapshotted (DB_begin ks (sh_db s)))\<rparr>)"
| begin_unlock: "sh_phase s i = Snapshotted tx \<Longrightarrow>
    db_step ks js s (s\<lparr>sh_mu := RUnlock (sh_mu s), sh_phase := (sh_phase s)(i := Working tx)\<rparr>)"
| statement: "sh_phase s i = Working tx \<Longrightarrow> RunDML Overlay_rw p (tx_rw tx) = Some (n, err, ov) \<Longrightarrow>
    db_step ks js s (s\<lparr>sh_phase := (sh_phase s)(i := Working (tx\<lparr>tx_rw := ov\<rparr>))\<rparr>)"
| rollback: "sh_phase s i = Working tx \<Longrightarrow> db_step ks js s (s\<lparr>sh_phase := (sh_phase s)(i := Idle)\<rparr>)"
| commit_nothing: "sh_phase s i = Working tx \<Longrightarrow> write_set tx = [] \<Longrightarrow>
    db_step ks js s (s\<lparr>sh_phase := (sh_phase s)(i := Idle)\<rparr>)"
| commit_lock: "sh_phase s i = Working tx \<Longrightarrow> write_set tx \<noteq> [] \<Longrightarrow> Lock (sh_mu s) = Some mu \<Longrightarrow>
    db_step ks js s (s\<lparr>sh_mu := mu, sh_phase := (sh_phase s)(i := Writing (write_set tx) None)\<rparr>)"
| ddl_lock: "sh_phase s i = Idle \<Longrightarrow> Lock (sh_mu s) = Some mu \<Longrightarrow>
    apply_ddl (logged ks) js p (logging (sh_db s)) = (err, db') \<Longrightarrow>
    db_step ks js s (s\<lparr>sh_mu := mu, sh_phase := (sh_phase s)(i := Writing (snd (db_store db')) (Some (db_cat db')))\<rparr>)"
| write_next: "sh_phase s i = Writing (e # es) c \<Longrightarrow> write_entry ks e (db_store (sh_db s)) = (None, st) \<Longrightarrow>
    db_step ks js s (s\<lparr>sh_db := (sh_db s)\<lparr>db_store := st\<rparr>, sh_phase := (sh_phase s)(i := Writing es c)\<rparr>)"
| write_fails: "sh_phase s i = Writing (e # es) c \<Longrightarrow> write_entry ks e (db_store (sh_db s)) = (Some err, st) \<Longrightarrow>
    db_step ks js s (s\<lparr>sh_db := finished c ((sh_db s)\<lparr>db_store := st\<rparr>), sh_mu := Unlock (sh_mu s), sh_phase := (sh_phase s)(i := Idle)\<rparr>)"
| unlock: "sh_phase s i = Writing [] c \<Longrightarrow>
    db_step ks js s (s\<lparr>sh_db := finished c (sh_db s), sh_mu := Unlock (sh_mu s), sh_phase := (sh_phase s)(i := Idle)\<rparr>)"

inductive_cases db_stepE: "db_step ks js s s'"

abbreviation runs :: "'db keelstore \<Rightarrow> json \<Rightarrow> 'db shared \<Rightarrow> 'db shared \<Rightarrow> bool" where
  "runs ks js \<equiv> (db_step ks js)\<^sup>*\<^sup>*"

section \<open>The lock is kept\<close>

definition reading :: "phase \<Rightarrow> bool" where
  "reading ph \<longleftrightarrow> (case ph of Snapshotting \<Rightarrow> True | Snapshotted tx \<Rightarrow> True | _ \<Rightarrow> False)"

definition writing :: "phase \<Rightarrow> bool" where
  "writing ph \<longleftrightarrow> (case ph of Writing es c \<Rightarrow> True | _ \<Rightarrow> False)"

lemma phase_simps [simp]:
  "\<not> reading Idle" "reading Snapshotting" "reading (Snapshotted tx)" "\<not> reading (Working tx)" "\<not> reading (Writing es c)"
  "\<not> writing Idle" "\<not> writing Snapshotting" "\<not> writing (Snapshotted tx)" "\<not> writing (Working tx)" "writing (Writing es c)"
  by (simp_all add: reading_def writing_def)

text \<open>No sequence of writes is under way.\<close>

definition quiet :: "'db shared \<Rightarrow> bool" where
  "quiet s \<longleftrightarrow> (\<forall>i. \<not> writing (sh_phase s i))"

definition readers :: "(nat \<Rightarrow> phase) \<Rightarrow> nat set" where
  "readers ph = {i. reading (ph i)}"

definition lock_ok :: "'db shared \<Rightarrow> bool" where
  "lock_ok s \<longleftrightarrow> finite (readers (sh_phase s)) \<and> mu_readers (sh_mu s) = card (readers (sh_phase s)) \<and>
     (mu_writer (sh_mu s) \<longleftrightarrow> \<not> quiet s) \<and>
     (\<forall>i. writing (sh_phase s i) \<longrightarrow> (\<forall>j. reading (sh_phase s j) \<or> writing (sh_phase s j) \<longrightarrow> j = i))"

lemma readers_upd:
  "readers (f(i := ph)) = (if reading ph then insert i (readers f) else readers f - {i})" and readers_iff: "i \<in> readers f \<longleftrightarrow> reading (f i)"
  by (auto simp: readers_def)

lemma no_readers: "lock_ok s \<Longrightarrow> mu_readers (sh_mu s) = 0 \<Longrightarrow> \<not> reading (sh_phase s j)"
  using readers_iff [of j "sh_phase s"] by (auto simp: lock_ok_def)

lemma reading_quiet: "lock_ok s \<Longrightarrow> reading (sh_phase s i) \<Longrightarrow> quiet s"
  unfolding lock_ok_def quiet_def by (metis phase_simps reading_def writing_def phase.exhaust)

text \<open>A step that leaves the lock alone, the end of a sequence of writes, and its start.\<close>

lemma lock_ok_same:
  assumes "lock_ok s" and "sh_mu s' = sh_mu s" and "sh_phase s' = (sh_phase s)(i := ph)"
    and "writing ph = writing (sh_phase s i)" and "reading ph = reading (sh_phase s i)"
  shows "lock_ok s'"
proof -
  have "writing (sh_phase s' j) = writing (sh_phase s j)" "reading (sh_phase s' j) = reading (sh_phase s j)" for j
    using assms(3-5) by auto
  then show ?thesis using assms(1,2) by (simp add: lock_ok_def quiet_def readers_def)
qed

lemma lock_ok_leave:
  assumes "lock_ok s" and "sh_mu s' = Unlock (sh_mu s)" and "sh_phase s' = (sh_phase s)(i := Idle)" and "writing (sh_phase s i)"
  shows "lock_ok s'"
proof -
  have i: "\<not> reading (sh_phase s i)" using assms(4) by (cases "sh_phase s i") simp_all
  have "\<not> writing (sh_phase s' j) \<and> reading (sh_phase s' j) = reading (sh_phase s j)" for j
  proof (cases "j = i")
    case False
    then have "\<not> writing (sh_phase s j)" using assms(1,4) by (auto simp: lock_ok_def)
    then show ?thesis using False assms(3) by simp
  qed (use assms(3) i in simp_all)
  then show ?thesis using assms(1,2) by (simp add: lock_ok_def quiet_def readers_def Unlock_def)
qed

lemma lock_ok_enter:
  assumes "lock_ok s" and "Lock (sh_mu s) = Some (sh_mu s')" and "sh_phase s' = (sh_phase s)(i := Writing es c)"
  shows "lock_ok s'" and "quiet s"
proof -
  have mu: "sh_mu s' = (sh_mu s)\<lparr>mu_writer := True\<rparr>" "mu_readers (sh_mu s) = 0" and q: "quiet s"
    using assms(1,2) by (auto simp: lock_ok_def Lock_def split: if_splits)
  have r: "\<not> reading (sh_phase s j)" for j by (rule no_readers [OF assms(1) mu(2)])
  then have "readers (sh_phase s') = {}" using assms(3) by (auto simp: readers_def)
  then show "lock_ok s'" using mu q r assms(3) by (auto simp: lock_ok_def quiet_def)
  show "quiet s" by (rule q)
qed

lemma lock_ok_step:
  assumes s: "lock_ok s" and "db_step ks js s s'"
  shows "lock_ok s'"
  using assms(2)
proof cases
  case (begin_lock i mu)
  then have "quiet s" "mu = (sh_mu s)\<lparr>mu_readers := mu_readers (sh_mu s) + 1\<rparr>" "\<not> mu_writer (sh_mu s)"
    using s by (auto simp: lock_ok_def RLock_def split: if_splits)
  then show ?thesis using s begin_lock by (auto simp: lock_ok_def quiet_def readers_upd readers_iff)
next
  case (begin_unlock i tx)
  then show ?thesis
    using s reading_quiet [OF s, of i] by (auto simp: lock_ok_def quiet_def readers_upd readers_iff RUnlock_def)
next
  case (commit_lock i tx mu)
  then show ?thesis using lock_ok_enter(1) [OF s, of s' i] by simp
next
  case (ddl_lock i mu p err db')
  then show ?thesis using lock_ok_enter(1) [OF s, of s' i] by simp
next
  case (write_fails i e es c err st)
  then show ?thesis using lock_ok_leave [OF s, of s' i] by simp
next
  case (unlock i c)
  then show ?thesis using lock_ok_leave [OF s, of s' i] by simp
next
  case (begin_snapshot i)
  then show ?thesis using lock_ok_same [OF s, of s' i] by simp
next
  case (statement i tx p n err ov)
  then show ?thesis using lock_ok_same [OF s, of s' i] by simp
next
  case (rollback i tx)
  then show ?thesis using lock_ok_same [OF s, of s' i] by simp
next
  case (commit_nothing i tx)
  then show ?thesis using lock_ok_same [OF s, of s' i] by simp
next
  case (write_next i e es c st)
  then show ?thesis using lock_ok_same [OF s, of s' i] by simp
qed

section \<open>What sessions see of the store\<close>

definition open_tx :: "phase \<Rightarrow> Tx option" where
  "open_tx ph = (case ph of Snapshotted tx \<Rightarrow> Some tx | Working tx \<Rightarrow> Some tx | _ \<Rightarrow> None)"

lemma open_tx_simps [simp]:
  "open_tx Idle = None" "open_tx Snapshotting = None" "open_tx (Snapshotted tx) = Some tx" "open_tx (Working tx) = Some tx"
  "open_tx (Writing es c) = None"
  by (simp_all add: open_tx_def)

text \<open>In state \<open>s\<close> session \<open>i\<close> is about to write \<open>es\<close>: to commit, or to change the schema, ending with a catalog.\<close>

definition enters :: "'db keelstore \<Rightarrow> json \<Rightarrow> 'db shared \<Rightarrow> nat \<Rightarrow> Entry list \<Rightarrow> Catalog option \<Rightarrow> bool" where
  "enters ks js s i es c \<longleftrightarrow>
     (case c of
        None \<Rightarrow> \<exists>tx. sh_phase s i = Working tx \<and> es = write_set tx
      | Some cat \<Rightarrow> sh_phase s i = Idle \<and> (\<exists>p err db'.
          apply_ddl (logged ks) js p (logging (sh_db s)) = (err, db') \<and> es = snd (db_store db') \<and> cat = db_cat db'))"

definition reads_quiet :: "'db keelstore \<Rightarrow> json \<Rightarrow> ('db \<Rightarrow> bytes \<rightharpoonup> bytes) \<Rightarrow> 'db shared \<Rightarrow> 'db shared \<Rightarrow> Tx \<Rightarrow> bool" where
  "reads_quiet ks js view s0 s tx \<longleftrightarrow> tx_ok tx \<and>
     (\<exists>s1. runs ks js s0 s1 \<and> runs ks js s1 s \<and> quiet s1 \<and> snapshot tx = view (db_store (sh_db s1)))"

definition half_done :: "'db keelstore \<Rightarrow> json \<Rightarrow> ('db \<Rightarrow> bytes \<rightharpoonup> bytes) \<Rightarrow> 'db shared \<Rightarrow> 'db shared \<Rightarrow> nat \<Rightarrow>
    Entry list \<Rightarrow> Catalog option \<Rightarrow> bool" where
  "half_done ks js view s0 s i es c \<longleftrightarrow>
     (\<exists>s1 ds. runs ks js s0 s1 \<and> runs ks js s1 s \<and> quiet s1 \<and> enters ks js s1 i (ds @ es) c \<and>
       view (db_store (sh_db s)) = fold published ds (view (db_store (sh_db s1))))"

definition safe :: "'db keelstore \<Rightarrow> json \<Rightarrow> ('db \<Rightarrow> bytes \<rightharpoonup> bytes) \<Rightarrow> ('db \<Rightarrow> bool) \<Rightarrow> 'db shared \<Rightarrow> 'db shared \<Rightarrow> bool" where
  "safe ks js view good s0 s \<longleftrightarrow> lock_ok s \<and> good (db_store (sh_db s)) \<and>
     (\<forall>i tx. open_tx (sh_phase s i) = Some tx \<longrightarrow> reads_quiet ks js view s0 s tx) \<and>
     (\<forall>i es c. sh_phase s i = Writing es c \<longrightarrow> half_done ks js view s0 s i es c)"

lemma reads_quiet_step: "reads_quiet ks js view s0 s tx \<Longrightarrow> db_step ks js s s' \<Longrightarrow> reads_quiet ks js view s0 s' tx"
  unfolding reads_quiet_def using rtranclp.rtrancl_into_rtrancl [of "db_step ks js"] by metis

lemma half_done_step:
  "half_done ks js view s0 s i es c \<Longrightarrow> db_step ks js s s' \<Longrightarrow> view (db_store (sh_db s')) = view (db_store (sh_db s)) \<Longrightarrow>
    half_done ks js view s0 s' i es c"
  unfolding half_done_def using rtranclp.rtrancl_into_rtrancl [of "db_step ks js"] by metis

lemma half_done_start:
  assumes "runs ks js s0 s" and "db_step ks js s s'" and "quiet s" and "enters ks js s i es c"
    and "view (db_store (sh_db s')) = view (db_store (sh_db s))"
  shows "half_done ks js view s0 s' i es c"
  unfolding half_done_def
  by (rule exI [of _ s], rule exI [of _ "[]"]) (use assms in \<open>simp add: r_into_rtranclp\<close>)

lemma half_done_write:
  assumes "half_done ks js view s0 s i (e # es) c" and step: "db_step ks js s s'"
    and v: "view (db_store (sh_db s')) = published e (view (db_store (sh_db s)))"
  shows "half_done ks js view s0 s' i es c"
proof -
  obtain s1 ds where "runs ks js s0 s1" "runs ks js s1 s" "quiet s1" "enters ks js s1 i (ds @ e # es) c"
    "view (db_store (sh_db s)) = fold published ds (view (db_store (sh_db s1)))"
    using assms(1) by (auto simp: half_done_def)
  then show ?thesis
    unfolding half_done_def
    by (intro exI [of _ s1] exI [of _ "ds @ [e]"]) (use step v in \<open>simp add: rtranclp.rtrancl_into_rtrancl\<close>)
qed

lemma statement_tx:
  assumes "tx_ok tx" and "RunDML Overlay_rw p (tx_rw tx) = Some (n, err, ov)"
  shows "tx_ok (tx\<lparr>tx_rw := ov\<rparr>)" and "snapshot (tx\<lparr>tx_rw := ov\<rparr>) = snapshot tx"
  using based.RunDML_keeps [OF assms(2), of "Base (tx_rw tx)"] assms(1) by (simp_all add: tx_ok_def snapshot_def)

context keel begin

lemma write_ok:
  assumes "inv st"
  shows "\<exists>st'. write_entry ks e st = (None, st') \<and> inv st' \<and> view st' = published e (view st)"
  using put_ok [OF assms] delete_ok [OF assms] by (cases "e_Deleted e") (force simp: write_entry_def published_def)+

lemma safe_step:
  assumes safe: "safe ks js view inv s0 s" and run: "runs ks js s0 s" and step: "db_step ks js s s'"
  shows "safe ks js view inv s0 s'"
proof -
  have lock: "lock_ok s" and lock': "lock_ok s'" using safe lock_ok_step [OF _ step] by (simp_all add: safe_def)
  have good: "inv (db_store (sh_db s))" using safe by (simp add: safe_def)
  have old_tx: "reads_quiet ks js view s0 s' tx" if "open_tx (sh_phase s i) = Some tx" for i tx
    using safe that reads_quiet_step [OF _ step] by (auto simp: safe_def)
  have old_half: "half_done ks js view s0 s' i es c"
    if "sh_phase s i = Writing es c" "view (db_store (sh_db s')) = view (db_store (sh_db s))" for i es c
    using safe that half_done_step [OF _ step] by (auto simp: safe_def)
  have result: ?thesis
    if "inv (db_store (sh_db s'))" and "sh_phase s' = (sh_phase s)(i := ph)"
      and r: "view (db_store (sh_db s')) = view (db_store (sh_db s)) \<or> writing (sh_phase s i)"
      and "\<And>tx. open_tx ph = Some tx \<Longrightarrow> reads_quiet ks js view s0 s' tx"
      and "\<And>es c. ph = Writing es c \<Longrightarrow> half_done ks js view s0 s' i es c" for i ph
  proof -
    have "half_done ks js view s0 s' j es c" if j: "j \<noteq> i" "sh_phase s j = Writing es c" for j es c
    proof (rule old_half [OF j(2)])
      have "\<not> writing (sh_phase s i)"
        using lock j unfolding lock_ok_def by (metis phase_simps(10))
      then show "view (db_store (sh_db s')) = view (db_store (sh_db s))" using r by blast
    qed
    then show ?thesis using that lock' old_tx by (auto simp: safe_def)
  qed
  from step show ?thesis
  proof cases
    case (begin_lock i mu)
    then show ?thesis using good by (intro result [where i = i and ph = Snapshotting]) auto
  next
    case (begin_snapshot i)
    have "reads_quiet ks js view s0 s' (DB_begin ks (sh_db s))"
      unfolding reads_quiet_def
      using begin_overlay [OF good] run step reading_quiet [OF lock, of i] begin_snapshot(2)
      by (auto simp: tx_ok_def snapshot_def intro!: exI [of _ s])
    then show ?thesis using begin_snapshot good by (intro result [where i = i and ph = "Snapshotted (DB_begin ks (sh_db s))"]) auto
  next
    case (begin_unlock i tx)
    then show ?thesis using good old_tx [of i tx] by (intro result [where i = i and ph = "Working tx"]) auto
  next
    case (statement i tx p n err ov)
    have "reads_quiet ks js view s0 s' tx" using old_tx [of i tx] statement(2) by simp
    then have "reads_quiet ks js view s0 s' (tx\<lparr>tx_rw := ov\<rparr>)"
      using statement_tx [OF _ statement(3)] by (simp add: reads_quiet_def)
    then show ?thesis using statement good by (intro result [where i = i and ph = "Working (tx\<lparr>tx_rw := ov\<rparr>)"]) auto
  next
    case (commit_lock i tx mu)
    then have "quiet s" using lock_ok_enter(2) [OF lock, of s' i] by simp
    then have "half_done ks js view s0 s' i (write_set tx) None"
      using commit_lock by (intro half_done_start [OF run step]) (simp_all add: enters_def)
    then show ?thesis using commit_lock good by (intro result [where i = i and ph = "Writing (write_set tx) None"]) auto
  next
    case (ddl_lock i mu p err db')
    then have "quiet s" using lock_ok_enter(2) [OF lock, of s' i] by simp
    then have "half_done ks js view s0 s' i (snd (db_store db')) (Some (db_cat db'))"
      using ddl_lock by (intro half_done_start [OF run step]) (auto simp: enters_def)
    then show ?thesis using ddl_lock good by (intro result [where i = i and ph = "Writing (snd (db_store db')) (Some (db_cat db'))"]) auto
  next
    case (write_next i e es c st)
    have st: "inv st" "view st = published e (view (db_store (sh_db s)))"
      using write_ok [OF good, of e] write_next(3) by auto
    have "half_done ks js view s0 s i (e # es) c" using safe write_next(2) by (simp add: safe_def)
    then have "half_done ks js view s0 s' i es c" using write_next st by (intro half_done_write [OF _ step]) auto
    then show ?thesis using write_next st by (intro result [where i = i and ph = "Writing es c"]) auto
  next
    case (write_fails i e es c err st)
    then show ?thesis using write_ok [OF good, of e] by auto
  next
    case (unlock i c)
    then show ?thesis using good by (intro result [where i = i and ph = Idle]) (auto simp: finished_def split: option.split)
  next
    case (rollback i tx)
    then show ?thesis using good by (intro result [where i = i and ph = Idle]) auto
  next
    case (commit_nothing i tx)
    then show ?thesis using good by (intro result [where i = i and ph = Idle]) auto
  qed
qed

end

section \<open>The steps are those of the code\<close>

text \<open>The writes of a sequence, one step each, are \<open>apply_entries\<close>; a transaction that finds the lock free and is not
  disturbed ends as \<open>Tx_Commit\<close> says.\<close>

lemma writes_run:
  "sh_phase s i = Writing es c \<Longrightarrow> apply_entries ks es (db_store (sh_db s)) = (None, st) \<Longrightarrow>
    runs ks js s (s\<lparr>sh_db := (sh_db s)\<lparr>db_store := st\<rparr>, sh_phase := (sh_phase s)(i := Writing [] c)\<rparr>)"
proof (induction es arbitrary: s)
  case Nil
  then have "s\<lparr>sh_db := (sh_db s)\<lparr>db_store := st\<rparr>, sh_phase := (sh_phase s)(i := Writing [] c)\<rparr> = s"
    by (cases s) auto
  then show ?case by (simp only: rtranclp.rtrancl_refl)
next
  case (Cons e es)
  obtain st1 where st1: "write_entry ks e (db_store (sh_db s)) = (None, st1)" "apply_entries ks es st1 = (None, st)"
    using Cons.prems(2) by (auto simp: apply_entries_Cons simp del: apply_entries.simps(2) split: prod.splits option.splits)
  let ?s1 = "s\<lparr>sh_db := (sh_db s)\<lparr>db_store := st1\<rparr>, sh_phase := (sh_phase s)(i := Writing es c)\<rparr>"
  have "db_step ks js s ?s1" using Cons.prems(1) st1(1) by (rule db_step.write_next)
  moreover have "runs ks js ?s1 (s\<lparr>sh_db := (sh_db s)\<lparr>db_store := st\<rparr>, sh_phase := (sh_phase s)(i := Writing [] c)\<rparr>)"
    using Cons.IH [of ?s1] st1(2) by (simp add: fun_upd_def cong: if_cong)
  ultimately show ?case by (rule converse_rtranclp_into_rtranclp)
qed

lemma commit_runs:
  assumes "sh_phase s i = Working tx" and "sh_mu s = unlocked" and "\<not> tx_done tx" and "Tx_Commit ks tx (sh_db s) = (None, tx', db')"
  shows "runs ks js s (s\<lparr>sh_db := db', sh_phase := (sh_phase s)(i := Idle)\<rparr>)"
proof (cases "write_set tx = []")
  case True
  then have "db' = sh_db s"
    using assms(3,4) by (auto simp: Tx_Commit_def write_set_def Let_def split: prod.splits)
  then show ?thesis using db_step.commit_nothing [OF assms(1) True] by auto
next
  case False
  obtain st where st: "apply_entries ks (write_set tx) (db_store (sh_db s)) = (None, st)" "db' = (sh_db s)\<lparr>db_store := st\<rparr>"
    using assms(3,4) False by (auto simp: Tx_Commit_def write_set_def Let_def split: prod.splits)
  let ?mu = "unlocked\<lparr>mu_writer := True\<rparr>"
  let ?s1 = "s\<lparr>sh_mu := ?mu, sh_phase := (sh_phase s)(i := Writing (write_set tx) None)\<rparr>"
  let ?s2 = "?s1\<lparr>sh_db := db', sh_phase := (sh_phase s)(i := Writing [] None)\<rparr>"
  have "Lock (sh_mu s) = Some ?mu" by (simp add: assms(2) lock_defs)
  from db_step.commit_lock [OF assms(1) False this] have "runs ks js s ?s1" by blast
  moreover have "runs ks js ?s1 ?s2" using writes_run [of ?s1 i "write_set tx" None ks st js] st by simp
  moreover have "db_step ks js ?s2 (s\<lparr>sh_db := db', sh_phase := (sh_phase s)(i := Idle)\<rparr>)"
    using db_step.unlock [of ?s2 i None ks js] assms(2) by (cases s) (simp add: finished_def lock_defs)
  ultimately show ?thesis by (meson rtranclp.rtrancl_into_rtrancl rtranclp_trans)
qed

text \<open>What a schema change notes is what it writes: replayed on the store it started from, it gives the store it ends with.\<close>

context keel begin

lemma logged_keel:
  "keel (logged ks) (\<lambda>st. view (fst st)) (\<lambda>st. inv (fst st) \<and> apply_entries ks (snd st) st0 = (None, fst st))"
proof -
  have more: "apply_entries ks (log @ [e]) st0 = (None, st')"
    if "apply_entries ks log st0 = (None, st)" "write_entry ks e st = (None, st')" for log st e st'
    using apply_entries_append [OF that(1), of "[e]"] that(2) by (simp add: apply_entries_Cons del: apply_entries.simps(2))
  have put: "\<exists>st'. ks_Put ks st k v = (None, st') \<and> inv st' \<and> view st' = (view st)(k \<mapsto> v) \<and>
      apply_entries ks (log @ [\<lparr>e_Key = k, e_Value = v, e_Deleted = False\<rparr>]) st0 = (None, st')"
    if "inv st" "apply_entries ks log st0 = (None, st)" for st log k v
    using put_ok [OF that(1), of k v] more [OF that(2)] by (auto simp: write_entry_def)
  have del: "\<exists>st'. ks_Delete ks st k = (None, st') \<and> inv st' \<and> view st' = (view st)(k := None) \<and>
      apply_entries ks (log @ [\<lparr>e_Key = k, e_Value = [], e_Deleted = True\<rparr>]) st0 = (None, st')"
    if "inv st" "apply_entries ks log st0 = (None, st)" for st log k
    using delete_ok [OF that(1), of k] more [OF that(2)] by (auto simp: write_entry_def)
  have "Store_reader (logged ks) st = Store_reader ks (fst st)" for st
    by (simp add: Store_reader_def logged_def split: prod.split)
  then have reader: "reads (Store_reader (logged ks) st) (view (fst st))" if "inv (fst st)" for st
    using store.reader [OF that] by (simp add: Store_rw_def)
  show ?thesis
  proof unfold_locales
    fix st assume st: "inv (fst st) \<and> apply_entries ks (snd st) st0 = (None, fst st)"
    show "reads (rw_reader (Store_rw (logged ks)) st) (view (fst st))" using reader st by (simp add: Store_rw_def)
    show "err = None \<and> (inv (fst st') \<and> apply_entries ks (snd st') st0 = (None, fst st')) \<and> view (fst st') = (view (fst st))(k \<mapsto> v)"
      if "rw_Put (Store_rw (logged ks)) st k v = (err, st')" for k v err st'
      using put [of "fst st" "snd st" k v] st that by (auto simp: Store_rw_def logged_def split: prod.splits)
    show "err = None \<and> (inv (fst st') \<and> apply_entries ks (snd st') st0 = (None, fst st')) \<and> view (fst st') = (view (fst st))(k := None)"
      if "rw_Delete (Store_rw (logged ks)) st k = (err, st')" for k err st'
      using del [of "fst st" "snd st" k] st that by (auto simp: Store_rw_def logged_def split: prod.splits)
  qed
qed

end

lemma ddl_writes:
  assumes "keel ks view good" and "good (db_store db)" and "apply_ddl (logged ks) js p (logging db) = (err, db')"
  shows "apply_entries ks (snd (db_store db')) (db_store db) = (None, fst (db_store db'))"
  using keel.ddl_keeps [OF keel.logged_keel [OF assms(1), of "db_store db"] assms(3)] assms(2) by (simp add: logging_def)

section \<open>Property\<close>

text \<open>C7: Sessions interleave at every lock operation and every single write.  Every transaction is unfinished and reads
  from the store as it was in a state that the run went through and in which nobody was between
  \<open>commitMu.Lock()\<close> and \<open>Unlock()\<close>.  While somebody is, everybody else is outside of the lock, and the store is that of the state in
  which the lock was taken with the first part of this one sequence of writes (the write buffer of the transaction,
  or what the schema change writes) applied.\<close>

theorem snapshots_are_states:
  assumes "keel ks view good" and "good (db_store (sh_db s0))" and "sh_mu s0 = unlocked" and "\<forall>i. sh_phase s0 i = Idle"
    and "runs ks js s0 s"
  shows "good (db_store (sh_db s)) \<and>
    (\<forall>i tx. open_tx (sh_phase s i) = Some tx \<longrightarrow> tx_ok tx \<and>
      (\<exists>s1. runs ks js s0 s1 \<and> runs ks js s1 s \<and> quiet s1 \<and> snapshot tx = view (db_store (sh_db s1)))) \<and>
    (\<forall>i es c. sh_phase s i = Writing es c \<longrightarrow>
      (\<forall>j. reading (sh_phase s j) \<or> writing (sh_phase s j) \<longrightarrow> j = i) \<and>
      (\<exists>s1 ds. runs ks js s0 s1 \<and> runs ks js s1 s \<and> quiet s1 \<and> enters ks js s1 i (ds @ es) c \<and>
        view (db_store (sh_db s)) = fold published ds (view (db_store (sh_db s1)))))"
proof -
  have "safe ks js view good s0 s"
    using assms(5)
  proof (induction rule: rtranclp_induct)
    case base
    then show ?case using assms(2-4) by (simp add: safe_def lock_ok_def quiet_def readers_def unlocked_def)
  next
    case (step s1 s2)
    show ?case by (rule keel.safe_step [OF assms(1) step.IH step.hyps])
  qed
  then show ?thesis
    unfolding safe_def reads_quiet_def half_done_def lock_ok_def by (metis phase_simps(10))
qed

text \<open>One session has a transaction open while another is between the writes of DROP TABLE.\<close>

lemma snapshots_are_states_witness:
  "let dropped = snd (apply_ddl (logged memory_keel) sample_json (PDropTable ''users'' True) (logging sample_db));
       es = snd (db_store dropped); c = Some (db_cat dropped); tx = DB_begin memory_keel sample_db;
       s0 = \<lparr>sh_db = sample_db, sh_mu = unlocked, sh_phase = \<lambda>i. Idle\<rparr>;
       s = \<lparr>sh_db = sample_db, sh_mu = \<lparr>mu_readers = 0, mu_writer = True\<rparr>,
         sh_phase = (\<lambda>i. Idle)(7 := Working tx, 3 := Writing es c)\<rparr>
   in tx_ok tx \<and>
    (\<exists>s1. runs memory_keel sample_json s0 s1 \<and> runs memory_keel sample_json s1 s \<and> quiet s1 \<and>
      snapshot tx = memory_view (db_store (sh_db s1))) \<and>
    (\<exists>s1 ds. runs memory_keel sample_json s0 s1 \<and> runs memory_keel sample_json s1 s \<and> quiet s1 \<and>
      enters memory_keel sample_json s1 3 (ds @ es) c \<and> memory_view (db_store (sh_db s)) = fold published ds (memory_view (db_store (sh_db s1))))"
proof -
  define dropped where "dropped = snd (apply_ddl (logged memory_keel) sample_json (PDropTable ''users'' True) (logging sample_db))"
  obtain err where err: "apply_ddl (logged memory_keel) sample_json (PDropTable ''users'' True) (logging sample_db) = (err, dropped)"
    unfolding dropped_def by (metis prod.collapse)
  define es where "es = snd (db_store dropped)"
  define c where "c = Some (db_cat dropped)"
  define tx where "tx = DB_begin memory_keel sample_db"
  define s0 where "s0 = \<lparr>sh_db = sample_db, sh_mu = unlocked, sh_phase = \<lambda>i. Idle\<rparr>"
  define s3 where "s3 = s0\<lparr>sh_phase := (\<lambda>i. Idle)(7 := Working tx)\<rparr>"
  define s where "s = s3\<lparr>sh_mu := \<lparr>mu_readers = 0, mu_writer = True\<rparr>, sh_phase := (\<lambda>i. Idle)(7 := Working tx, 3 := Writing es c)\<rparr>"
  let ?s1 = "s0\<lparr>sh_mu := \<lparr>mu_readers = 1, mu_writer = False\<rparr>, sh_phase := (\<lambda>i. Idle)(7 := Snapshotting)\<rparr>"
  let ?s2 = "s0\<lparr>sh_mu := \<lparr>mu_readers = 1, mu_writer = False\<rparr>, sh_phase := (\<lambda>i. Idle)(7 := Snapshotted tx)\<rparr>"
  have "db_step memory_keel sample_json s0 ?s1"
    using db_step.begin_lock [of s0 7 "\<lparr>mu_readers = 1, mu_writer = False\<rparr>" memory_keel sample_json]
    by (simp add: s0_def lock_defs)
  moreover have "db_step memory_keel sample_json ?s1 ?s2"
    using db_step.begin_snapshot [of ?s1 7 memory_keel sample_json] by (simp add: s0_def tx_def)
  moreover have "db_step memory_keel sample_json ?s2 s3"
    using db_step.begin_unlock [of ?s2 7 tx memory_keel sample_json] by (simp add: s0_def s3_def lock_defs)
  moreover have "db_step memory_keel sample_json s3 s"
    using db_step.ddl_lock [of s3 3 "\<lparr>mu_readers = 0, mu_writer = True\<rparr>" memory_keel sample_json
        "PDropTable ''users'' True" err dropped] err
    by (simp add: s_def s3_def s0_def lock_defs es_def c_def)
  ultimately have run: "runs memory_keel sample_json s0 s" by (meson rtranclp.rtrancl_into_rtrancl rtranclp.rtrancl_refl)
  have "memory_inv (db_store (sh_db s0))" by (simp add: s0_def sample_db_def sample_memory_inv)
  note T = snapshots_are_states [OF memory_db.keel_axioms this _ _ run]
  have "open_tx (sh_phase s 7) = Some tx" "sh_phase s 3 = Writing es c" by (simp_all add: s_def)
  then have "tx_ok tx \<and>
    (\<exists>s1. runs memory_keel sample_json s0 s1 \<and> runs memory_keel sample_json s1 s \<and> quiet s1 \<and>
      snapshot tx = memory_view (db_store (sh_db s1))) \<and>
    (\<exists>s1 ds. runs memory_keel sample_json s0 s1 \<and> runs memory_keel sample_json s1 s \<and> quiet s1 \<and>
      enters memory_keel sample_json s1 3 (ds @ es) c \<and> memory_view (db_store (sh_db s)) = fold published ds (memory_view (db_store (sh_db s1))))"
    using T by (simp add: s0_def)
  then show ?thesis unfolding Let_def dropped_def es_def c_def tx_def s0_def s3_def s_def by simp
qed

end
