(* ===== verification/Format.thy ===== *)
theory Format
  imports Decimal Unicode
begin

text \<open>
  Results as ASCII tables: \<open>src/format.go\<close>.  Widths are counted in runes.  \<open>strings.Repeat\<close> panics on a
  negative count, which is the value \<open>None\<close> here; the property shows that this never happens, and that
  every line of a table is equally wide, whatever bytes the values hold.
\<close>

section \<open>Rendering\<close>

definition Repeat :: "char \<Rightarrow> int \<Rightarrow> string option" where
  "Repeat c n = (if n < 0 then None else Some (replicate (nat n) c))"

text \<open>The texts of one row, one per column, and the widths after it.\<close>

definition cell_texts :: "nat \<Rightarrow> Value list \<Rightarrow> string list" where
  "cell_texts n row = map (\<lambda>c. if c < length row then Value_String (row ! c) else []) [0..<n]"

definition widen :: "int list \<Rightarrow> string list \<Rightarrow> int list" where
  "widen widths cells =
     map2 (\<lambda>width text. let w = int (RuneCount text) in if width < w then w else width) widths cells"

fun border_loop :: "int list \<Rightarrow> string option" where
  "border_loop [] = Some []"
| "border_loop (w # ws) =
     (case Repeat (CHR ''-'') (w + 2) of
        None \<Rightarrow> None
      | Some dashes \<Rightarrow> map_option (\<lambda>rest. dashes @ ''+'' @ rest) (border_loop ws))"

definition border :: "int list \<Rightarrow> string option" where
  "border widths = map_option (\<lambda>s. ''+'' @ s @ [CHR 0x0A]) (border_loop widths)"

fun cells_loop :: "string list \<Rightarrow> int list \<Rightarrow> string option" where
  "cells_loop cells [] = Some []"
| "cells_loop cells (w # ws) =
     (let text = (case cells of [] \<Rightarrow> [] | t # _ \<Rightarrow> t) in
      case Repeat (CHR '' '') (w - int (RuneCount text)) of
        None \<Rightarrow> None
      | Some pad \<Rightarrow> map_option (\<lambda>rest. '' '' @ text @ pad @ '' |'' @ rest) (cells_loop (tl cells) ws))"

definition writeRow :: "string list \<Rightarrow> int list \<Rightarrow> string option" where
  "writeRow cells widths = map_option (\<lambda>s. ''|'' @ s @ [CHR 0x0A]) (cells_loop cells widths)"

fun write_rows :: "string list list \<Rightarrow> int list \<Rightarrow> string option" where
  "write_rows [] widths = Some []"
| "write_rows (row # rows) widths =
     (case writeRow row widths of
        None \<Rightarrow> None
      | Some line \<Rightarrow> map_option (\<lambda>rest. line @ rest) (write_rows rows widths))"

definition FormatTable :: "string list \<Rightarrow> Value list list \<Rightarrow> string option" where
  "FormatTable columns rows =
     (if columns = [] then Some []
      else
        (let cells = map (cell_texts (length columns)) rows;
             widths = foldl widen (map (\<lambda>name. int (RuneCount name)) columns) cells
         in case (border widths, writeRow columns widths, write_rows cells widths) of
              (Some rule, Some header, Some body) \<Rightarrow> Some (rule @ header @ rule @ body @ rule)
            | _ \<Rightarrow> None))"

section \<open>Runes of concatenated text\<close>

text \<open>An ASCII byte ends every sequence before it, so a text may be cut in front of one.\<close>

lemma decode_rune_width: "1 \<le> snd (decode_rune c s)" "snd (decode_rune c s) \<le> Suc (length s)"
  by (auto simp: decode_rune_def decode2_def decode3_def decode4_def Let_def split: list.split)

lemma decode_rune_append:
  assumes "char_code a < 128"
  shows "decode_rune c (s @ a # t) = decode_rune c s"
proof -
  have "\<not> cont_byte (char_code a)" "\<not> 0x80 \<le> char_code a" "\<not> 0xA0 \<le> char_code a" "\<not> 0x90 \<le> char_code a"
    using assms by (simp_all add: cont_byte_def)
  then show ?thesis
    by (auto simp: decode_rune_def decode2_def decode3_def decode4_def Let_def neq_Nil_conv Cons_eq_append_conv
        split: list.split)
qed

lemma runes_append:
  assumes "char_code a < 128"
  shows "runes (s @ a # t) = runes s @ char_code a # runes t"
proof (induction s rule: runes.induct)
  case 1
  then show ?case using assms by (simp add: runes.simps)
next
  case (2 c s)
  then show ?case
    using decode_rune_width [of c s] decode_rune_append [OF assms] by (simp add: runes.simps)
qed

text \<open>Counting over a concatenation whose second part begins with an ASCII byte or is empty.\<close>

definition starts_ascii :: "string \<Rightarrow> bool" where
  "starts_ascii t \<longleftrightarrow> t = [] \<or> char_code (hd t) < 128"

lemma starts_ascii_simps [simp]:
  "starts_ascii []" "starts_ascii (a # t) \<longleftrightarrow> char_code a < 128"
  "char_code a < 128 \<Longrightarrow> starts_ascii (replicate n a)"
  "char_code a < 128 \<Longrightarrow> starts_ascii t \<Longrightarrow> starts_ascii (replicate n a @ t)"
proof -
  show "starts_ascii []" "starts_ascii (a # t) \<longleftrightarrow> char_code a < 128" by (simp_all add: starts_ascii_def)
  assume a: "char_code a < 128"
  show "starts_ascii (replicate n a)" using a by (cases n) (simp_all add: starts_ascii_def)
  show "starts_ascii (replicate n a @ t)" if "starts_ascii t" using a that by (cases n) (simp_all add: starts_ascii_def)
qed

lemma RuneCount_append [simp]: "starts_ascii t \<Longrightarrow> RuneCount (s @ t) = RuneCount s + RuneCount t"
  using runes_append [of "hd t" s "tl t"] runes_append [of "hd t" "[]" "tl t"]
  by (cases t) (simp_all add: starts_ascii_def RuneCount_def)

lemma RuneCount_Cons [simp]: "char_code a < 128 \<Longrightarrow> RuneCount (a # t) = Suc (RuneCount t)"
  using runes_append [of a "[]" t] by (simp add: RuneCount_def)

lemma RuneCount_Nil [simp]: "RuneCount [] = 0"
  by (simp add: RuneCount_def)

lemma RuneCount_replicate [simp]: "char_code a < 128 \<Longrightarrow> RuneCount (replicate n a) = n"
  by (induction n) simp_all

lemma ascii_codes [simp]:
  "char_code (CHR ''+'') < 128" "char_code (CHR ''-'') < 128" "char_code (CHR '' '') < 128" "char_code (CHR ''|'') < 128"
  "char_code (CHR 0x0A) < 128"
  by (simp_all add: char_code_def)

section \<open>Widths\<close>

text \<open>A row fits when no text is wider than its column.\<close>

definition fits :: "string list \<Rightarrow> int list \<Rightarrow> bool" where
  "fits cells widths \<longleftrightarrow> list_all2 (\<lambda>text w. int (RuneCount text) \<le> w) cells widths"

lemma widen_fits: "length cells = length widths \<Longrightarrow> fits cells (widen widths cells)"
  by (auto simp: fits_def widen_def list_all2_conv_all_nth Let_def)

lemma widen_mono: "length cells = length widths \<Longrightarrow> fits row widths \<Longrightarrow> fits row (widen widths cells)"
  by (fastforce simp: fits_def widen_def list_all2_conv_all_nth Let_def)

lemma fits_positive: "fits cells widths \<Longrightarrow> list_all (\<lambda>w. 0 \<le> w) widths"
  unfolding fits_def by (induction rule: list_all2_induct) auto

lemma length_widen [simp]: "length cells = length widths \<Longrightarrow> length (widen widths cells) = length widths"
  by (simp add: widen_def)

lemma length_cell_texts [simp]: "length (cell_texts n row) = n"
  by (simp add: cell_texts_def)

lemma widths_fit:
  assumes "\<And>row. row \<in> set cells \<Longrightarrow> length row = length widths"
  shows "length (foldl widen widths cells) = length widths"
    and "fits row widths \<or> row \<in> set cells \<Longrightarrow> fits row (foldl widen widths cells)"
proof (atomize (full), use assms in \<open>induction cells arbitrary: widths\<close>)
  case (Cons c cells)
  have "length c = length widths" "\<And>row. row \<in> set cells \<Longrightarrow> length row = length (widen widths c)"
    using Cons.prems by simp_all
  then show ?case
    using Cons.IH [of "widen widths c"] widen_fits [of c widths] widen_mono [of c widths row] by auto
qed simp

section \<open>Lines\<close>

definition table_width :: "int list \<Rightarrow> nat" where
  "table_width widths = 1 + sum_list (map (\<lambda>w. nat w + 3) widths)"

definition one_line :: "string \<Rightarrow> bool" where
  "one_line t \<longleftrightarrow> CHR 0x0A \<notin> set t"

lemma one_line_simps [simp]:
  "one_line []" "one_line (c # t) \<longleftrightarrow> c \<noteq> CHR 0x0A \<and> one_line t" "one_line (s @ t) \<longleftrightarrow> one_line s \<and> one_line t"
  "c \<noteq> CHR 0x0A \<Longrightarrow> one_line (replicate n c)"
  by (auto simp: one_line_def)

text \<open>What is printed for the given texts, without its newline.\<close>

definition shows_texts :: "nat \<Rightarrow> string list \<Rightarrow> string \<Rightarrow> bool" where
  "shows_texts n texts l \<longleftrightarrow> RuneCount l = n \<and> (list_all one_line texts \<longrightarrow> one_line l) \<and>
     list_all (\<lambda>t. sublist ('' '' @ t @ '' '') l) texts"

definition unlines :: "string list \<Rightarrow> string" where
  "unlines ls = concat (map (\<lambda>l. l @ [CHR 0x0A]) ls)"

lemma border_loop_line:
  "list_all (\<lambda>w. 0 \<le> w) ws \<Longrightarrow>
    \<exists>s. border_loop ws = Some s \<and> starts_ascii s \<and> RuneCount s = sum_list (map (\<lambda>w. nat w + 3) ws) \<and> one_line s"
proof (induction ws)
  case (Cons w ws)
  then obtain s where "border_loop ws = Some s" "starts_ascii s" "RuneCount s = sum_list (map (\<lambda>w. nat w + 3) ws)" "one_line s"
    by auto
  then show ?case using Cons.prems by (simp add: Repeat_def nat_add_distrib)
qed simp

lemma border_line: "list_all (\<lambda>w. 0 \<le> w) ws \<Longrightarrow> \<exists>l. border ws = Some (l @ [CHR 0x0A]) \<and> shows_texts (table_width ws) [] l"
  using border_loop_line [of ws] by (auto simp: border_def shows_texts_def table_width_def)

lemma cells_loop_line:
  "fits cells ws \<Longrightarrow>
    \<exists>s. cells_loop cells ws = Some s \<and> starts_ascii s \<and> shows_texts (sum_list (map (\<lambda>w. nat w + 3) ws)) cells s"
proof (induction ws arbitrary: cells)
  case (Cons w ws)
  then obtain t ts where c: "cells = t # ts" "int (RuneCount t) \<le> w" "fits ts ws"
    by (auto simp: fits_def list_all2_Cons2)
  obtain s where s: "cells_loop ts ws = Some s" "starts_ascii s" "shows_texts (sum_list (map (\<lambda>w. nat w + 3) ws)) ts s"
    using Cons.IH [OF c(3)] by blast
  define pad where "pad = replicate (nat (w - int (RuneCount t))) (CHR '' '')"
  let ?row = "'' '' @ t @ pad @ '' |'' @ s"
  have "RuneCount ?row = sum_list (map (\<lambda>w. nat w + 3) (w # ws))"
    using s(2,3) c(2) by (simp add: shows_texts_def pad_def nat_diff_distrib')
  moreover obtain z where "pad @ '' |'' @ s = '' '' @ z"
    unfolding pad_def by (cases "nat (w - int (RuneCount t))") auto
  then have "sublist ('' '' @ t @ '' '') ?row"
    by (metis append.assoc sublist_append_rightI)
  moreover have "sublist u ?row" if "sublist u s" for u
    using sublist_order.order.trans [OF that sublist_append_leftI [of s "'' '' @ t @ pad @ '' |''"]] by simp
  moreover have "one_line ?row" if "list_all one_line cells"
    using that s(3) c(1) by (simp add: shows_texts_def pad_def)
  moreover have "cells_loop cells (w # ws) = Some ?row" using s(1) c(1,2) by (simp add: Repeat_def pad_def)
  moreover have "starts_ascii ?row" by simp
  ultimately show ?case using s(3) c(1) by (fastforce simp: shows_texts_def list_all_iff)
qed (simp add: fits_def shows_texts_def)

lemma writeRow_line:
  assumes "fits cells ws"
  shows "\<exists>l. writeRow cells ws = Some (l @ [CHR 0x0A]) \<and> shows_texts (table_width ws) cells l"
proof -
  obtain s where s: "cells_loop cells ws = Some s" "shows_texts (sum_list (map (\<lambda>w. nat w + 3) ws)) cells s"
    using cells_loop_line [OF assms] by blast
  have "sublist u (''|'' @ s)" if "sublist u s" for u
    using that by (metis sublist_append_leftI sublist_order.order.trans)
  then show ?thesis
    using s by (auto simp: writeRow_def shows_texts_def table_width_def list_all_iff)
qed

lemma write_rows_lines:
  "list_all (\<lambda>row. fits row ws) rows \<Longrightarrow>
    \<exists>ls. write_rows rows ws = Some (unlines ls) \<and> list_all2 (shows_texts (table_width ws)) rows ls"
proof (induction rows)
  case (Cons row rows)
  then obtain l ls where "writeRow row ws = Some (l @ [CHR 0x0A])" "write_rows rows ws = Some (unlines ls)"
    "shows_texts (table_width ws) row l" "list_all2 (shows_texts (table_width ws)) rows ls"
    using writeRow_line [of row ws] by auto
  then show ?case by (intro exI [of _ "l # ls"]) (simp add: unlines_def)
qed (simp add: unlines_def)

text \<open>A row of values prints as its texts, filled up or cut to the number of columns.\<close>

lemma cell_texts_take: "cell_texts k row = map Value_String (take k row) @ replicate (k - length row) []"
  by (rule nth_equalityI) (auto simp: cell_texts_def nth_append)

lemma shows_cells: "shows_texts n (cell_texts k row) l \<Longrightarrow> shows_texts n (map Value_String (take k row)) l"
  by (auto simp: shows_texts_def cell_texts_take list_all_iff)

lemma FormatTable_layout:
  assumes "columns \<noteq> []"
  shows "\<exists>width rule header body. FormatTable columns rows = Some (unlines (rule # header # rule # body @ [rule])) \<and>
    shows_texts width [] rule \<and> shows_texts width columns header \<and>
    list_all2 (\<lambda>row. shows_texts width (map Value_String (take (length columns) row))) rows body"
proof -
  let ?cells = "map (cell_texts (length columns)) rows" and ?start = "map (\<lambda>name. int (RuneCount name)) columns"
  let ?ws = "foldl widen ?start ?cells"
  have fit: "fits row ?ws" if "row = columns \<or> row \<in> set ?cells" for row
  proof (rule widths_fit(2))
    show "length r = length ?start" if "r \<in> set ?cells" for r using that by auto
    have "fits columns ?start" by (simp add: fits_def list_all2_map2 list_all2_same)
    then show "fits row ?start \<or> row \<in> set ?cells" using \<open>row = columns \<or> row \<in> set ?cells\<close> by blast
  qed
  have "list_all (\<lambda>w. 0 \<le> w) ?ws" using fits_positive [OF fit [of columns]] by simp
  then obtain rule where rule: "border ?ws = Some (rule @ [CHR 0x0A])" "shows_texts (table_width ?ws) [] rule"
    using border_line by blast
  obtain header where header: "writeRow columns ?ws = Some (header @ [CHR 0x0A])" "shows_texts (table_width ?ws) columns header"
    using writeRow_line [OF fit [of columns]] by blast
  obtain body where body: "write_rows ?cells ?ws = Some (unlines body)" "list_all2 (shows_texts (table_width ?ws)) ?cells body"
    using write_rows_lines [of ?ws ?cells] fit unfolding list_all_iff [of "\<lambda>row. fits row ?ws"] by blast
  have "list_all2 (\<lambda>row. shows_texts (table_width ?ws) (map Value_String (take (length columns) row))) rows body"
    using body(2) unfolding list_all2_map1 by (rule list_all2_mono) (rule shows_cells)
  moreover have "FormatTable columns rows = Some (unlines (rule # header # rule # body @ [rule]))"
    unfolding FormatTable_def Let_def rule(1) header(1) body(1) using assms by (simp add: unlines_def)
  ultimately show ?thesis using rule(2) header(2) by blast
qed

lemma FormatTable_returns: "\<exists>s. FormatTable columns rows = Some s"
  using FormatTable_layout [of columns rows] by (cases "columns = []") (auto simp: FormatTable_def)

section \<open>Property\<close>

text \<open>C37: A table never panics on a negative padding; it is two rules around the header, one record for each row
  and a rule.  All of them have the same number of runes in front of their newline, the record of a row shows the text of every value of
  the row, between spaces and in full, and it is a single line when no text of the row holds a newline (a
  text that does breaks the record into lines of other widths: \<open>newline_breaks_table\<close>).\<close>

theorem FormatTable_aligned:
  assumes "columns \<noteq> []"
  shows "\<exists>width rule header body. FormatTable columns rows = Some (unlines (rule # header # rule # body @ [rule])) \<and>
    RuneCount rule = width \<and> one_line rule \<and>
    RuneCount header = width \<and> (list_all one_line columns \<longrightarrow> one_line header) \<and>
    list_all (\<lambda>name. sublist ('' '' @ name @ '' '') header) columns \<and>
    list_all2 (\<lambda>row record. let texts = map Value_String (take (length columns) row) in
      RuneCount record = width \<and> (list_all one_line texts \<longrightarrow> one_line record) \<and>
      list_all (\<lambda>t. sublist ('' '' @ t @ '' '') record) texts) rows body"
  using FormatTable_layout [OF assms, of rows] unfolding shows_texts_def Let_def by simp

lemma FormatTable_aligned_witness:
  "\<exists>width rule header body. FormatTable [''id'', ''name''] [[VInt 1, VText ''ann''], [VInt 20]] =
      Some (unlines (rule # header # rule # body @ [rule])) \<and>
    RuneCount rule = width \<and> one_line rule \<and>
    RuneCount header = width \<and> (list_all one_line [''id'', ''name''] \<longrightarrow> one_line header) \<and>
    list_all (\<lambda>name. sublist ('' '' @ name @ '' '') header) [''id'', ''name''] \<and>
    list_all2 (\<lambda>row record. let texts = map Value_String (take (length [''id'', ''name'']) row) in
      RuneCount record = width \<and> (list_all one_line texts \<longrightarrow> one_line record) \<and>
      list_all (\<lambda>t. sublist ('' '' @ t @ '' '') record) texts) [[VInt 1, VText ''ann''], [VInt 20]] body"
  by (rule FormatTable_aligned) simp

text \<open>A text with a newline is measured as one line and printed as two.\<close>

theorem newline_breaks_table:
  "FormatTable [''a''] [[VText [CHR ''x'', CHR 0x0A, CHR ''y'']]] =
    Some (unlines [''+-----+'', ''| a   |'', ''+-----+'', ''| x'', ''y |'', ''+-----+''])"
  by (simp add: FormatTable_def cell_texts_def widen_def border_def writeRow_def Repeat_def unlines_def Let_def
      char_code_def numeral_eq_Suc)

end
