(* ===== verification/Shell.thy ===== *)
theory Shell
  imports Session Format
begin

text \<open>
  The command line: \<open>src/cmd/keelsql/main.go\<close> from the flags to the exit code.  The flags are those that
  \<open>flag.Parse\<close> found; \<open>opens\<close> is \<open>keelstore.Open\<close>, a directory to a store or an error; the
  lines are those \<open>bufio.Scanner\<close> delivers, with the error it may stop with; what is printed is a list of
  events; the n-th timing reads as \<open>took n\<close>.  The wording of errors is not modelled.
\<close>

section \<open>White space\<close>

text \<open>\<open>unicode.IsSpace\<close>, \<open>strings.TrimSpace\<close> and \<open>strings.Fields\<close>, on runes with the bytes they came from.\<close>

definition IsSpace :: "nat \<Rightarrow> bool" where
  "IsSpace r \<longleftrightarrow> 9 \<le> r \<and> r \<le> 13 \<or> r \<in> {0x20, 0x85, 0xA0, 0x1680, 0x2028, 0x2029, 0x202F, 0x205F, 0x3000} \<or>
     0x2000 \<le> r \<and> r \<le> 0x200A"

fun chunks :: "string \<Rightarrow> (nat \<times> string) list" where
  "chunks [] = []"
| "chunks (c # s) =
     (let w = snd (decode_rune c s) - 1 in (fst (decode_rune c s), c # take w s) # chunks (drop w s))"

declare chunks.simps(2) [simp del]

definition TrimSpace :: "string \<Rightarrow> string" where
  "TrimSpace s =
     concat (map snd (rev (dropWhile (\<lambda>ch. IsSpace (fst ch)) (rev (dropWhile (\<lambda>ch. IsSpace (fst ch)) (chunks s))))))"

fun fields_loop :: "string \<Rightarrow> (nat \<times> string) list \<Rightarrow> string list" where
  "fields_loop field [] = (if field = [] then [] else [field])"
| "fields_loop field (ch # chs) =
     (if \<not> IsSpace (fst ch) then fields_loop (field @ snd ch) chs
      else if field = [] then fields_loop [] chs else field # fields_loop [] chs)"

definition Fields :: "string \<Rightarrow> string list" where
  "Fields s = fields_loop [] (chunks s)"

section \<open>State\<close>

datatype event =
    Printed string
  | RunError conn_error
  | CatalogError catalog_error
  | UnknownCommand string

datatype loop_error = ReadFailed string | RunFailed conn_error

record 'db repl =
  rp_db :: "'db DB"
  rp_conn :: Conn
  rp_out :: "event list"
  rp_echo :: bool
  rp_explain :: bool
  rp_timer :: bool
  rp_clock :: nat

definition show_event :: "event \<Rightarrow> 'db repl \<Rightarrow> 'db repl" where
  "show_event ev r = r\<lparr>rp_out := rp_out r @ [ev]\<rparr>"

abbreviation line :: "string \<Rightarrow> event" where
  "line s \<equiv> Printed (s @ [CHR 0x0A])"

section \<open>Running statements\<close>

definition plural :: "nat \<Rightarrow> string \<Rightarrow> string \<Rightarrow> string" where
  "plural n one many = (if n = 1 then one else many)"

definition summary :: "Result \<Rightarrow> string" where
  "summary res =
     (let n = length (r_Rows res) in
      if r_Tag res = ''SELECT'' \<or> r_Tag res = ''EXPLAIN'' then int_dec (int n) @ '' '' @ plural n ''row'' ''rows''
      else if r_Tag res = ''INSERT'' \<or> r_Tag res = ''UPDATE'' \<or> r_Tag res = ''DELETE''
        then r_Tag res @ '' '' @ FormatInt (r_Affected res)
      else r_Tag res)"

definition report :: "string \<Rightarrow> Result \<Rightarrow> 'db repl \<Rightarrow> 'db repl option" where
  "report elapsed res r =
     (let done = (\<lambda>r. show_event (line (''-- '' @ summary res @
            (if rp_timer r then '' ('' @ elapsed @ '')'' else []))) r)
      in if r_Columns res = [] then Some (done r)
         else map_option (\<lambda>table. done (show_event (Printed table) r)) (FormatTable (r_Columns res) (r_Rows res)))"

definition wantsPlan :: "Stmt \<Rightarrow> bool" where
  "wantsPlan stmt =
     (case stmt of SelectStmt _ \<Rightarrow> True | UpdateStmt _ _ _ \<Rightarrow> True | DeleteStmt _ _ \<Rightarrow> True | InsertStmt _ _ _ \<Rightarrow> True
      | _ \<Rightarrow> False)"

type_synonym 'db ran_text = "(conn_error option \<times> 'db repl) option"

text \<open>Running a statement through the session of the shell, with what happens to its result.\<close>

definition through :: "'db keelstore \<Rightarrow> json \<Rightarrow> Stmt \<Rightarrow> (Result \<Rightarrow> 'db repl \<Rightarrow> 'db ran_text) \<Rightarrow> 'db repl \<Rightarrow> 'db ran_text" where
  "through ks js stmt k r =
     (case Conn_run ks js stmt (rp_db r) (rp_conn r) of
        None \<Rightarrow> None
      | Some (res, db, c) \<Rightarrow>
          (case res of
             Inl e \<Rightarrow> Some (Some e, r\<lparr>rp_db := db, rp_conn := c\<rparr>)
           | Inr result \<Rightarrow> k result (r\<lparr>rp_db := db, rp_conn := c\<rparr>)))"

definition runStatement :: "'db keelstore \<Rightarrow> json \<Rightarrow> (nat \<Rightarrow> string) \<Rightarrow> Stmt \<Rightarrow> 'db repl \<Rightarrow> 'db ran_text" where
  "runStatement ks js took stmt r =
     (let execute = through ks js stmt (\<lambda>res r.
            map_option (Pair None) (report (took (rp_clock r)) res (r\<lparr>rp_clock := rp_clock r + 1\<rparr>)))
      in if rp_explain r \<and> wantsPlan stmt
         then through ks js (ExplainStmt stmt) (\<lambda>res r. execute (show_event (line (r_Plan res)) r)) r
         else execute r)"

fun run_statements :: "'db keelstore \<Rightarrow> json \<Rightarrow> (nat \<Rightarrow> string) \<Rightarrow> Stmt list \<Rightarrow> 'db repl \<Rightarrow> 'db ran_text" where
  "run_statements ks js took [] r = Some (None, r)"
| "run_statements ks js took (stmt # stmts) r =
     (case runStatement ks js took stmt r of
        None \<Rightarrow> None
      | Some (Some e, r') \<Rightarrow> Some (Some e, r')
      | Some (None, r') \<Rightarrow> run_statements ks js took stmts r')"

definition runText :: "casing \<Rightarrow> 'db keelstore \<Rightarrow> json \<Rightarrow> (nat \<Rightarrow> string) \<Rightarrow> string \<Rightarrow> 'db repl \<Rightarrow> 'db ran_text" where
  "runText cs ks js took text r =
     (case ParseMany cs text of
        None \<Rightarrow> None
      | Some (Inl e) \<Rightarrow> Some (Some (CParse e), r)
      | Some (Inr stmts) \<Rightarrow> run_statements ks js took stmts r)"

section \<open>Dot commands\<close>

definition onOff :: "casing \<Rightarrow> string list \<Rightarrow> bool \<Rightarrow> bool" where
  "onOff cs words current =
     (if length words < 2 then \<not> current
      else
        (let word = ToLower cs (words ! 1) in
         if word \<in> {''on'', ''true'', ''1''} then True
         else if word \<in> {''off'', ''false'', ''0''} then False else current))"

definition onOffText :: "bool \<Rightarrow> string" where
  "onOffText b = (if b then ''on'' else ''off'')"

definition helpText :: string where
  "helpText = concat (map (\<lambda>s. s @ [CHR 0x0A])
     [''.tables            list the tables'',
      ''.schema [table]    print the schema of one table, or of all of them'',
      ''.explain on|off    print the query plan before running each statement'',
      ''.timer on|off      print how long each statement took'',
      ''.help              this list'',
      ''.quit              leave''])"

definition schemaCommand :: "casing \<Rightarrow> string list \<Rightarrow> 'db repl \<Rightarrow> 'db repl" where
  "schemaCommand cs words r =
     (let print = (\<lambda>tables. fold (\<lambda>t. show_event (line (Table_SQL t))) tables r) in
      if 1 < length words then
        (case Catalog_Get (db_cat (rp_db r)) (ToLower cs (words ! 1)) of
           Inl e \<Rightarrow> show_event (CatalogError e) r
         | Inr t \<Rightarrow> print [t])
      else print (Catalog_All (db_cat (rp_db r))))"

definition dotCommand :: "casing \<Rightarrow> string \<Rightarrow> 'db repl \<Rightarrow> bool \<times> 'db repl" where
  "dotCommand cs text r =
     (let words = Fields text; cmd = words ! 0 in
      if cmd = ''.quit'' \<or> cmd = ''.exit'' then (True, r)
      else
        (False,
         if cmd = ''.help'' then show_event (Printed helpText) r
         else if cmd = ''.tables'' then
           (let names = Names (db_cat (rp_db r)) in
            show_event (line (if names = [] then ''-- no tables'' else Join ''  '' names)) r)
         else if cmd = ''.schema'' then schemaCommand cs words r
         else if cmd = ''.explain'' then
           (let r' = r\<lparr>rp_explain := onOff cs words (rp_explain r)\<rparr>
            in show_event (line (''-- explain '' @ onOffText (rp_explain r'))) r')
         else if cmd = ''.timer'' then
           (let r' = r\<lparr>rp_timer := onOff cs words (rp_timer r)\<rparr>
            in show_event (line (''-- timer '' @ onOffText (rp_timer r'))) r')
         else show_event (UnknownCommand cmd) r))"

section \<open>The loop\<close>

definition complete :: "casing \<Rightarrow> string \<Rightarrow> bool" where
  "complete cs text =
     (case Tokenize cs text of Inl e \<Rightarrow> False | Inr toks \<Rightarrow> list_ex (\<lambda>tok. Token_Is tok '';'') toks)"

definition prompt :: "string \<Rightarrow> 'db repl \<Rightarrow> 'db repl" where
  "prompt typed r = show_event (Printed (if typed = [] then ''keelsql> '' else ''    ...> '')) r"

definition echo_line :: "string \<Rightarrow> 'db repl \<Rightarrow> 'db repl" where
  "echo_line text r = (if rp_echo r then show_event (line text) r else r)"

fun repl_loop :: "casing \<Rightarrow> 'db keelstore \<Rightarrow> json \<Rightarrow> (nat \<Rightarrow> string) \<Rightarrow> string option \<Rightarrow> string list \<Rightarrow> string
    \<Rightarrow> 'db repl \<Rightarrow> (loop_error option \<times> 'db repl) option" where
  "repl_loop cs ks js took failure [] typed r =
     (let r1 = prompt typed r in
      case failure of
        Some e \<Rightarrow> Some (Some (ReadFailed e), r1)
      | None \<Rightarrow>
          (let rest = TrimSpace typed in
           if rest = [] then Some (None, r1)
           else map_option (\<lambda>(err, r2). (map_option RunFailed err, r2)) (runText cs ks js took rest r1)))"
| "repl_loop cs ks js took failure (text # texts) typed r =
     (let r1 = echo_line text (prompt typed r); trimmed = TrimSpace text; buffered = typed @ text @ [CHR 0x0A] in
      if typed = [] \<and> trimmed = [] then repl_loop cs ks js took failure texts [] r1
      else if typed = [] \<and> prefix ''.'' trimmed then
        (case dotCommand cs trimmed r1 of
           (stop, r2) \<Rightarrow> if stop then Some (None, r2) else repl_loop cs ks js took failure texts [] r2)
      else if \<not> complete cs buffered then repl_loop cs ks js took failure texts buffered r1
      else
        (case runText cs ks js took buffered r1 of
           None \<Rightarrow> None
         | Some (err, r2) \<Rightarrow>
             repl_loop cs ks js took failure texts []
               (case err of None \<Rightarrow> r2 | Some e \<Rightarrow> show_event (RunError e) r2)))"

section \<open>The command\<close>

record flags =
  fl_Dir :: string
  fl_Command :: string
  fl_Echo :: bool
  fl_Explain :: bool
  fl_Quiet :: bool
  fl_Timer :: bool

definition flag_defaults :: flags where
  "flag_defaults = \<lparr>fl_Dir = ''keeldata'', fl_Command = [], fl_Echo = False, fl_Explain = False,
     fl_Quiet = False, fl_Timer = True\<rparr>"

datatype main_error = OpenFailed conn_error | CommandFailed conn_error | LoopFailed loop_error

definition exit_code :: "main_error option \<Rightarrow> nat" where
  "exit_code err = (if err = None then 0 else 1)"

definition new_repl :: "flags \<Rightarrow> 'db DB \<Rightarrow> 'db repl" where
  "new_repl fl db = \<lparr>rp_db = db, rp_conn = DB_Conn, rp_out = [], rp_echo = fl_Echo fl, rp_explain = fl_Explain fl,
     rp_timer = fl_Timer fl, rp_clock = 0\<rparr>"

text \<open>The dash is three bytes of UTF-8; \<open>path\<close> is what \<open>db.Path()\<close> answers.\<close>

definition banner :: "string \<Rightarrow> 'db repl \<Rightarrow> 'db repl" where
  "banner path r =
     show_event (Printed (''database '' @ path @ ''; .help for commands, .quit to leave'' @ [CHR 0x0A, CHR 0x0A]))
       (show_event (line (''keelsql 0.1.0 '' @ [CHR 0xE2, CHR 0x80, CHR 0x94] @ '' a SQL engine on keelstore'')) r)"

text \<open>The error the process ends with, if any, and the shell it leaves behind, if it got that far.
  \<open>loop\<close> does not return \<open>io.EOF\<close>: a scanner does not report it.\<close>

definition cmd_main :: "casing \<Rightarrow> 'db keelstore \<Rightarrow> json \<Rightarrow> (nat \<Rightarrow> string) \<Rightarrow> flags \<Rightarrow> (string \<Rightarrow> keel_error + 'db)
    \<Rightarrow> string \<Rightarrow> string option \<Rightarrow> string list \<Rightarrow> (main_error option \<times> 'db repl option) option" where
  "cmd_main cs ks js took fl opens path failure texts =
     (case (case opens (fl_Dir fl) of Inl e \<Rightarrow> Inl (CKeel e) | Inr store \<Rightarrow> DB_Open ks js store) of
        Inl e \<Rightarrow> Some (Some (OpenFailed e), None)
      | Inr db \<Rightarrow>
          (let r = new_repl fl db in
           if fl_Command fl \<noteq> [] then
             map_option (\<lambda>(err, r'). (map_option CommandFailed err, Some r')) (runText cs ks js took (fl_Command fl) r)
           else
             map_option (\<lambda>(err, r'). (map_option LoopFailed err, Some r'))
               (repl_loop cs ks js took failure texts [] (if fl_Quiet fl then r else banner path r))))"

section \<open>What the shell runs\<close>

lemma show_event_simps [simp]:
  "rp_db (show_event ev r) = rp_db r" "rp_conn (show_event ev r) = rp_conn r" "rp_explain (show_event ev r) = rp_explain r"
  by (simp_all add: show_event_def)

lemma report_effect: "\<exists>r'. report elapsed res r = Some r' \<and> rp_db r' = rp_db r \<and> rp_conn r' = rp_conn r"
proof (cases "r_Columns res = []")
  case False
  obtain table where "FormatTable (r_Columns res) (r_Rows res) = Some table" using FormatTable_returns by blast
  then show ?thesis using False by (simp add: report_def Let_def)
qed (simp add: report_def Let_def)

text \<open>A statement that cannot be planned fails as its EXPLAIN does.\<close>

lemma unplannable:
  "wantsPlan stmt \<Longrightarrow> Planner_Plan (db_cat db) stmt = Inl e \<Longrightarrow> Conn_run ks js stmt db c = Some (Inl (CPlan e), db, c)"
  by (cases stmt) (auto simp: wantsPlan_def Conn_run_def selectRows_def Conn_query_def Conn_dml_def)

lemma explain_run: "Conn_run ks js (ExplainStmt stmt) db c =
    Some (case Planner_Plan (db_cat db) stmt of Inl e \<Rightarrow> Inl (CPlan e)
      | Inr p \<Rightarrow> Inr ((tagged ''EXPLAIN'')\<lparr>r_Plan := Explain p, r_Columns := [''plan''],
          r_Rows := map (\<lambda>text. [VText text]) (splitLines (Explain p))\<rparr>), db, c)"
  by (simp add: Conn_run_def Conn_explain_def Let_def split: sum.split)

lemma runStatement_effect:
  assumes "Conn_run ks js stmt (rp_db r) (rp_conn r) = Some (res, db, c)"
  shows "\<exists>r'. runStatement ks js took stmt r = Some (case res of Inl e \<Rightarrow> Some e | Inr result \<Rightarrow> None, r') \<and>
    rp_db r' = db \<and> rp_conn r' = c"
proof -
  have execute: "\<exists>r'. through ks js stmt (\<lambda>res r. map_option (Pair None)
        (report (took (rp_clock r)) res (r\<lparr>rp_clock := rp_clock r + 1\<rparr>))) r1 =
      Some (case res of Inl e \<Rightarrow> Some e | Inr result \<Rightarrow> None, r') \<and> rp_db r' = db \<and> rp_conn r' = c"
    if "rp_db r1 = rp_db r" "rp_conn r1 = rp_conn r" for r1
  proof (cases res)
    case (Inr result)
    obtain r' where "report (took (rp_clock r1)) result (r1\<lparr>rp_db := db, rp_conn := c, rp_clock := rp_clock r1 + 1\<rparr>) = Some r'"
      "rp_db r' = db" "rp_conn r' = c"
      using report_effect [of _ result "r1\<lparr>rp_db := db, rp_conn := c, rp_clock := rp_clock r1 + 1\<rparr>"] by auto
    then show ?thesis using assms that Inr by (simp add: through_def)
  qed (use assms that in \<open>simp add: through_def\<close>)
  show ?thesis
  proof (cases "rp_explain r \<and> wantsPlan stmt")
    case False
    then show ?thesis using execute [of r] by (auto simp: runStatement_def Let_def)
  next
    case True
    show ?thesis
    proof (cases "Planner_Plan (db_cat (rp_db r)) stmt")
      case (Inl e)
      then show ?thesis
        using True assms unplannable [of stmt "rp_db r" e ks js "rp_conn r"]
        by (auto simp: runStatement_def Let_def through_def explain_run)
    next
      case (Inr p)
      then show ?thesis
        using True execute [of "show_event (line (Explain p)) (r\<lparr>rp_db := rp_db r, rp_conn := rp_conn r\<rparr>)"]
        by (simp add: runStatement_def Let_def through_def [of ks js "ExplainStmt stmt"] explain_run tagged_def)
    qed
  qed
qed

lemma run_statements_effect:
  "\<exists>err r' results. run_statements ks js took stmts r = Some (err, r') \<and>
    run_all ks js stmts out (rp_db r) (rp_conn r) = Some (results, err, rp_db r', rp_conn r')"
proof (induction stmts arbitrary: r out)
  case (Cons stmt stmts)
  obtain res db c where run: "Conn_run ks js stmt (rp_db r) (rp_conn r) = Some (res, db, c)"
    using Conn_run_returns by blast
  obtain r' where "runStatement ks js took stmt r = Some (case res of Inl e \<Rightarrow> Some e | Inr result \<Rightarrow> None, r')"
    "rp_db r' = db" "rp_conn r' = c"
    using runStatement_effect [OF run] by blast
  then show ?case using run Cons.IH [of r' "out @ [projr res]"] by (cases res) auto
qed simp

lemma runText_returns: "\<exists>err r'. runText cs ks js took text r = Some (err, r')"
  using Parse_many_returns [of cs "text"] run_statements_effect [of ks js took _ r "[]"]
  by (fastforce simp: runText_def split: sum.split)

section \<open>White space before a statement\<close>

lemma dropWhile_rev_Cons: "\<not> P x \<Longrightarrow> rev (dropWhile P (rev (x # xs))) = x # rev (dropWhile P (rev xs))"
  by (simp add: dropWhile_append)

lemma TrimSpace_Cons:
  assumes "char_code c < 128" and "\<not> IsSpace (char_code c)"
  shows "\<exists>s'. TrimSpace (c # s) = c # s'"
  using assms by (simp add: TrimSpace_def chunks.simps Let_def dropWhile_rev_Cons del: rev.simps)

section \<open>Bytes that begin no token\<close>

definition illegal :: "char \<Rightarrow> bool" where
  "illegal c \<longleftrightarrow> c \<in> set ''#$&:?@[]^`{}~''"

lemma illegal_Next:
  assumes "illegal c" and "rest_of l = c # s"
  shows "\<exists>e l'. Lexer_Next cs l = (Inl e, l')"
proof -
  have c: "\<not> is_space c" "c \<noteq> CHR ''-''" "c \<noteq> CHR ''/''" "c \<noteq> squote" "c \<noteq> CHR 0x22" "\<not> is_digit c" "\<not> is_ident_start c"
    "c \<notin> set ''=<>+-*/%(),;.''" "find (\<lambda>op. prefix op (c # s)) operators = None"
    using assms(1)
    by (auto simp: illegal_def is_space_def char_code_def squote_def is_digit_def is_ident_start_def is_alpha_def operators_def)
  have "drop (lx_pos l) (lx_src l) = c # s" using assms(2) by (simp add: rest_of_def)
  then show ?thesis
    using c skip_at_token [OF assms(2) c(1-3)] cursor_rest [OF assms(2)] assms(2)
    by (simp add: Lexer_Next_def lex_token_def lexPunct_def at_end_rest Let_def)
qed

lemma rest_New [simp]: "rest_of (Lexer_New s) = s"
  by (simp add: rest_of_def Lexer_New_def)

lemma illegal_incomplete: "illegal c \<Longrightarrow> \<not> complete cs (c # s)"
  using illegal_Next [of c "Lexer_New (c # s)" s cs]
  by (auto simp: complete_def Tokenize_def tokenize_loop.simps)

lemma script_at_end:
  assumes "tk_Kind (ps_tok p) = TEOF"
  shows "script cs (fuel_for p) out p = Some (finish out p)"
proof -
  have "\<not> sees p '';''" using assms by (simp add: sees_def Token_Is_def)
  moreover obtain n where "fuel_for p = Suc n" by (cases "fuel_for p") (simp_all add: fuel_for_def)
  ultimately show ?thesis using assms by simp
qed

lemma illegal_ParseMany:
  assumes "illegal c"
  shows "\<exists>e. ParseMany cs (c # s) = Some (Inl (LexFailed e))"
proof -
  obtain e l where "Lexer_Next cs (Lexer_New (c # s)) = (Inl e, l)"
    using illegal_Next [OF assms, of "Lexer_New (c # s)" s cs] by auto
  then have "ps_err (Parser_New cs (c # s)) = Some e" "tk_Kind (ps_tok (Parser_New cs (c # s))) = TEOF"
    by (simp_all add: Parser_New_def Parser_advance_def Let_def split: prod.split sum.split)
  then show ?thesis
    by (simp add: ParseMany_def script_at_end finish_def Let_def)
qed

text \<open>What the shell prints while it waits for more: the line, when lines are echoed, and a prompt.\<close>

definition waiting :: "bool \<Rightarrow> string list \<Rightarrow> event list" where
  "waiting echo texts = concat (map (\<lambda>text. (if echo then [line text] else []) @ [Printed ''    ...> '']) texts)"

lemma waiting_simps [simp]:
  "waiting echo [] = []"
  "waiting echo (text # texts) = (if echo then [line text] else []) @ Printed ''    ...> '' # waiting echo texts"
  by (simp_all add: waiting_def)

lemma illegal_loop:
  assumes "illegal c"
  shows "\<exists>e. repl_loop cs ks js took None texts (c # typed) r = Some (Some (RunFailed (CParse (LexFailed e))),
    r\<lparr>rp_out := rp_out r @ Printed ''    ...> '' # waiting (rp_echo r) texts\<rparr>)"
proof (induction texts arbitrary: typed r)
  case Nil
  have "char_code c < 128" "\<not> IsSpace (char_code c)"
    using assms by (auto simp: illegal_def char_code_def IsSpace_def)
  then obtain s where "TrimSpace (c # typed) = c # s" using TrimSpace_Cons by blast
  then show ?case
    using illegal_ParseMany [OF assms, of cs s] by (auto simp: runText_def prompt_def show_event_def Let_def)
next
  case (Cons ln texts)
  show ?case
    using Cons.IH [of "typed @ ln @ [CHR 0x0A]" "echo_line ln (prompt (c # typed) r)"] illegal_incomplete [OF assms]
    by (cases "rp_echo r") (simp_all add: Let_def prompt_def echo_line_def show_event_def)
qed

text \<open>The shell runs a text exactly as a session runs a script: whatever the settings of \<open>.explain\<close> and
  \<open>.timer\<close>, which only change what is printed, it ends with the same error, database and session.\<close>

theorem shell_runs_scripts:
  "\<exists>err r' results. runText cs ks js took text r = Some (err, r') \<and>
     Conn_ExecScript cs ks js text (rp_db r) (rp_conn r) = Some (results, err, rp_db r', rp_conn r')"
proof -
  obtain p where "ParseMany cs text = Some p" using Parse_many_returns by blast
  then show ?thesis
    using run_statements_effect [of ks js took _ r "[]"]
    by (cases p) (simp_all add: runText_def Conn_ExecScript_def)
qed

lemma repl_loop_returns: "\<exists>err r'. repl_loop cs ks js took failure texts typed r = Some (err, r')"
proof (induction texts arbitrary: typed r)
  case Nil
  show ?case
    using runText_returns [of cs ks js took "TrimSpace typed" "prompt typed r"]
    by (auto simp: Let_def split: option.split)
next
  case (Cons ln texts)
  obtain err r2 where "runText cs ks js took (typed @ ln @ [CHR 0x0A]) (echo_line ln (prompt typed r)) = Some (err, r2)"
    using runText_returns by blast
  then show ?case using Cons.IH by (auto simp: Let_def split: prod.split)
qed

section \<open>Properties\<close>

text \<open>C35: The command always ends.  It fails with exit code 1 and runs nothing when the store cannot be opened
  or the catalog in it not be read; with \<open>-c\<close> it runs the text as a session runs a script, whatever the other
  flags say, ends with the database that leaves, and with exit code 1 exactly when the script fails.\<close>

theorem command_runs_scripts:
  "\<exists>err r. cmd_main cs ks js took fl opens path failure texts = Some (err, r) \<and>
     (case (case opens (fl_Dir fl) of Inl e \<Rightarrow> Inl (CKeel e) | Inr store \<Rightarrow> DB_Open ks js store) of
        Inl e \<Rightarrow> r = None \<and> exit_code err = 1
      | Inr db \<Rightarrow> \<exists>r'. r = Some r' \<and>
          (fl_Command fl = [] \<or> (\<exists>results e.
             Conn_ExecScript cs ks js (fl_Command fl) db DB_Conn = Some (results, e, rp_db r', rp_conn r') \<and>
             exit_code err = (if e = None then 0 else 1))))"
proof (cases "case opens (fl_Dir fl) of Inl e \<Rightarrow> Inl (CKeel e) | Inr store \<Rightarrow> DB_Open ks js store")
  case (Inl e)
  then show ?thesis by (simp add: cmd_main_def exit_code_def)
next
  case (Inr db)
  show ?thesis
  proof (cases "fl_Command fl = []")
    case True
    obtain err r' where "repl_loop cs ks js took failure texts []
        (if fl_Quiet fl then new_repl fl db else banner path (new_repl fl db)) = Some (err, r')"
      using repl_loop_returns by blast
    then show ?thesis using Inr True by (simp add: cmd_main_def Let_def)
  next
    case False
    obtain err r' results where "runText cs ks js took (fl_Command fl) (new_repl fl db) = Some (err, r')"
      "Conn_ExecScript cs ks js (fl_Command fl) db DB_Conn = Some (results, err, rp_db r', rp_conn r')"
      using shell_runs_scripts [of cs ks js took "fl_Command fl" "new_repl fl db"] by (auto simp: new_repl_def)
    then show ?thesis using Inr False by (simp add: cmd_main_def exit_code_def Let_def)
  qed
qed

text \<open>C36: A line that begins with a byte no token begins with is never given up: every later line, a complete
  statement or \<open>.quit\<close> included, is added to the same buffer and none is run.  Until the input ends nothing is printed
  but prompts and echoed lines; then the loop ends with the error, the database and the session being what they were.\<close>

theorem illegal_line_swallows:
  assumes "illegal c"
  shows "\<exists>e. repl_loop cs ks js took None ((c # text) # texts) [] r = Some (Some (RunFailed (CParse (LexFailed e))),
    r\<lparr>rp_out := rp_out r @ Printed ''keelsql> '' # waiting (rp_echo r) ((c # text) # texts)\<rparr>)"
proof -
  have c: "char_code c < 128" "\<not> IsSpace (char_code c)" "c \<noteq> CHR ''.''"
    using assms by (auto simp: illegal_def char_code_def IsSpace_def)
  obtain s where s: "TrimSpace (c # text) = c # s" using TrimSpace_Cons [OF c(1,2)] by blast
  show ?thesis
    using illegal_loop [OF assms, of cs ks js took texts "text @ [CHR 0x0A]" "echo_line (c # text) (prompt [] r)"]
      illegal_incomplete [OF assms] s c(3)
    by (cases "rp_echo r") (simp_all add: Let_def prompt_def echo_line_def show_event_def)
qed

lemma illegal_line_swallows_witness:
  "let db = \<lparr>db_store = NewMemory, db_cat = empty_catalog\<rparr>;
       r = \<lparr>rp_db = db, rp_conn = DB_Conn, rp_out = [], rp_echo = True, rp_explain = False, rp_timer = False, rp_clock = 0\<rparr>;
       cs = \<lparr>to_upper = id, to_lower = id\<rparr>; more = Printed ''    ...> ''
   in \<forall>ks js. \<exists>e. repl_loop cs ks js (\<lambda>n. []) None [''@;'', ''CREATE TABLE t (id INT);'', ''.quit''] [] r =
      Some (Some (RunFailed (CParse (LexFailed e))), r\<lparr>rp_out :=
        [Printed ''keelsql> '', line ''@;'', more, line ''CREATE TABLE t (id INT);'', more, line ''.quit'', more]\<rparr>)"
  unfolding Let_def
proof (intro allI)
  fix ks :: "Memory keelstore" and js
  show "\<exists>e. repl_loop \<lparr>to_upper = id, to_lower = id\<rparr> ks js (\<lambda>n. []) None [''@;'', ''CREATE TABLE t (id INT);'', ''.quit''] []
      \<lparr>rp_db = \<lparr>db_store = NewMemory, db_cat = empty_catalog\<rparr>, rp_conn = DB_Conn, rp_out = [], rp_echo = True, rp_explain = False,
        rp_timer = False, rp_clock = 0\<rparr> =
    Some (Some (RunFailed (CParse (LexFailed e))), \<lparr>rp_db = \<lparr>db_store = NewMemory, db_cat = empty_catalog\<rparr>, rp_conn = DB_Conn, rp_out = [],
      rp_echo = True, rp_explain = False, rp_timer = False, rp_clock = 0\<rparr>\<lparr>rp_out :=
        [Printed ''keelsql> '', line ''@;'', Printed ''    ...> '', line ''CREATE TABLE t (id INT);'', Printed ''    ...> '',
         line ''.quit'', Printed ''    ...> '']\<rparr>)"
    using illegal_line_swallows [of "CHR ''@''" "\<lparr>to_upper = id, to_lower = id\<rparr>" ks js "\<lambda>n. []" "'';''"
        "[''CREATE TABLE t (id INT);'', ''.quit'']"
        "\<lparr>rp_db = \<lparr>db_store = NewMemory, db_cat = empty_catalog\<rparr>, rp_conn = DB_Conn, rp_out = [], rp_echo = True, rp_explain = False,
          rp_timer = False, rp_clock = 0\<rparr>"]
    by (simp add: illegal_def del: repl_loop.simps)
qed

end
