(* ===== verification/Spec2Isabelle.thy ===== *)
theory Spec2Isabelle
  imports ReparseStmt EndToEnd Consistency Locking Shell
begin

text \<open>
  KeelSQL is a SQL engine in Go over a sorted key-value store, keelstore.  A statement goes through
  the scanner and the parser, the planner turns its tree into a plan with the schema of the catalog,
  and the executor runs the plan against a transaction: a write buffer laid over a snapshot of the
  store.  Rows and index entries are keys whose byte order is the order of the values in them.  A
  session holds the open transaction, if any; commit writes the buffer to the store key by key.

  The theories follow the packages under \<open>src/\<close>.  A definition has the name of what it models
  (a method carries its receiver: \<open>Tx_Commit\<close> is \<open>(*Tx).Commit\<close>); a struct is a record, an
  interface with several implementations a datatype or a record of functions, \<open>int64\<close> a 64-bit
  word, a \<open>float64\<close> its bit pattern, a Go string HOL's \<open>string\<close> (256 bytes as characters), a byte
  slice a list of 8-bit words, an error a value of a sum or option type with the parts its message
  quotes.  State is passed and returned; what a failed call leaves behind is returned beside the error.

  \<^item> \<open>Prelude\<close>, \<open>Words64\<close>, \<open>Float64\<close>, \<open>Decimal\<close>, \<open>Unicode\<close>, \<open>Sorting\<close>, \<open>TopHeap\<close>: what the code uses of
    Go's standard library: big-endian integers, IEEE doubles, \<open>strconv\<close>, \<open>utf8\<close>, \<open>sort\<close> and
    \<open>container/heap\<close>; and \<open>types/value.go\<close>'s printers.
  \<^item> \<open>Values\<close>, \<open>Ops\<close>, \<open>Logic3\<close>: \<open>types/\<close>, the values, their comparison, order, arithmetic, LIKE and the
    three-valued logic.
  \<^item> \<open>Keycodec\<close>, \<open>Keys\<close>: \<open>keycodec/\<close>, values, rows and keys as bytes: round trips, order, disjointness.
  \<^item> \<open>Storage\<close>: \<open>storage/\<close>, the reader and writer interfaces, the in-memory store, the write buffer and
    the overlay with its merging iterator, all against one contract, the locale \<open>read_writer\<close>: a
    store reads as a map, a scan lists a range of it in order, a write changes it at one key.
  \<^item> \<open>Catalog\<close>: \<open>catalog/catalog.go\<close>, schemas in memory and in the store; the locale \<open>catalog_store\<close>
    extends the contract and its lemmas keep the two copies equal.
  \<^item> \<open>Lexer\<close>, \<open>Parser\<close>, \<open>ParseTree\<close>: \<open>lexer/\<close> and \<open>parser/parser.go\<close>; positions, termination, and the
    shape of the trees that the planner relies on.  \<open>Ast\<close>: \<open>ast/\<close>, the trees and their printers.
  \<^item> \<open>FloatText\<close>, \<open>Printing\<close>, \<open>PrintStmt\<close>, \<open>Reparse\<close>, \<open>ReparseStmt\<close>: the printers against the scanner and
    the parser.  Every finite double is printed with digits that read back to it; a printed tree
    scans to the tokens written down for it, whatever separator follows; each production of the parser is
    described by the tokens it consumes; so a printed expression, statement or script parses to itself.
  \<^item> \<open>Range\<close>, \<open>Plans\<close>, \<open>Planner\<close>, \<open>PlanSound\<close>: \<open>plan/\<close>, scan ranges, plan nodes, EXPLAIN, the choice of the
    access path and the plans of every statement; a chosen path with its residual filter is the
    WHERE condition.
  \<^item> \<open>Eval\<close>, \<open>Aggregate\<close>, \<open>Operators\<close>, \<open>Dml\<close>: \<open>exec/\<close>, expressions, accumulators, the operators with their
    mutable state and the statements that write.  \<open>Rows\<close> gives an operator tree its meaning as a list
    of rows; \<open>Progress\<close> shows that draining one always ends; \<open>OrderBy\<close> and \<open>GroupBy\<close> say what
    sorting and grouping compute.
  \<^item> \<open>TableData\<close>, \<open>Scans\<close>, \<open>Statements\<close>, \<open>Targets\<close>, \<open>Queries\<close>, \<open>Grouped\<close>: the abstraction \<open>table_holds t m R\<close>, by which the keys
    \<open>m\<close> hold exactly the rows \<open>R\<close> of table \<open>t\<close> and one entry per row and index, and what scans,
    statements (\<open>Targets\<close>: also when a condition fails to evaluate) and queries, grouped ones in \<open>Grouped\<close>,
    do in terms of \<open>R\<close>.
  \<^item> \<open>Session\<close>, \<open>Transactions\<close>: \<open>keelsql.go\<close> and \<open>conn.go\<close>, databases, transactions, sessions, streaming
    rows, schema changes and the dispatch of statements.  The contract of keelstore is the locale
    \<open>keel\<close>, interpreted by the in-memory store.
  \<^item> \<open>Locking\<close>: \<open>commitMu\<close>.  Sessions interleave at every lock operation, snapshot and single write
    (\<open>db_step\<close>); no snapshot lands inside the writes of a commit or a schema change.  Elsewhere a statement
    is one step.
  \<^item> \<open>EndToEnd\<close>: SELECT, with GROUP BY and without, UPDATE, DELETE and INSERT from the session down to the bytes
    of the store.
  \<^item> \<open>Schema\<close>, \<open>Consistency\<close>: the invariant of a whole database (\<open>healthy\<close>: a valid and stored catalog, every
    table's keys its rows and entries, no other key) through CREATE and DROP of tables and indexes, and
    through every statement, script and serial schedule of sessions.
  \<^item> \<open>Format\<close>, \<open>Shell\<close>: \<open>format.go\<close> and \<open>cmd/keelsql/main.go\<close>, tables as text, the read loop and the command.

  Parameters.  keelstore (a record of its four operations; what the code relies on is \<open>keel\<close>, whose
  writes do not fail), \<open>encoding/json\<close> (a pair of functions; what is relied on is that reading gives
  back the table that was written: \<open>json_ok\<close>, met by the codec \<open>plain_json\<close>), the letter case of runes outside
  ASCII (\<open>casing\<close>), Go's \<open>%q\<close>, what \<open>keelstore.Open\<close> answers, the lines a terminal delivers and the timings the
  shell prints.

  Fuel.  Loops over an operator tree run with the fuel \<open>op_size\<close> of the tree plus one: each row
  handed out makes the tree smaller.  A call of \<open>Next\<close> recurses along the tree, bounded by
  \<open>op_depth\<close>.  The parser's loops and its nested expressions start with four times the length of
  the text plus 12, and a token takes at least one byte.  That none of this ever runs out is proved: \<open>op_Next_rows\<close>, \<open>RunDML_returns\<close>, \<open>Parse_returns\<close>, \<open>session_machine\<close>.

  Exceptions that the properties state.  A range on an index without a lower bound also visits NULL
  (\<open>no_slip\<close> excludes it, \<open>index_scan_returns_NULL\<close> shows it); \<open>-0.0\<close> and the NaNs other than
  \<open>math.NaN()\<close> are outside the order theorem of keys (\<open>key_ok\<close>); an index goes out of
  step with its table when it is created beside an open transaction (\<open>index_misses_open_inserts\<close>) and
  when two transactions update the same row (\<open>concurrent_updates_break_index\<close>), which is why \<open>Consistency\<close> lets a
  statement run only while no other session has a transaction open; there, too, the 32-bit counters of tables
  and indexes have room (\<open>room\<close>) and no primary key is FLOAT (\<open>update_equal_key_duplicates\<close>).
  Printed text that reads as something else: a name that is a keyword, a text with a backslash, the
  smallest INT, an infinite float or NaN, two minus signs in a row and a comparison as the pattern of LIKE
  (\<open>printable\<close> and \<open>expr_shape\<close> exclude them; \<open>keyword_name_unquoted\<close>, \<open>backslash_literal_broken\<close>
  and \<open>printing_ambiguous\<close> show some of them).

  Not modelled.  The mutexes of the catalog and of the in-memory store: each operation on them is one step.
  A crash in the middle of a commit.  \<open>Close\<close>, \<open>Release\<close> and
  \<open>Path\<close>: they hand resources back to the store.  keelstore, \<open>encoding/json\<close> and the case tables
  themselves: not in the repository.  The wording of error messages: errors carry their parts
  instead.  Parsing of the command's flags, which the standard library does.
\<close>

end
